(* ===== verification/Prelude.thy ===== *)
theory Prelude
  imports Main "HOL-Library.Multiset" "HOL-Library.Word"
begin

text \<open>
  Shared vocabulary of the development: the time types, the I/O error and \<open>Poll\<close> types that
  every crate of the workspace uses, labelled transition systems with their reachable states,
  and the generic list, option and map lemmas the component theories share.

  \<^item> \<open>Instant\<close> and \<open>Duration\<close> are natural numbers of nanoseconds on one monotonic clock.
  \<^item> \<open>io::Error\<close> is \<open>io_error\<close>: an OS error with its \<open>errno\<close>, a bare \<open>ErrorKind\<close>, or a
    kind with a message.  \<open>io::Result<T>\<close> is \<open>io_error + 'a\<close> with \<open>Inl\<close> for \<open>Err\<close>.
  \<^item> A component that runs on several threads is a labelled step function
    \<open>'l \<Rightarrow> 's \<Rightarrow> 's option\<close>: the label says which thread does which lock region, \<open>None\<close> says
    that the step is not enabled.  Its reachable states are \<open>reach\<close>, its runs are \<open>run\<close>.
\<close>

section \<open>Time, errors and polls\<close>

type_synonym instant = nat
type_synonym duration = nat
type_synonym u64 = "64 word"
type_synonym byte = "8 word"
type_synonym raw_fd = int
type_synonym location = "string \<times> nat"

datatype error_kind =
    WouldBlock | TimedOut | UnexpectedEof | WriteZero | InvalidInput | Interrupted | OtherKind

datatype io_error = Os int | Kind error_kind | Custom error_kind string

type_synonym 'a io_result = "io_error + 'a"

datatype 'a poll = Ready 'a | Pending

fun map_poll_result :: "('a \<Rightarrow> 'b) \<Rightarrow> 'a poll \<Rightarrow> 'b poll" where
  "map_poll_result f (Ready a) = Ready (f a)"
| "map_poll_result f Pending = Pending"

section \<open>Labelled transition systems\<close>

inductive reach :: "('s \<Rightarrow> bool) \<Rightarrow> ('l \<Rightarrow> 's \<Rightarrow> 's option) \<Rightarrow> 's \<Rightarrow> bool"
  for init :: "'s \<Rightarrow> bool" and step :: "'l \<Rightarrow> 's \<Rightarrow> 's option" where
  reach_init: "init s \<Longrightarrow> reach init step s"
| reach_step: "reach init step s \<Longrightarrow> step l s = Some t \<Longrightarrow> reach init step t"

fun run :: "('l \<Rightarrow> 's \<Rightarrow> 's option) \<Rightarrow> 'l list \<Rightarrow> 's \<Rightarrow> 's option" where
  "run step [] s = Some s"
| "run step (l # ls) s = (case step l s of None \<Rightarrow> None | Some t \<Rightarrow> run step ls t)"

lemma run_reach:
  assumes "reach init step s" and "run step ls s = Some t"
  shows "reach init step t"
  using assms
  by (induction ls arbitrary: s) (auto split: option.splits intro: reach_step)

lemma run_append:
  "run step (ls @ ms) s = (case run step ls s of None \<Rightarrow> None | Some t \<Rightarrow> run step ms t)"
  by (induction ls arbitrary: s) (auto split: option.splits)

lemma reach_init_run:
  assumes "init s" and "run step ls s = Some t"
  shows "reach init step t"
  using assms by (blast intro: run_reach reach_init)

text \<open>
  The contract every invariant proof discharges: the predicate holds initially and every enabled
  step keeps it.  The client's conclusion, that it holds in every reachable state, is proved
  once here.
\<close>

locale inductive_invariant =
  fixes init :: "'s \<Rightarrow> bool"
    and step :: "'l \<Rightarrow> 's \<Rightarrow> 's option"
    and inv :: "'s \<Rightarrow> bool"
  assumes inv_init: "init s \<Longrightarrow> inv s"
    and inv_step: "inv s \<Longrightarrow> step l s = Some t \<Longrightarrow> inv t"
begin

lemma reach_inv: "reach init step s \<Longrightarrow> inv s"
  by (induction rule: reach.induct) (auto intro: inv_init inv_step)

lemma run_inv: "inv s \<Longrightarrow> run step ls s = Some t \<Longrightarrow> inv t"
  by (induction ls arbitrary: s) (auto split: option.splits intro: inv_step)

end

section \<open>Lists, sums and maps\<close>

named_theorems machine_simps \<open>unfolding rules of the step functions of the machines\<close>

lemma sum_list_update_nat:
  fixes f :: "'a \<Rightarrow> nat"
  assumes "i < length xs"
  shows "sum_list (map f (xs[i := x])) + f (xs ! i) = sum_list (map f xs) + f x"
  using assms
proof (induction xs arbitrary: i)
  case Nil
  then show ?case by simp
next
  case (Cons y ys)
  then show ?case by (cases i) (auto simp: add_ac)
qed

lemma sum_list_update_same:
  fixes f :: "'a \<Rightarrow> nat"
  assumes "i < length xs" and "f x = f (xs ! i)"
  shows "sum_list (map f (xs[i := x])) = sum_list (map f xs)"
  using sum_list_update_nat [OF assms(1), of f x] assms(2) by simp

lemma sum_list_remove_nth:
  fixes f :: "'a \<Rightarrow> nat"
  assumes "i < length xs"
  shows "sum_list (map f (take i xs @ drop (Suc i) xs)) + f (xs ! i) = sum_list (map f xs)"
proof -
  have "sum_list (map f xs) = sum_list (map f (take i xs @ xs ! i # drop (Suc i) xs))"
    using assms by (simp add: id_take_nth_drop [symmetric])
  then show ?thesis by simp
qed

lemma in_set_remove_nth:
  assumes "i < length xs" and "x \<in> set xs"
  shows "x = xs ! i \<or> x \<in> set (take i xs @ drop (Suc i) xs)"
proof -
  have "set xs = set (take i xs @ xs ! i # drop (Suc i) xs)"
    using assms(1) by (simp add: id_take_nth_drop [symmetric])
  with assms(2) show ?thesis by auto
qed

lemma set_remove_nth_subset: "set (take i xs @ drop (Suc i) xs) \<subseteq> set xs"
  by (auto dest: in_set_takeD in_set_dropD)

lemma sum_list_map_mset:
  fixes f :: "'a \<Rightarrow> nat"
  shows "sum_list (map f xs) = sum_mset (image_mset f (mset xs))"
  by (induction xs) auto

lemma sum_list_eq_if_mset:
  fixes f :: "'a \<Rightarrow> nat"
  assumes "mset xs = mset ys"
  shows "sum_list (map f xs) = sum_list (map f ys)"
  using assms by (simp add: sum_list_map_mset)

end
