(* ===== verification/Binary_Heap.thy ===== *)
theory Binary_Heap
  imports Prelude
begin

text \<open>
  \<open>std::collections::BinaryHeap\<close>, the array-backed max-heap that four components of the
  workspace order their entries with (the ready queue, each sequence's delayed tasks, the
  delayed-task manager and the I/O runner's timers).  The operations follow the standard
  library's algorithm: \<open>push\<close> appends and sifts up; \<open>pop\<close> moves the last element to the root,
  sifts it down to the bottom along the larger children and then sifts it up.  They take the
  comparison \<open>le\<close> of the entries (Rust's \<open>Ord\<close>), so each component interprets the locale
  \<open>heap_order\<close> once, on its own \<open>Ord\<close> implementation.
\<close>

section \<open>Operations\<close>

definition swap :: "nat \<Rightarrow> nat \<Rightarrow> 'a list \<Rightarrow> 'a list" where
  "swap i j h = h[i := h ! j, j := h ! i]"

definition parent :: "nat \<Rightarrow> nat" where
  "parent i = (i - 1) div 2"

function sift_up :: "('a \<Rightarrow> 'a \<Rightarrow> bool) \<Rightarrow> nat \<Rightarrow> 'a list \<Rightarrow> 'a list" where
  "sift_up le pos h =
     (if pos = 0 then h
      else if le (h ! pos) (h ! parent pos) then h
      else sift_up le (parent pos) (swap pos (parent pos) h))"
  by pat_completeness auto
termination
  by (relation "measure (\<lambda>(le, pos, h). pos)") (auto simp: parent_def)

definition larger_child :: "('a \<Rightarrow> 'a \<Rightarrow> bool) \<Rightarrow> 'a list \<Rightarrow> nat \<Rightarrow> nat" where
  "larger_child le h child = (if le (h ! child) (h ! (child + 1)) then child + 1 else child)"

function sift_down_to_bottom :: "('a \<Rightarrow> 'a \<Rightarrow> bool) \<Rightarrow> nat \<Rightarrow> 'a list \<Rightarrow> nat \<times> 'a list" where
  "sift_down_to_bottom le pos h =
     (let n = length h; child = 2 * pos + 1
      in if child + 2 \<le> n
         then let c = larger_child le h child
              in sift_down_to_bottom le c (swap pos c h)
         else if child + 1 = n then (child, swap pos child h)
         else (pos, h))"
  by pat_completeness auto
termination
  by (relation "measure (\<lambda>(le, pos, h). length h - pos)") (auto simp: swap_def larger_child_def)

declare sift_up.simps [simp del] sift_down_to_bottom.simps [simp del]

definition heap_push :: "('a \<Rightarrow> 'a \<Rightarrow> bool) \<Rightarrow> 'a \<Rightarrow> 'a list \<Rightarrow> 'a list" where
  "heap_push le x h = sift_up le (length h) (h @ [x])"

definition heap_peek :: "'a list \<Rightarrow> 'a option" where
  "heap_peek h = (case h of [] \<Rightarrow> None | x # _ \<Rightarrow> Some x)"

definition heap_pop :: "('a \<Rightarrow> 'a \<Rightarrow> bool) \<Rightarrow> 'a list \<Rightarrow> ('a \<times> 'a list) option" where
  "heap_pop le h =
     (if h = [] then None
      else if length h = 1 then Some (hd h, [])
      else let (pos, h') = sift_down_to_bottom le 0 ((butlast h)[0 := last h])
           in Some (hd h, sift_up le pos h'))"

definition heap_ordered :: "('a \<Rightarrow> 'a \<Rightarrow> bool) \<Rightarrow> 'a list \<Rightarrow> bool" where
  "heap_ordered le h \<longleftrightarrow> (\<forall>i. 0 < i \<longrightarrow> i < length h \<longrightarrow> le (h ! i) (h ! parent i))"

section \<open>Elements are kept\<close>

lemma length_swap [simp]: "length (swap i j h) = length h"
  by (simp add: swap_def)

lemma mset_swap' [simp]: "i < length h \<Longrightarrow> j < length h \<Longrightarrow> mset (swap i j h) = mset h"
  by (simp add: swap_def mset_swap)

lemma nth_swap:
  assumes "i < length h" and "j < length h" and "k < length h"
  shows "swap i j h ! k = (if k = j then h ! i else if k = i then h ! j else h ! k)"
  using assms by (auto simp: swap_def nth_list_update)

lemma parent_less: "0 < i \<Longrightarrow> parent i < i"
  by (auto simp: parent_def)

lemma parent_eq_iff: "0 < i \<Longrightarrow> parent i = p \<longleftrightarrow> i = 2 * p + 1 \<or> i = 2 * p + 2"
  by (auto simp: parent_def)

lemma sift_up_keeps:
  "pos < length h \<Longrightarrow> length (sift_up le pos h) = length h \<and> mset (sift_up le pos h) = mset h"
proof (induction le pos h rule: sift_up.induct)
  case (1 le pos h)
  show ?case
  proof (cases "pos = 0 \<or> le (h ! pos) (h ! parent pos)")
    case True
    then show ?thesis by (auto simp: sift_up.simps [of le pos h])
  next
    case False
    moreover have "parent pos < length h" using False "1.prems" by (auto simp: parent_def)
    ultimately show ?thesis
      using "1.IH" "1.prems" by (auto simp: sift_up.simps [of le pos h])
  qed
qed

lemma sift_down_keeps:
  assumes "pos < length h" and "sift_down_to_bottom le pos h = (p, h')"
  shows "length h' = length h \<and> mset h' = mset h \<and> p < length h"
  using assms
proof (induction le pos h arbitrary: p h' rule: sift_down_to_bottom.induct)
  case (1 le pos h)
  let ?c = "larger_child le h (2 * pos + 1)"
  show ?case
  proof (cases "2 * pos + 1 + 2 \<le> length h")
    case True
    then have c: "?c < length h" by (auto simp: larger_child_def)
    have "sift_down_to_bottom le ?c (swap pos ?c h) = (p, h')"
      using "1.prems"(2) True by (subst (asm) sift_down_to_bottom.simps) (simp add: Let_def)
    with "1.IH" [OF refl refl True refl, of p h'] c "1.prems"(1) show ?thesis
      by (auto simp del: mset_swap' simp: mset_swap')
  next
    case False
    then show ?thesis
      using "1.prems" by (auto simp: sift_down_to_bottom.simps [of le pos h] Let_def split: if_splits)
  qed
qed

section \<open>The heap order\<close>

text \<open>
  What the algorithm relies on of \<open>Ord\<close>: a total preorder.  (Entries that compare equal need not
  be equal: the ready queue compares sort keys only.)
\<close>

locale heap_order =
  fixes le :: "'a \<Rightarrow> 'a \<Rightarrow> bool"
  assumes le_total: "le x y \<or> le y x"
    and le_trans: "le x y \<Longrightarrow> le y z \<Longrightarrow> le x z"
begin

lemma le_refl: "le x x"
  using le_total [of x x] by simp

definition hole_up :: "nat \<Rightarrow> 'a list \<Rightarrow> bool" where
  "hole_up pos h \<longleftrightarrow>
     (\<forall>i. 0 < i \<longrightarrow> i < length h \<longrightarrow>
        (i \<noteq> pos \<longrightarrow> le (h ! i) (h ! parent i)) \<and>
        (parent i = pos \<longrightarrow> 0 < pos \<longrightarrow> le (h ! i) (h ! parent pos)))"

definition hole_down :: "nat \<Rightarrow> 'a list \<Rightarrow> bool" where
  "hole_down pos h \<longleftrightarrow>
     (\<forall>i. 0 < i \<longrightarrow> i < length h \<longrightarrow>
        (i \<noteq> pos \<longrightarrow> parent i \<noteq> pos \<longrightarrow> le (h ! i) (h ! parent i)) \<and>
        (parent i = pos \<longrightarrow> 0 < pos \<longrightarrow> le (h ! i) (h ! parent pos)))"

lemma hole_up_swap:
  assumes inv: "hole_up pos h" and pos: "0 < pos" "pos < length h"
    and gt: "\<not> le (h ! pos) (h ! parent pos)"
  shows "hole_up (parent pos) (swap pos (parent pos) h)"
proof -
  let ?p = "parent pos"
  have p: "?p < pos" "?p < length h" using pos by (auto simp: parent_def)
  then have np: "?p \<noteq> pos" "pos \<noteq> ?p" by auto
  have up: "le (h ! ?p) (h ! pos)" using gt le_total by blast
  have edge: "le (h ! i) (h ! parent i)" if "0 < i" "i < length h" "i \<noteq> pos" for i
    using inv that by (auto simp: hole_up_def)
  have skip: "le (h ! i) (h ! ?p)" if "0 < i" "i < length h" "parent i = pos" for i
    using inv that pos by (auto simp: hole_up_def)
  show ?thesis unfolding hole_up_def
  proof (intro allI impI conjI)
    fix i assume i: "0 < i" "i < length (swap pos ?p h)" and ne: "i \<noteq> ?p"
    have pi: "parent i < length h" using i by (auto simp: parent_def)
    show "le (swap pos ?p h ! i) (swap pos ?p h ! parent i)"
    proof (cases "i = pos")
      case True
      then show ?thesis using p np pos up by (simp add: nth_swap)
    next
      case False
      then show ?thesis
        using edge [of i] skip [of i] up le_trans [of "h ! i" "h ! ?p" "h ! pos"] i ne p pos pi
        by (auto simp: nth_swap)
    qed
  next
    fix i assume i: "0 < i" "i < length (swap pos ?p h)" and pi: "parent i = ?p" and "0 < ?p"
    have pp: "parent ?p < ?p" "parent ?p < length h" using \<open>0 < ?p\<close> p parent_less [of ?p] by auto
    have top: "le (h ! ?p) (h ! parent ?p)" using edge [of ?p] p \<open>0 < ?p\<close> by auto
    have "i \<noteq> ?p" using i pi parent_less [of i] by auto
    show "le (swap pos ?p h ! i) (swap pos ?p h ! parent ?p)"
    proof (cases "i = pos")
      case True
      then show ?thesis using top p pp pos by (simp add: nth_swap)
    next
      case False
      then have "le (h ! i) (h ! ?p)" using edge [of i] i pi by auto
      with top have "le (h ! i) (h ! parent ?p)" using le_trans by blast
      then show ?thesis using False p pp pos i \<open>i \<noteq> ?p\<close> by (simp add: nth_swap)
    qed
  qed
qed

lemma sift_up_heap:
  "pos < length h \<Longrightarrow> hole_up pos h \<Longrightarrow> heap_ordered le (sift_up le pos h)"
proof (induction pos arbitrary: h rule: less_induct)
  case (less pos)
  show ?case
  proof (cases "pos = 0 \<or> le (h ! pos) (h ! parent pos)")
    case True
    then show ?thesis
      using less.prems by (auto simp: sift_up.simps [of le pos h] heap_ordered_def hole_up_def)
  next
    case False
    then have "hole_up (parent pos) (swap pos (parent pos) h)"
      using less.prems hole_up_swap by blast
    moreover have "parent pos < pos" using False by (simp add: parent_less)
    ultimately show ?thesis
      using less.IH [of "parent pos" "swap pos (parent pos) h"] less.prems False
      by (simp add: sift_up.simps [of le pos h])
  qed
qed

lemma hole_down_swap:
  assumes inv: "hole_down pos h" and c: "c < length h" "parent c = pos" "0 < c"
    and max: "\<And>i. 0 < i \<Longrightarrow> i < length h \<Longrightarrow> parent i = pos \<Longrightarrow> le (h ! i) (h ! c)"
  shows "hole_down c (swap pos c h)"
proof -
  have pc: "pos < c" using c parent_less [of c] by simp
  then have "pos < length h" using c by simp
  note pc = pc this
  have edge: "le (h ! i) (h ! parent i)"
    if "0 < i" "i < length h" "i \<noteq> pos" "parent i \<noteq> pos" for i
    using inv that by (auto simp: hole_down_def)
  have skip: "le (h ! c) (h ! parent pos)" if "0 < pos"
    using inv c that by (auto simp: hole_down_def)
  show ?thesis unfolding hole_down_def
  proof (intro allI impI conjI)
    fix i assume i: "0 < i" "i < length (swap pos c h)" and ne: "i \<noteq> c" "parent i \<noteq> c"
    have pi: "parent i < length h" "parent i \<noteq> i" using i parent_less [of i] by auto
    then show "le (swap pos c h ! i) (swap pos c h ! parent i)"
      using i ne pc c edge [of i] skip max [of i] by (auto simp: nth_swap)
  next
    fix i assume i: "0 < i" "i < length (swap pos c h)" and pi: "parent i = c"
    have "i \<noteq> c" "i \<noteq> pos" using i pi pc parent_less [of i] by auto
    then show "le (swap pos c h ! i) (swap pos c h ! parent c)"
      using i pi pc c edge [of i] by (auto simp: nth_swap)
  qed
qed

lemma sift_down_hole:
  assumes "pos < length h" and "hole_down pos h" and "sift_down_to_bottom le pos h = (p, h')"
  shows "hole_up p h'"
  using assms
proof (induction "length h - pos" arbitrary: pos h rule: less_induct)
  case less
  let ?l = "2 * pos + 1"
  let ?c = "larger_child le h ?l"
  have kids: "i = ?l \<or> i = ?l + 1" if "0 < i" "parent i = pos" for i
    using that parent_eq_iff [of i pos] by auto
  show ?case
  proof (cases "?l + 2 \<le> length h")
    case True
    have down: "hole_down ?c (swap pos ?c h)"
    proof (rule hole_down_swap [OF less.prems(2)])
      show "parent ?c = pos" by (simp add: parent_def larger_child_def)
      show "le (h ! i) (h ! ?c)" if "0 < i" "i < length h" "parent i = pos" for i
        using kids [of i] that le_total [of "h ! ?l" "h ! (?l + 1)"] le_refl
        by (auto simp: larger_child_def)
    qed (use True in \<open>auto simp: larger_child_def\<close>)
    have "sift_down_to_bottom le ?c (swap pos ?c h) = (p, h')"
      using less.prems(3) True by (subst (asm) sift_down_to_bottom.simps) (simp add: Let_def)
    moreover have "?c < length (swap pos ?c h)" using True by (auto simp: larger_child_def)
    moreover have "length (swap pos ?c h) - ?c < length h - pos"
      using True by (auto simp: larger_child_def)
    ultimately show ?thesis using less.hyps down by blast
  next
    case False
    show ?thesis
    proof (cases "?l + 1 = length h")
      case True
      have "hole_down ?l (swap pos ?l h)"
      proof (rule hole_down_swap [OF less.prems(2)])
        show "parent ?l = pos" by (simp add: parent_def)
        show "le (h ! i) (h ! ?l)" if "0 < i" "i < length h" "parent i = pos" for i
          using kids [of i] that True le_refl by auto
      qed (use True in auto)
      moreover have "p = ?l" "h' = swap pos ?l h"
        using less.prems(3) True by (auto simp: sift_down_to_bottom.simps [of le pos h] Let_def)
      moreover have "parent i \<noteq> ?l" if "0 < i" "i < length h" for i
        using that True parent_eq_iff [of i ?l] by auto
      ultimately show ?thesis by (auto simp: hole_up_def hole_down_def)
    next
      case inner: False
      then have "p = pos" "h' = h"
        using less.prems(3) False by (auto simp: sift_down_to_bottom.simps [of le pos h] Let_def)
      moreover have "parent i \<noteq> pos" if "0 < i" "i < length h" for i
        using kids [of i] that False inner by auto
      ultimately show ?thesis
        using less.prems(2) by (auto simp: hole_up_def hole_down_def)
    qed
  qed
qed

section \<open>Push, peek and pop\<close>

lemma heap_empty [simp]: "heap_ordered le []"
  by (simp add: heap_ordered_def)

lemma mset_push [simp]: "mset (heap_push le x h) = add_mset x (mset h)"
  using sift_up_keeps [of "length h" "h @ [x]" le] by (simp add: heap_push_def)

lemma heap_push_ordered:
  assumes "heap_ordered le h"
  shows "heap_ordered le (heap_push le x h)"
proof -
  have "hole_up (length h) (h @ [x])" unfolding hole_up_def
  proof (intro allI impI conjI)
    fix i assume i: "0 < i" "i < length (h @ [x])" and "i \<noteq> length h"
    then show "le ((h @ [x]) ! i) ((h @ [x]) ! parent i)"
      using assms parent_less [of i] by (auto simp: heap_ordered_def nth_append)
  next
    fix i assume "0 < i" "i < length (h @ [x])" "parent i = length h"
    then show "le ((h @ [x]) ! i) ((h @ [x]) ! parent (length h))"
      using parent_less [of i] by auto
  qed
  then show ?thesis by (simp add: heap_push_def sift_up_heap)
qed

lemma heap_root_max:
  assumes "heap_ordered le h" and "i < length h"
  shows "le (h ! i) (h ! 0)"
  using assms(2)
proof (induction i rule: less_induct)
  case (less i)
  show ?case
  proof (cases "i = 0")
    case False
    then have "le (h ! i) (h ! parent i)" using assms(1) less.prems by (simp add: heap_ordered_def)
    moreover have "parent i < i" using False by (simp add: parent_less)
    then have "le (h ! parent i) (h ! 0)" using less by simp
    ultimately show ?thesis using le_trans by blast
  qed (simp add: le_refl)
qed

lemma peek_max:
  assumes "heap_ordered le h" and "heap_peek h = Some x" and "y \<in> set h"
  shows "le y x"
proof -
  have "x = h ! 0" using assms(2) by (cases h) (auto simp: heap_peek_def)
  then show ?thesis using assms by (auto simp: in_set_conv_nth intro: heap_root_max)
qed

lemma pop_None [simp]: "heap_pop le h = None \<longleftrightarrow> h = []"
  by (auto simp: heap_pop_def Let_def split: prod.splits)

lemma pop_peek: "heap_pop le h = Some (x, h') \<Longrightarrow> heap_peek h = Some x"
  by (cases h) (auto simp: heap_pop_def heap_peek_def Let_def split: prod.splits if_splits)

lemma mset_pop:
  assumes "heap_pop le h = Some (x, h')"
  shows "mset h = add_mset x (mset h')"
proof (cases "length h = 1")
  case True
  then show ?thesis using assms by (cases h) (auto simp: heap_pop_def)
next
  case False
  let ?h = "(butlast h)[0 := last h]"
  have ne: "h \<noteq> []" using assms by (auto simp: heap_pop_def)
  obtain p g where g: "sift_down_to_bottom le 0 ?h = (p, g)" by fastforce
  have len: "0 < length ?h" using ne False by (cases h) auto
  then have k: "length g = length ?h" "mset g = mset ?h" "p < length ?h"
    using sift_down_keeps [OF len g] by auto
  then have "mset h' = mset ?h"
    using assms False ne g sift_up_keeps [of p g le] by (auto simp: heap_pop_def)
  moreover have "x = hd h" using assms False ne g by (auto simp: heap_pop_def)
  moreover obtain a zs where bl: "butlast h = a # zs" using len by (cases "butlast h") auto
  then have "h = a # zs @ [last h]" using ne append_butlast_last_id [of h] by simp
  then obtain z where "h = a # zs @ [z]" by blast
  ultimately show ?thesis using bl by (auto simp: butlast_append)
qed

lemma heap_pop_ordered:
  assumes "heap_ordered le h" and "heap_pop le h = Some (x, h')"
  shows "heap_ordered le h'"
proof (cases "length h = 1")
  case True
  then show ?thesis using assms by (cases h) (auto simp: heap_pop_def)
next
  case False
  let ?h = "(butlast h)[0 := last h]"
  have ne: "h \<noteq> []" using assms by (auto simp: heap_pop_def)
  obtain p g where g: "sift_down_to_bottom le 0 ?h = (p, g)" by fastforce
  have len: "0 < length ?h" using ne False by (cases h) auto
  have "hole_down 0 ?h" unfolding hole_down_def
  proof (intro allI impI conjI)
    fix i assume i: "0 < i" "i < length ?h" and "parent i \<noteq> 0"
    moreover have "parent i < length (butlast h)" using i parent_less [of i] by auto
    ultimately show "le (?h ! i) (?h ! parent i)"
      using assms(1) by (auto simp: heap_ordered_def nth_butlast)
  qed simp
  then have "hole_up p g" using sift_down_hole [OF len _ g] by blast
  moreover have "p < length g" using sift_down_keeps [OF len g] by auto
  moreover have "h' = sift_up le p g" using assms(2) False ne g by (auto simp: heap_pop_def)
  ultimately show ?thesis by (simp add: sift_up_heap)
qed

lemma pop_max:
  assumes "heap_ordered le h" and "heap_pop le h = Some (x, h')" and "y \<in> set h"
  shows "le y x"
  using assms peek_max pop_peek by blast

lemma set_pop: "heap_pop le h = Some (x, h') \<Longrightarrow> set h = insert x (set h')"
  using mset_pop [of h x h'] by (metis set_mset_add_mset_insert set_mset_mset)

lemma set_push [simp]: "set (heap_push le x h) = insert x (set h)"
  using mset_push [of x h] by (metis set_mset_add_mset_insert set_mset_mset)

lemma length_push [simp]: "length (heap_push le x h) = Suc (length h)"
  using arg_cong [OF mset_push, of size x h] by (simp flip: size_mset)

lemma length_pop: "heap_pop le h = Some (x, h') \<Longrightarrow> length h = Suc (length h')"
  using mset_pop [of h x h'] by (metis size_add_mset size_mset)

end

lemma heap_peek_None [simp]: "heap_peek h = None \<longleftrightarrow> h = []"
  by (cases h) (auto simp: heap_peek_def)

lemma heap_peek_Nil [simp]: "heap_peek [] = None"
  by (simp add: heap_peek_def)

lemma heap_peek_in_set: "heap_peek h = Some x \<Longrightarrow> x \<in> set h"
  by (cases h) (auto simp: heap_peek_def)

end
