(* ===== verification/Task_Model.thy ===== *)
theory Task_Model
  imports Prelude
begin

text \<open>
  The vocabulary of \<open>rust_task\<close>: task traits (\<open>task_traits.rs\<close>), sequence tokens and the
  thread-local "current" values (\<open>sequence_token.rs\<close>, \<open>sequenced_task_runner.rs\<close>,
  \<open>thread_pool/worker_thread.rs\<close>), the \<open>Task\<close> struct (\<open>task.rs\<close>), and the closures the crate
  builds around a client's callback.

  A \<open>Box<dyn FnOnce()>\<close> is a value of type \<open>'u closure\<close>: \<open>User u\<close> is a callback the client
  supplied (its body is not code of the repository), \<open>WithReply\<close> the closure that
  \<open>post_task_and_reply\<close> builds from two of them, \<open>Timed\<close> the one of \<open>TaskMonitor::wrap_task\<close>,
  and \<open>Tracked\<close> the one of \<open>ThreadPool::wrap\<close>, which is always outermost.  What running each
  of them does is in \<open>Thread_Pool_Model\<close>.
\<close>

section \<open>Traits\<close>

datatype task_priority = BestEffort | UserVisible | UserBlocking

datatype task_shutdown_behavior = ContinueOnShutdown | SkipOnShutdown | BlockShutdown

datatype thread_policy = PreferBackground | MustUseForeground

record task_traits =
  tt_priority :: task_priority
  tt_shutdown_behavior :: task_shutdown_behavior
  tt_thread_policy :: thread_policy
  tt_may_block :: bool

definition default_traits :: task_traits where
  "default_traits =
     \<lparr>tt_priority = UserVisible, tt_shutdown_behavior = SkipOnShutdown,
      tt_thread_policy = PreferBackground, tt_may_block = False\<rparr>"

text \<open>\<open>#[derive(PartialOrd, Ord)]\<close> on \<open>TaskPriority\<close>: the order of declaration.\<close>

instantiation task_priority :: linorder
begin

fun prio_rank :: "task_priority \<Rightarrow> nat" where
  "prio_rank BestEffort = 0"
| "prio_rank UserVisible = 1"
| "prio_rank UserBlocking = 2"

definition less_eq_task_priority :: "task_priority \<Rightarrow> task_priority \<Rightarrow> bool" where
  "less_eq_task_priority p q = (prio_rank p \<le> prio_rank q)"

definition less_task_priority :: "task_priority \<Rightarrow> task_priority \<Rightarrow> bool" where
  "less_task_priority p q = (prio_rank p < prio_rank q)"

instance
proof
  fix p q r :: task_priority
  show "(p < q) = (p \<le> q \<and> \<not> q \<le> p)"
    by (auto simp: less_eq_task_priority_def less_task_priority_def)
  show "p \<le> p" by (simp add: less_eq_task_priority_def)
  show "p \<le> q \<Longrightarrow> q \<le> r \<Longrightarrow> p \<le> r" by (simp add: less_eq_task_priority_def)
  show "p \<le> q \<Longrightarrow> q \<le> p \<Longrightarrow> p = q"
    by (cases p; cases q) (auto simp: less_eq_task_priority_def)
  show "p \<le> q \<or> q \<le> p" by (auto simp: less_eq_task_priority_def)
qed

end

section \<open>Sequence tokens and thread-local state\<close>

text \<open>\<open>NEXT_SEQUENCE_ID\<close> is a process-wide \<open>AtomicU64\<close> that starts at 1; \<open>fetch_add\<close> wraps.\<close>

datatype sequence_token = SequenceToken u64

definition initial_sequence_id :: u64 where
  "initial_sequence_id = 1"

definition create_token :: "u64 \<Rightarrow> sequence_token \<times> u64" where
  "create_token next_id = (SequenceToken next_id, next_id + 1)"

text \<open>
  The thread-locals of one thread: \<open>CURRENT_SEQUENCE_TOKEN\<close>, and \<open>CURRENT_DEFAULT\<close> over the
  type \<open>'r\<close> of runner handles.
\<close>

record 'r thread_locals =
  tl_sequence_token :: "sequence_token option"
  tl_current_default :: "'r option"

definition fresh_thread :: "'r thread_locals" where
  "fresh_thread = \<lparr>tl_sequence_token = None, tl_current_default = None\<rparr>"

definition token_current :: "'r thread_locals \<Rightarrow> sequence_token option" where
  "token_current th = tl_sequence_token th"

definition token_set_current :: "sequence_token option \<Rightarrow> 'r thread_locals \<Rightarrow> 'r thread_locals" where
  "token_set_current t th = th\<lparr>tl_sequence_token := t\<rparr>"

definition current_default :: "'r thread_locals \<Rightarrow> 'r option" where
  "current_default th = tl_current_default th"

definition has_current_default :: "'r thread_locals \<Rightarrow> bool" where
  "has_current_default th = (tl_current_default th \<noteq> None)"

text \<open>\<open>CurrentDefaultHandle\<close>: saves the previous default, restores it when it is dropped.\<close>

datatype 'r current_default_handle = CurrentDefaultHandle "'r option"

definition default_handle_new ::
    "'r \<Rightarrow> 'r thread_locals \<Rightarrow> 'r current_default_handle \<times> 'r thread_locals" where
  "default_handle_new runner th =
     (CurrentDefaultHandle (tl_current_default th), th\<lparr>tl_current_default := Some runner\<rparr>)"

fun default_handle_drop ::
    "'r current_default_handle \<Rightarrow> 'r thread_locals \<Rightarrow> 'r thread_locals" where
  "default_handle_drop (CurrentDefaultHandle previous) th = th\<lparr>tl_current_default := previous\<rparr>"

text \<open>\<open>ScopedSequenceToken\<close>: sets the token, clears it (to \<open>None\<close>, not to the previous one).\<close>

definition scoped_token_new :: "sequence_token \<Rightarrow> 'r thread_locals \<Rightarrow> 'r thread_locals" where
  "scoped_token_new t th = token_set_current (Some t) th"

definition scoped_token_drop :: "'r thread_locals \<Rightarrow> 'r thread_locals" where
  "scoped_token_drop th = token_set_current None th"

section \<open>Tasks and closures\<close>

datatype 'u body =
    User 'u
  | WithReply 'u "nat option" 'u
  | Timed instant "'u body"

datatype 'u closure =
    Plain "'u body"
  | Tracked task_traits "'u body"

record 'u task =
  tk_callback :: "'u closure"
  tk_posted_from :: location
  tk_delayed_run_time :: "instant option"
  tk_sequence_num :: u64

definition task_new :: "location \<Rightarrow> 'u closure \<Rightarrow> 'u task" where
  "task_new loc cb =
     \<lparr>tk_callback = cb, tk_posted_from = loc, tk_delayed_run_time = None, tk_sequence_num = 0\<rparr>"

definition task_new_delayed :: "location \<Rightarrow> 'u closure \<Rightarrow> instant \<Rightarrow> 'u task" where
  "task_new_delayed loc cb run_time =
     \<lparr>tk_callback = cb, tk_posted_from = loc, tk_delayed_run_time = Some run_time,
      tk_sequence_num = 0\<rparr>"

section \<open>Properties\<close>

lemma default_handle_restores:
  "default_handle_new r th = (h, th') \<Longrightarrow> default_handle_drop h th' = th"
  by (auto simp: default_handle_new_def)

lemma default_handle_installs:
  "default_handle_new r th = (h, th') \<Longrightarrow> current_default th' = Some r"
  by (auto simp: default_handle_new_def current_default_def)

lemma create_token_distinct:
  assumes "create_token n = (t, n')" and "create_token n' = (t', n'')"
  shows "t \<noteq> t'"
  using assms by (auto simp: create_token_def)

end
