(* ===== verification/Sequence_Model.thy ===== *)
theory Sequence_Model
  imports Binary_Heap Task_Model
begin

text \<open>
  \<open>thread_pool/sequence.rs\<close> and the \<open>TaskSource\<close> interface of \<open>thread_pool/task_source.rs\<close>: a
  FIFO queue of immediate tasks, a min-heap of delayed tasks, and the \<open>has_worker\<close> flag that
  keeps a sequence on one worker at a time.  Each operation is one lock region of the source
  (\<open>did_process_task\<close> is two: the atomic store and the check under the lock).

  The abstract view of a sequence is a FIFO list; \<open>task_source\<close> is the contract the worker loop
  relies on, and \<open>Sequence\<close> is interpreted as an instance of it.
\<close>

section \<open>Types\<close>

datatype run_status = Disallowed | AllowedNotSaturated | AllowedSaturated

record task_source_sort_key =
  sk_priority :: task_priority
  sk_ready_time :: instant

record execution_environment =
  ee_token :: sequence_token
  ee_task_runner :: "nat option"

record 'u delayed_task =
  dt_ready_time :: instant
  dt_sequence_num :: u64
  dt_task :: "'u task"

text \<open>
  \<open>Ord for DelayedTask\<close> compares \<open>ready_time\<close>, then \<open>sequence_num\<close>; the heap holds
  \<open>Reverse<DelayedTask>\<close>, so the heap's \<open>\<le>\<close> is the reversed comparison.
\<close>

definition delayed_le :: "'u delayed_task \<Rightarrow> 'u delayed_task \<Rightarrow> bool" where
  "delayed_le a b \<longleftrightarrow>
     dt_ready_time a < dt_ready_time b \<or>
     (dt_ready_time a = dt_ready_time b \<and> dt_sequence_num a \<le> dt_sequence_num b)"

definition reverse_delayed_le :: "'u delayed_task \<Rightarrow> 'u delayed_task \<Rightarrow> bool" where
  "reverse_delayed_le a b = delayed_le b a"

record 'u sequence_inner =
  si_immediate_queue :: "'u task list"
  si_delayed_queue :: "'u delayed_task list"
  si_next_sequence_num :: u64

record 'u sequence =
  sq_token :: sequence_token
  sq_inner :: "'u sequence_inner"
  sq_has_worker :: bool
  sq_traits :: task_traits
  sq_task_runner :: "nat option"

section \<open>Operations\<close>

definition sequence_new :: "sequence_token \<Rightarrow> task_traits \<Rightarrow> 'u sequence" where
  "sequence_new tok traits =
     \<lparr>sq_token = tok,
      sq_inner = \<lparr>si_immediate_queue = [], si_delayed_queue = [], si_next_sequence_num = 0\<rparr>,
      sq_has_worker = False, sq_traits = traits, sq_task_runner = None\<rparr>"

definition set_task_runner :: "nat \<Rightarrow> 'u sequence \<Rightarrow> 'u sequence" where
  "set_task_runner runner q = q\<lparr>sq_task_runner := Some runner\<rparr>"

definition inner_push_task :: "'u task \<Rightarrow> 'u sequence_inner \<Rightarrow> 'u sequence_inner" where
  "inner_push_task task inner =
     (let task' = task\<lparr>tk_sequence_num := si_next_sequence_num inner\<rparr>
      in inner\<lparr>si_next_sequence_num := si_next_sequence_num inner + 1,
              si_immediate_queue := si_immediate_queue inner @ [task']\<rparr>)"

definition push_task :: "'u task \<Rightarrow> 'u sequence \<Rightarrow> 'u sequence" where
  "push_task task q = q\<lparr>sq_inner := inner_push_task task (sq_inner q)\<rparr>"

definition inner_push_delayed_task ::
    "'u task \<Rightarrow> instant \<Rightarrow> 'u sequence_inner \<Rightarrow> 'u sequence_inner" where
  "inner_push_delayed_task task ready_time inner =
     (let task' = task\<lparr>tk_sequence_num := si_next_sequence_num inner\<rparr>
      in inner\<lparr>si_next_sequence_num := si_next_sequence_num inner + 1,
              si_delayed_queue := heap_push reverse_delayed_le
                \<lparr>dt_ready_time = ready_time, dt_sequence_num = tk_sequence_num task',
                 dt_task = task'\<rparr>
                (si_delayed_queue inner)\<rparr>)"

definition push_delayed_task :: "'u task \<Rightarrow> instant \<Rightarrow> 'u sequence \<Rightarrow> 'u sequence" where
  "push_delayed_task task ready_time q =
     q\<lparr>sq_inner := inner_push_delayed_task task ready_time (sq_inner q)\<rparr>"

lemma heap_pop_shrinks: "heap_pop le h = Some (x, h') \<Longrightarrow> length h' < length h"
proof -
  assume pop: "heap_pop le h = Some (x, h')"
  show ?thesis
  proof (cases "length h = 1 \<or> h = []")
    case True
    then show ?thesis using pop by (auto simp: heap_pop_def split: if_splits)
  next
    case False
    let ?g = "(butlast h)[0 := last h]"
    obtain p g where g: "sift_down_to_bottom le 0 ?g = (p, g)" by fastforce
    have len: "0 < length ?g" using False by (cases h) auto
    have "h' = sift_up le p g" using pop False g by (auto simp: heap_pop_def)
    then have "length h' = length ?g"
      using sift_down_keeps [OF len g] sift_up_keeps [of p g le] by auto
    then show ?thesis using False by simp
  qed
qed

text \<open>
  The \<open>while let Some(delayed) = peek()\<close> loop of \<open>flush_ready_delayed_tasks\<close>.  It pops one
  element per iteration, so it ends.
\<close>

function flush_ready_delayed_tasks :: "instant \<Rightarrow> 'u sequence_inner \<Rightarrow> 'u sequence_inner" where
  "flush_ready_delayed_tasks now inner =
     (case heap_peek (si_delayed_queue inner) of
        None \<Rightarrow> inner
      | Some delayed \<Rightarrow>
          if dt_ready_time delayed \<le> now
          then (case heap_pop reverse_delayed_le (si_delayed_queue inner) of
                  None \<Rightarrow> inner
                | Some (popped, rest) \<Rightarrow>
                    flush_ready_delayed_tasks now
                      (inner\<lparr>si_delayed_queue := rest,
                             si_immediate_queue := si_immediate_queue inner @ [dt_task popped]\<rparr>))
          else inner)"
  by pat_completeness auto
termination
  by (relation "measure (\<lambda>(now, inner). length (si_delayed_queue inner))")
     (auto dest: heap_pop_shrinks)

declare flush_ready_delayed_tasks.simps [simp del]

definition get_execution_environment :: "(nat \<Rightarrow> bool) \<Rightarrow> 'u sequence \<Rightarrow> execution_environment" where
  "get_execution_environment alive q =
     \<lparr>ee_token = sq_token q,
      ee_task_runner =
        (case sq_task_runner q of None \<Rightarrow> None | Some r \<Rightarrow> if alive r then Some r else None)\<rparr>"

definition get_sort_key :: "instant \<Rightarrow> 'u sequence \<Rightarrow> task_source_sort_key" where
  "get_sort_key now q = \<lparr>sk_priority = tt_priority (sq_traits q), sk_ready_time = now\<rparr>"

definition inner_has_ready :: "instant \<Rightarrow> 'u sequence_inner \<Rightarrow> bool" where
  "inner_has_ready now inner \<longleftrightarrow>
     si_immediate_queue inner \<noteq> [] \<or>
     (case heap_peek (si_delayed_queue inner) of None \<Rightarrow> False | Some d \<Rightarrow> dt_ready_time d \<le> now)"

definition has_ready_tasks :: "instant \<Rightarrow> 'u sequence \<Rightarrow> bool" where
  "has_ready_tasks now q = inner_has_ready now (sq_inner q)"

definition will_run_task :: "'u sequence \<Rightarrow> run_status \<times> 'u sequence" where
  "will_run_task q =
     (if sq_has_worker q then (Disallowed, q\<lparr>sq_has_worker := True\<rparr>)
      else (AllowedNotSaturated, q\<lparr>sq_has_worker := True\<rparr>))"

definition take_task :: "instant \<Rightarrow> 'u sequence \<Rightarrow> 'u task option \<times> 'u sequence" where
  "take_task now q =
     (let inner = flush_ready_delayed_tasks now (sq_inner q)
      in case si_immediate_queue inner of
           [] \<Rightarrow> (None, q\<lparr>sq_inner := inner\<rparr>)
         | t # ts \<Rightarrow> (Some t, q\<lparr>sq_inner := inner\<lparr>si_immediate_queue := ts\<rparr>\<rparr>))"

definition did_process_store :: "'u sequence \<Rightarrow> 'u sequence" where
  "did_process_store q = q\<lparr>sq_has_worker := False\<rparr>"

definition did_process_check :: "instant \<Rightarrow> 'u sequence \<Rightarrow> bool" where
  "did_process_check now q = inner_has_ready now (sq_inner q)"

definition did_process_task :: "instant \<Rightarrow> 'u sequence \<Rightarrow> bool \<times> 'u sequence" where
  "did_process_task now q = (did_process_check now q, did_process_store q)"

definition will_re_enqueue :: "instant \<Rightarrow> 'u sequence \<Rightarrow> bool" where
  "will_re_enqueue now q = has_ready_tasks now q"

text \<open>
  The body of \<open>worker_loop\<close> on one source (\<open>thread_group.rs\<close>): claim, take and run one task,
  release; a rejected claim does nothing.  The result is the task that was run and whether the
  loop pushes the source back.  \<open>drain\<close> repeats the body for as long as the source is pushed
  back; it takes fuel, since a source may always have a next task.
\<close>

definition source_body ::
    "('q \<Rightarrow> run_status \<times> 'q) \<Rightarrow> (instant \<Rightarrow> 'q \<Rightarrow> 't option \<times> 'q) \<Rightarrow> (instant \<Rightarrow> 'q \<Rightarrow> bool \<times> 'q)
     \<Rightarrow> instant \<Rightarrow> 'q \<Rightarrow> ('t option \<times> bool) \<times> 'q" where
  "source_body claim get finish now q =
     (case claim q of
        (Disallowed, q1) \<Rightarrow> ((None, False), q1)
      | (_, q1) \<Rightarrow>
          (case get now q1 of
             (task, q2) \<Rightarrow> (case finish now q2 of (again, q3) \<Rightarrow> ((task, again), q3))))"

definition worker_body :: "instant \<Rightarrow> 'u sequence \<Rightarrow> ('u task option \<times> bool) \<times> 'u sequence" where
  "worker_body now q = source_body will_run_task take_task did_process_task now q"

fun drain :: "('q \<Rightarrow> ('t option \<times> bool) \<times> 'q) \<Rightarrow> nat \<Rightarrow> 'q \<Rightarrow> ('t list \<times> 'q) option" where
  "drain body 0 q = None"
| "drain body (Suc n) q =
     (case body q of
        ((task, again), q') \<Rightarrow>
          if again
          then (case drain body n q' of
                  None \<Rightarrow> None
                | Some (ts, q'') \<Rightarrow> Some ((case task of None \<Rightarrow> ts | Some t \<Rightarrow> t # ts), q''))
          else Some ((case task of None \<Rightarrow> [] | Some t \<Rightarrow> [t]), q'))"

text \<open>Well-formed sequences: the delayed queue is a heap.\<close>

definition sequence_wf :: "'u sequence \<Rightarrow> bool" where
  "sequence_wf q = heap_ordered reverse_delayed_le (si_delayed_queue (sq_inner q))"

section \<open>The delayed queue is a heap\<close>

interpretation seq_heap: heap_order reverse_delayed_le
  by unfold_locales (auto simp: reverse_delayed_le_def delayed_le_def)

definition due :: "instant \<Rightarrow> 'u delayed_task \<Rightarrow> bool" where
  "due now d \<longleftrightarrow> dt_ready_time d \<le> now"

lemma peek_not_due:
  assumes "heap_ordered reverse_delayed_le h" and "heap_peek h = Some d" and "\<not> due now d"
    and "e \<in> set h"
  shows "\<not> due now e"
  using seq_heap.peek_max [OF assms(1,2,4)] assms(3)
  by (auto simp: due_def reverse_delayed_le_def delayed_le_def)

lemma flush_step:
  assumes "heap_pop reverse_delayed_le (si_delayed_queue inner) = Some (d, rest)" and "due now d"
  shows "flush_ready_delayed_tasks now inner =
         flush_ready_delayed_tasks now
           (inner\<lparr>si_delayed_queue := rest,
                  si_immediate_queue := si_immediate_queue inner @ [dt_task d]\<rparr>)"
  using assms seq_heap.pop_peek [OF assms(1)]
  by (simp add: flush_ready_delayed_tasks.simps [of now inner] due_def)

lemma flush_stop:
  assumes "\<And>d. heap_peek (si_delayed_queue inner) = Some d \<Longrightarrow> \<not> due now d"
  shows "flush_ready_delayed_tasks now inner = inner"
  using assms by (auto simp: flush_ready_delayed_tasks.simps [of now inner] due_def split: option.splits)

text \<open>
  What one flush does: the due tasks, and only they, move to the back of the immediate queue, in
  the order of their deadlines and, at equal deadlines, of their sequence numbers.
\<close>

lemma flush_moves_due_tasks:
  assumes "heap_ordered reverse_delayed_le (si_delayed_queue inner)"
  shows "\<exists>ds rest. flush_ready_delayed_tasks now inner =
            inner\<lparr>si_delayed_queue := rest,
                  si_immediate_queue := si_immediate_queue inner @ map dt_task ds\<rparr>
          \<and> mset (si_delayed_queue inner) = mset ds + mset rest
          \<and> sorted_wrt delayed_le ds
          \<and> (\<forall>d \<in> set ds. due now d) \<and> (\<forall>d \<in> set rest. \<not> due now d)
          \<and> heap_ordered reverse_delayed_le rest"
  using assms
proof (induction "length (si_delayed_queue inner)" arbitrary: inner rule: less_induct)
  case less
  show ?case
  proof (cases "\<exists>d. heap_peek (si_delayed_queue inner) = Some d \<and> due now d")
    case False
    then have stop: "flush_ready_delayed_tasks now inner = inner" by (auto intro: flush_stop)
    have "\<not> due now d" if mem: "d \<in> set (si_delayed_queue inner)" for d
    proof -
      obtain d' where "heap_peek (si_delayed_queue inner) = Some d'"
        using mem by (cases "si_delayed_queue inner") (auto simp: heap_peek_def)
      then show ?thesis using False peek_not_due [OF less.prems _ _ mem] by blast
    qed
    then show ?thesis
      using stop less.prems
      by (rule_tac exI [of _ "[]"], rule_tac exI [of _ "si_delayed_queue inner"]) simp
  next
    case True
    then obtain d rest where pop: "heap_pop reverse_delayed_le (si_delayed_queue inner) = Some (d, rest)"
      by (cases "heap_pop reverse_delayed_le (si_delayed_queue inner)") auto
    then have d: "due now d" using True seq_heap.pop_peek by fastforce
    let ?inner = "inner\<lparr>si_delayed_queue := rest,
                        si_immediate_queue := si_immediate_queue inner @ [dt_task d]\<rparr>"
    have "heap_ordered reverse_delayed_le rest"
      using less.prems pop seq_heap.heap_pop_ordered by blast
    then obtain ds rest' where IH: "flush_ready_delayed_tasks now ?inner =
            ?inner\<lparr>si_delayed_queue := rest',
                   si_immediate_queue := si_immediate_queue ?inner @ map dt_task ds\<rparr>"
        "mset rest = mset ds + mset rest'" "sorted_wrt delayed_le ds"
        "\<forall>d \<in> set ds. due now d" "\<forall>d \<in> set rest'. \<not> due now d"
        "heap_ordered reverse_delayed_le rest'"
      using less.hyps [of ?inner] heap_pop_shrinks [OF pop] by auto
    have "delayed_le d e" if "e \<in> set ds" for e
    proof -
      have "e \<in> set rest" using that IH(2) by (metis set_mset_mset set_mset_union UnI1)
      then have "e \<in> set (si_delayed_queue inner)" using seq_heap.set_pop [OF pop] by simp
      then show ?thesis
        using seq_heap.pop_max [OF less.prems pop] by (simp add: reverse_delayed_le_def)
    qed
    then have "sorted_wrt delayed_le (d # ds)" using IH(3) by simp
    moreover have "flush_ready_delayed_tasks now inner =
            inner\<lparr>si_delayed_queue := rest',
                  si_immediate_queue := si_immediate_queue inner @ map dt_task (d # ds)\<rparr>"
      unfolding flush_step [OF pop d] IH(1) by simp
    moreover have "mset (si_delayed_queue inner) = mset (d # ds) + mset rest'"
      unfolding seq_heap.mset_pop [OF pop] IH(2) by simp
    moreover have "\<forall>e \<in> set (d # ds). due now e" using IH(4) d by simp
    ultimately show ?thesis using IH(5,6) by blast
  qed
qed

lemma flush_wf:
  "heap_ordered reverse_delayed_le (si_delayed_queue inner) \<Longrightarrow>
   heap_ordered reverse_delayed_le (si_delayed_queue (flush_ready_delayed_tasks now inner))"
  by (drule flush_moves_due_tasks [of inner now]) (elim exE conjE, simp)

lemma flush_nothing_due:
  assumes "\<forall>d \<in> set (si_delayed_queue inner). \<not> due now d"
  shows "flush_ready_delayed_tasks now inner = inner"
  by (rule flush_stop) (metis assms heap_peek_in_set)

lemma flush_none_due_left:
  assumes "heap_ordered reverse_delayed_le (si_delayed_queue inner)"
    and "d \<in> set (si_delayed_queue (flush_ready_delayed_tasks now inner))"
  shows "\<not> due now d"
proof -
  obtain ds rest :: "'a delayed_task list" where "flush_ready_delayed_tasks now inner =
            inner\<lparr>si_delayed_queue := rest,
                  si_immediate_queue := si_immediate_queue inner @ map dt_task ds\<rparr>"
      and rest: "\<forall>d \<in> set rest. \<not> due now d"
    using flush_moves_due_tasks [OF assms(1), of now] by blast
  then have "d \<in> set rest" using assms(2) by simp
  then show ?thesis using rest by blast
qed

section \<open>The ready list of a sequence\<close>

text \<open>
  \<open>ready_list now q\<close> is the abstract FIFO list that a worker sees at time \<open>now\<close>: the immediate
  queue after the due tasks have been flushed into it.
\<close>

definition ready_list :: "instant \<Rightarrow> 'u sequence \<Rightarrow> 'u task list" where
  "ready_list now q = si_immediate_queue (flush_ready_delayed_tasks now (sq_inner q))"

lemma inner_has_ready_iff:
  assumes "heap_ordered reverse_delayed_le (si_delayed_queue inner)"
  shows "inner_has_ready now inner \<longleftrightarrow> si_immediate_queue (flush_ready_delayed_tasks now inner) \<noteq> []"
proof -
  obtain ds rest :: "'a delayed_task list" where f: "flush_ready_delayed_tasks now inner =
            inner\<lparr>si_delayed_queue := rest,
                  si_immediate_queue := si_immediate_queue inner @ map dt_task ds\<rparr>"
      "mset (si_delayed_queue inner) = mset ds + mset rest"
      "\<forall>d \<in> set ds. due now d" "\<forall>d \<in> set rest. \<not> due now d"
    using flush_moves_due_tasks [OF assms, of now] by blast
  have set_eq: "set (si_delayed_queue inner) = set ds \<union> set rest"
    using f(2) by (metis set_mset_mset set_mset_union)
  show ?thesis
  proof (cases "heap_peek (si_delayed_queue inner)")
    case None
    then have "si_delayed_queue inner = []"
      by (cases "si_delayed_queue inner") (auto simp: heap_peek_def)
    then have "ds = []" using set_eq by simp
    then show ?thesis using f None by (simp add: inner_has_ready_def heap_peek_def)
  next
    case (Some d)
    have "ds \<noteq> [] \<longleftrightarrow> due now d"
    proof
      assume "ds \<noteq> []"
      then obtain e where "e \<in> set ds" by (cases ds) auto
      then show "due now d" using peek_not_due [OF assms Some] f(3) set_eq by blast
    next
      assume "due now d"
      then have "d \<in> set ds" using heap_peek_in_set [OF Some] f(4) set_eq by blast
      then show "ds \<noteq> []" by auto
    qed
    then show ?thesis using f Some by (auto simp: inner_has_ready_def due_def)
  qed
qed

lemma has_ready_iff: "sequence_wf q \<Longrightarrow> has_ready_tasks now q \<longleftrightarrow> ready_list now q \<noteq> []"
  by (simp add: has_ready_tasks_def ready_list_def sequence_wf_def inner_has_ready_iff)

lemma take_task_ready:
  assumes "sequence_wf q" and "take_task now q = (r, q')"
  shows "(case r of None \<Rightarrow> ready_list now q = [] \<and> ready_list now q' = []
          | Some t \<Rightarrow> ready_list now q = t # ready_list now q')"
    and "sequence_wf q'" and "sq_has_worker q' = sq_has_worker q"
proof -
  let ?f = "flush_ready_delayed_tasks now (sq_inner q)"
  have wf: "heap_ordered reverse_delayed_le (si_delayed_queue (sq_inner q))"
    using assms(1) by (simp add: sequence_wf_def)
  have idle: "flush_ready_delayed_tasks now (?f\<lparr>si_immediate_queue := ts\<rparr>) = ?f\<lparr>si_immediate_queue := ts\<rparr>"
    for ts using flush_none_due_left [OF wf] by (intro flush_nothing_due) simp
  have idle': "flush_ready_delayed_tasks now ?f = ?f"
    using flush_none_due_left [OF wf] by (intro flush_nothing_due) blast
  show "(case r of None \<Rightarrow> ready_list now q = [] \<and> ready_list now q' = []
          | Some t \<Rightarrow> ready_list now q = t # ready_list now q')"
    using assms(2) idle idle'
    by (auto simp: take_task_def ready_list_def Let_def split: list.splits)
  show "sequence_wf q'" "sq_has_worker q' = sq_has_worker q"
    using assms flush_wf [OF wf, of now]
    by (auto simp: take_task_def sequence_wf_def Let_def split: list.splits)
qed

lemma sequence_wf_ops:
  "sequence_wf (sequence_new tok traits)"
  "sequence_wf q \<Longrightarrow> sequence_wf (push_task t q)"
  "sequence_wf q \<Longrightarrow> sequence_wf (push_delayed_task t ready q)"
  "sequence_wf q \<Longrightarrow> sequence_wf (snd (will_run_task q))"
  "sequence_wf q \<Longrightarrow> sequence_wf (snd (take_task now q))"
  "sequence_wf q \<Longrightarrow> sequence_wf (did_process_store q)"
  "sequence_wf q \<Longrightarrow> sequence_wf (set_task_runner r q)"
  by (auto simp: sequence_wf_def sequence_new_def push_task_def inner_push_task_def Let_def
      push_delayed_task_def inner_push_delayed_task_def will_run_task_def did_process_store_def
      set_task_runner_def take_task_def seq_heap.heap_push_ordered flush_wf split: list.splits)

section \<open>The contract between a task source and the worker loop\<close>

text \<open>
  What \<open>worker_loop\<close> relies on of a \<open>TaskSource\<close>: a claim succeeds exactly when nobody owns the
  source, \<open>take\<close> removes the head of the ready list, \<open>finish\<close> gives the source up and says
  whether ready tasks remain.
\<close>

locale task_source =
  fixes claim :: "'q \<Rightarrow> run_status \<times> 'q"
    and get :: "instant \<Rightarrow> 'q \<Rightarrow> 't option \<times> 'q"
    and finish :: "instant \<Rightarrow> 'q \<Rightarrow> bool \<times> 'q"
    and ready :: "instant \<Rightarrow> 'q \<Rightarrow> 't list"
    and owned :: "'q \<Rightarrow> bool"
    and wf :: "'q \<Rightarrow> bool"
  assumes claim_owned: "owned q \<Longrightarrow> claim q = (Disallowed, q)"
    and claim_free: "wf q \<Longrightarrow> \<not> owned q \<Longrightarrow> claim q = (s, q') \<Longrightarrow>
          s \<noteq> Disallowed \<and> owned q' \<and> wf q' \<and> ready now q' = ready now q"
    and take_empty: "wf q \<Longrightarrow> get now q = (None, q') \<Longrightarrow>
          ready now q = [] \<and> ready now q' = [] \<and> wf q' \<and> owned q' = owned q"
    and take_head: "wf q \<Longrightarrow> get now q = (Some t, q') \<Longrightarrow>
          ready now q = t # ready now q' \<and> wf q' \<and> owned q' = owned q"
    and finish_law: "wf q \<Longrightarrow> finish now q = (again, q') \<Longrightarrow>
          again = (ready now q \<noteq> []) \<and> ready now q' = ready now q \<and> \<not> owned q' \<and> wf q'"
begin

lemma body_rejected: "owned q \<Longrightarrow> source_body claim get finish now q = ((None, False), q)"
  by (simp add: source_body_def claim_owned)

lemma body_runs_head:
  assumes "wf q" and "\<not> owned q" and "source_body claim get finish now q = ((task, again), q')"
  shows "wf q'" "\<not> owned q'" "again = (ready now q' \<noteq> [])"
    and "ready now q = (case task of None \<Rightarrow> [] | Some t \<Rightarrow> [t]) @ ready now q'"
    and "task = None \<Longrightarrow> ready now q' = []"
proof -
  obtain s q1 where c: "claim q = (s, q1)" by fastforce
  obtain task' q2 where t: "get now q1 = (task', q2)" by fastforce
  obtain again' q3 where f: "finish now q2 = (again', q3)" by fastforce
  have q1: "s \<noteq> Disallowed" "wf q1" "ready now q1 = ready now q" "owned q1"
    using claim_free [OF assms(1,2) c] by auto
  have eqs: "task' = task" "again' = again" "q3 = q'"
    using assms(3) c t f q1(1) by (cases s; simp add: source_body_def)+
  have q2: "wf q2" "ready now q = (case task of None \<Rightarrow> [] | Some t \<Rightarrow> [t]) @ ready now q2"
      "task = None \<Longrightarrow> ready now q2 = []"
    using take_empty [OF q1(2), of now q2] take_head [OF q1(2), of now _ q2] t q1(3) eqs
    by (auto split: option.splits)
  show "wf q'" "\<not> owned q'" "again = (ready now q' \<noteq> [])"
    and "ready now q = (case task of None \<Rightarrow> [] | Some t \<Rightarrow> [t]) @ ready now q'"
    and "task = None \<Longrightarrow> ready now q' = []"
    using finish_law [OF q2(1) f] q2 eqs by auto
qed

lemma drain_serves_ready:
  assumes "wf q" and "\<not> owned q" and "length (ready now q) < n"
  shows "\<exists>q'. drain (source_body claim get finish now) n q = Some (ready now q, q')
              \<and> ready now q' = [] \<and> \<not> owned q' \<and> wf q'"
  using assms
proof (induction n arbitrary: q)
  case 0
  then show ?case by simp
next
  case (Suc n)
  obtain task again q' where b: "source_body claim get finish now q = ((task, again), q')"
    by (metis surj_pair)
  note b' = body_runs_head [OF Suc.prems(1,2) b]
  show ?case
  proof (cases again)
    case True
    then obtain t where t: "task = Some t" using b'(3,5) by (cases task) auto
    then have "length (ready now q') < n" using b'(4) Suc.prems(3) by simp
    then show ?thesis using Suc.IH [OF b'(1,2)] b b'(4) t True by auto
  next
    case False
    then show ?thesis using b b' by auto
  qed
qed

end

interpretation seq_source: task_source will_run_task take_task did_process_task ready_list
    sq_has_worker sequence_wf
proof
  show "take_task now q = (Some t, q') \<Longrightarrow> ready_list now q = t # ready_list now q' \<and>
      sequence_wf q' \<and> sq_has_worker q' = sq_has_worker q" if "sequence_wf q"
    for q q' :: "'u sequence" and now t
    using take_task_ready [OF that] by fastforce
  show "take_task now q = (None, q') \<Longrightarrow> ready_list now q = [] \<and> ready_list now q' = [] \<and>
      sequence_wf q' \<and> sq_has_worker q' = sq_has_worker q" if "sequence_wf q"
    for q q' :: "'u sequence" and now
    using take_task_ready [OF that] by fastforce
  show "did_process_task now q = (again, q') \<Longrightarrow> again = (ready_list now q \<noteq> []) \<and>
      ready_list now q' = ready_list now q \<and> \<not> sq_has_worker q' \<and> sequence_wf q'"
    if "sequence_wf q" for q q' :: "'u sequence" and now again
    using that has_ready_iff [OF that, of now]
    by (auto simp: did_process_task_def did_process_check_def did_process_store_def
        has_ready_tasks_def ready_list_def sequence_wf_def)
qed (auto simp: will_run_task_def ready_list_def sequence_wf_def)

lemma worker_body_eq: "worker_body now = source_body will_run_task take_task did_process_task now"
  by (simp add: fun_eq_iff worker_body_def)

section \<open>Sequence properties\<close>

text \<open>
  C3. One flush moves exactly the due tasks to the back of the immediate queue, ordered by
  deadline and then by post number; everything that is left is not due.
\<close>

theorem flush_ready_delayed_tasks_correct:
  assumes "sequence_wf q"
  shows "\<exists>ds rest. flush_ready_delayed_tasks now (sq_inner q) =
            (sq_inner q)\<lparr>si_delayed_queue := rest,
                  si_immediate_queue := si_immediate_queue (sq_inner q) @ map dt_task ds\<rparr>
          \<and> mset (si_delayed_queue (sq_inner q)) = mset ds + mset rest
          \<and> sorted_wrt delayed_le ds
          \<and> (\<forall>d \<in> set ds. dt_ready_time d \<le> now) \<and> (\<forall>d \<in> set rest. now < dt_ready_time d)"
  using flush_moves_due_tasks [of "sq_inner q" now] assms
  by (simp add: sequence_wf_def due_def not_le) metis

definition example_sequence :: "nat sequence" where
  "example_sequence =
     push_task (task_new (''main.rs'', 3) (Plain (User 3)))
       (push_delayed_task (task_new (''main.rs'', 2) (Plain (User 2))) 50
         (push_delayed_task (task_new (''main.rs'', 1) (Plain (User 1))) 90
           (sequence_new (SequenceToken 1) default_traits)))"

lemma example_sequence_wf: "sequence_wf example_sequence"
  by (simp add: example_sequence_def sequence_wf_ops)

theorem flush_ready_delayed_tasks_correct_witness:
  "sequence_wf example_sequence \<and>
   (\<exists>ds rest. flush_ready_delayed_tasks 60 (sq_inner example_sequence) =
            (sq_inner example_sequence)\<lparr>si_delayed_queue := rest,
                  si_immediate_queue :=
                    si_immediate_queue (sq_inner example_sequence) @ map dt_task ds\<rparr>
          \<and> mset (si_delayed_queue (sq_inner example_sequence)) = mset ds + mset rest
          \<and> sorted_wrt delayed_le ds
          \<and> (\<forall>d \<in> set ds. dt_ready_time d \<le> 60) \<and> (\<forall>d \<in> set rest. 60 < dt_ready_time d))"
  using flush_ready_delayed_tasks_correct [OF example_sequence_wf, of 60] example_sequence_wf
  by blast

text \<open>
  C4. A worker that serves a sequence until it is not pushed back runs every task that is ready
  at that time, once each and in the order of the ready list, and leaves the sequence unowned;
  as many iterations as there are ready tasks (plus one) are enough.
\<close>

theorem worker_drains_in_fifo_order:
  assumes "sequence_wf q" and "\<not> sq_has_worker q" and "length (ready_list now q) < n"
  shows "\<exists>q'. drain (worker_body now) n q = Some (ready_list now q, q')
              \<and> ready_list now q' = [] \<and> \<not> sq_has_worker q'"
  unfolding worker_body_eq using seq_source.drain_serves_ready [OF assms] by blast

theorem worker_drains_in_fifo_order_witness:
  "sequence_wf example_sequence \<and> \<not> sq_has_worker example_sequence
   \<and> map (\<lambda>t. tk_callback t) (ready_list 60 example_sequence) = [Plain (User 3), Plain (User 2)]
   \<and> (\<exists>q'. drain (worker_body 60) 3 example_sequence = Some (ready_list 60 example_sequence, q')
              \<and> ready_list 60 q' = [] \<and> \<not> sq_has_worker q')"
proof -
  have r: "map (\<lambda>t. tk_callback t) (ready_list 60 example_sequence) = [Plain (User 3), Plain (User 2)]"
    by code_simp
  have w: "\<not> sq_has_worker example_sequence"
    by code_simp
  have "length (ready_list 60 example_sequence) < 3"
    using arg_cong [OF r, of length] by simp
  from worker_drains_in_fifo_order [OF example_sequence_wf w this] r w example_sequence_wf
  show ?thesis by blast
qed

end
