(* ===== verification/Queues_Model.thy ===== *)
theory Queues_Model
  imports Sequence_Model
begin

text \<open>
  The two heaps of the scheduler: the ready queue of \<open>thread_pool/priority_queue.rs\<close> and the
  timer queue of \<open>thread_pool/delayed_task_manager.rs\<close>.  Both hold \<open>Arc\<close>s to sequences; a
  sequence is named by its index in the pool's store (\<open>nat\<close>).
\<close>

section \<open>The ready queue\<close>

record queue_entry =
  qe_sort_key :: task_source_sort_key
  qe_source :: nat

text \<open>
  \<open>Ord for QueueEntry\<close>: higher priority is greater; at equal priority the earlier \<open>ready_time\<close>
  is greater.
\<close>

definition entry_le :: "queue_entry \<Rightarrow> queue_entry \<Rightarrow> bool" where
  "entry_le a b \<longleftrightarrow>
     sk_priority (qe_sort_key a) < sk_priority (qe_sort_key b) \<or>
     (sk_priority (qe_sort_key a) = sk_priority (qe_sort_key b) \<and>
      sk_ready_time (qe_sort_key b) \<le> sk_ready_time (qe_sort_key a))"

definition pq_new :: "queue_entry list" where
  "pq_new = []"

definition pq_push :: "task_source_sort_key \<Rightarrow> nat \<Rightarrow> queue_entry list \<Rightarrow> queue_entry list" where
  "pq_push key sid h = heap_push entry_le \<lparr>qe_sort_key = key, qe_source = sid\<rparr> h"

definition pq_pop :: "queue_entry list \<Rightarrow> (nat \<times> queue_entry list) option" where
  "pq_pop h = map_option (\<lambda>(e, h'). (qe_source e, h')) (heap_pop entry_le h)"

definition pq_is_empty :: "queue_entry list \<Rightarrow> bool" where
  "pq_is_empty h = (h = [])"

interpretation pq_heap: heap_order entry_le
  by unfold_locales (auto simp: entry_le_def)

definition pq_wf :: "queue_entry list \<Rightarrow> bool" where
  "pq_wf h = heap_ordered entry_le h"

definition pq_sources :: "queue_entry list \<Rightarrow> nat set" where
  "pq_sources h = qe_source ` set h"

lemma pq_new_facts [simp]: "pq_wf pq_new" "pq_sources pq_new = {}"
  by (auto simp: pq_wf_def pq_new_def pq_sources_def)

lemma pq_push_facts [simp]:
  "pq_wf h \<Longrightarrow> pq_wf (pq_push key sid h)"
  "pq_sources (pq_push key sid h) = insert sid (pq_sources h)"
  by (auto simp: pq_wf_def pq_push_def pq_sources_def pq_heap.heap_push_ordered)

lemma length_pq_push [simp]: "length (pq_push key sid h) = Suc (length h)"
  by (simp add: pq_push_def)

lemma pq_pop_facts:
  assumes "pq_pop h = Some (sid, h')"
  shows "pq_sources h = insert sid (pq_sources h')" and "pq_wf h \<Longrightarrow> pq_wf h'"
proof -
  from assms obtain e where e: "heap_pop entry_le h = Some (e, h')" "qe_source e = sid"
    by (auto simp: pq_pop_def)
  show "pq_sources h = insert sid (pq_sources h')"
    using pq_heap.set_pop [OF e(1)] e(2) by (auto simp: pq_sources_def)
  show "pq_wf h \<Longrightarrow> pq_wf h'"
    using pq_heap.heap_pop_ordered [OF _ e(1)] by (simp add: pq_wf_def)
qed

lemma pq_pop_None: "pq_pop h = None \<longleftrightarrow> pq_sources h = {}"
  by (auto simp: pq_pop_def pq_sources_def)

text \<open>
  C9. \<open>PriorityQueue::pop\<close> returns a queued source that no other entry beats: none has a
  strictly higher priority, and none of the same priority became ready earlier.
\<close>

theorem pq_pop_highest_priority_oldest:
  assumes "pq_wf h" and "pq_pop h = Some (sid, h')"
  shows "\<exists>e. qe_source e = sid \<and> mset h = add_mset e (mset h') \<and>
           (\<forall>f \<in> set h. \<not> sk_priority (qe_sort_key e) < sk_priority (qe_sort_key f) \<and>
              (sk_priority (qe_sort_key f) = sk_priority (qe_sort_key e) \<longrightarrow>
               sk_ready_time (qe_sort_key e) \<le> sk_ready_time (qe_sort_key f)))"
proof -
  from assms(2) obtain e where e: "heap_pop entry_le h = Some (e, h')" "qe_source e = sid"
    by (auto simp: pq_pop_def)
  have "entry_le f e" if "f \<in> set h" for f
    using pq_heap.pop_max [OF _ e(1) that] assms(1) by (simp add: pq_wf_def)
  then have "\<forall>f \<in> set h. \<not> sk_priority (qe_sort_key e) < sk_priority (qe_sort_key f) \<and>
              (sk_priority (qe_sort_key f) = sk_priority (qe_sort_key e) \<longrightarrow>
               sk_ready_time (qe_sort_key e) \<le> sk_ready_time (qe_sort_key f))"
    unfolding entry_le_def by (metis order_less_asym order_less_irrefl)
  then show ?thesis using e(2) pq_heap.mset_pop [OF e(1)] by blast
qed

definition example_queue :: "queue_entry list" where
  "example_queue =
     pq_push \<lparr>sk_priority = UserBlocking, sk_ready_time = 40\<rparr> 2
       (pq_push \<lparr>sk_priority = UserBlocking, sk_ready_time = 30\<rparr> 1
         (pq_push \<lparr>sk_priority = BestEffort, sk_ready_time = 10\<rparr> 0 pq_new))"

theorem pq_pop_highest_priority_oldest_witness:
  "pq_wf example_queue \<and>
   (\<exists>e h'. pq_pop example_queue = Some (1, h') \<and> qe_source e = 1 \<and>
       mset example_queue = add_mset e (mset h') \<and>
       (\<forall>f \<in> set example_queue. \<not> sk_priority (qe_sort_key e) < sk_priority (qe_sort_key f) \<and>
          (sk_priority (qe_sort_key f) = sk_priority (qe_sort_key e) \<longrightarrow>
           sk_ready_time (qe_sort_key e) \<le> sk_ready_time (qe_sort_key f))))"
proof -
  have wf: "pq_wf example_queue" by (simp add: example_queue_def)
  have "map_option fst (pq_pop example_queue) = Some 1" by code_simp
  then obtain h' where pop: "pq_pop example_queue = Some (1, h')" by auto
  show ?thesis using pq_pop_highest_priority_oldest [OF wf pop] wf pop by blast
qed

section \<open>The timer queue\<close>

record delayed_entry =
  de_ready_time :: instant
  de_id :: u64
  de_sequence :: nat

definition reverse_entry_le :: "delayed_entry \<Rightarrow> delayed_entry \<Rightarrow> bool" where
  "reverse_entry_le a b \<longleftrightarrow>
     de_ready_time b < de_ready_time a \<or> (de_ready_time a = de_ready_time b \<and> de_id b \<le> de_id a)"

interpretation timer_heap: heap_order reverse_entry_le
  by unfold_locales (auto simp: reverse_entry_le_def)

definition dtm_push :: "instant \<Rightarrow> u64 \<Rightarrow> nat \<Rightarrow> delayed_entry list \<Rightarrow> delayed_entry list" where
  "dtm_push ready eid sid h =
     heap_push reverse_entry_le \<lparr>de_ready_time = ready, de_id = eid, de_sequence = sid\<rparr> h"

definition dtm_wf :: "delayed_entry list \<Rightarrow> bool" where
  "dtm_wf h = heap_ordered reverse_entry_le h"

lemma dtm_push_facts [simp]:
  "dtm_wf h \<Longrightarrow> dtm_wf (dtm_push ready eid sid h)"
  "set (dtm_push ready eid sid h) =
     insert \<lparr>de_ready_time = ready, de_id = eid, de_sequence = sid\<rparr> (set h)"
  by (auto simp: dtm_wf_def dtm_push_def timer_heap.heap_push_ordered)

lemma dtm_pop_facts:
  assumes "heap_pop reverse_entry_le h = Some (e, h')"
  shows "set h = insert e (set h')" and "dtm_wf h \<Longrightarrow> dtm_wf h'"
    and "dtm_wf h \<Longrightarrow> f \<in> set h \<Longrightarrow> de_ready_time e \<le> de_ready_time f"
  using timer_heap.set_pop [OF assms] timer_heap.heap_pop_ordered [OF _ assms]
    timer_heap.pop_max [OF _ assms, of f]
  by (auto simp: dtm_wf_def reverse_entry_le_def)

end
