(* ===== verification/Task_Tracker_Model.thy ===== *)
theory Task_Tracker_Model
  imports Task_Model
begin

text \<open>
  \<open>thread_pool/task_tracker.rs\<close>: the shutdown flag and the number of \<open>BlockShutdown\<close> tasks that
  have been accepted but have not finished.  Each operation is one lock region;
  \<open>shutdown\<close> is two, \<open>shutdown_begin\<close> (mark and return early when nothing is outstanding) and
  \<open>shutdown_wait\<close> (the guard of the condition-variable loop).  The counter is a \<open>usize\<close> whose
  \<open>-= 1\<close> at zero is an arithmetic-overflow panic: \<open>after_run_task\<close> gives \<open>None\<close> there.
\<close>

record tracker =
  tr_shutdown_started :: bool
  tr_num_blocking :: nat

definition tracker_new :: tracker where
  "tracker_new = \<lparr>tr_shutdown_started = False, tr_num_blocking = 0\<rparr>"

definition will_post_task :: "task_traits \<Rightarrow> tracker \<Rightarrow> bool \<times> tracker" where
  "will_post_task traits tr =
     (if tr_shutdown_started tr
      then (tt_shutdown_behavior traits = ContinueOnShutdown, tr)
      else if tt_shutdown_behavior traits = BlockShutdown
           then (True, tr\<lparr>tr_num_blocking := tr_num_blocking tr + 1\<rparr>)
           else (True, tr))"

definition after_run_task :: "task_traits \<Rightarrow> tracker \<Rightarrow> tracker option" where
  "after_run_task traits tr =
     (if tt_shutdown_behavior traits = BlockShutdown
      then if tr_num_blocking tr = 0 then None
           else Some (tr\<lparr>tr_num_blocking := tr_num_blocking tr - 1\<rparr>)
      else Some tr)"

definition is_shutdown_started :: "tracker \<Rightarrow> bool" where
  "is_shutdown_started tr = tr_shutdown_started tr"

definition shutdown_begin :: "tracker \<Rightarrow> bool \<times> tracker" where
  "shutdown_begin tr = (tr_num_blocking tr = 0, tr\<lparr>tr_shutdown_started := True\<rparr>)"

definition shutdown_wait :: "tracker \<Rightarrow> bool" where
  "shutdown_wait tr = (tr_num_blocking tr = 0)"

text \<open>The weight of a task in the counter.\<close>

definition blocks :: "task_traits \<Rightarrow> nat" where
  "blocks traits = (if tt_shutdown_behavior traits = BlockShutdown then 1 else 0)"

lemma will_post_task_accept:
  assumes "will_post_task traits tr = (True, tr')"
  shows "tr_num_blocking tr' = tr_num_blocking tr + blocks traits"
    and "tr_shutdown_started tr' = tr_shutdown_started tr"
    and "tr_shutdown_started tr \<Longrightarrow> blocks traits = 0"
  using assms by (auto simp: will_post_task_def blocks_def split: if_splits)

lemma will_post_task_reject:
  assumes "will_post_task traits tr = (False, tr')"
  shows "tr' = tr"
  using assms by (auto simp: will_post_task_def split: if_splits)

lemma after_run_task_Some:
  assumes "after_run_task traits tr = Some tr'"
  shows "tr_num_blocking tr = tr_num_blocking tr' + blocks traits"
    and "tr_shutdown_started tr' = tr_shutdown_started tr"
  using assms by (auto simp: after_run_task_def blocks_def split: if_splits)

lemma after_run_task_None:
  "after_run_task traits tr = None \<longleftrightarrow> blocks traits = 1 \<and> tr_num_blocking tr = 0"
  by (auto simp: after_run_task_def blocks_def)

end
