(* ===== verification/Task_Monitor_Model.thy ===== *)
theory Task_Monitor_Model
  imports Task_Model
begin

text \<open>
  \<open>task_monitor.rs\<close>: worker slots (\<open>AtomicU64\<close>, nanoseconds since \<open>reference\<close>, 0 for idle), the
  timing wrapper, and the watchdog thread.  The user's \<open>on_metrics\<close> and \<open>on_hang\<close> callbacks are
  the lists of values they are called with.

  \<open>as_nanos() as u64\<close> truncates to 64 bits (\<open>of_nat\<close>), \<open>saturating_sub\<close> stops at 0.
\<close>

section \<open>Slots\<close>

definition reference_nanos :: "instant \<Rightarrow> instant \<Rightarrow> u64" where
  "reference_nanos reference now = of_nat (now - reference)"

definition task_started :: "instant \<Rightarrow> instant \<Rightarrow> u64" where
  "task_started reference now = max (reference_nanos reference now) 1"

definition task_finished :: u64 where
  "task_finished = 0"

definition worker_slot_drop :: u64 where
  "worker_slot_drop = 0"

record monitor_inner =
  mo_reference :: instant
  mo_slots :: "u64 list"
  mo_hang_threshold :: duration
  mo_has_on_metrics :: bool
  mo_has_on_hang :: bool
  mo_shutdown :: bool
  mo_shutdown_notify :: bool

definition register_worker :: "monitor_inner \<Rightarrow> nat \<times> monitor_inner" where
  "register_worker m = (length (mo_slots m), m\<lparr>mo_slots := mo_slots m @ [0]\<rparr>)"

section \<open>Builder\<close>

text \<open>\<open>Duration::MAX\<close>: \<open>u64::MAX\<close> seconds and 999999999 nanoseconds.\<close>

definition duration_max :: duration where
  "duration_max = (2 ^ 64 - 1) * 1000000000 + 999999999"

record monitor_builder =
  mb_hang_threshold :: "duration option"
  mb_watchdog_interval :: duration
  mb_on_metrics :: bool
  mb_on_hang :: bool

definition builder_new :: monitor_builder where
  "builder_new =
     \<lparr>mb_hang_threshold = None, mb_watchdog_interval = 1000000000,
      mb_on_metrics = False, mb_on_hang = False\<rparr>"

text \<open>\<open>TaskMonitor::builder\<close> and the setters; a callback is set or not.\<close>

definition monitor_builder_new :: monitor_builder where
  "monitor_builder_new = builder_new"

definition set_hang_threshold :: "duration \<Rightarrow> monitor_builder \<Rightarrow> monitor_builder" where
  "set_hang_threshold d b = b\<lparr>mb_hang_threshold := Some d\<rparr>"

definition set_watchdog_interval :: "duration \<Rightarrow> monitor_builder \<Rightarrow> monitor_builder" where
  "set_watchdog_interval d b = b\<lparr>mb_watchdog_interval := d\<rparr>"

definition set_on_metrics :: "monitor_builder \<Rightarrow> monitor_builder" where
  "set_on_metrics b = b\<lparr>mb_on_metrics := True\<rparr>"

definition set_on_hang :: "monitor_builder \<Rightarrow> monitor_builder" where
  "set_on_hang b = b\<lparr>mb_on_hang := True\<rparr>"

text \<open>\<open>build\<close>: the monitor and, when a threshold was set, the interval of its watchdog thread.\<close>

definition monitor_build :: "instant \<Rightarrow> monitor_builder \<Rightarrow> monitor_inner \<times> duration option" where
  "monitor_build now b =
     (\<lparr>mo_reference = now, mo_slots = [],
       mo_hang_threshold = (case mb_hang_threshold b of None \<Rightarrow> duration_max | Some d \<Rightarrow> d),
       mo_has_on_metrics = mb_on_metrics b, mo_has_on_hang = mb_on_hang b,
       mo_shutdown = False, mo_shutdown_notify = False\<rparr>,
      (case mb_hang_threshold b of None \<Rightarrow> None | Some _ \<Rightarrow> Some (mb_watchdog_interval b)))"

definition monitor_drop :: "monitor_inner \<Rightarrow> monitor_inner" where
  "monitor_drop m = m\<lparr>mo_shutdown := True, mo_shutdown_notify := True\<rparr>"

section \<open>Watchdog\<close>

record hang_info =
  hi_worker_id :: nat
  hi_stuck_duration :: duration

definition saturating_sub :: "u64 \<Rightarrow> u64 \<Rightarrow> u64" where
  "saturating_sub a b = (if b \<le> a then a - b else 0)"

definition threshold_nanos :: "duration \<Rightarrow> u64" where
  "threshold_nanos d = of_nat (min d (2 ^ 64 - 1))"

definition check_slot :: "u64 \<Rightarrow> u64 \<Rightarrow> nat \<times> u64 \<Rightarrow> hang_info option" where
  "check_slot now_nanos threshold entry =
     (case entry of (idx, started) \<Rightarrow>
        if started = 0 then None
        else let elapsed = saturating_sub now_nanos started
             in if threshold \<le> elapsed
                then Some \<lparr>hi_worker_id = idx, hi_stuck_duration = unat elapsed\<rparr>
                else None)"

definition watchdog_scan :: "instant \<Rightarrow> monitor_inner \<Rightarrow> hang_info list" where
  "watchdog_scan now m =
     List.map_filter
       (check_slot (reference_nanos (mo_reference m) now) (threshold_nanos (mo_hang_threshold m)))
       (enumerate 0 (mo_slots m))"

text \<open>
  One iteration of \<open>watchdog_loop\<close> after \<open>wait_timeout\<close> returned at time \<open>now\<close>: \<open>None\<close> is the
  \<open>break\<close>, \<open>Some hs\<close> the calls of \<open>on_hang\<close>.
\<close>

definition watchdog_iteration :: "bool \<Rightarrow> instant \<Rightarrow> monitor_inner \<Rightarrow> hang_info list option" where
  "watchdog_iteration timed_out now m =
     (if mo_shutdown m \<or> \<not> timed_out then None
      else Some (if mo_has_on_hang m then watchdog_scan now m else []))"

section \<open>Properties\<close>

lemma task_started_nonzero [simp]: "task_started reference now \<noteq> 0"
proof
  assume "task_started reference now = 0"
  moreover have "(1::u64) \<le> task_started reference now" by (simp add: task_started_def)
  ultimately show False by simp
qed

lemma unat_of_nat_small: "n < 2 ^ 64 \<Longrightarrow> unat (of_nat n :: u64) = n"
  by (simp add: unat_of_nat take_bit_nat_eq_self)

lemma unat_threshold: "unat (threshold_nanos d) = min d (2 ^ 64 - 1)"
  by (simp add: threshold_nanos_def unat_of_nat_small)

lemma saturating_sub_unat: "unat (saturating_sub a b) = unat a - unat b"
  by (auto simp: saturating_sub_def unat_sub word_le_nat_alt)

lemma reference_nanos_unat:
  "now - reference < 2 ^ 64 \<Longrightarrow> unat (reference_nanos reference now) = now - reference"
  unfolding reference_nanos_def by (rule unat_of_nat_small)

lemma task_started_unat:
  assumes "now - reference < 2 ^ 64"
  shows "unat (task_started reference now) = max (now - reference) 1"
  using reference_nanos_unat [OF assms]
  by (auto simp: task_started_def max_def word_le_nat_alt)

text \<open>
  For a monitor that is less than 2^64 ns (584 years) old, a watchdog pass reports worker
  \<open>w\<close>, which has been in one task since \<open>start\<close> (at least 1 ns after the reference), exactly
  when it has been there for at least the threshold, and reports that duration; an idle worker
  is never reported.
\<close>

theorem watchdog_reports_exactly_hung_workers:
  assumes "now - mo_reference m < 2 ^ 64" and "w < length (mo_slots m)"
    and "mo_reference m < start" and "start \<le> now" and "mo_hang_threshold m < 2 ^ 64"
    and "mo_slots m ! w = (if busy then task_started (mo_reference m) start else task_finished)"
  shows "h \<in> set (watchdog_scan now m) \<and> hi_worker_id h = w \<longleftrightarrow>
         busy \<and> mo_hang_threshold m \<le> now - start
           \<and> h = \<lparr>hi_worker_id = w, hi_stuck_duration = now - start\<rparr>"
proof -
  let ?now = "reference_nanos (mo_reference m) now" and ?th = "threshold_nanos (mo_hang_threshold m)"
  have mem: "h \<in> set (watchdog_scan now m) \<longleftrightarrow>
      (\<exists>i < length (mo_slots m). check_slot ?now ?th (i, mo_slots m ! i) = Some h)"
    by (force simp: watchdog_scan_def map_filter_def in_set_enumerate_eq image_iff)
  have wid: "check_slot ?now ?th (i, v) = Some h \<Longrightarrow> hi_worker_id h = i" for i v
    by (auto simp: check_slot_def Let_def split: if_splits)
  have "h \<in> set (watchdog_scan now m) \<and> hi_worker_id h = w \<longleftrightarrow>
        check_slot ?now ?th (w, mo_slots m ! w) = Some h"
    unfolding mem using wid assms(2) by blast
  also have "\<dots> \<longleftrightarrow> busy \<and> ?th \<le> saturating_sub ?now (task_started (mo_reference m) start) \<and>
      h = \<lparr>hi_worker_id = w,
           hi_stuck_duration = unat (saturating_sub ?now (task_started (mo_reference m) start))\<rparr>"
    using assms(6) by (auto simp: check_slot_def Let_def task_finished_def)
  also have "unat (saturating_sub ?now (task_started (mo_reference m) start)) = now - start"
  proof -
    have "start - mo_reference m < 2 ^ 64" using assms by linarith
    then show ?thesis
      using assms(1,3,4) by (auto simp: saturating_sub_unat task_started_unat reference_nanos_unat max_def)
  qed
  finally show ?thesis
    using assms(5) by (simp add: word_le_nat_alt unat_threshold
        \<open>unat (saturating_sub ?now (task_started (mo_reference m) start)) = now - start\<close>)
qed

definition example_monitor :: monitor_inner where
  "example_monitor =
     \<lparr>mo_reference = 100, mo_slots = [task_finished, task_started 100 150],
      mo_hang_threshold = 30, mo_has_on_metrics = True, mo_has_on_hang = True,
      mo_shutdown = False, mo_shutdown_notify = False\<rparr>"

theorem watchdog_reports_exactly_hung_workers_witness:
  "(\<lparr>hi_worker_id = 1, hi_stuck_duration = 40\<rparr> \<in> set (watchdog_scan 190 example_monitor)
      \<and> hi_worker_id \<lparr>hi_worker_id = 1, hi_stuck_duration = 40\<rparr> = 1) \<longleftrightarrow>
   True \<and> mo_hang_threshold example_monitor \<le> 190 - 150
      \<and> \<lparr>hi_worker_id = 1, hi_stuck_duration = 40\<rparr>
          = \<lparr>hi_worker_id = 1, hi_stuck_duration = 190 - (150::nat)\<rparr>"
  by (rule watchdog_reports_exactly_hung_workers) (simp_all add: example_monitor_def)

end
