(* ===== verification/Thread_Pool_Model.thy ===== *)
theory Thread_Pool_Model
  imports Queues_Model Task_Tracker_Model Task_Monitor_Model
begin

text \<open>
  The thread pool as one machine: \<open>ThreadPool\<close> (\<open>thread_pool.rs\<close>), its \<open>ThreadGroup\<close> with the
  worker threads (\<open>thread_group.rs\<close>), its \<open>DelayedTaskManager\<close> with the timer thread
  (\<open>delayed_task_manager.rs\<close>), and the runners over it (\<open>pooled_sequenced_task_runner.rs\<close>,
  \<open>pooled_parallel_task_runner.rs\<close>).

  \<^item> A sequence is an index into \<open>pl_seqs\<close>; a sequenced runner is named by its sequence.
  \<^item> A step is what one thread does in one lock region, or one atomic access; \<open>pool_step\<close> is the
    labelled step function and the label chooses the thread.  Every interleaving of the threads
    is a list of labels.
  \<^item> The code that runs on several kinds of threads (posting, and the closures the crate wraps
    around callbacks) is a list of \<open>op\<close>s.  \<open>pl_calls\<close> are the calls client threads have under
    way; the worker's own list is in its program counter.
  \<^item> Condition variables are explicit: a waiting thread has its own program counter, and
    \<open>pl_tg_notify\<close>, \<open>pl_dtm_notify\<close> count the \<open>notify_one\<close> calls whose push is done and that have
    not been executed.  Spurious wake-ups are steps.
  \<^item> A user callback is an opaque \<open>'u\<close>: it begins, any steps of other threads and any requests
    follow (its own posts are requests), then it returns or panics.
  \<^item> The result of \<open>Weak::upgrade\<close> on a runner is part of the label \<open>WGetWork\<close>; the
    \<open>Weak<ThreadGroup>\<close> of the timer always upgrades, since the pool owns the group.
\<close>

section \<open>State\<close>

datatype 'u op =
    RunClosure "'u closure"
  | RunBody "'u body"
  | UserEnd 'u
  | Metrics duration instant
  | AfterRun task_traits
  | PostReply nat 'u
  | PushTask nat "'u closure"
  | PushDelayed nat "'u closure" instant
  | PushSource nat
  | AddSequence instant nat
  | WillPost task_traits 'u "duration option"
  | NewSequence task_traits "'u closure" "instant option"

datatype 'u worker_pc =
    WIdle
  | WWaiting
  | WGot nat
  | WClaimed nat
  | WRunning nat "'u op list"
  | WDone nat
  | WCleared nat
  | WRequeue nat
  | WExited
  | WPanicked nat "'u op list"

record 'u worker =
  wk_pc :: "'u worker_pc"
  wk_tls :: "nat thread_locals"
  wk_handle :: "nat current_default_handle option"
  wk_slot :: u64

datatype timer_pc = TLoop | TWaiting "instant option" | THolding nat | TExited

datatype shutdown_pc =
    SBegin | SWait | SSetFlag | SNotifyAll | STakeHandles | SJoin "nat list"
  | SDtmFlag | SDtmTake | SDtmJoin | SDone

datatype 'u event =
    Enter nat "'u task"
  | Start nat "'u task" instant
  | Begin nat 'u
  | Return nat 'u
  | Reported duration duration
  | Accepted bool task_traits

record 'u pool =
  pl_now :: instant
  pl_next_token :: u64
  pl_seqs :: "'u sequence list"
  pl_queue :: "queue_entry list"
  pl_tg_shutdown :: bool
  pl_tg_notify :: nat
  pl_workers :: "'u worker list"
  pl_num_threads :: nat
  pl_handles :: "nat list"
  pl_timers :: "delayed_entry list"
  pl_next_entry_id :: u64
  pl_dtm_shutdown :: bool
  pl_dtm_notify :: nat
  pl_timer :: timer_pc
  pl_dtm_handle :: bool
  pl_tracker :: tracker
  pl_calls :: "'u op list list"
  pl_shutdowns :: "shutdown_pc list"
  pl_monitored :: bool
  pl_log :: "'u event list"

section \<open>Construction\<close>

definition worker_new :: "nat option \<Rightarrow> 'u worker" where
  "worker_new dflt =
     \<lparr>wk_pc = WIdle, wk_tls = fresh_thread\<lparr>tl_current_default := dflt\<rparr>, wk_handle = None,
      wk_slot = 0\<rparr>"

text \<open>\<open>ThreadPool::new_impl\<close>, with \<open>ThreadGroup::new\<close> and \<open>DelayedTaskManager::new\<close>.\<close>

definition pool_new :: "nat \<Rightarrow> bool \<Rightarrow> 'u pool" where
  "pool_new num_threads monitored =
     \<lparr>pl_now = 0, pl_next_token = initial_sequence_id, pl_seqs = [], pl_queue = pq_new,
      pl_tg_shutdown = False, pl_tg_notify = 0,
      pl_workers = replicate num_threads (worker_new None), pl_num_threads = num_threads,
      pl_handles = [0..<num_threads],
      pl_timers = [], pl_next_entry_id = 0, pl_dtm_shutdown = False, pl_dtm_notify = 0,
      pl_timer = TLoop, pl_dtm_handle = True, pl_tracker = tracker_new, pl_calls = [],
      pl_shutdowns = [], pl_monitored = monitored, pl_log = []\<rparr>"

section \<open>Posting and running closures\<close>

definition upd_seq :: "nat \<Rightarrow> 'u sequence \<Rightarrow> 'u pool \<Rightarrow> 'u pool" where
  "upd_seq sid q s = s\<lparr>pl_seqs := (pl_seqs s)[sid := q]\<rparr>"

definition emit :: "'u event list \<Rightarrow> 'u pool \<Rightarrow> 'u pool" where
  "emit es s = s\<lparr>pl_log := pl_log s @ es\<rparr>"

text \<open>\<open>TaskMonitor::wrap_task\<close> where a monitor is configured.\<close>

definition timed :: "'u pool \<Rightarrow> 'u body \<Rightarrow> 'u body" where
  "timed s b = (if pl_monitored s then Timed (pl_now s) b else b)"

text \<open>\<open>ThreadPool::wrap\<close>.\<close>

definition wrap :: "'u pool \<Rightarrow> task_traits \<Rightarrow> 'u \<Rightarrow> 'u closure" where
  "wrap s traits u = Tracked traits (timed s (User u))"

text \<open>\<open>Sequence::new\<close>; the new sequence has the next index.\<close>

definition alloc_sequence :: "task_traits \<Rightarrow> 'u pool \<Rightarrow> nat \<times> 'u pool" where
  "alloc_sequence traits s =
     (case create_token (pl_next_token s) of
        (tok, next_id) \<Rightarrow>
          (length (pl_seqs s),
           s\<lparr>pl_next_token := next_id, pl_seqs := pl_seqs s @ [sequence_new tok traits]\<rparr>))"

definition op_push_task :: "nat \<Rightarrow> 'u closure \<Rightarrow> 'u pool \<Rightarrow> 'u pool" where
  "op_push_task sid cb s =
     (let q = push_task (task_new (''rust_task'', sid) cb) (pl_seqs s ! sid)
      in emit [Enter sid (last (si_immediate_queue (sq_inner q)))] (upd_seq sid q s))"

definition op_push_delayed :: "nat \<Rightarrow> 'u closure \<Rightarrow> instant \<Rightarrow> 'u pool \<Rightarrow> 'u pool" where
  "op_push_delayed sid cb ready s =
     upd_seq sid (push_delayed_task (task_new (''rust_task'', sid) cb) ready (pl_seqs s ! sid)) s"

text \<open>\<open>ThreadGroup::push_task_source\<close>: the push; its \<open>notify_one\<close> is then due.\<close>

definition push_task_source :: "nat \<Rightarrow> 'u pool \<Rightarrow> 'u pool" where
  "push_task_source sid s =
     s\<lparr>pl_queue := pq_push (get_sort_key (pl_now s) (pl_seqs s ! sid)) sid (pl_queue s),
       pl_tg_notify := pl_tg_notify s + 1\<rparr>"

text \<open>\<open>DelayedTaskManager::add_sequence\<close>.\<close>

definition add_sequence :: "instant \<Rightarrow> nat \<Rightarrow> 'u pool \<Rightarrow> 'u pool" where
  "add_sequence ready sid s =
     s\<lparr>pl_timers := dtm_push ready (pl_next_entry_id s) sid (pl_timers s),
       pl_next_entry_id := pl_next_entry_id s + 1, pl_dtm_notify := pl_dtm_notify s + 1\<rparr>"

text \<open>
  One operation of a thread.  The result is what the thread has to do in its place and the new
  state; \<open>None\<close> is the panic of \<open>TaskTracker::after_run_task\<close> at zero.
\<close>

fun exec_op :: "'u op \<Rightarrow> 'u pool \<Rightarrow> ('u op list \<times> 'u pool) option" where
  "exec_op (RunClosure (Plain b)) s = Some ([RunBody b], s)"
| "exec_op (RunClosure (Tracked traits b)) s =
     Some (if is_shutdown_started (pl_tracker s) \<and> tt_shutdown_behavior traits = SkipOnShutdown
           then [] else [RunBody b, AfterRun traits], s)"
| "exec_op (RunBody (User u)) s = Some ([UserEnd u], s)"
| "exec_op (RunBody (WithReply u reply_runner v)) s =
     Some (RunBody (User u) #
           (case reply_runner of None \<Rightarrow> [] | Some r \<Rightarrow> [PostReply r v]), s)"
| "exec_op (RunBody (Timed posted_at b)) s =
     Some ([RunBody b, Metrics (pl_now s - posted_at) (pl_now s)], s)"
| "exec_op (UserEnd u) s = Some ([], s)"
| "exec_op (Metrics queue_time exec_start) s =
     Some ([], emit [Reported queue_time (pl_now s - exec_start)] s)"
| "exec_op (AfterRun traits) s =
     (case after_run_task traits (pl_tracker s) of
        None \<Rightarrow> None
      | Some tr \<Rightarrow> Some ([], s\<lparr>pl_tracker := tr\<rparr>))"
| "exec_op (PostReply sid v) s =
     Some ([PushTask sid (Plain (timed s (User v)))], s)"
| "exec_op (PushTask sid cb) s = Some ([PushSource sid], op_push_task sid cb s)"
| "exec_op (PushDelayed sid cb ready) s =
     Some ([AddSequence ready sid], op_push_delayed sid cb ready s)"
| "exec_op (PushSource sid) s = Some ([], push_task_source sid s)"
| "exec_op (AddSequence ready sid) s = Some ([], add_sequence ready sid s)"
| "exec_op (WillPost traits u delay) s =
     (case will_post_task traits (pl_tracker s) of
        (ok, tr) \<Rightarrow>
          let s' = emit [Accepted ok traits] (s\<lparr>pl_tracker := tr\<rparr>)
          in Some (if ok
                   then [NewSequence traits (wrap s traits u)
                           (case delay of None \<Rightarrow> None | Some d \<Rightarrow> Some (pl_now s + d))]
                   else [], s'))"
| "exec_op (NewSequence traits cb ready) s =
     (case alloc_sequence traits s of
        (sid, s') \<Rightarrow>
          (case ready of
             None \<Rightarrow> Some ([PushSource sid], op_push_task sid cb s')
           | Some t \<Rightarrow> Some ([AddSequence t sid], op_push_delayed sid cb t s')))"

section \<open>Requests of clients\<close>

text \<open>
  The public operations.  \<open>caller\<close> is the worker whose callback makes the call, or \<open>Inr r\<close>, a
  thread of the client whose current default runner is \<open>r\<close>.
\<close>

datatype 'u request =
    PoolPostTask task_traits 'u
  | PoolPostDelayedTask task_traits 'u duration
  | CreateSequencedTaskRunner task_traits
  | SeqPostTask nat 'u
  | SeqPostDelayedTask nat 'u duration
  | SeqPostTaskAndReply nat 'u 'u "nat + nat option"
  | SeqPostNonNestableTask nat 'u
  | ParPostTask task_traits 'u
  | ParPostDelayedTask task_traits 'u duration
  | ParPostTaskAndReply task_traits 'u 'u "nat + nat option"

fun caller_default :: "'u pool \<Rightarrow> nat + nat option \<Rightarrow> nat option" where
  "caller_default s (Inl w) =
     (if w < length (pl_workers s) then current_default (wk_tls (pl_workers s ! w)) else None)"
| "caller_default s (Inr r) = r"

definition is_runner :: "'u pool \<Rightarrow> nat \<Rightarrow> bool" where
  "is_runner s sid \<longleftrightarrow> sid < length (pl_seqs s) \<and> sq_task_runner (pl_seqs s ! sid) = Some sid"

text \<open>
  \<open>post_task\<close> of the two runners: \<open>PushTask\<close> is followed by \<open>PushSource\<close>, \<open>PushDelayed\<close> by
  \<open>AddSequence\<close>, and \<open>NewSequence\<close> by either.
\<close>

fun seq_post_task :: "'u pool \<Rightarrow> nat \<Rightarrow> 'u body \<Rightarrow> 'u op list" where
  "seq_post_task s sid b = [PushTask sid (Plain (timed s b))]"

fun par_post_task :: "'u pool \<Rightarrow> task_traits \<Rightarrow> 'u body \<Rightarrow> 'u op list" where
  "par_post_task s traits b = [NewSequence traits (Plain (timed s b)) None]"

fun pool_post_task :: "task_traits \<Rightarrow> 'u \<Rightarrow> 'u op list" where
  "pool_post_task traits u = [WillPost traits u None]"

fun pool_post_delayed_task :: "task_traits \<Rightarrow> 'u \<Rightarrow> duration \<Rightarrow> 'u op list" where
  "pool_post_delayed_task traits u delay = [WillPost traits u (Some delay)]"

fun seq_post_delayed_task :: "'u pool \<Rightarrow> nat \<Rightarrow> 'u body \<Rightarrow> duration \<Rightarrow> 'u op list" where
  "seq_post_delayed_task s sid b delay = [PushDelayed sid (Plain (timed s b)) (pl_now s + delay)]"

fun seq_post_task_and_reply :: "'u pool \<Rightarrow> nat \<Rightarrow> 'u \<Rightarrow> 'u \<Rightarrow> nat option \<Rightarrow> 'u op list" where
  "seq_post_task_and_reply s sid u v reply_runner = seq_post_task s sid (WithReply u reply_runner v)"

fun seq_post_non_nestable_task :: "'u pool \<Rightarrow> nat \<Rightarrow> 'u body \<Rightarrow> 'u op list" where
  "seq_post_non_nestable_task s sid b = seq_post_task s sid b"

fun par_post_delayed_task :: "'u pool \<Rightarrow> task_traits \<Rightarrow> 'u body \<Rightarrow> duration \<Rightarrow> 'u op list" where
  "par_post_delayed_task s traits b delay = [NewSequence traits (Plain (timed s b)) (Some (pl_now s + delay))]"

fun par_post_task_and_reply :: "'u pool \<Rightarrow> task_traits \<Rightarrow> 'u \<Rightarrow> 'u \<Rightarrow> nat option \<Rightarrow> 'u op list" where
  "par_post_task_and_reply s traits u v reply_runner = par_post_task s traits (WithReply u reply_runner v)"

fun request_ops :: "'u pool \<Rightarrow> 'u request \<Rightarrow> 'u op list" where
  "request_ops s (PoolPostTask traits u) = pool_post_task traits u"
| "request_ops s (PoolPostDelayedTask traits u delay) = pool_post_delayed_task traits u delay"
| "request_ops s (CreateSequencedTaskRunner traits) = []"
| "request_ops s (SeqPostTask sid u) = seq_post_task s sid (User u)"
| "request_ops s (SeqPostDelayedTask sid u delay) = seq_post_delayed_task s sid (User u) delay"
| "request_ops s (SeqPostTaskAndReply sid u v caller) =
     seq_post_task_and_reply s sid u v (caller_default s caller)"
| "request_ops s (SeqPostNonNestableTask sid u) = seq_post_non_nestable_task s sid (User u)"
| "request_ops s (ParPostTask traits u) = par_post_task s traits (User u)"
| "request_ops s (ParPostDelayedTask traits u delay) = par_post_delayed_task s traits (User u) delay"
| "request_ops s (ParPostTaskAndReply traits u v caller) =
     par_post_task_and_reply s traits u v (caller_default s caller)"

fun request_valid :: "'u pool \<Rightarrow> 'u request \<Rightarrow> bool" where
  "request_valid s (SeqPostTask sid u) = is_runner s sid"
| "request_valid s (SeqPostDelayedTask sid u delay) = is_runner s sid"
| "request_valid s (SeqPostTaskAndReply sid u v caller) =
     (is_runner s sid \<and> (case caller_default s caller of None \<Rightarrow> True | Some r \<Rightarrow> is_runner s r))"
| "request_valid s (SeqPostNonNestableTask sid u) = is_runner s sid"
| "request_valid s (ParPostTaskAndReply traits u v caller) =
     (case caller_default s caller of None \<Rightarrow> True | Some r \<Rightarrow> is_runner s r)"
| "request_valid s _ = True"

text \<open>\<open>PooledSequencedTaskRunner::new\<close>: a new sequence with a back-reference to its runner.\<close>

definition create_sequenced_task_runner :: "task_traits \<Rightarrow> 'u pool \<Rightarrow> 'u pool" where
  "create_sequenced_task_runner traits s =
     (case alloc_sequence traits s of
        (sid, s') \<Rightarrow> upd_seq sid (set_task_runner sid (pl_seqs s' ! sid)) s')"

definition do_request :: "'u request \<Rightarrow> 'u pool \<Rightarrow> 'u pool option" where
  "do_request r s =
     (if request_valid s r
      then Some (case r of
                   CreateSequencedTaskRunner traits \<Rightarrow> create_sequenced_task_runner traits s
                 | _ \<Rightarrow> s\<lparr>pl_calls := pl_calls s @ [request_ops s r]\<rparr>)
      else None)"

definition runs_tasks_in_current_sequence :: "'u pool \<Rightarrow> nat \<Rightarrow> 'u worker \<Rightarrow> bool" where
  "runs_tasks_in_current_sequence s sid wk \<longleftrightarrow>
     token_current (wk_tls wk) = Some (sq_token (pl_seqs s ! sid))"

text \<open>One operation of a client's call.\<close>

definition call_step :: "nat \<Rightarrow> 'u pool \<Rightarrow> 'u pool option" where
  "call_step i s =
     (if i < length (pl_calls s)
      then case pl_calls s ! i of
             [] \<Rightarrow> None
           | op # ops \<Rightarrow>
               (case exec_op op s of
                  None \<Rightarrow> None
                | Some (new, s') \<Rightarrow> Some (s'\<lparr>pl_calls := (pl_calls s')[i := new @ ops]\<rparr>))
      else None)"

section \<open>Worker threads\<close>

definition upd_worker :: "nat \<Rightarrow> 'u worker \<Rightarrow> 'u pool \<Rightarrow> 'u pool" where
  "upd_worker w wk s = s\<lparr>pl_workers := (pl_workers s)[w := wk]\<rparr>"

definition goto :: "nat \<Rightarrow> 'u worker_pc \<Rightarrow> 'u pool \<Rightarrow> 'u pool" where
  "goto w pc s = upd_worker w ((pl_workers s ! w)\<lparr>wk_pc := pc\<rparr>) s"

text \<open>
  The beginning of an iteration of \<open>worker_loop\<close>: the environment of the source is read, the
  token and the default runner are installed.
\<close>

definition enter_source :: "bool \<Rightarrow> nat \<Rightarrow> 'u pool \<Rightarrow> 'u worker \<Rightarrow> 'u worker" where
  "enter_source upgraded sid s wk =
     (let env = get_execution_environment (\<lambda>_. upgraded) (pl_seqs s ! sid);
          tls = scoped_token_new (ee_token env) (wk_tls wk)
      in case ee_task_runner env of
           None \<Rightarrow> wk\<lparr>wk_pc := WGot sid, wk_tls := tls, wk_handle := None\<rparr>
         | Some r \<Rightarrow> (case default_handle_new r tls of
                        (h, tls') \<Rightarrow> wk\<lparr>wk_pc := WGot sid, wk_tls := tls', wk_handle := Some h\<rparr>))"

text \<open>The end of an iteration: \<open>_default_handle\<close>, then \<open>_token_guard\<close> are dropped.\<close>

definition leave_source :: "'u worker_pc \<Rightarrow> 'u worker \<Rightarrow> 'u worker" where
  "leave_source pc wk =
     wk\<lparr>wk_pc := pc,
        wk_tls := scoped_token_drop
          (case wk_handle wk of None \<Rightarrow> wk_tls wk | Some h \<Rightarrow> default_handle_drop h (wk_tls wk)),
        wk_handle := None\<rparr>"

text \<open>\<open>ThreadGroup::get_work\<close>, one round of its loop.\<close>

definition get_work :: "nat \<Rightarrow> bool \<Rightarrow> 'u pool \<Rightarrow> 'u pool" where
  "get_work w upgraded s =
     (if pl_tg_shutdown s then goto w WExited s
      else case pq_pop (pl_queue s) of
             None \<Rightarrow> goto w WWaiting s
           | Some (sid, h) \<Rightarrow>
               upd_worker w (enter_source upgraded sid s (pl_workers s ! w)) (s\<lparr>pl_queue := h\<rparr>))"

definition worker_claim :: "nat \<Rightarrow> nat \<Rightarrow> 'u pool \<Rightarrow> 'u pool" where
  "worker_claim w sid s =
     (case will_run_task (pl_seqs s ! sid) of
        (Disallowed, q) \<Rightarrow> upd_worker w (leave_source WIdle (pl_workers s ! w)) (upd_seq sid q s)
      | (_, q) \<Rightarrow> goto w (WClaimed sid) (upd_seq sid q s))"

definition flushed :: "instant \<Rightarrow> 'u sequence \<Rightarrow> 'u task list" where
  "flushed now q =
     drop (length (si_immediate_queue (sq_inner q)))
       (si_immediate_queue (flush_ready_delayed_tasks now (sq_inner q)))"

definition worker_take :: "nat \<Rightarrow> nat \<Rightarrow> 'u pool \<Rightarrow> 'u pool" where
  "worker_take w sid s =
     (let q = pl_seqs s ! sid; enters = map (Enter sid) (flushed (pl_now s) q)
      in case take_task (pl_now s) q of
           (None, q') \<Rightarrow> goto w (WDone sid) (emit enters (upd_seq sid q' s))
         | (Some t, q') \<Rightarrow>
             upd_worker w
               ((pl_workers s ! w)\<lparr>wk_pc := WRunning sid [RunClosure (tk_callback t)],
                  wk_slot := (if pl_monitored s then task_started 0 (pl_now s) else 0)\<rparr>)
               (emit (enters @ [Start sid t (pl_now s)]) (upd_seq sid q' s)))"

fun op_events :: "nat \<Rightarrow> 'u op \<Rightarrow> 'u event list" where
  "op_events sid (RunBody (User u)) = [Begin sid u]"
| "op_events sid (UserEnd u) = [Return sid u]"
| "op_events sid _ = []"

definition worker_run :: "nat \<Rightarrow> nat \<Rightarrow> 'u op list \<Rightarrow> 'u pool \<Rightarrow> 'u pool option" where
  "worker_run w sid ops s =
     (case ops of
        [] \<Rightarrow> Some (upd_worker w ((pl_workers s ! w)\<lparr>wk_pc := WDone sid, wk_slot := task_finished\<rparr>) s)
      | op # rest \<Rightarrow>
          (case exec_op op s of
             None \<Rightarrow> None
           | Some (new, s') \<Rightarrow>
               Some (emit (op_events sid op) (goto w (WRunning sid (new @ rest)) s'))))"

text \<open>A user callback panics: the stack unwinds through the guards and the slot.\<close>

definition worker_panic :: "nat \<Rightarrow> nat \<Rightarrow> 'u op list \<Rightarrow> 'u pool \<Rightarrow> 'u pool option" where
  "worker_panic w sid ops s =
     (case ops of
        UserEnd u # rest \<Rightarrow>
          Some (upd_worker w
            ((leave_source (WPanicked sid rest) (pl_workers s ! w))\<lparr>wk_slot := worker_slot_drop\<rparr>) s)
      | _ \<Rightarrow> None)"

definition worker_store :: "nat \<Rightarrow> nat \<Rightarrow> 'u pool \<Rightarrow> 'u pool" where
  "worker_store w sid s = goto w (WCleared sid) (upd_seq sid (did_process_store (pl_seqs s ! sid)) s)"

definition worker_check :: "nat \<Rightarrow> nat \<Rightarrow> 'u pool \<Rightarrow> 'u pool" where
  "worker_check w sid s =
     (if did_process_check (pl_now s) (pl_seqs s ! sid) then goto w (WRequeue sid) s
      else upd_worker w (leave_source WIdle (pl_workers s ! w)) s)"

definition worker_requeue :: "nat \<Rightarrow> nat \<Rightarrow> 'u pool \<Rightarrow> 'u pool" where
  "worker_requeue w sid s =
     upd_worker w (leave_source WIdle (pl_workers s ! w)) (push_task_source sid s)"

text \<open>
  The next step of worker \<open>w\<close>.  A waiting worker moves only when it is notified; an exited or
  panicked one does not move.
\<close>

definition worker_step :: "nat \<Rightarrow> bool \<Rightarrow> 'u pool \<Rightarrow> 'u pool option" where
  "worker_step w upgraded s =
     (if w < length (pl_workers s)
      then case wk_pc (pl_workers s ! w) of
             WIdle \<Rightarrow> Some (get_work w upgraded s)
           | WGot sid \<Rightarrow> Some (worker_claim w sid s)
           | WClaimed sid \<Rightarrow> Some (worker_take w sid s)
           | WRunning sid ops \<Rightarrow> worker_run w sid ops s
           | WDone sid \<Rightarrow> Some (worker_store w sid s)
           | WCleared sid \<Rightarrow> Some (worker_check w sid s)
           | WRequeue sid \<Rightarrow> Some (worker_requeue w sid s)
           | _ \<Rightarrow> None
      else None)"

definition panic_step :: "nat \<Rightarrow> 'u pool \<Rightarrow> 'u pool option" where
  "panic_step w s =
     (if w < length (pl_workers s)
      then case wk_pc (pl_workers s ! w) of
             WRunning sid ops \<Rightarrow> worker_panic w sid ops s
           | _ \<Rightarrow> None
      else None)"

definition is_waiting :: "'u worker \<Rightarrow> bool" where
  "is_waiting wk \<longleftrightarrow> wk_pc wk = WWaiting"

text \<open>\<open>Condvar::notify_one\<close> of the group: one waiting worker, if there is any, wakes up.\<close>

definition tg_notify_one :: "nat option \<Rightarrow> 'u pool \<Rightarrow> 'u pool option" where
  "tg_notify_one target s =
     (if pl_tg_notify s = 0 then None
      else case target of
             None \<Rightarrow> if list_ex is_waiting (pl_workers s) then None
                      else Some (s\<lparr>pl_tg_notify := pl_tg_notify s - 1\<rparr>)
           | Some w \<Rightarrow> if w < length (pl_workers s) \<and> is_waiting (pl_workers s ! w)
                        then Some (goto w WIdle (s\<lparr>pl_tg_notify := pl_tg_notify s - 1\<rparr>))
                        else None)"

definition spurious_wake :: "nat \<Rightarrow> 'u pool \<Rightarrow> 'u pool option" where
  "spurious_wake w s =
     (if w < length (pl_workers s) \<and> is_waiting (pl_workers s ! w) then Some (goto w WIdle s)
      else None)"

text \<open>\<open>ThreadPool::attach_current_thread\<close>: the calling thread joins the workers, untracked.\<close>

definition attach_current_thread :: "nat option \<Rightarrow> 'u pool \<Rightarrow> 'u pool option" where
  "attach_current_thread dflt s =
     (if (case dflt of None \<Rightarrow> True | Some r \<Rightarrow> is_runner s r)
      then Some (s\<lparr>pl_workers := pl_workers s @ [worker_new dflt]\<rparr>) else None)"

section \<open>The timer thread\<close>

text \<open>One round of \<open>timer_loop\<close>.\<close>

definition timer_round :: "'u pool \<Rightarrow> 'u pool" where
  "timer_round s =
     (if pl_dtm_shutdown s then s\<lparr>pl_timer := TExited\<rparr>
      else case heap_peek (pl_timers s) of
             None \<Rightarrow> s\<lparr>pl_timer := TWaiting None\<rparr>
           | Some e \<Rightarrow>
               if de_ready_time e \<le> pl_now s
               then (case heap_pop reverse_entry_le (pl_timers s) of
                       None \<Rightarrow> s
                     | Some (e', h) \<Rightarrow> s\<lparr>pl_timers := h, pl_timer := THolding (de_sequence e')\<rparr>)
               else s\<lparr>pl_timer := TWaiting (Some (de_ready_time e))\<rparr>)"

definition timer_step :: "'u pool \<Rightarrow> 'u pool option" where
  "timer_step s =
     (case pl_timer s of
        TLoop \<Rightarrow> Some (timer_round s)
      | THolding sid \<Rightarrow> Some ((push_task_source sid s)\<lparr>pl_timer := TLoop\<rparr>)
      | TWaiting (Some deadline) \<Rightarrow> if deadline \<le> pl_now s then Some (s\<lparr>pl_timer := TLoop\<rparr>) else None
      | _ \<Rightarrow> None)"

fun timer_is_waiting :: "timer_pc \<Rightarrow> bool" where
  "timer_is_waiting (TWaiting _) = True"
| "timer_is_waiting _ = False"

definition dtm_notify_one :: "'u pool \<Rightarrow> 'u pool option" where
  "dtm_notify_one s =
     (if pl_dtm_notify s = 0 then None
      else Some (s\<lparr>pl_dtm_notify := pl_dtm_notify s - 1,
                   pl_timer := (if timer_is_waiting (pl_timer s) then TLoop else pl_timer s)\<rparr>))"

definition timer_spurious :: "'u pool \<Rightarrow> 'u pool option" where
  "timer_spurious s =
     (if timer_is_waiting (pl_timer s) then Some (s\<lparr>pl_timer := TLoop\<rparr>) else None)"

section \<open>Shutdown\<close>

definition joinable :: "'u worker \<Rightarrow> bool" where
  "joinable wk =
     (case wk_pc wk of WExited \<Rightarrow> True | WPanicked _ _ \<Rightarrow> True | _ \<Rightarrow> False)"

text \<open>
  \<open>ThreadPool::shutdown\<close> on one calling thread: \<open>TaskTracker::shutdown\<close> (\<open>SBegin\<close>, \<open>SWait\<close>),
  \<open>ThreadGroup::join_all\<close> (\<open>SSetFlag\<close> to \<open>SJoin\<close>), \<open>DelayedTaskManager::shutdown\<close>
  (\<open>SDtmFlag\<close> to \<open>SDtmJoin\<close>).
\<close>

fun shutdown_round :: "shutdown_pc \<Rightarrow> 'u pool \<Rightarrow> (shutdown_pc \<times> 'u pool) option" where
  "shutdown_round SBegin s =
     (case shutdown_begin (pl_tracker s) of
        (finished, tr) \<Rightarrow> Some (if finished then SSetFlag else SWait, s\<lparr>pl_tracker := tr\<rparr>))"
| "shutdown_round SWait s =
     (if shutdown_wait (pl_tracker s) then Some (SSetFlag, s) else None)"
| "shutdown_round SSetFlag s = Some (SNotifyAll, s\<lparr>pl_tg_shutdown := True\<rparr>)"
| "shutdown_round SNotifyAll s =
     Some (STakeHandles,
           s\<lparr>pl_workers := map (\<lambda>wk. if is_waiting wk then wk\<lparr>wk_pc := WIdle\<rparr> else wk)
                             (pl_workers s)\<rparr>)"
| "shutdown_round STakeHandles s = Some (SJoin (pl_handles s), s\<lparr>pl_handles := []\<rparr>)"
| "shutdown_round (SJoin []) s = Some (SDtmFlag, s)"
| "shutdown_round (SJoin (h # hs)) s =
     (if joinable (pl_workers s ! h) then Some (SJoin hs, s) else None)"
| "shutdown_round SDtmFlag s =
     Some (SDtmTake, s\<lparr>pl_dtm_shutdown := True, pl_dtm_notify := pl_dtm_notify s + 1\<rparr>)"
| "shutdown_round SDtmTake s =
     Some (if pl_dtm_handle s then SDtmJoin else SDone, s\<lparr>pl_dtm_handle := False\<rparr>)"
| "shutdown_round SDtmJoin s = (if pl_timer s = TExited then Some (SDone, s) else None)"
| "shutdown_round SDone s = None"

definition shutdown_step :: "nat \<Rightarrow> 'u pool \<Rightarrow> 'u pool option" where
  "shutdown_step i s =
     (if i < length (pl_shutdowns s)
      then case shutdown_round (pl_shutdowns s ! i) s of
             None \<Rightarrow> None
           | Some (pc, s') \<Rightarrow> Some (s'\<lparr>pl_shutdowns := (pl_shutdowns s')[i := pc]\<rparr>)
      else None)"

section \<open>The machine\<close>

datatype 'u label =
    Tick duration
  | Request "'u request"
  | CallStep nat
  | WorkerStep nat bool
  | WorkerPanic nat
  | GroupNotify "nat option"
  | GroupSpurious nat
  | Attach "nat option"
  | TimerStep
  | TimerNotify
  | TimerSpurious
  | Shutdown
  | ShutdownStep nat

fun pool_step :: "'u label \<Rightarrow> 'u pool \<Rightarrow> 'u pool option" where
  "pool_step (Tick d) s = Some (s\<lparr>pl_now := pl_now s + d\<rparr>)"
| "pool_step (Request r) s = do_request r s"
| "pool_step (CallStep i) s = call_step i s"
| "pool_step (WorkerStep w upgraded) s = worker_step w upgraded s"
| "pool_step (WorkerPanic w) s = panic_step w s"
| "pool_step (GroupNotify target) s = tg_notify_one target s"
| "pool_step (GroupSpurious w) s = spurious_wake w s"
| "pool_step (Attach dflt) s = attach_current_thread dflt s"
| "pool_step TimerStep s = timer_step s"
| "pool_step TimerNotify s = dtm_notify_one s"
| "pool_step TimerSpurious s = timer_spurious s"
| "pool_step Shutdown s = Some (s\<lparr>pl_shutdowns := pl_shutdowns s @ [SBegin]\<rparr>)"
| "pool_step (ShutdownStep i) s = shutdown_step i s"

definition pool_init :: "'u pool \<Rightarrow> bool" where
  "pool_init s \<longleftrightarrow> (\<exists>n monitored. s = pool_new n monitored)"

abbreviation pool_reach :: "'u pool \<Rightarrow> bool" where
  "pool_reach \<equiv> reach pool_init pool_step"

end
