(* ===== verification/Pool_Ownership.thy ===== *)
theory Pool_Ownership
  imports Thread_Pool_Model
begin

text \<open>
  Well-formedness of the pool and the ownership invariant: the \<open>has_worker\<close> flag of a sequence
  is set exactly when one worker is between its claim and its release, so at most one worker
  runs tasks of a sequence at any time.
\<close>

lemmas state_defs =
  upd_seq_def emit_def upd_worker_def goto_def

lemmas worker_defs =
  get_work_def worker_claim_def worker_take_def worker_run_def worker_panic_def worker_store_def
  worker_check_def worker_requeue_def

lemmas thread_defs =
  call_step_def worker_step_def panic_step_def tg_notify_one_def spurious_wake_def
  attach_current_thread_def timer_step_def timer_round_def dtm_notify_one_def timer_spurious_def
  shutdown_step_def do_request_def create_sequenced_task_runner_def

lemmas post_defs =
  alloc_sequence_def create_token_def op_push_task_def op_push_delayed_def push_task_source_def
  add_sequence_def

lemmas seq_op_defs =
  push_task_def inner_push_task_def push_delayed_task_def inner_push_delayed_task_def
  did_process_store_def set_task_runner_def sequence_new_def

section \<open>What an operation leaves alone\<close>

lemma take_task_frame:
  assumes "take_task now q = (r, q')"
  shows "sq_has_worker q' = sq_has_worker q" "sq_token q' = sq_token q"
    "sq_task_runner q' = sq_task_runner q" "sq_traits q' = sq_traits q"
  using assms by (auto simp: take_task_def Let_def split: list.splits)

lemma push_frame [simp]:
  "sq_has_worker (push_task t q) = sq_has_worker q" "sq_token (push_task t q) = sq_token q"
  "sq_task_runner (push_task t q) = sq_task_runner q" "sq_traits (push_task t q) = sq_traits q"
  "sq_has_worker (push_delayed_task t r q) = sq_has_worker q"
  "sq_token (push_delayed_task t r q) = sq_token q"
  "sq_task_runner (push_delayed_task t r q) = sq_task_runner q"
  "sq_traits (push_delayed_task t r q) = sq_traits q"
  by (simp_all add: push_task_def push_delayed_task_def)

lemma exec_op_frame:
  assumes "exec_op op s = Some (new, s')"
  shows "pl_workers s' = pl_workers s" "pl_calls s' = pl_calls s" "pl_now s' = pl_now s"
    "pl_timer s' = pl_timer s" "pl_handles s' = pl_handles s" "pl_shutdowns s' = pl_shutdowns s"
    "pl_tg_shutdown s' = pl_tg_shutdown s" "pl_dtm_shutdown s' = pl_dtm_shutdown s"
    "pl_dtm_handle s' = pl_dtm_handle s" "pl_monitored s' = pl_monitored s"
    "pl_num_threads s' = pl_num_threads s"
  using assms
  by (cases "(op, s)" rule: exec_op.cases;
      auto simp: post_defs state_defs Let_def split: option.splits if_splits prod.splits)+

lemma update_same_field: "f q = f (xs ! i) \<Longrightarrow> map f (xs[i := q]) = map f xs"
  by (cases "i < length xs") (auto simp: map_update list_update_same_conv list_update_beyond)

text \<open>The fields of a sequence that only the owner or the constructor changes.\<close>

lemma exec_op_flags:
  assumes "exec_op op s = Some (new, s')"
  shows "map sq_has_worker (pl_seqs s') = map sq_has_worker (pl_seqs s) \<or>
         map sq_has_worker (pl_seqs s') = map sq_has_worker (pl_seqs s) @ [False]"
  using assms
  by (cases "(op, s)" rule: exec_op.cases)
     (auto simp: post_defs state_defs Let_def update_same_field nth_append sequence_new_def
       split: option.splits if_splits prod.splits)

section \<open>Ownership\<close>

fun owned :: "'u worker_pc \<Rightarrow> nat option" where
  "owned (WClaimed sid) = Some sid"
| "owned (WRunning sid ops) = Some sid"
| "owned (WDone sid) = Some sid"
| "owned (WPanicked sid ops) = Some sid"
| "owned _ = None"

definition own_ok :: "nat option list \<Rightarrow> bool list \<Rightarrow> bool" where
  "own_ok os hs \<longleftrightarrow>
     (\<forall>w < length os. \<forall>w' < length os. \<forall>sid. os ! w = Some sid \<longrightarrow> os ! w' = Some sid \<longrightarrow> w = w') \<and>
     (\<forall>w < length os. \<forall>sid. os ! w = Some sid \<longrightarrow> sid < length hs) \<and>
     (\<forall>sid < length hs. hs ! sid \<longleftrightarrow> (\<exists>w < length os. os ! w = Some sid))"

definition inv_own :: "'u pool \<Rightarrow> bool" where
  "inv_own s = own_ok (map (owned \<circ> wk_pc) (pl_workers s)) (map sq_has_worker (pl_seqs s))"

lemma own_okI:
  assumes "\<And>w w' sid. w < length os \<Longrightarrow> w' < length os \<Longrightarrow> os ! w = Some sid \<Longrightarrow> os ! w' = Some sid \<Longrightarrow> w = w'"
    and "\<And>w sid. w < length os \<Longrightarrow> os ! w = Some sid \<Longrightarrow> sid < length hs \<and> hs ! sid"
    and "\<And>sid. sid < length hs \<Longrightarrow> hs ! sid \<Longrightarrow> \<exists>w < length os. os ! w = Some sid"
  shows "own_ok os hs"
  unfolding own_ok_def using assms by blast

lemma own_ok_unique:
  "own_ok os hs \<Longrightarrow> w < length os \<Longrightarrow> w' < length os \<Longrightarrow> os ! w = Some sid \<Longrightarrow> os ! w' = Some sid \<Longrightarrow> w = w'"
  unfolding own_ok_def by blast

lemma own_ok_flag:
  "own_ok os hs \<Longrightarrow> w < length os \<Longrightarrow> os ! w = Some sid \<Longrightarrow> sid < length hs \<and> hs ! sid"
  unfolding own_ok_def by blast

lemma own_ok_owner:
  "own_ok os hs \<Longrightarrow> sid < length hs \<Longrightarrow> hs ! sid \<Longrightarrow> \<exists>w < length os. os ! w = Some sid"
  unfolding own_ok_def by blast

lemma own_ok_claim:
  assumes ok: "own_ok os hs" and w: "w < length os" "os ! w = None"
    and sid: "sid < length hs" "\<not> hs ! sid"
  shows "own_ok (os[w := Some sid]) (hs[sid := True])"
proof (rule own_okI)
  have free: "v < length os \<Longrightarrow> os ! v \<noteq> Some sid" for v
    using own_ok_flag [OF ok, of v sid] sid by blast
  show "v = v'" if "v < length (os[w := Some sid])" "v' < length (os[w := Some sid])"
    "os[w := Some sid] ! v = Some x" "os[w := Some sid] ! v' = Some x" for v v' x
    using that own_ok_unique [OF ok, of v v' x] free w
    by (auto simp: nth_list_update split: if_splits)
  show "x < length (hs[sid := True]) \<and> hs[sid := True] ! x"
    if "v < length (os[w := Some sid])" "os[w := Some sid] ! v = Some x" for v x
    using that own_ok_flag [OF ok, of v x] sid(1) w by (auto simp: nth_list_update split: if_splits)
  show "\<exists>v < length (os[w := Some sid]). os[w := Some sid] ! v = Some x"
    if x: "x < length (hs[sid := True])" "hs[sid := True] ! x" for x
  proof (cases "x = sid")
    case True
    then show ?thesis using w by auto
  next
    case False
    then obtain v where "v < length os" "os ! v = Some x"
      using own_ok_owner [OF ok, of x] x by auto
    moreover from this have "v \<noteq> w" using w by auto
    ultimately show ?thesis by auto
  qed
qed

lemma own_ok_release:
  assumes ok: "own_ok os hs" and w: "w < length os" "os ! w = Some sid"
  shows "own_ok (os[w := None]) (hs[sid := False])"
proof (rule own_okI)
  show "v = v'" if "v < length (os[w := None])" "v' < length (os[w := None])"
    "os[w := None] ! v = Some x" "os[w := None] ! v' = Some x" for v v' x
    using that own_ok_unique [OF ok, of v v' x] w by (auto simp: nth_list_update split: if_splits)
  show "x < length (hs[sid := False]) \<and> hs[sid := False] ! x"
    if "v < length (os[w := None])" "os[w := None] ! v = Some x" for v x
    using that own_ok_flag [OF ok, of v x] own_ok_unique [OF ok, of v w sid] w
      own_ok_flag [OF ok w]
    by (auto simp: nth_list_update split: if_splits)
  show "\<exists>v < length (os[w := None]). os[w := None] ! v = Some x"
    if x: "x < length (hs[sid := False])" "hs[sid := False] ! x" for x
  proof -
    have "x \<noteq> sid" using x by auto
    moreover obtain v where "v < length os" "os ! v = Some x"
      using own_ok_owner [OF ok, of x] x calculation by auto
    moreover from calculation have "v \<noteq> w" using w by auto
    ultimately show ?thesis by auto
  qed
qed

lemma own_ok_alloc:
  assumes ok: "own_ok os hs"
  shows "own_ok os (hs @ [False])"
proof (rule own_okI)
  show "v = v'" if "v < length os" "v' < length os" "os ! v = Some x" "os ! v' = Some x" for v v' x
    using that own_ok_unique [OF ok] by blast
  show "x < length (hs @ [False]) \<and> (hs @ [False]) ! x" if "v < length os" "os ! v = Some x" for v x
    using own_ok_flag [OF ok that] by (auto simp: nth_append)
  show "\<exists>v < length os. os ! v = Some x" if "x < length (hs @ [False])" "(hs @ [False]) ! x" for x
    using that own_ok_owner [OF ok, of x] by (auto simp: nth_append less_Suc_eq split: if_splits)
qed

lemma own_ok_attach:
  assumes ok: "own_ok os hs"
  shows "own_ok (os @ [None]) hs"
proof (rule own_okI)
  show "v = v'" if "v < length (os @ [None])" "v' < length (os @ [None])"
    "(os @ [None]) ! v = Some x" "(os @ [None]) ! v' = Some x" for v v' x
    using that own_ok_unique [OF ok, of v v' x]
    by (auto simp: nth_append less_Suc_eq split: if_splits)
  show "x < length hs \<and> hs ! x" if "v < length (os @ [None])" "(os @ [None]) ! v = Some x" for v x
    using that own_ok_flag [OF ok, of v x] by (auto simp: nth_append less_Suc_eq split: if_splits)
  show "\<exists>v < length (os @ [None]). (os @ [None]) ! v = Some x" if "x < length hs" "hs ! x" for x
    using own_ok_owner [OF ok that] by (auto simp: nth_append intro: less_SucI)
qed


section \<open>Well-formed states\<close>

fun body_ok :: "nat \<Rightarrow> 'u body \<Rightarrow> bool" where
  "body_ok n (User u) = True"
| "body_ok n (WithReply u r v) = (case r of None \<Rightarrow> True | Some sid \<Rightarrow> sid < n)"
| "body_ok n (Timed posted_at b) = body_ok n b"

fun closure_ok :: "nat \<Rightarrow> 'u closure \<Rightarrow> bool" where
  "closure_ok n (Plain b) = body_ok n b"
| "closure_ok n (Tracked traits b) = body_ok n b"

fun op_ok :: "nat \<Rightarrow> 'u op \<Rightarrow> bool" where
  "op_ok n (RunClosure c) = closure_ok n c"
| "op_ok n (RunBody b) = body_ok n b"
| "op_ok n (PostReply sid v) = (sid < n)"
| "op_ok n (PushTask sid c) = (sid < n \<and> closure_ok n c)"
| "op_ok n (PushDelayed sid c t) = (sid < n \<and> closure_ok n c)"
| "op_ok n (PushSource sid) = (sid < n)"
| "op_ok n (AddSequence t sid) = (sid < n)"
| "op_ok n (NewSequence traits c t) = closure_ok n c"
| "op_ok n _ = True"

definition ops_ok :: "nat \<Rightarrow> 'u op list \<Rightarrow> bool" where
  "ops_ok n ops \<longleftrightarrow> (\<forall>op \<in> set ops. op_ok n op)"

definition seq_ok :: "nat \<Rightarrow> 'u sequence \<Rightarrow> bool" where
  "seq_ok n q \<longleftrightarrow> sequence_wf q \<and>
     (\<forall>t \<in> set (si_immediate_queue (sq_inner q)). closure_ok n (tk_callback t)) \<and>
     (\<forall>d \<in> set (si_delayed_queue (sq_inner q)). closure_ok n (tk_callback (dt_task d)))"

fun pc_ok :: "nat \<Rightarrow> 'u worker_pc \<Rightarrow> bool" where
  "pc_ok n (WGot sid) = (sid < n)"
| "pc_ok n (WClaimed sid) = (sid < n)"
| "pc_ok n (WRunning sid ops) = (sid < n \<and> ops_ok n ops)"
| "pc_ok n (WDone sid) = (sid < n)"
| "pc_ok n (WCleared sid) = (sid < n)"
| "pc_ok n (WRequeue sid) = (sid < n)"
| "pc_ok n (WPanicked sid ops) = (sid < n \<and> ops_ok n ops)"
| "pc_ok n _ = True"

fun timer_holds :: "timer_pc \<Rightarrow> nat set" where
  "timer_holds (THolding sid) = {sid}"
| "timer_holds _ = {}"

text \<open>The part of the state that \<open>exec_op\<close> may change.\<close>

definition data_ok :: "'u pool \<Rightarrow> bool" where
  "data_ok s \<longleftrightarrow>
     (\<forall>q \<in> set (pl_seqs s). seq_ok (length (pl_seqs s)) q) \<and>
     pq_wf (pl_queue s) \<and> dtm_wf (pl_timers s) \<and>
     (\<forall>sid \<in> pq_sources (pl_queue s). sid < length (pl_seqs s)) \<and>
     (\<forall>e \<in> set (pl_timers s). de_sequence e < length (pl_seqs s))"

definition inv_wf :: "'u pool \<Rightarrow> bool" where
  "inv_wf s \<longleftrightarrow> data_ok s \<and>
     (\<forall>sid \<in> timer_holds (pl_timer s). sid < length (pl_seqs s)) \<and>
     (\<forall>wk \<in> set (pl_workers s). pc_ok (length (pl_seqs s)) (wk_pc wk)) \<and>
     (\<forall>ops \<in> set (pl_calls s). ops_ok (length (pl_seqs s)) ops)"

lemma body_ok_mono: "body_ok n b \<Longrightarrow> n \<le> m \<Longrightarrow> body_ok m b"
  by (induction b) (auto split: option.splits)

lemma closure_ok_mono: "closure_ok n c \<Longrightarrow> n \<le> m \<Longrightarrow> closure_ok m c"
  by (cases c) (auto intro: body_ok_mono)

lemma op_ok_mono: "op_ok n op \<Longrightarrow> n \<le> m \<Longrightarrow> op_ok m op"
  by (cases op) (auto intro: body_ok_mono closure_ok_mono)

lemma ops_ok_mono: "ops_ok n ops \<Longrightarrow> n \<le> m \<Longrightarrow> ops_ok m ops"
  by (auto simp: ops_ok_def intro: op_ok_mono)

lemma ops_ok_simps [simp]:
  "ops_ok n []" "ops_ok n (op # ops) \<longleftrightarrow> op_ok n op \<and> ops_ok n ops"
  "ops_ok n (ops @ ops') \<longleftrightarrow> ops_ok n ops \<and> ops_ok n ops'"
  by (auto simp: ops_ok_def)

lemma seq_ok_mono: "seq_ok n q \<Longrightarrow> n \<le> m \<Longrightarrow> seq_ok m q"
  by (auto simp: seq_ok_def intro: closure_ok_mono)

lemma pc_ok_mono: "pc_ok n pc \<Longrightarrow> n \<le> m \<Longrightarrow> pc_ok m pc"
  by (cases pc) (auto intro: ops_ok_mono)

lemma timed_ok [simp]: "body_ok n (timed s b) = body_ok n b"
  by (simp add: timed_def)

lemma seq_ok_new [simp]: "seq_ok n (sequence_new tok traits)"
  by (simp add: seq_ok_def sequence_wf_def sequence_new_def)

lemma seq_ok_push:
  "seq_ok n q \<Longrightarrow> closure_ok n (tk_callback t) \<Longrightarrow> seq_ok n (push_task t q)"
  "seq_ok n q \<Longrightarrow> closure_ok n (tk_callback t) \<Longrightarrow> seq_ok n (push_delayed_task t ready q)"
  using sequence_wf_ops(2,3)
  by (auto simp: seq_ok_def seq_op_defs Let_def)

lemma take_task_contents:
  assumes "sequence_wf q" and "take_task now q = (r, q')"
  shows "mset (map tk_callback (si_immediate_queue (sq_inner q)))
           + mset (map (\<lambda>d. tk_callback (dt_task d)) (si_delayed_queue (sq_inner q))) =
         (case r of None \<Rightarrow> {#} | Some t \<Rightarrow> {#tk_callback t#})
           + mset (map tk_callback (si_immediate_queue (sq_inner q')))
           + mset (map (\<lambda>d. tk_callback (dt_task d)) (si_delayed_queue (sq_inner q')))"
proof -
  obtain ds rest :: "'a delayed_task list" where f: "flush_ready_delayed_tasks now (sq_inner q) =
            (sq_inner q)\<lparr>si_delayed_queue := rest,
                  si_immediate_queue := si_immediate_queue (sq_inner q) @ map dt_task ds\<rparr>"
      "mset (si_delayed_queue (sq_inner q)) = mset ds + mset rest"
    using flush_moves_due_tasks [of "sq_inner q" now] assms(1) unfolding sequence_wf_def by blast
  have "mset (map (\<lambda>d. tk_callback (dt_task d)) (si_delayed_queue (sq_inner q))) =
      mset (map (\<lambda>d. tk_callback (dt_task d)) ds) + mset (map (\<lambda>d. tk_callback (dt_task d)) rest)"
    unfolding mset_map f(2) by simp
  moreover have "case si_immediate_queue (sq_inner q) @ map dt_task ds of
      [] \<Rightarrow> r = None \<and> si_immediate_queue (sq_inner q') = []
    | t # ts \<Rightarrow> r = Some t \<and> si_immediate_queue (sq_inner q') = ts"
    and "si_delayed_queue (sq_inner q') = rest"
    using assms(2) f(1) by (auto simp: take_task_def Let_def split: list.splits)
  moreover have "mset (map tk_callback (si_immediate_queue (sq_inner q) @ map dt_task ds)) =
      (case r of None \<Rightarrow> {#} | Some t \<Rightarrow> {#tk_callback t#})
           + mset (map tk_callback (si_immediate_queue (sq_inner q')))"
    using calculation(2) by (cases "si_immediate_queue (sq_inner q) @ map dt_task ds") auto
  ultimately show ?thesis by (simp add: o_def)
qed

lemma seq_ok_take:
  assumes "seq_ok n q" and "take_task now q = (r, q')"
  shows "seq_ok n q'" and "r = Some t \<Longrightarrow> closure_ok n (tk_callback t)"
proof -
  let ?cs = "\<lambda>q. mset (map tk_callback (si_immediate_queue (sq_inner q)))
           + mset (map (\<lambda>d. tk_callback (dt_task d)) (si_delayed_queue (sq_inner q)))"
  have wf: "sequence_wf q" using assms(1) by (simp add: seq_ok_def)
  have "\<forall>c \<in># ?cs q. closure_ok n c" using assms(1) by (auto simp: seq_ok_def)
  then have "\<forall>c \<in># (case r of None \<Rightarrow> {#} | Some t \<Rightarrow> {#tk_callback t#}) + ?cs q'. closure_ok n c"
    unfolding take_task_contents [OF wf assms(2)] by (simp add: add.assoc)
  then show "seq_ok n q'" and "r = Some t \<Longrightarrow> closure_ok n (tk_callback t)"
    using take_task_ready(2) [OF wf assms(2)] by (auto simp: seq_ok_def)
qed


lemma pl_seqs_simps [simp]:
  "length (pl_seqs (upd_seq sid q s)) = length (pl_seqs s)" "pl_seqs (emit es s) = pl_seqs s"
  by (simp_all add: state_defs)

lemma data_ok_cong:
  "pl_seqs s' = pl_seqs s \<Longrightarrow> pl_queue s' = pl_queue s \<Longrightarrow> pl_timers s' = pl_timers s \<Longrightarrow>
   data_ok s' = data_ok s"
  by (simp add: data_ok_def)

lemma data_ok_seq:
  "data_ok s \<Longrightarrow> sid < length (pl_seqs s) \<Longrightarrow> seq_ok (length (pl_seqs s)) (pl_seqs s ! sid)"
  by (simp add: data_ok_def)

lemma data_ok_upd_seq:
  assumes "data_ok s" and "seq_ok (length (pl_seqs s)) q"
  shows "data_ok (upd_seq sid q s)"
  using assms set_update_subset_insert [of "pl_seqs s" sid q]
  by (auto simp: data_ok_def upd_seq_def)

lemma data_ok_alloc:
  assumes "data_ok s" and "alloc_sequence traits s = (sid, s')"
  shows "data_ok s'" and "length (pl_seqs s') = Suc (length (pl_seqs s))" and "sid = length (pl_seqs s)"
    and "pl_seqs s' = pl_seqs s @ [sequence_new (SequenceToken (pl_next_token s)) traits]"
  using assms
  by (auto simp: alloc_sequence_def create_token_def data_ok_def less_SucI intro!: seq_ok_mono [OF _ le_SucI [OF le_refl]])

lemma data_ok_emit [simp]: "data_ok (emit es s) = data_ok s"
  by (simp add: data_ok_def emit_def)

lemma data_ok_push_task:
  assumes "data_ok s" and "sid < length (pl_seqs s)" and "closure_ok (length (pl_seqs s)) cb"
  shows "data_ok (op_push_task sid cb s)" and "data_ok (op_push_delayed sid cb t s)"
    and "length (pl_seqs (op_push_task sid cb s)) = length (pl_seqs s)"
    and "length (pl_seqs (op_push_delayed sid cb t s)) = length (pl_seqs s)"
  unfolding op_push_task_def op_push_delayed_def Let_def data_ok_emit
  using assms data_ok_seq [OF assms(1,2)]
  by (auto simp: task_new_def intro!: data_ok_upd_seq seq_ok_push)

lemma data_ok_pushes:
  assumes "data_ok s" and "sid < length (pl_seqs s)"
  shows "data_ok (push_task_source sid s)" and "data_ok (add_sequence t sid s)"
  using assms by (auto simp: data_ok_def push_task_source_def add_sequence_def)

lemma exec_op_data:
  assumes "data_ok s" and "op_ok (length (pl_seqs s)) op" and "exec_op op s = Some (new, s')"
  shows "data_ok s'" and "length (pl_seqs s) \<le> length (pl_seqs s')"
    and "ops_ok (length (pl_seqs s')) new"
proof -
  have "data_ok s' \<and> length (pl_seqs s) \<le> length (pl_seqs s') \<and> ops_ok (length (pl_seqs s')) new"
  proof (cases op)
    case (NewSequence traits cb ready)
    obtain sid t where a: "alloc_sequence traits s = (sid, t)" by fastforce
    note al = data_ok_alloc [OF assms(1) a]
    have "sid < length (pl_seqs t)" "closure_ok (length (pl_seqs t)) cb"
      using al assms(2) NewSequence by (auto intro: closure_ok_mono)
    then show ?thesis
      using assms(3) NewSequence a al data_ok_push_task [OF al(1)] by (auto split: option.splits)
  next
    case (RunClosure c)
    then show ?thesis using assms by (cases c) (auto split: if_splits)
  next
    case (RunBody b)
    then show ?thesis using assms by (cases b) (auto split: option.splits)
  next
    case (PushTask sid cb)
    then show ?thesis using assms data_ok_push_task(1,3) [OF assms(1), of sid cb] by auto
  next
    case (PushDelayed sid cb t)
    then show ?thesis using assms data_ok_push_task(2,4) [OF assms(1), of sid cb t] by auto
  next
    case (PushSource sid)
    then show ?thesis
      using assms data_ok_pushes(1) [OF assms(1), of sid] by (auto simp: push_task_source_def)
  next
    case (AddSequence t sid)
    then show ?thesis
      using assms data_ok_pushes(2) [OF assms(1), of sid t] by (auto simp: add_sequence_def)
  next
    case (WillPost traits u delay)
    then show ?thesis
      using assms data_ok_cong [of s' s]
      by (auto simp: emit_def wrap_def Let_def split: prod.splits if_splits)
  next
    case (AfterRun traits)
    then show ?thesis using assms data_ok_cong [of s' s] by (auto split: option.splits)
  qed (use assms in auto)
  then show "data_ok s'" and "length (pl_seqs s) \<le> length (pl_seqs s')"
    and "ops_ok (length (pl_seqs s')) new" by auto
qed

section \<open>Preservation\<close>

lemma set_updateD: "x \<in> set (xs[i := y]) \<Longrightarrow> x = y \<or> x \<in> set xs"
  using set_update_subset_insert by fastforce

text \<open>Workers only ever change through \<open>upd_worker\<close>, after data changes.\<close>

lemma inv_wf_workers:
  assumes "data_ok s'" and "length (pl_seqs s) \<le> length (pl_seqs s')" and "inv_wf s"
    and "pl_timer s' = pl_timer s" and "pl_calls s' = pl_calls s"
    and "pl_workers s' = (pl_workers s)[w := wk]" and "pc_ok (length (pl_seqs s')) (wk_pc wk)"
  shows "inv_wf s'"
  using assms unfolding inv_wf_def
  by (auto dest!: set_updateD intro: ops_ok_mono pc_ok_mono less_le_trans)

lemma leave_source_fields [simp]: "wk_pc (leave_source pc wk) = pc"
  by (simp add: leave_source_def)

lemma enter_source_pc [simp]: "wk_pc (enter_source up sid s wk) = WGot sid"
  by (auto simp: enter_source_def Let_def split: option.splits prod.splits)

lemma inv_wf_call_step:
  assumes "inv_wf s" and "call_step i s = Some s'"
  shows "inv_wf s'"
proof -
  from assms(2) obtain op ops new t where i: "i < length (pl_calls s)" "pl_calls s ! i = op # ops"
      and e: "exec_op op s = Some (new, t)" and s': "s' = t\<lparr>pl_calls := (pl_calls t)[i := new @ ops]\<rparr>"
    by (auto simp: call_step_def split: if_splits list.splits option.splits)
  have ok: "ops_ok (length (pl_seqs s)) (op # ops)"
    using assms(1) i nth_mem [OF i(1)] unfolding inv_wf_def by metis
  note d = exec_op_data [OF _ _ e]
  have "data_ok s" using assms(1) by (simp add: inv_wf_def)
  then have t: "data_ok t" "length (pl_seqs s) \<le> length (pl_seqs t)"
      "ops_ok (length (pl_seqs t)) new"
    using d ok by auto
  then show ?thesis
    using assms(1) ok unfolding s' inv_wf_def exec_op_frame [OF e]
    by (auto simp: exec_op_frame [OF e] data_ok_cong [of "t\<lparr>pl_calls := _\<rparr>" t]
        dest!: set_updateD intro: ops_ok_mono pc_ok_mono less_le_trans)
qed

lemma worker_pc_ok:
  "inv_wf s \<Longrightarrow> w < length (pl_workers s) \<Longrightarrow> pc_ok (length (pl_seqs s)) (wk_pc (pl_workers s ! w))"
  by (simp add: inv_wf_def)

lemma inv_wf_data: "inv_wf s \<Longrightarrow> data_ok s"
  by (simp add: inv_wf_def)

lemma inv_wf_get_work:
  assumes "inv_wf s" and "w < length (pl_workers s)"
  shows "inv_wf (get_work w up s)"
proof (cases "pl_tg_shutdown s \<or> pq_pop (pl_queue s) = None")
  case True
  then have "\<exists>pc. get_work w up s = goto w pc s \<and> (pc = WExited \<or> pc = WWaiting)"
    by (auto simp: get_work_def)
  then show ?thesis
    using assms inv_wf_data [OF assms(1)]
    by (auto intro!: inv_wf_workers [OF _ _ assms(1)] simp: state_defs data_ok_def)
next
  case False
  then obtain sid h where p: "pq_pop (pl_queue s) = Some (sid, h)" by auto
  have "pq_sources (pl_queue s) = insert sid (pq_sources h)" "pq_wf (pl_queue s) \<Longrightarrow> pq_wf h"
    using pq_pop_facts [OF p] by auto
  then show ?thesis
    using assms inv_wf_data [OF assms(1)] False p
    by (intro inv_wf_workers [OF _ _ assms(1), where w = w
          and wk = "enter_source up sid s (pl_workers s ! w)"])
       (auto simp: state_defs data_ok_def get_work_def)
qed


lemma inv_wf_worker_take:
  assumes "inv_wf s" and "w < length (pl_workers s)" and "wk_pc (pl_workers s ! w) = WClaimed sid"
  shows "inv_wf (worker_take w sid s)"
proof -
  have sid: "sid < length (pl_seqs s)" using worker_pc_ok [OF assms(1,2)] assms(3) by simp
  obtain r q where t: "take_task (pl_now s) (pl_seqs s ! sid) = (r, q)" by fastforce
  note ok = seq_ok_take [OF data_ok_seq [OF inv_wf_data [OF assms(1)] sid] t]
  have "data_ok (upd_seq sid q s)" using data_ok_upd_seq [OF inv_wf_data [OF assms(1)] ok(1)] .
  then have d: "data_ok (s\<lparr>pl_seqs := (pl_seqs s)[sid := q], pl_log := es, pl_workers := wks\<rparr>)" for es wks
    by (simp add: data_ok_def upd_seq_def)
  show ?thesis
    using t ok sid d
    by (cases r)
       (auto simp: worker_take_def Let_def state_defs intro!: inv_wf_workers [OF _ _ assms(1)])
qed

lemma inv_wf_worker_claim:
  assumes "inv_wf s" and "w < length (pl_workers s)" and "wk_pc (pl_workers s ! w) = WGot sid"
  shows "inv_wf (worker_claim w sid s)"
proof -
  have sid: "sid < length (pl_seqs s)" using worker_pc_ok [OF assms(1,2)] assms(3) by simp
  have "seq_ok (length (pl_seqs s)) (snd (will_run_task (pl_seqs s ! sid)))"
    using data_ok_seq [OF inv_wf_data [OF assms(1)] sid]
    by (auto simp: seq_ok_def will_run_task_def sequence_wf_def)
  then have "data_ok (s\<lparr>pl_seqs := (pl_seqs s)[sid := snd (will_run_task (pl_seqs s ! sid))],
      pl_workers := wks\<rparr>)" for wks
    using data_ok_upd_seq [OF inv_wf_data [OF assms(1)], of _ sid]
    by (simp add: data_ok_def upd_seq_def)
  then show ?thesis
    using sid
    by (auto simp: worker_claim_def state_defs will_run_task_def
        intro!: inv_wf_workers [OF _ _ assms(1)])
qed

lemma inv_wf_worker_run:
  assumes "inv_wf s" and "w < length (pl_workers s)"
    and "wk_pc (pl_workers s ! w) = WRunning sid ops" and "worker_run w sid ops s = Some s'"
  shows "inv_wf s'"
proof (cases ops)
  case Nil
  then show ?thesis
    using assms worker_pc_ok [OF assms(1,2)] inv_wf_data [OF assms(1)]
    by (auto simp: worker_run_def state_defs data_ok_def intro!: inv_wf_workers [OF _ _ assms(1)])
next
  case (Cons op rest)
  then obtain new t where e: "exec_op op s = Some (new, t)"
      and s': "s' = emit (op_events sid op) (goto w (WRunning sid (new @ rest)) t)"
    using assms(4) by (auto simp: worker_run_def split: option.splits)
  have ok: "sid < length (pl_seqs s)" "op_ok (length (pl_seqs s)) op" "ops_ok (length (pl_seqs s)) rest"
    using worker_pc_ok [OF assms(1,2)] assms(3) Cons by auto
  note d = exec_op_data [OF inv_wf_data [OF assms(1)] ok(2) e]
  then have "data_ok s'" by (simp add: s' state_defs data_ok_def)
  then show ?thesis
    using ok d exec_op_frame [OF e]
    by (intro inv_wf_workers [OF _ _ assms(1), where w = w
          and wk = "(pl_workers s ! w)\<lparr>wk_pc := WRunning sid (new @ rest)\<rparr>"])
       (auto simp: s' state_defs intro: ops_ok_mono)
qed

lemma inv_wf_push_task_source:
  assumes "inv_wf s" and "sid < length (pl_seqs s)"
  shows "inv_wf (push_task_source sid s)"
  using assms data_ok_pushes(1) [OF inv_wf_data [OF assms(1)] assms(2)]
  by (simp add: inv_wf_def push_task_source_def)

lemma inv_wf_goto:
  assumes "inv_wf s" and "pc_ok (length (pl_seqs s)) (wk_pc wk)"
  shows "inv_wf (upd_worker w wk s)"
  using assms inv_wf_data [OF assms(1)]
  by (auto intro!: inv_wf_workers [OF _ _ assms(1)] simp: state_defs data_ok_def)

lemma inv_wf_worker_step:
  assumes "inv_wf s" and "worker_step w up s = Some s'"
  shows "inv_wf s'"
proof -
  have w: "w < length (pl_workers s)" using assms(2) by (auto simp: worker_step_def split: if_splits)
  note ok = worker_pc_ok [OF assms(1) w]
  show ?thesis
  proof (cases "wk_pc (pl_workers s ! w)")
    case WIdle
    then show ?thesis using assms w inv_wf_get_work by (auto simp: worker_step_def)
  next
    case (WGot sid)
    then show ?thesis using assms w inv_wf_worker_claim by (auto simp: worker_step_def)
  next
    case (WClaimed sid)
    then show ?thesis using assms w inv_wf_worker_take by (auto simp: worker_step_def)
  next
    case (WRunning sid ops)
    then show ?thesis using assms w inv_wf_worker_run by (auto simp: worker_step_def)
  next
    case (WDone sid)
    have "seq_ok (length (pl_seqs s)) (did_process_store (pl_seqs s ! sid))"
      using data_ok_seq [OF inv_wf_data [OF assms(1)], of sid] ok WDone
      by (auto simp: seq_ok_def did_process_store_def sequence_wf_def)
    then have "data_ok (upd_seq sid (did_process_store (pl_seqs s ! sid)) s)"
      by (rule data_ok_upd_seq [OF inv_wf_data [OF assms(1)]])
    then have "inv_wf (upd_seq sid (did_process_store (pl_seqs s ! sid)) s)"
      using assms(1) by (simp add: inv_wf_def upd_seq_def)
    then show ?thesis
      using assms w ok WDone
      by (auto simp: worker_step_def worker_store_def goto_def intro!: inv_wf_goto)
  next
    case (WCleared sid)
    then show ?thesis
      using assms w ok
      by (auto simp: worker_step_def worker_check_def goto_def intro!: inv_wf_goto split: if_splits)
  next
    case (WRequeue sid)
    then show ?thesis
      using assms w ok
      by (auto simp: worker_step_def worker_requeue_def intro!: inv_wf_goto inv_wf_push_task_source)
  qed (use assms w in \<open>auto simp: worker_step_def\<close>)
qed


lemma request_ops_ok:
  "request_valid s r \<Longrightarrow> ops_ok (length (pl_seqs s)) (request_ops s r)"
  by (cases r) (auto simp: is_runner_def split: option.splits)

lemma inv_wf_request:
  assumes "inv_wf s" and "do_request r s = Some s'"
  shows "inv_wf s'"
proof (cases "\<exists>traits. r = CreateSequencedTaskRunner traits")
  case True
  then obtain traits where r: "r = CreateSequencedTaskRunner traits" by blast
  obtain sid t where a: "alloc_sequence traits s = (sid, t)" by fastforce
  note al = data_ok_alloc [OF inv_wf_data [OF assms(1)] a]
  have "seq_ok (length (pl_seqs t)) (set_task_runner sid (pl_seqs t ! sid))"
    using seq_ok_new [of "length (pl_seqs t)" "SequenceToken (pl_next_token s)" traits] al
    by (simp add: seq_ok_def set_task_runner_def sequence_wf_def)
  then have "data_ok s'" and "s' = upd_seq sid (set_task_runner sid (pl_seqs t ! sid)) t"
    using data_ok_upd_seq [OF al(1)] assms(2) r a
    by (auto simp: do_request_def create_sequenced_task_runner_def)
  moreover have "pl_timer t = pl_timer s" "pl_calls t = pl_calls s" "pl_workers t = pl_workers s"
    using a by (auto simp: alloc_sequence_def create_token_def)
  ultimately show ?thesis
    using al(2) inv_wf_workers [of s' s "length (pl_workers s)", OF _ _ assms(1)]
    by (auto simp: inv_wf_def upd_seq_def) (use assms(1) in \<open>auto simp: inv_wf_def
        intro: ops_ok_mono pc_ok_mono less_SucI\<close>)
next
  case False
  then have "s' = s\<lparr>pl_calls := pl_calls s @ [request_ops s r]\<rparr>" "request_valid s r"
    using assms(2) by (auto simp: do_request_def split: if_splits request.splits)
  then show ?thesis
    using assms(1) request_ops_ok [of s r] by (auto simp: inv_wf_def data_ok_def)
qed

lemma inv_wf_timer_step:
  assumes "inv_wf s" and "timer_step s = Some s'"
  shows "inv_wf s'"
proof (cases "pl_timer s")
  case TLoop
  then have s': "s' = timer_round s" using assms(2) by (simp add: timer_step_def)
  show ?thesis
  proof (cases "heap_pop reverse_entry_le (pl_timers s)")
    case None
    then show ?thesis
      using assms(1) unfolding s' timer_round_def
      by (auto simp: inv_wf_def data_ok_def split: option.splits if_splits)
  next
    case (Some p)
    obtain e h where p: "p = (e, h)" by fastforce
    have "set (pl_timers s) = insert e (set h)" "dtm_wf (pl_timers s) \<Longrightarrow> dtm_wf h"
      using dtm_pop_facts [OF Some [unfolded p]] by auto
    then show ?thesis
      using assms(1) Some p unfolding s' timer_round_def
      by (auto simp: inv_wf_def data_ok_def split: option.splits if_splits)
  qed
next
  case (THolding sid)
  then show ?thesis
    using assms inv_wf_push_task_source [OF assms(1), of sid]
    by (auto simp: timer_step_def inv_wf_def data_ok_def)
qed (use assms in \<open>auto simp: timer_step_def inv_wf_def data_ok_def split: option.splits if_splits\<close>)

lemma inv_wf_shutdown_step:
  assumes "inv_wf s" and "shutdown_step i s = Some s'"
  shows "inv_wf s'"
proof -
  obtain pc t where r: "shutdown_round (pl_shutdowns s ! i) s = Some (pc, t)"
      and s': "s' = t\<lparr>pl_shutdowns := (pl_shutdowns t)[i := pc]\<rparr>"
    using assms(2) by (auto simp: shutdown_step_def split: if_splits option.splits)
  have "inv_wf t"
    using assms(1) r
    by (cases "(pl_shutdowns s ! i, s)" rule: shutdown_round.cases)
       (auto simp: inv_wf_def data_ok_def shutdown_begin_def split: if_splits)
  then show ?thesis by (simp add: s' inv_wf_def data_ok_def)
qed

lemma inv_wf_step:
  assumes "inv_wf s" and "pool_step l s = Some s'"
  shows "inv_wf s'"
proof (cases l)
  case (WorkerPanic w)
  then obtain sid u rest where w: "w < length (pl_workers s)"
      "wk_pc (pl_workers s ! w) = WRunning sid (UserEnd u # rest)"
      and s': "s' = upd_worker w ((leave_source (WPanicked sid rest) (pl_workers s ! w))
                 \<lparr>wk_slot := worker_slot_drop\<rparr>) s"
    using assms(2)
    by (auto simp: panic_step_def worker_panic_def split: if_splits worker_pc.splits list.splits op.splits)
  then show ?thesis using worker_pc_ok [OF assms(1) w(1)] by (auto intro!: inv_wf_goto [OF assms(1)])
next
  case (GroupNotify target)
  have "inv_wf (s\<lparr>pl_tg_notify := n\<rparr>)" for n using assms(1) by (simp add: inv_wf_def data_ok_def)
  then show ?thesis
    using assms(2) GroupNotify
    by (auto simp: tg_notify_one_def goto_def intro!: inv_wf_goto split: if_splits option.splits)
next
  case (Attach dflt)
  then show ?thesis
    using assms by (auto simp: attach_current_thread_def inv_wf_def data_ok_def worker_new_def split: if_splits)
next
  case (GroupSpurious w)
  then show ?thesis
    using assms by (auto simp: spurious_wake_def goto_def intro!: inv_wf_goto split: if_splits)
next
  case (CallStep i)
  then show ?thesis using assms(2) inv_wf_call_step [OF assms(1)] by simp
next
  case (WorkerStep w up)
  then show ?thesis using assms(2) inv_wf_worker_step [OF assms(1)] by simp
next
  case (Request r)
  then show ?thesis using assms(2) inv_wf_request [OF assms(1)] by simp
next
  case (TimerStep)
  then show ?thesis using assms(2) inv_wf_timer_step [OF assms(1)] by simp
next
  case (ShutdownStep i)
  then show ?thesis using assms(2) inv_wf_shutdown_step [OF assms(1)] by simp
qed (use assms in \<open>auto simp: dtm_notify_one_def timer_spurious_def inv_wf_def data_ok_def
       split: if_splits\<close>)

interpretation pool_wf: inductive_invariant pool_init pool_step inv_wf
proof
  show "inv_wf s" if "pool_init s" for s :: "'u pool"
    using that pq_new_facts
    by (auto simp: pool_init_def pool_new_def inv_wf_def data_ok_def worker_new_def dtm_wf_def)
qed (rule inv_wf_step)


section \<open>Every reachable state has consistent owners\<close>

lemma inv_own_same:
  assumes "inv_own s" and "map (owned \<circ> wk_pc) (pl_workers s') = map (owned \<circ> wk_pc) (pl_workers s)"
    and "map sq_has_worker (pl_seqs s') = map sq_has_worker (pl_seqs s)"
  shows "inv_own s'"
  using assms by (simp add: inv_own_def)

lemma inv_own_upd_worker:
  assumes "inv_own s" and "owned (wk_pc wk) = owned (wk_pc (pl_workers s ! w))"
  shows "inv_own (upd_worker w wk s)"
  by (rule inv_own_same [OF assms(1)]) (simp_all add: state_defs update_same_field assms(2))

lemma inv_own_exec:
  assumes "inv_own s" and "exec_op op s = Some (new, t)"
  shows "inv_own t"
  using assms exec_op_flags [OF assms(2)] exec_op_frame(1) [OF assms(2)] own_ok_alloc
  by (auto simp: inv_own_def)

lemma inv_own_worker_step:
  assumes "inv_own s" and wf: "inv_wf s" and "worker_step w up s = Some s'"
  shows "inv_own s'"
proof -
  have w: "w < length (pl_workers s)" using assms(3) by (auto simp: worker_step_def split: if_splits)
  note ok = worker_pc_ok [OF wf w]
  have cong: "inv_own (s\<lparr>pl_queue := h, pl_tg_notify := n\<rparr>)" "inv_own (s\<lparr>pl_queue := h\<rparr>)" for h n
    using assms(1) by (simp_all add: inv_own_def)
  show ?thesis
  proof (cases "wk_pc (pl_workers s ! w)")
    case WIdle
    then show ?thesis
      using assms w cong
      by (auto simp: worker_step_def get_work_def goto_def intro!: inv_own_upd_worker
          split: option.splits if_splits)
  next
    case (WGot sid)
    then have sid: "sid < length (pl_seqs s)" using ok by simp
    show ?thesis
    proof (cases "sq_has_worker (pl_seqs s ! sid)")
      case True
      then show ?thesis
        using assms w WGot
        by (auto simp: worker_step_def worker_claim_def will_run_task_def state_defs
            update_same_field intro!: inv_own_same [OF assms(1)])
    next
      case False
      then have "s' = goto w (WClaimed sid) (upd_seq sid ((pl_seqs s ! sid)\<lparr>sq_has_worker := True\<rparr>) s)"
        using assms w WGot by (auto simp: worker_step_def worker_claim_def will_run_task_def)
      then show ?thesis
        using own_ok_claim [OF assms(1) [unfolded inv_own_def], of w sid] w sid False WGot
        by (simp add: inv_own_def state_defs map_update)
    qed
  next
    case (WClaimed sid)
    obtain r q where t: "take_task (pl_now s) (pl_seqs s ! sid) = (r, q)" by fastforce
    then show ?thesis
      using assms w WClaimed take_task_frame [OF t]
      by (cases r) (auto simp: worker_step_def worker_take_def Let_def state_defs
          update_same_field intro!: inv_own_same [OF assms(1)])
  next
    case (WRunning sid ops)
    show ?thesis
    proof (cases ops)
      case Nil
      then show ?thesis
        using assms w WRunning
        by (auto simp: worker_step_def worker_run_def intro!: inv_own_upd_worker)
    next
      case (Cons op rest)
      then obtain new t where e: "exec_op op s = Some (new, t)"
          and s': "s' = emit (op_events sid op) (goto w (WRunning sid (new @ rest)) t)"
        using assms(3) w WRunning by (auto simp: worker_step_def worker_run_def split: option.splits)
      have "inv_own (goto w (WRunning sid (new @ rest)) t)"
        using inv_own_exec [OF assms(1) e] WRunning exec_op_frame(1) [OF e]
        by (auto simp: goto_def intro!: inv_own_upd_worker)
      then show ?thesis by (simp add: s' inv_own_def emit_def)
    qed
  next
    case (WDone sid)
    then show ?thesis
      using own_ok_release [OF assms(1) [unfolded inv_own_def], of w sid] w assms(3)
      by (auto simp: worker_step_def worker_store_def inv_own_def state_defs map_update
          did_process_store_def)
  next
    case (WCleared sid)
    then show ?thesis
      using assms w by (auto simp: worker_step_def worker_check_def goto_def intro!: inv_own_upd_worker)
  next
    case (WRequeue sid)
    then show ?thesis
      using assms w cong
      by (auto simp: worker_step_def worker_requeue_def push_task_source_def intro!: inv_own_upd_worker)
  qed (use assms w in \<open>auto simp: worker_step_def\<close>)
qed

lemma inv_own_step:
  assumes "inv_own s" and "inv_wf s" and "pool_step l s = Some s'"
  shows "inv_own s'"
proof (cases l)
  case (WorkerStep w up)
  then show ?thesis using assms(3) inv_own_worker_step [OF assms(1,2)] by simp
next
  case (Request r)
  then show ?thesis
    using assms(1,3) own_ok_alloc
    by (auto simp: do_request_def create_sequenced_task_runner_def alloc_sequence_def create_token_def
        upd_seq_def inv_own_def seq_op_defs split: if_splits request.splits)
next
  case (CallStep i)
  then obtain op ops new t where e: "exec_op op s = Some (new, t)"
      and s': "s' = t\<lparr>pl_calls := (pl_calls t)[i := new @ ops]\<rparr>"
    using assms(3) by (auto simp: call_step_def split: if_splits list.splits option.splits)
  then show ?thesis using inv_own_exec [OF assms(1) e] by (simp add: inv_own_def)
next
  case (WorkerPanic w)
  then show ?thesis
    using assms(1,3)
    by (auto simp: panic_step_def worker_panic_def intro!: inv_own_upd_worker
        split: if_splits worker_pc.splits list.splits op.splits)
next
  case (GroupNotify target)
  have "inv_own (s\<lparr>pl_tg_notify := n\<rparr>)" for n using assms(1) by (simp add: inv_own_def)
  then show ?thesis
    using assms(3) GroupNotify
    by (auto simp: tg_notify_one_def goto_def is_waiting_def intro!: inv_own_upd_worker
        split: if_splits option.splits)
next
  case (GroupSpurious w)
  then show ?thesis
    using assms by (auto simp: spurious_wake_def is_waiting_def goto_def intro!: inv_own_upd_worker
        split: if_splits)
next
  case (Attach dflt)
  then show ?thesis
    using assms(1,3) own_ok_attach
    by (auto simp: attach_current_thread_def inv_own_def worker_new_def split: if_splits)
next
  case TimerStep
  then show ?thesis
    using assms(1,3)
    by (auto simp: timer_step_def timer_round_def push_task_source_def inv_own_def
        split: timer_pc.splits option.splits if_splits)
next
  case (ShutdownStep i)
  then obtain pc t where r: "shutdown_round (pl_shutdowns s ! i) s = Some (pc, t)"
      and s': "s' = t\<lparr>pl_shutdowns := (pl_shutdowns t)[i := pc]\<rparr>"
    using assms(3) by (auto simp: shutdown_step_def split: if_splits option.splits)
  have "map (owned \<circ> wk_pc) (pl_workers t) = map (owned \<circ> wk_pc) (pl_workers s) \<and> pl_seqs t = pl_seqs s"
    using r by (cases "(pl_shutdowns s ! i, s)" rule: shutdown_round.cases)
       (auto simp: shutdown_begin_def is_waiting_def split: if_splits)
  then show ?thesis using assms(1) by (simp add: s' inv_own_def)
qed (use assms in \<open>auto simp: dtm_notify_one_def timer_spurious_def inv_own_def split: if_splits\<close>)

interpretation pool_own: inductive_invariant pool_init pool_step "\<lambda>s. inv_wf s \<and> inv_own s"
proof
  show "inv_wf s \<and> inv_own s" if "pool_init s" for s :: "'u pool"
    using that pool_wf.inv_init [OF that]
    by (auto simp: pool_init_def pool_new_def inv_own_def own_ok_def worker_new_def)
  show "inv_wf t \<and> inv_own t" if "inv_wf s \<and> inv_own s" "pool_step l s = Some t"
    for s t :: "'u pool" and l
    using that inv_wf_step inv_own_step by blast
qed

text \<open>
  C1. Mutual exclusion: in every reachable state of the pool, two different workers are never in
  the middle of the same sequence, whatever the interleaving of posts, workers, timer and
  shutdown.  A worker is in the middle of a sequence from a successful claim to the release of
  \<open>has_worker\<close>; a worker that died in a task keeps the sequence for ever.
\<close>

theorem sequence_never_runs_on_two_workers:
  assumes "pool_reach s" and "w < length (pl_workers s)" and "w' < length (pl_workers s)"
    and "owned (wk_pc (pl_workers s ! w)) = Some sid"
    and "owned (wk_pc (pl_workers s ! w')) = Some sid"
  shows "w = w'"
proof -
  have "own_ok (map (owned \<circ> wk_pc) (pl_workers s)) (map sq_has_worker (pl_seqs s))"
    using pool_own.reach_inv [OF assms(1)] by (simp add: inv_own_def)
  from own_ok_unique [OF this, of w w' sid] show ?thesis using assms(2-) by simp
qed

end
