(* ===== verification/Pool_Progress.thy ===== *)
theory Pool_Progress
  imports Pool_Ownership
begin

text \<open>
  No task is forgotten.  Coverage: a sequence with immediate tasks, or with a due delayed task,
  is in the ready queue or in the hands of a thread that will look at it again; a delayed task
  that is not due has an entry in the timer heap.  Wake-ups: while workers wait on the group's
  condition variable there are enough runnable workers or due notifications for every queued
  source, and the waiting timer thread never sleeps past a deadline.  Together: a pool with
  ready work that is not shut down always has a step to make.
\<close>

section \<open>Coverage\<close>

fun pc_sids :: "'u worker_pc \<Rightarrow> nat set" where
  "pc_sids (WGot sid) = {sid}"
| "pc_sids (WClaimed sid) = {sid}"
| "pc_sids (WRunning sid ops) = {sid}"
| "pc_sids (WDone sid) = {sid}"
| "pc_sids (WCleared sid) = {sid}"
| "pc_sids (WRequeue sid) = {sid}"
| "pc_sids (WPanicked sid ops) = {sid}"
| "pc_sids _ = {}"

fun pc_ops :: "'u worker_pc \<Rightarrow> 'u op list" where
  "pc_ops (WRunning sid ops) = ops"
| "pc_ops (WPanicked sid ops) = ops"
| "pc_ops _ = []"

definition pending_ops :: "'u pool \<Rightarrow> 'u op set" where
  "pending_ops s =
     (\<Union>ops \<in> set (pl_calls s). set ops) \<union> (\<Union>wk \<in> set (pl_workers s). set (pc_ops (wk_pc wk)))"

definition custody :: "'u pool \<Rightarrow> nat set" where
  "custody s =
     pq_sources (pl_queue s) \<union> timer_holds (pl_timer s) \<union> (\<Union>wk \<in> set (pl_workers s). pc_sids (wk_pc wk))
     \<union> {sid. PushSource sid \<in> pending_ops s}"

definition seq_covered ::
    "instant \<Rightarrow> nat set \<Rightarrow> 'u op set \<Rightarrow> delayed_entry set \<Rightarrow> nat \<Rightarrow> 'u sequence \<Rightarrow> bool" where
  "seq_covered now C Ops T sid q \<longleftrightarrow>
     (si_immediate_queue (sq_inner q) \<noteq> [] \<longrightarrow> sid \<in> C) \<and>
     (\<forall>d \<in> set (si_delayed_queue (sq_inner q)).
        (\<exists>e \<in> T. de_sequence e = sid \<and> de_ready_time e = dt_ready_time d) \<or>
        AddSequence (dt_ready_time d) sid \<in> Ops \<or> (dt_ready_time d \<le> now \<and> sid \<in> C))"

definition covered ::
    "instant \<Rightarrow> nat set \<Rightarrow> 'u op set \<Rightarrow> delayed_entry set \<Rightarrow> 'u sequence list \<Rightarrow> bool" where
  "covered now C Ops T qs \<longleftrightarrow> (\<forall>sid < length qs. seq_covered now C Ops T sid (qs ! sid))"

definition inv_cover :: "'u pool \<Rightarrow> bool" where
  "inv_cover s = covered (pl_now s) (custody s) (pending_ops s) (set (pl_timers s)) (pl_seqs s)"

lemma seq_covered_mono:
  assumes "seq_covered now C Ops T sid q" and "C \<subseteq> C'" and "Ops \<subseteq> Ops'" and "T \<subseteq> T'" and "now \<le> now'"
  shows "seq_covered now' C' Ops' T' sid q"
  using assms unfolding seq_covered_def by (meson order_trans subsetD)

lemma covered_mono:
  "covered now C Ops T qs \<Longrightarrow> C \<subseteq> C' \<Longrightarrow> Ops \<subseteq> Ops' \<Longrightarrow> T \<subseteq> T' \<Longrightarrow> now \<le> now' \<Longrightarrow>
   covered now' C' Ops' T' qs"
  unfolding covered_def using seq_covered_mono by blast

lemma covered_update:
  assumes "covered now C Ops T qs" and "C \<subseteq> C'" "Ops \<subseteq> Ops'" "T \<subseteq> T'"
    and "sid < length qs \<Longrightarrow> seq_covered now C' Ops' T' sid q"
  shows "covered now C' Ops' T' (qs[sid := q])"
  using assms(5) covered_mono [OF assms(1-4) order_refl]
  by (cases "sid < length qs") (auto simp: covered_def nth_list_update list_update_beyond)

lemma covered_append:
  assumes "covered now C Ops T qs" and "C \<subseteq> C'" "Ops \<subseteq> Ops'" "T \<subseteq> T'"
    and "seq_covered now C' Ops' T' (length qs) q"
  shows "covered now C' Ops' T' (qs @ [q])"
  using assms covered_mono [OF assms(1-4) order_refl]
  by (auto simp: covered_def nth_append less_Suc_eq)

lemma seq_covered_new [simp]: "seq_covered now C Ops T sid (sequence_new tok traits)"
  by (simp add: seq_covered_def sequence_new_def)

lemma seq_covered_push_task:
  "seq_covered now C Ops T sid q \<Longrightarrow> sid \<in> C \<Longrightarrow> seq_covered now C Ops T sid (push_task t q)"
  by (auto simp: seq_covered_def push_task_def inner_push_task_def Let_def)

lemma seq_covered_push_delayed:
  "seq_covered now C Ops T sid q \<Longrightarrow> AddSequence ready sid \<in> Ops \<Longrightarrow>
   seq_covered now C Ops T sid (push_delayed_task t ready q)"
  by (auto simp: seq_covered_def push_delayed_task_def inner_push_delayed_task_def Let_def)

lemma seq_covered_drop_op:
  "seq_covered now C (insert op Ops) T sid q \<Longrightarrow> (\<And>t n. op \<noteq> AddSequence t n) \<Longrightarrow>
   seq_covered now C Ops T sid q"
  by (auto simp: seq_covered_def)

lemma exec_op_covered:
  assumes "exec_op op s = Some (new, s')"
    and cov: "covered now C (insert op Ops) (set (pl_timers s)) (pl_seqs s)"
    and C': "C \<subseteq> C'" "\<And>sid. PushSource sid \<in> set new \<Longrightarrow> sid \<in> C'" and new: "set new \<subseteq> Ops"
  shows "covered now C' Ops (set (pl_timers s')) (pl_seqs s')"
proof -
  have same: "covered now C' Ops (set (pl_timers s)) (pl_seqs s)" if "\<And>t sid. op \<noteq> AddSequence t sid"
  proof -
    have "covered now C Ops (set (pl_timers s)) (pl_seqs s)"
      using cov seq_covered_drop_op [OF _ that] unfolding covered_def by blast
    then show ?thesis by (rule covered_mono [OF _ C'(1)]) auto
  qed
  show ?thesis
  proof (cases op)
    case (PushTask sid cb)
    then have "sid \<in> C'" using assms(1) C'(2) [of sid] by auto
    then show ?thesis
      using same PushTask assms(1) covered_update [OF same order_refl order_refl order_refl, of sid]
      by (auto simp: op_push_task_def Let_def state_defs covered_def seq_covered_push_task)
  next
    case (PushDelayed sid cb t)
    then have "AddSequence t sid \<in> Ops" using assms(1) new by auto
    then show ?thesis
      using same PushDelayed assms(1) covered_update [OF same order_refl order_refl order_refl, of sid]
      by (auto simp: op_push_delayed_def Let_def state_defs covered_def seq_covered_push_delayed)
  next
    case (AddSequence t sid)
    have "covered now C' Ops (insert \<lparr>de_ready_time = t, de_id = i, de_sequence = sid\<rparr>
            (set (pl_timers s))) (pl_seqs s)" for i
      using cov C'(1) unfolding covered_def seq_covered_def AddSequence by fastforce
    then show ?thesis using AddSequence assms(1) by (auto simp: add_sequence_def)
  next
    case (NewSequence traits cb ready)
    let ?q = "sequence_new (SequenceToken (pl_next_token s)) traits :: 'a sequence"
    let ?n = "length (pl_seqs s)"
    have "ready = None \<Longrightarrow> ?n \<in> C'" "ready = Some t \<Longrightarrow> AddSequence t ?n \<in> Ops" for t
      using assms(1) C'(2) [of ?n] new NewSequence
      by (auto simp: alloc_sequence_def create_token_def)
    then have "seq_covered now C' Ops (set (pl_timers s)) ?n
        (case ready of None \<Rightarrow> push_task (task_new (''rust_task'', ?n) cb) ?q
         | Some t \<Rightarrow> push_delayed_task (task_new (''rust_task'', ?n) cb) t ?q)"
      by (auto split: option.splits intro!: seq_covered_push_task seq_covered_push_delayed)
    from covered_append [OF same order_refl order_refl order_refl this] NewSequence assms(1)
    show ?thesis
      by (auto simp: alloc_sequence_def create_token_def op_push_task_def op_push_delayed_def
          Let_def state_defs split: option.splits)
  next
    case (RunClosure c)
    then show ?thesis using same assms(1) by (cases c) auto
  next
    case (RunBody b)
    then show ?thesis using same assms(1) by (cases b) auto
  qed (use same assms(1) in \<open>auto simp: emit_def Let_def push_task_source_def
        split: option.splits prod.splits\<close>)
qed

lemma exec_op_queue:
  assumes "exec_op op s = Some (new, s')"
  shows "pq_sources (pl_queue s) \<subseteq> pq_sources (pl_queue s')"
    and "op = PushSource sid \<Longrightarrow> sid \<in> pq_sources (pl_queue s')"
  using assms
  by (cases "(op, s)" rule: exec_op.cases;
      auto simp: post_defs state_defs Let_def split: option.splits if_splits prod.splits)+


lemma UN_update:
  assumes "i < length xs"
  shows "(\<Union>x \<in> set xs. f x) \<subseteq> f (xs ! i) \<union> (\<Union>x \<in> set (xs[i := y]). f x)"
    and "f y \<subseteq> (\<Union>x \<in> set (xs[i := y]). f x)"
proof -
  show "(\<Union>x \<in> set xs. f x) \<subseteq> f (xs ! i) \<union> (\<Union>x \<in> set (xs[i := y]). f x)"
  proof
    fix a assume "a \<in> (\<Union>x \<in> set xs. f x)"
    then obtain j where j: "j < length xs" "a \<in> f (xs ! j)" by (auto simp: in_set_conv_nth)
    show "a \<in> f (xs ! i) \<union> (\<Union>x \<in> set (xs[i := y]). f x)"
    proof (cases "j = i")
      case False
      then have "xs ! j \<in> set (xs[i := y])" using j(1) by (metis length_list_update nth_list_update_neq nth_mem)
      then show ?thesis using j by blast
    qed (use j in simp)
  qed
  show "f y \<subseteq> (\<Union>x \<in> set (xs[i := y]). f x)"
    using assms by (auto intro: set_update_memI)
qed

lemma inv_cover_mono:
  assumes "inv_cover s" and "pl_seqs s' = pl_seqs s" and "pl_now s \<le> pl_now s'"
    and "custody s \<subseteq> custody s'" and "pending_ops s \<subseteq> pending_ops s'"
    and "set (pl_timers s) \<subseteq> set (pl_timers s')"
  shows "inv_cover s'"
  using covered_mono [OF assms(1) [unfolded inv_cover_def] assms(4-6,3)] assms(2)
  by (simp add: inv_cover_def)

text \<open>Worker \<open>w\<close> moves on without dropping operations.\<close>

lemma worker_move:
  assumes "w < length (pl_workers s)" and "pl_workers s' = (pl_workers s)[w := wk]"
    and "pl_calls s' = pl_calls s" and "pl_timer s' = pl_timer s"
    and "pq_sources (pl_queue s) \<subseteq> custody s'"
    and "set (pc_ops (wk_pc (pl_workers s ! w))) \<subseteq> insert op (set (pc_ops (wk_pc wk)))"
    and "\<And>t sid. op \<noteq> PushSource sid"
    and "pc_sids (wk_pc (pl_workers s ! w)) \<subseteq> custody s'"
  shows "custody s \<subseteq> custody s'" and "pending_ops s \<subseteq> insert op (pending_ops s')"
proof -
  note u = UN_update [OF assms(1), of "\<lambda>wk. set (pc_ops (wk_pc wk))" wk]
  show p: "pending_ops s \<subseteq> insert op (pending_ops s')"
    using u assms(2,3,6) unfolding pending_ops_def by auto
  have "(\<Union>wk \<in> set (pl_workers s). pc_sids (wk_pc wk)) \<subseteq> custody s'"
    using UN_update(1) [OF assms(1), of "\<lambda>wk. pc_sids (wk_pc wk)" wk] assms(2,8)
    unfolding custody_def by auto
  moreover have "{sid. PushSource sid \<in> pending_ops s} \<subseteq> custody s'"
    using p assms(7) unfolding custody_def by auto
  moreover have "timer_holds (pl_timer s) \<subseteq> custody s'"
    using assms(4) unfolding custody_def by auto
  ultimately show "custody s \<subseteq> custody s'" using assms(5) unfolding custody_def [of s] by auto
qed

lemma custodyI:
  "sid \<in> pq_sources (pl_queue s) \<Longrightarrow> sid \<in> custody s"
  "sid \<in> timer_holds (pl_timer s) \<Longrightarrow> sid \<in> custody s"
  "wk \<in> set (pl_workers s) \<Longrightarrow> sid \<in> pc_sids (wk_pc wk) \<Longrightarrow> sid \<in> custody s"
  "PushSource sid \<in> pending_ops s \<Longrightarrow> sid \<in> custody s"
  by (auto simp: custody_def)

lemma custody_updated_worker:
  assumes "w < length ws" and "pl_workers s' = ws[w := wk]" and "sid \<in> pc_sids (wk_pc wk)"
  shows "sid \<in> custody s'"
  using assms by (auto intro!: custodyI(3) [of wk] set_update_memI)

text \<open>The two ways to execute an operation: in a call of a client and in a task on a worker.\<close>

lemma inv_cover_exec:
  assumes cov: "inv_cover s" and e: "exec_op op s = Some (new, t)"
    and s': "pl_seqs s' = pl_seqs t" "pl_timers s' = pl_timers t" "pl_now s' = pl_now t"
    and sub: "pending_ops s \<subseteq> insert op (pending_ops s')" "set new \<subseteq> pending_ops s'"
      "custody s \<subseteq> custody s'"
  shows "inv_cover s'"
proof -
  have "covered (pl_now s) (custody s) (insert op (pending_ops s')) (set (pl_timers s)) (pl_seqs s)"
    by (rule covered_mono [OF cov [unfolded inv_cover_def] order_refl sub(1)]) auto
  from exec_op_covered [OF e this sub(3) custodyI(4) sub(2)] sub(2)
  show ?thesis by (auto simp: inv_cover_def s' exec_op_frame [OF e])
qed

lemma inv_cover_call_step:
  assumes "inv_cover s" and "call_step i s = Some s'"
  shows "inv_cover s'"
proof -
  from assms(2) obtain op ops new t where i: "i < length (pl_calls s)" "pl_calls s ! i = op # ops"
      and e: "exec_op op s = Some (new, t)" and s': "s' = t\<lparr>pl_calls := (pl_calls s)[i := new @ ops]\<rparr>"
    by (auto simp: call_step_def exec_op_frame split: if_splits list.splits option.splits)
  note u = UN_update [OF i(1), of set "new @ ops"]
  have p: "pending_ops s \<subseteq> insert op (pending_ops s')" "set new \<subseteq> pending_ops s'"
    using u i(2) by (auto simp: pending_ops_def s' exec_op_frame [OF e])
  have "custody s \<subseteq> custody s'"
    using p(1) exec_op_queue [OF e]
    by (auto simp: custody_def s' exec_op_frame [OF e])
  then show ?thesis using inv_cover_exec [OF assms(1) e _ _ _ p] by (simp add: s')
qed

lemma inv_cover_worker_run:
  assumes "inv_cover s" and w: "w < length (pl_workers s)"
    and pc: "wk_pc (pl_workers s ! w) = WRunning sid (op # rest)"
    and e: "exec_op op s = Some (new, t)"
    and s': "s' = emit (op_events sid op) (goto w (WRunning sid (new @ rest)) t)"
  shows "inv_cover s'"
proof -
  have ws: "pl_workers s' = (pl_workers s)[w := (pl_workers s ! w)\<lparr>wk_pc := WRunning sid (new @ rest)\<rparr>]"
    by (simp add: s' state_defs exec_op_frame [OF e])
  have fr: "pl_calls s' = pl_calls s" "pl_timer s' = pl_timer s" "pl_queue s' = pl_queue t"
    by (simp_all add: s' state_defs exec_op_frame [OF e])
  note u = UN_update [OF w, of "\<lambda>wk. set (pc_ops (wk_pc wk))" "(pl_workers s ! w)\<lparr>wk_pc := WRunning sid (new @ rest)\<rparr>"]
  have p: "pending_ops s \<subseteq> insert op (pending_ops s')" "set new \<subseteq> pending_ops s'"
    using u pc by (auto simp: pending_ops_def ws fr)
  have "(\<Union>wk \<in> set (pl_workers s). pc_sids (wk_pc wk)) \<subseteq> (\<Union>wk \<in> set (pl_workers s'). pc_sids (wk_pc wk))"
    using UN_update [OF w, of "\<lambda>wk. pc_sids (wk_pc wk)" "(pl_workers s ! w)\<lparr>wk_pc := WRunning sid (new @ rest)\<rparr>"] pc
    by (auto simp: ws)
  then have "custody s \<subseteq> custody s'"
    using p(1) exec_op_queue [OF e] fr unfolding custody_def by auto
  then show ?thesis
    using inv_cover_exec [OF assms(1) e _ _ _ p] by (simp add: s' state_defs)
qed


lemma seq_covered_take:
  assumes "sequence_wf q" and "take_task now q = (r, q')" and "seq_covered now C Ops T sid q" and "sid \<in> C"
  shows "seq_covered now C Ops T sid q'"
proof -
  obtain ds rest :: "'a delayed_task list" where f: "flush_ready_delayed_tasks now (sq_inner q) =
            (sq_inner q)\<lparr>si_delayed_queue := rest,
                  si_immediate_queue := si_immediate_queue (sq_inner q) @ map dt_task ds\<rparr>"
      "mset (si_delayed_queue (sq_inner q)) = mset ds + mset rest"
    using flush_moves_due_tasks [of "sq_inner q" now] assms(1) unfolding sequence_wf_def by blast
  have "set rest \<subseteq> set (si_delayed_queue (sq_inner q))"
    using f(2) by (metis set_mset_mset set_mset_union sup_ge2)
  moreover have "si_delayed_queue (sq_inner q') = rest"
    using assms(2) f(1) by (auto simp: take_task_def Let_def split: list.splits)
  ultimately show ?thesis using assms(3,4) unfolding seq_covered_def by blast
qed

lemma seq_covered_custody:
  "seq_covered now C Ops T sid q \<Longrightarrow> (sid \<in> C \<Longrightarrow> sid \<in> C') \<Longrightarrow> seq_covered now C' Ops T sid q"
  unfolding seq_covered_def by blast

lemma seq_covered_not_ready:
  assumes "sequence_wf q" and "\<not> did_process_check now q" and "seq_covered now C Ops T sid q"
  shows "seq_covered now C' Ops T sid q"
proof -
  have "si_immediate_queue (sq_inner q) = []" and "\<forall>d \<in> set (si_delayed_queue (sq_inner q)). \<not> due now d"
    using assms(1,2) peek_not_due [of "si_delayed_queue (sq_inner q)" _ now]
    by (auto simp: did_process_check_def inner_has_ready_def sequence_wf_def due_def split: option.splits)
  then show ?thesis using assms(3) by (auto simp: seq_covered_def due_def)
qed

text \<open>Steps of a worker that keep the tasks where they are.\<close>

lemma inv_cover_move:
  assumes "inv_cover s" and "w < length (pl_workers s)" and "pl_workers s' = (pl_workers s)[w := wk]"
    and "pl_calls s' = pl_calls s" and "pl_timer s' = pl_timer s"
    and "pl_now s' = pl_now s" and "pl_timers s' = pl_timers s"
    and "\<And>sid. sid < length (pl_seqs s) \<Longrightarrow> sq_inner (pl_seqs s' ! sid) = sq_inner (pl_seqs s ! sid)"
    and "length (pl_seqs s') = length (pl_seqs s)"
    and "pq_sources (pl_queue s) \<subseteq> custody s'"
    and "set (pc_ops (wk_pc (pl_workers s ! w))) \<subseteq> set (pc_ops (wk_pc wk))"
    and "pc_sids (wk_pc (pl_workers s ! w)) \<subseteq> custody s'"
  shows "inv_cover s'"
proof -
  have sub: "custody s \<subseteq> custody s'"
    using worker_move(1) [OF assms(2-5,10) _ _ assms(12), of "UserEnd undefined"] assms(11) by auto
  have "(\<Union>wk \<in> set (pl_workers s). set (pc_ops (wk_pc wk))) \<subseteq>
        (\<Union>wk \<in> set (pl_workers s'). set (pc_ops (wk_pc wk)))"
    using UN_update [OF assms(2), of "\<lambda>wk. set (pc_ops (wk_pc wk))" wk] assms(3,11) by auto
  then have "pending_ops s \<subseteq> pending_ops s'" using assms(4) by (auto simp: pending_ops_def)
  from covered_mono [OF assms(1) [unfolded inv_cover_def] sub this order_refl order_refl]
  show ?thesis
    using assms(6-9) by (simp add: inv_cover_def covered_def seq_covered_def)
qed

lemma inv_cover_claim:
  assumes "inv_cover s" and "inv_own s" and w: "w < length (pl_workers s)"
    and pc: "wk_pc (pl_workers s ! w) = WGot sid" and sid: "sid < length (pl_seqs s)"
  shows "inv_cover (worker_claim w sid s)"
proof (cases "sq_has_worker (pl_seqs s ! sid)")
  case True
  let ?s = "worker_claim w sid s"
  have s': "?s = upd_worker w (leave_source WIdle (pl_workers s ! w))
      (upd_seq sid ((pl_seqs s ! sid)\<lparr>sq_has_worker := True\<rparr>) s)"
    using True by (simp add: worker_claim_def will_run_task_def)
  obtain v where v: "v < length (pl_workers s)" "owned (wk_pc (pl_workers s ! v)) = Some sid"
    using own_ok_owner [OF assms(2) [unfolded inv_own_def], of sid] sid True by auto
  then have "v \<noteq> w" using pc by auto
  then have "pl_workers s ! v \<in> set (pl_workers ?s)"
    using v(1) by (simp add: s' state_defs) (metis length_list_update nth_list_update_neq nth_mem)
  moreover have "sid \<in> pc_sids (wk_pc (pl_workers s ! v))"
    using v(2) by (cases "wk_pc (pl_workers s ! v)") auto
  ultimately have "sid \<in> custody ?s" by (rule custodyI(3))
  then show ?thesis
    using pc sid
    by (intro inv_cover_move [OF assms(1) w, where wk = "leave_source WIdle (pl_workers s ! w)"])
       (auto simp: s' state_defs nth_list_update custody_def)
next
  case False
  let ?s = "worker_claim w sid s" and ?wk = "(pl_workers s ! w)\<lparr>wk_pc := WClaimed sid\<rparr>"
  have s': "?s = upd_worker w ?wk (upd_seq sid ((pl_seqs s ! sid)\<lparr>sq_has_worker := True\<rparr>) s)"
    using False by (simp add: worker_claim_def will_run_task_def goto_def upd_seq_def)
  have "sid \<in> custody ?s"
    by (rule custody_updated_worker [OF w, where wk = ?wk]) (simp_all add: s' state_defs)
  then show ?thesis
    using pc sid by (intro inv_cover_move [OF assms(1) w, where wk = ?wk])
       (auto simp: s' state_defs nth_list_update custody_def)
qed

lemma inv_cover_take:
  assumes "inv_cover s" and "inv_wf s" and w: "w < length (pl_workers s)"
    and pc: "wk_pc (pl_workers s ! w) = WClaimed sid" and sid: "sid < length (pl_seqs s)"
  shows "inv_cover (worker_take w sid s)"
proof -
  obtain r q where t: "take_task (pl_now s) (pl_seqs s ! sid) = (r, q)" by fastforce
  let ?s = "worker_take w sid s"
  obtain wk where wk: "pl_workers ?s = (pl_workers s)[w := wk]" "sid \<in> pc_sids (wk_pc wk)"
    using t by (cases r) (auto simp: worker_take_def Let_def state_defs)
  have fr: "pl_calls ?s = pl_calls s" "pl_timer ?s = pl_timer s" "pl_queue ?s = pl_queue s"
    "pl_now ?s = pl_now s" "pl_timers ?s = pl_timers s" "pl_seqs ?s = (pl_seqs s)[sid := q]"
    using t by (cases r; simp add: worker_take_def Let_def state_defs)+
  have inC: "sid \<in> custody ?s" by (rule custody_updated_worker [OF w wk])
  have q: "pq_sources (pl_queue s) \<subseteq> custody ?s" using fr by (auto simp: custody_def)
  have c: "custody s \<subseteq> custody ?s" "pending_ops s \<subseteq> pending_ops ?s"
    using worker_move [OF w wk(1) fr(1,2) q, of "UserEnd undefined"] pc inC
    using fr(1) UN_update [OF w, of "\<lambda>wk. set (pc_ops (wk_pc wk))" wk] wk(1)
    by (auto simp: pending_ops_def)
  have "seq_covered (pl_now s) (custody ?s) (pending_ops ?s) (set (pl_timers s)) sid (pl_seqs s ! sid)"
    using assms(1) sid c seq_covered_mono unfolding inv_cover_def covered_def by blast
  then have "seq_covered (pl_now s) (custody ?s) (pending_ops ?s) (set (pl_timers s)) sid q"
    using seq_covered_take [OF _ t _ inC] data_ok_seq [OF inv_wf_data [OF assms(2)] sid]
    by (auto simp: seq_ok_def)
  then show ?thesis
    using covered_update [OF assms(1) [unfolded inv_cover_def] c order_refl] fr by (simp add: inv_cover_def)
qed


lemma inv_cover_store:
  assumes "inv_cover s" and w: "w < length (pl_workers s)"
    and pc: "wk_pc (pl_workers s ! w) = WDone sid" and sid: "sid < length (pl_seqs s)"
  shows "inv_cover (worker_store w sid s)"
proof -
  let ?s = "worker_store w sid s" and ?wk = "(pl_workers s ! w)\<lparr>wk_pc := WCleared sid\<rparr>"
  have "sid \<in> custody ?s"
    by (rule custody_updated_worker [OF w, where wk = ?wk]) (simp_all add: worker_store_def state_defs)
  then show ?thesis
    using pc sid by (intro inv_cover_move [OF assms(1) w, where wk = ?wk])
       (auto simp: worker_store_def did_process_store_def state_defs nth_list_update custody_def)
qed

lemma inv_cover_check:
  assumes "inv_cover s" and "inv_wf s" and w: "w < length (pl_workers s)"
    and pc: "wk_pc (pl_workers s ! w) = WCleared sid" and sid: "sid < length (pl_seqs s)"
  shows "inv_cover (worker_check w sid s)"
proof (cases "did_process_check (pl_now s) (pl_seqs s ! sid)")
  case True
  let ?wk = "(pl_workers s ! w)\<lparr>wk_pc := WRequeue sid\<rparr>"
  have s': "worker_check w sid s = upd_worker w ?wk s" using True by (simp add: worker_check_def goto_def)
  have "sid \<in> custody (upd_worker w ?wk s)"
    by (rule custody_updated_worker [OF w, where wk = ?wk]) (simp_all add: state_defs)
  then show ?thesis
    using pc unfolding s' by (intro inv_cover_move [OF assms(1) w, where wk = ?wk])
       (auto simp: state_defs custody_def)
next
  case False
  let ?wk = "leave_source WIdle (pl_workers s ! w)"
  let ?s = "upd_worker w ?wk s"
  have s': "worker_check w sid s = ?s" using False by (simp add: worker_check_def)
  have p: "pending_ops s \<subseteq> pending_ops ?s"
    using UN_update [OF w, of "\<lambda>wk. set (pc_ops (wk_pc wk))" ?wk] pc
    by (auto simp: pending_ops_def state_defs)
  have c: "custody s - {sid} \<subseteq> custody ?s"
    using p UN_update(1) [OF w, of "\<lambda>wk. pc_sids (wk_pc wk)" ?wk] pc
    by (auto simp: custody_def state_defs)
  have wf: "sequence_wf (pl_seqs s ! sid)"
    using data_ok_seq [OF inv_wf_data [OF assms(2)] sid] by (simp add: seq_ok_def)
  have "seq_covered (pl_now s) (custody ?s) (pending_ops ?s) (set (pl_timers s)) x (pl_seqs s ! x)"
    if "x < length (pl_seqs s)" for x
  proof -
    have "seq_covered (pl_now s) (custody s) (pending_ops ?s) (set (pl_timers s)) x (pl_seqs s ! x)"
      using assms(1) that p seq_covered_mono unfolding inv_cover_def covered_def by blast
    moreover have "x \<noteq> sid \<Longrightarrow> x \<in> custody s \<Longrightarrow> x \<in> custody ?s" using c by blast
    ultimately show ?thesis
      using seq_covered_not_ready [OF wf False] seq_covered_custody by (cases "x = sid") blast+
  qed
  then show ?thesis unfolding s' inv_cover_def covered_def by (simp add: state_defs)
qed

lemma inv_cover_requeue:
  assumes "inv_cover s" and w: "w < length (pl_workers s)" and pc: "wk_pc (pl_workers s ! w) = WRequeue sid"
  shows "inv_cover (worker_requeue w sid s)"
proof -
  have "insert sid (pq_sources (pl_queue s)) \<subseteq> custody (worker_requeue w sid s)"
    by (simp add: worker_requeue_def push_task_source_def state_defs custody_def) blast
  then show ?thesis
    using pc
    by (intro inv_cover_move [OF assms(1) w, where wk = "leave_source WIdle (pl_workers s ! w)"])
       (auto simp: worker_requeue_def push_task_source_def state_defs)
qed

lemma inv_cover_get_work:
  assumes "inv_cover s" and w: "w < length (pl_workers s)" and pc: "wk_pc (pl_workers s ! w) = WIdle"
  shows "inv_cover (get_work w up s)"
proof (cases "pl_tg_shutdown s \<or> pq_pop (pl_queue s) = None")
  case True
  then have "get_work w up s = goto w (if pl_tg_shutdown s then WExited else WWaiting) s"
    by (auto simp: get_work_def)
  moreover define pc' :: "'a worker_pc" where "pc' = (if pl_tg_shutdown s then WExited else WWaiting)"
  ultimately have "get_work w up s = goto w pc' s" "pc_sids pc' = {}" by auto
  then show ?thesis
    using pc by (intro inv_cover_move [OF assms(1) w, where wk = "(pl_workers s ! w)\<lparr>wk_pc := pc'\<rparr>"])
       (auto simp: state_defs custody_def)
next
  case False
  then obtain sid h where p: "pq_pop (pl_queue s) = Some (sid, h)" by auto
  let ?wk = "enter_source up sid s (pl_workers s ! w)"
  have s': "get_work w up s = upd_worker w ?wk (s\<lparr>pl_queue := h\<rparr>)" using False p by (simp add: get_work_def)
  have "sid \<in> custody (get_work w up s)"
    by (rule custody_updated_worker [OF w, where wk = ?wk]) (simp_all add: s' state_defs)
  then have "pq_sources (pl_queue s) \<subseteq> custody (get_work w up s)"
    using pq_pop_facts(1) [OF p] by (auto simp: s' state_defs intro: custodyI(1))
  then show ?thesis
    using pc by (intro inv_cover_move [OF assms(1) w, where wk = ?wk]) (auto simp: s' state_defs)
qed

lemma inv_cover_worker_step:
  assumes "inv_cover s" and "inv_own s" and "inv_wf s" and "worker_step w up s = Some s'"
  shows "inv_cover s'"
proof -
  have w: "w < length (pl_workers s)" using assms(4) by (auto simp: worker_step_def split: if_splits)
  note ok = worker_pc_ok [OF assms(3) w]
  show ?thesis
  proof (cases "wk_pc (pl_workers s ! w)")
    case (WRunning sid ops)
    show ?thesis
    proof (cases ops)
      case Nil
      let ?wk = "(pl_workers s ! w)\<lparr>wk_pc := WDone sid, wk_slot := task_finished\<rparr>"
      have s': "s' = upd_worker w ?wk s"
        using assms(4) w WRunning Nil by (simp add: worker_step_def worker_run_def)
      have "sid \<in> custody s'"
        by (rule custody_updated_worker [OF w, where wk = ?wk]) (simp_all add: s' state_defs)
      then show ?thesis
        using WRunning Nil by (intro inv_cover_move [OF assms(1) w, where wk = ?wk])
           (auto simp: s' state_defs custody_def)
    next
      case (Cons op rest)
      then show ?thesis
        using assms(4) w WRunning inv_cover_worker_run [OF assms(1) w]
        by (auto simp: worker_step_def worker_run_def split: option.splits)
    qed
  next
    case WIdle
    then show ?thesis using assms(4) w inv_cover_get_work [OF assms(1) w] by (auto simp: worker_step_def)
  next
    case (WGot sid)
    then show ?thesis
      using assms(4) w ok inv_cover_claim [OF assms(1,2) w] by (auto simp: worker_step_def)
  next
    case (WClaimed sid)
    then show ?thesis
      using assms(4) w ok inv_cover_take [OF assms(1,3) w] by (auto simp: worker_step_def)
  next
    case (WDone sid)
    then show ?thesis
      using assms(4) w ok inv_cover_store [OF assms(1) w] by (auto simp: worker_step_def)
  next
    case (WCleared sid)
    then show ?thesis
      using assms(4) w ok inv_cover_check [OF assms(1,3) w] by (auto simp: worker_step_def)
  next
    case (WRequeue sid)
    then show ?thesis
      using assms(4) w inv_cover_requeue [OF assms(1) w] by (auto simp: worker_step_def)
  qed (use assms(4) w in \<open>auto simp: worker_step_def\<close>)
qed


lemma timer_stepE:
  assumes "timer_step s = Some s'"
  obtains
    (exit) "pl_timer s = TLoop" "pl_dtm_shutdown s" "s' = s\<lparr>pl_timer := TExited\<rparr>"
  | (idle) "pl_timer s = TLoop" "\<not> pl_dtm_shutdown s" "pl_timers s = []"
      "s' = s\<lparr>pl_timer := TWaiting None\<rparr>"
  | (fire) e h where "pl_timer s = TLoop" "\<not> pl_dtm_shutdown s" "de_ready_time e \<le> pl_now s"
      "heap_pop reverse_entry_le (pl_timers s) = Some (e, h)"
      "s' = s\<lparr>pl_timers := h, pl_timer := THolding (de_sequence e)\<rparr>"
  | (sleep) e where "pl_timer s = TLoop" "\<not> pl_dtm_shutdown s" "heap_peek (pl_timers s) = Some e"
      "pl_now s < de_ready_time e" "s' = s\<lparr>pl_timer := TWaiting (Some (de_ready_time e))\<rparr>"
  | (push) sid where "pl_timer s = THolding sid" "s' = (push_task_source sid s)\<lparr>pl_timer := TLoop\<rparr>"
  | (timeout) t where "pl_timer s = TWaiting (Some t)" "t \<le> pl_now s" "s' = s\<lparr>pl_timer := TLoop\<rparr>"
proof (cases "pl_timer s")
  case TLoop
  then have s': "s' = timer_round s" using assms by (simp add: timer_step_def)
  show thesis
  proof (cases "heap_peek (pl_timers s)")
    case None
    then show thesis using that(1,2) TLoop s' by (cases "pl_dtm_shutdown s") (auto simp: timer_round_def)
  next
    case (Some e)
    then obtain e' h where p: "heap_pop reverse_entry_le (pl_timers s) = Some (e', h)"
      by (cases "heap_pop reverse_entry_le (pl_timers s)") auto
    then have "e' = e" using timer_heap.pop_peek [OF p] Some by simp
    moreover consider "pl_dtm_shutdown s" | "\<not> pl_dtm_shutdown s" "de_ready_time e \<le> pl_now s"
      | "\<not> pl_dtm_shutdown s" "pl_now s < de_ready_time e" by linarith
    then show thesis
    proof cases
      case 1
      show thesis using s' 1 by (intro that(1) [OF TLoop]) (simp_all add: timer_round_def)
    next
      case 2
      show thesis
        using s' 2 Some p \<open>e' = e\<close> by (intro that(3) [OF TLoop 2 , of h]) (simp_all add: timer_round_def)
    next
      case 3
      show thesis
        using s' 3 Some by (intro that(4) [OF TLoop 3(1) Some 3(2)]) (simp_all add: timer_round_def)
    qed
  qed
next
  case (THolding sid)
  then show thesis using assms by (intro that(5)) (auto simp: timer_step_def)
next
  case (TWaiting until)
  then obtain t where "until = Some t" using assms by (cases until) (simp_all add: timer_step_def)
  then show thesis
    using TWaiting assms by (intro that(6) [of t]) (auto simp: timer_step_def split: if_splits)
next
  case TExited
  then show thesis using assms by (simp add: timer_step_def)
qed

lemma inv_cover_timer_step:
  assumes "inv_cover s" and "timer_step s = Some s'"
  shows "inv_cover s'"
  using assms(2)
proof (cases rule: timer_stepE)
  case (fire e h)
  have T: "set (pl_timers s) = insert e (set h)" using dtm_pop_facts(1) [OF fire(4)] .
  have p: "pending_ops s' = pending_ops s" by (simp add: fire(5) pending_ops_def)
  have c: "custody s \<subseteq> custody s'" "de_sequence e \<in> custody s'"
    by (auto simp: custody_def p) (simp_all add: fire(1,5))
  have "seq_covered (pl_now s) (custody s') (pending_ops s) (set h) x (pl_seqs s ! x)"
    if "x < length (pl_seqs s)" for x
  proof -
    have "seq_covered (pl_now s) (custody s') (pending_ops s) (insert e (set h)) x (pl_seqs s ! x)"
      using assms(1) that c(1) seq_covered_mono T unfolding inv_cover_def covered_def by blast
    then show ?thesis using fire(3) c(2) unfolding seq_covered_def by (metis insertE)
  qed
  then show ?thesis unfolding inv_cover_def covered_def p by (simp add: fire(5))
next
  case (push sid)
  have "pending_ops s' = pending_ops s" by (simp add: push pending_ops_def push_task_source_def)
  then show ?thesis
    by (intro inv_cover_mono [OF assms(1)]) (auto simp: push push_task_source_def custody_def)
qed (use assms(1) in \<open>simp_all add: inv_cover_def custody_def pending_ops_def\<close>)

lemma waiting_holds [simp]: "timer_is_waiting pc \<Longrightarrow> timer_holds pc = {}"
  by (cases pc) auto

lemma inv_cover_woken:
  assumes "inv_cover s" and "w < length (pl_workers s)" and "is_waiting (pl_workers s ! w)"
  shows "inv_cover (goto w WIdle s)"
  using assms(3)
  by (intro inv_cover_move [OF assms(1,2), where wk = "(pl_workers s ! w)\<lparr>wk_pc := WIdle\<rparr>"])
     (auto simp: state_defs is_waiting_def custody_def)

lemma inv_cover_panic:
  assumes "inv_cover s" and w: "w < length (pl_workers s)"
    and pc: "wk_pc (pl_workers s ! w) = WRunning sid (UserEnd u # rest)"
    and s': "s' = upd_worker w ((leave_source (WPanicked sid rest) (pl_workers s ! w))
               \<lparr>wk_slot := worker_slot_drop\<rparr>) s"
  shows "inv_cover s'"
proof -
  let ?wk = "(leave_source (WPanicked sid rest) (pl_workers s ! w))\<lparr>wk_slot := worker_slot_drop\<rparr>"
  have ws: "pl_workers s' = (pl_workers s)[w := ?wk]" by (simp add: s' state_defs)
  have "sid \<in> custody s'" by (rule custody_updated_worker [OF w ws]) simp
  moreover have "pq_sources (pl_queue s) \<subseteq> custody s'" by (auto simp: s' state_defs custody_def)
  ultimately have m: "custody s \<subseteq> custody s'" "pending_ops s \<subseteq> insert (UserEnd u) (pending_ops s')"
    using worker_move [OF w ws, of "UserEnd u"] pc by (simp_all add: s' state_defs)
  have e: "exec_op (UserEnd u) s = Some ([], s)" by simp
  show ?thesis using inv_cover_exec [OF assms(1) e _ _ _ m(2) _ m(1)] by (simp add: s' state_defs)
qed

lemma inv_cover_request:
  assumes "inv_cover s" and "do_request r s = Some s'"
  shows "inv_cover s'"
proof (cases "\<exists>traits. r = CreateSequencedTaskRunner traits")
  case True
  then obtain traits where r: "r = CreateSequencedTaskRunner traits" by blast
  let ?q = "set_task_runner (length (pl_seqs s)) (sequence_new (SequenceToken (pl_next_token s)) traits)"
  have s': "s' = s\<lparr>pl_next_token := pl_next_token s + 1, pl_seqs := pl_seqs s @ [?q]\<rparr>"
    using assms(2) r by (simp add: do_request_def create_sequenced_task_runner_def alloc_sequence_def
        create_token_def upd_seq_def)
  have "seq_covered (pl_now s) (custody s) (pending_ops s) (set (pl_timers s)) (length (pl_seqs s)) ?q"
    by (simp add: seq_covered_def set_task_runner_def sequence_new_def)
  from covered_append [OF assms(1) [unfolded inv_cover_def] order_refl order_refl order_refl this]
  show ?thesis by (simp add: inv_cover_def s' custody_def pending_ops_def)
next
  case False
  then have s': "s' = s\<lparr>pl_calls := pl_calls s @ [request_ops s r]\<rparr>"
    using assms(2) by (auto simp: do_request_def split: if_splits request.splits)
  then have "pending_ops s \<subseteq> pending_ops s'" by (auto simp: pending_ops_def)
  then show ?thesis by (intro inv_cover_mono [OF assms(1)]) (auto simp: s' custody_def)
qed

text \<open>What a step of \<open>shutdown\<close> leaves alone: it only wakes workers up and sets flags.\<close>

lemma shutdown_round_frame:
  assumes "shutdown_round pc s = Some (pc', t)"
  shows "pl_seqs t = pl_seqs s" "pl_now t = pl_now s" "pl_timers t = pl_timers s"
    "pl_calls t = pl_calls s" "pl_queue t = pl_queue s" "pl_timer t = pl_timer s"
    "pl_tg_notify t = pl_tg_notify s" "pl_shutdowns t = pl_shutdowns s" "pl_log t = pl_log s"
    "pl_workers t = pl_workers s \<or>
     pl_workers t = map (\<lambda>wk. if is_waiting wk then wk\<lparr>wk_pc := WIdle\<rparr> else wk) (pl_workers s)"
  using assms
  by (cases "(pc, s)" rule: shutdown_round.cases; auto simp: shutdown_begin_def split: if_splits)+

lemma shutdown_round_pcs:
  assumes "shutdown_round pc s = Some (pc', t)" and "f WIdle = f WWaiting"
  shows "map (\<lambda>wk. f (wk_pc wk)) (pl_workers t) = map (\<lambda>wk. f (wk_pc wk)) (pl_workers s)"
  using shutdown_round_frame(10) [OF assms(1)] assms(2) by (auto simp: is_waiting_def)

lemma inv_cover_step:
  assumes "inv_cover s" and "inv_own s" and "inv_wf s" and "pool_step l s = Some s'"
  shows "inv_cover s'"
proof (cases l)
  case (WorkerStep w up)
  then show ?thesis using assms(4) inv_cover_worker_step [OF assms(1-3)] by simp
next
  case (CallStep i)
  then show ?thesis using assms(4) inv_cover_call_step [OF assms(1)] by simp
next
  case (Request r)
  then show ?thesis using assms(4) inv_cover_request [OF assms(1)] by simp
next
  case TimerStep
  then show ?thesis using assms(4) inv_cover_timer_step [OF assms(1)] by simp
next
  case (WorkerPanic w)
  then show ?thesis
    using assms(4) inv_cover_panic [OF assms(1)]
    by (auto simp: panic_step_def worker_panic_def split: if_splits worker_pc.splits list.splits op.splits)
next
  case (GroupNotify target)
  have n: "inv_cover (s\<lparr>pl_tg_notify := n\<rparr>)" for n
    by (rule inv_cover_mono [OF assms(1)]) (auto simp: custody_def pending_ops_def)
  show ?thesis
    using assms(4) GroupNotify n inv_cover_woken [OF n]
    by (auto simp: tg_notify_one_def split: if_splits option.splits)
next
  case (GroupSpurious w)
  then show ?thesis
    using assms(4) inv_cover_woken [OF assms(1)] by (auto simp: spurious_wake_def split: if_splits)
next
  case (ShutdownStep i)
  then obtain pc t where r: "shutdown_round (pl_shutdowns s ! i) s = Some (pc, t)"
      and s': "s' = t\<lparr>pl_shutdowns := (pl_shutdowns t)[i := pc]\<rparr>"
    using assms(4) by (auto simp: shutdown_step_def split: if_splits option.splits)
  have "pending_ops t = pending_ops s"
    using arg_cong [OF shutdown_round_pcs [OF r, of "\<lambda>pc. set (pc_ops pc)"], of set]
    by (simp add: pending_ops_def shutdown_round_frame [OF r])
  moreover from this have "custody t = custody s"
    using arg_cong [OF shutdown_round_pcs [OF r, of pc_sids], of set]
    by (simp add: custody_def shutdown_round_frame [OF r])
  ultimately show ?thesis
    using assms(1) by (simp add: s' inv_cover_def custody_def pending_ops_def shutdown_round_frame [OF r])
next
  case (Attach dflt)
  then have "\<exists>wk. s' = s\<lparr>pl_workers := pl_workers s @ [wk]\<rparr>"
    using assms(4) by (auto simp: attach_current_thread_def split: if_splits)
  then show ?thesis
    by (elim exE, intro inv_cover_mono [OF assms(1)]) (auto simp: custody_def pending_ops_def)
qed (use assms(4) in \<open>auto simp: dtm_notify_one_def timer_spurious_def custody_def pending_ops_def
       split: if_splits intro!: inv_cover_mono [OF assms(1)]\<close>)

interpretation pool_cover: inductive_invariant pool_init pool_step
    "\<lambda>s. (inv_wf s \<and> inv_own s) \<and> inv_cover s"
proof
  show "(inv_wf s \<and> inv_own s) \<and> inv_cover s" if "pool_init s" for s :: "'u pool"
    using that pool_own.inv_init [OF that]
    by (auto simp: pool_init_def pool_new_def inv_cover_def covered_def)
  show "(inv_wf t \<and> inv_own t) \<and> inv_cover t"
    if "(inv_wf s \<and> inv_own s) \<and> inv_cover s" "pool_step l s = Some t" for s t :: "'u pool" and l
    using that pool_own.inv_step [of s l t] inv_cover_step [of s l t] by blast
qed


section \<open>Condition variables\<close>

definition is_idle :: "'u worker \<Rightarrow> bool" where
  "is_idle wk \<longleftrightarrow> wk_pc wk = WIdle"

definition idle_count :: "'u worker list \<Rightarrow> nat" where
  "idle_count ws = sum_list (map (\<lambda>wk. if is_idle wk then 1 else 0) ws)"

definition wake_ok :: "'u pool \<Rightarrow> bool" where
  "wake_ok s \<longleftrightarrow>
     (\<not> pl_tg_shutdown s \<longrightarrow> (\<exists>wk \<in> set (pl_workers s). is_waiting wk) \<longrightarrow>
        length (pl_queue s) \<le> pl_tg_notify s + idle_count (pl_workers s))"

definition exit_ok :: "'u pool \<Rightarrow> bool" where
  "exit_ok s \<longleftrightarrow>
     (\<forall>wk \<in> set (pl_workers s). wk_pc wk = WExited \<longrightarrow> pl_tg_shutdown s) \<and>
     (pl_tg_shutdown s \<longrightarrow> (\<exists>wk \<in> set (pl_workers s). is_waiting wk) \<longrightarrow> SNotifyAll \<in> set (pl_shutdowns s)) \<and>
     (pl_timer s = TExited \<longrightarrow> pl_dtm_shutdown s)"

definition sleep_ok :: "'u pool \<Rightarrow> bool" where
  "sleep_ok s \<longleftrightarrow>
     (\<forall>until. pl_timer s = TWaiting until \<longrightarrow> pl_dtm_notify s = 0 \<longrightarrow>
        \<not> pl_dtm_shutdown s \<and>
        (\<forall>e \<in> set (pl_timers s). \<exists>t. until = Some t \<and> t \<le> de_ready_time e))"

lemma idle_count_update:
  assumes "w < length ws"
  shows "idle_count (ws[w := wk]) + (if is_idle (ws ! w) then 1 else 0) =
         idle_count ws + (if is_idle wk then 1 else 0)"
  unfolding idle_count_def
  using sum_list_update_nat [OF assms, of "\<lambda>wk. if is_idle wk then 1 else 0" wk] by simp

lemma idle_count_append [simp]: "idle_count (ws @ [wk]) = idle_count ws + (if is_idle wk then 1 else 0)"
  by (simp add: idle_count_def)

text \<open>
  A worker that is neither waiting before nor after the step, and not idle afterwards only if it
  was not idle before.
\<close>

lemma wake_ok_busy:
  assumes "wake_ok s" and "pl_tg_shutdown s' = pl_tg_shutdown s" and "w < length (pl_workers s)"
    and "pl_workers s' = (pl_workers s)[w := wk]"
    and "\<not> is_waiting wk" and "\<not> is_idle (pl_workers s ! w)"
    and "length (pl_queue s') + pl_tg_notify s \<le> length (pl_queue s) + pl_tg_notify s'"
  shows "wake_ok s'"
proof -
  have "\<exists>wk \<in> set (pl_workers s). is_waiting wk" if "\<exists>wk \<in> set (pl_workers s'). is_waiting wk"
    using that assms(4,5) by (auto dest!: set_updateD)
  then show ?thesis
    using assms idle_count_update [OF assms(3), of wk] by (fastforce simp: wake_ok_def)
qed

lemma wake_ok_exec:
  assumes "wake_ok s" and "exec_op op s = Some (new, t)"
  shows "length (pl_queue t) + pl_tg_notify s = length (pl_queue s) + pl_tg_notify t"
  using assms(2)
  by (cases "(op, s)" rule: exec_op.cases)
     (auto simp: post_defs state_defs pq_push_def pq_heap.length_push Let_def
       split: option.splits if_splits prod.splits)


lemma wake_ok_same:
  assumes "wake_ok s" and "pl_tg_shutdown s' = pl_tg_shutdown s" and "pl_workers s' = pl_workers s"
    and "length (pl_queue s') + pl_tg_notify s \<le> length (pl_queue s) + pl_tg_notify s'"
  shows "wake_ok s'"
  using assms by (fastforce simp: wake_ok_def)

lemma push_task_source_wake:
  "length (pl_queue (push_task_source sid s)) + pl_tg_notify s =
   length (pl_queue s) + pl_tg_notify (push_task_source sid s)"
  by (simp add: push_task_source_def pq_push_def)

lemma wake_ok_get_work:
  assumes "wake_ok s" and w: "w < length (pl_workers s)" and pc: "wk_pc (pl_workers s ! w) = WIdle"
  shows "wake_ok (get_work w up s)"
proof (cases "pl_tg_shutdown s")
  case True
  then show ?thesis by (simp add: get_work_def wake_ok_def state_defs)
next
  case False
  show ?thesis
  proof (cases "pq_pop (pl_queue s)")
    case None
    then have "length (pl_queue s) = 0" by (simp add: pq_pop_def)
    then show ?thesis using False None by (simp add: get_work_def wake_ok_def state_defs)
  next
    case (Some p)
    obtain sid h where p: "p = (sid, h)" by fastforce
    let ?wk = "enter_source up sid s (pl_workers s ! w)"
    have "length (pl_queue s) = Suc (length h)"
      using Some p pq_heap.length_pop [of "pl_queue s"] by (auto simp: pq_pop_def)
    moreover have "Suc (idle_count ((pl_workers s)[w := ?wk])) = idle_count (pl_workers s)"
      using idle_count_update [OF w, of ?wk] pc by (simp add: is_idle_def)
    moreover have "\<exists>wk \<in> set (pl_workers s). is_waiting wk"
      if "\<exists>wk \<in> set ((pl_workers s)[w := ?wk]). is_waiting wk"
      using that by (auto dest!: set_updateD simp: is_waiting_def)
    ultimately show ?thesis
      using assms(1) False Some p by (auto simp: get_work_def wake_ok_def state_defs)
  qed
qed

lemma wake_ok_worker_step:
  assumes "wake_ok s" and "worker_step w up s = Some s'"
  shows "wake_ok s'"
proof -
  have w: "w < length (pl_workers s)" using assms(2) by (auto simp: worker_step_def split: if_splits)
  note busy = wake_ok_busy [OF assms(1) _ w]
  show ?thesis
  proof (cases "wk_pc (pl_workers s ! w)")
    case WIdle
    then show ?thesis using assms w wake_ok_get_work by (auto simp: worker_step_def)
  next
    case (WRunning sid ops)
    then show ?thesis
    proof (cases ops)
      case Nil
      then show ?thesis
        using assms(2) w WRunning
        by (auto simp: worker_step_def worker_run_def state_defs is_waiting_def is_idle_def intro!: busy)
    next
      case (Cons op rest)
      then obtain new t where e: "exec_op op s = Some (new, t)"
          and s': "s' = emit (op_events sid op) (goto w (WRunning sid (new @ rest)) t)"
        using assms(2) w WRunning by (auto simp: worker_step_def worker_run_def split: option.splits)
      show ?thesis
        using wake_ok_exec [OF assms(1) e] WRunning exec_op_frame [OF e]
        by (intro busy) (auto simp: s' state_defs is_waiting_def is_idle_def)
    qed
  next
    case (WRequeue sid)
    then show ?thesis
      using assms(2) w push_task_source_wake [of sid s]
      by (auto simp: worker_step_def worker_requeue_def state_defs push_task_source_def
          is_waiting_def is_idle_def intro!: busy)
  next
    case (WGot sid)
    then show ?thesis
      using assms(2) w
      by (auto simp: worker_step_def worker_claim_def will_run_task_def state_defs
          is_waiting_def is_idle_def intro!: busy split: if_splits)
  next
    case (WClaimed sid)
    obtain r q where "take_task (pl_now s) (pl_seqs s ! sid) = (r, q)" by fastforce
    then show ?thesis
      using assms(2) w WClaimed
      by (cases r) (auto simp: worker_step_def worker_take_def Let_def state_defs
          is_waiting_def is_idle_def intro!: busy)
  qed (use assms(2) w in \<open>auto simp: worker_step_def worker_store_def worker_check_def state_defs
         is_waiting_def is_idle_def intro!: busy split: if_splits\<close>)
qed

lemma wake_ok_woken:
  assumes "\<not> pl_tg_shutdown s \<Longrightarrow> length (pl_queue s) \<le> Suc (pl_tg_notify s) + idle_count (pl_workers s)"
    and w: "w < length (pl_workers s)" and "is_waiting (pl_workers s ! w)"
  shows "wake_ok (goto w WIdle s)"
proof -
  have "idle_count ((pl_workers s)[w := (pl_workers s ! w)\<lparr>wk_pc := WIdle\<rparr>]) = Suc (idle_count (pl_workers s))"
    using idle_count_update [OF w, of "(pl_workers s ! w)\<lparr>wk_pc := WIdle\<rparr>"] assms(3)
    by (simp add: is_idle_def is_waiting_def)
  then show ?thesis using assms(1) by (simp add: wake_ok_def state_defs)
qed

lemma wake_okD:
  assumes "wake_ok s" and "w < length (pl_workers s)" and "is_waiting (pl_workers s ! w)"
  shows "\<not> pl_tg_shutdown s \<Longrightarrow> length (pl_queue s) \<le> pl_tg_notify s + idle_count (pl_workers s)"
  using assms nth_mem [OF assms(2)] unfolding wake_ok_def by blast

lemma wake_ok_step:
  assumes "wake_ok s" and "pool_step l s = Some s'"
  shows "wake_ok s'"
proof (cases l)
  case (WorkerStep w up)
  then show ?thesis using assms wake_ok_worker_step by simp
next
  case (CallStep i)
  then obtain op ops new t where e: "exec_op op s = Some (new, t)"
      and s': "s' = t\<lparr>pl_calls := (pl_calls t)[i := new @ ops]\<rparr>"
    using assms(2) by (auto simp: call_step_def split: if_splits list.splits option.splits)
  then show ?thesis
    using wake_ok_exec [OF assms(1) e] exec_op_frame [OF e]
    by (intro wake_ok_same [OF assms(1)]) auto
next
  case (WorkerPanic w)
  then show ?thesis
    using assms(2)
    by (auto simp: panic_step_def worker_panic_def state_defs is_waiting_def is_idle_def
        intro!: wake_ok_busy [OF assms(1), where w = w]
        split: if_splits worker_pc.splits list.splits op.splits)
next
  case (GroupNotify target)
  then have n: "0 < pl_tg_notify s" using assms(2) by (auto simp: tg_notify_one_def split: if_splits)
  show ?thesis
  proof (cases target)
    case None
    then show ?thesis
      using assms(2) GroupNotify
      by (auto simp: tg_notify_one_def wake_ok_def list_ex_iff split: if_splits)
  next
    case (Some w)
    then have w: "w < length (pl_workers s)" "is_waiting (pl_workers s ! w)"
        "s' = goto w WIdle (s\<lparr>pl_tg_notify := pl_tg_notify s - 1\<rparr>)"
      using assms(2) GroupNotify by (auto simp: tg_notify_one_def split: if_splits)
    show ?thesis
      unfolding w(3) using wake_okD [OF assms(1) w(1,2)] w n by (intro wake_ok_woken) auto
  qed
next
  case (GroupSpurious w)
  then have w: "w < length (pl_workers s)" "is_waiting (pl_workers s ! w)" "s' = goto w WIdle s"
    using assms(2) by (auto simp: spurious_wake_def split: if_splits)
  show ?thesis unfolding w(3) using wake_okD [OF assms(1) w(1,2)] w by (intro wake_ok_woken) auto
next
  case (Attach dflt)
  then show ?thesis
    using assms
    by (auto simp: attach_current_thread_def wake_ok_def worker_new_def is_waiting_def is_idle_def
        split: if_splits)
next
  case TimerStep
  then have "timer_step s = Some s'" using assms(2) by simp
  then show ?thesis
    by (cases rule: timer_stepE)
       (auto simp: push_task_source_def intro!: wake_ok_same [OF assms(1)])
next
  case (ShutdownStep i)
  then obtain pc t where r: "shutdown_round (pl_shutdowns s ! i) s = Some (pc, t)"
      and s': "s' = t\<lparr>pl_shutdowns := (pl_shutdowns t)[i := pc]\<rparr>"
    using assms(2) by (auto simp: shutdown_step_def split: if_splits option.splits)
  have "(\<exists>wk \<in> set (pl_workers t). is_waiting wk) \<Longrightarrow> pl_workers t = pl_workers s"
    using shutdown_round_frame(10) [OF r] by (auto simp: is_waiting_def split: if_splits)
  moreover have "\<not> pl_tg_shutdown t \<Longrightarrow> \<not> pl_tg_shutdown s"
    using r by (cases "(pl_shutdowns s ! i, s)" rule: shutdown_round.cases)
      (auto simp: shutdown_begin_def split: if_splits)
  ultimately show ?thesis
    using assms(1) unfolding s' wake_ok_def by (simp add: shutdown_round_frame [OF r]) metis
next
  case (Request r)
  then show ?thesis
    using assms(2)
    by (auto simp: do_request_def create_sequenced_task_runner_def alloc_sequence_def create_token_def
        upd_seq_def intro!: wake_ok_same [OF assms(1)] split: if_splits request.splits)
qed (use assms(2) in \<open>auto simp: dtm_notify_one_def timer_spurious_def split: if_splits
       intro!: wake_ok_same [OF assms(1)]\<close>)

interpretation pool_wake: inductive_invariant pool_init pool_step wake_ok
proof
  show "wake_ok s" if "pool_init s" for s :: "'u pool"
    using that by (auto simp: pool_init_def pool_new_def wake_ok_def pq_new_def)
qed (rule wake_ok_step)


lemma exit_ok_move:
  assumes "exit_ok s" and "pl_tg_shutdown s' = pl_tg_shutdown s" and "pl_dtm_shutdown s' = pl_dtm_shutdown s"
    and "pl_shutdowns s' = pl_shutdowns s" and "pl_timer s' = pl_timer s"
    and "pl_workers s' = (pl_workers s)[w := wk]"
    and "is_waiting wk \<Longrightarrow> \<not> pl_tg_shutdown s" and "wk_pc wk = WExited \<Longrightarrow> pl_tg_shutdown s"
  shows "exit_ok s'"
proof -
  have "wk' = wk \<or> wk' \<in> set (pl_workers s)" if "wk' \<in> set (pl_workers s')" for wk'
    using that assms(6) set_updateD by metis
  then show ?thesis using assms unfolding exit_ok_def by metis
qed

lemma exit_ok_worker_step:
  assumes "exit_ok s" and "worker_step w up s = Some s'"
  shows "exit_ok s'"
proof -
  have w: "w < length (pl_workers s)" using assms(2) by (auto simp: worker_step_def split: if_splits)
  note move = exit_ok_move [OF assms(1), where w = w]
  show ?thesis
  proof (cases "wk_pc (pl_workers s ! w)")
    case (WRunning sid ops)
    then show ?thesis
    proof (cases ops)
      case Nil
      then show ?thesis
        using assms(2) w WRunning
        by (auto simp: worker_step_def worker_run_def state_defs is_waiting_def intro!: move)
    next
      case (Cons op rest)
      then obtain new t where e: "exec_op op s = Some (new, t)"
          and s': "s' = emit (op_events sid op) (goto w (WRunning sid (new @ rest)) t)"
        using assms(2) w WRunning by (auto simp: worker_step_def worker_run_def split: option.splits)
      show ?thesis
        using exec_op_frame [OF e] by (intro move) (auto simp: s' state_defs is_waiting_def)
    qed
  next
    case (WClaimed sid)
    obtain r q where "take_task (pl_now s) (pl_seqs s ! sid) = (r, q)" by fastforce
    then show ?thesis
      using assms(2) w WClaimed
      by (cases r) (auto simp: worker_step_def worker_take_def Let_def state_defs is_waiting_def
          intro!: move)
  next
    case WIdle
    then show ?thesis
      using assms(2) w
      by (auto simp: worker_step_def get_work_def state_defs is_waiting_def intro!: move
          split: if_splits option.splits)
  qed (use assms(2) w in \<open>auto simp: worker_step_def worker_claim_def will_run_task_def worker_store_def
         worker_check_def worker_requeue_def push_task_source_def state_defs
         is_waiting_def intro!: move split: if_splits\<close>)
qed

lemma exit_ok_shutdown_step:
  assumes "exit_ok s" and "shutdown_step i s = Some s'"
  shows "exit_ok s'"
proof -
  obtain pc t where i: "i < length (pl_shutdowns s)"
      and r: "shutdown_round (pl_shutdowns s ! i) s = Some (pc, t)"
      and s': "s' = t\<lparr>pl_shutdowns := (pl_shutdowns t)[i := pc]\<rparr>"
    using assms(2) by (auto simp: shutdown_step_def split: if_splits option.splits)
  have old: "SNotifyAll \<in> set ((pl_shutdowns s)[i := pc])"
    if "SNotifyAll \<in> set (pl_shutdowns s)" "pl_shutdowns s ! i \<noteq> SNotifyAll"
    using that by (metis in_set_conv_nth length_list_update nth_list_update_neq)
  have new: "pc \<in> set ((pl_shutdowns s)[i := pc])" by (rule set_update_memI [OF i])
  show ?thesis
    using assms(1) r old new unfolding s' exit_ok_def
    by (cases "(pl_shutdowns s ! i, s)" rule: shutdown_round.cases)
       (auto simp: shutdown_begin_def is_waiting_def split: if_splits)
qed

lemma exit_ok_step:
  assumes "exit_ok s" and "pool_step l s = Some s'"
  shows "exit_ok s'"
proof (cases l)
  case (WorkerStep w up)
  then show ?thesis using assms exit_ok_worker_step by simp
next
  case (ShutdownStep i)
  then show ?thesis using assms exit_ok_shutdown_step by simp
next
  case (CallStep i)
  then obtain op ops new t where e: "exec_op op s = Some (new, t)"
      and s': "s' = t\<lparr>pl_calls := (pl_calls t)[i := new @ ops]\<rparr>"
    using assms(2) by (auto simp: call_step_def split: if_splits list.splits option.splits)
  then show ?thesis using assms(1) exec_op_frame [OF e] by (simp add: exit_ok_def)
next
  case (WorkerPanic w)
  then show ?thesis
    using assms(2)
    by (auto simp: panic_step_def worker_panic_def state_defs is_waiting_def
        intro!: exit_ok_move [OF assms(1), where w = w]
        split: if_splits worker_pc.splits list.splits op.splits)
next
  case (GroupNotify target)
  then show ?thesis
    using assms
    by (cases target)
       (auto simp: tg_notify_one_def state_defs is_waiting_def exit_ok_def split: if_splits dest!: set_updateD)
next
  case (GroupSpurious w)
  then show ?thesis
    using assms(2)
    by (auto simp: spurious_wake_def state_defs is_waiting_def
        intro!: exit_ok_move [OF assms(1), where w = w] split: if_splits)
next
  case TimerStep
  then have "timer_step s = Some s'" using assms(2) by simp
  then show ?thesis
    by (cases rule: timer_stepE) (use assms(1) in \<open>auto simp: exit_ok_def push_task_source_def\<close>)
next
  case (Request r)
  then show ?thesis
    using assms
    by (auto simp: do_request_def create_sequenced_task_runner_def alloc_sequence_def create_token_def
        upd_seq_def exit_ok_def split: if_splits request.splits)
qed (use assms in \<open>auto simp: dtm_notify_one_def timer_spurious_def exit_ok_def
       attach_current_thread_def worker_new_def is_waiting_def split: if_splits\<close>)

interpretation pool_exit: inductive_invariant pool_init pool_step exit_ok
proof
  show "exit_ok s" if "pool_init s" for s :: "'u pool"
    using that by (auto simp: pool_init_def pool_new_def exit_ok_def worker_new_def)
qed (rule exit_ok_step)


lemma sleep_ok_same:
  assumes "sleep_ok s" and "pl_timer s' = pl_timer s"
    and "pl_dtm_notify s' = pl_dtm_notify s \<and> pl_timers s' = pl_timers s \<and>
         pl_dtm_shutdown s' = pl_dtm_shutdown s \<or> 0 < pl_dtm_notify s'"
  shows "sleep_ok s'"
  using assms by (auto simp: sleep_ok_def)

lemma exec_op_timers:
  assumes "exec_op op s = Some (new, t)"
  shows "pl_dtm_notify t = pl_dtm_notify s \<and> pl_timers t = pl_timers s \<and>
         pl_dtm_shutdown t = pl_dtm_shutdown s \<or> 0 < pl_dtm_notify t"
  using assms
  by (cases "(op, s)" rule: exec_op.cases)
     (auto simp: post_defs state_defs Let_def split: option.splits if_splits prod.splits)

lemma worker_step_timers:
  assumes "worker_step w up s = Some s'"
  shows "pl_timer s' = pl_timer s"
    and "pl_dtm_notify s' = pl_dtm_notify s \<and> pl_timers s' = pl_timers s \<and>
         pl_dtm_shutdown s' = pl_dtm_shutdown s \<or> 0 < pl_dtm_notify s'"
proof -
  have "pl_timer s' = pl_timer s \<and> (pl_dtm_notify s' = pl_dtm_notify s \<and> pl_timers s' = pl_timers s \<and>
         pl_dtm_shutdown s' = pl_dtm_shutdown s \<or> 0 < pl_dtm_notify s')"
  proof (cases "\<exists>sid op rest. wk_pc (pl_workers s ! w) = WRunning sid (op # rest)")
    case True
    then show ?thesis
      using assms
      by (auto simp: worker_step_def worker_run_def state_defs exec_op_frame
          dest: exec_op_timers split: option.splits if_splits)
  next
    case False
    then show ?thesis
      using assms
      by (auto simp: worker_step_def worker_defs state_defs Let_def push_task_source_def
          split: worker_pc.splits option.splits if_splits run_status.splits prod.splits list.splits)
  qed
  then show "pl_timer s' = pl_timer s"
    and "pl_dtm_notify s' = pl_dtm_notify s \<and> pl_timers s' = pl_timers s \<and>
         pl_dtm_shutdown s' = pl_dtm_shutdown s \<or> 0 < pl_dtm_notify s'" by auto
qed

lemma sleep_ok_step:
  assumes "sleep_ok s" and "inv_wf s" and "pool_step l s = Some s'"
  shows "sleep_ok s'"
proof (cases l)
  case (WorkerStep w up)
  then have "worker_step w up s = Some s'" using assms(3) by simp
  from sleep_ok_same [OF assms(1) worker_step_timers [OF this]] show ?thesis .
next
  case (CallStep i)
  then obtain op ops new t where e: "exec_op op s = Some (new, t)"
      and s': "s' = t\<lparr>pl_calls := (pl_calls t)[i := new @ ops]\<rparr>"
    using assms(3) by (auto simp: call_step_def split: if_splits list.splits option.splits)
  then show ?thesis
    using exec_op_timers [OF e] exec_op_frame [OF e] by (intro sleep_ok_same [OF assms(1)]) auto
next
  case TimerStep
  then have "timer_step s = Some s'" using assms(3) by simp
  then show ?thesis
  proof (cases rule: timer_stepE)
    case (sleep e)
    have "dtm_wf (pl_timers s)" using assms(2) by (simp add: inv_wf_def data_ok_def)
    then have "de_ready_time e \<le> de_ready_time f" if "f \<in> set (pl_timers s)" for f
      using timer_heap.peek_max [OF _ sleep(3) that] by (auto simp: dtm_wf_def reverse_entry_le_def)
    then show ?thesis using sleep by (simp add: sleep_ok_def)
  qed (auto simp: sleep_ok_def push_task_source_def)
next
  case (ShutdownStep i)
  then obtain pc t where r: "shutdown_round (pl_shutdowns s ! i) s = Some (pc, t)"
      and s': "s' = t\<lparr>pl_shutdowns := (pl_shutdowns t)[i := pc]\<rparr>"
    using assms(3) by (auto simp: shutdown_step_def split: if_splits option.splits)
  then show ?thesis
    by (cases "(pl_shutdowns s ! i, s)" rule: shutdown_round.cases)
       (auto simp: shutdown_begin_def split: if_splits intro!: sleep_ok_same [OF assms(1)])
next
  case (WorkerPanic w)
  then show ?thesis
    using assms(3)
    by (auto simp: panic_step_def worker_panic_def state_defs intro!: sleep_ok_same [OF assms(1)]
        split: if_splits worker_pc.splits list.splits op.splits)
next
  case (Request r)
  then show ?thesis
    using assms(3)
    by (auto simp: do_request_def create_sequenced_task_runner_def alloc_sequence_def create_token_def
        upd_seq_def intro!: sleep_ok_same [OF assms(1)] split: if_splits request.splits)
next
  case TimerNotify
  then have "s' = s\<lparr>pl_dtm_notify := pl_dtm_notify s - 1,
                   pl_timer := (if timer_is_waiting (pl_timer s) then TLoop else pl_timer s)\<rparr>"
    using assms(3) by (auto simp: dtm_notify_one_def split: if_splits)
  then show ?thesis by (auto simp: sleep_ok_def split: if_splits)
qed (use assms in \<open>auto simp: timer_spurious_def spurious_wake_def tg_notify_one_def state_defs
       attach_current_thread_def sleep_ok_def split: if_splits option.splits\<close>)

interpretation pool_sleep: inductive_invariant pool_init pool_step "\<lambda>s. inv_wf s \<and> sleep_ok s"
proof
  show "inv_wf s \<and> sleep_ok s" if "pool_init s" for s :: "'u pool"
    using that pool_wf.inv_init [OF that] by (auto simp: pool_init_def pool_new_def sleep_ok_def)
  show "inv_wf t \<and> sleep_ok t" if "inv_wf s \<and> sleep_ok s" "pool_step l s = Some t"
    for s t :: "'u pool" and l
    using that inv_wf_step sleep_ok_step by blast
qed

end
