(* ===== verification/Pool_Shutdown.thy ===== *)
theory Pool_Shutdown
  imports Pool_Progress
begin

text \<open>
  Shutdown.  The tracker's counter equals the number of accepted \<open>BlockShutdown\<close> tasks that have
  not finished, wherever they are: in a call under way, in a sequence, or on a worker.  So the
  counter never underflows, and when \<open>shutdown\<close> gets past its wait every such task has finished.
  When \<open>shutdown\<close> has returned, the built-in workers and the timer thread have ended.
\<close>

section \<open>The counter counts the unfinished tasks\<close>

fun closure_weight :: "'u closure \<Rightarrow> nat" where
  "closure_weight (Plain b) = 0"
| "closure_weight (Tracked traits b) = blocks traits"

fun op_weight :: "'u op \<Rightarrow> nat" where
  "op_weight (RunClosure c) = closure_weight c"
| "op_weight (AfterRun traits) = blocks traits"
| "op_weight (PushTask sid c) = closure_weight c"
| "op_weight (PushDelayed sid c t) = closure_weight c"
| "op_weight (NewSequence traits c t) = closure_weight c"
| "op_weight _ = 0"

definition ops_weight :: "'u op list \<Rightarrow> nat" where
  "ops_weight ops = sum_list (map op_weight ops)"

definition seq_weight :: "'u sequence \<Rightarrow> nat" where
  "seq_weight q =
     sum_list (map (\<lambda>t. closure_weight (tk_callback t)) (si_immediate_queue (sq_inner q))) +
     sum_list (map (\<lambda>d. closure_weight (tk_callback (dt_task d))) (si_delayed_queue (sq_inner q)))"

definition queued_weight :: "'u sequence list \<Rightarrow> nat" where
  "queued_weight qs = sum_list (map seq_weight qs)"

definition calls_weight :: "'u op list list \<Rightarrow> nat" where
  "calls_weight cs = sum_list (map ops_weight cs)"

definition workers_weight :: "'u worker list \<Rightarrow> nat" where
  "workers_weight ws = sum_list (map (\<lambda>wk. ops_weight (pc_ops (wk_pc wk))) ws)"

text \<open>The \<open>BlockShutdown\<close> tasks that were accepted and have not finished.\<close>

definition unfinished :: "'u pool \<Rightarrow> nat" where
  "unfinished s =
     queued_weight (pl_seqs s) + calls_weight (pl_calls s) + workers_weight (pl_workers s)"

definition inv_count :: "'u pool \<Rightarrow> bool" where
  "inv_count s \<longleftrightarrow> tr_num_blocking (pl_tracker s) = unfinished s"

lemma ops_weight_simps [simp]:
  "ops_weight [] = 0" "ops_weight (op # ops) = op_weight op + ops_weight ops"
  "ops_weight (ops @ ops') = ops_weight ops + ops_weight ops'"
  by (simp_all add: ops_weight_def)

lemma queued_weight_update:
  "sid < length qs \<Longrightarrow> queued_weight (qs[sid := q]) + seq_weight (qs ! sid) = queued_weight qs + seq_weight q"
  unfolding queued_weight_def by (rule sum_list_update_nat)

lemma queued_weight_append [simp]: "queued_weight (qs @ [q]) = queued_weight qs + seq_weight q"
  by (simp add: queued_weight_def)

lemma calls_weight_update:
  "i < length cs \<Longrightarrow> calls_weight (cs[i := c]) + ops_weight (cs ! i) = calls_weight cs + ops_weight c"
  unfolding calls_weight_def by (rule sum_list_update_nat)

lemma workers_weight_update:
  "w < length ws \<Longrightarrow> workers_weight (ws[w := wk]) + ops_weight (pc_ops (wk_pc (ws ! w))) =
     workers_weight ws + ops_weight (pc_ops (wk_pc wk))"
  unfolding workers_weight_def
  using sum_list_update_nat [of w ws "\<lambda>wk. ops_weight (pc_ops (wk_pc wk))" wk] .

lemma seq_weight_new [simp]: "seq_weight (sequence_new tok traits) = 0"
  by (simp add: seq_weight_def sequence_new_def)

lemma seq_weight_push_task [simp]:
  "seq_weight (push_task t q) = seq_weight q + closure_weight (tk_callback t)"
  by (simp add: seq_weight_def push_task_def inner_push_task_def Let_def)

lemma seq_weight_push_delayed [simp]:
  "seq_weight (push_delayed_task t ready q) = seq_weight q + closure_weight (tk_callback t)"
  by (simp add: seq_weight_def push_delayed_task_def inner_push_delayed_task_def Let_def
      sum_list_map_mset)

lemma seq_weight_take:
  assumes "sequence_wf q" and "take_task now q = (r, q')"
  shows "seq_weight q = (case r of None \<Rightarrow> 0 | Some t \<Rightarrow> closure_weight (tk_callback t)) + seq_weight q'"
proof -
  have "seq_weight q = sum_mset (image_mset closure_weight
      (mset (map tk_callback (si_immediate_queue (sq_inner q)))
        + mset (map (\<lambda>d. tk_callback (dt_task d)) (si_delayed_queue (sq_inner q)))))" for q :: "'a sequence"
    by (simp add: seq_weight_def sum_list_map_mset image_mset.compositionality o_def)
  then show ?thesis
    by (simp only: take_task_contents [OF assms]) (auto split: option.splits)
qed

lemma exec_op_count:
  assumes "exec_op op s = Some (new, t)" and "op_ok (length (pl_seqs s)) op"
  shows "tr_num_blocking (pl_tracker t) + queued_weight (pl_seqs s) + op_weight op =
         tr_num_blocking (pl_tracker s) + queued_weight (pl_seqs t) + ops_weight new"
proof (cases op)
  case (PushTask sid c)
  then show ?thesis
    using assms queued_weight_update [of sid "pl_seqs s"
        "push_task (task_new (''rust_task'', sid) c) (pl_seqs s ! sid)"]
    by (auto simp: op_push_task_def Let_def state_defs task_new_def)
next
  case (PushDelayed sid c t)
  then show ?thesis
    using assms queued_weight_update [of sid "pl_seqs s"
        "push_delayed_task (task_new (''rust_task'', sid) c) t (pl_seqs s ! sid)"]
    by (auto simp: op_push_delayed_def state_defs task_new_def)
next
  case (NewSequence traits c ready)
  then show ?thesis
    using assms(1)
    by (auto simp: alloc_sequence_def create_token_def op_push_task_def op_push_delayed_def Let_def
        state_defs task_new_def split: option.splits)
next
  case (RunClosure c)
  then show ?thesis using assms(1) by (cases c) (auto simp: blocks_def)
next
  case (RunBody b)
  then show ?thesis using assms(1) by (cases b) (auto split: option.splits)
next
  case (AfterRun traits)
  then show ?thesis using assms(1) after_run_task_Some by (fastforce split: option.splits)
next
  case (WillPost traits u delay)
  obtain ok tr where p: "will_post_task traits (pl_tracker s) = (ok, tr)" by fastforce
  then show ?thesis
    using assms(1) WillPost will_post_task_accept(1) [of traits "pl_tracker s" tr]
      will_post_task_reject [of traits "pl_tracker s" tr]
    by (cases ok) (auto simp: emit_def wrap_def)
qed (use assms(1) in \<open>auto simp: emit_def push_task_source_def add_sequence_def\<close>)

lemma exec_op_total:
  assumes "inv_count s" and "op_weight op \<le> unfinished s"
  shows "\<exists>new t. exec_op op s = Some (new, t)"
  using assms after_run_task_None [of _ "pl_tracker s"]
  by (cases "(op, s)" rule: exec_op.cases)
     (auto simp: inv_count_def Let_def split: option.splits prod.splits)

lemma calls_weight_mem: "ops \<in> set cs \<Longrightarrow> ops_weight ops \<le> calls_weight cs"
  unfolding calls_weight_def by (simp add: member_le_sum_list)

lemma workers_weight_mem: "wk \<in> set ws \<Longrightarrow> ops_weight (pc_ops (wk_pc wk)) \<le> workers_weight ws"
  unfolding workers_weight_def using member_le_sum_list [of "ops_weight (pc_ops (wk_pc wk))"] by fastforce


text \<open>A worker exchanges weight with a sequence only in \<open>take\<close>; every other change is through \<open>exec_op\<close>.\<close>

lemma inv_count_move:
  assumes "inv_count s" and "w < length (pl_workers s)" and "pl_workers s' = (pl_workers s)[w := wk]"
    and "pl_calls s' = pl_calls s" and "pl_tracker s' = pl_tracker s"
    and "queued_weight (pl_seqs s') + ops_weight (pc_ops (wk_pc wk)) =
         queued_weight (pl_seqs s) + ops_weight (pc_ops (wk_pc (pl_workers s ! w)))"
  shows "inv_count s'"
  using assms workers_weight_update [OF assms(2), of wk] by (simp add: inv_count_def unfinished_def)

lemma inv_count_worker_step:
  assumes "inv_count s" and wf: "inv_wf s" and "worker_step w up s = Some s'"
  shows "inv_count s'"
proof -
  have w: "w < length (pl_workers s)" using assms(3) by (auto simp: worker_step_def split: if_splits)
  note ok = worker_pc_ok [OF wf w]
  note move = inv_count_move [OF assms(1) w]
  have flag: "queued_weight ((pl_seqs s)[sid := (pl_seqs s ! sid)\<lparr>sq_has_worker := b\<rparr>]) =
      queued_weight (pl_seqs s)" if "sid < length (pl_seqs s)" for sid b
    using queued_weight_update [OF that, of "(pl_seqs s ! sid)\<lparr>sq_has_worker := b\<rparr>"]
    by (simp add: seq_weight_def)
  show ?thesis
  proof (cases "wk_pc (pl_workers s ! w)")
    case WIdle
    then show ?thesis
      using assms(3) w
      by (auto simp: worker_step_def get_work_def state_defs intro!: move split: if_splits option.splits)
  next
    case (WGot sid)
    then show ?thesis
      using assms(3) w ok flag
      by (auto simp: worker_step_def worker_claim_def will_run_task_def state_defs intro!: move
          split: if_splits)
  next
    case (WClaimed sid)
    then have sid: "sid < length (pl_seqs s)" using ok by simp
    obtain r q where t: "take_task (pl_now s) (pl_seqs s ! sid) = (r, q)" by fastforce
    have "sequence_wf (pl_seqs s ! sid)"
      using data_ok_seq [OF inv_wf_data [OF wf] sid] by (simp add: seq_ok_def)
    from seq_weight_take [OF this t] queued_weight_update [OF sid, of q] show ?thesis
      using assms(3) w WClaimed t
      by (cases r) (auto simp: worker_step_def worker_take_def Let_def state_defs intro!: move)
  next
    case (WRunning sid ops)
    show ?thesis
    proof (cases ops)
      case Nil
      then show ?thesis
        using assms(3) w WRunning by (auto simp: worker_step_def worker_run_def state_defs intro!: move)
    next
      case (Cons op rest)
      then obtain new t where e: "exec_op op s = Some (new, t)"
          and s': "s' = emit (op_events sid op) (goto w (WRunning sid (new @ rest)) t)"
        using assms(3) w WRunning by (auto simp: worker_step_def worker_run_def split: option.splits)
      have "op_ok (length (pl_seqs s)) op" using ok WRunning Cons by simp
      then show ?thesis
        using exec_op_count [OF e] assms(1) exec_op_frame [OF e] WRunning Cons
          workers_weight_update [OF w, of "(pl_workers s ! w)\<lparr>wk_pc := WRunning sid (new @ rest)\<rparr>"]
        by (simp add: s' inv_count_def unfinished_def state_defs)
    qed
  next
    case (WDone sid)
    then show ?thesis
      using assms(3) w ok flag
      by (auto simp: worker_step_def worker_store_def did_process_store_def state_defs intro!: move)
  qed (use assms(3) w in \<open>auto simp: worker_step_def worker_check_def worker_requeue_def
         push_task_source_def state_defs intro!: move split: if_splits\<close>)
qed

lemma inv_count_step:
  assumes "inv_count s" and "inv_wf s" and "pool_step l s = Some s'"
  shows "inv_count s'"
proof (cases l)
  case (WorkerStep w up)
  then show ?thesis using assms(3) inv_count_worker_step [OF assms(1,2)] by simp
next
  case (CallStep i)
  then obtain op ops new t where i: "i < length (pl_calls s)" "pl_calls s ! i = op # ops"
      and e: "exec_op op s = Some (new, t)" and s': "s' = t\<lparr>pl_calls := (pl_calls t)[i := new @ ops]\<rparr>"
    using assms(3) by (auto simp: call_step_def split: if_splits list.splits option.splits)
  have "op_ok (length (pl_seqs s)) op"
    using assms(2) i nth_mem [OF i(1)] unfolding inv_wf_def by (metis ops_ok_simps(2))
  then show ?thesis
    using exec_op_count [OF e] assms(1) exec_op_frame [OF e] i calls_weight_update [OF i(1), of "new @ ops"]
    by (simp add: s' inv_count_def unfinished_def)
next
  case (Request r)
  show ?thesis
  proof (cases "\<exists>traits. r = CreateSequencedTaskRunner traits")
    case True
    then show ?thesis
      using assms(1,3) Request
      by (auto simp: do_request_def create_sequenced_task_runner_def alloc_sequence_def create_token_def
          upd_seq_def inv_count_def unfinished_def seq_weight_def set_task_runner_def sequence_new_def)
  next
    case False
    then have "s' = s\<lparr>pl_calls := pl_calls s @ [request_ops s r]\<rparr>" "ops_weight (request_ops s r) = 0"
      using assms(3) Request
      by (auto simp: do_request_def split: if_splits request.splits)
    then show ?thesis using assms(1) by (simp add: inv_count_def unfinished_def calls_weight_def)
  qed
next
  case (WorkerPanic w)
  then show ?thesis
    using assms(3)
    by (auto simp: panic_step_def worker_panic_def state_defs
        intro!: inv_count_move [OF assms(1), where w = w]
        split: if_splits worker_pc.splits list.splits op.splits)
next
  case (GroupNotify target)
  then show ?thesis
    using assms(1,3)
    by (auto simp: tg_notify_one_def state_defs is_waiting_def split: if_splits option.splits
        intro: inv_count_move [OF assms(1)])
       (auto simp: inv_count_def unfinished_def)
next
  case (GroupSpurious w)
  then show ?thesis
    using assms(3)
    by (auto simp: spurious_wake_def state_defs is_waiting_def
        intro!: inv_count_move [OF assms(1), where w = w] split: if_splits)
next
  case TimerStep
  then have "timer_step s = Some s'" using assms(3) by simp
  then show ?thesis
    by (cases rule: timer_stepE)
       (use assms(1) in \<open>auto simp: inv_count_def unfinished_def push_task_source_def\<close>)
next
  case (ShutdownStep i)
  then obtain pc t where r: "shutdown_round (pl_shutdowns s ! i) s = Some (pc, t)"
      and s': "s' = t\<lparr>pl_shutdowns := (pl_shutdowns t)[i := pc]\<rparr>"
    using assms(3) by (auto simp: shutdown_step_def split: if_splits option.splits)
  have "tr_num_blocking (pl_tracker t) = tr_num_blocking (pl_tracker s)"
    using r by (cases "(pl_shutdowns s ! i, s)" rule: shutdown_round.cases)
      (auto simp: shutdown_begin_def split: if_splits)
  moreover have "workers_weight (pl_workers t) = workers_weight (pl_workers s)"
    unfolding workers_weight_def
    using arg_cong [OF shutdown_round_pcs [OF r, of "\<lambda>pc. ops_weight (pc_ops pc)"], of sum_list] by simp
  ultimately show ?thesis
    using assms(1) by (simp add: s' inv_count_def unfinished_def shutdown_round_frame [OF r])
qed (use assms(1,3) in \<open>auto simp: dtm_notify_one_def timer_spurious_def inv_count_def unfinished_def
       attach_current_thread_def worker_new_def workers_weight_def split: if_splits\<close>)

interpretation pool_count: inductive_invariant pool_init pool_step "\<lambda>s. inv_wf s \<and> inv_count s"
proof
  show "inv_wf s \<and> inv_count s" if "pool_init s" for s :: "'u pool"
    using that pool_wf.inv_init [OF that]
    by (auto simp: pool_init_def pool_new_def inv_count_def unfinished_def queued_weight_def
        calls_weight_def workers_weight_def worker_new_def tracker_new_def)
  show "inv_wf t \<and> inv_count t" if "inv_wf s \<and> inv_count s" "pool_step l s = Some t"
    for s t :: "'u pool" and l
    using that inv_wf_step inv_count_step by blast
qed


text \<open>
  C5. Accounting: in every reachable state the tracker's counter is the number of \<open>BlockShutdown\<close>
  tasks accepted by \<open>ThreadPool::post_task\<close> or \<open>post_delayed_task\<close> that have not finished,
  and no operation that a thread is about to execute can panic in \<open>after_run_task\<close>.
\<close>

theorem tracker_counts_unfinished_tasks:
  assumes "pool_reach s"
  shows "tr_num_blocking (pl_tracker s) = unfinished s \<and>
         (\<forall>op ops. op # ops \<in> set (pl_calls s) \<or>
            (\<exists>wk \<in> set (pl_workers s). pc_ops (wk_pc wk) = op # ops) \<longrightarrow> exec_op op s \<noteq> None)"
proof -
  have c: "inv_count s" using pool_count.reach_inv [OF assms] by simp
  have "exec_op op s \<noteq> None" if "op # ops \<in> set (pl_calls s) \<or>
      (\<exists>wk \<in> set (pl_workers s). pc_ops (wk_pc wk) = op # ops)" for op ops
  proof -
    have "op_weight op \<le> unfinished s"
      using that calls_weight_mem [of "op # ops" "pl_calls s"] workers_weight_mem [of _ "pl_workers s"]
      by (fastforce simp: unfinished_def)
    then show ?thesis using exec_op_total [OF c] by fastforce
  qed
  then show ?thesis using c by (simp add: inv_count_def)
qed

section \<open>What shutdown guarantees\<close>

fun past_wait :: "shutdown_pc \<Rightarrow> bool" where
  "past_wait SBegin = False"
| "past_wait SWait = False"
| "past_wait _ = True"

fun past_flag :: "shutdown_pc \<Rightarrow> bool" where
  "past_flag SSetFlag = False"
| "past_flag pc = past_wait pc"

fun past_notify :: "shutdown_pc \<Rightarrow> bool" where
  "past_notify SNotifyAll = False"
| "past_notify pc = past_flag pc"

fun past_take :: "shutdown_pc \<Rightarrow> bool" where
  "past_take SNotifyAll = False"
| "past_take STakeHandles = False"
| "past_take pc = past_flag pc"

fun past_dtm_flag :: "shutdown_pc \<Rightarrow> bool" where
  "past_dtm_flag SDtmTake = True"
| "past_dtm_flag SDtmJoin = True"
| "past_dtm_flag SDone = True"
| "past_dtm_flag _ = False"

fun past_dtm_take :: "shutdown_pc \<Rightarrow> bool" where
  "past_dtm_take SDtmJoin = True"
| "past_dtm_take SDone = True"
| "past_dtm_take _ = False"

fun joining :: "shutdown_pc \<Rightarrow> nat list" where
  "joining (SJoin hs) = hs"
| "joining _ = []"

definition shut_pc_ok :: "'u pool \<Rightarrow> shutdown_pc \<Rightarrow> bool" where
  "shut_pc_ok s pc \<longleftrightarrow>
     (pc \<noteq> SBegin \<longrightarrow> tr_shutdown_started (pl_tracker s)) \<and>
     (past_wait pc \<longrightarrow> tr_num_blocking (pl_tracker s) = 0) \<and>
     (past_flag pc \<longrightarrow> pl_tg_shutdown s) \<and>
     (past_take pc \<longrightarrow> pl_handles s = []) \<and>
     (past_dtm_flag pc \<longrightarrow> pl_dtm_shutdown s) \<and>
     (past_dtm_take pc \<longrightarrow> \<not> pl_dtm_handle s)"

definition timer_join_ok :: "'u pool \<Rightarrow> bool" where
  "timer_join_ok s \<longleftrightarrow> pl_dtm_handle s \<or> SDtmJoin \<in> set (pl_shutdowns s) \<or> pl_timer s = TExited"

definition shut_ok :: "'u pool \<Rightarrow> bool" where
  "shut_ok s \<longleftrightarrow> (\<forall>pc \<in> set (pl_shutdowns s). shut_pc_ok s pc) \<and> timer_join_ok s"

definition join_ok :: "'u pool \<Rightarrow> bool" where
  "join_ok s \<longleftrightarrow>
     (\<forall>h < pl_num_threads s. h < length (pl_workers s) \<and>
        (h \<in> set (pl_handles s) \<or> (\<exists>pc \<in> set (pl_shutdowns s). h \<in> set (joining pc)) \<or>
         joinable (pl_workers s ! h)))"

lemma exec_op_tracker:
  assumes "exec_op op s = Some (new, t)" and "tr_shutdown_started (pl_tracker s)"
  shows "tr_shutdown_started (pl_tracker t)"
    and "tr_num_blocking (pl_tracker s) = 0 \<Longrightarrow> tr_num_blocking (pl_tracker t) = 0"
  using assms
  by (cases "(op, s)" rule: exec_op.cases;
      auto simp: post_defs state_defs Let_def will_post_task_def after_run_task_def
        split: option.splits if_splits prod.splits)+

lemma shut_pc_ok_mono:
  assumes "shut_pc_ok s pc" and "pl_tg_shutdown s \<longrightarrow> pl_tg_shutdown s'"
    and "pl_handles s = [] \<longrightarrow> pl_handles s' = []" and "pl_dtm_shutdown s \<longrightarrow> pl_dtm_shutdown s'"
    and "\<not> pl_dtm_handle s \<longrightarrow> \<not> pl_dtm_handle s'"
    and "tr_shutdown_started (pl_tracker s) \<longrightarrow> tr_shutdown_started (pl_tracker s') \<and>
         (tr_num_blocking (pl_tracker s) = 0 \<longrightarrow> tr_num_blocking (pl_tracker s') = 0)"
  shows "shut_pc_ok s' pc"
  using assms by (cases pc) (auto simp: shut_pc_ok_def)

lemma shut_ok_same:
  assumes "shut_ok s" and "pl_shutdowns s' = pl_shutdowns s" and "pl_tg_shutdown s' = pl_tg_shutdown s"
    and "pl_handles s' = pl_handles s" and "pl_dtm_shutdown s' = pl_dtm_shutdown s"
    and "pl_dtm_handle s' = pl_dtm_handle s" and "pl_timer s = TExited \<Longrightarrow> pl_timer s' = TExited"
    and "tr_shutdown_started (pl_tracker s) \<Longrightarrow> tr_shutdown_started (pl_tracker s') \<and>
         (tr_num_blocking (pl_tracker s) = 0 \<longrightarrow> tr_num_blocking (pl_tracker s') = 0)"
  shows "shut_ok s'"
proof -
  have "shut_pc_ok s' pc" if "pc \<in> set (pl_shutdowns s)" for pc
  proof (rule shut_pc_ok_mono)
    show "shut_pc_ok s pc" using assms(1) that by (simp add: shut_ok_def)
  qed (use assms(3-6,8) in simp_all)
  moreover have "timer_join_ok s'"
    using assms(1,2,6,7) unfolding shut_ok_def timer_join_ok_def by metis
  ultimately show ?thesis using assms(2) by (simp add: shut_ok_def)
qed

lemma worker_step_shutdown_frame:
  assumes "worker_step w up s = Some s'"
  shows "pl_shutdowns s' = pl_shutdowns s" "pl_tg_shutdown s' = pl_tg_shutdown s"
    "pl_handles s' = pl_handles s" "pl_dtm_shutdown s' = pl_dtm_shutdown s"
    "pl_dtm_handle s' = pl_dtm_handle s" "pl_num_threads s' = pl_num_threads s"
    "pl_calls s' = pl_calls s" "length (pl_workers s') = length (pl_workers s)"
    "v \<noteq> w \<Longrightarrow> pl_workers s' ! v = pl_workers s ! v"
    "\<not> joinable (pl_workers s ! w)"
    "tr_shutdown_started (pl_tracker s) \<Longrightarrow> tr_shutdown_started (pl_tracker s') \<and>
         (tr_num_blocking (pl_tracker s) = 0 \<longrightarrow> tr_num_blocking (pl_tracker s') = 0)"
proof -
  have "pl_shutdowns s' = pl_shutdowns s \<and> pl_tg_shutdown s' = pl_tg_shutdown s \<and>
    pl_handles s' = pl_handles s \<and> pl_dtm_shutdown s' = pl_dtm_shutdown s \<and>
    pl_dtm_handle s' = pl_dtm_handle s \<and> pl_num_threads s' = pl_num_threads s \<and>
    pl_calls s' = pl_calls s \<and> (\<exists>wk. pl_workers s' = (pl_workers s)[w := wk]) \<and>
    \<not> joinable (pl_workers s ! w) \<and>
    (tr_shutdown_started (pl_tracker s) \<longrightarrow> tr_shutdown_started (pl_tracker s') \<and>
         (tr_num_blocking (pl_tracker s) = 0 \<longrightarrow> tr_num_blocking (pl_tracker s') = 0))"
  proof (cases "\<exists>sid op rest. wk_pc (pl_workers s ! w) = WRunning sid (op # rest)")
    case True
    then show ?thesis
      using assms
      by (auto simp: worker_step_def worker_run_def state_defs exec_op_frame exec_op_tracker
          joinable_def split: option.splits if_splits)
  next
    case False
    then show ?thesis
      using assms
      by (auto simp: worker_step_def worker_defs state_defs Let_def push_task_source_def joinable_def
          split: worker_pc.splits option.splits if_splits run_status.splits prod.splits list.splits)
  qed
  then show "pl_shutdowns s' = pl_shutdowns s" "pl_tg_shutdown s' = pl_tg_shutdown s"
    "pl_handles s' = pl_handles s" "pl_dtm_shutdown s' = pl_dtm_shutdown s"
    "pl_dtm_handle s' = pl_dtm_handle s" "pl_num_threads s' = pl_num_threads s"
    "pl_calls s' = pl_calls s" "length (pl_workers s') = length (pl_workers s)"
    "v \<noteq> w \<Longrightarrow> pl_workers s' ! v = pl_workers s ! v"
    "\<not> joinable (pl_workers s ! w)"
    "tr_shutdown_started (pl_tracker s) \<Longrightarrow> tr_shutdown_started (pl_tracker s') \<and>
         (tr_num_blocking (pl_tracker s) = 0 \<longrightarrow> tr_num_blocking (pl_tracker s') = 0)"
    by auto
qed


lemma shut_ok_shutdown_step:
  assumes "shut_ok s" and "shutdown_step i s = Some s'"
  shows "shut_ok s'"
proof -
  obtain pc t where i: "i < length (pl_shutdowns s)"
      and r: "shutdown_round (pl_shutdowns s ! i) s = Some (pc, t)"
      and s': "s' = t\<lparr>pl_shutdowns := (pl_shutdowns s)[i := pc]\<rparr>"
    using assms(2) by (auto simp: shutdown_step_def shutdown_round_frame split: if_splits option.splits)
  have pc_i: "shut_pc_ok s (pl_shutdowns s ! i)" using assms(1) i by (simp add: shut_ok_def)
  have "shut_pc_ok t p" if "shut_pc_ok s p" for p
    using r
    by (cases "(pl_shutdowns s ! i, s)" rule: shutdown_round.cases)
       (auto intro!: shut_pc_ok_mono [OF that] simp: shutdown_begin_def split: if_splits)
  moreover have "shut_pc_ok t pc"
    using r pc_i
    by (cases "(pl_shutdowns s ! i, s)" rule: shutdown_round.cases)
       (auto simp: shut_pc_ok_def shutdown_begin_def shutdown_wait_def split: if_splits)
  ultimately have "\<forall>p \<in> set ((pl_shutdowns s)[i := pc]). shut_pc_ok t p"
    using assms(1) by (auto simp: shut_ok_def dest!: set_updateD)
  then have 1: "\<forall>p \<in> set (pl_shutdowns s'). shut_pc_ok s' p"
    by (simp add: s' shut_pc_ok_def)
  have keep: "SDtmJoin \<in> set ((pl_shutdowns s)[i := pc])"
    if "SDtmJoin \<in> set (pl_shutdowns s)" "pl_shutdowns s ! i \<noteq> SDtmJoin"
    using that by (metis in_set_conv_nth length_list_update nth_list_update_neq)
  have "pc \<in> set ((pl_shutdowns s)[i := pc])" by (rule set_update_memI [OF i])
  then have "timer_join_ok s'"
    using assms(1) r keep unfolding s' shut_ok_def timer_join_ok_def
    by (cases "(pl_shutdowns s ! i, s)" rule: shutdown_round.cases)
       (auto simp: shutdown_begin_def split: if_splits)
  then show ?thesis using 1 by (simp add: shut_ok_def)
qed

lemma shut_ok_step:
  assumes "shut_ok s" and "pool_step l s = Some s'"
  shows "shut_ok s'"
proof (cases l)
  case (WorkerStep w up)
  then have ws: "worker_step w up s = Some s'" using assms(2) by simp
  show ?thesis
    using worker_step_shutdown_frame [OF ws] worker_step_timers(1) [OF ws]
    by (intro shut_ok_same [OF assms(1)]) auto
next
  case (ShutdownStep i)
  then show ?thesis using assms shut_ok_shutdown_step by simp
next
  case (CallStep i)
  then obtain op ops new t where e: "exec_op op s = Some (new, t)"
      and s': "s' = t\<lparr>pl_calls := (pl_calls t)[i := new @ ops]\<rparr>"
    using assms(2) by (auto simp: call_step_def split: if_splits list.splits option.splits)
  then show ?thesis
    using exec_op_frame [OF e] exec_op_tracker [OF e] by (intro shut_ok_same [OF assms(1)]) auto
next
  case TimerStep
  then have "timer_step s = Some s'" using assms(2) by simp
  then show ?thesis
    by (cases rule: timer_stepE)
       (auto simp: push_task_source_def intro!: shut_ok_same [OF assms(1)])
next
  case Shutdown
  then have "s' = s\<lparr>pl_shutdowns := pl_shutdowns s @ [SBegin]\<rparr>" using assms(2) by simp
  then show ?thesis using assms(1) by (auto simp: shut_ok_def timer_join_ok_def shut_pc_ok_def)
next
  case TimerNotify
  then show ?thesis
    using assms(2) by (auto simp: dtm_notify_one_def split: if_splits intro!: shut_ok_same [OF assms(1)])
next
  case TimerSpurious
  then show ?thesis
    using assms(2) by (auto simp: timer_spurious_def split: if_splits intro!: shut_ok_same [OF assms(1)])
next
  case (Request r)
  then show ?thesis
    using assms(2)
    by (auto simp: do_request_def create_sequenced_task_runner_def alloc_sequence_def create_token_def
        upd_seq_def intro!: shut_ok_same [OF assms(1)] split: if_splits request.splits)
next
  case (WorkerPanic w)
  then show ?thesis
    using assms(2)
    by (auto simp: panic_step_def worker_panic_def state_defs intro!: shut_ok_same [OF assms(1)]
        split: if_splits worker_pc.splits list.splits op.splits)
qed (use assms(2) in \<open>auto simp: spurious_wake_def tg_notify_one_def state_defs
       attach_current_thread_def intro!: shut_ok_same [OF assms(1)] split: if_splits option.splits\<close>)

interpretation pool_shut: inductive_invariant pool_init pool_step shut_ok
proof
  show "shut_ok s" if "pool_init s" for s :: "'u pool"
    using that by (auto simp: pool_init_def pool_new_def shut_ok_def timer_join_ok_def)
qed (rule shut_ok_step)


lemma join_ok_mono:
  assumes "join_ok s" and "pl_num_threads s' = pl_num_threads s"
    and "length (pl_workers s) \<le> length (pl_workers s')"
    and "\<And>h. h < length (pl_workers s) \<Longrightarrow> joinable (pl_workers s ! h) \<Longrightarrow> joinable (pl_workers s' ! h)"
    and "\<And>h. h < length (pl_workers s) \<Longrightarrow> h \<in> set (pl_handles s) \<Longrightarrow>
           h \<in> set (pl_handles s') \<or> (\<exists>pc \<in> set (pl_shutdowns s'). h \<in> set (joining pc))"
    and "\<And>h pc. h < length (pl_workers s) \<Longrightarrow> pc \<in> set (pl_shutdowns s) \<Longrightarrow> h \<in> set (joining pc) \<Longrightarrow>
           (\<exists>pc \<in> set (pl_shutdowns s'). h \<in> set (joining pc)) \<or> joinable (pl_workers s' ! h)"
  shows "join_ok s'"
  unfolding join_ok_def
proof (intro allI impI conjI)
  fix h assume "h < pl_num_threads s'"
  then have h: "h < length (pl_workers s)" and
      d: "h \<in> set (pl_handles s) \<or> (\<exists>pc \<in> set (pl_shutdowns s). h \<in> set (joining pc)) \<or>
          joinable (pl_workers s ! h)"
    using assms(1,2) by (auto simp: join_ok_def)
  show "h < length (pl_workers s')" using h assms(3) by simp
  show "h \<in> set (pl_handles s') \<or> (\<exists>pc \<in> set (pl_shutdowns s'). h \<in> set (joining pc)) \<or>
        joinable (pl_workers s' ! h)"
    using d assms(4-6) [OF h] by blast
qed

lemma join_ok_shutdown_step:
  assumes "join_ok s" and "shutdown_step i s = Some s'"
  shows "join_ok s'"
proof -
  obtain pc t where i: "i < length (pl_shutdowns s)"
      and r: "shutdown_round (pl_shutdowns s ! i) s = Some (pc, t)"
      and s': "s' = t\<lparr>pl_shutdowns := (pl_shutdowns s)[i := pc]\<rparr>"
    using assms(2) by (auto simp: shutdown_step_def shutdown_round_frame split: if_splits option.splits)
  have new: "pc \<in> set ((pl_shutdowns s)[i := pc])" by (rule set_update_memI [OF i])
  have other: "p \<in> set ((pl_shutdowns s)[i := pc])" if "p \<in> set (pl_shutdowns s)" "p \<noteq> pl_shutdowns s ! i" for p
    using that by (metis in_set_conv_nth length_list_update nth_list_update_neq)
  have n: "pl_num_threads t = pl_num_threads s" and len: "length (pl_workers t) = length (pl_workers s)"
    using r shutdown_round_frame(10) [OF r]
    by (cases "(pl_shutdowns s ! i, s)" rule: shutdown_round.cases;
        auto simp: shutdown_begin_def split: if_splits)+
  have j: "joinable (pl_workers t ! h)" if "h < length (pl_workers s)" "joinable (pl_workers s ! h)" for h
    using shutdown_round_frame(10) [OF r] that by (auto simp: joinable_def is_waiting_def)
  have hs: "h \<in> set (pl_handles t) \<or> h \<in> set (joining pc)" if "h \<in> set (pl_handles s)" for h
    using r that by (cases "(pl_shutdowns s ! i, s)" rule: shutdown_round.cases)
      (auto simp: shutdown_begin_def split: if_splits)
  have ji: "h \<in> set (joining pc) \<or> joinable (pl_workers s ! h)" if "h \<in> set (joining (pl_shutdowns s ! i))" for h
    using r that by (cases "(pl_shutdowns s ! i, s)" rule: shutdown_round.cases)
      (auto split: if_splits)
  show ?thesis
  proof (rule join_ok_mono [OF assms(1)])
    show "pl_num_threads s' = pl_num_threads s" "length (pl_workers s) \<le> length (pl_workers s')"
      using n len by (simp_all add: s')
    show "joinable (pl_workers s' ! h)" if "h < length (pl_workers s)" "joinable (pl_workers s ! h)" for h
      using j [OF that] by (simp add: s')
    show "h \<in> set (pl_handles s') \<or> (\<exists>pc \<in> set (pl_shutdowns s'). h \<in> set (joining pc))"
      if "h \<in> set (pl_handles s)" for h
      using hs [OF that] new by (auto simp: s')
    show "(\<exists>pc \<in> set (pl_shutdowns s'). h \<in> set (joining pc)) \<or> joinable (pl_workers s' ! h)"
      if "h < length (pl_workers s)" "p \<in> set (pl_shutdowns s)" "h \<in> set (joining p)" for h p
      using that ji [of h] j [of h] new other [of p]
      by (cases "p = pl_shutdowns s ! i") (auto simp: s')
  qed
qed

lemma join_ok_step:
  assumes "join_ok s" and "pool_step l s = Some s'"
  shows "join_ok s'"
proof (cases l)
  case (WorkerStep w up)
  then have ws: "worker_step w up s = Some s'" using assms(2) by simp
  note f = worker_step_shutdown_frame [OF ws]
  show ?thesis
  proof (rule join_ok_mono [OF assms(1)])
    show "joinable (pl_workers s' ! h)" if "joinable (pl_workers s ! h)" for h
      using that f(9) [of h] f(10) by (cases "h = w") auto
  qed (use f in auto)
next
  case (ShutdownStep i)
  then show ?thesis using assms join_ok_shutdown_step by simp
next
  case (CallStep i)
  then obtain op ops new t where e: "exec_op op s = Some (new, t)"
      and s': "s' = t\<lparr>pl_calls := (pl_calls t)[i := new @ ops]\<rparr>"
    using assms(2) by (auto simp: call_step_def split: if_splits list.splits option.splits)
  then show ?thesis using exec_op_frame [OF e] assms(1) by (simp add: join_ok_def)
next
  case (WorkerPanic w)
  then show ?thesis
    using assms
    by (auto simp: panic_step_def worker_panic_def state_defs joinable_def nth_list_update
        intro!: join_ok_mono [OF assms(1)]
        split: if_splits worker_pc.splits list.splits op.splits)
next
  case TimerStep
  then have "timer_step s = Some s'" using assms(2) by simp
  then show ?thesis
    by (cases rule: timer_stepE) (use assms(1) in \<open>auto simp: join_ok_def push_task_source_def\<close>)
next
  case (Request r)
  then show ?thesis
    using assms
    by (auto simp: do_request_def create_sequenced_task_runner_def alloc_sequence_def create_token_def
        upd_seq_def join_ok_def split: if_splits request.splits)
next
  case (GroupNotify target)
  then show ?thesis
    using assms(2)
    by (auto simp: tg_notify_one_def state_defs joinable_def is_waiting_def nth_list_update
        intro!: join_ok_mono [OF assms(1)] split: if_splits option.splits)
next
  case (GroupSpurious w)
  then show ?thesis
    using assms(2)
    by (auto simp: spurious_wake_def state_defs joinable_def is_waiting_def nth_list_update
        intro!: join_ok_mono [OF assms(1)] split: if_splits)
next
  case (Attach dflt)
  then show ?thesis
    using assms(2)
    by (auto simp: attach_current_thread_def nth_append intro!: join_ok_mono [OF assms(1)]
        split: if_splits)
next
  case TimerNotify
  then show ?thesis using assms by (auto simp: dtm_notify_one_def join_ok_def split: if_splits)
next
  case TimerSpurious
  then show ?thesis using assms by (auto simp: timer_spurious_def join_ok_def split: if_splits)
next
  case Shutdown
  then show ?thesis using assms(2) by (auto intro!: join_ok_mono [OF assms(1)])
next
  case (Tick d)
  then show ?thesis using assms by (auto simp: join_ok_def)
qed

interpretation pool_join: inductive_invariant pool_init pool_step join_ok
proof
  show "join_ok s" if "pool_init s" for s :: "'u pool"
    using that by (auto simp: pool_init_def pool_new_def join_ok_def)
qed (rule join_ok_step)


lemma shutdown_pc_facts:
  assumes "pool_reach s" and "pc \<in> set (pl_shutdowns s)"
  shows "past_wait pc \<Longrightarrow> unfinished s = 0" and "shut_pc_ok s pc"
proof -
  show ok: "shut_pc_ok s pc" using pool_shut.reach_inv [OF assms(1)] assms(2) by (simp add: shut_ok_def)
  have "inv_count s" using pool_count.reach_inv [OF assms(1)] by simp
  then show "past_wait pc \<Longrightarrow> unfinished s = 0" using ok by (simp add: shut_pc_ok_def inv_count_def)
qed

text \<open>
  Attached threads are in no list of handles, so \<open>shutdown\<close> does not join them; what it gives them is
  the flag and the \<open>notify_all\<close>: once a call has notified, no worker waits, whoever started it.
\<close>

definition awake :: "'u pool \<Rightarrow> bool" where
  "awake s \<longleftrightarrow> (\<forall>wk \<in> set (pl_workers s). \<not> is_waiting wk)"

definition notified_ok :: "'u pool \<Rightarrow> bool" where
  "notified_ok s \<longleftrightarrow> shut_ok s \<and> ((\<exists>pc \<in> set (pl_shutdowns s). past_notify pc) \<longrightarrow> awake s)"

lemma awake_move:
  assumes "awake s" "pl_workers s' = (pl_workers s)[w := wk]" "\<not> is_waiting wk"
  shows "awake s'"
  using assms unfolding awake_def by (metis set_updateD)

lemma awake_same: "awake s \<Longrightarrow> pl_workers s' = pl_workers s \<Longrightarrow> awake s'"
  by (simp add: awake_def)

lemma awake_worker_step:
  assumes "awake s" "pl_tg_shutdown s" "worker_step w up s = Some s'"
  shows "awake s'"
proof (cases "wk_pc (pl_workers s ! w)")
  case (WRunning sid ops)
  show ?thesis
  proof (cases ops)
    case Nil
    then show ?thesis
      using assms(3) WRunning
      by (auto simp: worker_step_def worker_run_def state_defs is_waiting_def
          intro!: awake_move [OF assms(1), where w = w] split: if_splits)
  next
    case (Cons op rest)
    then obtain new t where e: "exec_op op s = Some (new, t)"
        and s': "s' = emit (op_events sid op) (goto w (WRunning sid (new @ rest)) t)"
      using assms(3) WRunning by (auto simp: worker_step_def worker_run_def split: if_splits option.splits)
    show ?thesis
      using exec_op_frame [OF e] unfolding s'
      by (intro awake_move [OF assms(1), where w = w]) (auto simp: state_defs is_waiting_def)
  qed
next
  case (WClaimed sid)
  then show ?thesis
    using assms(3)
    by (auto simp: worker_step_def worker_take_def Let_def state_defs is_waiting_def
        intro!: awake_move [OF assms(1), where w = w] split: if_splits prod.splits option.splits)
qed (use assms(2,3) in \<open>auto simp: worker_step_def get_work_def worker_claim_def will_run_task_def worker_store_def
       worker_check_def worker_requeue_def push_task_source_def state_defs is_waiting_def
       intro!: awake_move [OF assms(1), where w = w] split: if_splits\<close>)

lemma awake_step:
  assumes "awake s" "pl_tg_shutdown s" "pool_step l s = Some s'"
  shows "awake s'"
proof (cases l)
  case (WorkerStep w up)
  then show ?thesis using assms awake_worker_step by simp
next
  case (ShutdownStep i)
  then obtain pc t where r: "shutdown_round (pl_shutdowns s ! i) s = Some (pc, t)"
      and s': "s' = t\<lparr>pl_shutdowns := (pl_shutdowns t)[i := pc]\<rparr>"
    using assms(3) by (auto simp: shutdown_step_def split: if_splits option.splits)
  show ?thesis
    using assms(1) r unfolding s' awake_def
    by (cases "(pl_shutdowns s ! i, s)" rule: shutdown_round.cases)
       (auto simp: shutdown_begin_def is_waiting_def split: if_splits)
next
  case (CallStep i)
  then obtain op ops new t where e: "exec_op op s = Some (new, t)"
      and s': "s' = t\<lparr>pl_calls := (pl_calls t)[i := new @ ops]\<rparr>"
    using assms(3) by (auto simp: call_step_def split: if_splits list.splits option.splits)
  then show ?thesis using exec_op_frame [OF e] by (intro awake_same [OF assms(1)]) simp
next
  case (WorkerPanic w)
  then show ?thesis
    using assms(3)
    by (auto simp: panic_step_def worker_panic_def state_defs is_waiting_def
        intro!: awake_move [OF assms(1), where w = w] split: if_splits worker_pc.splits list.splits op.splits)
next
  case (GroupNotify target)
  show ?thesis
  proof (cases target)
    case None
    then show ?thesis
      using GroupNotify assms(3) by (auto simp: tg_notify_one_def intro!: awake_same [OF assms(1)] split: if_splits)
  next
    case (Some w)
    then show ?thesis
      using GroupNotify assms(3)
      by (auto simp: tg_notify_one_def state_defs is_waiting_def intro!: awake_move [OF assms(1), where w = w]
          split: if_splits)
  qed
next
  case (GroupSpurious w)
  then show ?thesis
    using assms(3)
    by (auto simp: spurious_wake_def state_defs is_waiting_def intro!: awake_move [OF assms(1), where w = w] split: if_splits)
next
  case TimerStep
  then have "timer_step s = Some s'" using assms(3) by simp
  then show ?thesis
    by (cases rule: timer_stepE) (auto simp: push_task_source_def intro!: awake_same [OF assms(1)])
next
  case (Request r)
  then show ?thesis
    using assms(3)
    by (auto simp: do_request_def create_sequenced_task_runner_def alloc_sequence_def create_token_def
        upd_seq_def intro!: awake_same [OF assms(1)] split: if_splits request.splits)
next
  case (Attach dflt)
  then show ?thesis
    using assms(1,3) by (auto simp: attach_current_thread_def awake_def worker_new_def is_waiting_def split: if_splits)
qed (use assms(3) in \<open>auto simp: dtm_notify_one_def timer_spurious_def intro!: awake_same [OF assms(1)] split: if_splits\<close>)

lemma past_notify_step:
  assumes "pool_step l s = Some s'" "pc \<in> set (pl_shutdowns s')" "past_notify pc"
  shows "(\<exists>pc' \<in> set (pl_shutdowns s). past_notify pc') \<or> (\<exists>i. l = ShutdownStep i \<and> pl_shutdowns s ! i = SNotifyAll)"
proof (cases l)
  case (ShutdownStep i)
  then obtain pc' t where i: "i < length (pl_shutdowns s)" and r: "shutdown_round (pl_shutdowns s ! i) s = Some (pc', t)"
      and s': "s' = t\<lparr>pl_shutdowns := (pl_shutdowns s)[i := pc']\<rparr>"
    using assms(1) by (auto simp: shutdown_step_def shutdown_round_frame split: if_splits option.splits)
  consider "pc \<in> set (pl_shutdowns s)" | "pc = pc'" using assms(2) s' set_updateD by fastforce
  then show ?thesis
  proof cases
    case 2
    have "pl_shutdowns s ! i = SNotifyAll \<or> past_notify (pl_shutdowns s ! i)"
      using r assms(3) 2
      by (cases "(pl_shutdowns s ! i, s)" rule: shutdown_round.cases) (auto simp: shutdown_begin_def split: if_splits)
    then show ?thesis using i ShutdownStep nth_mem by blast
  qed (use assms(3) in blast)
next
  case Shutdown
  then show ?thesis using assms by auto
next
  case (CallStep i)
  then obtain op ops new t where e: "exec_op op s = Some (new, t)"
      and s': "s' = t\<lparr>pl_calls := (pl_calls t)[i := new @ ops]\<rparr>"
    using assms(1) by (auto simp: call_step_def split: if_splits list.splits option.splits)
  then show ?thesis using exec_op_frame [OF e] assms(2,3) by auto
next
  case TimerStep
  then have "timer_step s = Some s'" using assms(1) by simp
  then show ?thesis by (cases rule: timer_stepE) (use assms(2,3) in \<open>auto simp: push_task_source_def\<close>)
next
  case (WorkerStep w up)
  then have "pl_shutdowns s' = pl_shutdowns s" using assms(1) worker_step_shutdown_frame(1) by simp
  then show ?thesis using assms(2,3) by auto
qed (use assms in \<open>auto simp: do_request_def create_sequenced_task_runner_def
       alloc_sequence_def create_token_def upd_seq_def panic_step_def worker_panic_def state_defs tg_notify_one_def
       spurious_wake_def attach_current_thread_def dtm_notify_one_def timer_spurious_def
       split: if_splits option.splits request.splits worker_pc.splits list.splits op.splits\<close>)

lemma notified_step:
  assumes "notified_ok s" "pool_step l s = Some s'"
  shows "notified_ok s'"
proof -
  have ok: "shut_ok s" using assms(1) by (simp add: notified_ok_def)
  have "awake s'" if pc: "pc \<in> set (pl_shutdowns s')" "past_notify pc" for pc
    using past_notify_step [OF assms(2) pc]
  proof
    assume "\<exists>pc' \<in> set (pl_shutdowns s). past_notify pc'"
    then obtain pc' where p: "pc' \<in> set (pl_shutdowns s)" "past_notify pc'" by blast
    have "past_flag pc'" using p(2) by (cases pc') simp_all
    then have "pl_tg_shutdown s" using ok p(1) by (simp add: shut_ok_def shut_pc_ok_def)
    then show ?thesis using awake_step [OF _ _ assms(2)] assms(1) p by (auto simp: notified_ok_def)
  next
    assume "\<exists>i. l = ShutdownStep i \<and> pl_shutdowns s ! i = SNotifyAll"
    then show ?thesis
      using assms(2) by (auto simp: shutdown_step_def awake_def is_waiting_def split: if_splits)
  qed
  then show ?thesis using shut_ok_step [OF ok assms(2)] by (auto simp: notified_ok_def)
qed

interpretation pool_notified: inductive_invariant pool_init pool_step notified_ok
proof
  show "notified_ok s" if "pool_init s" for s :: "'u pool"
    using that by (auto simp: pool_init_def pool_new_def notified_ok_def shut_ok_def timer_join_ok_def)
qed (rule notified_step)

lemma returned_facts:
  assumes "pool_reach s" "SDone \<in> set (pl_shutdowns s)"
  shows "tr_shutdown_started (pl_tracker s)" "pl_tg_shutdown s" "awake s"
    and "h < pl_num_threads s \<Longrightarrow> joinable (pl_workers s ! h) \<or> (\<exists>pc \<in> set (pl_shutdowns s). h \<in> set (joining pc))"
    and "pl_timer s = TExited \<or> SDtmJoin \<in> set (pl_shutdowns s)"
proof -
  note ok = shutdown_pc_facts(2) [OF assms]
  then have "pl_handles s = []" "\<not> pl_dtm_handle s" by (simp_all add: shut_pc_ok_def)
  then show "h < pl_num_threads s \<Longrightarrow> joinable (pl_workers s ! h) \<or> (\<exists>pc \<in> set (pl_shutdowns s). h \<in> set (joining pc))"
    and "pl_timer s = TExited \<or> SDtmJoin \<in> set (pl_shutdowns s)"
    using pool_join.reach_inv [OF assms(1)] pool_shut.reach_inv [OF assms(1)]
    by (auto simp: join_ok_def shut_ok_def timer_join_ok_def)
  show "tr_shutdown_started (pl_tracker s)" "pl_tg_shutdown s" using ok by (simp_all add: shut_pc_ok_def)
  show "awake s"
    using pool_notified.reach_inv [OF assms(1)] bexI [OF _ assms(2), of past_notify] by (simp add: notified_ok_def)
qed

section \<open>A panicking callback\<close>

lemma panicked_stays:
  assumes "w < length (pl_workers s)" and "wk_pc (pl_workers s ! w) = WPanicked sid ops"
    and "pool_step l s = Some s'"
  shows "w < length (pl_workers s') \<and> wk_pc (pl_workers s' ! w) = WPanicked sid ops"
proof (cases l)
  case (WorkerStep v up)
  then have ws: "worker_step v up s = Some s'" using assms(3) by simp
  have "v \<noteq> w"
    using worker_step_shutdown_frame(10) [OF ws] assms(2) by (auto simp: joinable_def)
  then show ?thesis
    using worker_step_shutdown_frame(8) [OF ws] worker_step_shutdown_frame(9) [OF ws, of w] assms(1,2)
    by simp
next
  case (ShutdownStep i)
  then obtain pc t where r: "shutdown_round (pl_shutdowns s ! i) s = Some (pc, t)"
      and s': "s' = t\<lparr>pl_shutdowns := (pl_shutdowns t)[i := pc]\<rparr>"
    using assms(3) by (auto simp: shutdown_step_def split: if_splits option.splits)
  show ?thesis
    using shutdown_round_frame(10) [OF r] assms(1,2) by (auto simp: s' is_waiting_def)
next
  case (CallStep i)
  then obtain op ops new t where e: "exec_op op s = Some (new, t)"
      and s': "s' = t\<lparr>pl_calls := (pl_calls t)[i := new @ ops]\<rparr>"
    using assms(3) by (auto simp: call_step_def split: if_splits list.splits option.splits)
  then show ?thesis using exec_op_frame [OF e] assms(1,2) by simp
next
  case (WorkerPanic v)
  then show ?thesis
    using assms
    by (auto simp: panic_step_def worker_panic_def state_defs nth_list_update
        split: if_splits worker_pc.splits list.splits op.splits)
next
  case TimerStep
  then have "timer_step s = Some s'" using assms(3) by simp
  then show ?thesis
    by (cases rule: timer_stepE) (use assms(1,2) in \<open>auto simp: push_task_source_def\<close>)
next
  case (Request r)
  then show ?thesis
    using assms
    by (auto simp: do_request_def create_sequenced_task_runner_def alloc_sequence_def create_token_def
        upd_seq_def split: if_splits request.splits)
qed (use assms in \<open>auto simp: spurious_wake_def tg_notify_one_def state_defs attach_current_thread_def
       dtm_notify_one_def timer_spurious_def nth_append nth_list_update is_waiting_def
       split: if_splits option.splits\<close>)

lemma panicked_stays_run:
  assumes "w < length (pl_workers s)" and "wk_pc (pl_workers s ! w) = WPanicked sid ops"
    and "run pool_step ls s = Some t"
  shows "w < length (pl_workers t) \<and> wk_pc (pl_workers t ! w) = WPanicked sid ops"
  using assms
proof (induction ls arbitrary: s)
  case (Cons l ls)
  then obtain s1 where "pool_step l s = Some s1" "run pool_step ls s1 = Some t"
    by (auto split: option.splits)
  then show ?case using panicked_stays [OF Cons.prems(1,2)] Cons.IH [of s1] by blast
qed simp

lemma panicked_unfinished:
  assumes "w < length (pl_workers s)" and "wk_pc (pl_workers s ! w) = WPanicked sid ops"
    and "AfterRun traits \<in> set ops" and "blocks traits = 1"
  shows "0 < unfinished s"
proof -
  have "1 \<le> ops_weight ops"
    using member_le_sum_list [of "op_weight (AfterRun traits)" "map op_weight ops"] assms(3,4)
    by (force simp: ops_weight_def)
  also have "\<dots> \<le> workers_weight (pl_workers s)"
    using workers_weight_mem [OF nth_mem [OF assms(1)]] assms(2) by simp
  finally show ?thesis by (simp add: unfinished_def)
qed

section \<open>The pool is never stuck\<close>

text \<open>The steps of the pool's own threads, as opposed to time, clients and spurious wake-ups.\<close>

fun internal :: "'u label \<Rightarrow> bool" where
  "internal (CallStep i) = True"
| "internal (WorkerStep w up) = True"
| "internal (GroupNotify target) = True"
| "internal TimerStep = True"
| "internal TimerNotify = True"
| "internal _ = False"

definition progress :: "'u pool \<Rightarrow> bool" where
  "progress s \<longleftrightarrow> (\<exists>l. internal l \<and> pool_step l s \<noteq> None)"

fun panicked :: "'u worker_pc \<Rightarrow> bool" where
  "panicked (WPanicked sid ops) = True"
| "panicked _ = False"

lemma progressI: "internal l \<Longrightarrow> pool_step l s \<noteq> None \<Longrightarrow> progress s"
  unfolding progress_def by blast

lemma worker_progress:
  assumes "pool_reach s" and w: "w < length (pl_workers s)"
    and "\<not> joinable (pl_workers s ! w)" and "\<not> is_waiting (pl_workers s ! w)"
  shows "progress s"
proof -
  have c: "inv_count s" using pool_count.reach_inv [OF assms(1)] by simp
  have "exec_op op s \<noteq> None" if "wk_pc (pl_workers s ! w) = WRunning sid (op # ops)" for sid op ops
    using exec_op_total [OF c, of op] workers_weight_mem [OF nth_mem [OF w]] that
    by (fastforce simp: unfinished_def)
  then have "pool_step (WorkerStep w True) s \<noteq> None"
    using w assms(3,4)
    by (auto simp: worker_step_def worker_run_def joinable_def is_waiting_def
        split: worker_pc.splits list.splits option.splits)
  then show ?thesis by (intro progressI [of "WorkerStep w True"]) simp_all
qed

lemma call_progress:
  assumes "pool_reach s" and "op # ops \<in> set (pl_calls s)"
  shows "progress s"
proof -
  have c: "inv_count s" using pool_count.reach_inv [OF assms(1)] by simp
  obtain i where i: "i < length (pl_calls s)" "pl_calls s ! i = op # ops"
    using assms(2) by (auto simp: in_set_conv_nth)
  obtain new t where "exec_op op s = Some (new, t)"
    using exec_op_total [OF c, of op] calls_weight_mem [OF assms(2)] by (auto simp: unfinished_def)
  then have "pool_step (CallStep i) s \<noteq> None" using i by (simp add: call_step_def)
  then show ?thesis by (intro progressI [of "CallStep i"]) simp_all
qed

lemma pending_progress:
  assumes "pool_reach s" and "op \<in> pending_ops s" and "\<forall>wk \<in> set (pl_workers s). \<not> panicked (wk_pc wk)"
  shows "progress s"
proof -
  consider (call) ops where "ops \<in> set (pl_calls s)" "op \<in> set ops"
    | (worker) wk where "wk \<in> set (pl_workers s)" "op \<in> set (pc_ops (wk_pc wk))"
    using assms(2) by (auto simp: pending_ops_def)
  then show ?thesis
  proof cases
    case call
    obtain p ps where "ops = p # ps" using call(2) by (cases ops) simp_all
    then show ?thesis using call_progress [OF assms(1), of p ps] call(1) by simp
  next
    case worker
    then obtain w where "w < length (pl_workers s)" "wk = pl_workers s ! w" by (auto simp: in_set_conv_nth)
    then show ?thesis
      using worker worker_progress [OF assms(1), of w] bspec [OF assms(3) worker(1)]
      by (cases "wk_pc wk") (auto simp: joinable_def is_waiting_def)
  qed
qed

lemma queue_progress:
  assumes "pool_reach s" and "pl_queue s \<noteq> []" and "\<not> pl_tg_shutdown s" and "pl_workers s \<noteq> []"
    and np: "\<forall>wk \<in> set (pl_workers s). \<not> panicked (wk_pc wk)"
  shows "progress s"
proof (cases "\<exists>w < length (pl_workers s). \<not> is_waiting (pl_workers s ! w)")
  case True
  then obtain w where w: "w < length (pl_workers s)" "\<not> is_waiting (pl_workers s ! w)" by blast
  have "exit_ok s" using pool_exit.reach_inv [OF assms(1)] .
  then have "\<not> joinable (pl_workers s ! w)"
    using bspec [OF np nth_mem [OF w(1)]] nth_mem [OF w(1)] assms(3)
    by (auto simp: joinable_def exit_ok_def split: worker_pc.splits)
  then show ?thesis using worker_progress [OF assms(1) w(1)] w(2) by blast
next
  case False
  have w: "0 < length (pl_workers s)" using assms(4) by simp
  have "idle_count (pl_workers s) = 0"
    using False by (auto simp: idle_count_def sum_list_eq_0_iff is_idle_def is_waiting_def in_set_conv_nth)
  moreover have "length (pl_queue s) \<le> pl_tg_notify s + idle_count (pl_workers s)"
    using wake_okD [OF pool_wake.reach_inv [OF assms(1)] w] False w assms(3) by blast
  ultimately have "0 < pl_tg_notify s" using assms(2) by (cases "pl_queue s") auto
  then have "pool_step (GroupNotify (Some 0)) s \<noteq> None"
    using False w by (auto simp: tg_notify_one_def)
  then show ?thesis by (intro progressI [of "GroupNotify (Some 0)"]) simp_all
qed

lemma timer_progress:
  assumes "pool_reach s" and "e \<in> set (pl_timers s)" and "de_ready_time e \<le> pl_now s"
    and "\<not> pl_dtm_shutdown s"
  shows "progress s"
proof -
  have ok: "sleep_ok s" "exit_ok s"
    using pool_sleep.reach_inv [OF assms(1)] pool_exit.reach_inv [OF assms(1)] by auto
  show ?thesis
  proof (cases "timer_is_waiting (pl_timer s) \<and> 0 < pl_dtm_notify s")
    case True
    then have "pool_step TimerNotify s \<noteq> None" by (simp add: dtm_notify_one_def)
    then show ?thesis by (intro progressI [of TimerNotify]) simp_all
  next
    case False
    then have "pool_step TimerStep s \<noteq> None"
      using ok assms(2-4)
      by (cases "pl_timer s") (fastforce simp: timer_step_def sleep_ok_def exit_ok_def)+
    then show ?thesis by (intro progressI [of TimerStep]) simp_all
  qed
qed

lemma custody_progress:
  assumes "pool_reach s" and "sid \<in> custody s" and "\<not> pl_tg_shutdown s" and "pl_workers s \<noteq> []"
    and np: "\<forall>wk \<in> set (pl_workers s). \<not> panicked (wk_pc wk)"
  shows "progress s"
proof -
  consider (queue) "sid \<in> pq_sources (pl_queue s)" | (timer) "sid \<in> timer_holds (pl_timer s)"
    | (worker) wk where "wk \<in> set (pl_workers s)" "sid \<in> pc_sids (wk_pc wk)"
    | (pending) "PushSource sid \<in> pending_ops s"
    using assms(2) by (auto simp: custody_def)
  then show ?thesis
  proof cases
    case queue
    then have "pl_queue s \<noteq> []" by (auto simp: pq_sources_def)
    then show ?thesis by (rule queue_progress [OF assms(1) _ assms(3-)])
  next
    case timer
    then have "pool_step TimerStep s \<noteq> None" by (cases "pl_timer s") (auto simp: timer_step_def)
    then show ?thesis by (intro progressI [of TimerStep]) simp_all
  next
    case worker
    then obtain w where "w < length (pl_workers s)" "wk = pl_workers s ! w" by (auto simp: in_set_conv_nth)
    then show ?thesis
      using worker worker_progress [OF assms(1), of w] bspec [OF np worker(1)]
      by (cases "wk_pc wk") (auto simp: joinable_def is_waiting_def)
  next
    case pending
    then show ?thesis using pending_progress [OF assms(1) _ np] by blast
  qed
qed


lemma ready_progress:
  assumes "pool_reach s" and sid: "sid < length (pl_seqs s)"
    and "has_ready_tasks (pl_now s) (pl_seqs s ! sid)"
    and "pl_workers s \<noteq> []" and np: "\<forall>wk \<in> set (pl_workers s). \<not> panicked (wk_pc wk)"
    and "\<not> pl_tg_shutdown s" and "\<not> pl_dtm_shutdown s"
  shows "progress s"
proof -
  have cov: "seq_covered (pl_now s) (custody s) (pending_ops s) (set (pl_timers s)) sid (pl_seqs s ! sid)"
    using pool_cover.reach_inv [OF assms(1)] sid by (simp add: inv_cover_def covered_def)
  consider (imm) "si_immediate_queue (sq_inner (pl_seqs s ! sid)) \<noteq> []"
    | (due) d where "d \<in> set (si_delayed_queue (sq_inner (pl_seqs s ! sid)))" "dt_ready_time d \<le> pl_now s"
    using assms(3) heap_peek_in_set
    by (fastforce simp: has_ready_tasks_def inner_has_ready_def split: option.splits)
  then consider "sid \<in> custody s" | t where "AddSequence t sid \<in> pending_ops s"
    | e where "e \<in> set (pl_timers s)" "de_ready_time e \<le> pl_now s"
    using cov by cases (unfold seq_covered_def, blast, metis)
  then show ?thesis
  proof cases
    case 1
    then show ?thesis by (rule custody_progress [OF assms(1) _ assms(6,4) np])
  next
    case 2
    then show ?thesis by (rule pending_progress [OF assms(1) _ np])
  next
    case 3
    then show ?thesis by (rule timer_progress [OF assms(1) _ _ assms(7)])
  qed
qed

lemma pool_run_reach: "run pool_step ls (pool_new n monitored) = Some s \<Longrightarrow> pool_reach s"
  by (rule reach_init_run) (auto simp: pool_init_def)


section \<open>Properties\<close>

text \<open>
  C2. No lost wake-up and no deadlock: in a reachable state of a pool with at least one worker
  that is not shut down and none of whose workers died in a callback, if any sequence has a ready
  task (an immediate one, or a delayed one that is due) then some thread of the pool or some call
  under way can make a step.
\<close>

theorem pool_with_ready_work_never_stuck:
  assumes "pool_reach s" and "sid < length (pl_seqs s)"
    and "has_ready_tasks (pl_now s) (pl_seqs s ! sid)"
    and "pl_workers s \<noteq> []" and "\<forall>wk \<in> set (pl_workers s). \<not> panicked (wk_pc wk)"
    and "\<not> pl_tg_shutdown s" and "\<not> pl_dtm_shutdown s"
  shows "\<exists>l. internal l \<and> pool_step l s \<noteq> None"
  using ready_progress [OF assms] by (simp add: progress_def)

definition waiting_trace :: "nat label list" where
  "waiting_trace =
     [Request (CreateSequencedTaskRunner default_traits), WorkerStep 0 True, WorkerStep 1 True,
      Request (SeqPostTask 0 7), CallStep 0, CallStep 0]"

theorem pool_with_ready_work_never_stuck_witness:
  "\<exists>s :: nat pool. run pool_step waiting_trace (pool_new 2 False) = Some s \<and>
     map wk_pc (pl_workers s) = [WWaiting, WWaiting] \<and>
     has_ready_tasks (pl_now s) (pl_seqs s ! 0) \<and> (\<exists>l. internal l \<and> pool_step l s \<noteq> None)"
proof -
  have "case run pool_step waiting_trace (pool_new 2 False) of None \<Rightarrow> False
    | Some s \<Rightarrow> map wk_pc (pl_workers s) = [WWaiting, WWaiting] \<and> length (pl_seqs s) = 1 \<and>
        has_ready_tasks (pl_now s) (pl_seqs s ! 0) \<and> \<not> pl_tg_shutdown s \<and> \<not> pl_dtm_shutdown s"
    by code_simp
  then obtain s where s: "run pool_step waiting_trace (pool_new 2 False) = Some s"
      "map wk_pc (pl_workers s) = [WWaiting, WWaiting]" "length (pl_seqs s) = 1"
      "has_ready_tasks (pl_now s) (pl_seqs s ! 0)" "\<not> pl_tg_shutdown s" "\<not> pl_dtm_shutdown s"
    by (auto split: option.splits)
  have "wk_pc ` set (pl_workers s) = {WWaiting}" using arg_cong [OF s(2), of set] by simp
  then have "\<forall>wk \<in> set (pl_workers s). \<not> panicked (wk_pc wk)" by (metis imageI panicked.simps(3) singletonD)
  moreover have "pl_workers s \<noteq> []" using s(2) by auto
  ultimately have "\<exists>l. internal l \<and> pool_step l s \<noteq> None"
    using pool_with_ready_work_never_stuck [OF pool_run_reach [OF s(1)], of 0] s(3-6) by simp
  with s(1,2,4) show ?thesis by (intro exI [of _ s] conjI)
qed

text \<open>
  C6. As soon as a call of \<open>ThreadPool::shutdown\<close> has passed its wait on the tracker, and for
  ever after, every \<open>BlockShutdown\<close> task the pool accepted has finished.
\<close>

theorem shutdown_waits_for_blocking_tasks:
  assumes "pool_reach s" and "pc \<in> set (pl_shutdowns s)" and "past_wait pc"
  shows "unfinished s = 0 \<and> tr_shutdown_started (pl_tracker s)"
  using shutdown_pc_facts [OF assms(1,2)] assms(3) by (cases pc) (auto simp: shut_pc_ok_def)

definition blocking_traits :: task_traits where
  "blocking_traits = default_traits\<lparr>tt_shutdown_behavior := BlockShutdown\<rparr>"

definition shutdown_trace :: "nat label list" where
  "shutdown_trace =
     [Request (PoolPostTask blocking_traits 7), CallStep 0, CallStep 0, CallStep 0,
      WorkerStep 0 True, Shutdown, ShutdownStep 0,
      WorkerStep 0 True, WorkerStep 0 True, WorkerStep 0 True, WorkerStep 0 True, WorkerStep 0 True,
      WorkerStep 0 True, ShutdownStep 0, ShutdownStep 0, ShutdownStep 0, ShutdownStep 0,
      WorkerStep 0 True, WorkerStep 0 True, WorkerStep 0 True, WorkerStep 0 True,
      ShutdownStep 0, ShutdownStep 0, ShutdownStep 0, ShutdownStep 0, TimerStep, ShutdownStep 0]"

theorem tracker_counts_unfinished_tasks_witness:
  "\<exists>s :: nat pool. run pool_step (take 5 shutdown_trace) (pool_new 1 False) = Some s \<and>
     tr_num_blocking (pl_tracker s) = 1 \<and> tr_num_blocking (pl_tracker s) = unfinished s"
proof -
  have "case run pool_step (take 5 shutdown_trace) (pool_new 1 False) of None \<Rightarrow> False
    | Some s \<Rightarrow> tr_num_blocking (pl_tracker s) = 1"
    by code_simp
  then obtain s where s: "run pool_step (take 5 shutdown_trace) (pool_new 1 False) = Some s"
      "tr_num_blocking (pl_tracker s) = 1"
    by (auto split: option.splits)
  show ?thesis using tracker_counts_unfinished_tasks [OF pool_run_reach [OF s(1)]] s by auto
qed

theorem shutdown_waits_for_blocking_tasks_witness:
  "\<exists>s :: nat pool. run pool_step (take 14 shutdown_trace) (pool_new 1 False) = Some s \<and>
     pl_shutdowns s = [SSetFlag] \<and> unfinished s = 0 \<and> tr_shutdown_started (pl_tracker s)"
proof -
  have "case run pool_step (take 14 shutdown_trace) (pool_new 1 False) of None \<Rightarrow> False
    | Some s \<Rightarrow> pl_shutdowns s = [SSetFlag]"
    by code_simp
  then obtain s where s: "run pool_step (take 14 shutdown_trace) (pool_new 1 False) = Some s"
      "pl_shutdowns s = [SSetFlag]"
    by (auto split: option.splits)
  show ?thesis
    using shutdown_waits_for_blocking_tasks [OF pool_run_reach [OF s(1)], of SSetFlag] s by auto
qed

text \<open>
  C7. What holds once a call of \<open>shutdown\<close> has returned.  Each worker thread the pool started has
  ended, or is one another call of \<open>shutdown\<close> took the handle of and is still joining; likewise the
  timer thread, so when no other call is under way they have all ended.  No worker waits for work any
  more, threads attached by the client included, which are not joined, and one that is between two
  sources leaves at its next step.  The pool accepts no task that is not \<open>ContinueOnShutdown\<close>.
\<close>

theorem shutdown_ends_all_threads:
  assumes "pool_reach s" and "SDone \<in> set (pl_shutdowns s)"
  shows "(\<forall>h < pl_num_threads s. joinable (pl_workers s ! h) \<or> (\<exists>pc \<in> set (pl_shutdowns s). h \<in> set (joining pc))) \<and>
    (pl_timer s = TExited \<or> SDtmJoin \<in> set (pl_shutdowns s)) \<and>
    ((\<forall>pc \<in> set (pl_shutdowns s). pc = SDone) \<longrightarrow>
       (\<forall>h < pl_num_threads s. joinable (pl_workers s ! h)) \<and> pl_timer s = TExited) \<and>
    (\<forall>w < length (pl_workers s). wk_pc (pl_workers s ! w) \<noteq> WWaiting \<and>
       (wk_pc (pl_workers s ! w) = WIdle \<longrightarrow> worker_step w up s = Some (goto w WExited s))) \<and>
    (fst (will_post_task traits (pl_tracker s)) \<longleftrightarrow> tt_shutdown_behavior traits = ContinueOnShutdown)"
proof -
  note facts = returned_facts [OF assms]
  have "wk_pc (pl_workers s ! w) \<noteq> WWaiting" if "w < length (pl_workers s)" for w
    using facts(3) that by (auto simp: awake_def is_waiting_def)
  moreover have "worker_step w up s = Some (goto w WExited s)"
    if "w < length (pl_workers s)" "wk_pc (pl_workers s ! w) = WIdle" for w
    using facts(2) that by (simp add: worker_step_def get_work_def)
  moreover have "joinable (pl_workers s ! h)" if "\<forall>pc \<in> set (pl_shutdowns s). pc = SDone" "h < pl_num_threads s" for h
    using facts(4) [OF that(2)] that(1) by (metis empty_iff empty_set joining.simps(10))
  moreover have "pl_timer s = TExited" if "\<forall>pc \<in> set (pl_shutdowns s). pc = SDone"
    using facts(5) that by blast
  ultimately show ?thesis
    using facts(1,4,5) by (simp add: will_post_task_def)
qed

text \<open>
  The example: a client thread is attached; one call has taken the handle of the pool's only worker
  and joins it while the second call returns.
\<close>

definition two_shutdowns :: "nat label list" where
  "two_shutdowns = [Attach None, WorkerStep 1 True, Shutdown, Shutdown] @
     map ShutdownStep [0, 0, 0, 0, 1, 1, 1, 1, 1, 1, 1] @ [TimerStep, ShutdownStep 1]"

theorem shutdown_ends_all_threads_witness:
  "\<exists>s :: nat pool. run pool_step two_shutdowns (pool_new 1 False) = Some s \<and>
     pl_shutdowns s = [SJoin [0], SDone] \<and> \<not> joinable (pl_workers s ! 0) \<and> length (pl_workers s) = 2 \<and>
     wk_pc (pl_workers s ! 1) \<noteq> WWaiting \<and> pl_timer s = TExited \<and>
     \<not> fst (will_post_task blocking_traits (pl_tracker s))"
proof -
  have "case run pool_step two_shutdowns (pool_new 1 False) of None \<Rightarrow> False
    | Some s \<Rightarrow> pl_shutdowns s = [SJoin [0], SDone] \<and> length (pl_workers s) = 2 \<and> \<not> joinable (pl_workers s ! 0)"
    by code_simp
  then obtain s where s: "run pool_step two_shutdowns (pool_new 1 False) = Some s" "pl_shutdowns s = [SJoin [0], SDone]"
      "length (pl_workers s) = 2" "\<not> joinable (pl_workers s ! 0)"
    by (auto split: option.splits)
  show ?thesis
    using shutdown_ends_all_threads [OF pool_run_reach [OF s(1)], of True blocking_traits] s
    by (auto simp: blocking_traits_def)
qed

text \<open>
  C40. A callback that panics inside a \<open>BlockShutdown\<close> task kills its worker before
  \<open>after_run_task\<close>: from then on, whatever happens, no call of \<open>shutdown\<close> gets past its wait.
\<close>

theorem panic_in_blocking_task_hangs_shutdown:
  assumes "pool_reach s" and "w < length (pl_workers s)"
    and "wk_pc (pl_workers s ! w) = WPanicked sid ops" and "AfterRun traits \<in> set ops"
    and "tt_shutdown_behavior traits = BlockShutdown" and "run pool_step ls s = Some t"
  shows "\<forall>pc \<in> set (pl_shutdowns t). \<not> past_wait pc"
proof -
  have "blocks traits = 1" using assms(5) by (simp add: blocks_def)
  then have "0 < unfinished t"
    using panicked_unfinished panicked_stays_run [OF assms(2,3,6)] assms(4) by blast
  then show ?thesis using shutdown_pc_facts(1) [OF run_reach [OF assms(1,6)]] by force
qed

definition panic_trace :: "nat label list" where
  "panic_trace =
     [Request (PoolPostTask blocking_traits 7), CallStep 0, CallStep 0, CallStep 0,
      WorkerStep 0 True, WorkerStep 0 True, WorkerStep 0 True, WorkerStep 0 True, WorkerStep 0 True,
      WorkerPanic 0]"

theorem panic_in_blocking_task_hangs_shutdown_witness:
  "\<exists>s t :: nat pool. run pool_step panic_trace (pool_new 2 False) = Some s \<and>
     run pool_step [Shutdown, ShutdownStep 0] s = Some t \<and> pl_shutdowns t = [SWait] \<and>
     (\<forall>pc \<in> set (pl_shutdowns t). \<not> past_wait pc)"
proof -
  have "case run pool_step panic_trace (pool_new 2 False) of None \<Rightarrow> False
    | Some s \<Rightarrow> length (pl_workers s) = 2 \<and>
        wk_pc (pl_workers s ! 0) = WPanicked 0 [AfterRun blocking_traits] \<and>
        (case run pool_step [Shutdown, ShutdownStep 0] s of None \<Rightarrow> False
         | Some t \<Rightarrow> pl_shutdowns t = [SWait])"
    by code_simp
  then obtain s t where s: "run pool_step panic_trace (pool_new 2 False) = Some s"
      "length (pl_workers s) = 2" "wk_pc (pl_workers s ! 0) = WPanicked 0 [AfterRun blocking_traits]"
      "run pool_step [Shutdown, ShutdownStep 0] s = Some t" "pl_shutdowns t = [SWait]"
    by (auto split: option.splits simp del: run.simps)
  have "\<forall>pc \<in> set (pl_shutdowns t). \<not> past_wait pc"
    by (rule panic_in_blocking_task_hangs_shutdown
          [OF pool_run_reach [OF s(1)] _ s(3) _ _ s(4), where traits = blocking_traits])
       (simp_all add: s(2) blocking_traits_def)
  then show ?thesis using s(1,4,5) by blast
qed


definition runner_shutdown_trace :: "nat label list" where
  "runner_shutdown_trace =
     [Request (CreateSequencedTaskRunner blocking_traits), Request (SeqPostTask 0 7), CallStep 0,
      CallStep 0, Shutdown, ShutdownStep 0, ShutdownStep 0, ShutdownStep 0, ShutdownStep 0,
      WorkerStep 0 True, ShutdownStep 0, ShutdownStep 0, ShutdownStep 0, ShutdownStep 0, TimerStep,
      ShutdownStep 0]"

text \<open>
  The tracker does not see tasks posted through a runner: there is a run in which a task
  posted to a sequenced runner with \<open>BlockShutdown\<close> traits, before \<open>shutdown\<close> was called, is
  still queued and never started when \<open>shutdown\<close> has returned and all threads have ended.
\<close>

theorem runner_task_not_awaited_by_shutdown:
  "\<exists>s :: nat pool. run pool_step runner_shutdown_trace (pool_new 1 False) = Some s \<and>
     pl_shutdowns s = [SDone] \<and> pl_timer s = TExited \<and> map wk_pc (pl_workers s) = [WExited] \<and>
     tt_shutdown_behavior (sq_traits (pl_seqs s ! 0)) = BlockShutdown \<and>
     map tk_callback (si_immediate_queue (sq_inner (pl_seqs s ! 0))) = [Plain (User 7)]"
proof -
  have "case run pool_step runner_shutdown_trace (pool_new 1 False) of None \<Rightarrow> False
    | Some s \<Rightarrow> pl_shutdowns s = [SDone] \<and> pl_timer s = TExited \<and> map wk_pc (pl_workers s) = [WExited] \<and>
     tt_shutdown_behavior (sq_traits (pl_seqs s ! 0)) = BlockShutdown \<and>
     map tk_callback (si_immediate_queue (sq_inner (pl_seqs s ! 0))) = [Plain (User 7)]"
    by code_simp
  then show ?thesis by (auto split: option.splits)
qed

end
