(* ===== verification/Pool_Order.thy ===== *)
theory Pool_Order
  imports Pool_Shutdown
begin

text \<open>
  Ordering and identity.  Order: the tasks of a sequence start in the order in which they entered
  its immediate queue (posted, or flushed when due), none is skipped and none starts twice.
  Identity: while a worker is in a sequence its thread-local token is the token of that sequence,
  and tokens are distinct, so \<open>runs_tasks_in_current_sequence\<close> tells sequences apart.
\<close>

section \<open>The log of a sequence\<close>

fun enter_of :: "nat \<Rightarrow> 'u event \<Rightarrow> 'u task list" where
  "enter_of sid (Enter n t) = (if n = sid then [t] else [])"
| "enter_of sid _ = []"

fun start_of :: "nat \<Rightarrow> 'u event \<Rightarrow> 'u task list" where
  "start_of sid (Start n t now) = (if n = sid then [t] else [])"
| "start_of sid _ = []"

definition enters :: "nat \<Rightarrow> 'u event list \<Rightarrow> 'u task list" where
  "enters sid es = concat (map (enter_of sid) es)"

definition starts :: "nat \<Rightarrow> 'u event list \<Rightarrow> 'u task list" where
  "starts sid es = concat (map (start_of sid) es)"

definition fifo_ok :: "'u sequence list \<Rightarrow> 'u event list \<Rightarrow> bool" where
  "fifo_ok qs es \<longleftrightarrow>
     (\<forall>sid. enters sid es = starts sid es @
        (if sid < length qs then si_immediate_queue (sq_inner (qs ! sid)) else []))"

definition inv_fifo :: "'u pool \<Rightarrow> bool" where
  "inv_fifo s = fifo_ok (pl_seqs s) (pl_log s)"

lemma log_append [simp]:
  "enters sid (es @ fs) = enters sid es @ enters sid fs"
  "starts sid (es @ fs) = starts sid es @ starts sid fs"
  "enters sid [] = []" "starts sid [] = []"
  "enters sid (e # es) = enter_of sid e @ enters sid es"
  "starts sid (e # es) = start_of sid e @ starts sid es"
  by (simp_all add: enters_def starts_def)

lemma log_flushed [simp]:
  "enters sid (map (Enter n) ts) = (if n = sid then ts else [])" "starts sid (map (Enter n) ts) = []"
  by (induction ts) auto

lemma fifo_ok_seqs:
  assumes "fifo_ok qs es" and "length qs' = length qs"
    and "\<And>sid. sid < length qs \<Longrightarrow>
           si_immediate_queue (sq_inner (qs' ! sid)) = si_immediate_queue (sq_inner (qs ! sid))"
    and "\<And>sid. enters sid es' = enters sid es" and "\<And>sid. starts sid es' = starts sid es"
  shows "fifo_ok qs' es'"
  using assms by (simp add: fifo_ok_def)

lemma fifo_ok_append:
  assumes "fifo_ok qs es" and "si_immediate_queue (sq_inner q) = []"
  shows "fifo_ok (qs @ [q]) es"
  using assms by (auto simp: fifo_ok_def nth_append less_Suc_eq)

lemma fifo_ok_push_task:
  assumes "fifo_ok (pl_seqs s) (pl_log s)" and "sid < length (pl_seqs s)"
  shows "fifo_ok (pl_seqs (op_push_task sid cb s)) (pl_log (op_push_task sid cb s))"
  using assms
  by (auto simp: fifo_ok_def op_push_task_def Let_def state_defs push_task_def inner_push_task_def
      nth_list_update)

lemma fifo_ok_push_delayed:
  assumes "fifo_ok (pl_seqs s) (pl_log s)" and "sid < length (pl_seqs s)"
  shows "fifo_ok (pl_seqs (op_push_delayed sid cb t s)) (pl_log (op_push_delayed sid cb t s))"
  using assms
  by (auto simp: fifo_ok_def op_push_delayed_def Let_def state_defs push_delayed_task_def
      inner_push_delayed_task_def nth_list_update)

lemma fifo_ok_exec:
  assumes "fifo_ok (pl_seqs s) (pl_log s)" and "exec_op op s = Some (new, t)"
    and "op_ok (length (pl_seqs s)) op"
  shows "fifo_ok (pl_seqs t) (pl_log t)"
proof (cases op)
  case (NewSequence traits cb ready)
  let ?s = "s\<lparr>pl_next_token := pl_next_token s + 1,
              pl_seqs := pl_seqs s @ [sequence_new (SequenceToken (pl_next_token s)) traits]\<rparr>"
  have "fifo_ok (pl_seqs ?s) (pl_log ?s)"
    using fifo_ok_append [OF assms(1)] by (simp add: sequence_new_def)
  then show ?thesis
    using NewSequence assms(2) fifo_ok_push_task [of ?s "length (pl_seqs s)" cb]
      fifo_ok_push_delayed [of ?s "length (pl_seqs s)" cb]
    by (auto simp: alloc_sequence_def create_token_def split: option.splits)
next
  case (RunClosure c)
  then show ?thesis using assms by (cases c) auto
next
  case (RunBody b)
  then show ?thesis using assms by (cases b) auto
next
  case (PushTask sid cb)
  then show ?thesis using assms fifo_ok_push_task [OF assms(1)] by auto
next
  case (PushDelayed sid cb r)
  then show ?thesis using assms fifo_ok_push_delayed [OF assms(1)] by auto
next
  case (AfterRun traits)
  then show ?thesis using assms by (auto split: option.splits)
next
  case (WillPost traits u delay)
  then show ?thesis
    using assms by (auto simp: emit_def Let_def intro: fifo_ok_seqs [OF assms(1)] split: prod.splits)
qed (use assms in \<open>auto simp: emit_def push_task_source_def add_sequence_def
       intro: fifo_ok_seqs [OF assms(1)]\<close>)

lemma fifo_ok_take:
  assumes ok: "fifo_ok qs es" and wf: "sequence_wf (qs ! sid)" and sid: "sid < length qs"
    and t: "take_task now (qs ! sid) = (r, q)"
  shows "fifo_ok (qs[sid := q]) (es @ map (Enter sid) (flushed now (qs ! sid)) @
           (case r of None \<Rightarrow> [] | Some t \<Rightarrow> [Start sid t now]))"
proof -
  let ?q = "qs ! sid"
  obtain ds rest :: "'a delayed_task list" where f: "flush_ready_delayed_tasks now (sq_inner ?q) =
            (sq_inner ?q)\<lparr>si_delayed_queue := rest,
                  si_immediate_queue := si_immediate_queue (sq_inner ?q) @ map dt_task ds\<rparr>"
    using flush_moves_due_tasks [of "sq_inner ?q" now] wf unfolding sequence_wf_def by blast
  have fl: "flushed now ?q = map dt_task ds" by (simp add: flushed_def f)
  have "si_immediate_queue (sq_inner ?q) @ flushed now ?q =
        (case r of None \<Rightarrow> [] | Some t \<Rightarrow> [t]) @ si_immediate_queue (sq_inner q)"
    using t f unfolding fl by (auto simp: take_task_def Let_def split: list.splits)
  moreover have "enters sid es = starts sid es @ si_immediate_queue (sq_inner ?q)"
    using ok sid by (simp add: fifo_ok_def)
  ultimately show ?thesis
    using ok sid by (auto simp: fifo_ok_def nth_list_update split: option.splits)
qed

lemma inv_fifo_worker_step:
  assumes "inv_fifo s" and wf: "inv_wf s" and "worker_step w up s = Some s'"
  shows "inv_fifo s'"
proof -
  have w: "w < length (pl_workers s)" using assms(3) by (auto simp: worker_step_def split: if_splits)
  note ok = worker_pc_ok [OF wf w]
  note f = assms(1) [unfolded inv_fifo_def]
  show ?thesis
  proof (cases "wk_pc (pl_workers s ! w)")
    case (WClaimed sid)
    then have sid: "sid < length (pl_seqs s)" using ok by simp
    obtain r q where t: "take_task (pl_now s) (pl_seqs s ! sid) = (r, q)" by fastforce
    have "sequence_wf (pl_seqs s ! sid)"
      using data_ok_seq [OF inv_wf_data [OF wf] sid] by (simp add: seq_ok_def)
    from fifo_ok_take [OF f this sid t] show ?thesis
      using assms(3) w WClaimed t
      by (cases r) (auto simp: worker_step_def worker_take_def Let_def state_defs inv_fifo_def)
  next
    case (WRunning sid ops)
    show ?thesis
    proof (cases ops)
      case Nil
      then show ?thesis
        using assms(3) w WRunning f by (auto simp: worker_step_def worker_run_def state_defs inv_fifo_def)
    next
      case (Cons op rest)
      then obtain new t where e: "exec_op op s = Some (new, t)"
          and s': "s' = emit (op_events sid op) (goto w (WRunning sid (new @ rest)) t)"
        using assms(3) w WRunning by (auto simp: worker_step_def worker_run_def split: option.splits)
      have "fifo_ok (pl_seqs t) (pl_log t)" using fifo_ok_exec [OF f e] ok WRunning Cons by simp
      moreover have "enters n (op_events sid op) = []" "starts n (op_events sid op) = []" for n
        by (cases "(sid, op)" rule: op_events.cases; simp)+
      ultimately show ?thesis
        by (auto simp: s' inv_fifo_def state_defs intro: fifo_ok_seqs)
    qed
  next
    case (WGot sid)
    then show ?thesis
      using assms(3) w ok
      by (auto simp: worker_step_def worker_claim_def will_run_task_def state_defs inv_fifo_def
          nth_list_update intro!: fifo_ok_seqs [OF f] split: if_splits)
  next
    case (WDone sid)
    then show ?thesis
      using assms(3) w ok
      by (auto simp: worker_step_def worker_store_def did_process_store_def state_defs inv_fifo_def
          nth_list_update intro!: fifo_ok_seqs [OF f])
  qed (use assms(3) w f in \<open>auto simp: worker_step_def get_work_def worker_check_def
         worker_requeue_def push_task_source_def state_defs inv_fifo_def split: if_splits option.splits\<close>)
qed

lemma inv_fifo_step:
  assumes "inv_fifo s" and "inv_wf s" and "pool_step l s = Some s'"
  shows "inv_fifo s'"
proof (cases l)
  case (WorkerStep w up)
  then show ?thesis using assms(3) inv_fifo_worker_step [OF assms(1,2)] by simp
next
  case (CallStep i)
  then obtain op ops new t where i: "i < length (pl_calls s)" "pl_calls s ! i = op # ops"
      and e: "exec_op op s = Some (new, t)" and s': "s' = t\<lparr>pl_calls := (pl_calls t)[i := new @ ops]\<rparr>"
    using assms(3) by (auto simp: call_step_def split: if_splits list.splits option.splits)
  have "op_ok (length (pl_seqs s)) op"
    using assms(2) i nth_mem [OF i(1)] unfolding inv_wf_def by (metis ops_ok_simps(2))
  then show ?thesis using fifo_ok_exec [OF assms(1) [unfolded inv_fifo_def] e] by (simp add: s' inv_fifo_def)
next
  case (Request r)
  then show ?thesis
    using assms(1,3)
    by (auto simp: do_request_def create_sequenced_task_runner_def alloc_sequence_def create_token_def
        upd_seq_def inv_fifo_def set_task_runner_def sequence_new_def intro!: fifo_ok_append
        split: if_splits request.splits)
next
  case (WorkerPanic w)
  then show ?thesis
    using assms(1,3)
    by (auto simp: panic_step_def worker_panic_def state_defs inv_fifo_def
        split: if_splits worker_pc.splits list.splits op.splits)
next
  case TimerStep
  then have "timer_step s = Some s'" using assms(3) by simp
  then show ?thesis
    by (cases rule: timer_stepE) (use assms(1) in \<open>auto simp: inv_fifo_def push_task_source_def\<close>)
next
  case (ShutdownStep i)
  then obtain pc t where r: "shutdown_round (pl_shutdowns s ! i) s = Some (pc, t)"
      and s': "s' = t\<lparr>pl_shutdowns := (pl_shutdowns t)[i := pc]\<rparr>"
    using assms(3) by (auto simp: shutdown_step_def split: if_splits option.splits)
  then show ?thesis using assms(1) shutdown_round_frame [OF r] by (simp add: inv_fifo_def)
qed (use assms(1,3) in \<open>auto simp: spurious_wake_def tg_notify_one_def state_defs
       attach_current_thread_def dtm_notify_one_def timer_spurious_def inv_fifo_def
       split: if_splits option.splits\<close>)

interpretation pool_fifo: inductive_invariant pool_init pool_step "\<lambda>s. inv_wf s \<and> inv_fifo s"
proof
  show "inv_wf s \<and> inv_fifo s" if "pool_init s" for s :: "'u pool"
    using that pool_wf.inv_init [OF that]
    by (auto simp: pool_init_def pool_new_def inv_fifo_def fifo_ok_def)
  show "inv_wf t \<and> inv_fifo t" if "inv_wf s \<and> inv_fifo s" "pool_step l s = Some t"
    for s t :: "'u pool" and l
    using that inv_wf_step inv_fifo_step by blast
qed

text \<open>
  FIFO: in every reachable state, the tasks of a sequence that entered its immediate queue
  are, in the order in which they entered, the tasks that have started, in the order in which
  they started, followed by the tasks still in the queue.
\<close>

theorem sequence_tasks_start_in_fifo_order:
  assumes "pool_reach s" and "sid < length (pl_seqs s)"
  shows "enters sid (pl_log s) =
         starts sid (pl_log s) @ si_immediate_queue (sq_inner (pl_seqs s ! sid))"
proof -
  have "fifo_ok (pl_seqs s) (pl_log s)" using pool_fifo.reach_inv [OF assms(1)] by (simp add: inv_fifo_def)
  then show ?thesis using assms(2) by (simp add: fifo_ok_def)
qed

definition fifo_trace :: "nat label list" where
  "fifo_trace =
     [Request (CreateSequencedTaskRunner default_traits), Request (SeqPostDelayedTask 0 7 50),
      CallStep 0, CallStep 0, Tick 60, Request (SeqPostTask 0 8), CallStep 1, CallStep 1,
      WorkerStep 1 True, WorkerStep 1 True, WorkerStep 1 True]"

theorem sequence_tasks_start_in_fifo_order_witness:
  "\<exists>s :: nat pool. run pool_step fifo_trace (pool_new 2 False) = Some s \<and>
     map tk_callback (starts 0 (pl_log s)) = [Plain (User 8)] \<and>
     map tk_callback (si_immediate_queue (sq_inner (pl_seqs s ! 0))) = [Plain (User 7)] \<and>
     enters 0 (pl_log s) = starts 0 (pl_log s) @ si_immediate_queue (sq_inner (pl_seqs s ! 0))"
proof -
  have "case run pool_step fifo_trace (pool_new 2 False) of None \<Rightarrow> False
    | Some s \<Rightarrow> length (pl_seqs s) = 1 \<and> map tk_callback (starts 0 (pl_log s)) = [Plain (User 8)] \<and>
        map tk_callback (si_immediate_queue (sq_inner (pl_seqs s ! 0))) = [Plain (User 7)]"
    by code_simp
  then obtain s where s: "run pool_step fifo_trace (pool_new 2 False) = Some s" "length (pl_seqs s) = 1"
      "map tk_callback (starts 0 (pl_log s)) = [Plain (User 8)]"
      "map tk_callback (si_immediate_queue (sq_inner (pl_seqs s ! 0))) = [Plain (User 7)]"
    by (auto split: option.splits)
  have "enters 0 (pl_log s) = starts 0 (pl_log s) @ si_immediate_queue (sq_inner (pl_seqs s ! 0))"
    using sequence_tasks_start_in_fifo_order [OF pool_run_reach [OF s(1)], of 0] s(2) by simp
  with s(1,3,4) show ?thesis by (intro exI [of _ s] conjI)
qed

text \<open>A run in which worker 1 is in the middle of sequence 0 and worker 0 is not.\<close>

theorem sequence_never_runs_on_two_workers_witness:
  "\<exists>s :: nat pool. run pool_step fifo_trace (pool_new 2 False) = Some s \<and>
     owned (wk_pc (pl_workers s ! 1)) = Some 0 \<and> owned (wk_pc (pl_workers s ! 0)) \<noteq> Some 0"
proof -
  have "case run pool_step fifo_trace (pool_new 2 False) of None \<Rightarrow> False
    | Some s \<Rightarrow> length (pl_workers s) = 2 \<and> owned (wk_pc (pl_workers s ! 1)) = Some 0"
    by code_simp
  then obtain s where s: "run pool_step fifo_trace (pool_new 2 False) = Some s"
      "length (pl_workers s) = 2" "owned (wk_pc (pl_workers s ! 1)) = Some 0"
    by (auto split: option.splits)
  have "owned (wk_pc (pl_workers s ! 0)) \<noteq> Some 0"
    using sequence_never_runs_on_two_workers [OF pool_run_reach [OF s(1)], of 0 1 0] s(2,3) by auto
  with s(1,3) show ?thesis by (intro exI [of _ s] conjI)
qed


section \<open>Tokens and thread-locals\<close>

definition token_of :: "nat \<Rightarrow> sequence_token" where
  "token_of i = SequenceToken (of_nat (Suc i))"

definition tokens_ok :: "'u pool \<Rightarrow> bool" where
  "tokens_ok s \<longleftrightarrow>
     map sq_token (pl_seqs s) = map token_of [0..<length (pl_seqs s)] \<and>
     pl_next_token s = of_nat (Suc (length (pl_seqs s)))"

fun in_source :: "'u worker_pc \<Rightarrow> nat option" where
  "in_source (WGot sid) = Some sid"
| "in_source (WClaimed sid) = Some sid"
| "in_source (WRunning sid ops) = Some sid"
| "in_source (WDone sid) = Some sid"
| "in_source (WCleared sid) = Some sid"
| "in_source (WRequeue sid) = Some sid"
| "in_source _ = None"

definition worker_tls_ok :: "'u worker \<Rightarrow> bool" where
  "worker_tls_ok wk \<longleftrightarrow>
     token_current (wk_tls wk) = map_option token_of (in_source (wk_pc wk))"

definition inv_tls :: "'u pool \<Rightarrow> bool" where
  "inv_tls s \<longleftrightarrow> tokens_ok s \<and> (\<forall>wk \<in> set (pl_workers s). worker_tls_ok wk)"

lemma tokens_ok_same:
  assumes "tokens_ok s" and "map sq_token (pl_seqs s') = map sq_token (pl_seqs s)"
    and "pl_next_token s' = pl_next_token s"
  shows "tokens_ok s'"
proof -
  have "length (pl_seqs s') = length (pl_seqs s)" using assms(2) by (metis length_map)
  then show ?thesis using assms by (simp add: tokens_ok_def)
qed

lemma tokens_ok_append:
  assumes "tokens_ok s" and "map sq_token (pl_seqs s') = map sq_token (pl_seqs s) @ [SequenceToken (pl_next_token s)]"
    and "pl_next_token s' = pl_next_token s + 1"
  shows "tokens_ok s'"
proof -
  have "length (pl_seqs s') = Suc (length (pl_seqs s))" using arg_cong [OF assms(2), of length] by simp
  then show ?thesis using assms by (simp add: tokens_ok_def token_of_def)
qed

lemma tokens_ok_exec:
  assumes "tokens_ok s" and "exec_op op s = Some (new, t)"
  shows "tokens_ok t"
proof (cases "\<exists>traits cb ready. op = NewSequence traits cb ready")
  case True
  then show ?thesis
    using assms(2)
    by (auto simp: post_defs state_defs Let_def update_same_field nth_append sequence_new_def
        intro!: tokens_ok_append [OF assms(1)] split: option.splits)
next
  case False
  then show ?thesis
    using assms(2)
    by (cases "(op, s)" rule: exec_op.cases)
       (auto simp: post_defs state_defs Let_def update_same_field
         intro!: tokens_ok_same [OF assms(1)] split: option.splits prod.splits)
qed

lemma leave_source_token [simp]: "token_current (wk_tls (leave_source pc wk)) = None"
  by (auto simp: leave_source_def scoped_token_drop_def token_set_current_def token_current_def
      split: option.splits)

lemma enter_source_token:
  "token_current (wk_tls (enter_source up sid s wk)) = Some (sq_token (pl_seqs s ! sid))"
proof -
  have "tl_sequence_token (snd (default_handle_new r th)) = tl_sequence_token th" for r and th :: "nat thread_locals"
    by (simp add: default_handle_new_def)
  then show ?thesis
    by (auto simp: enter_source_def Let_def get_execution_environment_def scoped_token_new_def
        token_set_current_def token_current_def default_handle_new_def split: option.splits prod.splits)
qed

lemma token_nth: "tokens_ok s \<Longrightarrow> sid < length (pl_seqs s) \<Longrightarrow> sq_token (pl_seqs s ! sid) = token_of sid"
  unfolding tokens_ok_def by (metis add.left_neutral length_map length_upt minus_nat.diff_0 nth_map nth_upt)

text \<open>A worker keeps its thread-locals as long as it stays in its source.\<close>

lemma inv_tls_move:
  assumes "inv_tls s" and "tokens_ok s'" and "pl_workers s' = (pl_workers s)[w := wk]"
    and "worker_tls_ok wk"
  shows "inv_tls s'"
  using assms by (auto simp: inv_tls_def dest!: set_updateD)

lemma worker_tls_nth: "inv_tls s \<Longrightarrow> w < length (pl_workers s) \<Longrightarrow> worker_tls_ok (pl_workers s ! w)"
  by (simp add: inv_tls_def)

lemma inv_tls_worker_step:
  assumes "inv_tls s" and wf: "inv_wf s" and "worker_step w up s = Some s'"
  shows "inv_tls s'"
proof -
  have w: "w < length (pl_workers s)" using assms(3) by (auto simp: worker_step_def split: if_splits)
  note ok = worker_pc_ok [OF wf w]
  have tok: "tokens_ok s" using assms(1) by (simp add: inv_tls_def)
  note tls = worker_tls_nth [OF assms(1) w, unfolded worker_tls_ok_def]
  note same = tokens_ok_same [OF tok]
  show ?thesis
  proof (cases "wk_pc (pl_workers s ! w)")
    case WIdle
    show ?thesis
    proof (cases "pl_tg_shutdown s \<or> pq_pop (pl_queue s) = None")
      case True
      then have "s' = goto w (if pl_tg_shutdown s then WExited else WWaiting) s"
        using assms(3) w WIdle by (auto simp: worker_step_def get_work_def)
      then show ?thesis
        using WIdle tls
        by (auto simp: state_defs worker_tls_ok_def intro!: inv_tls_move [OF assms(1)] same)
    next
      case False
      then obtain sid h where p: "pq_pop (pl_queue s) = Some (sid, h)" by auto
      then have "sid < length (pl_seqs s)"
        using pq_pop_facts(1) [OF p] inv_wf_data [OF wf] by (auto simp: data_ok_def)
      then have "worker_tls_ok (enter_source up sid s (pl_workers s ! w))"
        using token_nth [OF tok] by (simp add: worker_tls_ok_def enter_source_token)
      then show ?thesis
        using assms(3) w WIdle p False
        by (auto simp: worker_step_def get_work_def state_defs intro!: inv_tls_move [OF assms(1)] same)
    qed
  next
    case (WGot sid)
    then show ?thesis
      using assms(3) w tls
      by (auto simp: worker_step_def worker_claim_def will_run_task_def state_defs worker_tls_ok_def
          update_same_field intro!: inv_tls_move [OF assms(1)] same split: if_splits)
  next
    case (WClaimed sid)
    obtain r q where t: "take_task (pl_now s) (pl_seqs s ! sid) = (r, q)" by fastforce
    then show ?thesis
      using assms(3) w WClaimed tls take_task_frame [OF t]
      by (cases r) (auto simp: worker_step_def worker_take_def Let_def state_defs worker_tls_ok_def
          update_same_field intro!: inv_tls_move [OF assms(1)] same)
  next
    case (WRunning sid ops)
    show ?thesis
    proof (cases ops)
      case Nil
      then show ?thesis
        using assms(3) w WRunning tls
        by (auto simp: worker_step_def worker_run_def state_defs worker_tls_ok_def
            intro!: inv_tls_move [OF assms(1)] same)
    next
      case (Cons op rest)
      then obtain new t where e: "exec_op op s = Some (new, t)"
          and s': "s' = emit (op_events sid op) (goto w (WRunning sid (new @ rest)) t)"
        using assms(3) w WRunning by (auto simp: worker_step_def worker_run_def split: option.splits)
      show ?thesis
        using tokens_ok_exec [OF tok e] exec_op_frame(1) [OF e] tls WRunning
        by (intro inv_tls_move [OF assms(1), where w = w
              and wk = "(pl_workers s ! w)\<lparr>wk_pc := WRunning sid (new @ rest)\<rparr>"])
           (auto simp: s' state_defs worker_tls_ok_def tokens_ok_def)
    qed
  next
    case (WDone sid)
    then show ?thesis
      using assms(3) w tls
      by (auto simp: worker_step_def worker_store_def did_process_store_def state_defs worker_tls_ok_def
          update_same_field intro!: inv_tls_move [OF assms(1)] same)
  qed (use assms(3) w tls in \<open>auto simp: worker_step_def worker_check_def worker_requeue_def
         push_task_source_def state_defs worker_tls_ok_def intro!: inv_tls_move [OF assms(1)] same
         split: if_splits\<close>)
qed

lemma inv_tls_step:
  assumes "inv_tls s" and "inv_wf s" and "pool_step l s = Some s'"
  shows "inv_tls s'"
proof (cases l)
  case (WorkerStep w up)
  then show ?thesis using assms(3) inv_tls_worker_step [OF assms(1,2)] by simp
next
  case (CallStep i)
  then obtain op ops new t where e: "exec_op op s = Some (new, t)"
      and s': "s' = t\<lparr>pl_calls := (pl_calls t)[i := new @ ops]\<rparr>"
    using assms(3) by (auto simp: call_step_def split: if_splits list.splits option.splits)
  have "tokens_ok t" using tokens_ok_exec [OF _ e] assms(1) by (simp add: inv_tls_def)
  then show ?thesis
    using assms(1) exec_op_frame(1) [OF e] by (simp add: s' inv_tls_def tokens_ok_def)
next
  case (Request r)
  have tok: "tokens_ok s" using assms(1) by (simp add: inv_tls_def)
  have "tokens_ok s'" "pl_workers s' = pl_workers s"
    using assms(3) Request
    by (auto simp: do_request_def create_sequenced_task_runner_def alloc_sequence_def create_token_def
        upd_seq_def set_task_runner_def sequence_new_def intro: tokens_ok_append [OF tok]
        tokens_ok_same [OF tok] split: if_splits request.splits)
  then show ?thesis using assms(1) by (simp add: inv_tls_def)
next
  case (WorkerPanic w)
  then show ?thesis
    using assms(1,3)
    by (auto simp: panic_step_def worker_panic_def state_defs worker_tls_ok_def inv_tls_def
        intro!: inv_tls_move [OF assms(1), where w = w] dest!: set_updateD
        elim: tokens_ok_same
        split: if_splits worker_pc.splits list.splits op.splits)
next
  case TimerStep
  then have "timer_step s = Some s'" using assms(3) by simp
  then show ?thesis
    by (cases rule: timer_stepE)
       (use assms(1) in \<open>auto simp: inv_tls_def tokens_ok_def push_task_source_def\<close>)
next
  case (ShutdownStep i)
  then obtain pc t where r: "shutdown_round (pl_shutdowns s ! i) s = Some (pc, t)"
      and s': "s' = t\<lparr>pl_shutdowns := (pl_shutdowns t)[i := pc]\<rparr>"
    using assms(3) by (auto simp: shutdown_step_def split: if_splits option.splits)
  have "pl_next_token t = pl_next_token s"
    using r by (cases "(pl_shutdowns s ! i, s)" rule: shutdown_round.cases)
      (auto simp: shutdown_begin_def split: if_splits)
  moreover have "\<forall>wk \<in> set (pl_workers t). worker_tls_ok wk"
    using shutdown_round_frame(10) [OF r] assms(1)
    by (auto simp: inv_tls_def worker_tls_ok_def is_waiting_def)
  ultimately show ?thesis
    using assms(1) shutdown_round_frame(1) [OF r] by (simp add: s' inv_tls_def tokens_ok_def)
next
  case (GroupNotify target)
  then show ?thesis
    using assms(1,3)
    by (auto simp: tg_notify_one_def state_defs is_waiting_def worker_tls_ok_def inv_tls_def tokens_ok_def
        dest!: set_updateD split: if_splits option.splits)
next
  case (GroupSpurious w)
  then show ?thesis
    using assms(1,3)
    by (auto simp: spurious_wake_def state_defs is_waiting_def worker_tls_ok_def inv_tls_def tokens_ok_def
        dest!: set_updateD split: if_splits)
qed (use assms(1,3) in \<open>auto simp: attach_current_thread_def worker_new_def fresh_thread_def
       token_current_def worker_tls_ok_def dtm_notify_one_def timer_spurious_def inv_tls_def
       tokens_ok_def split: if_splits option.splits\<close>)

interpretation pool_tls: inductive_invariant pool_init pool_step "\<lambda>s. inv_wf s \<and> inv_tls s"
proof
  show "inv_wf s \<and> inv_tls s" if "pool_init s" for s :: "'u pool"
    using that pool_wf.inv_init [OF that]
    by (auto simp: pool_init_def pool_new_def inv_tls_def tokens_ok_def worker_tls_ok_def worker_new_def
        fresh_thread_def token_current_def initial_sequence_id_def)
  show "inv_wf t \<and> inv_tls t" if "inv_wf s \<and> inv_tls s" "pool_step l s = Some t"
    for s t :: "'u pool" and l
    using that inv_wf_step inv_tls_step by blast
qed

lemma token_of_inj:
  assumes "token_of i = token_of j" and "Suc i < 2 ^ 64" and "Suc j < 2 ^ 64"
  shows "i = j"
proof -
  have "unat (of_nat (Suc i) :: u64) = unat (of_nat (Suc j) :: u64)"
    using assms(1) unfolding token_of_def by (simp only: sequence_token.inject)
  then show ?thesis
    unfolding unat_of_nat_small [OF assms(2)] unat_of_nat_small [OF assms(3)] by simp
qed

text \<open>
  On a worker that is executing a task of sequence \<open>sid\<close>, the runner of \<open>sid\<close> says that it
  runs tasks in the current sequence and no other runner does, as long as fewer than 2^64 - 1
  sequences were created in the process.
\<close>

theorem runs_tasks_in_current_sequence_exact:
  assumes "pool_reach s" and "w < length (pl_workers s)"
    and "wk_pc (pl_workers s ! w) = WRunning sid ops" and "sid' < length (pl_seqs s)"
    and "Suc (length (pl_seqs s)) < 2 ^ 64"
  shows "runs_tasks_in_current_sequence s sid' (pl_workers s ! w) \<longleftrightarrow> sid' = sid"
proof -
  have inv: "inv_wf s" "inv_tls s" using pool_tls.reach_inv [OF assms(1)] by auto
  have sid: "sid < length (pl_seqs s)" using worker_pc_ok [OF inv(1) assms(2)] assms(3) by simp
  have "token_current (wk_tls (pl_workers s ! w)) = Some (token_of sid)"
    using worker_tls_nth [OF inv(2) assms(2)] assms(3) by (simp add: worker_tls_ok_def)
  moreover have "sq_token (pl_seqs s ! sid') = token_of sid'"
    using token_nth [OF _ assms(4)] inv(2) by (simp add: inv_tls_def)
  ultimately show ?thesis
    using token_of_inj [of sid sid'] assms(4,5) sid
    by (auto simp: runs_tasks_in_current_sequence_def)
qed

definition two_runner_trace :: "nat label list" where
  "two_runner_trace = Request (CreateSequencedTaskRunner default_traits) #
     take 1 fifo_trace @ [Request (SeqPostTask 1 9), CallStep 0, CallStep 0, WorkerStep 0 True,
       WorkerStep 0 True, WorkerStep 0 True]"

theorem runs_tasks_in_current_sequence_exact_witness:
  "\<exists>s :: nat pool. run pool_step two_runner_trace (pool_new 1 False) = Some s \<and>
     runs_tasks_in_current_sequence s 1 (pl_workers s ! 0) \<and>
     \<not> runs_tasks_in_current_sequence s 0 (pl_workers s ! 0)"
proof -
  have "case run pool_step two_runner_trace (pool_new 1 False) of None \<Rightarrow> False
    | Some s \<Rightarrow> length (pl_workers s) = 1 \<and> length (pl_seqs s) = 2 \<and>
        wk_pc (pl_workers s ! 0) = WRunning 1 [RunClosure (Plain (User 9))]"
    by code_simp
  then obtain s where s: "run pool_step two_runner_trace (pool_new 1 False) = Some s"
      "length (pl_workers s) = 1" "length (pl_seqs s) = 2"
      "wk_pc (pl_workers s ! 0) = WRunning 1 [RunClosure (Plain (User 9))]"
    by (auto split: option.splits)
  have "runs_tasks_in_current_sequence s sid (pl_workers s ! 0) \<longleftrightarrow> sid = 1" if "sid < 2" for sid
    using runs_tasks_in_current_sequence_exact [OF pool_run_reach [OF s(1)] _ s(4), of sid] that s(2,3)
    by simp
  from this [of 0] this [of 1] s(1) show ?thesis by (intro exI [of _ s]) simp
qed

end
