(* ===== verification/Epoll_Pump_Model.thy ===== *)
theory Epoll_Pump_Model
  imports Prelude
begin

unbundle bit_operations_syntax

text \<open>
  \<open>message_pump.rs\<close> and \<open>epoll_pump.rs\<close>: the watch table of \<open>EpollMessagePump\<close>, the RAII
  \<open>FdWatchController\<close>, and the dispatch of one epoll event.  The interest list of the epoll
  instance is part of the state (\<open>pu_interest\<close>, the event mask of every added descriptor) and
  follows \<open>epoll_ctl\<close>: ADD of a member fails with \<open>EEXIST\<close>, MOD and DEL need a member.  Which
  descriptors are open, so that the kernel accepts them, is the argument \<open>valid\<close>.  A watcher is a
  number; whether its \<open>Weak\<close> still upgrades is the parameter \<open>alive\<close>.

  \<open>register_fd\<close>, \<open>unregister_fd\<close> and \<open>dispatch_event\<close> are each one function here.  The code makes its
  system calls and takes the lock of the table one after the other; \<open>Pump_Threads\<close> runs those steps
  interleaved with other threads and with closes, and shows that undisturbed they are these functions.
\<close>

section \<open>State\<close>

datatype watch_mode = WatchRead | WatchWrite | WatchReadWrite

record watch_entry =
  we_watcher :: nat
  we_persistent :: bool
  we_mode :: watch_mode
  we_generation :: u64

record pump =
  pu_watches :: "raw_fd \<rightharpoonup> watch_entry"
  pu_interest :: "raw_fd \<rightharpoonup> 32 word"
  pu_generation :: u64
  pu_quit :: bool
  pu_wake :: nat

definition EPOLLIN :: "32 word" where "EPOLLIN = 1"
definition EPOLLOUT :: "32 word" where "EPOLLOUT = 4"
definition EPOLLERR :: "32 word" where "EPOLLERR = 8"
definition EPOLLHUP :: "32 word" where "EPOLLHUP = 16"

lemmas epoll_bits = EPOLLIN_def EPOLLOUT_def EPOLLERR_def EPOLLHUP_def

fun mode_to_epoll_events :: "watch_mode \<Rightarrow> 32 word" where
  "mode_to_epoll_events WatchRead = EPOLLIN"
| "mode_to_epoll_events WatchWrite = EPOLLOUT"
| "mode_to_epoll_events WatchReadWrite = EPOLLIN OR EPOLLOUT"

definition pump_new :: pump where
  "pump_new = \<lparr>pu_watches = Map.empty, pu_interest = Map.empty, pu_generation = 0, pu_quit = False,
     pu_wake = 0\<rparr>"

section \<open>\<open>epoll_ctl\<close>\<close>

datatype errno = EEXIST | ENOENT | EBADF

definition epoll_ctl_add ::
    "(raw_fd \<Rightarrow> bool) \<Rightarrow> raw_fd \<Rightarrow> 32 word \<Rightarrow> (raw_fd \<rightharpoonup> 32 word) \<Rightarrow> errno + (raw_fd \<rightharpoonup> 32 word)" where
  "epoll_ctl_add valid fd ev m =
     (if \<not> valid fd then Inl EBADF else if m fd \<noteq> None then Inl EEXIST else Inr (m(fd \<mapsto> ev)))"

definition epoll_ctl_mod ::
    "(raw_fd \<Rightarrow> bool) \<Rightarrow> raw_fd \<Rightarrow> 32 word \<Rightarrow> (raw_fd \<rightharpoonup> 32 word) \<Rightarrow> errno + (raw_fd \<rightharpoonup> 32 word)" where
  "epoll_ctl_mod valid fd ev m =
     (if \<not> valid fd then Inl EBADF else if m fd = None then Inl ENOENT else Inr (m(fd \<mapsto> ev)))"

definition epoll_ctl_del :: "raw_fd \<Rightarrow> (raw_fd \<rightharpoonup> 32 word) \<Rightarrow> (raw_fd \<rightharpoonup> 32 word)" where
  "epoll_ctl_del fd m = m(fd := None)"

section \<open>Operations of the pump\<close>

definition schedule_work :: "pump \<Rightarrow> pump" where
  "schedule_work p = p\<lparr>pu_wake := pu_wake p + 1\<rparr>"

definition pump_quit :: "pump \<Rightarrow> pump" where
  "pump_quit p = schedule_work (p\<lparr>pu_quit := True\<rparr>)"

definition register_fd ::
    "(raw_fd \<Rightarrow> bool) \<Rightarrow> raw_fd \<Rightarrow> bool \<Rightarrow> watch_mode \<Rightarrow> nat \<Rightarrow> pump \<Rightarrow> u64 option \<times> pump" where
  "register_fd valid fd persistent mode watcher p =
     (let generation = pu_generation p;
          p1 = p\<lparr>pu_generation := generation + 1\<rparr>;
          ev = mode_to_epoll_events mode;
          entry = \<lparr>we_watcher = watcher, we_persistent = persistent, we_mode = mode,
                   we_generation = generation\<rparr>;
          insert = (\<lambda>m. (Some generation,
                         p1\<lparr>pu_interest := m, pu_watches := (pu_watches p1)(fd \<mapsto> entry)\<rparr>))
      in case epoll_ctl_add valid fd ev (pu_interest p1) of
           Inr m \<Rightarrow> insert m
         | Inl EEXIST \<Rightarrow> (case epoll_ctl_mod valid fd ev (pu_interest p1) of
                            Inr m \<Rightarrow> insert m
                          | Inl _ \<Rightarrow> (None, p1))
         | Inl _ \<Rightarrow> (None, p1))"

definition unregister_fd :: "raw_fd \<Rightarrow> u64 \<Rightarrow> pump \<Rightarrow> bool \<times> pump" where
  "unregister_fd fd generation p =
     (case pu_watches p fd of
        Some e \<Rightarrow>
          if we_generation e = generation
          then (True, p\<lparr>pu_watches := (pu_watches p)(fd := None),
                        pu_interest := epoll_ctl_del fd (pu_interest p)\<rparr>)
          else (False, p)
      | None \<Rightarrow> (False, p))"

text \<open>The timeout passed to \<open>epoll_wait\<close>, in milliseconds; \<open>-1\<close> waits for ever.\<close>

definition timeout_ms :: "instant \<Rightarrow> instant option \<Rightarrow> int" where
  "timeout_ms now next_deadline =
     (case next_deadline of
        None \<Rightarrow> -1
      | Some deadline \<Rightarrow>
          if deadline \<le> now then 0
          else int (min ((deadline - now) div 1000000) (2 ^ 31 - 1)))"

text \<open>The callbacks one event causes.\<close>

datatype fd_callback = CanRead nat raw_fd | CanWrite nat raw_fd

definition entry_reads :: "watch_mode \<Rightarrow> bool" where
  "entry_reads mode \<longleftrightarrow> mode = WatchRead \<or> mode = WatchReadWrite"

definition entry_writes :: "watch_mode \<Rightarrow> bool" where
  "entry_writes mode \<longleftrightarrow> mode = WatchWrite \<or> mode = WatchReadWrite"

definition dispatch_event ::
    "(nat \<Rightarrow> bool) \<Rightarrow> raw_fd \<Rightarrow> 32 word \<Rightarrow> pump \<Rightarrow> fd_callback list \<times> pump" where
  "dispatch_event alive fd ev_flags p =
     (case pu_watches p fd of
        None \<Rightarrow> ([], p)
      | Some entry \<Rightarrow>
          let errored = (ev_flags AND (EPOLLERR OR EPOLLHUP)) \<noteq> 0;
              can_read = ((ev_flags AND EPOLLIN) \<noteq> 0 \<or> errored) \<and> entry_reads (we_mode entry);
              can_write = ((ev_flags AND EPOLLOUT) \<noteq> 0 \<or> errored) \<and> entry_writes (we_mode entry);
              p' = (if we_persistent entry then p
                    else p\<lparr>pu_watches := (pu_watches p)(fd := None),
                           pu_interest := epoll_ctl_del fd (pu_interest p)\<rparr>);
              w = we_watcher entry
          in (if alive w
              then (if can_read then [CanRead w fd] else []) @ (if can_write then [CanWrite w fd] else [])
              else [], p'))"

section \<open>The watch controller\<close>

record controller =
  ct_attached :: bool
  ct_fd :: raw_fd
  ct_generation :: u64

definition controller_new :: controller where
  "controller_new = \<lparr>ct_attached = False, ct_fd = -1, ct_generation = 0\<rparr>"

definition controller_attach :: "raw_fd \<Rightarrow> u64 \<Rightarrow> controller \<Rightarrow> controller" where
  "controller_attach fd generation c = c\<lparr>ct_attached := True, ct_fd := fd, ct_generation := generation\<rparr>"

definition stop_watching_file_descriptor :: "controller \<Rightarrow> pump \<Rightarrow> bool \<times> controller \<times> pump" where
  "stop_watching_file_descriptor c p =
     (if ct_attached c
      then case unregister_fd (ct_fd c) (ct_generation c) p of
             (removed, p') \<Rightarrow> (removed, c\<lparr>ct_attached := False\<rparr>, p')
      else (False, c, p))"

definition is_watching :: "controller \<Rightarrow> bool" where
  "is_watching c = ct_attached c"

definition controller_drop :: "controller \<Rightarrow> pump \<Rightarrow> pump" where
  "controller_drop c p = snd (snd (stop_watching_file_descriptor c p))"

text \<open>\<open>IoTaskRunner::watch_file_descriptor\<close>.\<close>

definition watch_file_descriptor ::
    "(raw_fd \<Rightarrow> bool) \<Rightarrow> raw_fd \<Rightarrow> bool \<Rightarrow> watch_mode \<Rightarrow> nat \<Rightarrow> controller \<Rightarrow> pump
     \<Rightarrow> bool \<times> controller \<times> pump" where
  "watch_file_descriptor valid fd persistent mode watcher c p =
     (case stop_watching_file_descriptor c p of
        (_, c1, p1) \<Rightarrow>
          (case register_fd valid fd persistent mode watcher p1 of
             (Some generation, p2) \<Rightarrow> (True, controller_attach fd generation c1, p2)
           | (None, p2) \<Rightarrow> (False, c1, p2)))"

section \<open>The table and the interest list agree\<close>

definition pump_ok :: "pump \<Rightarrow> bool" where
  "pump_ok p \<longleftrightarrow> pu_interest p = (\<lambda>fd. map_option (\<lambda>e. mode_to_epoll_events (we_mode e)) (pu_watches p fd))"

lemma pump_ok_new [simp]: "pump_ok pump_new"
  by (simp add: pump_ok_def pump_new_def fun_eq_iff)

lemma pump_ok_register:
  assumes "pump_ok p"
  shows "pump_ok (snd (register_fd valid fd persistent mode w p))"
  using assms
  by (auto simp: pump_ok_def register_fd_def Let_def epoll_ctl_add_def epoll_ctl_mod_def fun_eq_iff)

lemma register_result:
  assumes "pump_ok p"
  shows "fst (register_fd valid fd persistent mode w p) = (if valid fd then Some (pu_generation p) else None)"
    and "valid fd \<Longrightarrow> pu_watches (snd (register_fd valid fd persistent mode w p)) =
      (pu_watches p)(fd \<mapsto> \<lparr>we_watcher = w, we_persistent = persistent, we_mode = mode,
                            we_generation = pu_generation p\<rparr>)"
    and "\<not> valid fd \<Longrightarrow> pu_watches (snd (register_fd valid fd persistent mode w p)) = pu_watches p"
    and "pu_generation (snd (register_fd valid fd persistent mode w p)) = pu_generation p + 1"
  by (auto simp: register_fd_def Let_def epoll_ctl_add_def epoll_ctl_mod_def)

lemma pump_ok_unregister: "pump_ok p \<Longrightarrow> pump_ok (snd (unregister_fd fd g p))"
  by (auto simp: pump_ok_def unregister_fd_def epoll_ctl_del_def fun_eq_iff split: option.splits)

lemma pump_ok_dispatch: "pump_ok p \<Longrightarrow> pump_ok (snd (dispatch_event alive fd ev p))"
  by (auto simp: pump_ok_def dispatch_event_def epoll_ctl_del_def fun_eq_iff Let_def split: option.splits)

lemma pump_ok_stop: "pump_ok p \<Longrightarrow> pump_ok (snd (snd (stop_watching_file_descriptor c p)))"
  using pump_ok_unregister [of p "ct_fd c" "ct_generation c"]
  by (auto simp: stop_watching_file_descriptor_def split: prod.splits)

lemma timeout_ms_before:
  assumes "now \<le> d"
  shows "int now + timeout_ms now (Some d) * 1000000 \<le> int d"
proof -
  have "min ((d - now) div 1000000) (2 ^ 31 - 1) * 1000000 \<le> d - now"
    using div_times_less_eq_dividend [of "d - now" 1000000]
    by (meson le_trans min.cobounded1 mult_le_mono1)
  then show ?thesis using assms by (simp add: timeout_ms_def) linarith
qed

lemma timeout_ms_after:
  assumes "timeout_ms now (Some d) < 2 ^ 31 - 1"
  shows "int d < int now + (timeout_ms now (Some d) + 1) * 1000000"
proof (cases "d \<le> now")
  case True
  then show ?thesis by (simp add: timeout_ms_def)
next
  case False
  then have "(d - now) div 1000000 < 2 ^ 31 - 1" using assms by (simp add: timeout_ms_def)
  moreover define k where "k = (d - now) div 1000000"
  ultimately have "timeout_ms now (Some d) = int k"
    using False by (simp add: timeout_ms_def)
  moreover have "d - now < (k + 1) * 1000000"
    using dividend_less_div_times [of 1000000 "d - now"] by (simp add: k_def algebra_simps)
  ultimately show ?thesis using False by auto
qed

section \<open>Properties\<close>

text \<open>
  An error or hang-up wakes every watched direction even when the kernel reports neither
  \<open>EPOLLIN\<close> nor \<open>EPOLLOUT\<close>, and a one-shot watch is gone afterwards, so it fires once.
\<close>

theorem error_event_wakes_watched_directions:
  assumes "pu_watches p fd = Some e" and "alive (we_watcher e)"
    and "ev AND (EPOLLERR OR EPOLLHUP) \<noteq> 0"
  shows "fst (dispatch_event alive fd ev p) =
           (case we_mode e of
              WatchRead \<Rightarrow> [CanRead (we_watcher e) fd]
            | WatchWrite \<Rightarrow> [CanWrite (we_watcher e) fd]
            | WatchReadWrite \<Rightarrow> [CanRead (we_watcher e) fd, CanWrite (we_watcher e) fd]) \<and>
         (\<not> we_persistent e \<longrightarrow>
            fst (dispatch_event alive fd ev' (snd (dispatch_event alive fd ev p))) = [])"
  using assms
  by (cases "we_mode e")
     (auto simp: dispatch_event_def Let_def entry_reads_def entry_writes_def)

theorem error_event_wakes_watched_directions_witness:
  "fst (dispatch_event (\<lambda>_. True) 5 EPOLLHUP (snd (register_fd (\<lambda>_. True) 5 False WatchWrite 7 pump_new)))
     = [CanWrite 7 5]"
proof -
  let ?p = "snd (register_fd (\<lambda>_. True) 5 False WatchWrite 7 pump_new)"
  have e: "pu_watches ?p 5 = Some \<lparr>we_watcher = 7, we_persistent = False, we_mode = WatchWrite, we_generation = 0\<rparr>"
    by (simp add: register_fd_def pump_new_def Let_def epoll_ctl_add_def)
  have "EPOLLHUP AND (EPOLLERR OR EPOLLHUP) \<noteq> 0" by code_simp
  from error_event_wakes_watched_directions [where alive = "\<lambda>_. True", OF e _ this] show ?thesis by simp
qed

text \<open>
  The pump holds one watch per descriptor: registering a write watch for a descriptor that
  another controller watches for reading silently discards the read watch, and a later
  \<open>EPOLLIN\<close> reaches nobody.
\<close>

lemma second_watch_discards_first:
  assumes "pump_ok p" and "valid fd"
    and "register_fd valid fd False WatchRead reader p = (Some g, p1)"
    and "register_fd valid fd False WatchWrite writer p1 = (Some g', p2)"
  shows "fst (dispatch_event alive fd EPOLLIN p2) = [] \<and>
         pu_interest p2 fd = Some EPOLLOUT"
proof -
  have ok1: "pump_ok p1" using pump_ok_register [OF assms(1), of valid fd False WatchRead reader] assms(3) by simp
  have ok2: "pump_ok p2" using pump_ok_register [OF ok1, of valid fd False WatchWrite writer] assms(4) by simp
  have w: "pu_watches p2 fd = Some \<lparr>we_watcher = writer, we_persistent = False, we_mode = WatchWrite,
      we_generation = pu_generation p1\<rparr>"
    using register_result(2) [OF ok1, of valid fd False WatchWrite writer] assms(2,4) by simp
  have "EPOLLIN AND EPOLLOUT = 0" "EPOLLIN AND (EPOLLERR OR EPOLLHUP) = 0" by code_simp+
  then show ?thesis
    using w ok2 by (simp add: dispatch_event_def Let_def entry_reads_def entry_writes_def pump_ok_def)
qed

text \<open>
  The \<open>epoll_wait\<close> timeout: it fits in an \<open>i32\<close>, is \<open>-1\<close> only when there is no deadline,
  never makes the loop sleep past the deadline, and unless it is capped at \<open>i32::MAX\<close> the loop
  wakes less than a millisecond before it.
\<close>

theorem timeout_ms_correct:
  "timeout_ms now None = -1 \<and>
   0 \<le> timeout_ms now (Some d) \<and> timeout_ms now (Some d) \<le> 2 ^ 31 - 1 \<and>
   (now \<le> d \<longrightarrow> int now + timeout_ms now (Some d) * 1000000 \<le> int d) \<and>
   (timeout_ms now (Some d) < 2 ^ 31 - 1 \<longrightarrow> int d < int now + (timeout_ms now (Some d) + 1) * 1000000)"
  using timeout_ms_before [of now d] timeout_ms_after [of now d] by (auto simp: timeout_ms_def)

theorem timeout_ms_correct_witness:
  "timeout_ms 5000000 (Some 8500000) = 3 \<and> int 5000000 + timeout_ms 5000000 (Some 8500000) * 1000000 \<le> int 8500000"
  using timeout_ms_correct [of 5000000 8500000] by (simp add: timeout_ms_def)

end
