(* ===== verification/Pump_Threads.thy ===== *)
theory Pump_Threads
  imports Epoll_Pump_Model
begin

text \<open>
  The pump of \<open>epoll_pump.rs\<close> with its system calls and lock regions as separate steps.  \<open>register_fd\<close>
  runs on the IO thread (\<open>message_pump.rs\<close>: ``IO thread only''): it takes a generation, calls
  \<open>epoll_ctl\<close> with ADD, after \<open>EEXIST\<close> again with MOD, and only then locks the table and inserts.
  \<open>unregister_fd\<close> is called on any thread: under the lock of the table it removes the entry and then
  calls \<open>epoll_ctl\<close> with DEL, as the dispatch of a one-shot event does on the IO thread.  Between any two
  of these steps other threads run, and descriptors are opened and closed.

  Closing a descriptor takes it out of the interest list: the kernel does so when the last descriptor
  of the open file is closed, and the repository duplicates none.
\<close>

section \<open>State and steps\<close>

datatype register_phase = CtlAdd | CtlMod | Insert

record register_call =
  rc_fd :: raw_fd
  rc_entry :: watch_entry
  rc_number :: nat
  rc_phase :: register_phase

text \<open>
  \<open>ps_call\<close> is the call of \<open>register_fd\<close> under way and \<open>ps_del\<close> the descriptor whose entry was removed under
  the lock, which is still held, and whose DEL is due (with whether the IO thread holds the lock).
  The last three fields record the run: the descriptor and the generation of every registration,
  which registration inserted the entry now in the table, and which descriptors left the interest
  list, by a close or by the DEL of an older watch, after the last \<open>epoll_ctl\<close> that added them.
\<close>

record pump_sys =
  ps_pump :: pump
  ps_open :: "raw_fd \<Rightarrow> bool"
  ps_call :: "register_call option"
  ps_del :: "(raw_fd \<times> bool) option"
  ps_log :: "(raw_fd \<times> u64) list"
  ps_owner :: "raw_fd \<rightharpoonup> nat"
  ps_gone :: "raw_fd \<Rightarrow> bool"

definition pump_sys_new :: pump_sys where
  "pump_sys_new = \<lparr>ps_pump = pump_new, ps_open = (\<lambda>_. False), ps_call = None, ps_del = None, ps_log = [],
     ps_owner = Map.empty, ps_gone = (\<lambda>_. False)\<rparr>"

definition register_begin :: "raw_fd \<Rightarrow> bool \<Rightarrow> watch_mode \<Rightarrow> nat \<Rightarrow> pump_sys \<Rightarrow> pump_sys" where
  "register_begin fd persistent mode watcher s =
     (let generation = pu_generation (ps_pump s);
          entry = \<lparr>we_watcher = watcher, we_persistent = persistent, we_mode = mode, we_generation = generation\<rparr>
      in s\<lparr>ps_pump := (ps_pump s)\<lparr>pu_generation := generation + 1\<rparr>,
           ps_call := Some \<lparr>rc_fd = fd, rc_entry = entry, rc_number = length (ps_log s), rc_phase = CtlAdd\<rparr>,
           ps_log := ps_log s @ [(fd, generation)]\<rparr>)"

definition entry_mask :: "watch_entry \<Rightarrow> 32 word" where
  "entry_mask e = mode_to_epoll_events (we_mode e)"

definition ctl_done :: "register_call \<Rightarrow> (raw_fd \<rightharpoonup> 32 word) \<Rightarrow> pump_sys \<Rightarrow> pump_sys" where
  "ctl_done c m s =
     s\<lparr>ps_pump := (ps_pump s)\<lparr>pu_interest := m\<rparr>, ps_call := Some (c\<lparr>rc_phase := Insert\<rparr>),
       ps_gone := (ps_gone s)(rc_fd c := False)\<rparr>"

definition register_ctl :: "register_call \<Rightarrow> pump_sys \<Rightarrow> pump_sys option" where
  "register_ctl c s =
     (case rc_phase c of
        CtlAdd \<Rightarrow>
          (case epoll_ctl_add (ps_open s) (rc_fd c) (entry_mask (rc_entry c)) (pu_interest (ps_pump s)) of
             Inr m \<Rightarrow> Some (ctl_done c m s)
           | Inl EEXIST \<Rightarrow> Some (s\<lparr>ps_call := Some (c\<lparr>rc_phase := CtlMod\<rparr>)\<rparr>)
           | Inl _ \<Rightarrow> Some (s\<lparr>ps_call := None\<rparr>))
      | CtlMod \<Rightarrow>
          (case epoll_ctl_mod (ps_open s) (rc_fd c) (entry_mask (rc_entry c)) (pu_interest (ps_pump s)) of
             Inr m \<Rightarrow> Some (ctl_done c m s)
           | Inl _ \<Rightarrow> Some (s\<lparr>ps_call := None\<rparr>))
      | Insert \<Rightarrow> None)"

definition register_insert :: "register_call \<Rightarrow> pump_sys \<Rightarrow> pump_sys" where
  "register_insert c s =
     s\<lparr>ps_pump := (ps_pump s)\<lparr>pu_watches := (pu_watches (ps_pump s))(rc_fd c \<mapsto> rc_entry c)\<rparr>, ps_call := None,
       ps_owner := (ps_owner s)(rc_fd c \<mapsto> rc_number c)\<rparr>"

definition watch_remove :: "raw_fd \<Rightarrow> bool \<Rightarrow> pump_sys \<Rightarrow> pump_sys" where
  "watch_remove fd on_io s =
     s\<lparr>ps_pump := (ps_pump s)\<lparr>pu_watches := (pu_watches (ps_pump s))(fd := None)\<rparr>, ps_del := Some (fd, on_io),
       ps_owner := (ps_owner s)(fd := None)\<rparr>"

definition unregister_lock :: "raw_fd \<Rightarrow> u64 \<Rightarrow> pump_sys \<Rightarrow> pump_sys" where
  "unregister_lock fd generation s =
     (case pu_watches (ps_pump s) fd of
        Some e \<Rightarrow> if we_generation e = generation then watch_remove fd False s else s
      | None \<Rightarrow> s)"

definition event_lock :: "raw_fd \<Rightarrow> pump_sys \<Rightarrow> pump_sys" where
  "event_lock fd s =
     (case pu_watches (ps_pump s) fd of
        Some e \<Rightarrow> if we_persistent e then s else watch_remove fd True s
      | None \<Rightarrow> s)"

fun inserting :: "register_call option \<Rightarrow> raw_fd \<Rightarrow> watch_entry option" where
  "inserting None fd = None"
| "inserting (Some c) fd = (if rc_phase c = Insert \<and> rc_fd c = fd then Some (rc_entry c) else None)"

definition ctl_del :: "raw_fd \<Rightarrow> pump_sys \<Rightarrow> pump_sys" where
  "ctl_del fd s =
     s\<lparr>ps_pump := (ps_pump s)\<lparr>pu_interest := epoll_ctl_del fd (pu_interest (ps_pump s))\<rparr>, ps_del := None,
       ps_gone := (if inserting (ps_call s) fd = None then ps_gone s else (ps_gone s)(fd := True))\<rparr>"

definition close_descriptor :: "raw_fd \<Rightarrow> pump_sys \<Rightarrow> pump_sys" where
  "close_descriptor fd s =
     s\<lparr>ps_pump := (ps_pump s)\<lparr>pu_interest := (pu_interest (ps_pump s))(fd := None)\<rparr>,
       ps_open := (ps_open s)(fd := False), ps_gone := (ps_gone s)(fd := True)\<rparr>"

datatype pump_label =
    RegisterBegin raw_fd bool watch_mode nat
  | RegisterCtl
  | RegisterInsert
  | UnregisterLock raw_fd u64
  | EventLock raw_fd
  | CtlDel
  | OpenFd raw_fd
  | CloseFd raw_fd

fun pump_step :: "pump_label \<Rightarrow> pump_sys \<Rightarrow> pump_sys option" where
  "pump_step (RegisterBegin fd persistent mode watcher) s =
     (if ps_call s = None \<and> map_option snd (ps_del s) \<noteq> Some True
      then Some (register_begin fd persistent mode watcher s) else None)"
| "pump_step RegisterCtl s = (case ps_call s of None \<Rightarrow> None | Some c \<Rightarrow> register_ctl c s)"
| "pump_step RegisterInsert s =
     (case ps_call s of
        None \<Rightarrow> None
      | Some c \<Rightarrow> if rc_phase c = Insert \<and> ps_del s = None then Some (register_insert c s) else None)"
| "pump_step (UnregisterLock fd generation) s =
     (if ps_del s = None then Some (unregister_lock fd generation s) else None)"
| "pump_step (EventLock fd) s = (if ps_del s = None \<and> ps_call s = None then Some (event_lock fd s) else None)"
| "pump_step CtlDel s = (case ps_del s of None \<Rightarrow> None | Some (fd, _) \<Rightarrow> Some (ctl_del fd s))"
| "pump_step (OpenFd fd) s = (if ps_open s fd then None else Some (s\<lparr>ps_open := (ps_open s)(fd := True)\<rparr>))"
| "pump_step (CloseFd fd) s = (if ps_open s fd then Some (close_descriptor fd s) else None)"

definition pump_init :: "pump_sys \<Rightarrow> bool" where
  "pump_init s \<longleftrightarrow> s = pump_sys_new"

section \<open>Undisturbed, the steps are the functions\<close>

text \<open>
  What the machines of the components above the pump use: with no step of another thread in between,
  the steps of a call do what \<open>register_fd\<close>, \<open>unregister_fd\<close> and \<open>dispatch_event\<close> do.
\<close>

lemma register_undisturbed:
  assumes "ps_call s = None" "ps_del s = None"
    and "register_fd (ps_open s) fd persistent mode w (ps_pump s) = (Some g, p)"
  shows "\<exists>ls t. set ls \<subseteq> {RegisterBegin fd persistent mode w, RegisterCtl, RegisterInsert} \<and>
    run pump_step ls s = Some t \<and> ps_pump t = p \<and> ps_log t = ps_log s @ [(fd, g)] \<and> ps_call t = None"
proof (cases "pu_interest (ps_pump s) fd")
  case None
  then show ?thesis
    using assms
    by (intro exI [of _ "[RegisterBegin fd persistent mode w, RegisterCtl, RegisterInsert]"])
      (auto simp: register_fd_def register_begin_def register_ctl_def ctl_done_def register_insert_def entry_mask_def
        epoll_ctl_add_def Let_def split: if_splits)
next
  case (Some m)
  then show ?thesis
    using assms
    by (intro exI [of _ "[RegisterBegin fd persistent mode w, RegisterCtl, RegisterCtl, RegisterInsert]"])
      (auto simp: register_fd_def register_begin_def register_ctl_def ctl_done_def register_insert_def entry_mask_def
        epoll_ctl_add_def epoll_ctl_mod_def Let_def split: if_splits)
qed

lemma unregister_undisturbed:
  assumes "ps_del s = None" "unregister_fd fd g (ps_pump s) = (removed, p)"
  shows "\<exists>t. run pump_step (if removed then [UnregisterLock fd g, CtlDel] else [UnregisterLock fd g]) s = Some t \<and>
    ps_pump t = p \<and> ps_del t = None"
  using assms
  by (auto simp: unregister_fd_def unregister_lock_def watch_remove_def ctl_del_def split: option.splits if_splits)

lemma event_undisturbed:
  assumes "ps_call s = None" "ps_del s = None" "dispatch_event alive fd ev (ps_pump s) = (cbs, p)"
  shows "\<exists>ls t. set ls \<subseteq> {EventLock fd, CtlDel} \<and> run pump_step ls s = Some t \<and> ps_pump t = p \<and> ps_del t = None"
proof (cases "pu_watches (ps_pump s) fd")
  case None
  then show ?thesis using assms by (intro exI [of _ "[]"] exI [of _ s]) (simp add: dispatch_event_def)
next
  case (Some e)
  then show ?thesis
    using assms
    by (intro exI [of _ "if we_persistent e then [] else [EventLock fd, CtlDel]"])
      (auto simp: dispatch_event_def event_lock_def watch_remove_def ctl_del_def Let_def)
qed

section \<open>The table and the interest list\<close>

definition fd_agrees :: "pump_sys \<Rightarrow> raw_fd \<Rightarrow> bool" where
  "fd_agrees s fd \<longleftrightarrow>
     (case inserting (ps_call s) fd of
        Some e \<Rightarrow> pu_interest (ps_pump s) fd = (if ps_gone s fd then None else Some (entry_mask e))
      | None \<Rightarrow>
          fst ` set_option (ps_del s) = {fd} \<or>
          pu_interest (ps_pump s) fd = (if ps_gone s fd then None else map_option entry_mask (pu_watches (ps_pump s) fd))) \<and>
     (fst ` set_option (ps_del s) = {fd} \<longrightarrow> pu_watches (ps_pump s) fd = None)"

definition interest_inv :: "pump_sys \<Rightarrow> bool" where
  "interest_inv s \<longleftrightarrow> (\<forall>fd. fd_agrees s fd)"

lemma register_ctl_agrees:
  assumes "fd_agrees s fd" "ps_call s = Some c" "register_ctl c s = Some t"
  shows "fd_agrees t fd"
proof (cases "rc_phase c")
  case CtlAdd
  then show ?thesis
    using assms
    by (auto simp: fd_agrees_def register_ctl_def ctl_done_def epoll_ctl_add_def split: if_splits)
next
  case CtlMod
  then show ?thesis
    using assms
    by (auto simp: fd_agrees_def register_ctl_def ctl_done_def epoll_ctl_mod_def split: if_splits)
qed (use assms in \<open>simp add: register_ctl_def\<close>)

lemma interest_inv_step:
  assumes "interest_inv s" "pump_step l s = Some t"
  shows "interest_inv t"
  unfolding interest_inv_def
proof
  fix fd
  have s: "fd_agrees s fd" using assms(1) by (simp add: interest_inv_def)
  show "fd_agrees t fd"
  proof (cases l)
    case RegisterCtl
    then show ?thesis using assms(2) register_ctl_agrees [OF s] by (auto split: option.splits)
  next
    case (RegisterBegin fd' persistent mode w)
    then show ?thesis
      using assms(2) s by (auto simp: fd_agrees_def register_begin_def Let_def split: if_splits)
  next
    case RegisterInsert
    then show ?thesis
      using assms(2) s by (auto simp: fd_agrees_def register_insert_def split: if_splits option.splits)
  next
    case (UnregisterLock fd' g)
    then show ?thesis
      using assms(2) s by (auto simp: fd_agrees_def unregister_lock_def watch_remove_def split: if_splits option.splits)
  next
    case (EventLock fd')
    then show ?thesis
      using assms(2) s by (auto simp: fd_agrees_def event_lock_def watch_remove_def split: if_splits option.splits)
  next
    case CtlDel
    then show ?thesis
      using assms(2) s by (auto simp: fd_agrees_def ctl_del_def epoll_ctl_del_def split: if_splits option.splits)
  qed (use assms(2) s in \<open>auto simp: fd_agrees_def close_descriptor_def split: if_splits option.splits\<close>)
qed

interpretation pump_interest: inductive_invariant pump_init pump_step interest_inv
proof
  show "interest_inv s" if "pump_init s" for s
    using that by (simp add: pump_init_def pump_sys_new_def pump_new_def interest_inv_def fd_agrees_def)
qed (rule interest_inv_step)

section \<open>Generations name registrations\<close>

fun owner_ok :: "(raw_fd \<times> u64) list \<Rightarrow> raw_fd \<Rightarrow> nat option \<Rightarrow> watch_entry option \<Rightarrow> bool" where
  "owner_ok log fd None w \<longleftrightarrow> w = None"
| "owner_ok log fd (Some i) w \<longleftrightarrow> i < length log \<and> map_option (\<lambda>e. (fd, we_generation e)) w = Some (log ! i)"

definition log_ok :: "pump_sys \<Rightarrow> bool" where
  "log_ok s \<longleftrightarrow>
     pu_generation (ps_pump s) = of_nat (length (ps_log s)) \<and>
     (\<forall>i < length (ps_log s). snd (ps_log s ! i) = of_nat i) \<and>
     (\<forall>c. ps_call s = Some c \<longrightarrow> rc_number c < length (ps_log s) \<and>
        ps_log s ! rc_number c = (rc_fd c, we_generation (rc_entry c))) \<and>
     (\<forall>fd. owner_ok (ps_log s) fd (ps_owner s fd) (pu_watches (ps_pump s) fd))"

lemma log_ok_frame:
  assumes "log_ok s" "pu_generation (ps_pump t) = pu_generation (ps_pump s)" "ps_log t = ps_log s"
    and "ps_owner t = ps_owner s" "pu_watches (ps_pump t) = pu_watches (ps_pump s)"
    and "\<And>c. ps_call t = Some c \<Longrightarrow>
      \<exists>c'. ps_call s = Some c' \<and> rc_number c = rc_number c' \<and> rc_fd c = rc_fd c' \<and> rc_entry c = rc_entry c'"
  shows "log_ok t"
  using assms unfolding log_ok_def by fastforce

lemma log_ok_remove: "log_ok s \<Longrightarrow> log_ok (watch_remove fd on_io s)"
  by (simp add: log_ok_def watch_remove_def)

lemma owner_ok_append: "owner_ok log fd i w \<Longrightarrow> owner_ok (log @ later) fd i w"
  by (cases i) (simp_all add: nth_append)

lemma log_ok_begin: "log_ok s \<Longrightarrow> log_ok (register_begin fd persistent mode w s)"
  by (auto simp: log_ok_def register_begin_def Let_def nth_append less_Suc_eq owner_ok_append)

lemma log_ok_step:
  assumes "log_ok s" "pump_step l s = Some t"
  shows "log_ok t"
proof (cases l)
  case (RegisterBegin fd persistent mode w)
  then show ?thesis using assms log_ok_begin by (auto split: if_splits)
next
  case RegisterCtl
  then show ?thesis
    using assms(2)
    by (auto simp: register_ctl_def ctl_done_def intro!: log_ok_frame [OF assms(1)]
        split: option.splits register_phase.splits sum.splits errno.splits)
next
  case RegisterInsert
  then show ?thesis
    using assms by (auto simp: log_ok_def register_insert_def split: option.splits if_splits)
next
  case (UnregisterLock fd g)
  then show ?thesis using assms log_ok_remove by (auto simp: unregister_lock_def split: option.splits if_splits)
next
  case (EventLock fd)
  then show ?thesis using assms log_ok_remove by (auto simp: event_lock_def split: option.splits if_splits)
qed (use assms(2) in \<open>auto simp: ctl_del_def close_descriptor_def intro!: log_ok_frame [OF assms(1)]
       split: if_splits option.splits\<close>)

interpretation pump_log: inductive_invariant pump_init pump_step log_ok
proof
  show "log_ok s" if "pump_init s" for s
    using that by (simp add: pump_init_def pump_sys_new_def pump_new_def log_ok_def)
qed (rule log_ok_step)

lemma of_nat_u64_inj: "i < 2 ^ 64 \<Longrightarrow> j < 2 ^ 64 \<Longrightarrow> (of_nat i :: u64) = of_nat j \<longleftrightarrow> i = j"
proof
  assume ij: "i < 2 ^ 64" "j < 2 ^ 64" and "(of_nat i :: u64) = of_nat j"
  then have "unat (of_nat i :: u64) = unat (of_nat j :: u64)" by simp
  then show "i = j" using ij by (simp add: unat_of_nat take_bit_nat_eq_self)
qed simp

section \<open>Properties\<close>

text \<open>
  C13. The epoll interest list and the watch table.  Whenever no call of the pump is between its
  system call and its lock region, the interest list holds for every descriptor what the watch
  table holds, with the event mask of the entry's mode, except for a descriptor that left the interest
  list after its watch was added: because it was closed, or because a concurrent cancellation of an
  older watch on it ran between the \<open>epoll_ctl\<close> and the insertion of a registration.  So the interest
  list never holds a descriptor that the table does not.
\<close>

theorem watch_table_matches_epoll:
  assumes "reach pump_init pump_step s" "ps_call s = None" "ps_del s = None"
  shows "pu_interest (ps_pump s) fd =
    (if ps_gone s fd then None else map_option (\<lambda>e. mode_to_epoll_events (we_mode e)) (pu_watches (ps_pump s) fd))"
proof -
  have "fd_agrees s fd" using pump_interest.reach_inv [OF assms(1)] by (simp add: interest_inv_def)
  then show ?thesis using assms(2,3) by (simp add: fd_agrees_def entry_mask_def [abs_def])
qed

definition pump_trace :: "pump_label list" where
  "pump_trace =
     [OpenFd 5, RegisterBegin 5 False WatchRead 1, RegisterCtl, RegisterInsert,
      RegisterBegin 5 False WatchReadWrite 2, RegisterCtl, RegisterCtl, RegisterInsert,
      OpenFd 6, RegisterBegin 6 True WatchWrite 3, RegisterCtl, RegisterInsert, EventLock 6, CloseFd 6,
      UnregisterLock 5 0]"

lemma pump_run_reach: "run pump_step ls pump_sys_new = Some s \<Longrightarrow> reach pump_init pump_step s"
  by (rule reach_init_run) (simp_all add: pump_init_def)

lemma pump_trace_facts:
  "case run pump_step pump_trace pump_sys_new of
     None \<Rightarrow> False
   | Some s \<Rightarrow> ps_call s = None \<and> ps_del s = None \<and> \<not> ps_gone s 5 \<and> ps_gone s 6 \<and>
       map_option we_mode (pu_watches (ps_pump s) 5) = Some WatchReadWrite \<and> pu_watches (ps_pump s) 6 \<noteq> None \<and>
       ps_log s = [(5, 0), (5, 1), (6, 2)] \<and> ps_owner s 5 = Some 1"
  by code_simp

theorem watch_table_matches_epoll_witness:
  "\<exists>s. run pump_step pump_trace pump_sys_new = Some s \<and>
     pu_interest (ps_pump s) 5 = Some (mode_to_epoll_events WatchReadWrite) \<and>
     pu_watches (ps_pump s) 6 \<noteq> None \<and> pu_interest (ps_pump s) 6 = None"
proof -
  obtain s where s: "run pump_step pump_trace pump_sys_new = Some s" "ps_call s = None" "ps_del s = None" "\<not> ps_gone s 5"
      "ps_gone s 6" "map_option we_mode (pu_watches (ps_pump s) 5) = Some WatchReadWrite" "pu_watches (ps_pump s) 6 \<noteq> None"
    using pump_trace_facts by (auto split: option.splits)
  note eq = watch_table_matches_epoll [OF pump_run_reach [OF s(1)] s(2,3)]
  show ?thesis using eq [of 5] eq [of 6] s by auto
qed

text \<open>
  C14. A controller cancels the watch it was attached to and no other.  Take any registration a pump
  has ever made (of the first 2^64), on whatever descriptor and whatever has happened since: its
  watch fired, was cancelled or was replaced.  Stopping a controller that was attached to it removes the
  watch of its descriptor if that is the watch this registration inserted; otherwise it changes
  nothing of the pump, and reports so.
\<close>

theorem stale_generation_cancels_nothing:
  assumes "reach pump_init pump_step s" "length (ps_log s) \<le> 2 ^ 64"
    and "i < length (ps_log s)" "ps_log s ! i = (fd, g)"
  shows "stop_watching_file_descriptor (controller_attach fd g c) (ps_pump s) =
    (ps_owner s fd = Some i, (controller_attach fd g c)\<lparr>ct_attached := False\<rparr>,
     if ps_owner s fd = Some i
     then (ps_pump s)\<lparr>pu_watches := (pu_watches (ps_pump s))(fd := None),
            pu_interest := (pu_interest (ps_pump s))(fd := None)\<rparr>
     else ps_pump s)"
proof -
  have log: "log_ok s" using pump_log.reach_inv [OF assms(1)] .
  then have own: "owner_ok (ps_log s) fd (ps_owner s fd) (pu_watches (ps_pump s) fd)"
    by (simp add: log_ok_def)
  have gen: "snd (ps_log s ! k) = of_nat k" if "k < length (ps_log s)" for k using log that by (simp add: log_ok_def)
  then have g: "g = of_nat i" using assms(3,4) by fastforce
  show ?thesis
  proof (cases "ps_owner s fd")
    case None
    then show ?thesis
      using own by (simp add: stop_watching_file_descriptor_def controller_attach_def unregister_fd_def)
  next
    case (Some j)
    then obtain e where e: "j < length (ps_log s)" "pu_watches (ps_pump s) fd = Some e" "ps_log s ! j = (fd, we_generation e)"
      using own by auto
    then have "we_generation e = of_nat j" using gen [of j] by simp
    then have "we_generation e = g \<longleftrightarrow> i = j"
      using of_nat_u64_inj [of j i] assms(2,3) e(1) g by auto
    then show ?thesis
      using Some e(2)
      by (auto simp: stop_watching_file_descriptor_def controller_attach_def unregister_fd_def epoll_ctl_del_def)
  qed
qed

theorem stale_generation_cancels_nothing_witness:
  "\<exists>s. run pump_step pump_trace pump_sys_new = Some s \<and> ps_owner s 5 = Some 1 \<and>
     fst (stop_watching_file_descriptor (controller_attach 5 1 controller_new) (ps_pump s)) \<and>
     snd (snd (stop_watching_file_descriptor (controller_attach 5 0 controller_new) (ps_pump s))) = ps_pump s"
proof -
  obtain s where s: "run pump_step pump_trace pump_sys_new = Some s" "ps_log s = [(5, 0), (5, 1), (6, 2)]" "ps_owner s 5 = Some 1"
    using pump_trace_facts by (auto split: option.splits)
  note eq = stale_generation_cancels_nothing [OF pump_run_reach [OF s(1)]]
  show ?thesis using eq [of 0 5 0 controller_new] eq [of 1 5 1 controller_new] s by simp
qed

text \<open>
  What the lock does not cover: \<open>register_fd\<close> makes its \<open>epoll_ctl\<close> before it locks the table.  When another
  thread cancels the old watch of the descriptor meanwhile, its DEL takes out what the registration
  has just put into the interest list; \<open>register_fd\<close> returns a generation, the table has the new entry,
  and the descriptor, which is open, is not watched.
\<close>

theorem concurrent_cancel_loses_new_watch:
  "\<exists>s. run pump_step
     [OpenFd 5, RegisterBegin 5 False WatchRead 1, RegisterCtl, RegisterInsert,
      RegisterBegin 5 False WatchRead 2, RegisterCtl, RegisterCtl, UnregisterLock 5 0, CtlDel, RegisterInsert]
     pump_sys_new = Some s \<and>
   ps_call s = None \<and> ps_del s = None \<and> ps_open s 5 \<and> ps_owner s 5 = Some 1 \<and>
   map_option we_watcher (pu_watches (ps_pump s) 5) = Some 2 \<and> pu_interest (ps_pump s) 5 = None"
proof -
  let ?r = "run pump_step
     [OpenFd 5, RegisterBegin 5 False WatchRead 1, RegisterCtl, RegisterInsert,
      RegisterBegin 5 False WatchRead 2, RegisterCtl, RegisterCtl, UnregisterLock 5 0, CtlDel, RegisterInsert]
     pump_sys_new"
  have "case ?r of None \<Rightarrow> False
     | Some s \<Rightarrow> ps_call s = None \<and> ps_del s = None \<and> ps_open s 5 \<and> ps_owner s 5 = Some 1 \<and>
         map_option we_watcher (pu_watches (ps_pump s) 5) = Some 2 \<and> pu_interest (ps_pump s) 5 = None"
    by code_simp
  then show ?thesis by (cases ?r) auto
qed

end
