(* ===== verification/Repeating_Timer_Model.thy ===== *)
theory Repeating_Timer_Model
  imports Prelude
begin

text \<open>
  \<open>bind.rs\<close> and \<open>timer.rs\<close>: closures bound to \<open>Arc\<close> or \<open>Weak\<close> pointers, and \<open>RepeatingTimer\<close>
  over a sequenced runner.  Each \<open>start\<close> allocates a \<open>TimerInner\<close>; it is named by its index in
  \<open>rt_inners\<close>.  The strong references to it are the \<open>active\<close> slot, the local variable of a \<open>start\<close>
  call that has not returned, the \<open>Arc\<close> a running tick upgraded to, and every strong pointer that a
  posted task is bound to; the object is alive as long as there is one.  The runner is sequenced, so at most one tick runs at a time; it runs a
  posted delayed task at any time from its deadline on.
\<close>

section \<open>Bound closures\<close>

datatype ptr = StrongPtr nat | WeakPtr nat

fun ptr_target :: "ptr \<Rightarrow> nat" where
  "ptr_target (StrongPtr i) = i"
| "ptr_target (WeakPtr i) = i"

text \<open>\<open>IntoArc::into_arc\<close> for the two pointer types.\<close>

fun into_arc :: "(nat \<Rightarrow> bool) \<Rightarrow> ptr \<Rightarrow> nat option" where
  "into_arc alive (StrongPtr i) = Some i"
| "into_arc alive (WeakPtr i) = (if alive i then Some i else None)"

text \<open>Running the closure that \<open>bind_once\<close> built: \<open>f\<close> is called, or nothing happens.\<close>

definition bind_once :: "(nat \<Rightarrow> bool) \<Rightarrow> ptr \<Rightarrow> (nat \<Rightarrow> 's \<Rightarrow> 's) \<Rightarrow> 's \<Rightarrow> 's" where
  "bind_once alive p f s = (case into_arc alive p of None \<Rightarrow> s | Some arc \<Rightarrow> f arc s)"

text \<open>One call of the closure that \<open>bind_repeating\<close> built.\<close>

definition bind_repeating :: "(nat \<Rightarrow> bool) \<Rightarrow> nat \<Rightarrow> (nat \<Rightarrow> 's \<Rightarrow> 's) \<Rightarrow> 's \<Rightarrow> 's" where
  "bind_repeating alive weak f s = (if alive weak then f weak s else s)"

section \<open>State\<close>

datatype tick_pc = TickHolding nat | TickScheduled nat | TickCalling nat

record 'c timer_state =
  rt_now :: instant
  rt_inners :: "(duration \<times> 'c) list"
  rt_active :: "nat option"
  rt_starting :: "nat list"
  rt_pending :: "(ptr \<times> instant) list"
  rt_running :: "tick_pc option"
  rt_fired :: "(nat \<times> instant) list"
  rt_called :: "'c list"

definition timer_new :: "'c timer_state" where
  "timer_new = \<lparr>rt_now = 0, rt_inners = [], rt_active = None, rt_starting = [], rt_pending = [],
     rt_running = None, rt_fired = [], rt_called = []\<rparr>"

fun tick_holds :: "tick_pc option \<Rightarrow> nat option" where
  "tick_holds (Some (TickHolding i)) = Some i"
| "tick_holds (Some (TickScheduled i)) = Some i"
| "tick_holds _ = None"

definition alive :: "'c timer_state \<Rightarrow> nat \<Rightarrow> bool" where
  "alive s i \<longleftrightarrow> rt_active s = Some i \<or> i \<in> set (rt_starting s) \<or> tick_holds (rt_running s) = Some i \<or>
     StrongPtr i \<in> fst ` set (rt_pending s)"

section \<open>Operations\<close>

text \<open>\<open>start\<close>, up to and including the store to \<open>active\<close>; \<open>schedule_next\<close> follows.\<close>

definition timer_start :: "duration \<Rightarrow> 'c \<Rightarrow> 'c timer_state \<Rightarrow> 'c timer_state" where
  "timer_start interval cb s =
     (let i = length (rt_inners s)
      in s\<lparr>rt_inners := rt_inners s @ [(interval, cb)], rt_active := Some i,
           rt_starting := i # rt_starting s\<rparr>)"

definition timer_stop :: "'c timer_state \<Rightarrow> 'c timer_state" where
  "timer_stop s = s\<lparr>rt_active := None\<rparr>"

definition is_running :: "'c timer_state \<Rightarrow> bool" where
  "is_running s \<longleftrightarrow> rt_active s \<noteq> None"

text \<open>\<open>schedule_next\<close>: upgrade, read the interval, post the bound tick.\<close>

definition schedule_next :: "nat \<Rightarrow> 'c timer_state \<Rightarrow> 'c timer_state" where
  "schedule_next i s =
     (if alive s i then s\<lparr>rt_pending := rt_pending s @ [(WeakPtr i, rt_now s + fst (rt_inners s ! i))]\<rparr> else s)"

text \<open>The end of a \<open>start\<close> call: \<open>schedule_next\<close>, then its local \<open>Arc\<close> is dropped.\<close>

definition start_return :: "nat \<Rightarrow> 'c timer_state \<Rightarrow> 'c timer_state option" where
  "start_return i s =
     (if i \<in> set (rt_starting s)
      then Some ((schedule_next i s)\<lparr>rt_starting := remove1 i (rt_starting s)\<rparr>) else None)"

text \<open>The runner runs the \<open>k\<close>-th posted tick: \<open>bind_once\<close> on its pointer.\<close>

definition begin_tick :: "nat \<Rightarrow> 'c timer_state \<Rightarrow> 'c timer_state" where
  "begin_tick i s = s\<lparr>rt_running := Some (TickHolding i), rt_fired := rt_fired s @ [(i, rt_now s)]\<rparr>"

definition run_pending :: "nat \<Rightarrow> 'c timer_state \<Rightarrow> 'c timer_state option" where
  "run_pending k s =
     (if k < length (rt_pending s) \<and> rt_running s = None \<and> snd (rt_pending s ! k) \<le> rt_now s
      then let s' = s\<lparr>rt_pending := take k (rt_pending s) @ drop (Suc k) (rt_pending s)\<rparr>
           in Some (bind_once (alive s) (fst (rt_pending s ! k)) begin_tick s')
      else None)"

text \<open>The body of a tick: schedule the next one, drop the \<open>Arc\<close>, call the callback.\<close>

definition tick_step :: "'c timer_state \<Rightarrow> 'c timer_state option" where
  "tick_step s =
     (case rt_running s of
        None \<Rightarrow> None
      | Some (TickHolding i) \<Rightarrow> Some ((schedule_next i s)\<lparr>rt_running := Some (TickScheduled i)\<rparr>)
      | Some (TickScheduled i) \<Rightarrow>
          Some (s\<lparr>rt_running := Some (TickCalling i), rt_called := rt_called s @ [snd (rt_inners s ! i)]\<rparr>)
      | Some (TickCalling i) \<Rightarrow> Some (s\<lparr>rt_running := None\<rparr>))"

datatype 'c timer_label =
    TStart duration 'c | TReturn nat | TStop | TRun nat | TTick | TTime duration

fun rt_step :: "'c timer_label \<Rightarrow> 'c timer_state \<Rightarrow> 'c timer_state option" where
  "rt_step (TStart interval cb) s = Some (timer_start interval cb s)"
| "rt_step (TReturn i) s = start_return i s"
| "rt_step TStop s = Some (timer_stop s)"
| "rt_step (TRun k) s = run_pending k s"
| "rt_step TTick s = tick_step s"
| "rt_step (TTime d) s = Some (s\<lparr>rt_now := rt_now s + d\<rparr>)"

definition rt_init :: "'c timer_state \<Rightarrow> bool" where
  "rt_init s \<longleftrightarrow> s = timer_new"

section \<open>One chain per timer\<close>

text \<open>The number of ticks that are posted or about to be posted for object \<open>i\<close>.\<close>

fun will_schedule :: "tick_pc option \<Rightarrow> nat \<Rightarrow> nat" where
  "will_schedule (Some (TickHolding j)) i = (if i = j then 1 else 0)"
| "will_schedule _ i = 0"

definition posted :: "ptr \<times> instant \<Rightarrow> nat \<times> instant" where
  "posted p = (ptr_target (fst p), snd p)"

abbreviation posts :: "'c timer_state \<Rightarrow> (nat \<times> instant) list" where
  "posts s \<equiv> map posted (rt_pending s)"

definition chain :: "'c timer_state \<Rightarrow> nat \<Rightarrow> nat" where
  "chain s i = count_list (map fst (posts s)) i + count_list (rt_starting s) i
     + will_schedule (rt_running s) i"

text \<open>The time from which on the next tick of \<open>i\<close> may fire, given what is pending.\<close>

definition spaced :: "'c timer_state \<Rightarrow> bool" where
  "spaced s \<longleftrightarrow>
     (\<forall>i d t. (i, d) \<in> set (posts s) \<longrightarrow> (i, t) \<in> set (rt_fired s) \<longrightarrow> t + fst (rt_inners s ! i) \<le> d) \<and>
     (\<forall>i t. (i, t) \<in> set (rt_fired s) \<longrightarrow> t \<le> rt_now s \<and> i < length (rt_inners s)) \<and>
     (\<forall>i d. (i, d) \<in> set (posts s) \<longrightarrow> i < length (rt_inners s)) \<and>
     (\<forall>i \<in> set (rt_starting s). i < length (rt_inners s) \<and> (\<forall>t. (i, t) \<notin> set (rt_fired s)))"

definition fires :: "nat \<Rightarrow> 'c timer_state \<Rightarrow> instant list" where
  "fires i s = map snd (filter (\<lambda>p. fst p = i) (rt_fired s))"

text \<open>No posted task keeps its object alive.\<close>

definition weak_posts :: "'c timer_state \<Rightarrow> bool" where
  "weak_posts s \<longleftrightarrow> (\<forall>p \<in> set (rt_pending s). \<exists>i. fst p = WeakPtr i)"

definition inv_timer :: "'c timer_state \<Rightarrow> bool" where
  "inv_timer s \<longleftrightarrow> weak_posts s \<and> (\<forall>i. chain s i \<le> 1) \<and> (\<forall>i \<ge> length (rt_inners s). chain s i = 0 \<and> \<not> alive s i) \<and> spaced s \<and>
     (\<forall>i. sorted_wrt (\<lambda>t u. t + fst (rt_inners s ! i) \<le> u) (fires i s))"

lemma count_list_remove_nth:
  assumes "k < length xs"
  shows "count_list (take k xs @ drop (Suc k) xs) x + (if xs ! k = x then 1 else 0) = count_list xs x"
proof -
  have "count_list xs x = count_list (take k xs @ xs ! k # drop (Suc k) xs) x"
    using assms by (simp add: id_take_nth_drop [symmetric])
  then show ?thesis by simp
qed

lemma count_list_remove1:
  "i \<in> set xs \<Longrightarrow> count_list (remove1 i xs) x + (if x = i then 1 else 0) = count_list xs x"
  by (induction xs) auto

lemma chain_run_pending:
  assumes "k < length (rt_pending s)" and "ptr_target (fst (rt_pending s ! k)) = i" and "rt_running s = None"
  shows "chain (s\<lparr>rt_pending := take k (rt_pending s) @ drop (Suc k) (rt_pending s)\<rparr>) j
           + (if i = j then 1 else 0) = chain s j"
  using count_list_remove_nth [of k "map fst (posts s)" j] assms
  by (simp add: chain_def take_map drop_map posted_def)

lemma weak_posts_remove: "weak_posts s \<Longrightarrow> weak_posts (s\<lparr>rt_pending := take k (rt_pending s) @ drop (Suc k) (rt_pending s)\<rparr>)"
  using set_remove_nth_subset [of k "rt_pending s"] unfolding weak_posts_def by simp blast

text \<open>With weak posts only, an object lives by the timer, by a \<open>start\<close> call or by the running tick.\<close>

lemma weak_alive:
  "weak_posts s \<Longrightarrow> alive s i \<longleftrightarrow> rt_active s = Some i \<or> i \<in> set (rt_starting s) \<or> tick_holds (rt_running s) = Some i"
  by (fastforce simp: weak_posts_def alive_def)

lemma count_pos_mem: "x \<in> set xs \<Longrightarrow> 1 \<le> count_list xs x"
  by (metis One_nat_def Suc_leI count_list_0_iff gr0I)


lemma spacedI:
  assumes "\<And>i d t. (i, d) \<in> set (posts s) \<Longrightarrow> (i, t) \<in> set (rt_fired s) \<Longrightarrow> t + fst (rt_inners s ! i) \<le> d"
    and "\<And>i t. (i, t) \<in> set (rt_fired s) \<Longrightarrow> t \<le> rt_now s \<and> i < length (rt_inners s)"
    and "\<And>i d. (i, d) \<in> set (posts s) \<Longrightarrow> i < length (rt_inners s)"
    and "\<And>i t. i \<in> set (rt_starting s) \<Longrightarrow> i < length (rt_inners s) \<and> (i, t) \<notin> set (rt_fired s)"
  shows "spaced s"
  unfolding spaced_def using assms by blast

lemma spacedD:
  assumes "spaced s"
  shows "(i, d) \<in> set (posts s) \<Longrightarrow> (i, t) \<in> set (rt_fired s) \<Longrightarrow> t + fst (rt_inners s ! i) \<le> d"
    and "(i, t) \<in> set (rt_fired s) \<Longrightarrow> t \<le> rt_now s \<and> i < length (rt_inners s)"
    and "(i, d) \<in> set (posts s) \<Longrightarrow> i < length (rt_inners s)"
    and "i \<in> set (rt_starting s) \<Longrightarrow> i < length (rt_inners s) \<and> (i, t) \<notin> set (rt_fired s)"
  using assms unfolding spaced_def by blast+

lemma inv_timer_start:
  assumes "inv_timer s"
  shows "inv_timer (timer_start interval cb s)"
proof -
  let ?n = "length (rt_inners s)" and ?s = "timer_start interval cb s"
  have fresh: "chain s ?n = 0" and lt: "(i, t) \<in> set (rt_fired s) \<Longrightarrow> i < ?n" for i t
    using assms by (auto simp: inv_timer_def spaced_def)
  have ch: "chain ?s i = chain s i + (if i = ?n then 1 else 0)" for i
    by (simp add: chain_def timer_start_def Let_def)
  have "fires i ?s = fires i s" for i by (simp add: fires_def timer_start_def Let_def)
  moreover have "fires i s = []" if "?n \<le> i" for i
    using lt [of i] that by (fastforce simp: fires_def filter_empty_conv)
  ultimately have "sorted_wrt (\<lambda>t u. t + fst (rt_inners ?s ! i) \<le> u) (fires i ?s)" for i
    using assms by (cases "i < ?n") (auto simp: inv_timer_def timer_start_def Let_def nth_append)
  moreover have "spaced ?s"
    using assms lt by (auto simp: inv_timer_def spaced_def timer_start_def Let_def nth_append less_SucI)
  moreover have w: "weak_posts ?s" using assms by (simp add: inv_timer_def weak_posts_def timer_start_def Let_def)
  moreover have "\<forall>i \<ge> length (rt_inners ?s). chain ?s i = 0 \<and> \<not> alive ?s i"
    using assms ch weak_alive [OF w] by (auto simp: inv_timer_def timer_start_def Let_def alive_def)
  ultimately show ?thesis
    using assms fresh ch by (auto simp: inv_timer_def)
qed

lemma alive_starting: "i \<in> set (rt_starting s) \<Longrightarrow> alive s i"
  by (simp add: alive_def)

lemma inv_timer_return:
  assumes "inv_timer s" and "start_return i s = Some s'"
  shows "inv_timer s'"
proof -
  have i: "i \<in> set (rt_starting s)"
      and s': "s' = s\<lparr>rt_pending := rt_pending s @ [(WeakPtr i, rt_now s + fst (rt_inners s ! i))],
                    rt_starting := remove1 i (rt_starting s)\<rparr>"
    using assms(2) alive_starting by (auto simp: start_return_def schedule_next_def split: if_splits)
  have "chain s' j = chain s j" for j
    using count_list_remove1 [OF i, of j] by (auto simp: s' chain_def posted_def)
  moreover have "spaced s'"
  proof -
    have sp: "spaced s" using assms(1) by (simp add: inv_timer_def)
    show ?thesis
      by (rule spacedI)
         (use spacedD [OF sp] i set_remove1_subset [of i "rt_starting s"] in \<open>auto simp: s' posted_def [of "(WeakPtr i, _)"] del: imageE\<close>)
  qed
  moreover have "weak_posts s'" using assms(1) by (auto simp: inv_timer_def weak_posts_def s')
  moreover have "alive s' j \<Longrightarrow> alive s j" for j
    using notin_set_remove1 by (force simp: s' alive_def)
  moreover have "fires j s' = fires j s" for j by (simp add: s' fires_def)
  ultimately show ?thesis using assms(1) by (auto simp: inv_timer_def s')
qed

lemma inv_timer_stop:
  assumes "inv_timer s"
  shows "inv_timer (timer_stop s)"
  using assms by (auto simp: inv_timer_def timer_stop_def chain_def alive_def spaced_def fires_def weak_posts_def)

lemma inv_timer_run_dead:
  assumes "inv_timer s" and k: "k < length (rt_pending s)" and "rt_running s = None"
  shows "inv_timer (s\<lparr>rt_pending := take k (rt_pending s) @ drop (Suc k) (rt_pending s)\<rparr>)"
proof -
  let ?s = "s\<lparr>rt_pending := take k (rt_pending s) @ drop (Suc k) (rt_pending s)\<rparr>"
  have c: "chain ?s j \<le> chain s j" for j
    using chain_run_pending [OF k refl assms(3), of j] by linarith
  have sub: "set (posts ?s) \<subseteq> set (posts s)"
    using set_remove_nth_subset [of k "posts s"] by (simp add: take_map drop_map)
  have sp: "spaced s" using assms(1) by (simp add: inv_timer_def)
  have "spaced ?s"
  proof (rule spacedI)
    show "t + fst (rt_inners ?s ! i) \<le> d" if "(i, d) \<in> set (posts ?s)" "(i, t) \<in> set (rt_fired ?s)" for i d t
      using spacedD(1) [OF sp subsetD [OF sub that(1)], of t] that(2) by simp
    show "i < length (rt_inners ?s)" if "(i, d) \<in> set (posts ?s)" for i d
      using spacedD(3) [OF sp subsetD [OF sub that]] by simp
  qed (use spacedD(2,4) [OF sp] in simp_all)
  moreover have w: "weak_posts s" "weak_posts ?s" using assms(1) by (simp_all add: inv_timer_def weak_posts_remove)
  moreover have "alive ?s j = alive s j" "fires j ?s = fires j s" for j
    by (simp_all add: weak_alive [OF w(1)] weak_alive [OF w(2)] fires_def)
  moreover have "chain ?s j \<le> 1" "chain s j = 0 \<Longrightarrow> chain ?s j = 0" for j
    using c [of j] assms(1) le_trans [OF c [of j], of 1] by (simp_all add: inv_timer_def)
  ultimately show ?thesis using assms(1) unfolding inv_timer_def by simp
qed

lemma inv_timer_begin_tick:
  assumes inv: "inv_timer s" and k: "k < length (rt_pending s)" and r: "rt_running s = None"
    and d: "rt_pending s ! k = (WeakPtr i, d)" "d \<le> rt_now s"
  shows "inv_timer (begin_tick i (s\<lparr>rt_pending := take k (rt_pending s) @ drop (Suc k) (rt_pending s)\<rparr>))"
proof -
  let ?t = "s\<lparr>rt_pending := take k (rt_pending s) @ drop (Suc k) (rt_pending s)\<rparr>"
  let ?s = "begin_tick i ?t"
  note t = inv_timer_run_dead [OF inv k r]
  have mem: "(i, d) \<in> set (posts s)" using nth_mem [OF k] d(1) by (force simp: posted_def)
  have ci: "chain s i \<le> 1" using inv by (simp add: inv_timer_def)
  have ch: "chain ?s j = chain s j" for j
    using chain_run_pending [OF k _ r, of i j] d(1) r
    by (cases "i = j") (auto simp: chain_def begin_tick_def)
  have "chain ?t i = 0"
    using chain_run_pending [OF k _ r, of i i] d(1) ci by simp
  then have no: "i \<notin> fst ` set (posts ?t)" "i \<notin> set (rt_starting s)"
    by (auto simp: chain_def count_list_0_iff)
  have i: "i < length (rt_inners s)" using spacedD(3) [OF _ mem] inv by (simp add: inv_timer_def)
  have "t + fst (rt_inners s ! i) \<le> rt_now s" if "(i, t) \<in> set (rt_fired s)" for t
    using inv mem that d(2) unfolding inv_timer_def spaced_def by (meson le_trans)
  then have "sorted_wrt (\<lambda>t u. t + fst (rt_inners ?s ! j) \<le> u) (fires j ?s)" for j
    using inv unfolding inv_timer_def
    by (auto simp: fires_def begin_tick_def sorted_wrt_append)
  moreover have "spaced ?s"
  proof -
    have "spaced ?t" using t by (simp add: inv_timer_def)
    note sp = spacedD [OF this]
    show ?thesis
    proof (rule spacedI)
      show "t + fst (rt_inners ?s ! j) \<le> e" if "(j, e) \<in> set (posts ?s)" "(j, t) \<in> set (rt_fired ?s)" for j e t
      proof -
        have "posts ?s = posts ?t" by (simp add: begin_tick_def)
        then have j: "(j, e) \<in> set (posts ?t)" using that(1) by simp
        then have "j \<noteq> i" using no(1) imageI [OF j, of fst] by auto
        then show ?thesis using sp(1) [OF j, of t] that(2) by (simp add: begin_tick_def)
      qed
    qed (use sp(2-4) i no(2) in \<open>auto simp: begin_tick_def\<close>)
  qed
  moreover have w: "weak_posts s" "weak_posts ?t" "weak_posts ?s"
    using inv weak_posts_remove [of s k] by (simp_all add: inv_timer_def weak_posts_def begin_tick_def)
  moreover have "alive ?s j \<Longrightarrow> alive s j \<or> j = i" for j
    unfolding weak_alive [OF w(1)] weak_alive [OF w(3)] by (auto simp: begin_tick_def)
  ultimately show ?thesis
    using inv ch i by (fastforce simp: inv_timer_def begin_tick_def)
qed

lemma inv_timer_run_pending:
  assumes "inv_timer s" and "run_pending k s = Some s'"
  shows "inv_timer s'"
proof -
  have k: "k < length (rt_pending s)" "rt_running s = None" "snd (rt_pending s ! k) \<le> rt_now s"
    using assms(2) by (auto simp: run_pending_def split: if_splits)
  moreover have "weak_posts s" using assms(1) by (simp add: inv_timer_def)
  ultimately obtain i d where d: "rt_pending s ! k = (WeakPtr i, d)"
    unfolding weak_posts_def by (metis nth_mem prod.collapse)
  show ?thesis
    using assms(2) k inv_timer_run_dead [OF assms(1) k(1,2)] inv_timer_begin_tick [OF assms(1) k(1,2) d] d
    by (auto simp: run_pending_def bind_once_def Let_def split: if_splits)
qed

lemma inv_timer_tick:
  assumes "inv_timer s" and "tick_step s = Some s'"
  shows "inv_timer s'"
proof (cases "\<exists>i. rt_running s = Some (TickHolding i)")
  case True
  then obtain i where r: "rt_running s = Some (TickHolding i)" by blast
  then have "alive s i" by (simp add: alive_def)
  then have s': "s' = s\<lparr>rt_pending := rt_pending s @ [(WeakPtr i, rt_now s + fst (rt_inners s ! i))],
                    rt_running := Some (TickScheduled i)\<rparr>"
    using assms(2) r by (simp add: tick_step_def schedule_next_def)
  have i: "i < length (rt_inners s)" using assms(1) \<open>alive s i\<close> by (auto simp: inv_timer_def not_less [symmetric])
  have "chain s' j = chain s j" "alive s' j = alive s j" "fires j s' = fires j s" for j
    using r by (auto simp: s' chain_def alive_def fires_def posted_def)
  moreover have "spaced s'"
    using assms(1) i by (auto simp: inv_timer_def spaced_def s' posted_def [of "(WeakPtr i, _)"])
  moreover have "weak_posts s'" using assms(1) by (auto simp: inv_timer_def weak_posts_def s')
  ultimately show ?thesis using assms(1) by (auto simp: inv_timer_def s')
next
  case False
  then have "chain s' j = chain s j" "alive s' j \<Longrightarrow> alive s j" "fires j s' = fires j s" for j
    using assms(2) by (auto simp: tick_step_def chain_def alive_def fires_def split: option.splits tick_pc.splits)
  moreover have "rt_inners s' = rt_inners s \<and> rt_pending s' = rt_pending s \<and> rt_now s' = rt_now s \<and>
      rt_fired s' = rt_fired s \<and> rt_starting s' = rt_starting s"
    using False assms(2) by (auto simp: tick_step_def split: option.splits tick_pc.splits)
  ultimately show ?thesis using assms(1) by (auto simp: inv_timer_def spaced_def weak_posts_def)
qed

lemma inv_timer_step:
  assumes "inv_timer s" and "rt_step l s = Some s'"
  shows "inv_timer s'"
proof (cases l)
  case (TTime d)
  then have s': "s' = s\<lparr>rt_now := rt_now s + d\<rparr>" using assms(2) by simp
  have "spaced s'" using assms(1) unfolding s' inv_timer_def spaced_def by (auto intro: trans_le_add1)
  moreover have "chain s' j = chain s j" "alive s' j = alive s j" "fires j s' = fires j s" for j
    by (simp_all add: s' chain_def alive_def fires_def)
  moreover have "weak_posts s'" using assms(1) by (simp add: inv_timer_def weak_posts_def s')
  ultimately show ?thesis using assms(1) by (simp add: inv_timer_def s')
qed (use assms inv_timer_start inv_timer_return inv_timer_stop inv_timer_run_pending inv_timer_tick
     in \<open>auto\<close>)

interpretation timer_inv: inductive_invariant rt_init rt_step inv_timer
proof
  show "inv_timer s" if "rt_init s" for s :: "'c timer_state"
    using that by (auto simp: rt_init_def timer_new_def inv_timer_def chain_def spaced_def fires_def alive_def
        weak_posts_def)
qed (rule inv_timer_step)

section \<open>Properties\<close>

lemma dead_run_pending:
  assumes "inv_timer s" and "\<not> alive s i" and "run_pending k s = Some t"
  shows "\<not> alive t i" and "rt_inners t = rt_inners s" and "fires i t = fires i s"
proof -
  have w: "weak_posts s" "weak_posts t"
    using assms(1) inv_timer_run_pending [OF assms(1,3)] by (simp_all add: inv_timer_def)
  have k: "k < length (rt_pending s)" using assms(3) by (simp add: run_pending_def split: if_splits)
  then obtain j where j: "fst (rt_pending s ! k) = WeakPtr j" using w(1) nth_mem unfolding weak_posts_def by blast
  have "\<not> alive t i \<and> rt_inners t = rt_inners s \<and> fires i t = fires i s"
  proof (cases "alive s j")
    case True
    then show ?thesis
      using assms(2,3) j unfolding weak_alive [OF w(1)] weak_alive [OF w(2)]
      by (auto simp: run_pending_def bind_once_def begin_tick_def fires_def Let_def weak_alive [OF w(1)] split: if_splits)
  next
    case False
    then show ?thesis
      using assms(2,3) j unfolding weak_alive [OF w(2)]
      by (auto simp: run_pending_def bind_once_def fires_def Let_def weak_alive [OF w(1)] split: if_splits)
  qed
  then show "\<not> alive t i" and "rt_inners t = rt_inners s" and "fires i t = fires i s" by blast+
qed

lemma dead_stays:
  assumes "inv_timer s" and "\<not> alive s i" and "i < length (rt_inners s)" and "rt_step l s = Some s'"
  shows "\<not> alive s' i \<and> i < length (rt_inners s') \<and> fires i s' = fires i s"
proof (cases l)
  case (TReturn j)
  then show ?thesis
    using assms notin_set_remove1
    by (auto simp: start_return_def schedule_next_def alive_def fires_def split: if_splits)
next
  case (TRun k)
  then show ?thesis
    using assms dead_run_pending [OF assms(1,2), of k s'] by simp
next
  case TTick
  then show ?thesis
    using assms
    by (auto simp: tick_step_def schedule_next_def alive_def fires_def split: option.splits tick_pc.splits)
qed (use assms in \<open>auto simp: timer_start_def Let_def timer_stop_def alive_def fires_def\<close>)

text \<open>The posted ticks that would find their object if they ran now.\<close>

definition live_ticks :: "'c timer_state \<Rightarrow> (ptr \<times> instant) list" where
  "live_ticks s = filter (\<lambda>p. into_arc (alive s) (fst p) \<noteq> None) (rt_pending s)"

lemma live_tick_holder:
  assumes "inv_timer s" and "p \<in> set (live_ticks s)"
  shows "rt_active s = Some (ptr_target (fst p)) \<or> ptr_target (fst p) \<in> set (rt_starting s) \<or>
    tick_holds (rt_running s) = Some (ptr_target (fst p))"
proof -
  have w: "weak_posts s" using assms(1) by (simp add: inv_timer_def)
  then obtain i where "fst p = WeakPtr i" using assms(2) by (auto simp: live_ticks_def weak_posts_def)
  then show ?thesis using assms(2) weak_alive [OF w] by (auto simp: live_ticks_def split: if_splits)
qed

lemma count_filter_le:
  assumes "\<And>p. p \<in> set xs \<Longrightarrow> P p \<Longrightarrow> f p = j"
  shows "length (filter P xs) \<le> count_list (map f xs) j"
  using assms by (induction xs) (auto simp: le_SucI)

lemma idle_live_ticks:
  assumes "inv_timer s" and "rt_starting s = []" and "rt_running s = None"
  shows "length (live_ticks s) \<le> 1"
proof (cases "rt_active s")
  case None
  then have "live_ticks s = []" using live_tick_holder [OF assms(1)] assms(2,3) by (cases "live_ticks s") auto
  then show ?thesis by simp
next
  case (Some j)
  have "length (live_ticks s) \<le> count_list (map (ptr_target \<circ> fst) (rt_pending s)) j"
    unfolding live_ticks_def
  proof (rule count_filter_le)
    show "(ptr_target \<circ> fst) p = j" if "p \<in> set (rt_pending s)" "into_arc (alive s) (fst p) \<noteq> None" for p
      using live_tick_holder [OF assms(1), of p] that assms(2,3) Some by (auto simp: live_ticks_def)
  qed
  moreover have "fst \<circ> posted = ptr_target \<circ> fst" by (simp add: posted_def fun_eq_iff)
  moreover have "chain s j \<le> 1" using assms(1) by (simp add: inv_timer_def)
  ultimately show ?thesis by (simp add: chain_def)
qed

lemma tick_is_active:
  assumes "inv_timer s" and "rt_starting s = []" and "run_pending k s = Some t"
  shows "rt_fired t = rt_fired s \<or> (\<exists>i. rt_active s = Some i \<and> rt_fired t = rt_fired s @ [(i, rt_now s)])"
proof (cases "into_arc (alive s) (fst (rt_pending s ! k))")
  case None
  then show ?thesis using assms(3) by (auto simp: run_pending_def bind_once_def Let_def split: if_splits)
next
  case (Some i)
  have k: "k < length (rt_pending s)" "rt_running s = None"
    using assms(3) by (auto simp: run_pending_def split: if_splits)
  have "ptr_target (fst (rt_pending s ! k)) = i"
    using Some by (cases "fst (rt_pending s ! k)") (auto split: if_splits)
  moreover have "rt_pending s ! k \<in> set (live_ticks s)" using Some k(1) by (simp add: live_ticks_def)
  ultimately have "rt_active s = Some i"
    using live_tick_holder [OF assms(1), of "rt_pending s ! k"] assms(2) k(2) by auto
  then show ?thesis
    using assms(3) Some
    by (auto simp: run_pending_def bind_once_def begin_tick_def Let_def split: if_splits)
qed

text \<open>
  C12. A \<open>RepeatingTimer\<close> never has two live chains of ticks, however often it is started and stopped:
  a posted tick that can still begin belongs to the object in \<open>active\<close>, to a \<open>start\<close> call that has not
  returned or to the tick that is running; when there is no such call and no running tick, at most one
  posted tick is live; a tick that begins then is one of the object in \<open>active\<close>, so the chains of
  earlier starts are dead; and consecutive ticks of one start are at least its interval apart.
\<close>

theorem repeating_timer_single_chain:
  assumes "reach rt_init rt_step s"
  shows "(\<forall>p \<in> set (live_ticks s). rt_active s = Some (ptr_target (fst p)) \<or>
           ptr_target (fst p) \<in> set (rt_starting s) \<or> tick_holds (rt_running s) = Some (ptr_target (fst p))) \<and>
         (rt_starting s = [] \<and> rt_running s = None \<longrightarrow> length (live_ticks s) \<le> 1) \<and>
         (rt_starting s = [] \<and> run_pending k s = Some t \<longrightarrow>
            rt_fired t = rt_fired s \<or> (\<exists>i. rt_active s = Some i \<and> rt_fired t = rt_fired s @ [(i, rt_now s)])) \<and>
         sorted_wrt (\<lambda>t u. t + fst (rt_inners s ! i) \<le> u) (fires i s)"
proof -
  have inv: "inv_timer s" using timer_inv.reach_inv [OF assms] .
  then show ?thesis
    using live_tick_holder [OF inv] idle_live_ticks [OF inv] tick_is_active [OF inv, of k t]
    by (simp add: inv_timer_def)
qed

definition timer_trace :: "nat timer_label list" where
  "timer_trace =
     [TStart 10 1, TReturn 0, TTime 12, TRun 0, TTick, TTick, TTick, TTime 11, TRun 0, TTick]"

lemma timer_trace_reach: "run rt_step ls timer_new = Some s \<Longrightarrow> reach rt_init rt_step s"
  by (rule reach_init_run) (auto simp: rt_init_def)

text \<open>The timer is started again between two ticks; the tick of the first start is still posted and is dead.\<close>

definition restart_trace :: "nat timer_label list" where
  "restart_trace = take 7 timer_trace @ [TStart 5 2, TReturn 1, TTime 20, TRun 0]"

theorem repeating_timer_single_chain_witness:
  "\<exists>s. run rt_step restart_trace timer_new = Some s \<and> fires 0 s = [12] \<and> rt_pending s = [(WeakPtr 1, 17)] \<and>
     length (live_ticks s) \<le> 1 \<and>
     (\<exists>t. run_pending 0 s = Some t \<and>
        (rt_fired t = rt_fired s \<or> (\<exists>i. rt_active s = Some i \<and> rt_fired t = rt_fired s @ [(i, rt_now s)])))"
proof -
  have "case run rt_step restart_trace timer_new of None \<Rightarrow> False
    | Some s \<Rightarrow> fires 0 s = [12] \<and> rt_pending s = [(WeakPtr 1, 17)] \<and> rt_starting s = [] \<and> rt_running s = None \<and>
        rt_now s = 32"
    by code_simp
  then obtain s where s: "run rt_step restart_trace timer_new = Some s" "fires 0 s = [12]"
      "rt_pending s = [(WeakPtr 1, 17)]" "rt_starting s = []" "rt_running s = None" "rt_now s = 32"
    by (auto split: option.splits)
  obtain t where t: "run_pending 0 s = Some t" using s(3,5,6) by (simp add: run_pending_def Let_def)
  show ?thesis
    using repeating_timer_single_chain [OF timer_trace_reach [OF s(1)], of 0 t 0] s t by blast
qed

text \<open>
  Cancellation: once nothing holds the timer object strongly (\<open>stop\<close>, a restart or a drop
  of the timer, with no tick of it in progress), its callback never begins again, whatever ticks
  are still posted and whatever happens afterwards.
\<close>

theorem stopped_timer_never_fires:
  assumes "reach rt_init rt_step s" and "\<not> alive s i" and "i < length (rt_inners s)"
    and "run rt_step ls s = Some t"
  shows "fires i t = fires i s"
proof -
  have "inv_timer s" using timer_inv.reach_inv [OF assms(1)] .
  from this assms(2-4) show ?thesis
  proof (induction ls arbitrary: s)
    case (Cons l ls)
    then obtain s1 where s1: "rt_step l s = Some s1" "run rt_step ls s1 = Some t"
      by (auto split: option.splits)
    note d = dead_stays [OF Cons.prems(1-3) s1(1)]
    show ?case using Cons.IH [OF inv_timer_step [OF Cons.prems(1) s1(1)] _ _ s1(2)] d by simp
  qed simp
qed

theorem stopped_timer_never_fires_witness:
  "\<exists>s t. run rt_step (take 7 timer_trace @ [TStop]) timer_new = Some s \<and> rt_pending s \<noteq> [] \<and>
     run rt_step [TTime 11, TRun 0] s = Some t \<and> rt_pending t = [] \<and> fires 0 t = fires 0 s"
proof -
  have "case run rt_step (take 7 timer_trace @ [TStop]) timer_new of None \<Rightarrow> False
    | Some s \<Rightarrow> \<not> alive s 0 \<and> length (rt_inners s) = 1 \<and> rt_pending s \<noteq> [] \<and>
        (case run rt_step [TTime 11, TRun 0] s of None \<Rightarrow> False | Some t \<Rightarrow> rt_pending t = [])"
    by code_simp
  then obtain s t where s: "run rt_step (take 7 timer_trace @ [TStop]) timer_new = Some s"
      "\<not> alive s 0" "length (rt_inners s) = 1" "rt_pending s \<noteq> []"
      "run rt_step [TTime 11, TRun 0] s = Some t" "rt_pending t = []"
    by (auto split: option.splits simp del: run.simps)
  have "fires 0 t = fires 0 s"
    using stopped_timer_never_fires [OF timer_trace_reach [OF s(1)] s(2) _ s(5)] s(3) by simp
  then show ?thesis using s(1,4-6) by blast
qed

end
