(* ===== verification/Io_Task_Runner_Model.thy ===== *)
theory Io_Task_Runner_Model
  imports Binary_Heap Task_Monitor_Model Epoll_Pump_Model
begin

text \<open>
  \<open>io_task_runner.rs\<close> over \<open>EpollMessagePump::run\<close>: one IO thread that alternates between
  \<open>do_work\<close> (drain the immediate queue, run the due delayed tasks, report the next deadline) and
  \<open>epoll_wait\<close>.  Posting threads push and then signal the eventfd; \<open>io_calls\<close> are the calls
  under way, each the list of operations it still has to do.  The eventfd counter and the quit
  flag are those of the pump.  User callbacks and \<open>FdWatcher\<close> callbacks are opaque.
\<close>

section \<open>State\<close>

record 'u io_delayed_task =
  id_deadline :: instant
  id_callback :: "'u body"

text \<open>\<open>Ord for DelayedTask\<close>: the comparison of the deadlines, reversed.\<close>

definition io_delayed_le :: "'u io_delayed_task \<Rightarrow> 'u io_delayed_task \<Rightarrow> bool" where
  "io_delayed_le a b \<longleftrightarrow> id_deadline b \<le> id_deadline a"

datatype 'u io_op =
    IoPush "'u body"
  | IoPushDelayed "'u body" instant
  | IoSignal
  | IoRunBody "'u body"
  | IoUserEnd 'u
  | IoMetrics duration instant
  | IoPostReply nat 'u

datatype io_event = WakeEvent | FdEvent raw_fd "32 word"

datatype 'u io_pc =
    INotStarted
  | IDrain
  | IRun "'u io_op list"
  | IDelayed
  | IRunDelayed "'u io_op list"
  | ICheck "instant option"
  | IWait "instant option"
  | IDispatch "io_event list"
  | IEnd

datatype closer_pc = CShutdown | CQuit | CSignal | CTake | CJoin | CDone

datatype 'u io_log_event =
    IoEnter "'u body"
  | IoStart "'u body"
  | IoStartDelayed "'u io_delayed_task" instant
  | IoBegin 'u
  | IoReturn 'u
  | IoReported duration duration
  | IoReplyTo nat 'u
  | IoFd fd_callback
  | IoAnswer bool

record 'u io_runner =
  io_now :: instant
  io_id :: nat
  io_token :: sequence_token
  io_monitored :: bool
  io_pump :: pump
  io_tasks :: "'u body list"
  io_delayed :: "'u io_delayed_task list"
  io_shutdown :: bool
  io_pc :: "'u io_pc"
  io_tls :: "nat thread_locals"
  io_current :: bool
  io_slot :: "u64 option"
  io_handle :: bool
  io_calls :: "'u io_op list list"
  io_closers :: "closer_pc list"
  io_log :: "'u io_log_event list"

definition io_build :: "nat \<Rightarrow> sequence_token \<Rightarrow> bool \<Rightarrow> 'u io_runner" where
  "io_build i tok monitored =
     \<lparr>io_now = 0, io_id = i, io_token = tok, io_monitored = monitored, io_pump = pump_new, io_tasks = [],
      io_delayed = [], io_shutdown = False, io_pc = INotStarted, io_tls = fresh_thread,
      io_current = False, io_slot = None, io_handle = True, io_calls = [], io_closers = [], io_log = []\<rparr>"

section \<open>Operations of posting threads\<close>

definition io_timed :: "'u io_runner \<Rightarrow> 'u body \<Rightarrow> 'u body" where
  "io_timed s b = (if io_monitored s then Timed (io_now s) b else b)"

definition io_emit :: "'u io_log_event list \<Rightarrow> 'u io_runner \<Rightarrow> 'u io_runner" where
  "io_emit es s = s\<lparr>io_log := io_log s @ es\<rparr>"

text \<open>\<open>post_task\<close>: the shutdown check; what remains to be done when it passes.\<close>

definition io_post_task :: "'u body \<Rightarrow> 'u io_runner \<Rightarrow> bool \<times> 'u io_op list" where
  "io_post_task b s = (if io_shutdown s then (False, []) else (True, [IoPush (io_timed s b)]))"

definition io_post_delayed_task :: "'u body \<Rightarrow> duration \<Rightarrow> 'u io_runner \<Rightarrow> bool \<times> 'u io_op list" where
  "io_post_delayed_task b delay s =
     (if io_shutdown s then (False, [])
      else (True, [IoPushDelayed (io_timed s b) (io_now s + delay)]))"

definition io_post_task_and_reply ::
    "'u \<Rightarrow> 'u \<Rightarrow> nat option \<Rightarrow> 'u io_runner \<Rightarrow> bool \<times> 'u io_op list" where
  "io_post_task_and_reply u v reply_runner s = io_post_task (WithReply u reply_runner v) s"

definition io_post_non_nestable_task :: "'u body \<Rightarrow> 'u io_runner \<Rightarrow> bool \<times> 'u io_op list" where
  "io_post_non_nestable_task b s = io_post_task b s"

definition io_runs_tasks_in_current_sequence :: "'u io_runner \<Rightarrow> nat thread_locals \<Rightarrow> bool" where
  "io_runs_tasks_in_current_sequence s tls \<longleftrightarrow> token_current tls = Some (io_token s)"

text \<open>One operation; the first component is what the thread has to do in its place.\<close>

fun exec_io_op :: "'u io_op \<Rightarrow> 'u io_runner \<Rightarrow> 'u io_op list \<times> 'u io_runner" where
  "exec_io_op (IoPush b) s = ([IoSignal], io_emit [IoEnter b] (s\<lparr>io_tasks := io_tasks s @ [b]\<rparr>))"
| "exec_io_op (IoPushDelayed b deadline) s =
     ([IoSignal], s\<lparr>io_delayed := heap_push io_delayed_le \<lparr>id_deadline = deadline, id_callback = b\<rparr>
                       (io_delayed s)\<rparr>)"
| "exec_io_op IoSignal s = ([], s\<lparr>io_pump := schedule_work (io_pump s)\<rparr>)"
| "exec_io_op (IoRunBody (User u)) s = ([IoUserEnd u], io_emit [IoBegin u] s)"
| "exec_io_op (IoRunBody (WithReply u r v)) s =
     (IoRunBody (User u) # (case r of None \<Rightarrow> [] | Some n \<Rightarrow> [IoPostReply n v]), s)"
| "exec_io_op (IoRunBody (Timed posted_at b)) s =
     ([IoRunBody b, IoMetrics (io_now s - posted_at) (io_now s)], s)"
| "exec_io_op (IoUserEnd u) s = ([], io_emit [IoReturn u] s)"
| "exec_io_op (IoMetrics queue_time exec_start) s =
     ([], io_emit [IoReported queue_time (io_now s - exec_start)] s)"
| "exec_io_op (IoPostReply r v) s =
     (if r = io_id s then (snd (io_post_task (User v) s), s) else ([], io_emit [IoReplyTo r v] s))"

section \<open>The IO thread\<close>

definition set_slot :: "'u io_runner \<Rightarrow> 'u io_runner" where
  "set_slot s = s\<lparr>io_slot := map_option (\<lambda>_. task_started 0 (io_now s)) (io_slot s)\<rparr>"

definition clear_slot :: "'u io_runner \<Rightarrow> 'u io_runner" where
  "clear_slot s = s\<lparr>io_slot := map_option (\<lambda>_. task_finished) (io_slot s)\<rparr>"

definition on_run_start :: "'u io_runner \<Rightarrow> 'u io_runner" where
  "on_run_start s = (if io_monitored s then s\<lparr>io_slot := Some 0\<rparr> else s)"

definition on_run_end :: "'u io_runner \<Rightarrow> 'u io_runner" where
  "on_run_end s = s\<lparr>io_slot := None\<rparr>"

declare on_run_start_def [simp] on_run_end_def [simp]

text \<open>\<open>drive\<close> up to the loop, with \<open>on_run_start\<close>.\<close>

definition io_drive :: "'u io_runner \<Rightarrow> 'u io_runner" where
  "io_drive s =
     on_run_start (s\<lparr>io_tls := snd (default_handle_new (io_id s) (scoped_token_new (io_token s) (io_tls s))),
       io_current := True, io_pc := IDrain\<rparr>)"

text \<open>The end of \<open>drive\<close>: \<open>on_run_end\<close>, then the thread-locals are cleared.\<close>

definition io_finish :: "'u io_runner \<Rightarrow> 'u io_runner" where
  "io_finish s =
     (on_run_end s)\<lparr>io_current := False,
       io_tls := scoped_token_drop (default_handle_drop (CurrentDefaultHandle None) (io_tls s)),
       io_pc := IEnd\<rparr>"

text \<open>\<open>do_work\<close>: one round of its first loop, one round of its second loop.\<close>

definition io_drain :: "'u io_runner \<Rightarrow> 'u io_runner" where
  "io_drain s =
     (case io_tasks s of
        [] \<Rightarrow> s\<lparr>io_pc := IDelayed\<rparr>
      | b # bs \<Rightarrow> set_slot (io_emit [IoStart b] (s\<lparr>io_tasks := bs, io_pc := IRun [IoRunBody b]\<rparr>)))"

definition io_run_delayed :: "'u io_runner \<Rightarrow> 'u io_runner" where
  "io_run_delayed s =
     (case heap_peek (io_delayed s) of
        None \<Rightarrow> s\<lparr>io_pc := ICheck None\<rparr>
      | Some d \<Rightarrow>
          if id_deadline d \<le> io_now s
          then (case heap_pop io_delayed_le (io_delayed s) of
                  None \<Rightarrow> s
                | Some (t, h) \<Rightarrow>
                    set_slot (io_emit [IoStartDelayed t (io_now s)]
                      (s\<lparr>io_delayed := h, io_pc := IRunDelayed [IoRunBody (id_callback t)]\<rparr>)))
          else s\<lparr>io_pc := ICheck (Some (id_deadline d))\<rparr>)"

text \<open>After \<open>do_work\<close>: leave the loop, or compute the time up to which \<open>epoll_wait\<close> may block.\<close>

definition io_check :: "instant option \<Rightarrow> 'u io_runner \<Rightarrow> 'u io_runner" where
  "io_check next_deadline s =
     (if pu_quit (io_pump s) then io_finish s
      else let t = timeout_ms (io_now s) next_deadline
           in s\<lparr>io_pc := IWait (if t < 0 then None else Some (io_now s + nat t * 1000000))\<rparr>)"

text \<open>One element of the event loop.\<close>

definition io_dispatch :: "(nat \<Rightarrow> bool) \<Rightarrow> io_event list \<Rightarrow> 'u io_runner \<Rightarrow> 'u io_runner" where
  "io_dispatch alive evs s =
     (case evs of
        [] \<Rightarrow> s\<lparr>io_pc := IDrain\<rparr>
      | WakeEvent # rest \<Rightarrow> s\<lparr>io_pump := (io_pump s)\<lparr>pu_wake := 0\<rparr>, io_pc := IDispatch rest\<rparr>
      | FdEvent fd flags # rest \<Rightarrow>
          (case dispatch_event alive fd flags (io_pump s) of
             (cbs, p) \<Rightarrow>
               clear_slot (io_emit (map IoFd cbs) (s\<lparr>io_pump := p, io_pc := IDispatch rest\<rparr>))))"

text \<open>The next step of the IO thread, outside \<open>epoll_wait\<close>.\<close>

definition io_thread_step :: "(nat \<Rightarrow> bool) \<Rightarrow> 'u io_runner \<Rightarrow> 'u io_runner option" where
  "io_thread_step alive s =
     (case io_pc s of
        INotStarted \<Rightarrow> Some (io_drive s)
      | IDrain \<Rightarrow> Some (io_drain s)
      | IRun [] \<Rightarrow> Some (clear_slot (s\<lparr>io_pc := IDrain\<rparr>))
      | IRun (op # ops) \<Rightarrow> (case exec_io_op op s of (new, s') \<Rightarrow> Some (s'\<lparr>io_pc := IRun (new @ ops)\<rparr>))
      | IDelayed \<Rightarrow> Some (io_run_delayed s)
      | IRunDelayed [] \<Rightarrow> Some (clear_slot (s\<lparr>io_pc := IDelayed\<rparr>))
      | IRunDelayed (op # ops) \<Rightarrow>
          (case exec_io_op op s of (new, s') \<Rightarrow> Some (s'\<lparr>io_pc := IRunDelayed (new @ ops)\<rparr>))
      | ICheck next_deadline \<Rightarrow> Some (io_check next_deadline s)
      | IDispatch evs \<Rightarrow> Some (io_dispatch alive evs s)
      | _ \<Rightarrow> None)"

text \<open>
  \<open>epoll_wait\<close> returns: with events, when the time is over, or interrupted (\<open>EINTR\<close>).  The
  eventfd is reported only when its counter is positive.
\<close>

definition epoll_returns :: "io_event list \<Rightarrow> bool \<Rightarrow> 'u io_runner \<Rightarrow> 'u io_runner option" where
  "epoll_returns evs interrupted s =
     (case io_pc s of
        IWait until \<Rightarrow>
          if length evs \<le> 64 \<and> (WakeEvent \<in> set evs \<longrightarrow> 0 < pu_wake (io_pump s)) \<and>
             (evs \<noteq> [] \<or> interrupted \<or>
              (case until of None \<Rightarrow> False | Some t \<Rightarrow> t \<le> io_now s))
          then Some (s\<lparr>io_pc := IDispatch evs\<rparr>) else None
      | _ \<Rightarrow> None)"

definition epoll_fails :: "'u io_runner \<Rightarrow> 'u io_runner option" where
  "epoll_fails s = (case io_pc s of IWait until \<Rightarrow> Some (io_finish s) | _ \<Rightarrow> None)"

section \<open>Closing\<close>

text \<open>\<open>shutdown\<close> of one calling thread.\<close>

fun close_round :: "closer_pc \<Rightarrow> 'u io_runner \<Rightarrow> (closer_pc \<times> 'u io_runner) option" where
  "close_round CShutdown s = Some (CQuit, s\<lparr>io_shutdown := True\<rparr>)"
| "close_round CQuit s = Some (CSignal, s\<lparr>io_pump := (io_pump s)\<lparr>pu_quit := True\<rparr>\<rparr>)"
| "close_round CSignal s = Some (CTake, s\<lparr>io_pump := schedule_work (io_pump s)\<rparr>)"
| "close_round CTake s = Some (if io_handle s then CJoin else CDone, s\<lparr>io_handle := False\<rparr>)"
| "close_round CJoin s = (if io_pc s = IEnd then Some (CDone, s) else None)"
| "close_round CDone s = None"

section \<open>The machine\<close>

datatype 'u io_label =
    IoTick duration
  | IoPost "'u body"
  | IoPostDelayed "'u body" duration
  | IoCallStep nat
  | IoThread
  | IoEpoll "io_event list" bool
  | IoEpollError
  | IoShutdown
  | IoClose nat
  | IoWatch raw_fd bool watch_mode nat

definition io_call_step :: "nat \<Rightarrow> 'u io_runner \<Rightarrow> 'u io_runner option" where
  "io_call_step i s =
     (if i < length (io_calls s)
      then case io_calls s ! i of
             [] \<Rightarrow> None
           | op # ops \<Rightarrow>
               (case exec_io_op op s of
                  (new, s') \<Rightarrow> Some (s'\<lparr>io_calls := (io_calls s')[i := new @ ops]\<rparr>))
      else None)"

definition io_close :: "nat \<Rightarrow> 'u io_runner \<Rightarrow> 'u io_runner option" where
  "io_close i s =
     (if i < length (io_closers s)
      then case close_round (io_closers s ! i) s of
             None \<Rightarrow> None
           | Some (pc, s') \<Rightarrow> Some (s'\<lparr>io_closers := (io_closers s')[i := pc]\<rparr>)
      else None)"

definition io_answer :: "bool \<times> 'u io_op list \<Rightarrow> 'u io_runner \<Rightarrow> 'u io_runner" where
  "io_answer r s = io_emit [IoAnswer (fst r)] (s\<lparr>io_calls := io_calls s @ [snd r]\<rparr>)"

fun io_step :: "(raw_fd \<Rightarrow> bool) \<Rightarrow> (nat \<Rightarrow> bool) \<Rightarrow> 'u io_label \<Rightarrow> 'u io_runner \<Rightarrow> 'u io_runner option" where
  "io_step valid alive (IoTick d) s = Some (s\<lparr>io_now := io_now s + d\<rparr>)"
| "io_step valid alive (IoPost b) s = Some (io_answer (io_post_task b s) s)"
| "io_step valid alive (IoPostDelayed b delay) s = Some (io_answer (io_post_delayed_task b delay s) s)"
| "io_step valid alive (IoCallStep i) s = io_call_step i s"
| "io_step valid alive IoThread s = io_thread_step alive s"
| "io_step valid alive (IoEpoll evs interrupted) s = epoll_returns evs interrupted s"
| "io_step valid alive IoEpollError s = epoll_fails s"
| "io_step valid alive IoShutdown s = Some (s\<lparr>io_closers := io_closers s @ [CShutdown]\<rparr>)"
| "io_step valid alive (IoClose i) s = io_close i s"
| "io_step valid alive (IoWatch fd persistent mode w) s =
     Some (s\<lparr>io_pump := snd (register_fd valid fd persistent mode w (io_pump s))\<rparr>)"

definition io_init :: "'u io_runner \<Rightarrow> bool" where
  "io_init s \<longleftrightarrow> (\<exists>i tok monitored. s = io_build i tok monitored)"


section \<open>Waking up\<close>

interpretation io_heap: heap_order io_delayed_le
  by unfold_locales (auto simp: io_delayed_le_def)

definition signalled :: "'u io_runner \<Rightarrow> bool" where
  "signalled s \<longleftrightarrow> (\<exists>ops \<in> set (io_calls s). IoSignal \<in> set ops) \<or> CSignal \<in> set (io_closers s)
     \<or> 0 < pu_wake (io_pump s)"

text \<open>Every delayed task is at or after the time \<open>t\<close>, or \<open>t\<close> has passed.\<close>

definition bounded :: "instant option \<Rightarrow> 'u io_runner \<Rightarrow> bool" where
  "bounded until s \<longleftrightarrow>
     (\<forall>d \<in> set (io_delayed s). \<exists>t. until = Some t \<and> (t \<le> id_deadline d \<or> t \<le> io_now s))"

definition wake_inv :: "'u io_runner \<Rightarrow> bool" where
  "wake_inv s \<longleftrightarrow> signalled s \<or>
     (case io_pc s of
        IWait until \<Rightarrow> io_tasks s = [] \<and> \<not> pu_quit (io_pump s) \<and> bounded until s
      | ICheck next_deadline \<Rightarrow> io_tasks s = [] \<and> bounded next_deadline s
      | IDelayed \<Rightarrow> io_tasks s = []
      | IRunDelayed ops \<Rightarrow> io_tasks s = [] \<or> IoSignal \<in> set ops
      | _ \<Rightarrow> True)"

fun io_enter_of :: "'u io_log_event \<Rightarrow> 'u body list" where
  "io_enter_of (IoEnter b) = [b]"
| "io_enter_of _ = []"

fun io_start_of :: "'u io_log_event \<Rightarrow> 'u body list" where
  "io_start_of (IoStart b) = [b]"
| "io_start_of _ = []"

definition io_enters :: "'u io_log_event list \<Rightarrow> 'u body list" where
  "io_enters es = concat (map io_enter_of es)"

definition io_starts :: "'u io_log_event list \<Rightarrow> 'u body list" where
  "io_starts es = concat (map io_start_of es)"

text \<open>No delayed task is started before its deadline.\<close>

fun on_time :: "'u io_log_event \<Rightarrow> bool" where
  "on_time (IoStartDelayed d now) = (id_deadline d \<le> now)"
| "on_time _ = True"

definition order_inv :: "'u io_runner \<Rightarrow> bool" where
  "order_inv s \<longleftrightarrow> heap_ordered io_delayed_le (io_delayed s) \<and>
     io_enters (io_log s) = io_starts (io_log s) @ io_tasks s \<and> list_all on_time (io_log s)"

lemma io_log_append [simp]:
  "io_enters (es @ fs) = io_enters es @ io_enters fs" "io_starts (es @ fs) = io_starts es @ io_starts fs"
  "io_enters [] = []" "io_starts [] = []"
  "io_enters (e # es) = io_enter_of e @ io_enters es" "io_starts (e # es) = io_start_of e @ io_starts es"
  by (simp_all add: io_enters_def io_starts_def)

lemma io_log_fd [simp]:
  "io_enters (map IoFd cbs) = []" "io_starts (map IoFd cbs) = []" "list_all on_time (map IoFd cbs)"
  by (induction cbs) auto

lemmas io_state_defs = io_emit_def set_slot_def clear_slot_def schedule_work_def

lemma order_inv_exec:
  assumes "order_inv s" and "exec_io_op op s = (new, t)"
  shows "order_inv t"
  using assms
  by (cases "(op, s)" rule: exec_io_op.cases)
     (auto simp: order_inv_def io_state_defs io_heap.heap_push_ordered split: if_splits)

lemma exec_io_op_frame:
  assumes "exec_io_op op s = (new, t)"
  shows "io_pc t = io_pc s" "io_calls t = io_calls s" "io_closers t = io_closers s" "io_now t = io_now s"
    "pu_quit (io_pump t) = pu_quit (io_pump s)" "pu_wake (io_pump s) \<le> pu_wake (io_pump t)"
    "io_handle t = io_handle s" "io_shutdown t = io_shutdown s"
  using assms
  by (cases "(op, s)" rule: exec_io_op.cases; auto simp: io_state_defs split: if_splits)+

text \<open>An operation that adds work leaves a signal to be sent; a signal raises the counter.\<close>

lemma exec_io_op_signal:
  assumes "exec_io_op op s = (new, t)"
  shows "IoSignal \<in> set new \<or> (io_tasks t = io_tasks s \<and> io_delayed t = io_delayed s)"
    and "op = IoSignal \<Longrightarrow> 0 < pu_wake (io_pump t)"
  using assms
  by (cases "(op, s)" rule: exec_io_op.cases; auto simp: io_state_defs split: if_splits)+

lemma order_inv_thread:
  assumes "order_inv s" and "io_thread_step alive s = Some s'"
  shows "order_inv s'"
proof (cases "\<exists>op ops. io_pc s = IRun (op # ops) \<or> io_pc s = IRunDelayed (op # ops)")
  case True
  then show ?thesis
    using assms order_inv_exec [OF assms(1)]
    by (auto simp: io_thread_step_def order_inv_def split: prod.splits)
next
  case False
  show ?thesis
  proof (cases "io_pc s")
    case IDelayed
    show ?thesis
    proof (cases "heap_pop io_delayed_le (io_delayed s)")
      case None
      then show ?thesis
        using assms IDelayed
        by (auto simp: io_thread_step_def io_run_delayed_def order_inv_def heap_peek_def split: if_splits)
    next
      case (Some p)
      obtain d h where p: "p = (d, h)" by fastforce
      have "heap_peek (io_delayed s) = Some d" using io_heap.pop_peek Some p by blast
      moreover have "heap_ordered io_delayed_le h"
        using io_heap.heap_pop_ordered [OF _ Some [unfolded p]] assms(1) by (simp add: order_inv_def)
      ultimately show ?thesis
        using assms IDelayed Some p
        by (auto simp: io_thread_step_def io_run_delayed_def order_inv_def io_state_defs split: if_splits)
    qed
  next
    case (IDispatch evs)
    show ?thesis
    proof (cases evs)
      case (Cons e rest)
      then show ?thesis
        using assms IDispatch
        by (cases e) (auto simp: io_thread_step_def io_dispatch_def order_inv_def io_state_defs split: prod.splits)
    qed (use assms IDispatch in \<open>auto simp: io_thread_step_def io_dispatch_def order_inv_def\<close>)
  next
    case IDrain
    then show ?thesis
      using assms
      by (cases "io_tasks s") (auto simp: io_thread_step_def io_drain_def order_inv_def io_state_defs)
  qed (use False assms in \<open>auto simp: io_thread_step_def io_drive_def io_check_def io_finish_def Let_def
        order_inv_def io_state_defs split: list.splits if_splits\<close>)
qed

lemma order_inv_step:
  assumes "order_inv s" and "io_step valid alive l s = Some s'"
  shows "order_inv s'"
proof (cases l)
  case IoThread
  then show ?thesis using assms order_inv_thread by simp
next
  case (IoCallStep i)
  then show ?thesis
    using assms order_inv_exec [OF assms(1)]
    by (auto simp: io_call_step_def order_inv_def split: if_splits list.splits prod.splits)
next
  case (IoClose i)
  then obtain pc t where r: "close_round (io_closers s ! i) s = Some (pc, t)"
      and s': "s' = t\<lparr>io_closers := (io_closers t)[i := pc]\<rparr>"
    using assms(2) by (auto simp: io_close_def split: if_splits option.splits)
  have "io_delayed t = io_delayed s \<and> io_log t = io_log s \<and> io_tasks t = io_tasks s"
    using r by (cases "(io_closers s ! i, s)" rule: close_round.cases) (auto split: if_splits)
  then show ?thesis using assms(1) by (simp add: s' order_inv_def)
qed (use assms in \<open>auto simp: io_answer_def epoll_returns_def epoll_fails_def io_finish_def order_inv_def
       io_state_defs split: io_pc.splits if_splits\<close>)

interpretation io_order: inductive_invariant io_init "io_step valid alive" order_inv for valid alive
proof
  show "order_inv s" if "io_init s" for s :: "'u io_runner"
    using that by (auto simp: io_init_def io_build_def order_inv_def)
qed (rule order_inv_step)


text \<open>What another thread does while the IO thread is anywhere: it keeps the invariant.\<close>

lemma wake_inv_other:
  assumes "wake_inv s" and "io_pc s' = io_pc s" and "io_now s \<le> io_now s'"
    and "signalled s \<Longrightarrow> signalled s'"
    and "signalled s' \<or> (io_tasks s' = io_tasks s \<and> io_delayed s' = io_delayed s \<and>
           pu_quit (io_pump s') = pu_quit (io_pump s))"
  shows "wake_inv s'"
proof (cases "signalled s'")
  case False
  then have "\<not> signalled s" and eq: "io_tasks s' = io_tasks s" "io_delayed s' = io_delayed s"
      "pu_quit (io_pump s') = pu_quit (io_pump s)"
    using assms(4,5) by auto
  moreover have "bounded t s \<Longrightarrow> bounded t s'" for t
    using eq assms(3) unfolding bounded_def by (metis le_trans)
  ultimately show ?thesis
    using assms(1,2) unfolding wake_inv_def by (auto split: io_pc.splits)
qed (simp add: wake_inv_def)

lemma signalled_calls:
  assumes "i < length (io_calls s)" and "io_calls s ! i = op # ops" and "exec_io_op op s = (new, t)"
    and "signalled s"
  shows "signalled (t\<lparr>io_calls := (io_calls t)[i := new @ ops]\<rparr>)"
proof (cases "0 < pu_wake (io_pump t) \<or> CSignal \<in> set (io_closers s)")
  case True
  then show ?thesis using exec_io_op_frame(3) [OF assms(3)] by (auto simp: signalled_def)
next
  case False
  then have "op \<noteq> IoSignal" using exec_io_op_signal(2) [OF assms(3)] by auto
  moreover have "\<not> 0 < pu_wake (io_pump s)" using False exec_io_op_frame(6) [OF assms(3)] by auto
  then obtain j where j: "j < length (io_calls s)" "IoSignal \<in> set (io_calls s ! j)"
    using assms(4) False unfolding signalled_def by (metis in_set_conv_nth)
  ultimately have "IoSignal \<in> set ((io_calls s)[i := new @ ops] ! j)"
    using assms(1,2) by (cases "j = i") auto
  then have "\<exists>c \<in> set ((io_calls s)[i := new @ ops]). IoSignal \<in> set c"
    using j(1) by (metis length_list_update nth_mem)
  then show ?thesis using exec_io_op_frame(2) [OF assms(3)] by (auto simp: signalled_def)
qed

lemma wake_inv_call_step:
  assumes "wake_inv s" and "io_call_step i s = Some s'"
  shows "wake_inv s'"
proof -
  obtain op ops new t where i: "i < length (io_calls s)" "io_calls s ! i = op # ops"
      and e: "exec_io_op op s = (new, t)" and s': "s' = t\<lparr>io_calls := (io_calls t)[i := new @ ops]\<rparr>"
    using assms(2) by (auto simp: io_call_step_def split: if_splits list.splits prod.splits)
  have "IoSignal \<in> set new \<Longrightarrow> signalled s'"
    using exec_io_op_frame(2) [OF e] bexI [OF _ set_update_memI [OF i(1), of "new @ ops"]]
    by (auto simp: s' signalled_def)
  then show ?thesis
    using signalled_calls [OF i e] exec_io_op_frame [OF e] exec_io_op_signal(1) [OF e]
    by (intro wake_inv_other [OF assms(1)]) (auto simp: s')
qed

lemma wake_inv_close:
  assumes "wake_inv s" and "io_close i s = Some s'"
  shows "wake_inv s'"
proof -
  obtain pc t where i: "i < length (io_closers s)" and r: "close_round (io_closers s ! i) s = Some (pc, t)"
      and s': "s' = t\<lparr>io_closers := (io_closers t)[i := pc]\<rparr>"
    using assms(2) by (auto simp: io_close_def split: if_splits option.splits)
  have fr: "io_closers t = io_closers s" "io_calls t = io_calls s" "io_pc t = io_pc s" "io_now t = io_now s"
      "io_tasks t = io_tasks s" "io_delayed t = io_delayed s" "pu_wake (io_pump s) \<le> pu_wake (io_pump t)"
    using r by (cases "(io_closers s ! i, s)" rule: close_round.cases;
        auto simp: schedule_work_def split: if_splits)+
  have new: "pc \<in> set ((io_closers s)[i := pc])" by (rule set_update_memI [OF i])
  have keep: "CSignal \<in> set ((io_closers s)[i := pc])"
    if "CSignal \<in> set (io_closers s)" "io_closers s ! i \<noteq> CSignal"
    using that by (metis in_set_conv_nth length_list_update nth_list_update_neq)
  have "io_closers s ! i = CSignal \<Longrightarrow> 0 < pu_wake (io_pump t)"
    using r by (auto simp: schedule_work_def)
  then have sig: "signalled s \<Longrightarrow> signalled s'"
    using keep fr by (cases "io_closers s ! i = CSignal") (auto simp: s' signalled_def)
  have "pu_quit (io_pump t) = pu_quit (io_pump s) \<or> pc = CSignal"
    using r by (cases "(io_closers s ! i, s)" rule: close_round.cases)
      (auto simp: schedule_work_def split: if_splits)
  then have "signalled s' \<or> pu_quit (io_pump s') = pu_quit (io_pump s)"
    using new fr by (auto simp: s' signalled_def)
  then show ?thesis
    using sig fr by (intro wake_inv_other [OF assms(1)]) (auto simp: s')
qed

lemma bounded_peek:
  assumes "heap_ordered io_delayed_le (io_delayed s)" and "heap_peek (io_delayed s) = Some d"
  shows "bounded (Some (id_deadline d)) s"
  using io_heap.peek_max [OF assms] by (auto simp: bounded_def io_delayed_le_def)

lemma bounded_wait:
  assumes "bounded next_deadline s"
  shows "bounded (if timeout_ms (io_now s) next_deadline < 0 then None
                  else Some (io_now s + nat (timeout_ms (io_now s) next_deadline) * 1000000)) s"
proof (cases next_deadline)
  case None
  then have "io_delayed s = []" using assms by (cases "io_delayed s") (auto simp: bounded_def)
  then show ?thesis by (simp add: bounded_def)
next
  case (Some t)
  have t0: "0 \<le> timeout_ms (io_now s) (Some t)" by (simp add: timeout_ms_def)
  have "io_now s + nat (timeout_ms (io_now s) (Some t)) * 1000000 \<le> max t (io_now s)"
  proof (cases "t \<le> io_now s")
    case True
    then show ?thesis by (simp add: timeout_ms_def)
  next
    case False
    then have "int (io_now s) + timeout_ms (io_now s) (Some t) * 1000000 \<le> int t"
      using timeout_ms_before [of "io_now s" t] by simp
    then show ?thesis using t0 by (simp add: max_def) linarith
  qed
  then show ?thesis
    using assms t0 Some unfolding bounded_def by (auto simp: max_def split: if_splits)
qed

lemma wake_inv_thread:
  assumes "wake_inv s" and "order_inv s" and "io_thread_step alive s = Some s'"
  shows "wake_inv s'"
proof (cases "io_pc s")
  case (IRun ops)
  then show ?thesis
    using assms(3) by (cases ops) (auto simp: io_thread_step_def wake_inv_def io_state_defs split: prod.splits)
next
  case IDrain
  then show ?thesis
    using assms(3)
    by (cases "io_tasks s") (auto simp: io_thread_step_def io_drain_def wake_inv_def io_state_defs)
next
  case IDelayed
  then have s': "s' = io_run_delayed s" using assms(3) by (simp add: io_thread_step_def)
  have sig: "signalled s \<or> io_tasks s = []" using assms(1) IDelayed by (simp add: wake_inv_def)
  have "heap_ordered io_delayed_le (io_delayed s)" using assms(2) by (simp add: order_inv_def)
  note b = bounded_peek [OF this]
  show ?thesis
  proof (cases "heap_peek (io_delayed s)")
    case None
    then show ?thesis
      using sig by (auto simp: s' io_run_delayed_def wake_inv_def bounded_def signalled_def)
  next
    case (Some d)
    show ?thesis
    proof (cases "id_deadline d \<le> io_now s")
      case True
      then show ?thesis
        using Some sig
        by (auto simp: s' io_run_delayed_def wake_inv_def io_state_defs signalled_def split: option.splits)
    next
      case False
      then show ?thesis
        using Some sig b [OF Some] by (auto simp: s' io_run_delayed_def wake_inv_def bounded_def signalled_def)
    qed
  qed
next
  case (IRunDelayed ops)
  show ?thesis
  proof (cases ops)
    case Nil
    then show ?thesis
      using assms(1,3) IRunDelayed
      by (auto simp: io_thread_step_def wake_inv_def io_state_defs signalled_def)
  next
    case (Cons op rest)
    then obtain new t where e: "exec_io_op op s = (new, t)" and s': "s' = t\<lparr>io_pc := IRunDelayed (new @ rest)\<rparr>"
      using assms(3) IRunDelayed by (auto simp: io_thread_step_def split: prod.splits)
    have "signalled s \<Longrightarrow> signalled s'"
      using exec_io_op_frame [OF e] by (auto simp: s' signalled_def)
    moreover have "op = IoSignal \<Longrightarrow> signalled s'"
      using exec_io_op_signal(2) [OF e] by (simp add: s' signalled_def)
    ultimately show ?thesis
      using assms(1) IRunDelayed Cons exec_io_op_signal(1) [OF e] by (auto simp: wake_inv_def s')
  qed
next
  case (ICheck next_deadline)
  then have s': "s' = io_check next_deadline s" using assms(3) by (simp add: io_thread_step_def)
  show ?thesis
  proof (cases "pu_quit (io_pump s)")
    case True
    then show ?thesis by (simp add: s' io_check_def wake_inv_def io_finish_def)
  next
    case False
    define until where "until = (if timeout_ms (io_now s) next_deadline < 0 then None
          else Some (io_now s + nat (timeout_ms (io_now s) next_deadline) * 1000000))"
    have s'': "s' = s\<lparr>io_pc := IWait until\<rparr>" using False by (simp add: s' io_check_def Let_def until_def)
    have "bounded next_deadline s \<Longrightarrow> bounded until s'"
      using bounded_wait [of next_deadline s] unfolding until_def [symmetric]
      by (simp add: s'' bounded_def)
    then show ?thesis
      using assms(1) ICheck False by (auto simp: wake_inv_def s'' signalled_def)
  qed
next
  case (IDispatch evs)
  show ?thesis
  proof (cases evs)
    case (Cons e rest)
    then show ?thesis
      using assms(3) IDispatch
      by (cases e) (auto simp: io_thread_step_def io_dispatch_def wake_inv_def io_state_defs split: prod.splits)
  qed (use assms(3) IDispatch in \<open>auto simp: io_thread_step_def io_dispatch_def wake_inv_def\<close>)
qed (use assms(3) in \<open>auto simp: io_thread_step_def io_drive_def wake_inv_def\<close>)

lemma register_fd_wake [simp]:
  "pu_wake (snd (register_fd valid fd persistent mode w p)) = pu_wake p"
  "pu_quit (snd (register_fd valid fd persistent mode w p)) = pu_quit p"
  by (auto simp: register_fd_def Let_def epoll_ctl_add_def epoll_ctl_mod_def)

lemma wake_inv_step:
  assumes "wake_inv s" and "order_inv s" and "io_step valid alive l s = Some s'"
  shows "wake_inv s'"
proof (cases l)
  case IoThread
  then show ?thesis using assms(3) wake_inv_thread [OF assms(1,2)] by simp
next
  case (IoCallStep i)
  then show ?thesis using assms(3) wake_inv_call_step [OF assms(1)] by simp
next
  case (IoClose i)
  then show ?thesis using assms(3) wake_inv_close [OF assms(1)] by simp
next
  case (IoEpoll evs interrupted)
  then show ?thesis
    using assms(3) by (auto simp: epoll_returns_def wake_inv_def split: io_pc.splits if_splits)
next
  case IoEpollError
  then show ?thesis
    using assms(3) by (auto simp: epoll_fails_def io_finish_def wake_inv_def split: io_pc.splits)
qed (use assms(3) in \<open>auto simp: io_answer_def io_state_defs signalled_def
       intro!: wake_inv_other [OF assms(1)]\<close>)

interpretation io_wake: inductive_invariant io_init "io_step valid alive" "\<lambda>s. order_inv s \<and> wake_inv s"
  for valid alive
proof
  show "order_inv s \<and> wake_inv s" if "io_init s" for s :: "'u io_runner"
    using that io_order.inv_init [OF that] by (auto simp: io_init_def io_build_def wake_inv_def)
  show "order_inv t \<and> wake_inv t" if "order_inv s \<and> wake_inv s" "io_step valid alive l s = Some t"
    for s t :: "'u io_runner" and l
    using that order_inv_step wake_inv_step by blast
qed

section \<open>Properties\<close>

lemma io_run_reach:
  "run (io_step valid alive) ls (io_build i tok monitored) = Some s \<Longrightarrow> reach io_init (io_step valid alive) s"
  by (rule reach_init_run) (auto simp: io_init_def)

text \<open>
  C10. The IO thread never sleeps on ready work: when it is blocked in \<open>epoll_wait\<close> and there is
  an immediate task, a due delayed task or a quit request, then the eventfd is readable, or the
  wait has run out, or a thread that posted or closed is about to signal the eventfd.
\<close>

theorem io_thread_never_sleeps_on_ready_work:
  assumes "reach io_init (io_step valid alive) s" and "io_pc s = IWait until"
    and "io_tasks s \<noteq> [] \<or> pu_quit (io_pump s) \<or> (\<exists>d \<in> set (io_delayed s). id_deadline d \<le> io_now s)"
  shows "0 < pu_wake (io_pump s) \<or> (\<exists>t. until = Some t \<and> t \<le> io_now s) \<or>
         (\<exists>ops \<in> set (io_calls s). IoSignal \<in> set ops) \<or> CSignal \<in> set (io_closers s)"
proof -
  have "wake_inv s" using io_wake.reach_inv [OF assms(1)] by blast
  then show ?thesis
    using assms(2,3) unfolding wake_inv_def signalled_def bounded_def by (auto intro: le_trans)
qed

definition io_trace :: "nat io_label list" where
  "io_trace = [IoThread, IoThread, IoThread, IoThread, IoPost (User 7), IoCallStep 0, IoCallStep 0]"

theorem io_thread_never_sleeps_on_ready_work_witness:
  "\<exists>s :: nat io_runner.
     run (io_step (\<lambda>_. True) (\<lambda>_. True)) io_trace (io_build 0 (SequenceToken 1) False) = Some s \<and>
     io_pc s = IWait None \<and> io_tasks s \<noteq> [] \<and>
     (0 < pu_wake (io_pump s) \<or> (\<exists>t. None = Some t \<and> t \<le> io_now s) \<or>
      (\<exists>ops \<in> set (io_calls s). IoSignal \<in> set ops) \<or> CSignal \<in> set (io_closers s))"
proof -
  have "case run (io_step (\<lambda>_. True) (\<lambda>_. True)) io_trace (io_build 0 (SequenceToken 1) False) of
      None \<Rightarrow> False | Some s \<Rightarrow> io_pc s = IWait None \<and> io_tasks s \<noteq> []"
    by code_simp
  then obtain s :: "nat io_runner" where
      s: "run (io_step (\<lambda>_. True) (\<lambda>_. True)) io_trace (io_build 0 (SequenceToken 1) False) = Some s"
      "io_pc s = IWait None" "io_tasks s \<noteq> []"
    by (auto split: option.splits)
  from io_thread_never_sleeps_on_ready_work [OF io_run_reach [OF s(1)] s(2)] s show ?thesis by blast
qed

text \<open>
  The immediate tasks of an \<open>IoTaskRunner\<close> start in the order in which they were queued,
  none is skipped and none starts twice, and no delayed task starts before its deadline.
\<close>

theorem io_tasks_run_in_order:
  assumes "reach io_init (io_step valid alive) s"
  shows "io_enters (io_log s) = io_starts (io_log s) @ io_tasks s \<and>
         (IoStartDelayed d t \<in> set (io_log s) \<longrightarrow> id_deadline d \<le> t)"
proof -
  have inv: "order_inv s" using io_order.reach_inv [OF assms] .
  then have "\<forall>e \<in> set (io_log s). on_time e" by (simp add: order_inv_def list_all_iff)
  then show ?thesis using inv by (auto simp: order_inv_def)
qed

definition io_delayed_trace :: "nat io_label list" where
  "io_delayed_trace = [IoPostDelayed (User 5) 3, IoCallStep 0, IoTick 4, IoPost (User 6), IoCallStep 1,
     IoThread, IoThread, IoThread, IoThread, IoThread, IoThread, IoThread]"

theorem io_tasks_run_in_order_witness:
  "\<exists>s :: nat io_runner.
     run (io_step (\<lambda>_. True) (\<lambda>_. True)) io_delayed_trace (io_build 0 (SequenceToken 1) False) = Some s \<and>
     IoStartDelayed \<lparr>id_deadline = 3, id_callback = User 5\<rparr> 4 \<in> set (io_log s) \<and>
     io_enters (io_log s) = io_starts (io_log s) @ io_tasks s"
proof -
  have "case run (io_step (\<lambda>_. True) (\<lambda>_. True)) io_delayed_trace (io_build 0 (SequenceToken 1) False) of
      None \<Rightarrow> False | Some s \<Rightarrow> IoStartDelayed \<lparr>id_deadline = 3, id_callback = User 5\<rparr> 4 \<in> set (io_log s)"
    by code_simp
  then obtain s :: "nat io_runner" where
      s: "run (io_step (\<lambda>_. True) (\<lambda>_. True)) io_delayed_trace (io_build 0 (SequenceToken 1) False) = Some s"
      "IoStartDelayed \<lparr>id_deadline = 3, id_callback = User 5\<rparr> 4 \<in> set (io_log s)"
    by (auto split: option.splits)
  from io_tasks_run_in_order [OF io_run_reach [OF s(1)]] s show ?thesis by blast
qed

end
