(* ===== verification/Wait_Set_Model.thy ===== *)
theory Wait_Set_Model
  imports Prelude
begin

text \<open>
  The wait set of \<open>rust_async/sync.rs\<close>: \<open>Waiters\<close>, a \<open>BTreeMap\<close> from monotonic ids to parked
  wakers.  The map is the list of its entries in ascending key order.  A waker is the name of
  the task it schedules.  \<open>usize\<close> ids are natural numbers: no run parks \<open>2 ^ 64\<close> futures.

  The locale \<open>wait_set\<close> is what the synchronisation primitives rely on; its lemmas say what
  parking, unparking and waking do to a list of futures of which each remembers its id, the
  waker of its last poll, and whether that waker was called since.
\<close>

section \<open>Entries in ascending key order\<close>

type_synonym waker = nat

fun btree_insert :: "nat \<Rightarrow> 'v \<Rightarrow> (nat \<times> 'v) list \<Rightarrow> (nat \<times> 'v) list" where
  "btree_insert k v [] = [(k, v)]"
| "btree_insert k v ((k', v') # es) =
     (if k < k' then (k, v) # (k', v') # es
      else if k = k' then (k, v) # es
      else (k', v') # btree_insert k v es)"

definition btree_remove :: "nat \<Rightarrow> (nat \<times> 'v) list \<Rightarrow> (nat \<times> 'v) list" where
  "btree_remove k es = filter (\<lambda>e. fst e \<noteq> k) es"

definition ascending :: "(nat \<times> 'v) list \<Rightarrow> bool" where
  "ascending es \<longleftrightarrow> sorted_wrt (<) (map fst es)"

lemma set_btree_insert_keys: "fst ` set (btree_insert k v es) = insert k (fst ` set es)"
  by (induction k v es rule: btree_insert.induct) auto

lemma ascending_insert: "ascending es \<Longrightarrow> ascending (btree_insert k v es)"
proof (induction k v es rule: btree_insert.induct)
  case (2 k v k' v' es)
  then show ?case
    using set_btree_insert_keys [of k v es] by (fastforce simp: ascending_def)
qed (simp add: ascending_def)

lemma ascending_remove: "ascending es \<Longrightarrow> ascending (btree_remove k es)"
  unfolding ascending_def btree_remove_def
  by (induction es) auto

lemma map_of_btree_insert: "map_of (btree_insert k v es) = (map_of es)(k \<mapsto> v)"
  by (induction k v es rule: btree_insert.induct) auto

lemma map_of_btree_remove: "map_of (btree_remove k es) = (map_of es)(k := None)"
  by (induction es) (auto simp: btree_remove_def fun_eq_iff)

lemma ascending_distinct: "ascending es \<Longrightarrow> distinct (map fst es)"
  unfolding ascending_def by (induction es) auto

section \<open>Waiters\<close>

record waiters =
  ws_next :: nat
  ws_map :: "(nat \<times> waker) list"

definition waiters_default :: waiters where
  "waiters_default = \<lparr>ws_next = 0, ws_map = []\<rparr>"

definition park :: "nat option \<Rightarrow> waker \<Rightarrow> waiters \<Rightarrow> nat option \<times> waiters" where
  "park i wk w =
     (case i of
        None \<Rightarrow> (Some (ws_next w),
                 \<lparr>ws_next = ws_next w + 1, ws_map = btree_insert (ws_next w) wk (ws_map w)\<rparr>)
      | Some k \<Rightarrow> (Some k, w\<lparr>ws_map := btree_insert k wk (ws_map w)\<rparr>))"

definition unpark :: "nat option \<Rightarrow> waiters \<Rightarrow> waiters" where
  "unpark i w = (case i of None \<Rightarrow> w | Some k \<Rightarrow> w\<lparr>ws_map := btree_remove k (ws_map w)\<rparr>)"

text \<open>\<open>wake_all\<close> and \<open>wake_one\<close>: the wakers called, in order, and the wait set left.\<close>

definition wake_all :: "waiters \<Rightarrow> waker list \<times> waiters" where
  "wake_all w = (map snd (ws_map w), w\<lparr>ws_map := []\<rparr>)"

definition wake_one :: "waiters \<Rightarrow> waker list \<times> waiters" where
  "wake_one w =
     (case ws_map w of
        [] \<Rightarrow> ([], w)
      | (k, wk) # _ \<Rightarrow> ([wk], w\<lparr>ws_map := btree_remove k (ws_map w)\<rparr>))"

definition waiters_wf :: "waiters \<Rightarrow> bool" where
  "waiters_wf w \<longleftrightarrow> ascending (ws_map w) \<and> (\<forall>e \<in> set (ws_map w). fst e < ws_next w)"

definition parked :: "waiters \<Rightarrow> nat \<rightharpoonup> waker" where
  "parked w = map_of (ws_map w)"

section \<open>Futures over a wait set\<close>

record 'k fut =
  fu_kind :: 'k
  fu_id :: "nat option"
  fu_waker :: waker
  fu_woken :: bool

text \<open>The id a future of one of the kinds \<open>P\<close> has in the wait set.\<close>

definition sel :: "('k \<Rightarrow> bool) \<Rightarrow> 'k fut \<Rightarrow> nat option" where
  "sel P f = (if P (fu_kind f) then fu_id f else None)"

definition wake_futs :: "waker list \<Rightarrow> 'k fut list \<Rightarrow> 'k fut list" where
  "wake_futs wks fs = map (\<lambda>f. if fu_waker f \<in> set wks then f\<lparr>fu_woken := True\<rparr> else f) fs"

text \<open>
  Every parked future is in the map under its own id with the waker of its last poll, or that
  waker was called; ids are not shared.
\<close>

definition parked_ok :: "nat \<Rightarrow> (nat \<rightharpoonup> waker) \<Rightarrow> ('k \<Rightarrow> bool) \<Rightarrow> 'k fut list \<Rightarrow> bool" where
  "parked_ok n m P fs \<longleftrightarrow>
     (\<forall>f \<in> set fs. \<forall>k. sel P f = Some k \<longrightarrow> k < n \<and> (fu_woken f \<or> m k = Some (fu_waker f))) \<and>
     (\<forall>i < length fs. \<forall>j < length fs. \<forall>k.
        sel P (fs ! i) = Some k \<longrightarrow> sel P (fs ! j) = Some k \<longrightarrow> i = j)"

text \<open>No entry outlives its future.\<close>

definition no_leak :: "(nat \<rightharpoonup> waker) \<Rightarrow> ('k \<Rightarrow> bool) \<Rightarrow> 'k fut list \<Rightarrow> bool" where
  "no_leak m P fs \<longleftrightarrow> (\<forall>k \<in> dom m. \<exists>f \<in> set fs. sel P f = Some k)"

lemma length_wake_futs [simp]: "length (wake_futs wks fs) = length fs"
  by (simp add: wake_futs_def)

lemma wake_futs_Nil [simp]: "wake_futs [] fs = fs"
  by (simp add: wake_futs_def)

lemma wake_futs_nth:
  "i < length fs \<Longrightarrow>
     wake_futs wks fs ! i = (fs ! i)\<lparr>fu_woken := fu_woken (fs ! i) \<or> fu_waker (fs ! i) \<in> set wks\<rparr>"
  by (auto simp: wake_futs_def)

lemma wake_futs_fields [simp]:
  assumes "i < length fs"
  shows "fu_kind (wake_futs wks fs ! i) = fu_kind (fs ! i)"
    and "fu_id (wake_futs wks fs ! i) = fu_id (fs ! i)"
    and "fu_waker (wake_futs wks fs ! i) = fu_waker (fs ! i)"
    and "fu_woken (wake_futs wks fs ! i) \<longleftrightarrow> fu_woken (fs ! i) \<or> fu_waker (fs ! i) \<in> set wks"
    and "sel P (wake_futs wks fs ! i) = sel P (fs ! i)"
  using assms by (simp_all add: wake_futs_nth sel_def)

lemma map_kind_wake_futs [simp]: "map fu_kind (wake_futs wks fs) = map fu_kind fs"
  by (simp add: wake_futs_def)

lemma parked_okI:
  assumes "\<And>i k. i < length fs \<Longrightarrow> sel P (fs ! i) = Some k \<Longrightarrow>
             k < n \<and> (fu_woken (fs ! i) \<or> m k = Some (fu_waker (fs ! i)))"
    and "\<And>i j k. i < length fs \<Longrightarrow> j < length fs \<Longrightarrow> sel P (fs ! i) = Some k \<Longrightarrow>
             sel P (fs ! j) = Some k \<Longrightarrow> i = j"
  shows "parked_ok n m P fs"
  using assms unfolding parked_ok_def by (metis in_set_conv_nth)

lemma parked_ok_nth:
  assumes "parked_ok n m P fs" and "i < length fs" and "sel P (fs ! i) = Some k"
  shows "k < n" and "fu_woken (fs ! i) \<or> m k = Some (fu_waker (fs ! i))"
  using assms by (auto simp: parked_ok_def)

lemma parked_ok_inj:
  assumes "parked_ok n m P fs" and "i < length fs" and "j < length fs"
    and "sel P (fs ! i) = Some k" and "sel P (fs ! j) = Some k"
  shows "i = j"
  using assms by (auto simp: parked_ok_def)

lemma parked_ok_Nil [simp]: "parked_ok n m P []"
  by (simp add: parked_ok_def)

lemma parked_ok_append:
  assumes "parked_ok n m P fs" and "sel P f = None"
  shows "parked_ok n m P (fs @ [f])"
proof (rule parked_okI)
  show "k < n \<and> (fu_woken ((fs @ [f]) ! i) \<or> m k = Some (fu_waker ((fs @ [f]) ! i)))"
    if "i < length (fs @ [f])" "sel P ((fs @ [f]) ! i) = Some k" for i k
    using that assms parked_ok_nth [OF assms(1), of i k]
    by (cases "i < length fs") (auto simp: nth_append)
  show "i = j" if "i < length (fs @ [f])" "j < length (fs @ [f])" "sel P ((fs @ [f]) ! i) = Some k"
    "sel P ((fs @ [f]) ! j) = Some k" for i j k
    using that assms parked_ok_inj [OF assms(1), of i j k]
    by (cases "i < length fs"; cases "j < length fs") (auto simp: nth_append)
qed

text \<open>A future that is not in this wait set may change as it likes.\<close>

lemma parked_ok_update_out:
  assumes "parked_ok n m P fs" and "sel P f = None"
  shows "parked_ok n m P (fs[i := f])"
proof (rule parked_okI)
  show "k < n \<and> (fu_woken (fs[i := f] ! j) \<or> m k = Some (fu_waker (fs[i := f] ! j)))"
    if "j < length (fs[i := f])" "sel P (fs[i := f] ! j) = Some k" for j k
    using that assms parked_ok_nth [OF assms(1), of j k] by (cases "i = j") auto
  show "j = l" if "j < length (fs[i := f])" "l < length (fs[i := f])" "sel P (fs[i := f] ! j) = Some k"
    "sel P (fs[i := f] ! l) = Some k" for j l k
    using that assms parked_ok_inj [OF assms(1), of j l k]
    by (cases "i = j"; cases "i = l") auto
qed

lemma parked_ok_wake:
  assumes "parked_ok n m P fs" and "\<And>k v. m k = Some v \<Longrightarrow> m' k = Some v \<or> v \<in> set wks"
  shows "parked_ok n m' P (wake_futs wks fs)"
proof (rule parked_okI)
  show "k < n \<and> (fu_woken (wake_futs wks fs ! i) \<or> m' k = Some (fu_waker (wake_futs wks fs ! i)))"
    if "i < length (wake_futs wks fs)" "sel P (wake_futs wks fs ! i) = Some k" for i k
    using that parked_ok_nth [OF assms(1), of i k] assms(2) [of k] by auto
  show "i = j" if "i < length (wake_futs wks fs)" "j < length (wake_futs wks fs)"
    "sel P (wake_futs wks fs ! i) = Some k" "sel P (wake_futs wks fs ! j) = Some k" for i j k
    using that parked_ok_inj [OF assms(1), of i j k] by simp
qed

lemma no_leak_empty [simp]: "no_leak Map.empty P fs"
  by (simp add: no_leak_def)

lemma no_leak_append: "no_leak m P fs \<Longrightarrow> no_leak m P (fs @ [f])"
  by (auto simp: no_leak_def)

lemma no_leak_wake:
  assumes "no_leak m P fs" and "dom m' \<subseteq> dom m"
  shows "no_leak m' P (wake_futs wks fs)"
proof -
  have "\<exists>f \<in> set (wake_futs wks fs). sel P f = Some k" if k: "k \<in> dom m'" for k
  proof -
    obtain i where "i < length fs" "sel P (fs ! i) = Some k"
      using assms k unfolding no_leak_def by (metis in_set_conv_nth subsetD)
    then show ?thesis by (metis length_wake_futs nth_mem wake_futs_fields(5))
  qed
  then show ?thesis by (simp add: no_leak_def)
qed

lemma no_leak_update:
  assumes "no_leak m P fs" and "i < length fs"
    and "\<And>k. k \<in> dom m' \<Longrightarrow> k \<in> dom m \<or> sel P f = Some k"
    and "\<And>k. sel P (fs ! i) = Some k \<Longrightarrow> sel P f = Some k \<or> k \<notin> dom m'"
  shows "no_leak m' P (fs[i := f])"
proof -
  have "\<exists>g \<in> set (fs[i := f]). sel P g = Some k" if k: "k \<in> dom m'" for k
  proof (cases "sel P f = Some k")
    case True
    then show ?thesis using assms(2) set_update_memI by fastforce
  next
    case False
    then have "k \<in> dom m" using assms(3) k by blast
    then obtain j where "j < length fs" "sel P (fs ! j) = Some k"
      using assms(1) unfolding no_leak_def by (metis in_set_conv_nth)
    moreover have "j \<noteq> i" using calculation False assms(4) k by metis
    ultimately show ?thesis by (metis length_list_update nth_list_update_neq nth_mem)
  qed
  then show ?thesis by (simp add: no_leak_def)
qed

section \<open>The contract of a wait set\<close>

locale wait_set =
  fixes wf :: "'w \<Rightarrow> bool"
    and fresh :: "'w \<Rightarrow> nat"
    and entries :: "'w \<Rightarrow> nat \<rightharpoonup> waker"
    and park_op :: "nat option \<Rightarrow> waker \<Rightarrow> 'w \<Rightarrow> nat option \<times> 'w"
    and unpark_op :: "nat option \<Rightarrow> 'w \<Rightarrow> 'w"
    and wake_all_op :: "'w \<Rightarrow> waker list \<times> 'w"
    and wake_one_op :: "'w \<Rightarrow> waker list \<times> 'w"
  assumes entries_fresh: "wf w \<Longrightarrow> entries w k = Some v \<Longrightarrow> k < fresh w"
    and park_new: "wf w \<Longrightarrow> park_op None wk w = (i, w') \<Longrightarrow>
      i = Some (fresh w) \<and> entries w' = (entries w)(fresh w \<mapsto> wk) \<and> fresh w' = Suc (fresh w) \<and> wf w'"
    and park_again: "wf w \<Longrightarrow> k < fresh w \<Longrightarrow> park_op (Some k) wk w = (i, w') \<Longrightarrow>
      i = Some k \<and> entries w' = (entries w)(k \<mapsto> wk) \<and> fresh w' = fresh w \<and> wf w'"
    and unpark_None: "unpark_op None w = w"
    and unpark_Some: "wf w \<Longrightarrow>
      entries (unpark_op (Some k) w) = (entries w)(k := None) \<and>
      fresh (unpark_op (Some k) w) = fresh w \<and> wf (unpark_op (Some k) w)"
    and wake_all_law: "wf w \<Longrightarrow> wake_all_op w = (wks, w') \<Longrightarrow>
      set wks = ran (entries w) \<and> entries w' = Map.empty \<and> fresh w' = fresh w \<and> wf w'"
    and wake_one_law: "wf w \<Longrightarrow> wake_one_op w = (wks, w') \<Longrightarrow>
      (if entries w = Map.empty then wks = [] \<and> w' = w
       else \<exists>k wk. entries w k = Some wk \<and> wks = [wk] \<and> (\<forall>k' \<in> dom (entries w). k \<le> k') \<and>
              entries w' = (entries w)(k := None) \<and> fresh w' = fresh w \<and> wf w')"
begin

definition holds :: "('k \<Rightarrow> bool) \<Rightarrow> 'k fut list \<Rightarrow> 'w \<Rightarrow> bool" where
  "holds P fs w \<longleftrightarrow> wf w \<and> parked_ok (fresh w) (entries w) P fs \<and> no_leak (entries w) P fs"

lemma holds_append: "holds P fs w \<Longrightarrow> sel P f = None \<Longrightarrow> holds P (fs @ [f]) w"
  by (simp add: holds_def parked_ok_append no_leak_append)

lemma holds_park:
  assumes h: "holds P fs w" and i: "i < length fs" and p: "park_op (sel P (fs ! i)) wk w = (n, w')"
    and f: "sel P f = n" "fu_waker f = wk"
  shows "holds P (fs[i := f]) w'"
proof -
  have ok: "parked_ok (fresh w) (entries w) P fs" "wf w" "no_leak (entries w) P fs"
    using h by (simp_all add: holds_def)
  obtain k where k: "n = Some k" "entries w' = (entries w)(k \<mapsto> wk)" "fresh w \<le> fresh w'" "wf w'" "k < fresh w'"
      "sel P (fs ! i) = Some k \<or> k = fresh w \<and> sel P (fs ! i) = None"
  proof (cases "sel P (fs ! i)")
    case None
    then have "park_op None wk w = (n, w')" using p by simp
    from park_new [OF ok(2) this] None show ?thesis by (intro that [of "fresh w"]) simp_all
  next
    case (Some k')
    then have "park_op (Some k') wk w = (n, w')" "k' < fresh w"
      using p parked_ok_nth(1) [OF ok(1) i] by simp_all
    from park_again [OF ok(2) this(2,1)] Some \<open>k' < fresh w\<close> show ?thesis
      by (intro that [of k']) simp_all
  qed
  have other: "k \<noteq> k'" if "j < length fs" "j \<noteq> i" "sel P (fs ! j) = Some k'" for j k'
    using that k(6) parked_ok_nth(1) [OF ok(1)] parked_ok_inj [OF ok(1)] i by fastforce
  have "parked_ok (fresh w') (entries w') P (fs[i := f])"
  proof (rule parked_okI)
    show "k' < fresh w' \<and> (fu_woken (fs[i := f] ! j) \<or> entries w' k' = Some (fu_waker (fs[i := f] ! j)))"
      if j: "j < length (fs[i := f])" "sel P (fs[i := f] ! j) = Some k'" for j k'
    proof (cases "j = i")
      case True
      then show ?thesis using that k f by auto
    next
      case False
      then show ?thesis using that k(2,3) other [of j k'] parked_ok_nth [OF ok(1), of j k'] by auto
    qed
    show "j = l" if "j < length (fs[i := f])" "l < length (fs[i := f])" "sel P (fs[i := f] ! j) = Some k'"
      "sel P (fs[i := f] ! l) = Some k'" for j l k'
      using that k(1) f(1) other [of j k'] other [of l k'] parked_ok_inj [OF ok(1), of j l k']
      by (cases "j = i"; cases "l = i") auto
  qed
  moreover have "no_leak (entries w') P (fs[i := f])"
    using k(1,6) f(1) by (intro no_leak_update [OF ok(3) i]) (auto simp: k(2) split: if_splits)
  ultimately show ?thesis using k(4) by (simp add: holds_def)
qed

lemma holds_unpark:
  assumes h: "holds P fs w" and i: "i < length fs" and f: "sel P f = None"
  shows "holds P (fs[i := f]) (unpark_op (sel P (fs ! i)) w)"
proof (cases "sel P (fs ! i)")
  case None
  have "parked_ok (fresh w) (entries w) P (fs[i := f])" "no_leak (entries w) P (fs[i := f])"
    using h f None by (auto simp: holds_def intro: parked_ok_update_out no_leak_update [OF _ i])
  then show ?thesis using h None by (simp add: holds_def unpark_None)
next
  case (Some k)
  have ok: "parked_ok (fresh w) (entries w) P fs" "wf w" "no_leak (entries w) P fs"
    using h by (simp_all add: holds_def)
  have other: "k \<noteq> k'" if "j < length fs" "j \<noteq> i" "sel P (fs ! j) = Some k'" for j k'
    using that Some parked_ok_inj [OF ok(1) _ i] by fastforce
  have "parked_ok (fresh w) ((entries w)(k := None)) P (fs[i := f])"
  proof (rule parked_okI)
    show "k' < fresh w \<and> (fu_woken (fs[i := f] ! j) \<or>
        ((entries w)(k := None)) k' = Some (fu_waker (fs[i := f] ! j)))"
      if "j < length (fs[i := f])" "sel P (fs[i := f] ! j) = Some k'" for j k'
      using that f other [of j k'] parked_ok_nth [OF ok(1), of j k'] by (cases "j = i") auto
    show "j = l" if "j < length (fs[i := f])" "l < length (fs[i := f])" "sel P (fs[i := f] ! j) = Some k'"
      "sel P (fs[i := f] ! l) = Some k'" for j l k'
      using that f parked_ok_inj [OF ok(1), of j l k'] by (cases "j = i"; cases "l = i") auto
  qed
  moreover have "no_leak ((entries w)(k := None)) P (fs[i := f])"
    using Some by (intro no_leak_update [OF ok(3) i]) (auto split: if_splits)
  ultimately show ?thesis using unpark_Some [OF ok(2), of k] Some by (simp add: holds_def)
qed

text \<open>A future that has no id in the wait set, before and after.\<close>

lemma holds_update_out:
  assumes "holds P fs w" and "i < length fs" and "sel P (fs ! i) = None" and "sel P f = None"
  shows "holds P (fs[i := f]) w"
  using holds_unpark [OF assms(1,2,4)] assms(3) by (simp add: unpark_None)

text \<open>A change of a future that keeps its id, its waker and a wake-up it got.\<close>

lemma holds_same:
  assumes h: "holds P fs w" and i: "i < length fs" and f: "sel P f = sel P (fs ! i)"
    and "fu_waker f = fu_waker (fs ! i)" and "fu_woken (fs ! i) \<Longrightarrow> fu_woken f"
  shows "holds P (fs[i := f]) w"
proof -
  have ok: "parked_ok (fresh w) (entries w) P fs" "no_leak (entries w) P fs"
    using h by (simp_all add: holds_def)
  have "parked_ok (fresh w) (entries w) P (fs[i := f])"
  proof (rule parked_okI)
    show "k < fresh w \<and> (fu_woken (fs[i := f] ! j) \<or> entries w k = Some (fu_waker (fs[i := f] ! j)))"
      if "j < length (fs[i := f])" "sel P (fs[i := f] ! j) = Some k" for j k
      using that assms(3-5) parked_ok_nth [OF ok(1), of j k] by (cases "j = i") auto
    show "j = l" if "j < length (fs[i := f])" "l < length (fs[i := f])" "sel P (fs[i := f] ! j) = Some k"
      "sel P (fs[i := f] ! l) = Some k" for j l k
      using that f parked_ok_inj [OF ok(1), of j l k] by (cases "j = i"; cases "l = i") auto
  qed
  moreover have "no_leak (entries w) P (fs[i := f])"
    using f by (intro no_leak_update [OF ok(2) i]) auto
  ultimately show ?thesis using h by (simp add: holds_def)
qed

lemma holds_wake: "holds P fs w \<Longrightarrow> holds P (wake_futs wks fs) w"
  by (auto simp: holds_def intro: parked_ok_wake no_leak_wake)

lemma holds_wake_all:
  assumes "holds P fs w" and "wake_all_op w = (wks, w')"
  shows "holds P (wake_futs wks fs) w'" and "entries w' = Map.empty"
    and "f \<in> set (wake_futs wks fs) \<Longrightarrow> sel P f = Some k \<Longrightarrow> fu_woken f"
proof -
  have law: "set wks = ran (entries w)" "entries w' = Map.empty" "fresh w' = fresh w" "wf w'"
    using wake_all_law assms by (auto simp: holds_def)
  have ok: "parked_ok (fresh w) (entries w') P (wake_futs wks fs)"
    using assms(1) law by (intro parked_ok_wake) (auto simp: holds_def intro: ranI)
  then show "holds P (wake_futs wks fs) w'" "entries w' = Map.empty" using law by (simp_all add: holds_def)
  show "fu_woken f" if "f \<in> set (wake_futs wks fs)" "sel P f = Some k"
    using ok that law(2) by (auto simp: parked_ok_def)
qed

lemma holds_wake_one:
  assumes "holds P fs w" and "wake_one_op w = (wks, w')"
  shows "holds P (wake_futs wks fs) w'"
proof (cases "entries w = Map.empty")
  case True
  then show ?thesis using wake_one_law [of w] assms holds_wake by (auto simp: holds_def)
next
  case False
  then obtain k wk where "entries w k = Some wk" "wks = [wk]" "entries w' = (entries w)(k := None)"
      "fresh w' = fresh w" "wf w'"
    using wake_one_law [of w] assms by (auto simp: holds_def)
  then show ?thesis
    using assms(1) by (auto simp: holds_def split: if_splits intro!: parked_ok_wake no_leak_wake)
qed

text \<open>A parked future that was not woken keeps the wait set from being empty.\<close>

lemma holds_entry:
  assumes "holds P fs w" and "f \<in> set fs" and "sel P f = Some k" and "\<not> fu_woken f"
  shows "entries w k = Some (fu_waker f)"
  using assms by (auto simp: holds_def parked_ok_def)

end

lemma ascending_least:
  assumes "ascending ((k, v) # es)" and "k' \<in> fst ` set ((k, v) # es)"
  shows "k \<le> k'"
  using assms by (auto simp: ascending_def)

lemma waiters_wf_insert:
  assumes "waiters_wf w" and "k < n" and "ws_next w \<le> n"
  shows "waiters_wf \<lparr>ws_next = n, ws_map = btree_insert k wk (ws_map w)\<rparr>"
proof -
  have "fst e < n" if "e \<in> set (btree_insert k wk (ws_map w))" for e
  proof -
    have "fst e \<in> insert k (fst ` set (ws_map w))"
      using that set_btree_insert_keys [of k wk "ws_map w"] by blast
    then show ?thesis using assms by (auto simp: waiters_wf_def)
  qed
  then show ?thesis using assms(1) by (simp add: waiters_wf_def ascending_insert)
qed

interpretation waiters: wait_set waiters_wf ws_next parked park unpark wake_all wake_one
proof
  fix w w' :: waiters and k i v wk wks
  show "k < ws_next w" if "waiters_wf w" "parked w k = Some v"
    using that by (auto simp: waiters_wf_def parked_def dest!: map_of_SomeD)
  show "i = Some (ws_next w) \<and> parked w' = (parked w)(ws_next w \<mapsto> wk) \<and>
      ws_next w' = Suc (ws_next w) \<and> waiters_wf w'"
    if "waiters_wf w" "park None wk w = (i, w')"
  proof -
    have "w' = \<lparr>ws_next = ws_next w + 1, ws_map = btree_insert (ws_next w) wk (ws_map w)\<rparr>"
      "i = Some (ws_next w)" using that(2) by (simp_all add: park_def)
    then show ?thesis
      using that(1) waiters_wf_insert [of w "ws_next w" "ws_next w + 1" wk]
      by (simp add: parked_def map_of_btree_insert)
  qed
  show "i = Some k \<and> parked w' = (parked w)(k \<mapsto> wk) \<and> ws_next w' = ws_next w \<and> waiters_wf w'"
    if "waiters_wf w" "k < ws_next w" "park (Some k) wk w = (i, w')"
  proof -
    have "w' = \<lparr>ws_next = ws_next w, ws_map = btree_insert k wk (ws_map w)\<rparr>" "i = Some k"
      using that(3) by (cases w; simp add: park_def)+
    then show ?thesis
      using that(1,2) waiters_wf_insert [of w k "ws_next w" wk]
      by (simp add: parked_def map_of_btree_insert)
  qed
  show "unpark None w = w" by (simp add: unpark_def)
  show "parked (unpark (Some k) w) = (parked w)(k := None) \<and>
      ws_next (unpark (Some k) w) = ws_next w \<and> waiters_wf (unpark (Some k) w)" if "waiters_wf w"
    using that by (auto simp: unpark_def waiters_wf_def parked_def map_of_btree_remove ascending_remove)
      (auto simp: btree_remove_def)
  show "set wks = ran (parked w) \<and> parked w' = Map.empty \<and> ws_next w' = ws_next w \<and> waiters_wf w'"
    if "waiters_wf w" "wake_all w = (wks, w')"
  proof -
    have "ran (map_of (ws_map w)) = snd ` set (ws_map w)"
      using that(1) by (intro ran_distinct ascending_distinct) (simp add: waiters_wf_def)
    then show ?thesis using that(2) by (force simp: wake_all_def waiters_wf_def parked_def ascending_def)
  qed
  show "if parked w = Map.empty then wks = [] \<and> w' = w
        else \<exists>k wk. parked w k = Some wk \<and> wks = [wk] \<and> (\<forall>k' \<in> dom (parked w). k \<le> k') \<and>
              parked w' = (parked w)(k := None) \<and> ws_next w' = ws_next w \<and> waiters_wf w'"
    if "waiters_wf w" "wake_one w = (wks, w')"
  proof (cases "ws_map w")
    case Nil
    then show ?thesis using that by (auto simp: wake_one_def parked_def)
  next
    case (Cons e es)
    obtain k0 wk0 where e: "e = (k0, wk0)" by (cases e)
    have eq: "wks = [wk0]" "w' = w\<lparr>ws_map := btree_remove k0 (ws_map w)\<rparr>"
      using that(2) Cons e by (auto simp: wake_one_def)
    have least: "\<forall>k' \<in> dom (parked w). k0 \<le> k'"
      using that(1) Cons e ascending_least [of k0 wk0 es]
      by (auto simp: parked_def waiters_wf_def dom_map_of_conv_image_fst simp del: map_of.simps)
    have "waiters_wf w'"
      using that(1) by (auto simp: eq waiters_wf_def ascending_remove) (auto simp: btree_remove_def)
    moreover have "parked w k0 = Some wk0" using Cons e by (simp add: parked_def)
    moreover have "parked w' = (parked w)(k0 := None)" by (simp add: eq parked_def map_of_btree_remove)
    ultimately show ?thesis using least eq by fastforce
  qed
qed

lemma parked_unpark_empty: "parked w = Map.empty \<Longrightarrow> parked (unpark i w) = Map.empty"
  by (cases i) (simp_all add: unpark_def parked_def map_of_btree_remove)

lemma waiters_default_holds [simp]: "waiters.holds P [] waiters_default"
  by (simp add: waiters.holds_def waiters_default_def waiters_wf_def parked_def ascending_def)

end
