(* ===== verification/Async_Mutex_Model.thy ===== *)
theory Async_Mutex_Model
  imports Wait_Set_Model
begin

text \<open>
  \<open>Mutex\<close> and \<open>Condvar\<close> of \<open>rust_async/sync.rs\<close>.  The operations are functions on the mutex and
  the condition variable; the machine runs any number of tasks over one mutex and one condition
  variable, one step per region under a \<open>std::sync::Mutex\<close>.  A \<open>CondvarWait\<close> poll consists of
  two such regions, so it takes two steps, between which other tasks may act.
\<close>

section \<open>Mutex\<close>

record 'v mutex =
  mx_locked :: bool
  mx_waiters :: waiters
  mx_data :: 'v

definition mutex_new :: "'v \<Rightarrow> 'v mutex" where
  "mutex_new v = \<lparr>mx_locked = False, mx_waiters = waiters_default, mx_data = v\<rparr>"

text \<open>\<open>try_lock\<close>: whether a guard was handed out.\<close>

definition try_lock :: "'v mutex \<Rightarrow> bool \<times> 'v mutex" where
  "try_lock m = (if mx_locked m then (False, m) else (True, m\<lparr>mx_locked := True\<rparr>))"

text \<open>\<open>Lock::poll\<close>, for a future with id \<open>i\<close>: \<open>Ready\<close> hands out a guard.\<close>

definition lock_poll :: "nat option \<Rightarrow> waker \<Rightarrow> 'v mutex \<Rightarrow> unit poll \<times> nat option \<times> 'v mutex" where
  "lock_poll i wk m =
     (if \<not> mx_locked m
      then (Ready (), None, m\<lparr>mx_locked := True, mx_waiters := unpark i (mx_waiters m)\<rparr>)
      else case park i wk (mx_waiters m) of (i', ws) \<Rightarrow> (Pending, i', m\<lparr>mx_waiters := ws\<rparr>))"

definition lock_drop :: "nat option \<Rightarrow> 'v mutex \<Rightarrow> 'v mutex" where
  "lock_drop i m = (if i \<noteq> None then m\<lparr>mx_waiters := unpark i (mx_waiters m)\<rparr> else m)"

definition guard_drop :: "'v mutex \<Rightarrow> waker list \<times> 'v mutex" where
  "guard_drop m =
     (case wake_all (mx_waiters m) of (wks, ws) \<Rightarrow> (wks, m\<lparr>mx_locked := False, mx_waiters := ws\<rparr>))"

definition guard_deref :: "'v mutex \<Rightarrow> 'v" where
  "guard_deref m = mx_data m"

definition guard_deref_mut :: "'v \<Rightarrow> 'v mutex \<Rightarrow> 'v mutex" where
  "guard_deref_mut v m = m\<lparr>mx_data := v\<rparr>"

section \<open>Condvar\<close>

definition notify_one :: "waiters \<Rightarrow> waker list \<times> waiters" where
  "notify_one cv = wake_one cv"

definition notify_all :: "waiters \<Rightarrow> waker list \<times> waiters" where
  "notify_all cv = wake_all cv"

text \<open>
  The futures of the machine.  A \<open>Lock\<close> future is \<open>KLock\<close>.  A \<open>CondvarWait\<close> is \<open>KCvInit\<close> while it
  holds the guard, \<open>KCvParked\<close> between the two regions of its first poll, \<open>KCvWaiting\<close> after it,
  \<open>KCvUnparked\<close> between the two regions of the poll that leaves \<open>Waiting\<close>, and \<open>KCvRelock\<close> once
  its inner \<open>Lock\<close> is pending.  \<open>fu_id\<close> is the id in the wait set of the condition variable for
  \<open>KCvParked\<close> and \<open>KCvWaiting\<close>, and in that of the mutex for \<open>KLock\<close> and \<open>KCvRelock\<close>.
\<close>

datatype sync_kind = KLock | KCvInit | KCvParked | KCvWaiting | KCvUnparked | KCvRelock | KDone

definition on_mutex :: "sync_kind \<Rightarrow> bool" where
  "on_mutex k \<longleftrightarrow> k = KLock \<or> k = KCvRelock"

definition on_condvar :: "sync_kind \<Rightarrow> bool" where
  "on_condvar k \<longleftrightarrow> k = KCvParked \<or> k = KCvWaiting"

definition holding :: "sync_kind \<Rightarrow> bool" where
  "holding k \<longleftrightarrow> k = KCvInit \<or> k = KCvParked"

record 'v sync_state =
  sy_mutex :: "'v mutex"
  sy_cv :: waiters
  sy_futs :: "sync_kind fut list"
  sy_guards :: nat

definition sync_new :: "'v \<Rightarrow> 'v sync_state" where
  "sync_new v = \<lparr>sy_mutex = mutex_new v, sy_cv = waiters_default, sy_futs = [], sy_guards = 0\<rparr>"

definition new_fut :: "'k \<Rightarrow> 'k fut" where
  "new_fut k = \<lparr>fu_kind = k, fu_id = None, fu_waker = 0, fu_woken = False\<rparr>"

definition set_fut :: "nat \<Rightarrow> sync_kind fut \<Rightarrow> 'v sync_state \<Rightarrow> 'v sync_state" where
  "set_fut i f s = s\<lparr>sy_futs := (sy_futs s)[i := f]\<rparr>"

definition wake_tasks :: "waker list \<Rightarrow> 'v sync_state \<Rightarrow> 'v sync_state" where
  "wake_tasks wks s = s\<lparr>sy_futs := wake_futs wks (sy_futs s)\<rparr>"

text \<open>The drop of a guard, with the tasks it wakes.\<close>

definition release :: "'v sync_state \<Rightarrow> 'v sync_state" where
  "release s = (case guard_drop (sy_mutex s) of (wks, m) \<Rightarrow> wake_tasks wks (s\<lparr>sy_mutex := m\<rparr>))"

text \<open>A poll of the (inner) \<open>Lock\<close> of future \<open>i\<close>; \<open>pend\<close> is the kind of a pending one.\<close>

definition poll_lock :: "nat \<Rightarrow> sync_kind \<Rightarrow> waker \<Rightarrow> bool \<Rightarrow> 'v sync_state \<Rightarrow> 'v sync_state" where
  "poll_lock i pend wk woken s =
     (case lock_poll (sel on_mutex (sy_futs s ! i)) wk (sy_mutex s) of
        (Ready _, i', m) \<Rightarrow>
          set_fut i \<lparr>fu_kind = KDone, fu_id = None, fu_waker = wk, fu_woken = woken\<rparr>
            (s\<lparr>sy_mutex := m, sy_guards := sy_guards s + 1\<rparr>)
      | (Pending, i', m) \<Rightarrow>
          set_fut i \<lparr>fu_kind = pend, fu_id = i', fu_waker = wk, fu_woken = woken\<rparr> (s\<lparr>sy_mutex := m\<rparr>))"

datatype 'v sync_label =
    TryLock
  | NewLock
  | Poll nat waker
  | PollRest nat
  | DropFuture nat
  | DropGuard
  | Assign 'v
  | CvWait
  | NotifyOne
  | NotifyAll

text \<open>\<open>Poll\<close>: the first region of a poll of future \<open>i\<close>.\<close>

definition sync_poll :: "nat \<Rightarrow> waker \<Rightarrow> 'v sync_state \<Rightarrow> 'v sync_state option" where
  "sync_poll i wk s =
     (if length (sy_futs s) \<le> i then None
      else let f = sy_futs s ! i in
        case fu_kind f of
          KLock \<Rightarrow> Some (poll_lock i KLock wk False s)
        | KCvInit \<Rightarrow>
            (case park (fu_id f) wk (sy_cv s) of
               (i', cv) \<Rightarrow>
                 Some (set_fut i \<lparr>fu_kind = KCvParked, fu_id = i', fu_waker = wk, fu_woken = False\<rparr>
                   (s\<lparr>sy_cv := cv\<rparr>)))
        | KCvWaiting \<Rightarrow>
            Some (set_fut i \<lparr>fu_kind = KCvUnparked, fu_id = None, fu_waker = wk, fu_woken = False\<rparr>
              (s\<lparr>sy_cv := unpark (fu_id f) (sy_cv s)\<rparr>))
        | KCvRelock \<Rightarrow> Some (poll_lock i KCvRelock wk False s)
        | _ \<Rightarrow> None)"

text \<open>\<open>PollRest\<close>: the second region of a poll of a \<open>CondvarWait\<close>.\<close>

definition sync_poll_rest :: "nat \<Rightarrow> 'v sync_state \<Rightarrow> 'v sync_state option" where
  "sync_poll_rest i s =
     (if length (sy_futs s) \<le> i then None
      else let f = sy_futs s ! i in
        case fu_kind f of
          KCvParked \<Rightarrow> Some (release (set_fut i (f\<lparr>fu_kind := KCvWaiting\<rparr>) s))
        | KCvUnparked \<Rightarrow> Some (poll_lock i KCvRelock (fu_waker f) (fu_woken f) s)
        | _ \<Rightarrow> None)"

text \<open>Dropping a future that is not being polled.\<close>

definition sync_drop :: "nat \<Rightarrow> 'v sync_state \<Rightarrow> 'v sync_state option" where
  "sync_drop i s =
     (if length (sy_futs s) \<le> i then None
      else let f = sy_futs s ! i; s' = set_fut i (f\<lparr>fu_kind := KDone\<rparr>) s in
        case fu_kind f of
          KLock \<Rightarrow> Some (s'\<lparr>sy_mutex := lock_drop (fu_id f) (sy_mutex s)\<rparr>)
        | KCvRelock \<Rightarrow> Some (s'\<lparr>sy_mutex := lock_drop (fu_id f) (sy_mutex s)\<rparr>)
        | KCvWaiting \<Rightarrow> Some (s'\<lparr>sy_cv := unpark (fu_id f) (sy_cv s)\<rparr>)
        | KCvInit \<Rightarrow> Some (release s')
        | _ \<Rightarrow> None)"

fun sync_step :: "'v sync_label \<Rightarrow> 'v sync_state \<Rightarrow> 'v sync_state option" where
  "sync_step TryLock s =
     (case try_lock (sy_mutex s) of
        (ok, m) \<Rightarrow> Some (s\<lparr>sy_mutex := m, sy_guards := sy_guards s + (if ok then 1 else 0)\<rparr>))"
| "sync_step NewLock s = Some (s\<lparr>sy_futs := sy_futs s @ [new_fut KLock]\<rparr>)"
| "sync_step (Poll i wk) s = sync_poll i wk s"
| "sync_step (PollRest i) s = sync_poll_rest i s"
| "sync_step (DropFuture i) s = sync_drop i s"
| "sync_step DropGuard s =
     (if sy_guards s = 0 then None else Some (release (s\<lparr>sy_guards := sy_guards s - 1\<rparr>)))"
| "sync_step (Assign v) s =
     (if sy_guards s = 0 then None else Some (s\<lparr>sy_mutex := guard_deref_mut v (sy_mutex s)\<rparr>))"
| "sync_step CvWait s =
     (if sy_guards s = 0 then None
      else Some (s\<lparr>sy_guards := sy_guards s - 1, sy_futs := sy_futs s @ [new_fut KCvInit]\<rparr>))"
| "sync_step NotifyOne s =
     (case notify_one (sy_cv s) of (wks, cv) \<Rightarrow> Some (wake_tasks wks (s\<lparr>sy_cv := cv\<rparr>)))"
| "sync_step NotifyAll s =
     (case notify_all (sy_cv s) of (wks, cv) \<Rightarrow> Some (wake_tasks wks (s\<lparr>sy_cv := cv\<rparr>)))"

definition sync_init :: "'v sync_state \<Rightarrow> bool" where
  "sync_init s \<longleftrightarrow> (\<exists>v. s = sync_new v)"

section \<open>Invariant\<close>

text \<open>The guards that exist: handed out to a task, or held by a \<open>CondvarWait\<close>.\<close>

definition live_guards :: "'v sync_state \<Rightarrow> nat" where
  "live_guards s = sy_guards s + sum_list (map (\<lambda>f. of_bool (holding (fu_kind f))) (sy_futs s))"

definition init_fresh :: "sync_kind fut list \<Rightarrow> bool" where
  "init_fresh fs \<longleftrightarrow> (\<forall>f \<in> set fs. fu_kind f = KCvInit \<longrightarrow> fu_id f = None)"

definition sync_inv :: "'v sync_state \<Rightarrow> bool" where
  "sync_inv s \<longleftrightarrow>
     waiters.holds on_mutex (sy_futs s) (mx_waiters (sy_mutex s)) \<and>
     waiters.holds on_condvar (sy_futs s) (sy_cv s) \<and> init_fresh (sy_futs s) \<and>
     (\<not> mx_locked (sy_mutex s) \<longrightarrow> parked (mx_waiters (sy_mutex s)) = Map.empty) \<and>
     live_guards s = of_bool (mx_locked (sy_mutex s))"

lemma init_fresh_update [simp]:
  "init_fresh fs \<Longrightarrow> fu_kind f \<noteq> KCvInit \<or> fu_id f = None \<Longrightarrow> init_fresh (fs[i := f])"
  using set_update_subset_insert [of fs i f] by (auto simp: init_fresh_def)

lemma init_fresh_append [simp]: "init_fresh fs \<Longrightarrow> fu_id f = None \<Longrightarrow> init_fresh (fs @ [f])"
  by (auto simp: init_fresh_def)

lemma init_fresh_wake [simp]: "init_fresh fs \<Longrightarrow> init_fresh (wake_futs wks fs)"
  by (auto simp: init_fresh_def wake_futs_def)

lemmas kind_defs = on_mutex_def on_condvar_def holding_def

lemma sel_kind [simp]:
  "sel P \<lparr>fu_kind = k, fu_id = i, fu_waker = wk, fu_woken = b\<rparr> = (if P k then i else None)"
  by (simp add: sel_def)

lemma sel_update_kind [simp]: "sel P (f\<lparr>fu_kind := k\<rparr>) = (if P k then fu_id f else None)"
  by (simp add: sel_def)

lemma sel_new_fut [simp]: "sel P (new_fut k) = None"
  by (simp add: new_fut_def)

lemma live_guards_wake [simp]:
  "live_guards (wake_tasks wks s) = live_guards s"
proof -
  have "map (\<lambda>f. of_bool (holding (fu_kind f)) :: nat) (wake_futs wks (sy_futs s)) =
      map (\<lambda>f. of_bool (holding (fu_kind f))) (sy_futs s)"
    by (auto simp: wake_futs_def)
  then show ?thesis by (simp add: live_guards_def wake_tasks_def)
qed

lemma live_guards_set_fut:
  assumes "i < length (sy_futs s)"
  shows "live_guards (set_fut i f s) + of_bool (holding (fu_kind (sy_futs s ! i))) =
         live_guards s + of_bool (holding (fu_kind f))"
  using sum_list_update_nat [OF assms, of "\<lambda>f. of_bool (holding (fu_kind f))" f]
  by (simp add: live_guards_def set_fut_def)

text \<open>A drop of one of the live guards.\<close>

lemma release_inv:
  assumes "waiters.holds on_mutex (sy_futs s) (mx_waiters (sy_mutex s))"
    and "waiters.holds on_condvar (sy_futs s) (sy_cv s)"
    and "live_guards s = 0" and "init_fresh (sy_futs s)"
  shows "sync_inv (release s)"
proof -
  obtain wks ws where w: "wake_all (mx_waiters (sy_mutex s)) = (wks, ws)" by fastforce
  have "live_guards (release s) = 0"
    using assms(3) by (simp add: release_def guard_drop_def w) (simp add: live_guards_def)
  then show ?thesis
    using waiters.holds_wake_all(1,2) [OF assms(1) w] waiters.holds_wake [OF assms(2), of wks] assms(4)
    by (simp add: sync_inv_def release_def guard_drop_def w wake_tasks_def)
qed

lemma poll_lock_inv:
  assumes inv: "sync_inv s" and i: "i < length (sy_futs s)"
    and out: "sel on_condvar (sy_futs s ! i) = None" "\<not> holding (fu_kind (sy_futs s ! i))"
    and pend: "on_mutex pend"
  shows "sync_inv (poll_lock i pend wk woken s)"
proof -
  let ?f = "\<lambda>k n. \<lparr>fu_kind = k, fu_id = n, fu_waker = wk, fu_woken = woken\<rparr> :: sync_kind fut"
  have pc: "\<not> on_condvar pend" "\<not> holding pend" using pend by (auto simp: kind_defs)
  have mx: "waiters.holds on_mutex (sy_futs s) (mx_waiters (sy_mutex s))"
    and cv: "waiters.holds on_condvar (sy_futs s) (sy_cv s)"
    and g: "live_guards s = of_bool (mx_locked (sy_mutex s))" and fr: "init_fresh (sy_futs s)"
    using inv by (simp_all add: sync_inv_def)
  have cv': "waiters.holds on_condvar ((sy_futs s)[i := ?f k n]) (sy_cv s)" if "\<not> on_condvar k" for k n
    using that by (intro waiters.holds_update_out [OF cv i out(1)]) simp
  show ?thesis
  proof (cases "mx_locked (sy_mutex s)")
    case True
    obtain n ws where p: "park (sel on_mutex (sy_futs s ! i)) wk (mx_waiters (sy_mutex s)) = (n, ws)"
      by fastforce
    have "waiters.holds on_mutex ((sy_futs s)[i := ?f pend n]) ws"
      using pend by (intro waiters.holds_park [OF mx i p]) simp_all
    moreover have "live_guards (set_fut i (?f pend n) s) = live_guards s"
      using live_guards_set_fut [OF i, of "?f pend n"] out pc by simp
    ultimately show ?thesis
      using True g cv' [of pend n] pc p fr pend
      by (simp add: poll_lock_def lock_poll_def sync_inv_def set_fut_def live_guards_def kind_defs)
  next
    case False
    let ?ws = "unpark (sel on_mutex (sy_futs s ! i)) (mx_waiters (sy_mutex s))"
    have h: "waiters.holds on_mutex ((sy_futs s)[i := ?f KDone None]) ?ws"
      by (intro waiters.holds_unpark [OF mx i]) simp
    have "parked (mx_waiters (sy_mutex s)) = Map.empty" using inv False by (simp add: sync_inv_def)
    moreover have "live_guards (set_fut i (?f KDone None) s) = live_guards s"
      using live_guards_set_fut [OF i, of "?f KDone None"] out by (simp add: kind_defs)
    ultimately show ?thesis
      using False g h cv' [of KDone None] fr
      by (simp add: poll_lock_def lock_poll_def sync_inv_def set_fut_def live_guards_def kind_defs)
  qed
qed

lemma sync_invD:
  assumes "sync_inv s"
  shows "waiters.holds on_mutex (sy_futs s) (mx_waiters (sy_mutex s))"
    and "waiters.holds on_condvar (sy_futs s) (sy_cv s)"
    and "\<not> mx_locked (sy_mutex s) \<Longrightarrow> parked (mx_waiters (sy_mutex s)) = Map.empty"
    and "live_guards s = of_bool (mx_locked (sy_mutex s))" and "init_fresh (sy_futs s)"
  using assms by (simp_all add: sync_inv_def)

lemma sync_poll_inv:
  assumes inv: "sync_inv s" and step: "sync_poll i wk s = Some t"
  shows "sync_inv t"
proof -
  let ?f = "sy_futs s ! i"
  let ?g = "\<lambda>k n. \<lparr>fu_kind = k, fu_id = n, fu_waker = wk, fu_woken = False\<rparr> :: sync_kind fut"
  note d = sync_invD [OF inv]
  have i: "i < length (sy_futs s)" using step by (auto simp: sync_poll_def split: if_splits)
  have lg: "live_guards (set_fut i (?g k n) s) = live_guards s"
    if "holding k = holding (fu_kind ?f)" for k n
    using live_guards_set_fut [OF i, of "?g k n"] that by simp
  consider (lock) "on_mutex (fu_kind ?f)" | (start) "fu_kind ?f = KCvInit" | (wait) "fu_kind ?f = KCvWaiting"
    using step i by (cases "fu_kind ?f") (auto simp: sync_poll_def kind_defs)
  then show ?thesis
  proof cases
    case lock
    then have "t = poll_lock i (fu_kind ?f) wk False s"
      using step i by (auto simp: sync_poll_def kind_defs)
    then show ?thesis
      using lock by (auto intro!: poll_lock_inv [OF inv i] simp: sel_def kind_defs)
  next
    case start
    obtain n cv where p: "park (fu_id ?f) wk (sy_cv s) = (n, cv)" by fastforce
    have t: "t = set_fut i (?g KCvParked n) (s\<lparr>sy_cv := cv\<rparr>)"
      using step i start p by (simp add: sync_poll_def)
    have "sel on_condvar ?f = fu_id ?f"
      using d(5) i start by (simp add: init_fresh_def sel_def kind_defs)
    then have "waiters.holds on_condvar ((sy_futs s)[i := ?g KCvParked n]) cv"
      using p by (intro waiters.holds_park [OF d(2) i, where n = n]) (simp_all add: kind_defs)
    moreover have "waiters.holds on_mutex ((sy_futs s)[i := ?g KCvParked n]) (mx_waiters (sy_mutex s))"
      using start by (intro waiters.holds_update_out [OF d(1) i]) (simp_all add: sel_def kind_defs)
    ultimately show ?thesis
      using d(3-5) lg [of KCvParked n] start
      by (simp add: t sync_inv_def set_fut_def live_guards_def kind_defs)
  next
    case wait
    then have t: "t = set_fut i (?g KCvUnparked None) (s\<lparr>sy_cv := unpark (sel on_condvar ?f) (sy_cv s)\<rparr>)"
      using step i by (simp add: sync_poll_def sel_def kind_defs)
    have "waiters.holds on_condvar ((sy_futs s)[i := ?g KCvUnparked None]) (unpark (sel on_condvar ?f) (sy_cv s))"
      by (intro waiters.holds_unpark [OF d(2) i]) simp
    moreover have "waiters.holds on_mutex ((sy_futs s)[i := ?g KCvUnparked None]) (mx_waiters (sy_mutex s))"
      using wait by (intro waiters.holds_update_out [OF d(1) i]) (simp_all add: sel_def kind_defs)
    ultimately show ?thesis
      using d(3-5) lg [of KCvUnparked None] wait
      by (simp add: t sync_inv_def set_fut_def live_guards_def kind_defs)
  qed
qed

lemma sync_poll_rest_inv:
  assumes inv: "sync_inv s" and step: "sync_poll_rest i s = Some t"
  shows "sync_inv t"
proof -
  let ?f = "sy_futs s ! i"
  let ?g = "?f\<lparr>fu_kind := KCvWaiting\<rparr>"
  note d = sync_invD [OF inv]
  have i: "i < length (sy_futs s)" using step by (auto simp: sync_poll_rest_def split: if_splits)
  consider (park) "fu_kind ?f = KCvParked" "t = release (set_fut i ?g s)"
    | (unpark) "fu_kind ?f = KCvUnparked" "t = poll_lock i KCvRelock (fu_waker ?f) (fu_woken ?f) s"
    using step i by (cases "fu_kind ?f") (auto simp: sync_poll_rest_def Let_def)
  then show ?thesis
  proof cases
    case park
    have s: "sel on_condvar ?g = sel on_condvar ?f" using park(1) by (simp add: sel_def kind_defs)
    have "waiters.holds on_condvar ((sy_futs s)[i := ?g]) (sy_cv s)"
      using d(2) i s by (intro waiters.holds_same [OF d(2) i s]) simp_all
    moreover have "waiters.holds on_mutex ((sy_futs s)[i := ?g]) (mx_waiters (sy_mutex s))"
      using park(1) by (intro waiters.holds_update_out [OF d(1) i]) (simp_all add: sel_def kind_defs)
    moreover have "live_guards (set_fut i ?g s) + 1 = live_guards s"
      using live_guards_set_fut [OF i, of ?g] park(1) by (simp add: kind_defs)
    then have "live_guards (set_fut i ?g s) = 0" using d(4) by (cases "mx_locked (sy_mutex s)") auto
    ultimately show ?thesis using d(5) park(2) by (auto intro!: release_inv simp: set_fut_def)
  next
    case unpark
    then show ?thesis by (auto intro!: poll_lock_inv [OF inv i] simp: sel_def kind_defs)
  qed
qed

lemma sync_drop_inv:
  assumes inv: "sync_inv s" and step: "sync_drop i s = Some t"
  shows "sync_inv t"
proof -
  let ?f = "sy_futs s ! i"
  let ?g = "?f\<lparr>fu_kind := KDone\<rparr>"
  note d = sync_invD [OF inv]
  have i: "i < length (sy_futs s)" using step by (auto simp: sync_drop_def split: if_splits)
  have lg: "live_guards (set_fut i ?g s) + of_bool (holding (fu_kind ?f)) = live_guards s"
    using live_guards_set_fut [OF i, of ?g] by (simp add: kind_defs)
  have g: "sel P ?g = None" if "\<not> P KDone" for P using that by simp
  consider (lock) "on_mutex (fu_kind ?f)" "t = (set_fut i ?g s)\<lparr>sy_mutex := lock_drop (sel on_mutex ?f) (sy_mutex s)\<rparr>"
    | (wait) "fu_kind ?f = KCvWaiting" "t = (set_fut i ?g s)\<lparr>sy_cv := unpark (sel on_condvar ?f) (sy_cv s)\<rparr>"
    | (init) "fu_kind ?f = KCvInit" "t = release (set_fut i ?g s)"
    using step i by (cases "fu_kind ?f") (auto simp: sync_drop_def sel_def kind_defs Let_def)
  then show ?thesis
  proof cases
    case lock
    have m: "mx_waiters (lock_drop n m) = unpark n (mx_waiters m)" "mx_locked (lock_drop n m) = mx_locked m"
      for n and m :: "'a mutex"
      by (simp_all add: lock_drop_def unpark_def split: option.split)
    have "waiters.holds on_mutex ((sy_futs s)[i := ?g]) (unpark (sel on_mutex ?f) (mx_waiters (sy_mutex s)))"
      by (intro waiters.holds_unpark [OF d(1) i] g) (simp add: kind_defs)
    moreover have "waiters.holds on_condvar ((sy_futs s)[i := ?g]) (sy_cv s)"
      using lock(1) by (intro waiters.holds_update_out [OF d(2) i]) (auto simp: sel_def kind_defs)
    ultimately show ?thesis
      using lock d(3-5) lg parked_unpark_empty
      by (auto simp: m sync_inv_def set_fut_def live_guards_def kind_defs)
  next
    case wait
    have "waiters.holds on_condvar ((sy_futs s)[i := ?g]) (unpark (sel on_condvar ?f) (sy_cv s))"
      by (intro waiters.holds_unpark [OF d(2) i] g) (simp add: kind_defs)
    moreover have "waiters.holds on_mutex ((sy_futs s)[i := ?g]) (mx_waiters (sy_mutex s))"
      using wait(1) by (intro waiters.holds_update_out [OF d(1) i]) (simp_all add: sel_def kind_defs)
    ultimately show ?thesis
      using wait d(3-5) lg by (simp add: sync_inv_def set_fut_def live_guards_def kind_defs)
  next
    case init
    have "waiters.holds on_mutex ((sy_futs s)[i := ?g]) (mx_waiters (sy_mutex s))"
      "waiters.holds on_condvar ((sy_futs s)[i := ?g]) (sy_cv s)"
      using init(1) by (intro waiters.holds_update_out [OF d(1) i] waiters.holds_update_out [OF d(2) i];
          simp add: sel_def kind_defs)+
    moreover have "live_guards (set_fut i ?g s) = 0"
      using lg init(1) d(4) by (cases "mx_locked (sy_mutex s)") (auto simp: kind_defs)
    ultimately show ?thesis using d(5) init(2) by (auto intro!: release_inv simp: set_fut_def)
  qed
qed

interpretation sync: inductive_invariant sync_init sync_step sync_inv
proof
  show "sync_inv s" if "sync_init s" for s :: "'v sync_state"
    using that
    by (auto simp: sync_init_def sync_new_def sync_inv_def mutex_new_def live_guards_def init_fresh_def)
       (simp add: parked_def waiters_default_def)
  fix s t :: "'v sync_state" and l
  assume inv: "sync_inv s" and step: "sync_step l s = Some t"
  note d = sync_invD [OF inv]
  show "sync_inv t"
  proof (cases l)
    case TryLock
    have "s\<lparr>sy_mutex := sy_mutex s, sy_guards := sy_guards s\<rparr> = s" by simp
    then show ?thesis
      using step inv TryLock d(4)
      by (auto simp: try_lock_def sync_inv_def live_guards_def split: if_splits)
  next
    case DropGuard
    then have g: "0 < sy_guards s" "t = release (s\<lparr>sy_guards := sy_guards s - 1\<rparr>)"
      using step by (auto split: if_splits)
    have "live_guards (s\<lparr>sy_guards := sy_guards s - 1\<rparr>) + 1 = live_guards s"
      using g(1) by (simp add: live_guards_def)
    then have "live_guards (s\<lparr>sy_guards := sy_guards s - 1\<rparr>) = 0"
      using d(4) by (cases "mx_locked (sy_mutex s)") simp_all
    then show ?thesis using g(2) d by (auto intro!: release_inv)
  next
    case NotifyOne
    obtain wks cv where w: "wake_one (sy_cv s) = (wks, cv)" by fastforce
    have t: "t = wake_tasks wks (s\<lparr>sy_cv := cv\<rparr>)" using step NotifyOne w by (simp add: notify_one_def)
    have "live_guards t = live_guards s" by (simp add: t) (simp add: live_guards_def)
    then show ?thesis
      using d waiters.holds_wake_one [OF d(2) w] waiters.holds_wake [OF d(1), of wks]
      by (simp add: sync_inv_def t) (simp add: wake_tasks_def)
  next
    case NotifyAll
    obtain wks cv where w: "wake_all (sy_cv s) = (wks, cv)" by fastforce
    have t: "t = wake_tasks wks (s\<lparr>sy_cv := cv\<rparr>)" using step NotifyAll w by (simp add: notify_all_def)
    have "live_guards t = live_guards s" by (simp add: t) (simp add: live_guards_def)
    then show ?thesis
      using d waiters.holds_wake_all(1) [OF d(2) w] waiters.holds_wake [OF d(1), of wks]
      by (simp add: sync_inv_def t) (simp add: wake_tasks_def)
  next
    case CvWait
    then have g: "0 < sy_guards s"
      and t: "t = s\<lparr>sy_guards := sy_guards s - 1, sy_futs := sy_futs s @ [new_fut KCvInit]\<rparr>"
      using step by (auto split: if_splits)
    have "live_guards t = live_guards s"
      using g by (simp add: t live_guards_def) (simp add: new_fut_def holding_def)
    moreover have "init_fresh (sy_futs t)" using d(5) by (simp add: t) (simp add: new_fut_def)
    ultimately show ?thesis using d by (simp add: sync_inv_def t waiters.holds_append)
  next
    case NewLock
    then show ?thesis
      using step d by (auto simp: sync_inv_def live_guards_def kind_defs intro!: waiters.holds_append)
        (simp_all add: new_fut_def)
  next
    case (Assign v)
    then show ?thesis
      using step d by (auto simp: sync_inv_def live_guards_def guard_deref_mut_def split: if_splits)
  qed (use step inv sync_poll_inv sync_poll_rest_inv sync_drop_inv in auto)
qed

section \<open>Properties\<close>

lemma sync_run_reach: "run sync_step ls (sync_new v) = Some s \<Longrightarrow> reach sync_init sync_step s"
  by (rule reach_init_run) (auto simp: sync_init_def)

text \<open>
  C17. Mutual exclusion of the asynchronous \<open>Mutex\<close>: in every reachable state, whatever futures
  were polled, cancelled or notified in whatever order, exactly one guard exists when the mutex
  is locked (handed out, or kept by a \<open>CondvarWait\<close> that did not release it yet) and none when
  it is not; this is what its \<open>unsafe\<close> accesses rely on.
\<close>

theorem mutex_guard_exclusive:
  assumes "reach sync_init sync_step s"
  shows "live_guards s = (if mx_locked (sy_mutex s) then 1 else 0)"
  using sync_invD(4) [OF sync.reach_inv [OF assms]] by simp

definition mutex_trace :: "nat sync_label list" where
  "mutex_trace = [NewLock, NewLock, Poll 0 10, Poll 1 11, CvWait, Poll 2 12]"

theorem mutex_guard_exclusive_witness:
  "\<exists>s. run sync_step mutex_trace (sync_new 0) = Some s \<and> mx_locked (sy_mutex s) \<and> sy_guards s = 0 \<and>
     map fu_kind (sy_futs s) = [KDone, KLock, KCvParked] \<and> live_guards s = 1"
proof -
  have "case run sync_step mutex_trace (sync_new 0) of None \<Rightarrow> False
    | Some s \<Rightarrow> mx_locked (sy_mutex s) \<and> sy_guards s = 0 \<and>
        map fu_kind (sy_futs s) = [KDone, KLock, KCvParked]"
    by code_simp
  then obtain s where s: "run sync_step mutex_trace (sync_new 0) = Some s" "mx_locked (sy_mutex s)"
      "sy_guards s = 0" "map fu_kind (sy_futs s) = [KDone, KLock, KCvParked]"
    by (auto split: option.splits)
  have "live_guards s = 1" using mutex_guard_exclusive [OF sync_run_reach [OF s(1)]] s(2) by simp
  with s show ?thesis by (intro exI [of _ s] conjI)
qed

text \<open>
  C18. No lost wake-up: when the mutex is free, every task that is parked on it (a pending \<open>Lock\<close>,
  also one inside a \<open>CondvarWait\<close>) has been woken since its last poll, and the first of them to be
  polled gets the guard.  Cancelled futures strand nobody.
\<close>

theorem mutex_no_lost_wakeup:
  assumes "reach sync_init sync_step s" and "\<not> mx_locked (sy_mutex s)"
    and "i < length (sy_futs s)" and "fu_kind (sy_futs s ! i) = KLock \<or> fu_kind (sy_futs s ! i) = KCvRelock"
    and "fu_id (sy_futs s ! i) = Some k"
  shows "fu_woken (sy_futs s ! i) \<and>
    (\<exists>t. sync_step (Poll i wk) s = Some t \<and> fu_kind (sy_futs t ! i) = KDone \<and> sy_guards t = sy_guards s + 1)"
proof -
  note d = sync_invD [OF sync.reach_inv [OF assms(1)]]
  have "sel on_mutex (sy_futs s ! i) = Some k" using assms(4,5) by (auto simp: sel_def on_mutex_def)
  then have "fu_woken (sy_futs s ! i)"
    using waiters.holds_entry [OF d(1) nth_mem [OF assms(3)]] d(3) [OF assms(2)] by auto
  then show ?thesis
    using assms(2-4) by (auto simp: sync_poll_def poll_lock_def lock_poll_def set_fut_def)
qed

definition wakeup_trace :: "nat sync_label list" where
  "wakeup_trace = [NewLock, NewLock, NewLock, Poll 0 10, Poll 1 11, Poll 2 12, DropGuard, DropFuture 1]"

theorem mutex_no_lost_wakeup_witness:
  "\<exists>s. run sync_step wakeup_trace (sync_new 0) = Some s \<and> fu_kind (sy_futs s ! 2) = KLock \<and>
     fu_woken (sy_futs s ! 2) \<and>
     (\<exists>t. sync_step (Poll 2 12) s = Some t \<and> fu_kind (sy_futs t ! 2) = KDone \<and> sy_guards t = sy_guards s + 1)"
proof -
  have "case run sync_step wakeup_trace (sync_new 0) of None \<Rightarrow> False
    | Some s \<Rightarrow> \<not> mx_locked (sy_mutex s) \<and> length (sy_futs s) = 3 \<and> fu_kind (sy_futs s ! 2) = KLock \<and>
        fu_id (sy_futs s ! 2) = Some 1"
    by code_simp
  then obtain s where s: "run sync_step wakeup_trace (sync_new 0) = Some s" "\<not> mx_locked (sy_mutex s)"
      "length (sy_futs s) = 3" "fu_kind (sy_futs s ! 2) = KLock" "fu_id (sy_futs s ! 2) = Some 1"
    by (auto split: option.splits)
  show ?thesis
    using mutex_no_lost_wakeup [OF sync_run_reach [OF s(1)] s(2), of 2 1 12] s by auto
qed

text \<open>
  A notification cannot slip between the release of the mutex and the registration of the
  waiter: from the moment a \<open>CondvarWait\<close> is about to release its guard, it has been woken since its
  last poll or \<open>notify_all\<close> wakes it, and \<open>notify_one\<close> wakes the one that has waited longest.
\<close>

theorem condvar_notification_reaches_waiters:
  assumes "reach sync_init sync_step s" and "i < length (sy_futs s)"
    and "fu_kind (sy_futs s ! i) = KCvParked \<or> fu_kind (sy_futs s ! i) = KCvWaiting"
    and "fu_id (sy_futs s ! i) = Some k" and "\<not> fu_woken (sy_futs s ! i)"
  shows "(\<exists>t. sync_step NotifyAll s = Some t \<and> fu_woken (sy_futs t ! i)) \<and>
         (\<exists>t k' wk. sync_step NotifyOne s = Some t \<and> k' \<le> k \<and> parked (sy_cv s) k' = Some wk \<and>
           (\<forall>k'' \<in> dom (parked (sy_cv s)). k' \<le> k'') \<and> parked (sy_cv t) = (parked (sy_cv s))(k' := None) \<and>
           (\<forall>j < length (sy_futs s). fu_waker (sy_futs s ! j) = wk \<longrightarrow> fu_woken (sy_futs t ! j)))"
proof (intro conjI)
  note d = sync_invD [OF sync.reach_inv [OF assms(1)]]
  have sel: "sel on_condvar (sy_futs s ! i) = Some k" using assms(3,4) by (auto simp: sel_def on_condvar_def)
  have e: "parked (sy_cv s) k = Some (fu_waker (sy_futs s ! i))"
    by (rule waiters.holds_entry [OF d(2) nth_mem [OF assms(2)] sel assms(5)])
  have wf: "waiters_wf (sy_cv s)" using d(2) by (simp add: waiters.holds_def)
  obtain wks cv where all: "wake_all (sy_cv s) = (wks, cv)" by fastforce
  have "fu_waker (sy_futs s ! i) \<in> set wks" using waiters.wake_all_law [OF wf all] e by (auto intro: ranI)
  then show "\<exists>t. sync_step NotifyAll s = Some t \<and> fu_woken (sy_futs t ! i)"
    using all assms(2) by (simp add: notify_all_def wake_tasks_def)
  obtain wks cv where one: "wake_one (sy_cv s) = (wks, cv)" by fastforce
  obtain k' wk where "parked (sy_cv s) k' = Some wk" "wks = [wk]" "\<forall>k'' \<in> dom (parked (sy_cv s)). k' \<le> k''"
      "parked cv = (parked (sy_cv s))(k' := None)"
    using waiters.wake_one_law [OF wf one] e by (auto split: if_splits)
  then show "\<exists>t k' wk. sync_step NotifyOne s = Some t \<and> k' \<le> k \<and> parked (sy_cv s) k' = Some wk \<and>
      (\<forall>k'' \<in> dom (parked (sy_cv s)). k' \<le> k'') \<and> parked (sy_cv t) = (parked (sy_cv s))(k' := None) \<and>
      (\<forall>j < length (sy_futs s). fu_waker (sy_futs s ! j) = wk \<longrightarrow> fu_woken (sy_futs t ! j))"
    using one e by (intro exI [of _ "wake_tasks wks (s\<lparr>sy_cv := cv\<rparr>)"] exI [of _ k'] exI [of _ wk])
      (auto simp: notify_one_def wake_tasks_def)
qed

text \<open>The state right after a waiter registered and before it releases the mutex.\<close>

theorem condvar_notification_reaches_waiters_witness:
  "\<exists>s. run sync_step mutex_trace (sync_new 0) = Some s \<and> fu_kind (sy_futs s ! 2) = KCvParked \<and>
     (\<exists>t. sync_step NotifyAll s = Some t \<and> fu_woken (sy_futs t ! 2))"
proof -
  have "case run sync_step mutex_trace (sync_new 0) of None \<Rightarrow> False
    | Some s \<Rightarrow> length (sy_futs s) = 3 \<and> fu_kind (sy_futs s ! 2) = KCvParked \<and>
        fu_id (sy_futs s ! 2) = Some 0 \<and> \<not> fu_woken (sy_futs s ! 2)"
    by code_simp
  then obtain s where s: "run sync_step mutex_trace (sync_new 0) = Some s" "length (sy_futs s) = 3"
      "fu_kind (sy_futs s ! 2) = KCvParked" "fu_id (sy_futs s ! 2) = Some 0" "\<not> fu_woken (sy_futs s ! 2)"
    by (auto split: option.splits)
  show ?thesis
    using condvar_notification_reaches_waiters [OF sync_run_reach [OF s(1)], of 2 0] s by auto
qed

definition lost_notify_trace :: "nat sync_label list" where
  "lost_notify_trace =
     [NewLock, Poll 0 10, CvWait, Poll 1 11, PollRest 1, NewLock, Poll 2 12, CvWait, Poll 3 13, PollRest 3,
      NotifyOne, DropFuture 1]"

text \<open>
  A notification can get lost: with two tasks waiting, \<open>notify_one\<close> wakes the first; when that
  future is cancelled before it is polled again, its notification is not passed on, and the
  second task stays parked although the mutex is free.
\<close>

theorem condvar_notify_one_lost_on_cancel:
  "\<exists>s. run sync_step lost_notify_trace (sync_new (0 :: nat)) = Some s \<and>
     map fu_kind (sy_futs s) = [KDone, KDone, KDone, KCvWaiting] \<and> \<not> fu_woken (sy_futs s ! 3) \<and>
     sy_guards s = 0 \<and> \<not> mx_locked (sy_mutex s)"
proof -
  have "case run sync_step lost_notify_trace (sync_new (0 :: nat)) of None \<Rightarrow> False
    | Some s \<Rightarrow> map fu_kind (sy_futs s) = [KDone, KDone, KDone, KCvWaiting] \<and> \<not> fu_woken (sy_futs s ! 3) \<and>
     sy_guards s = 0 \<and> \<not> mx_locked (sy_mutex s)"
    by code_simp
  then show ?thesis by (auto split: option.splits)
qed

end
