(* ===== verification/Async_Rwlock_Model.thy ===== *)
theory Async_Rwlock_Model
  imports Wait_Set_Model
begin

text \<open>
  \<open>RwLock\<close> of \<open>rust_async/sync.rs\<close>: two wait sets, a reader count and a writer flag.  The machine
  runs any number of \<open>Read\<close> and \<open>Write\<close> futures and guards over one lock.  \<open>usize\<close> counts are
  natural numbers; the subtraction \<open>readers -= 1\<close> of a read guard's drop panics at 0, which is
  \<open>None\<close>.
\<close>

section \<open>Operations\<close>

record 'v rw_lock =
  rw_readers :: nat
  rw_writer :: bool
  rw_read_waiters :: waiters
  rw_write_waiters :: waiters
  rw_data :: 'v

definition rwlock_new :: "'v \<Rightarrow> 'v rw_lock" where
  "rwlock_new v =
     \<lparr>rw_readers = 0, rw_writer = False, rw_read_waiters = waiters_default,
      rw_write_waiters = waiters_default, rw_data = v\<rparr>"

definition read_poll :: "nat option \<Rightarrow> waker \<Rightarrow> 'v rw_lock \<Rightarrow> unit poll \<times> nat option \<times> 'v rw_lock" where
  "read_poll i wk l =
     (if \<not> rw_writer l
      then (Ready (), None,
            l\<lparr>rw_readers := rw_readers l + 1, rw_read_waiters := unpark i (rw_read_waiters l)\<rparr>)
      else case park i wk (rw_read_waiters l) of (i', ws) \<Rightarrow> (Pending, i', l\<lparr>rw_read_waiters := ws\<rparr>))"

definition read_drop :: "nat option \<Rightarrow> 'v rw_lock \<Rightarrow> 'v rw_lock" where
  "read_drop i l = (if i \<noteq> None then l\<lparr>rw_read_waiters := unpark i (rw_read_waiters l)\<rparr> else l)"

definition write_poll :: "nat option \<Rightarrow> waker \<Rightarrow> 'v rw_lock \<Rightarrow> unit poll \<times> nat option \<times> 'v rw_lock" where
  "write_poll i wk l =
     (if \<not> rw_writer l \<and> rw_readers l = 0
      then (Ready (), None, l\<lparr>rw_writer := True, rw_write_waiters := unpark i (rw_write_waiters l)\<rparr>)
      else case park i wk (rw_write_waiters l) of (i', ws) \<Rightarrow> (Pending, i', l\<lparr>rw_write_waiters := ws\<rparr>))"

definition write_drop :: "nat option \<Rightarrow> 'v rw_lock \<Rightarrow> 'v rw_lock" where
  "write_drop i l = (if i \<noteq> None then l\<lparr>rw_write_waiters := unpark i (rw_write_waiters l)\<rparr> else l)"

definition read_guard_drop :: "'v rw_lock \<Rightarrow> (waker list \<times> 'v rw_lock) option" where
  "read_guard_drop l =
     (if rw_readers l = 0 then None
      else let l' = l\<lparr>rw_readers := rw_readers l - 1\<rparr>
           in if rw_readers l' = 0
              then case wake_all (rw_write_waiters l') of (wks, ws) \<Rightarrow> Some (wks, l'\<lparr>rw_write_waiters := ws\<rparr>)
              else Some ([], l'))"

definition write_guard_drop :: "'v rw_lock \<Rightarrow> waker list \<times> 'v rw_lock" where
  "write_guard_drop l =
     (case wake_all (rw_write_waiters l) of
        (wks, ws) \<Rightarrow>
          (case wake_all (rw_read_waiters l) of
             (wks', ws') \<Rightarrow>
               (wks @ wks', l\<lparr>rw_writer := False, rw_write_waiters := ws, rw_read_waiters := ws'\<rparr>)))"

definition write_guard_deref_mut :: "'v \<Rightarrow> 'v rw_lock \<Rightarrow> 'v rw_lock" where
  "write_guard_deref_mut v l = l\<lparr>rw_data := v\<rparr>"

section \<open>The machine\<close>

datatype rw_kind = KRead | KWrite | KFinished

record 'v rw_state =
  rs_lock :: "'v rw_lock"
  rs_futs :: "rw_kind fut list"
  rs_read_guards :: nat
  rs_write_guards :: nat

definition rw_new :: "'v \<Rightarrow> 'v rw_state" where
  "rw_new v = \<lparr>rs_lock = rwlock_new v, rs_futs = [], rs_read_guards = 0, rs_write_guards = 0\<rparr>"

datatype 'v rw_label =
    NewRead | NewWrite
  | RwPoll nat waker
  | RwDropFuture nat
  | DropReadGuard
  | DropWriteGuard
  | RwAssign 'v

definition rw_fut :: "rw_kind \<Rightarrow> nat option \<Rightarrow> waker \<Rightarrow> rw_kind fut" where
  "rw_fut k i wk = \<lparr>fu_kind = k, fu_id = i, fu_waker = wk, fu_woken = False\<rparr>"

definition rw_poll :: "nat \<Rightarrow> waker \<Rightarrow> 'v rw_state \<Rightarrow> 'v rw_state option" where
  "rw_poll i wk s =
     (if length (rs_futs s) \<le> i then None
      else let f = rs_futs s ! i in
        case fu_kind f of
          KRead \<Rightarrow>
            (case read_poll (fu_id f) wk (rs_lock s) of
               (Ready _, i', l) \<Rightarrow>
                 Some (s\<lparr>rs_lock := l, rs_futs := (rs_futs s)[i := rw_fut KFinished None wk],
                         rs_read_guards := rs_read_guards s + 1\<rparr>)
             | (Pending, i', l) \<Rightarrow> Some (s\<lparr>rs_lock := l, rs_futs := (rs_futs s)[i := rw_fut KRead i' wk]\<rparr>))
        | KWrite \<Rightarrow>
            (case write_poll (fu_id f) wk (rs_lock s) of
               (Ready _, i', l) \<Rightarrow>
                 Some (s\<lparr>rs_lock := l, rs_futs := (rs_futs s)[i := rw_fut KFinished None wk],
                         rs_write_guards := rs_write_guards s + 1\<rparr>)
             | (Pending, i', l) \<Rightarrow> Some (s\<lparr>rs_lock := l, rs_futs := (rs_futs s)[i := rw_fut KWrite i' wk]\<rparr>))
        | KFinished \<Rightarrow> None)"

definition rw_drop :: "nat \<Rightarrow> 'v rw_state \<Rightarrow> 'v rw_state option" where
  "rw_drop i s =
     (if length (rs_futs s) \<le> i then None
      else let f = rs_futs s ! i; s' = s\<lparr>rs_futs := (rs_futs s)[i := f\<lparr>fu_kind := KFinished\<rparr>]\<rparr> in
        case fu_kind f of
          KRead \<Rightarrow> Some (s'\<lparr>rs_lock := read_drop (fu_id f) (rs_lock s)\<rparr>)
        | KWrite \<Rightarrow> Some (s'\<lparr>rs_lock := write_drop (fu_id f) (rs_lock s)\<rparr>)
        | KFinished \<Rightarrow> None)"

fun rw_step :: "'v rw_label \<Rightarrow> 'v rw_state \<Rightarrow> 'v rw_state option" where
  "rw_step NewRead s = Some (s\<lparr>rs_futs := rs_futs s @ [rw_fut KRead None 0]\<rparr>)"
| "rw_step NewWrite s = Some (s\<lparr>rs_futs := rs_futs s @ [rw_fut KWrite None 0]\<rparr>)"
| "rw_step (RwPoll i wk) s = rw_poll i wk s"
| "rw_step (RwDropFuture i) s = rw_drop i s"
| "rw_step DropReadGuard s =
     (if rs_read_guards s = 0 then None
      else case read_guard_drop (rs_lock s) of
             None \<Rightarrow> None
           | Some (wks, l) \<Rightarrow>
               Some (s\<lparr>rs_lock := l, rs_futs := wake_futs wks (rs_futs s), rs_read_guards := rs_read_guards s - 1\<rparr>))"
| "rw_step DropWriteGuard s =
     (if rs_write_guards s = 0 then None
      else case write_guard_drop (rs_lock s) of
             (wks, l) \<Rightarrow>
               Some (s\<lparr>rs_lock := l, rs_futs := wake_futs wks (rs_futs s), rs_write_guards := rs_write_guards s - 1\<rparr>))"
| "rw_step (RwAssign v) s =
     (if rs_write_guards s = 0 then None else Some (s\<lparr>rs_lock := write_guard_deref_mut v (rs_lock s)\<rparr>))"

definition rw_init :: "'v rw_state \<Rightarrow> bool" where
  "rw_init s \<longleftrightarrow> (\<exists>v. s = rw_new v)"

section \<open>Invariant\<close>

abbreviation is_read :: "rw_kind \<Rightarrow> bool" where "is_read k \<equiv> k = KRead"
abbreviation is_write :: "rw_kind \<Rightarrow> bool" where "is_write k \<equiv> k = KWrite"

definition rw_parked_ok :: "rw_kind fut list \<Rightarrow> 'v rw_lock \<Rightarrow> bool" where
  "rw_parked_ok fs l \<longleftrightarrow>
     waiters.holds is_read fs (rw_read_waiters l) \<and> waiters.holds is_write fs (rw_write_waiters l) \<and>
     (\<not> rw_writer l \<longrightarrow> parked (rw_read_waiters l) = Map.empty) \<and>
     (\<not> rw_writer l \<and> rw_readers l = 0 \<longrightarrow> parked (rw_write_waiters l) = Map.empty)"

definition rw_inv :: "'v rw_state \<Rightarrow> bool" where
  "rw_inv s \<longleftrightarrow>
     rw_parked_ok (rs_futs s) (rs_lock s) \<and>
     rs_read_guards s = rw_readers (rs_lock s) \<and> rs_write_guards s = of_bool (rw_writer (rs_lock s)) \<and>
     (rw_writer (rs_lock s) \<longrightarrow> rw_readers (rs_lock s) = 0)"

lemma sel_rw_fut [simp]: "sel P (rw_fut k i wk) = (if P k then i else None)"
  by (simp add: sel_def rw_fut_def)

lemma sel_finished [simp]: "\<not> P KFinished \<Longrightarrow> sel P (f\<lparr>fu_kind := KFinished\<rparr>) = None"
  by (simp add: sel_def)

lemma waker_rw_fut [simp]: "fu_waker (rw_fut k i wk) = wk"
  by (simp add: rw_fut_def)

text \<open>A future of the other kind may change without touching this wait set.\<close>

lemma holds_other:
  assumes "waiters.holds P fs w" and "i < length fs" and "\<not> P (fu_kind (fs ! i))" and "sel P f = None"
  shows "waiters.holds P (fs[i := f]) w"
  using waiters.holds_update_out [OF assms(1,2) _ assms(4)] assms(3) by (simp add: sel_def)

lemma rw_poll_inv:
  assumes inv: "rw_inv s" and step: "rw_poll i wk s = Some t"
  shows "rw_inv t"
proof -
  let ?f = "rs_futs s ! i" and ?l = "rs_lock s"
  have i: "i < length (rs_futs s)" using step by (auto simp: rw_poll_def split: if_splits)
  have r: "waiters.holds is_read (rs_futs s) (rw_read_waiters ?l)"
    and w: "waiters.holds is_write (rs_futs s) (rw_write_waiters ?l)"
    using inv by (simp_all add: rw_inv_def rw_parked_ok_def)
  note facts = inv [unfolded rw_inv_def rw_parked_ok_def]
  obtain n ws where pr: "park (fu_id ?f) wk (rw_read_waiters ?l) = (n, ws)" by fastforce
  obtain m vs where pw: "park (fu_id ?f) wk (rw_write_waiters ?l) = (m, vs)" by fastforce
  consider (rd) "fu_kind ?f = KRead" | (wr) "fu_kind ?f = KWrite"
    using step i by (cases "fu_kind ?f") (auto simp: rw_poll_def)
  then show ?thesis
  proof cases
    case rd
    have s: "sel is_read ?f = fu_id ?f" using rd by (simp add: sel_def)
    have w': "waiters.holds is_write ((rs_futs s)[i := rw_fut k j wk]) (rw_write_waiters ?l)"
      if "k \<noteq> KWrite" for k j
      using that rd by (intro holds_other [OF w i]) simp_all
    have "waiters.holds is_read ((rs_futs s)[i := rw_fut KRead n wk]) ws"
      using pr s by (intro waiters.holds_park [OF r i]) simp_all
    moreover have "waiters.holds is_read ((rs_futs s)[i := rw_fut KFinished None wk])
        (unpark (fu_id ?f) (rw_read_waiters ?l))"
      using waiters.holds_unpark [OF r i, of "rw_fut KFinished None wk"] s by simp
    ultimately show ?thesis
      using step i rd facts w' [of KRead n] w' [of KFinished None] parked_unpark_empty
      by (cases "rw_writer ?l")
         (auto simp: rw_poll_def Let_def read_poll_def pr rw_inv_def rw_parked_ok_def)
  next
    case wr
    have s: "sel is_write ?f = fu_id ?f" using wr by (simp add: sel_def)
    have r': "waiters.holds is_read ((rs_futs s)[i := rw_fut k j wk]) (rw_read_waiters ?l)"
      if "k \<noteq> KRead" for k j
      using that wr by (intro holds_other [OF r i]) simp_all
    have "waiters.holds is_write ((rs_futs s)[i := rw_fut KWrite m wk]) vs"
      using pw s by (intro waiters.holds_park [OF w i]) simp_all
    moreover have "waiters.holds is_write ((rs_futs s)[i := rw_fut KFinished None wk])
        (unpark (fu_id ?f) (rw_write_waiters ?l))"
      using waiters.holds_unpark [OF w i, of "rw_fut KFinished None wk"] s by simp
    ultimately show ?thesis
      using step i wr facts r' [of KWrite m] r' [of KFinished None] parked_unpark_empty
      by (cases "\<not> rw_writer ?l \<and> rw_readers ?l = 0")
         (auto simp: rw_poll_def Let_def write_poll_def pw rw_inv_def rw_parked_ok_def)
  qed
qed

lemma rw_drop_inv:
  assumes inv: "rw_inv s" and step: "rw_drop i s = Some t"
  shows "rw_inv t"
proof -
  let ?f = "rs_futs s ! i" and ?l = "rs_lock s"
  let ?g = "?f\<lparr>fu_kind := KFinished\<rparr>"
  have i: "i < length (rs_futs s)" using step by (auto simp: rw_drop_def split: if_splits)
  have r: "waiters.holds is_read (rs_futs s) (rw_read_waiters ?l)"
    and w: "waiters.holds is_write (rs_futs s) (rw_write_waiters ?l)"
    using inv by (simp_all add: rw_inv_def rw_parked_ok_def)
  note facts = inv [unfolded rw_inv_def rw_parked_ok_def]
  have u: "waiters.holds is_read ((rs_futs s)[i := ?g]) (unpark (sel is_read ?f) (rw_read_waiters ?l))"
    "waiters.holds is_write ((rs_futs s)[i := ?g]) (unpark (sel is_write ?f) (rw_write_waiters ?l))"
    by (intro waiters.holds_unpark [OF r i] waiters.holds_unpark [OF w i]; simp)+
  have d: "(if j \<noteq> None then l\<lparr>rw_read_waiters := unpark j (rw_read_waiters l)\<rparr> else l) =
        l\<lparr>rw_read_waiters := unpark j (rw_read_waiters l)\<rparr>"
      "(if j \<noteq> None then l\<lparr>rw_write_waiters := unpark j (rw_write_waiters l)\<rparr> else l) =
        l\<lparr>rw_write_waiters := unpark j (rw_write_waiters l)\<rparr>" for j and l :: "'a rw_lock"
    by (simp_all add: unpark_def)
  consider (rd) "fu_kind ?f = KRead" | (wr) "fu_kind ?f = KWrite"
    using step i by (cases "fu_kind ?f") (auto simp: rw_drop_def)
  then show ?thesis
  proof cases
    case rd
    then have "sel is_read ?f = fu_id ?f" "sel is_write ?f = None" by (simp_all add: sel_def)
    then show ?thesis
      using step i rd facts u parked_unpark_empty [of "rw_read_waiters ?l" "fu_id ?f"]
      by (auto simp: rw_drop_def Let_def read_drop_def d rw_inv_def rw_parked_ok_def waiters.unpark_None simp del: not_None_eq)
  next
    case wr
    then have "sel is_write ?f = fu_id ?f" "sel is_read ?f = None" by (simp_all add: sel_def)
    then show ?thesis
      using step i wr facts u parked_unpark_empty [of "rw_write_waiters ?l" "fu_id ?f"]
      by (auto simp: rw_drop_def Let_def write_drop_def d rw_inv_def rw_parked_ok_def waiters.unpark_None simp del: not_None_eq)
  qed
qed

lemma rw_drop_read_guard_inv:
  assumes inv: "rw_inv s" and step: "rw_step DropReadGuard s = Some t"
  shows "rw_inv t"
proof -
  let ?l = "rs_lock s"
  have r: "waiters.holds is_read (rs_futs s) (rw_read_waiters ?l)"
    and w: "waiters.holds is_write (rs_futs s) (rw_write_waiters ?l)"
    using inv by (simp_all add: rw_inv_def rw_parked_ok_def)
  obtain wks ws where wake: "wake_all (rw_write_waiters ?l) = (wks, ws)" by fastforce
  show ?thesis
    using step inv waiters.holds_wake [OF r, of wks] waiters.holds_wake_all(1,2) [OF w wake]
    by (auto simp: read_guard_drop_def wake rw_inv_def rw_parked_ok_def Let_def split: if_splits)
qed

lemma rw_drop_write_guard_inv:
  assumes inv: "rw_inv s" and step: "rw_step DropWriteGuard s = Some t"
  shows "rw_inv t"
proof -
  let ?l = "rs_lock s"
  have r: "waiters.holds is_read (rs_futs s) (rw_read_waiters ?l)"
    and w: "waiters.holds is_write (rs_futs s) (rw_write_waiters ?l)"
    using inv by (simp_all add: rw_inv_def rw_parked_ok_def)
  obtain wks ws where ww: "wake_all (rw_write_waiters ?l) = (wks, ws)" by fastforce
  obtain wks' ws' where wr: "wake_all (rw_read_waiters ?l) = (wks', ws')" by fastforce
  have split: "wake_futs (wks @ wks') fs = wake_futs wks' (wake_futs wks fs)"
    "wake_futs (wks @ wks') fs = wake_futs wks (wake_futs wks' fs)" for fs :: "rw_kind fut list"
    by (auto simp: wake_futs_def)
  have "waiters.holds is_write (wake_futs (wks @ wks') (rs_futs s)) ws" "parked ws = Map.empty"
    using waiters.holds_wake_all(1,2) [OF w ww] waiters.holds_wake by (simp_all add: split(1))
  moreover have "waiters.holds is_read (wake_futs (wks @ wks') (rs_futs s)) ws'" "parked ws' = Map.empty"
    using waiters.holds_wake_all(1,2) [OF r wr] waiters.holds_wake by (simp_all add: split(2))
  ultimately show ?thesis
    using step inv
    by (auto simp: write_guard_drop_def ww wr rw_inv_def rw_parked_ok_def split: if_splits)
qed

interpretation rw: inductive_invariant rw_init rw_step rw_inv
proof
  show "rw_inv s" if "rw_init s" for s :: "'v rw_state"
    using that
    by (auto simp: rw_init_def rw_new_def rwlock_new_def rw_inv_def rw_parked_ok_def)
       (simp_all add: parked_def waiters_default_def)
  fix s t :: "'v rw_state" and l
  assume inv: "rw_inv s" and step: "rw_step l s = Some t"
  show "rw_inv t"
  proof (cases l)
    case (RwAssign v)
    then show ?thesis
      using inv step by (auto simp: rw_inv_def rw_parked_ok_def write_guard_deref_mut_def split: if_splits)
  next
    case NewRead
    then show ?thesis
      using inv step by (auto simp: rw_inv_def rw_parked_ok_def intro!: waiters.holds_append)
  next
    case NewWrite
    then show ?thesis
      using inv step by (auto simp: rw_inv_def rw_parked_ok_def intro!: waiters.holds_append)
  next
    case (RwPoll i wk)
    then show ?thesis using step by (intro rw_poll_inv [OF inv]) simp
  next
    case (RwDropFuture i)
    then show ?thesis using step by (intro rw_drop_inv [OF inv]) simp
  next
    case DropReadGuard
    then show ?thesis by (intro rw_drop_read_guard_inv [OF inv] step [unfolded DropReadGuard])
  next
    case DropWriteGuard
    then show ?thesis by (intro rw_drop_write_guard_inv [OF inv] step [unfolded DropWriteGuard])
  qed
qed

section \<open>Properties\<close>

lemma rw_run_reach: "run rw_step ls (rw_new v) = Some s \<Longrightarrow> reach rw_init rw_step s"
  by (rule reach_init_run) (auto simp: rw_init_def)

text \<open>
  C20. Many readers or one writer: in every reachable state the lock's reader count is the number
  of live read guards, there is at most one write guard, and never one beside a read guard; the
  drop of a read guard never underflows the count.
\<close>

theorem rwlock_readers_or_writer:
  assumes "reach rw_init rw_step s"
  shows "rs_read_guards s = rw_readers (rs_lock s) \<and> rs_write_guards s \<le> 1 \<and>
         (0 < rs_write_guards s \<longrightarrow> rs_read_guards s = 0) \<and>
         (0 < rs_read_guards s \<longrightarrow> rw_step DropReadGuard s \<noteq> None)"
proof -
  have inv: "rw_inv s" by (rule rw.reach_inv [OF assms])
  then have "read_guard_drop (rs_lock s) \<noteq> None" if "0 < rs_read_guards s"
    using that by (simp add: rw_inv_def read_guard_drop_def Let_def split: prod.split)
  then show ?thesis using inv by (auto simp: rw_inv_def)
qed

definition rw_trace :: "nat rw_label list" where
  "rw_trace = [NewRead, NewRead, NewWrite, RwPoll 0 10, RwPoll 1 11, RwPoll 2 12]"

theorem rwlock_readers_or_writer_witness:
  "\<exists>s. run rw_step rw_trace (rw_new 0) = Some s \<and> rs_read_guards s = 2 \<and> rw_readers (rs_lock s) = 2 \<and>
     rw_step DropReadGuard s \<noteq> None"
proof -
  have "case run rw_step rw_trace (rw_new 0) of None \<Rightarrow> False | Some s \<Rightarrow> rs_read_guards s = 2"
    by code_simp
  then obtain s where s: "run rw_step rw_trace (rw_new 0) = Some s" "rs_read_guards s = 2"
    by (auto split: option.splits)
  show ?thesis using rwlock_readers_or_writer [OF rw_run_reach [OF s(1)]] s by auto
qed

text \<open>
  No lost wake-up: a parked reader that was not woken since its last poll means a writer is
  active, and a parked writer that was not woken means that a writer or a reader is; so when the
  lock is free every parked task has been woken.
\<close>

theorem rwlock_no_lost_wakeup:
  assumes "reach rw_init rw_step s" and "f \<in> set (rs_futs s)" and "fu_id f = Some k" and "\<not> fu_woken f"
  shows "(fu_kind f = KRead \<longrightarrow> 0 < rs_write_guards s) \<and>
         (fu_kind f = KWrite \<longrightarrow> 0 < rs_write_guards s \<or> 0 < rs_read_guards s)"
proof -
  have inv: "rw_inv s" by (rule rw.reach_inv [OF assms(1)])
  then have r: "waiters.holds is_read (rs_futs s) (rw_read_waiters (rs_lock s))"
    and w: "waiters.holds is_write (rs_futs s) (rw_write_waiters (rs_lock s))"
    by (simp_all add: rw_inv_def rw_parked_ok_def)
  have "rw_writer (rs_lock s)" if "fu_kind f = KRead"
    using waiters.holds_entry [OF r assms(2) _ assms(4), of k] assms(3) that inv
    by (auto simp: sel_def rw_inv_def rw_parked_ok_def)
  moreover have "rw_writer (rs_lock s) \<or> 0 < rw_readers (rs_lock s)" if "fu_kind f = KWrite"
    using waiters.holds_entry [OF w assms(2) _ assms(4), of k] assms(3) that inv
    by (auto simp: sel_def rw_inv_def rw_parked_ok_def)
  ultimately show ?thesis using inv by (auto simp: rw_inv_def)
qed

theorem rwlock_no_lost_wakeup_witness:
  "\<exists>s. run rw_step rw_trace (rw_new 0) = Some s \<and> fu_kind (rs_futs s ! 2) = KWrite \<and>
     \<not> fu_woken (rs_futs s ! 2) \<and> (0 < rs_write_guards s \<or> 0 < rs_read_guards s)"
proof -
  have "case run rw_step rw_trace (rw_new 0) of None \<Rightarrow> False
    | Some s \<Rightarrow> 2 < length (rs_futs s) \<and> fu_kind (rs_futs s ! 2) = KWrite \<and> fu_id (rs_futs s ! 2) = Some 0 \<and>
        \<not> fu_woken (rs_futs s ! 2)"
    by code_simp
  then obtain s where s: "run rw_step rw_trace (rw_new 0) = Some s" "2 < length (rs_futs s)"
      "fu_kind (rs_futs s ! 2) = KWrite" "fu_id (rs_futs s ! 2) = Some 0" "\<not> fu_woken (rs_futs s ! 2)"
    by (auto split: option.splits)
  show ?thesis
    using rwlock_no_lost_wakeup [OF rw_run_reach [OF s(1)] nth_mem [OF s(2)] s(4,5)] s by auto
qed

end
