(* ===== verification/Async_Barrier_Model.thy ===== *)
theory Async_Barrier_Model
  imports Wait_Set_Model
begin

text \<open>
  \<open>Barrier\<close> of \<open>rust_async/sync.rs\<close>.  A \<open>BarrierWait\<close> has no \<open>Drop\<close>: a cancelled one stays counted
  and its waker stays in the wait set; it is \<open>BGone\<close> here, with the generation it joined.
\<close>

section \<open>Operations\<close>

record barrier =
  ba_n :: nat
  ba_count :: nat
  ba_generation :: nat
  ba_waiters :: waiters

definition barrier_new :: "nat \<Rightarrow> barrier" where
  "barrier_new n = \<lparr>ba_n = n, ba_count = 0, ba_generation = 0, ba_waiters = waiters_default\<rparr>"

text \<open>
  \<open>BarrierWait::poll\<close> for a future with \<open>arrived_at\<close> and \<open>id\<close>: the result (\<open>Ready\<close> with \<open>is_leader\<close>),
  the two fields after it, the wakers called and the barrier.
\<close>

definition barrier_poll ::
    "nat option \<Rightarrow> nat option \<Rightarrow> waker \<Rightarrow> barrier \<Rightarrow>
       bool poll \<times> nat option \<times> nat option \<times> waker list \<times> barrier" where
  "barrier_poll arrived_at i wk b =
     (case arrived_at of
        None \<Rightarrow>
          let b' = b\<lparr>ba_count := ba_count b + 1\<rparr>; current_gen = ba_generation b
          in if ba_n b' \<le> ba_count b'
             then (case wake_all (ba_waiters b') of
                     (wks, ws) \<Rightarrow>
                       (Ready True, Some current_gen, i, wks,
                        b'\<lparr>ba_count := 0, ba_generation := current_gen + 1, ba_waiters := ws\<rparr>))
             else (case park i wk (ba_waiters b') of
                     (i', ws) \<Rightarrow> (Pending, Some current_gen, i', [], b'\<lparr>ba_waiters := ws\<rparr>))
      | Some joined_gen \<Rightarrow>
          if ba_generation b \<noteq> joined_gen
          then (Ready False, Some joined_gen, None, [], b\<lparr>ba_waiters := unpark i (ba_waiters b)\<rparr>)
          else (case park i wk (ba_waiters b) of
                  (i', ws) \<Rightarrow> (Pending, Some joined_gen, i', [], b\<lparr>ba_waiters := ws\<rparr>)))"

section \<open>The machine\<close>

datatype barrier_kind =
    BWait "nat option"
  | BReleased nat bool
  | BGone "nat option"

fun joined :: "barrier_kind \<Rightarrow> nat option" where
  "joined (BWait g) = g"
| "joined (BReleased g leader) = Some g"
| "joined (BGone g) = g"

fun leads :: "barrier_kind \<Rightarrow> nat option" where
  "leads (BReleased g True) = Some g"
| "leads _ = None"

fun keeps_id :: "barrier_kind \<Rightarrow> bool" where
  "keeps_id (BReleased _ _) = False"
| "keeps_id _ = True"

record barrier_state =
  bs_barrier :: barrier
  bs_futs :: "barrier_kind fut list"

definition bs_new :: "nat \<Rightarrow> barrier_state" where
  "bs_new n = \<lparr>bs_barrier = barrier_new n, bs_futs = []\<rparr>"

datatype barrier_label = NewWait | BarrierPoll nat waker | DropWait nat

definition wait_fut :: "barrier_kind \<Rightarrow> nat option \<Rightarrow> waker \<Rightarrow> barrier_kind fut" where
  "wait_fut k i wk = \<lparr>fu_kind = k, fu_id = i, fu_waker = wk, fu_woken = False\<rparr>"

fun poll_kind :: "bool poll \<Rightarrow> nat option \<Rightarrow> barrier_kind" where
  "poll_kind (Ready leader) (Some g) = BReleased g leader"
| "poll_kind _ g = BWait g"

definition bs_poll :: "nat \<Rightarrow> waker \<Rightarrow> barrier_state \<Rightarrow> barrier_state option" where
  "bs_poll i wk s =
     (if length (bs_futs s) \<le> i then None
      else case fu_kind (bs_futs s ! i) of
             BWait g \<Rightarrow>
               (case barrier_poll g (fu_id (bs_futs s ! i)) wk (bs_barrier s) of
                  (res, g', i', wks, b) \<Rightarrow>
                    Some (s\<lparr>bs_barrier := b,
                            bs_futs := (wake_futs wks (bs_futs s))[i := wait_fut (poll_kind res g') i' wk]\<rparr>))
           | _ \<Rightarrow> None)"

definition bs_drop :: "nat \<Rightarrow> barrier_state \<Rightarrow> barrier_state option" where
  "bs_drop i s =
     (if length (bs_futs s) \<le> i then None
      else case fu_kind (bs_futs s ! i) of
             BWait g \<Rightarrow> Some (s\<lparr>bs_futs := (bs_futs s)[i := (bs_futs s ! i)\<lparr>fu_kind := BGone g\<rparr>]\<rparr>)
           | _ \<Rightarrow> None)"

fun barrier_step :: "barrier_label \<Rightarrow> barrier_state \<Rightarrow> barrier_state option" where
  "barrier_step NewWait s = Some (s\<lparr>bs_futs := bs_futs s @ [wait_fut (BWait None) None 0]\<rparr>)"
| "barrier_step (BarrierPoll i wk) s = bs_poll i wk s"
| "barrier_step (DropWait i) s = bs_drop i s"

section \<open>Invariant\<close>

definition joined_count :: "nat \<Rightarrow> barrier_kind fut list \<Rightarrow> nat" where
  "joined_count g fs = sum_list (map (\<lambda>f. of_bool (joined (fu_kind f) = Some g)) fs)"

definition leader_count :: "nat \<Rightarrow> barrier_kind fut list \<Rightarrow> nat" where
  "leader_count g fs = sum_list (map (\<lambda>f. of_bool (leads (fu_kind f) = Some g)) fs)"

text \<open>A barrier for 0 participants trips at every arrival, as one for 1 does.\<close>

definition group_size :: "barrier \<Rightarrow> nat" where
  "group_size b = max 1 (ba_n b)"

definition wait_ok :: "nat \<Rightarrow> barrier_kind fut \<Rightarrow> bool" where
  "wait_ok gen f \<longleftrightarrow>
     (\<forall>g. joined (fu_kind f) = Some g \<longrightarrow> g \<le> gen) \<and>
     (\<forall>g leader. fu_kind f = BReleased g leader \<longrightarrow> g < gen) \<and>
     (joined (fu_kind f) = None \<longrightarrow> fu_id f = None) \<and>
     (keeps_id (fu_kind f) \<and> joined (fu_kind f) \<noteq> None \<longrightarrow>
        fu_id f \<noteq> None \<and> (fu_woken f \<or> joined (fu_kind f) = Some gen))"

definition barrier_inv :: "nat \<Rightarrow> barrier_state \<Rightarrow> bool" where
  "barrier_inv n s \<longleftrightarrow>
     waiters.holds keeps_id (bs_futs s) (ba_waiters (bs_barrier s)) \<and>
     ba_n (bs_barrier s) = n \<and> ba_count (bs_barrier s) < group_size (bs_barrier s) \<and>
     (\<forall>f \<in> set (bs_futs s). wait_ok (ba_generation (bs_barrier s)) f) \<and>
     joined_count (ba_generation (bs_barrier s)) (bs_futs s) = ba_count (bs_barrier s) \<and>
     leader_count (ba_generation (bs_barrier s)) (bs_futs s) = 0 \<and>
     (\<forall>g < ba_generation (bs_barrier s).
        joined_count g (bs_futs s) = group_size (bs_barrier s) \<and> leader_count g (bs_futs s) = 1)"

lemma sel_wait_fut [simp]: "sel P (wait_fut k i wk) = (if P k then i else None)"
  by (simp add: sel_def wait_fut_def)

lemma wait_fut_fields [simp]:
  "fu_kind (wait_fut k i wk) = k" "fu_id (wait_fut k i wk) = i" "fu_waker (wait_fut k i wk) = wk"
  "\<not> fu_woken (wait_fut k i wk)"
  by (simp_all add: wait_fut_def)

lemma counts_wake [simp]:
  "joined_count g (wake_futs wks fs) = joined_count g fs"
  "leader_count g (wake_futs wks fs) = leader_count g fs"
  unfolding joined_count_def leader_count_def wake_futs_def by (auto simp: comp_def intro!: arg_cong [of _ _ sum_list])

lemma counts_update:
  assumes "i < length fs"
  shows "joined_count g (fs[i := f]) + of_bool (joined (fu_kind (fs ! i)) = Some g) =
         joined_count g fs + of_bool (joined (fu_kind f) = Some g)"
    and "leader_count g (fs[i := f]) + of_bool (leads (fu_kind (fs ! i)) = Some g) =
         leader_count g fs + of_bool (leads (fu_kind f) = Some g)"
  unfolding joined_count_def leader_count_def by (rule sum_list_update_nat [OF assms])+

lemma joined_count_zero: "\<forall>f \<in> set fs. joined (fu_kind f) \<noteq> Some g \<Longrightarrow> joined_count g fs = 0"
  by (auto simp: joined_count_def)

lemma leader_count_zero: "\<forall>f \<in> set fs. leads (fu_kind f) \<noteq> Some g \<Longrightarrow> leader_count g fs = 0"
  by (auto simp: leader_count_def)

lemma ball_update: "\<forall>x \<in> set xs. P x \<Longrightarrow> P y \<Longrightarrow> \<forall>x \<in> set (xs[i := y]). P x"
  using set_update_subset_insert [of xs i y] by auto

text \<open>A poll that leaves the future parked in the current generation.\<close>

lemma barrier_park_inv:
  assumes inv: "barrier_inv n s" and i: "i < length (bs_futs s)"
    and k: "fu_kind (bs_futs s ! i) = BWait g"
    and g: "g = Some (ba_generation (bs_barrier s)) \<and> d = 0 \<or> g = None \<and> d = 1"
    and room: "ba_count (bs_barrier s) + d < group_size (bs_barrier s)"
    and p: "park (fu_id (bs_futs s ! i)) wk (ba_waiters (bs_barrier s)) = (i', ws)"
  shows "barrier_inv n (s\<lparr>bs_barrier := (bs_barrier s)\<lparr>ba_count := ba_count (bs_barrier s) + d, ba_waiters := ws\<rparr>,
           bs_futs := (bs_futs s)[i := wait_fut (BWait (Some (ba_generation (bs_barrier s)))) i' wk]\<rparr>)"
proof -
  let ?gen = "ba_generation (bs_barrier s)" and ?f = "wait_fut (BWait (Some (ba_generation (bs_barrier s)))) i' wk"
  note b = inv [unfolded barrier_inv_def]
  have h: "waiters.holds keeps_id ((bs_futs s)[i := ?f]) ws"
    using b p k by (intro waiters.holds_park [OF _ i]) (simp_all add: sel_def)
  have "fst (park j wk (ba_waiters (bs_barrier s))) \<noteq> None" for j by (cases j) (simp_all add: park_def)
  then have "i' \<noteq> None" using p by (metis fst_conv)
  then have "wait_ok ?gen ?f" by (simp add: wait_ok_def)
  then have "\<forall>f \<in> set ((bs_futs s)[i := ?f]). wait_ok ?gen f" using b by (intro ball_update) simp_all
  moreover have "joined_count g' ((bs_futs s)[i := ?f]) = joined_count g' (bs_futs s) + (if g' = ?gen then d else 0)"
    "leader_count g' ((bs_futs s)[i := ?f]) = leader_count g' (bs_futs s)" for g'
    using counts_update [OF i, of g' ?f] k g by auto
  ultimately show ?thesis using b h room by (simp add: barrier_inv_def group_size_def)
qed

lemma barrier_trip_inv:
  assumes inv: "barrier_inv n s" and i: "i < length (bs_futs s)"
    and k: "fu_kind (bs_futs s ! i) = BWait None"
    and full: "ba_n (bs_barrier s) \<le> ba_count (bs_barrier s) + 1"
    and w: "wake_all (ba_waiters (bs_barrier s)) = (wks, ws)"
  shows "barrier_inv n (s\<lparr>bs_barrier := (bs_barrier s)\<lparr>ba_count := 0, ba_generation := ba_generation (bs_barrier s) + 1,
             ba_waiters := ws\<rparr>,
           bs_futs := (wake_futs wks (bs_futs s))[i := wait_fut (BReleased (ba_generation (bs_barrier s)) True) None wk]\<rparr>)"
proof -
  let ?gen = "ba_generation (bs_barrier s)" and ?fs = "wake_futs wks (bs_futs s)"
  let ?f = "wait_fut (BReleased ?gen True) None wk"
  note b = inv [unfolded barrier_inv_def]
  have hw: "waiters.holds keeps_id ?fs ws" "\<And>f k. f \<in> set ?fs \<Longrightarrow> sel keeps_id f = Some k \<Longrightarrow> fu_woken f"
    using waiters.holds_wake_all [OF _ w, of keeps_id "bs_futs s"] b by blast+
  have i': "i < length ?fs" using i by simp
  have "fu_id (bs_futs s ! i) = None" using b i k by (auto simp: wait_ok_def)
  then have h: "waiters.holds keeps_id (?fs[i := ?f]) ws"
    using i by (intro waiters.holds_update_out [OF hw(1) i']) (simp_all add: sel_def)
  have ok: "wait_ok (?gen + 1) f" if fm: "f \<in> set ?fs" for f
  proof -
    obtain f0 where f0: "f0 \<in> set (bs_futs s)" "fu_kind f = fu_kind f0" "fu_id f = fu_id f0"
      using fm by (auto simp: wake_futs_def split: if_splits)
    then have "wait_ok ?gen f0" using b by blast
    then show ?thesis
      using f0 hw(2) [OF fm] by (fastforce simp: wait_ok_def sel_def le_SucI less_SucI)
  qed
  then have all: "\<forall>f \<in> set (?fs[i := ?f]). wait_ok (?gen + 1) f"
    by (intro ball_update) (auto simp: wait_ok_def)
  have "joined_count (?gen + 1) (bs_futs s) = 0"
    using b by (intro joined_count_zero) (fastforce simp: wait_ok_def)
  moreover have "leader_count (?gen + 1) (bs_futs s) = 0"
  proof (rule leader_count_zero, rule ballI)
    fix f assume "f \<in> set (bs_futs s)"
    then have "wait_ok ?gen f" using b by blast
    then show "leads (fu_kind f) \<noteq> Some (?gen + 1)"
      by (cases "fu_kind f" rule: leads.cases) (auto simp: wait_ok_def)
  qed
  moreover have "joined_count g' (?fs[i := ?f]) = joined_count g' (bs_futs s) + of_bool (g' = ?gen)"
    "leader_count g' (?fs[i := ?f]) = leader_count g' (bs_futs s) + of_bool (g' = ?gen)" for g'
    using counts_update [OF i', of g' ?f] i k by auto
  moreover have "ba_count (bs_barrier s) + 1 = group_size (bs_barrier s)"
    using b full by (auto simp: group_size_def)
  ultimately show ?thesis
    using b h all by (auto simp: barrier_inv_def group_size_def less_Suc_eq)
qed

lemma barrier_release_inv:
  assumes inv: "barrier_inv n s" and i: "i < length (bs_futs s)"
    and k: "fu_kind (bs_futs s ! i) = BWait (Some g)" and g: "g \<noteq> ba_generation (bs_barrier s)"
  shows "barrier_inv n (s\<lparr>bs_barrier := (bs_barrier s)\<lparr>ba_waiters :=
             unpark (fu_id (bs_futs s ! i)) (ba_waiters (bs_barrier s))\<rparr>,
           bs_futs := (bs_futs s)[i := wait_fut (BReleased g False) None wk]\<rparr>)"
proof -
  let ?f = "wait_fut (BReleased g False) None wk"
  note b = inv [unfolded barrier_inv_def]
  have "waiters.holds keeps_id ((bs_futs s)[i := ?f])
      (unpark (sel keeps_id (bs_futs s ! i)) (ba_waiters (bs_barrier s)))"
    using b by (intro waiters.holds_unpark [OF _ i]) simp_all
  then have h: "waiters.holds keeps_id ((bs_futs s)[i := ?f])
      (unpark (fu_id (bs_futs s ! i)) (ba_waiters (bs_barrier s)))" using k by (simp add: sel_def)
  have "wait_ok (ba_generation (bs_barrier s)) (bs_futs s ! i)" using b i by simp
  then have "wait_ok (ba_generation (bs_barrier s)) ?f" using k g by (simp add: wait_ok_def)
  then have "\<forall>f \<in> set ((bs_futs s)[i := ?f]). wait_ok (ba_generation (bs_barrier s)) f"
    using b by (intro ball_update) simp_all
  moreover have "joined_count g' ((bs_futs s)[i := ?f]) = joined_count g' (bs_futs s)"
    "leader_count g' ((bs_futs s)[i := ?f]) = leader_count g' (bs_futs s)" for g'
    using counts_update [OF i, of g' ?f] k by auto
  ultimately show ?thesis using b h by (auto simp: barrier_inv_def group_size_def)
qed

lemma bs_poll_inv:
  assumes inv: "barrier_inv n s" and step: "bs_poll i wk s = Some t"
  shows "barrier_inv n t"
proof -
  let ?b = "bs_barrier s" and ?f = "bs_futs s ! i"
  obtain g where i: "i < length (bs_futs s)" and k: "fu_kind ?f = BWait g"
    using step by (auto simp: bs_poll_def split: if_splits barrier_kind.splits)
  obtain i' ws where p: "park (fu_id ?f) wk (ba_waiters ?b) = (i', ws)" by fastforce
  obtain wks vs where w: "wake_all (ba_waiters ?b) = (wks, vs)" by fastforce
  have n0: "fu_id ?f = None" if "g = None" using inv i k that by (auto simp: barrier_inv_def wait_ok_def)
  consider (trip) "g = None" "ba_n ?b \<le> ba_count ?b + 1"
    | (join) "g = None" "\<not> ba_n ?b \<le> ba_count ?b + 1"
    | (released) g' where "g = Some g'" "g' \<noteq> ba_generation ?b"
    | (again) "g = Some (ba_generation ?b)" by fastforce
  then show ?thesis
  proof cases
    case trip
    then show ?thesis
      using barrier_trip_inv [OF inv i _ trip(2) w, of wk] step i k n0
      by (simp add: bs_poll_def barrier_poll_def w Let_def)
  next
    case join
    then show ?thesis
      using barrier_park_inv [OF inv i k, of 1 wk i' ws] p step i k
      by (simp add: bs_poll_def barrier_poll_def Let_def group_size_def)
  next
    case released
    then show ?thesis
      using barrier_release_inv [OF inv i, of g' wk] step i k by (simp add: bs_poll_def barrier_poll_def)
  next
    case again
    have "ba_count ?b < group_size ?b" using inv by (simp add: barrier_inv_def)
    moreover have "?b\<lparr>ba_waiters := ws\<rparr> = ?b\<lparr>ba_count := ba_count ?b, ba_waiters := ws\<rparr>" by simp
    ultimately show ?thesis
      using barrier_park_inv [OF inv i k, of 0 wk i' ws] again p step i k
      by (simp add: bs_poll_def barrier_poll_def)
  qed
qed

lemma bs_drop_inv:
  assumes inv: "barrier_inv n s" and step: "bs_drop i s = Some t"
  shows "barrier_inv n t"
proof -
  obtain g where i: "i < length (bs_futs s)" and k: "fu_kind (bs_futs s ! i) = BWait g"
    using step by (auto simp: bs_drop_def split: if_splits barrier_kind.splits)
  let ?f = "(bs_futs s ! i)\<lparr>fu_kind := BGone g\<rparr>"
  have t: "t = s\<lparr>bs_futs := (bs_futs s)[i := ?f]\<rparr>" using step i k by (simp add: bs_drop_def)
  note b = inv [unfolded barrier_inv_def]
  have h: "waiters.holds keeps_id ((bs_futs s)[i := ?f]) (ba_waiters (bs_barrier s))"
    using b k by (intro waiters.holds_same [OF _ i]) (auto simp: sel_def)
  have "wait_ok (ba_generation (bs_barrier s)) (bs_futs s ! i)" using b i by simp
  then have "wait_ok (ba_generation (bs_barrier s)) ?f" using k by (simp add: wait_ok_def)
  then have "\<forall>f \<in> set ((bs_futs s)[i := ?f]). wait_ok (ba_generation (bs_barrier s)) f"
    using b by (intro ball_update) simp_all
  moreover have "joined_count g' ((bs_futs s)[i := ?f]) = joined_count g' (bs_futs s)"
    "leader_count g' ((bs_futs s)[i := ?f]) = leader_count g' (bs_futs s)" for g'
    using counts_update [OF i, of g' ?f] k by auto
  ultimately show ?thesis using b h by (simp add: barrier_inv_def t)
qed

interpretation barrier: inductive_invariant "\<lambda>s. s = bs_new n" barrier_step "barrier_inv n" for n
proof
  show "barrier_inv n s" if "s = bs_new n" for s
    using that by (simp add: bs_new_def barrier_new_def barrier_inv_def joined_count_def leader_count_def group_size_def)
  show "barrier_inv n t" if inv: "barrier_inv n s" and step: "barrier_step l s = Some t" for s t l
  proof (cases l)
    case NewWait
    have "joined_count g (fs @ [wait_fut (BWait None) None 0]) = joined_count g fs"
      "leader_count g (fs @ [wait_fut (BWait None) None 0]) = leader_count g fs" for g fs
      by (simp_all add: joined_count_def leader_count_def)
    then show ?thesis
      using NewWait inv step by (auto simp: barrier_inv_def wait_ok_def intro!: waiters.holds_append)
  next
    case (BarrierPoll i wk)
    then show ?thesis using step bs_poll_inv [OF inv] by simp
  next
    case (DropWait i)
    then show ?thesis using step bs_drop_inv [OF inv] by simp
  qed
qed

section \<open>Properties\<close>

lemma barrier_run_reach:
  "run barrier_step ls (bs_new n) = Some s \<Longrightarrow> reach (\<lambda>s. s = bs_new n) barrier_step s"
  by (rule reach_init_run) auto

text \<open>
  C21. Groups of a \<open>Barrier\<close> for \<open>n\<close> participants: each generation that is over had exactly \<open>n\<close>
  arrivals (one when \<open>n\<close> is 0) and exactly one leader; the current one has fewer arrivals and no
  leader; and a pending participant whose waker was not called since its last poll is one of the
  current generation, so nobody sleeps through the release of its group.
\<close>

theorem barrier_groups_and_leaders:
  assumes "reach (\<lambda>s. s = bs_new n) barrier_step s"
  shows "(\<forall>g < ba_generation (bs_barrier s).
            joined_count g (bs_futs s) = max 1 n \<and> leader_count g (bs_futs s) = 1) \<and>
         joined_count (ba_generation (bs_barrier s)) (bs_futs s) < max 1 n \<and>
         leader_count (ba_generation (bs_barrier s)) (bs_futs s) = 0 \<and>
         (\<forall>f \<in> set (bs_futs s). \<forall>g. fu_kind f = BWait (Some g) \<longrightarrow>
            fu_woken f \<or> g = ba_generation (bs_barrier s))"
proof -
  have inv: "barrier_inv n s" by (rule barrier.reach_inv [OF assms])
  have "fu_woken f \<or> g = ba_generation (bs_barrier s)" if "f \<in> set (bs_futs s)" "fu_kind f = BWait (Some g)" for f g
  proof -
    have "wait_ok (ba_generation (bs_barrier s)) f" using inv that(1) by (simp add: barrier_inv_def)
    then show ?thesis using that(2) by (auto simp: wait_ok_def)
  qed
  then show ?thesis using inv by (auto simp: barrier_inv_def group_size_def)
qed

definition barrier_trace :: "barrier_label list" where
  "barrier_trace = [NewWait, NewWait, NewWait, BarrierPoll 0 10, BarrierPoll 1 11, BarrierPoll 2 12, BarrierPoll 0 10]"

theorem barrier_groups_and_leaders_witness:
  "\<exists>s. run barrier_step barrier_trace (bs_new 2) = Some s \<and> ba_generation (bs_barrier s) = 1 \<and>
     map fu_kind (bs_futs s) = [BReleased 0 False, BReleased 0 True, BWait (Some 1)] \<and>
     joined_count 0 (bs_futs s) = 2 \<and> leader_count 0 (bs_futs s) = 1"
proof -
  have "case run barrier_step barrier_trace (bs_new 2) of None \<Rightarrow> False
    | Some s \<Rightarrow> ba_generation (bs_barrier s) = 1 \<and>
        map fu_kind (bs_futs s) = [BReleased 0 False, BReleased 0 True, BWait (Some 1)]"
    by code_simp
  then obtain s where s: "run barrier_step barrier_trace (bs_new 2) = Some s"
      "ba_generation (bs_barrier s) = 1"
      "map fu_kind (bs_futs s) = [BReleased 0 False, BReleased 0 True, BWait (Some 1)]"
    by (auto split: option.splits)
  have "joined_count 0 (bs_futs s) = 2 \<and> leader_count 0 (bs_futs s) = 1"
    using barrier_groups_and_leaders [OF barrier_run_reach [OF s(1)]] s(2) by simp
  with s show ?thesis by (intro exI [of _ s] conjI) simp_all
qed

definition cancelled_wait_trace :: "barrier_label list" where
  "cancelled_wait_trace = [NewWait, NewWait, BarrierPoll 0 10, DropWait 0, BarrierPoll 1 11]"

text \<open>
  A cancelled participant stays counted: a barrier for two trips when the first participant
  was dropped while it waited and the second one arrives, although only one is waiting.
\<close>

theorem barrier_counts_cancelled_waiter:
  "\<exists>s. run barrier_step cancelled_wait_trace (bs_new 2) = Some s \<and>
     map fu_kind (bs_futs s) = [BGone (Some 0), BReleased 0 True]"
proof -
  have "case run barrier_step cancelled_wait_trace (bs_new 2) of None \<Rightarrow> False
    | Some s \<Rightarrow> map fu_kind (bs_futs s) = [BGone (Some 0), BReleased 0 True]"
    by code_simp
  then show ?thesis by (auto split: option.splits)
qed

end
