(* ===== verification/Async_Channel_Model.thy ===== *)
theory Async_Channel_Model
  imports Wait_Set_Model
begin

text \<open>
  The unbounded channel of \<open>rust_async/sync.rs\<close>: \<open>channel\<close>, \<open>Sender\<close>, \<open>Receiver\<close>, \<open>Recv\<close>.  The
  abstract specification is a FIFO queue with a closed flag; the machine over any number of
  senders, receivers and \<open>Recv\<close> futures refines it.  \<open>cs_sent\<close> and \<open>cs_received\<close> record the values
  that \<open>send\<close> accepted and that polls returned, in order.
\<close>

section \<open>Operations\<close>

record 'v chan =
  ch_items :: "'v list"
  ch_recv_waiters :: waiters
  ch_senders :: nat
  ch_receivers :: nat

datatype 'v send_error = SendError 'v
datatype recv_error = RecvError

definition channel :: "'v chan" where
  "channel = \<lparr>ch_items = [], ch_recv_waiters = waiters_default, ch_senders = 1, ch_receivers = 1\<rparr>"

definition chan_send :: "'v \<Rightarrow> 'v chan \<Rightarrow> ('v send_error + unit) \<times> waker list \<times> 'v chan" where
  "chan_send v c =
     (if ch_receivers c = 0 then (Inl (SendError v), [], c)
      else case wake_all (ch_recv_waiters c) of
             (wks, ws) \<Rightarrow> (Inr (), wks, c\<lparr>ch_items := ch_items c @ [v], ch_recv_waiters := ws\<rparr>))"

definition sender_clone :: "'v chan \<Rightarrow> 'v chan" where
  "sender_clone c = c\<lparr>ch_senders := ch_senders c + 1\<rparr>"

definition sender_drop :: "'v chan \<Rightarrow> waker list \<times> 'v chan" where
  "sender_drop c =
     (let c' = c\<lparr>ch_senders := ch_senders c - 1\<rparr>
      in if ch_senders c' = 0
         then case wake_all (ch_recv_waiters c') of (wks, ws) \<Rightarrow> (wks, c'\<lparr>ch_recv_waiters := ws\<rparr>)
         else ([], c'))"

definition receiver_clone :: "'v chan \<Rightarrow> 'v chan" where
  "receiver_clone c = c\<lparr>ch_receivers := ch_receivers c + 1\<rparr>"

definition receiver_drop :: "'v chan \<Rightarrow> 'v chan" where
  "receiver_drop c = c\<lparr>ch_receivers := ch_receivers c - 1\<rparr>"

definition recv_poll ::
    "nat option \<Rightarrow> waker \<Rightarrow> 'v chan \<Rightarrow> (recv_error + 'v) poll \<times> nat option \<times> 'v chan" where
  "recv_poll i wk c =
     (case ch_items c of
        v # vs \<Rightarrow>
          (Ready (Inr v), None, c\<lparr>ch_items := vs, ch_recv_waiters := unpark i (ch_recv_waiters c)\<rparr>)
      | [] \<Rightarrow>
          if ch_senders c = 0
          then (Ready (Inl RecvError), None, c\<lparr>ch_recv_waiters := unpark i (ch_recv_waiters c)\<rparr>)
          else (case park i wk (ch_recv_waiters c) of
                  (i', ws) \<Rightarrow> (Pending, i', c\<lparr>ch_recv_waiters := ws\<rparr>)))"

definition recv_drop :: "nat option \<Rightarrow> 'v chan \<Rightarrow> 'v chan" where
  "recv_drop i c = (if i \<noteq> None then c\<lparr>ch_recv_waiters := unpark i (ch_recv_waiters c)\<rparr> else c)"

section \<open>The machine\<close>

datatype 'v recv_kind = RPending | RGot "recv_error + 'v" | RDropped

record 'v chan_state =
  cs_chan :: "'v chan"
  cs_futs :: "'v recv_kind fut list"
  cs_sent :: "'v list"
  cs_received :: "'v list"

definition cs_new :: "'v chan_state" where
  "cs_new = \<lparr>cs_chan = channel, cs_futs = [], cs_sent = [], cs_received = []\<rparr>"

datatype 'v chan_label =
    Send 'v
  | CloneSender | DropSender | CloneReceiver | DropReceiver
  | NewRecv
  | RecvPoll nat waker
  | DropRecv nat

definition recv_fut :: "'v recv_kind \<Rightarrow> nat option \<Rightarrow> waker \<Rightarrow> 'v recv_kind fut" where
  "recv_fut k i wk = \<lparr>fu_kind = k, fu_id = i, fu_waker = wk, fu_woken = False\<rparr>"

abbreviation is_pending :: "'v recv_kind \<Rightarrow> bool" where
  "is_pending k \<equiv> k = RPending"

definition cs_poll :: "nat \<Rightarrow> waker \<Rightarrow> 'v chan_state \<Rightarrow> 'v chan_state option" where
  "cs_poll i wk s =
     (if length (cs_futs s) \<le> i \<or> fu_kind (cs_futs s ! i) \<noteq> RPending then None
      else case recv_poll (fu_id (cs_futs s ! i)) wk (cs_chan s) of
             (res, i', c) \<Rightarrow>
               Some (case res of
                       Ready r \<Rightarrow>
                         s\<lparr>cs_chan := c, cs_futs := (cs_futs s)[i := recv_fut (RGot r) i' wk],
                           cs_received := cs_received s @ (case r of Inl _ \<Rightarrow> [] | Inr v \<Rightarrow> [v])\<rparr>
                     | Pending \<Rightarrow> s\<lparr>cs_chan := c, cs_futs := (cs_futs s)[i := recv_fut RPending i' wk]\<rparr>))"

fun chan_step :: "'v chan_label \<Rightarrow> 'v chan_state \<Rightarrow> 'v chan_state option" where
  "chan_step (Send v) s =
     (if ch_senders (cs_chan s) = 0 then None
      else case chan_send v (cs_chan s) of
             (res, wks, c) \<Rightarrow>
               Some (s\<lparr>cs_chan := c, cs_futs := wake_futs wks (cs_futs s),
                       cs_sent := cs_sent s @ (case res of Inl _ \<Rightarrow> [] | Inr _ \<Rightarrow> [v])\<rparr>))"
| "chan_step CloneSender s =
     (if ch_senders (cs_chan s) = 0 then None else Some (s\<lparr>cs_chan := sender_clone (cs_chan s)\<rparr>))"
| "chan_step DropSender s =
     (if ch_senders (cs_chan s) = 0 then None
      else case sender_drop (cs_chan s) of
             (wks, c) \<Rightarrow> Some (s\<lparr>cs_chan := c, cs_futs := wake_futs wks (cs_futs s)\<rparr>))"
| "chan_step CloneReceiver s =
     (if ch_receivers (cs_chan s) = 0 then None else Some (s\<lparr>cs_chan := receiver_clone (cs_chan s)\<rparr>))"
| "chan_step DropReceiver s =
     (if ch_receivers (cs_chan s) = 0 then None else Some (s\<lparr>cs_chan := receiver_drop (cs_chan s)\<rparr>))"
| "chan_step NewRecv s =
     (if ch_receivers (cs_chan s) = 0 then None
      else Some (s\<lparr>cs_futs := cs_futs s @ [recv_fut RPending None 0]\<rparr>))"
| "chan_step (RecvPoll i wk) s = cs_poll i wk s"
| "chan_step (DropRecv i) s =
     (if length (cs_futs s) \<le> i \<or> fu_kind (cs_futs s ! i) \<noteq> RPending then None
      else Some (s\<lparr>cs_chan := recv_drop (fu_id (cs_futs s ! i)) (cs_chan s),
                   cs_futs := (cs_futs s)[i := (cs_futs s ! i)\<lparr>fu_kind := RDropped\<rparr>]\<rparr>))"

section \<open>Specification: a queue that can be closed\<close>

text \<open>
  What clients see: the values in transit and whether anyone can still send.  A receive takes
  the oldest value; it fails only on an empty queue that is closed; anything else is invisible.
\<close>

datatype 'v queue_event = Enqueue 'v | Dequeue 'v | Closed | Internal

definition queue_of :: "'v chan_state \<Rightarrow> 'v list \<times> bool" where
  "queue_of s = (ch_items (cs_chan s), ch_senders (cs_chan s) = 0)"

fun queue_step :: "'v queue_event \<Rightarrow> 'v list \<times> bool \<Rightarrow> 'v list \<times> bool \<Rightarrow> bool" where
  "queue_step (Enqueue v) (q, closed) r \<longleftrightarrow> \<not> closed \<and> r = (q @ [v], closed)"
| "queue_step (Dequeue v) (q, closed) r \<longleftrightarrow> q \<noteq> [] \<and> v = hd q \<and> r = (tl q, closed)"
| "queue_step Closed (q, closed) r \<longleftrightarrow> q = [] \<and> closed \<and> r = (q, closed)"
| "queue_step Internal (q, closed) r \<longleftrightarrow> r = (q, closed) \<or> \<not> closed \<and> r = (q, True)"

text \<open>The event a step of the machine from \<open>s\<close> to \<open>t\<close> is for a client, read off its outputs.\<close>

definition event_of :: "'v chan_label \<Rightarrow> 'v chan_state \<Rightarrow> 'v chan_state \<Rightarrow> 'v queue_event" where
  "event_of l s t =
     (if cs_sent t \<noteq> cs_sent s then Enqueue (last (cs_sent t))
      else if cs_received t \<noteq> cs_received s then Dequeue (last (cs_received t))
      else case l of
             RecvPoll i wk \<Rightarrow> if fu_kind (cs_futs t ! i) = RGot (Inl RecvError) then Closed else Internal
           | _ \<Rightarrow> Internal)"

section \<open>Invariant\<close>

definition chan_inv :: "'v chan_state \<Rightarrow> bool" where
  "chan_inv s \<longleftrightarrow>
     waiters.holds is_pending (cs_futs s) (ch_recv_waiters (cs_chan s)) \<and>
     (ch_items (cs_chan s) \<noteq> [] \<or> ch_senders (cs_chan s) = 0 \<longrightarrow>
        parked (ch_recv_waiters (cs_chan s)) = Map.empty) \<and>
     cs_sent s = cs_received s @ ch_items (cs_chan s)"

lemma sel_recv_fut [simp]: "sel P (recv_fut k i wk) = (if P k then i else None)"
  by (simp add: sel_def recv_fut_def)

lemma cs_poll_inv:
  assumes inv: "chan_inv s" and step: "cs_poll i wk s = Some t"
  shows "chan_inv t"
proof -
  let ?c = "cs_chan s" and ?f = "cs_futs s ! i"
  have i: "i < length (cs_futs s)" and k: "fu_kind ?f = RPending"
    using step by (auto simp: cs_poll_def split: if_splits)
  have h: "waiters.holds is_pending (cs_futs s) (ch_recv_waiters ?c)" using inv by (simp add: chan_inv_def)
  have s: "sel is_pending ?f = fu_id ?f" using k by (simp add: sel_def)
  obtain i' ws where p: "park (fu_id ?f) wk (ch_recv_waiters ?c) = (i', ws)" by fastforce
  have hp: "waiters.holds is_pending ((cs_futs s)[i := recv_fut RPending i' wk]) ws"
    using p s by (intro waiters.holds_park [OF h i]) (simp_all, simp add: recv_fut_def)
  have hu: "waiters.holds is_pending ((cs_futs s)[i := recv_fut (RGot r) None wk]) (unpark (fu_id ?f) (ch_recv_waiters ?c))"
    for r using waiters.holds_unpark [OF h i, of "recv_fut (RGot r) None wk"] s by simp
  show ?thesis
  proof (cases "ch_items ?c")
    case Nil
    then show ?thesis
      using step i k inv hp hu p parked_unpark_empty
      by (auto simp: cs_poll_def recv_poll_def chan_inv_def split: if_splits)
  next
    case (Cons v vs)
    then show ?thesis
      using step i k inv hu parked_unpark_empty
      by (auto simp: cs_poll_def recv_poll_def chan_inv_def)
  qed
qed

interpretation chan: inductive_invariant "\<lambda>s. s = cs_new" chan_step chan_inv
proof
  show "chan_inv s" if "s = cs_new" for s :: "'v chan_state"
    using that by (simp add: cs_new_def channel_def chan_inv_def)
  fix s t :: "'v chan_state" and l
  assume inv: "chan_inv s" and step: "chan_step l s = Some t"
  have h: "waiters.holds is_pending (cs_futs s) (ch_recv_waiters (cs_chan s))" using inv by (simp add: chan_inv_def)
  obtain wks ws where w: "wake_all (ch_recv_waiters (cs_chan s)) = (wks, ws)" by fastforce
  note hw = waiters.holds_wake_all(1,2) [OF h w]
  show "chan_inv t"
  proof (cases l)
    case (Send v)
    then show ?thesis using step inv hw by (auto simp: chan_send_def w chan_inv_def split: if_splits)
  next
    case DropSender
    then show ?thesis
      using step inv hw by (auto simp: sender_drop_def w chan_inv_def Let_def split: if_splits)
  next
    case NewRecv
    then show ?thesis
      using step inv by (auto simp: chan_inv_def intro!: waiters.holds_append split: if_splits)
  next
    case (RecvPoll i wk)
    then show ?thesis using step cs_poll_inv [OF inv] by simp
  next
    case (DropRecv i)
    let ?f = "cs_futs s ! i" and ?g = "(cs_futs s ! i)\<lparr>fu_kind := RDropped\<rparr>"
    have i: "i < length (cs_futs s)" "fu_kind ?f = RPending"
      using step DropRecv by (auto split: if_splits)
    then have "waiters.holds is_pending ((cs_futs s)[i := ?g]) (unpark (fu_id ?f) (ch_recv_waiters (cs_chan s)))"
      using waiters.holds_unpark [OF h i(1), of ?g] by (simp add: sel_def)
    moreover have "recv_drop j c = c\<lparr>ch_recv_waiters := unpark j (ch_recv_waiters c)\<rparr>" for j and c :: "'v chan"
      by (auto simp: recv_drop_def unpark_def)
    ultimately show ?thesis
      using step DropRecv i inv parked_unpark_empty by (auto simp: chan_inv_def)
  qed (use step inv in \<open>auto simp: chan_inv_def sender_clone_def receiver_clone_def receiver_drop_def split: if_splits\<close>)
qed

section \<open>Properties\<close>

lemma chan_run_reach: "run chan_step ls cs_new = Some s \<Longrightarrow> reach (\<lambda>s. s = cs_new) chan_step s"
  by (rule reach_init_run) auto

text \<open>
  C22. The channel is FIFO and loses nothing: the values sent are those received, in the order of
  the receiving polls, followed by those still queued; and it never leaves a receiver asleep: a
  pending \<open>Recv\<close> not woken since its last poll implies an empty queue and a live sender.
\<close>

theorem channel_fifo_and_no_lost_wakeup:
  assumes "reach (\<lambda>s. s = cs_new) chan_step s"
  shows "cs_sent s = cs_received s @ ch_items (cs_chan s) \<and>
         (\<forall>f \<in> set (cs_futs s). fu_kind f = RPending \<and> fu_id f \<noteq> None \<and> \<not> fu_woken f \<longrightarrow>
            ch_items (cs_chan s) = [] \<and> 0 < ch_senders (cs_chan s))"
proof -
  have inv: "chan_inv s" by (rule chan.reach_inv [OF assms])
  have "ch_items (cs_chan s) = [] \<and> 0 < ch_senders (cs_chan s)"
    if f: "f \<in> set (cs_futs s)" "fu_kind f = RPending" "fu_id f = Some k" "\<not> fu_woken f" for f k
  proof -
    have "parked (ch_recv_waiters (cs_chan s)) k = Some (fu_waker f)"
      using inv f by (intro waiters.holds_entry [OF _ f(1), where P = is_pending]) (auto simp: chan_inv_def sel_def)
    then show ?thesis using inv by (auto simp: chan_inv_def)
  qed
  then show ?thesis using inv by (auto simp: chan_inv_def)
qed

definition chan_trace :: "nat chan_label list" where
  "chan_trace = [Send 1, Send 2, NewRecv, RecvPoll 0 10, Send 3, NewRecv, RecvPoll 1 11]"

theorem channel_fifo_and_no_lost_wakeup_witness:
  "\<exists>s. run chan_step chan_trace cs_new = Some s \<and> cs_received s = [1, 2] \<and>
     cs_sent s = cs_received s @ ch_items (cs_chan s)"
proof -
  have "case run chan_step chan_trace cs_new of None \<Rightarrow> False | Some s \<Rightarrow> cs_received s = [1, 2]"
    by code_simp
  then obtain s where s: "run chan_step chan_trace cs_new = Some s" "cs_received s = [1, 2]"
    by (auto split: option.splits)
  show ?thesis using channel_fifo_and_no_lost_wakeup [OF chan_run_reach [OF s(1)]] s by auto
qed

text \<open>
  C23. The channel refines the queue: each step of the machine is the step of the specification
  for the event its outputs show, a \<open>send\<close> with a live receiver an enqueue, a successful receive a dequeue of the
  oldest value, \<open>RecvError\<close> only on an empty queue without senders, and every other step
  (cancelled receives, clones, failed sends) changes nothing but may close the queue.
\<close>

theorem channel_refines_queue:
  assumes "chan_step l s = Some t"
  shows "queue_step (event_of l s t) (queue_of s) (queue_of t)"
proof (cases l)
  case (RecvPoll i wk)
  then show ?thesis
    using assms
    by (auto simp: cs_poll_def recv_poll_def queue_of_def event_of_def recv_fut_def
        split: if_splits list.splits prod.splits)
next
  case (DropRecv i)
  then show ?thesis
    using assms by (auto simp: queue_of_def event_of_def recv_drop_def split: if_splits)
qed (use assms in \<open>auto simp: queue_of_def event_of_def chan_send_def sender_drop_def sender_clone_def receiver_clone_def
      receiver_drop_def Let_def split: if_splits prod.splits\<close>)

theorem channel_refines_queue_witness:
  "\<exists>s t. run chan_step (take 3 chan_trace) cs_new = Some s \<and> chan_step (RecvPoll 0 10) s = Some t \<and>
     event_of (RecvPoll 0 10) s t = Dequeue 1 \<and> queue_step (Dequeue 1) (queue_of s) (queue_of t)"
proof -
  have "case run chan_step (take 3 chan_trace) cs_new of None \<Rightarrow> False
    | Some s \<Rightarrow> (case chan_step (RecvPoll 0 10) s of None \<Rightarrow> False
        | Some t \<Rightarrow> cs_sent t = cs_sent s \<and> cs_received s = [] \<and> cs_received t = [1])"
    by code_simp
  then obtain s t where s: "run chan_step (take 3 chan_trace) cs_new = Some s" "chan_step (RecvPoll 0 10) s = Some t"
      "cs_sent t = cs_sent s" "cs_received s = []" "cs_received t = [1]"
    by (auto split: option.splits simp del: chan_step.simps)
  then have "event_of (RecvPoll 0 10) s t = Dequeue 1" by (simp add: event_of_def)
  then show ?thesis using channel_refines_queue [OF s(2)] s(1,2) by auto
qed

end
