(* ===== verification/Sockaddr_Model.thy ===== *)
theory Sockaddr_Model
  imports Prelude
begin

unbundle bit_operations_syntax

text \<open>
  The address conversions of \<open>rust_net/socket_posix.rs\<close>: \<open>SocketAddr\<close> to the \<open>sockaddr\<close> structures
  that \<open>syscall_bind\<close> and \<open>syscall_connect\<close> pass to the kernel, and back in \<open>getsockname_addr\<close>.
  Fields keep their width; the host is little-endian, so \<open>to_be\<close> and \<open>from_be\<close> swap bytes.
\<close>

section \<open>Byte order\<close>

definition swap_bytes16 :: "16 word \<Rightarrow> 16 word" where
  "swap_bytes16 x = push_bit 8 x OR drop_bit 8 x"

definition byte_lane1 :: "32 word" where
  "byte_lane1 = push_bit 8 (mask 8)"

definition swap_bytes32 :: "32 word \<Rightarrow> 32 word" where
  "swap_bytes32 x =
     push_bit 24 x OR push_bit 8 (x AND byte_lane1) OR (drop_bit 8 x AND byte_lane1) OR drop_bit 24 x"

lemma swap_bytes16_twice [simp]: "swap_bytes16 (swap_bytes16 x) = x"
  by (rule bit_word_eqI) (auto simp: swap_bytes16_def bit_simps)

lemma bit_byte_lane1: "bit byte_lane1 n \<longleftrightarrow> 8 \<le> n \<and> n < 16"
  by (auto simp: byte_lane1_def bit_simps)

lemma bit_swap_bytes32:
  assumes "n < 32"
  shows "bit (swap_bytes32 x) n \<longleftrightarrow>
         bit x (if n < 8 then n + 24 else if n < 16 then n + 8 else if n < 24 then n - 8 else n - 24)"
proof -
  have "bit (swap_bytes32 x) n \<longleftrightarrow>
      24 \<le> n \<and> bit x (n - 24) \<or> 16 \<le> n \<and> n < 24 \<and> bit x (n - 8) \<or>
      8 \<le> n \<and> n < 16 \<and> bit x (n + 8) \<or> bit x (n + 24)"
    using assms by (auto simp: swap_bytes32_def bit_or_iff bit_and_iff bit_push_bit_iff bit_drop_bit_eq
        bit_byte_lane1 add.commute)
  moreover have "\<not> bit x (n + 24)" if "8 \<le> n" using that by (auto dest: bit_imp_le_length)
  ultimately show ?thesis using assms by auto
qed

lemma swap_bytes32_twice [simp]: "swap_bytes32 (swap_bytes32 x) = x"
proof (rule bit_word_eqI)
  fix n assume n: "n < LENGTH(32)"
  consider "n < 8" | "8 \<le> n" "n < 16" | "16 \<le> n" "n < 24" | "24 \<le> n" by linarith
  then show "bit (swap_bytes32 (swap_bytes32 x)) n = bit x n"
    by cases (use n in \<open>auto simp: bit_swap_bytes32\<close>)
qed

section \<open>Addresses\<close>

datatype socket_addr =
    V4 "32 word" "16 word"
  | V6 "byte list" "16 word" "32 word" "32 word"

definition AF_INET :: "16 word" where "AF_INET = 2"
definition AF_INET6 :: "16 word" where "AF_INET6 = 10"

text \<open>
  \<open>libc::sockaddr_in\<close> (port and address in network byte order) and \<open>libc::sockaddr_in6\<close> (port in
  network byte order, flow label, address bytes, scope), as \<open>sockaddr_storage\<close> can hold either.
\<close>

datatype sockaddr =
    SockaddrIn "16 word" "16 word" "32 word"
  | SockaddrIn6 "16 word" "16 word" "32 word" "byte list" "32 word"

fun ss_family :: "sockaddr \<Rightarrow> 16 word" where
  "ss_family (SockaddrIn family _ _) = family"
| "ss_family (SockaddrIn6 family _ _ _ _) = family"

definition is_ipv4 :: "socket_addr \<Rightarrow> bool" where
  "is_ipv4 addr = (case addr of V4 _ _ \<Rightarrow> True | V6 _ _ _ _ \<Rightarrow> False)"

text \<open>The structure \<open>syscall_bind\<close> and \<open>syscall_connect\<close> build.\<close>

fun encode_addr :: "socket_addr \<Rightarrow> sockaddr" where
  "encode_addr (V4 ip port) = SockaddrIn AF_INET (swap_bytes16 port) (swap_bytes32 ip)"
| "encode_addr (V6 octets port flowinfo scope_id) = SockaddrIn6 AF_INET6 (swap_bytes16 port) 0 octets 0"

fun show_nat :: "nat \<Rightarrow> string" where
  "show_nat n =
     (if n < 10 then [char_of (48 + n)] else show_nat (n div 10) @ [char_of (48 + n mod 10)])"

definition bad_family :: "16 word \<Rightarrow> io_error" where
  "bad_family family = Custom OtherKind (''unexpected address family '' @ show_nat (unat family))"

text \<open>\<open>getsockname_addr\<close>, on what \<open>getsockname\<close> returned.\<close>

definition decode_addr :: "sockaddr \<Rightarrow> socket_addr io_result" where
  "decode_addr storage =
     (case storage of
        SockaddrIn family port addr \<Rightarrow>
          if family = AF_INET then Inr (V4 (swap_bytes32 addr) (swap_bytes16 port))
          else Inl (bad_family family)
      | SockaddrIn6 family port flowinfo octets scope_id \<Rightarrow>
          if family = AF_INET6 then Inr (V6 octets (swap_bytes16 port) flowinfo scope_id)
          else Inl (bad_family family))"

definition getsockname_addr :: "(int + sockaddr) \<Rightarrow> socket_addr io_result" where
  "getsockname_addr ans = (case ans of Inl e \<Rightarrow> Inl (Os e) | Inr storage \<Rightarrow> decode_addr storage)"

section \<open>Properties\<close>

definition without_scope :: "socket_addr \<Rightarrow> socket_addr" where
  "without_scope addr =
     (case addr of V4 ip port \<Rightarrow> V4 ip port | V6 octets port _ _ \<Rightarrow> V6 octets port 0 0)"

text \<open>
  Addresses survive the trip to the kernel and back: an address that was bound and is read
  back with \<open>getsockname\<close> is the same, port and address included, for every IPv4 address; for an
  IPv6 address it is the same exactly when it has no flow label and no scope, which are dropped.
\<close>

theorem sockaddr_round_trip:
  "getsockname_addr (Inr (encode_addr addr)) = Inr (without_scope addr) \<and>
   (getsockname_addr (Inr (encode_addr addr)) = Inr addr \<longleftrightarrow>
      (case addr of V4 _ _ \<Rightarrow> True | V6 _ _ flowinfo scope_id \<Rightarrow> flowinfo = 0 \<and> scope_id = 0))"
  by (cases addr) (auto simp: getsockname_addr_def decode_addr_def without_scope_def)

end
