(* ===== verification/Socket_Posix_Model.thy ===== *)
theory Socket_Posix_Model
  imports Epoll_Pump_Model Sockaddr_Model
begin

text \<open>
  \<open>rust_net/socket_posix.rs\<close>: callback-based sockets on the IO thread.  A socket is named by its
  index, which is also the name of its watcher in the pump.  The kernel's answers to \<open>socket\<close>,
  \<open>connect\<close>, \<open>read\<close>, \<open>write\<close>, \<open>accept4\<close>, \<open>listen\<close>, \<open>bind\<close> and \<open>getsockopt\<close> are arguments of the
  operations (\<open>Inl errno\<close> or the value); callbacks are named by numbers, and running one is the
  pair of its name and what it is called with.  \<open>None\<close> is the panic of \<open>assert!(fd >= 0)\<close>.

  All operations run on the IO thread.  A callback is the last thing a handler does, so what its
  body does is the steps that follow; the one exception, the \<open>schedule_timeout\<close> after an operation
  with a deadline, is a step of its own (\<open>Schedule\<close>).
\<close>

section \<open>State\<close>

definition INVALID_FD :: raw_fd where "INVALID_FD = -1"
definition EAGAIN :: int where "EAGAIN = 11"
definition EINPROGRESS :: int where "EINPROGRESS = 115"

datatype read_op = ReadIfReady nat | ReadLen nat nat

datatype write_op = WriteOp "byte list" nat

record sock =
  sk_fd :: raw_fd
  sk_read_watcher :: controller
  sk_write_watcher :: controller
  sk_pending_read :: "read_op option"
  sk_pending_write :: "write_op option"
  sk_pending_connect :: "nat option"
  sk_pending_accept :: "nat option"
  sk_connect_gen :: u64
  sk_read_gen :: u64
  sk_write_gen :: u64

definition sock_from_fd :: "raw_fd \<Rightarrow> sock" where
  "sock_from_fd fd =
     \<lparr>sk_fd = fd, sk_read_watcher = controller_new, sk_write_watcher = controller_new,
      sk_pending_read = None, sk_pending_write = None, sk_pending_connect = None,
      sk_pending_accept = None, sk_connect_gen = 0, sk_read_gen = 0, sk_write_gen = 0\<rparr>"

definition sock_new :: sock where
  "sock_new = sock_from_fd INVALID_FD"

text \<open>What a callback is called with.\<close>

datatype outcome =
    Done "unit io_result"
  | Bytes "byte list io_result"
  | Count "nat io_result"
  | Accepted "raw_fd io_result"

type_synonym call = "nat \<times> outcome"

definition os_result :: "(int + 'a) \<Rightarrow> 'a io_result" where
  "os_result ans = (case ans of Inl e \<Rightarrow> Inl (Os e) | Inr a \<Rightarrow> Inr a)"

section \<open>Watches\<close>

definition arm_read :: "(raw_fd \<Rightarrow> bool) \<Rightarrow> nat \<Rightarrow> sock \<Rightarrow> pump \<Rightarrow> sock \<times> pump" where
  "arm_read valid w s p =
     (case watch_file_descriptor valid (sk_fd s) False WatchRead w (sk_read_watcher s) p of
        (_, c, p') \<Rightarrow> (s\<lparr>sk_read_watcher := c\<rparr>, p'))"

definition arm_write :: "(raw_fd \<Rightarrow> bool) \<Rightarrow> nat \<Rightarrow> sock \<Rightarrow> pump \<Rightarrow> sock \<times> pump" where
  "arm_write valid w s p =
     (case watch_file_descriptor valid (sk_fd s) False WatchWrite w (sk_write_watcher s) p of
        (_, c, p') \<Rightarrow> (s\<lparr>sk_write_watcher := c\<rparr>, p'))"

definition stop_read :: "sock \<Rightarrow> pump \<Rightarrow> sock \<times> pump" where
  "stop_read s p =
     (case stop_watching_file_descriptor (sk_read_watcher s) p of
        (_, c, p') \<Rightarrow> (s\<lparr>sk_read_watcher := c\<rparr>, p'))"

definition stop_write :: "sock \<Rightarrow> pump \<Rightarrow> sock \<times> pump" where
  "stop_write s p =
     (case stop_watching_file_descriptor (sk_write_watcher s) p of
        (_, c, p') \<Rightarrow> (s\<lparr>sk_write_watcher := c\<rparr>, p'))"

section \<open>Operations\<close>

text \<open>\<open>open\<close>: the address family asked for, and the result.\<close>

definition open_family :: "socket_addr \<Rightarrow> 16 word" where
  "open_family addr = (if is_ipv4 addr then AF_INET else AF_INET6)"

definition sock_open :: "(int + raw_fd) \<Rightarrow> sock \<Rightarrow> unit io_result \<times> sock" where
  "sock_open ans s =
     (case ans of Inl e \<Rightarrow> (Inl (Os e), s) | Inr fd \<Rightarrow> (Inr (), s\<lparr>sk_fd := fd\<rparr>))"

text \<open>\<open>syscall_bind\<close> and \<open>syscall_connect\<close>, with the kernel's function of the structure passed to it.\<close>

definition syscall_bind :: "(sockaddr \<Rightarrow> int + unit) \<Rightarrow> socket_addr \<Rightarrow> unit io_result" where
  "syscall_bind sys addr = os_result (sys (encode_addr addr))"

definition syscall_connect :: "(sockaddr \<Rightarrow> int + unit) \<Rightarrow> socket_addr \<Rightarrow> unit io_result" where
  "syscall_connect sys addr = os_result (sys (encode_addr addr))"

definition sock_connect ::
    "(raw_fd \<Rightarrow> bool) \<Rightarrow> nat \<Rightarrow> (sockaddr \<Rightarrow> int + unit) \<Rightarrow> socket_addr \<Rightarrow> nat \<Rightarrow> sock \<Rightarrow> pump \<Rightarrow>
       (call list \<times> sock \<times> pump) option" where
  "sock_connect valid w sys addr cb s p =
     (if sk_fd s < 0 then None
      else let s1 = s\<lparr>sk_connect_gen := sk_connect_gen s + 1\<rparr>
           in case syscall_connect sys addr of
                Inr _ \<Rightarrow> Some ([(cb, Done (Inr ()))], s1, p)
              | Inl e \<Rightarrow>
                  if e = Os EINPROGRESS
                  then Some ([], arm_write valid w (s1\<lparr>sk_pending_connect := Some cb\<rparr>) p)
                  else Some ([(cb, Done (Inl e))], s1, p))"

definition sock_read_if_ready ::
    "(raw_fd \<Rightarrow> bool) \<Rightarrow> nat \<Rightarrow> nat \<Rightarrow> sock \<Rightarrow> pump \<Rightarrow> (call list \<times> sock \<times> pump) option" where
  "sock_read_if_ready valid w cb s p =
     (if sk_fd s < 0 then None
      else Some ([], arm_read valid w
             (s\<lparr>sk_read_gen := sk_read_gen s + 1, sk_pending_read := Some (ReadIfReady cb)\<rparr>) p))"

definition is_would_block :: "int \<Rightarrow> bool" where
  "is_would_block e \<longleftrightarrow> e = EAGAIN"

definition sock_read ::
    "(raw_fd \<Rightarrow> bool) \<Rightarrow> nat \<Rightarrow> nat \<Rightarrow> (int + byte list) \<Rightarrow> nat \<Rightarrow> sock \<Rightarrow> pump \<Rightarrow>
       (call list \<times> sock \<times> pump) option" where
  "sock_read valid w len ans cb s p =
     (if sk_fd s < 0 then None
      else let s1 = s\<lparr>sk_read_gen := sk_read_gen s + 1\<rparr>
           in case ans of
                Inr buf \<Rightarrow> Some ([(cb, Bytes (Inr (take len buf)))], s1, p)
              | Inl e \<Rightarrow>
                  if \<not> is_would_block e then Some ([(cb, Bytes (Inl (Os e)))], s1, p)
                  else Some ([], arm_read valid w (s1\<lparr>sk_pending_read := Some (ReadLen len cb)\<rparr>) p))"

definition sock_write ::
    "(raw_fd \<Rightarrow> bool) \<Rightarrow> nat \<Rightarrow> byte list \<Rightarrow> (int + nat) \<Rightarrow> nat \<Rightarrow> sock \<Rightarrow> pump \<Rightarrow>
       (call list \<times> sock \<times> pump) option" where
  "sock_write valid w buf ans cb s p =
     (if sk_fd s < 0 then None
      else let s1 = s\<lparr>sk_write_gen := sk_write_gen s + 1\<rparr>
           in case ans of
                Inr n \<Rightarrow> Some ([(cb, Count (Inr n))], s1, p)
              | Inl e \<Rightarrow>
                  if \<not> is_would_block e then Some ([(cb, Count (Inl (Os e)))], s1, p)
                  else Some ([], arm_write valid w (s1\<lparr>sk_pending_write := Some (WriteOp buf cb)\<rparr>) p))"

text \<open>\<open>bind\<close> and \<open>listen\<close>.\<close>

definition sock_bind :: "(sockaddr \<Rightarrow> int + unit) \<Rightarrow> socket_addr \<Rightarrow> sock \<Rightarrow> unit io_result option" where
  "sock_bind sys addr s = (if sk_fd s < 0 then None else Some (syscall_bind sys addr))"

definition sock_listen :: "(int + unit) \<Rightarrow> sock \<Rightarrow> unit io_result option" where
  "sock_listen ans s = (if sk_fd s < 0 then None else Some (os_result ans))"

definition sock_local_addr :: "(int + sockaddr) \<Rightarrow> socket_addr io_result" where
  "sock_local_addr ans = getsockname_addr ans"

definition do_accept :: "(int + raw_fd) \<Rightarrow> raw_fd io_result" where
  "do_accept ans = os_result ans"

definition sock_accept ::
    "(raw_fd \<Rightarrow> bool) \<Rightarrow> nat \<Rightarrow> (int + raw_fd) \<Rightarrow> nat \<Rightarrow> sock \<Rightarrow> pump \<Rightarrow> (call list \<times> sock \<times> pump) option" where
  "sock_accept valid w ans cb s p =
     (if sk_fd s < 0 then None
      else case do_accept ans of
             Inr fd \<Rightarrow> Some ([(cb, Accepted (Inr fd))], s, p)
           | Inl (Os e) \<Rightarrow>
               if e = EAGAIN then Some ([], arm_read valid w (s\<lparr>sk_pending_accept := Some cb\<rparr>) p)
               else Some ([(cb, Accepted (Inl (Os e)))], s, p)
           | Inl err \<Rightarrow> Some ([(cb, Accepted (Inl err))], s, p))"

definition cancel_accept :: "sock \<Rightarrow> pump \<Rightarrow> sock \<times> pump" where
  "cancel_accept s p = stop_read (s\<lparr>sk_pending_accept := None\<rparr>) p"

definition cancel_read :: "sock \<Rightarrow> pump \<Rightarrow> sock \<times> pump" where
  "cancel_read s p = stop_read (s\<lparr>sk_pending_read := None\<rparr>) p"

definition cancel_write :: "sock \<Rightarrow> pump \<Rightarrow> sock \<times> pump" where
  "cancel_write s p = stop_write (s\<lparr>sk_pending_write := None\<rparr>) p"

text \<open>\<open>close\<close>: the descriptors passed to \<open>libc::close\<close>, the socket, the pump.\<close>

definition sock_close :: "sock \<Rightarrow> pump \<Rightarrow> raw_fd list \<times> sock \<times> pump" where
  "sock_close s p =
     (case stop_read s p of
        (s1, p1) \<Rightarrow>
          (case stop_write s1 p1 of
             (s2, p2) \<Rightarrow>
               ((if sk_fd s2 \<ge> 0 then [sk_fd s2] else []),
                s2\<lparr>sk_pending_read := None, sk_pending_write := None, sk_pending_connect := None,
                   sk_pending_accept := None, sk_fd := INVALID_FD\<rparr>, p2)))"

text \<open>The drop of the last \<open>Arc\<close>: \<open>Drop\<close>, then the drop of the two controllers.\<close>

definition sock_drop :: "sock \<Rightarrow> pump \<Rightarrow> raw_fd list \<times> pump" where
  "sock_drop s p =
     ((if sk_fd s \<ge> 0 then [sk_fd s] else []),
      controller_drop (sk_write_watcher s) (controller_drop (sk_read_watcher s) p))"

section \<open>Readiness and deadlines\<close>

text \<open>\<open>on_file_can_read_without_blocking\<close>, with the answers of \<open>accept4\<close> and of \<open>read\<close>.\<close>

definition on_file_can_read :: "(int + raw_fd) \<Rightarrow> (int + byte list) \<Rightarrow> sock \<Rightarrow> call list \<times> sock" where
  "on_file_can_read acc rd s =
     (case sk_pending_accept s of
        Some cb \<Rightarrow> ([(cb, Accepted (do_accept acc))], s\<lparr>sk_pending_accept := None\<rparr>)
      | None \<Rightarrow>
          (case sk_pending_read s of
             Some (ReadIfReady cb) \<Rightarrow> ([(cb, Done (Inr ()))], s\<lparr>sk_pending_read := None\<rparr>)
           | Some (ReadLen len cb) \<Rightarrow>
               ([(cb, Bytes (case rd of Inr buf \<Rightarrow> Inr (take len buf) | Inl e \<Rightarrow> Inl (Os e)))],
                s\<lparr>sk_pending_read := None\<rparr>)
           | None \<Rightarrow> ([], s)))"

text \<open>\<open>SO_ERROR\<close> as \<open>getsockopt\<close> stored it; its return code is not looked at.\<close>

definition check_connect_error :: "int \<Rightarrow> unit io_result" where
  "check_connect_error err = (if err = 0 then Inr () else Inl (Os err))"

definition on_file_can_write :: "int \<Rightarrow> (int + nat) \<Rightarrow> sock \<Rightarrow> call list \<times> sock" where
  "on_file_can_write so_error wr s =
     (case sk_pending_connect s of
        Some cb \<Rightarrow> ([(cb, Done (check_connect_error so_error))], s\<lparr>sk_pending_connect := None\<rparr>)
      | None \<Rightarrow>
          (case sk_pending_write s of
             Some (WriteOp buf cb) \<Rightarrow> ([(cb, Count (os_result wr))], s\<lparr>sk_pending_write := None\<rparr>)
           | None \<Rightarrow> ([], s)))"

definition timed_out :: io_error where
  "timed_out = Kind TimedOut"

definition fire_connect_timeout :: "u64 \<Rightarrow> sock \<Rightarrow> pump \<Rightarrow> call list \<times> sock \<times> pump" where
  "fire_connect_timeout my_gen s p =
     (if sk_connect_gen s \<noteq> my_gen then ([], s, p)
      else case sk_pending_connect s of
             Some cb \<Rightarrow> ([(cb, Done (Inl timed_out))], stop_write (s\<lparr>sk_pending_connect := None\<rparr>) p)
           | None \<Rightarrow> ([], s, p))"

definition fire_read_timeout :: "u64 \<Rightarrow> sock \<Rightarrow> pump \<Rightarrow> call list \<times> sock \<times> pump" where
  "fire_read_timeout my_gen s p =
     (if sk_read_gen s \<noteq> my_gen then ([], s, p)
      else case sk_pending_read s of
             Some (ReadIfReady cb) \<Rightarrow> ([(cb, Done (Inl timed_out))], stop_read (s\<lparr>sk_pending_read := None\<rparr>) p)
           | Some (ReadLen len cb) \<Rightarrow> ([(cb, Bytes (Inl timed_out))], stop_read (s\<lparr>sk_pending_read := None\<rparr>) p)
           | None \<Rightarrow> ([], s, p))"

definition fire_write_timeout :: "u64 \<Rightarrow> sock \<Rightarrow> pump \<Rightarrow> call list \<times> sock \<times> pump" where
  "fire_write_timeout my_gen s p =
     (if sk_write_gen s \<noteq> my_gen then ([], s, p)
      else case sk_pending_write s of
             Some (WriteOp buf cb) \<Rightarrow> ([(cb, Count (Inl timed_out))], stop_write (s\<lparr>sk_pending_write := None\<rparr>) p)
           | None \<Rightarrow> ([], s, p))"

end
