(* ===== verification/Socket_Machine.thy ===== *)
theory Socket_Machine
  imports Socket_Posix_Model
begin

text \<open>
  The sockets of one IO thread over its pump and its delayed tasks: which callbacks are called,
  how often, and by which deadlines.  Every operation gets a fresh callback name.  A timeout
  records, beside what the code's closure captures, the callback of the operation it was
  created for.
\<close>

section \<open>State\<close>

datatype slot_kind = ConnectSlot | ReadSlot | WriteSlot

fun slot_gen :: "slot_kind \<Rightarrow> sock \<Rightarrow> u64" where
  "slot_gen ConnectSlot s = sk_connect_gen s"
| "slot_gen ReadSlot s = sk_read_gen s"
| "slot_gen WriteSlot s = sk_write_gen s"

fun read_cb :: "read_op \<Rightarrow> nat" where
  "read_cb (ReadIfReady cb) = cb"
| "read_cb (ReadLen len cb) = cb"

fun write_cb :: "write_op \<Rightarrow> nat" where
  "write_cb (WriteOp buf cb) = cb"

fun slot_cb :: "slot_kind \<Rightarrow> sock \<Rightarrow> nat option" where
  "slot_cb ConnectSlot s = sk_pending_connect s"
| "slot_cb ReadSlot s = map_option read_cb (sk_pending_read s)"
| "slot_cb WriteSlot s = map_option write_cb (sk_pending_write s)"

definition opt_list :: "'a option \<Rightarrow> 'a list" where
  "opt_list x = (case x of None \<Rightarrow> [] | Some a \<Rightarrow> [a])"

text \<open>The callbacks a socket holds.\<close>

definition pend_of :: "sock \<Rightarrow> nat list" where
  "pend_of s =
     opt_list (slot_cb ConnectSlot s) @ opt_list (slot_cb ReadSlot s) @ opt_list (slot_cb WriteSlot s) @
     opt_list (sk_pending_accept s)"

record timeout =
  to_sock :: nat
  to_kind :: slot_kind
  to_gen :: u64
  to_delay :: duration
  to_cb :: nat

record net =
  nt_now :: instant
  nt_socks :: "sock option list"
  nt_pump :: pump
  nt_next :: nat
  nt_unscheduled :: "timeout list"
  nt_timeouts :: "(instant \<times> timeout) list"
  nt_calls :: "call list"
  nt_closed :: "raw_fd list"

definition net_new :: net where
  "net_new =
     \<lparr>nt_now = 0, nt_socks = [], nt_pump = pump_new, nt_next = 0, nt_unscheduled = [],
      nt_timeouts = [], nt_calls = [], nt_closed = []\<rparr>"

section \<open>Steps\<close>

datatype sock_op =
    OpConnect "sockaddr \<Rightarrow> int + unit" socket_addr
  | OpReadIfReady
  | OpRead nat "int + byte list"
  | OpWrite "byte list" "int + nat"

fun op_kind :: "sock_op \<Rightarrow> slot_kind" where
  "op_kind (OpConnect _ _) = ConnectSlot"
| "op_kind OpReadIfReady = ReadSlot"
| "op_kind (OpRead _ _) = ReadSlot"
| "op_kind (OpWrite _ _) = WriteSlot"

fun sock_run ::
    "(raw_fd \<Rightarrow> bool) \<Rightarrow> nat \<Rightarrow> sock_op \<Rightarrow> nat \<Rightarrow> sock \<Rightarrow> pump \<Rightarrow> (call list \<times> sock \<times> pump) option" where
  "sock_run valid w (OpConnect sys addr) cb s p = sock_connect valid w sys addr cb s p"
| "sock_run valid w OpReadIfReady cb s p = sock_read_if_ready valid w cb s p"
| "sock_run valid w (OpRead len ans) cb s p = sock_read valid w len ans cb s p"
| "sock_run valid w (OpWrite buf ans) cb s p = sock_write valid w buf ans cb s p"

fun sock_fire :: "slot_kind \<Rightarrow> u64 \<Rightarrow> sock \<Rightarrow> pump \<Rightarrow> call list \<times> sock \<times> pump" where
  "sock_fire ConnectSlot g s p = fire_connect_timeout g s p"
| "sock_fire ReadSlot g s p = fire_read_timeout g s p"
| "sock_fire WriteSlot g s p = fire_write_timeout g s p"

datatype net_label =
    NetTick duration
  | NewSocket
  | FromFd raw_fd
  | Open nat "int + raw_fd"
  | Op nat sock_op "duration option"
  | Accept nat "int + raw_fd"
  | Schedule nat
  | Fire nat
  | Event raw_fd "32 word" "int + raw_fd" "int + byte list" int "int + nat"
  | CancelAccept nat | CancelRead nat | CancelWrite nat
  | CloseSock nat
  | DropSock nat

definition sock_at :: "nat \<Rightarrow> net \<Rightarrow> sock option" where
  "sock_at w s = (if w < length (nt_socks s) then nt_socks s ! w else None)"

definition put_sock :: "nat \<Rightarrow> sock \<times> pump \<Rightarrow> net \<Rightarrow> net" where
  "put_sock w r s = s\<lparr>nt_socks := (nt_socks s)[w := Some (fst r)], nt_pump := snd r\<rparr>"

definition call_back :: "call list \<Rightarrow> net \<Rightarrow> net" where
  "call_back cs s = s\<lparr>nt_calls := nt_calls s @ cs\<rparr>"

text \<open>\<open>connect\<close>, \<open>read_if_ready\<close>, \<open>read\<close>, \<open>write\<close> and their forms with a deadline.\<close>

definition net_op :: "(raw_fd \<Rightarrow> bool) \<Rightarrow> nat \<Rightarrow> sock_op \<Rightarrow> duration option \<Rightarrow> net \<Rightarrow> net option" where
  "net_op valid w op deadline s =
     (case sock_at w s of
        None \<Rightarrow> None
      | Some k \<Rightarrow>
          let cb = nt_next s; my_gen = slot_gen (op_kind op) k + 1 in
          (case sock_run valid w op cb k (nt_pump s) of
             None \<Rightarrow> None
           | Some (cs, r) \<Rightarrow>
               Some (call_back cs (put_sock w r
                 (s\<lparr>nt_next := cb + 1,
                    nt_unscheduled := nt_unscheduled s @
                      (case deadline of
                         None \<Rightarrow> []
                       | Some d \<Rightarrow> [\<lparr>to_sock = w, to_kind = op_kind op, to_gen = my_gen, to_delay = d, to_cb = cb\<rparr>])\<rparr>)))))"

text \<open>The forms with a deadline.\<close>

definition connect_with_timeout ::
    "(raw_fd \<Rightarrow> bool) \<Rightarrow> nat \<Rightarrow> (sockaddr \<Rightarrow> int + unit) \<Rightarrow> socket_addr \<Rightarrow> duration \<Rightarrow> net \<Rightarrow> net option" where
  "connect_with_timeout valid w sys addr timeout s = net_op valid w (OpConnect sys addr) (Some timeout) s"

definition read_if_ready_with_timeout :: "(raw_fd \<Rightarrow> bool) \<Rightarrow> nat \<Rightarrow> duration \<Rightarrow> net \<Rightarrow> net option" where
  "read_if_ready_with_timeout valid w timeout s = net_op valid w OpReadIfReady (Some timeout) s"

definition read_with_timeout ::
    "(raw_fd \<Rightarrow> bool) \<Rightarrow> nat \<Rightarrow> nat \<Rightarrow> (int + byte list) \<Rightarrow> duration \<Rightarrow> net \<Rightarrow> net option" where
  "read_with_timeout valid w len ans timeout s = net_op valid w (OpRead len ans) (Some timeout) s"

definition write_with_timeout ::
    "(raw_fd \<Rightarrow> bool) \<Rightarrow> nat \<Rightarrow> byte list \<Rightarrow> (int + nat) \<Rightarrow> duration \<Rightarrow> net \<Rightarrow> net option" where
  "write_with_timeout valid w buf ans timeout s = net_op valid w (OpWrite buf ans) (Some timeout) s"

fun net_op_with_timeout :: "(raw_fd \<Rightarrow> bool) \<Rightarrow> nat \<Rightarrow> sock_op \<Rightarrow> duration \<Rightarrow> net \<Rightarrow> net option" where
  "net_op_with_timeout valid w (OpConnect sys addr) d s = connect_with_timeout valid w sys addr d s"
| "net_op_with_timeout valid w OpReadIfReady d s = read_if_ready_with_timeout valid w d s"
| "net_op_with_timeout valid w (OpRead len ans) d s = read_with_timeout valid w len ans d s"
| "net_op_with_timeout valid w (OpWrite buf ans) d s = write_with_timeout valid w buf ans d s"

lemma net_op_with_timeout: "net_op_with_timeout valid w op d s = net_op valid w op (Some d) s"
  by (cases op) (simp_all add: connect_with_timeout_def read_if_ready_with_timeout_def read_with_timeout_def
      write_with_timeout_def)

definition net_accept :: "(raw_fd \<Rightarrow> bool) \<Rightarrow> nat \<Rightarrow> (int + raw_fd) \<Rightarrow> net \<Rightarrow> net option" where
  "net_accept valid w ans s =
     (case sock_at w s of
        None \<Rightarrow> None
      | Some k \<Rightarrow>
          (case sock_accept valid w ans (nt_next s) k (nt_pump s) of
             None \<Rightarrow> None
           | Some (cs, r) \<Rightarrow> Some (call_back cs (put_sock w r (s\<lparr>nt_next := nt_next s + 1\<rparr>)))))"

text \<open>\<open>schedule_timeout\<close>, and the delayed task it posted.\<close>

definition net_schedule :: "nat \<Rightarrow> net \<Rightarrow> net option" where
  "net_schedule i s =
     (if i < length (nt_unscheduled s)
      then let to = nt_unscheduled s ! i
           in Some (s\<lparr>nt_unscheduled := take i (nt_unscheduled s) @ drop (Suc i) (nt_unscheduled s),
                      nt_timeouts := nt_timeouts s @ [(nt_now s + to_delay to, to)]\<rparr>)
      else None)"

definition net_fire :: "nat \<Rightarrow> net \<Rightarrow> net option" where
  "net_fire i s =
     (if i < length (nt_timeouts s) \<and> fst (nt_timeouts s ! i) \<le> nt_now s
      then let to = snd (nt_timeouts s ! i);
               s' = s\<lparr>nt_timeouts := take i (nt_timeouts s) @ drop (Suc i) (nt_timeouts s)\<rparr>
           in case sock_at (to_sock to) s of
                None \<Rightarrow> Some s'
              | Some k \<Rightarrow>
                  (case sock_fire (to_kind to) (to_gen to) k (nt_pump s) of
                     (cs, r) \<Rightarrow> Some (call_back cs (put_sock (to_sock to) r s')))
      else None)"

text \<open>One readiness event: the pump's dispatch, then the socket's handler.\<close>

fun net_callback :: "(int + raw_fd) \<Rightarrow> (int + byte list) \<Rightarrow> int \<Rightarrow> (int + nat) \<Rightarrow> fd_callback \<Rightarrow> net \<Rightarrow> net" where
  "net_callback acc rd so_error wr (CanRead w fd) s =
     (case sock_at w s of
        None \<Rightarrow> s
      | Some k \<Rightarrow> (case on_file_can_read acc rd k of (cs, k') \<Rightarrow> call_back cs (put_sock w (k', nt_pump s) s)))"
| "net_callback acc rd so_error wr (CanWrite w fd) s =
     (case sock_at w s of
        None \<Rightarrow> s
      | Some k \<Rightarrow> (case on_file_can_write so_error wr k of (cs, k') \<Rightarrow> call_back cs (put_sock w (k', nt_pump s) s)))"

definition net_event ::
    "raw_fd \<Rightarrow> 32 word \<Rightarrow> (int + raw_fd) \<Rightarrow> (int + byte list) \<Rightarrow> int \<Rightarrow> (int + nat) \<Rightarrow> net \<Rightarrow> net" where
  "net_event fd flags acc rd so_error wr s =
     (case dispatch_event (\<lambda>w. sock_at w s \<noteq> None) fd flags (nt_pump s) of
        (cbs, p) \<Rightarrow> fold (net_callback acc rd so_error wr) cbs (s\<lparr>nt_pump := p\<rparr>))"

definition with_sock :: "nat \<Rightarrow> (sock \<Rightarrow> net) \<Rightarrow> net \<Rightarrow> net option" where
  "with_sock w f s = map_option f (sock_at w s)"

fun net_step :: "(raw_fd \<Rightarrow> bool) \<Rightarrow> net_label \<Rightarrow> net \<Rightarrow> net option" where
  "net_step valid (NetTick d) s = Some (s\<lparr>nt_now := nt_now s + d\<rparr>)"
| "net_step valid NewSocket s = Some (s\<lparr>nt_socks := nt_socks s @ [Some sock_new]\<rparr>)"
| "net_step valid (FromFd fd) s = Some (s\<lparr>nt_socks := nt_socks s @ [Some (sock_from_fd fd)]\<rparr>)"
| "net_step valid (Open w ans) s =
     with_sock w (\<lambda>k. put_sock w (snd (sock_open ans k), nt_pump s) s) s"
| "net_step valid (Op w op deadline) s =
     (case deadline of
        None \<Rightarrow> net_op valid w op None s
      | Some timeout \<Rightarrow> net_op_with_timeout valid w op timeout s)"
| "net_step valid (Accept w ans) s = net_accept valid w ans s"
| "net_step valid (Schedule i) s = net_schedule i s"
| "net_step valid (Fire i) s = net_fire i s"
| "net_step valid (Event fd flags acc rd so_error wr) s = Some (net_event fd flags acc rd so_error wr s)"
| "net_step valid (CancelAccept w) s = with_sock w (\<lambda>k. put_sock w (cancel_accept k (nt_pump s)) s) s"
| "net_step valid (CancelRead w) s = with_sock w (\<lambda>k. put_sock w (cancel_read k (nt_pump s)) s) s"
| "net_step valid (CancelWrite w) s = with_sock w (\<lambda>k. put_sock w (cancel_write k (nt_pump s)) s) s"
| "net_step valid (CloseSock w) s =
     with_sock w (\<lambda>k. case sock_close k (nt_pump s) of
        (fds, r) \<Rightarrow> put_sock w r (s\<lparr>nt_closed := nt_closed s @ fds\<rparr>)) s"
| "net_step valid (DropSock w) s =
     with_sock w (\<lambda>k. case sock_drop k (nt_pump s) of
        (fds, p) \<Rightarrow> s\<lparr>nt_socks := (nt_socks s)[w := None], nt_pump := p, nt_closed := nt_closed s @ fds\<rparr>) s"

lemma net_step_Op [simp]: "net_step valid (Op w op deadline) s = net_op valid w op deadline s"
  by (simp add: net_op_with_timeout split: option.split)

declare net_step.simps(5) [simp del]

text \<open>The steps that give up a callback on purpose, and an operation started over a pending one.\<close>

fun overlaps :: "net_label \<Rightarrow> net \<Rightarrow> bool" where
  "overlaps (Op w op deadline) s = (case sock_at w s of None \<Rightarrow> False | Some k \<Rightarrow> slot_cb (op_kind op) k \<noteq> None)"
| "overlaps (Accept w ans) s = (case sock_at w s of None \<Rightarrow> False | Some k \<Rightarrow> sk_pending_accept k \<noteq> None)"
| "overlaps _ s = False"

fun cancels :: "net_label \<Rightarrow> bool" where
  "cancels (CancelAccept w) = True"
| "cancels (CancelRead w) = True"
| "cancels (CancelWrite w) = True"
| "cancels (CloseSock w) = True"
| "cancels (DropSock w) = True"
| "cancels _ = False"

section \<open>Every callback is called at most once\<close>

definition pend_all :: "sock option list \<Rightarrow> nat list" where
  "pend_all ks = concat (map (\<lambda>k. case k of None \<Rightarrow> [] | Some k \<Rightarrow> pend_of k) ks)"

definition all_ids :: "net \<Rightarrow> nat list" where
  "all_ids s = map fst (nt_calls s) @ pend_all (nt_socks s)"

definition once_inv :: "net \<Rightarrow> bool" where
  "once_inv s \<longleftrightarrow> distinct (all_ids s) \<and> (\<forall>c \<in> set (all_ids s). c < nt_next s)"

lemma arm_stop_fields [simp]:
  "sk_fd (fst (arm_read valid w k p)) = sk_fd k" "sk_pending_read (fst (arm_read valid w k p)) = sk_pending_read k" "sk_pending_write (fst (arm_read valid w k p)) = sk_pending_write k" "sk_pending_connect (fst (arm_read valid w k p)) = sk_pending_connect k"
  "sk_pending_accept (fst (arm_read valid w k p)) = sk_pending_accept k" "sk_connect_gen (fst (arm_read valid w k p)) = sk_connect_gen k" "sk_read_gen (fst (arm_read valid w k p)) = sk_read_gen k" "sk_write_gen (fst (arm_read valid w k p)) = sk_write_gen k"
  "sk_fd (fst (arm_write valid w k p)) = sk_fd k" "sk_pending_read (fst (arm_write valid w k p)) = sk_pending_read k" "sk_pending_write (fst (arm_write valid w k p)) = sk_pending_write k" "sk_pending_connect (fst (arm_write valid w k p)) = sk_pending_connect k"
  "sk_pending_accept (fst (arm_write valid w k p)) = sk_pending_accept k" "sk_connect_gen (fst (arm_write valid w k p)) = sk_connect_gen k" "sk_read_gen (fst (arm_write valid w k p)) = sk_read_gen k" "sk_write_gen (fst (arm_write valid w k p)) = sk_write_gen k"
  "sk_fd (fst (stop_read k p)) = sk_fd k" "sk_pending_read (fst (stop_read k p)) = sk_pending_read k" "sk_pending_write (fst (stop_read k p)) = sk_pending_write k" "sk_pending_connect (fst (stop_read k p)) = sk_pending_connect k"
  "sk_pending_accept (fst (stop_read k p)) = sk_pending_accept k" "sk_connect_gen (fst (stop_read k p)) = sk_connect_gen k" "sk_read_gen (fst (stop_read k p)) = sk_read_gen k" "sk_write_gen (fst (stop_read k p)) = sk_write_gen k"
  "sk_fd (fst (stop_write k p)) = sk_fd k" "sk_pending_read (fst (stop_write k p)) = sk_pending_read k" "sk_pending_write (fst (stop_write k p)) = sk_pending_write k" "sk_pending_connect (fst (stop_write k p)) = sk_pending_connect k"
  "sk_pending_accept (fst (stop_write k p)) = sk_pending_accept k" "sk_connect_gen (fst (stop_write k p)) = sk_connect_gen k" "sk_read_gen (fst (stop_write k p)) = sk_read_gen k" "sk_write_gen (fst (stop_write k p)) = sk_write_gen k"
  by (simp_all add: arm_read_def arm_write_def stop_read_def stop_write_def split: prod.split)

lemma arm_stop_slots [simp]:
  "slot_cb K (fst (arm_read valid w k p)) = slot_cb K k" "slot_cb K (fst (arm_write valid w k p)) = slot_cb K k"
  "slot_cb K (fst (stop_read k p)) = slot_cb K k" "slot_cb K (fst (stop_write k p)) = slot_cb K k"
  "slot_gen K (fst (arm_read valid w k p)) = slot_gen K k" "slot_gen K (fst (arm_write valid w k p)) = slot_gen K k"
  "slot_gen K (fst (stop_read k p)) = slot_gen K k" "slot_gen K (fst (stop_write k p)) = slot_gen K k"
  by (cases K; simp)+

lemma mset_pend_of:
  "mset (pend_of k) =
     mset (opt_list (slot_cb ConnectSlot k)) + mset (opt_list (slot_cb ReadSlot k)) +
     mset (opt_list (slot_cb WriteSlot k)) + mset (opt_list (sk_pending_accept k))"
  by (simp add: pend_of_def)

lemma opt_list_simps [simp]: "opt_list None = []" "opt_list (Some a) = [a]"
  by (simp_all add: opt_list_def)

text \<open>An operation neither invents nor doubles a callback, and over an empty slot loses none.\<close>

lemma sock_run_conserves:
  assumes "sock_run valid w op cb k p = Some (cs, r)"
  shows "mset (map fst cs) + mset (pend_of (fst r)) \<subseteq># add_mset cb (mset (pend_of k))"
    and "slot_cb (op_kind op) k = None \<Longrightarrow>
           mset (map fst cs) + mset (pend_of (fst r)) = add_mset cb (mset (pend_of k))"
proof -
  have "mset (map fst cs) + mset (pend_of (fst r)) =
      add_mset cb (mset (pend_of k)) - (if cs = [] then mset (opt_list (slot_cb (op_kind op) k)) else {#})"
    using assms
    by (cases op)
      (auto simp: sock_connect_def sock_read_if_ready_def sock_read_def sock_write_def Let_def mset_pend_of
        split: if_splits sum.splits)
  then show "mset (map fst cs) + mset (pend_of (fst r)) \<subseteq># add_mset cb (mset (pend_of k))"
    "slot_cb (op_kind op) k = None \<Longrightarrow>
           mset (map fst cs) + mset (pend_of (fst r)) = add_mset cb (mset (pend_of k))"
    by simp_all
qed

lemma sock_accept_conserves:
  assumes "sock_accept valid w ans cb k p = Some (cs, r)"
  shows "mset (map fst cs) + mset (pend_of (fst r)) \<subseteq># add_mset cb (mset (pend_of k))"
    and "sk_pending_accept k = None \<Longrightarrow>
           mset (map fst cs) + mset (pend_of (fst r)) = add_mset cb (mset (pend_of k))"
proof -
  have "mset (map fst cs) + mset (pend_of (fst r)) =
      add_mset cb (mset (pend_of k)) - (if cs = [] then mset (opt_list (sk_pending_accept k)) else {#})"
    using assms
    by (auto simp: sock_accept_def do_accept_def os_result_def mset_pend_of
        split: if_splits sum.splits io_error.splits)
  then show "mset (map fst cs) + mset (pend_of (fst r)) \<subseteq># add_mset cb (mset (pend_of k))"
    "sk_pending_accept k = None \<Longrightarrow>
       mset (map fst cs) + mset (pend_of (fst r)) = add_mset cb (mset (pend_of k))"
    by simp_all
qed

lemma handlers_conserve:
  "on_file_can_read acc rd k = (cs, k') \<Longrightarrow> mset (map fst cs) + mset (pend_of k') = mset (pend_of k)"
  "on_file_can_write so_error wr k = (cs, k') \<Longrightarrow> mset (map fst cs) + mset (pend_of k') = mset (pend_of k)"
  by (auto simp: on_file_can_read_def on_file_can_write_def mset_pend_of
      split: option.splits read_op.splits write_op.splits)

lemma sock_fire_conserves:
  "sock_fire K g k p = (cs, r) \<Longrightarrow> mset (map fst cs) + mset (pend_of (fst r)) = mset (pend_of k)"
  by (cases K)
    (auto simp: fire_connect_timeout_def fire_read_timeout_def fire_write_timeout_def mset_pend_of
      split: if_splits option.splits read_op.splits write_op.splits)

lemma cancel_conserves:
  "mset (pend_of (fst (cancel_accept k p))) \<subseteq># mset (pend_of k)"
  "mset (pend_of (fst (cancel_read k p))) \<subseteq># mset (pend_of k)"
  "mset (pend_of (fst (cancel_write k p))) \<subseteq># mset (pend_of k)"
  by (simp_all add: cancel_accept_def cancel_read_def cancel_write_def mset_pend_of)

lemma close_conserves: "sock_close k p = (fds, r) \<Longrightarrow> pend_of (fst r) = []"
  by (auto simp: sock_close_def pend_of_def split: prod.splits)

lemma mset_pend_all_update:
  assumes "w < length ks"
  shows "mset (pend_all (ks[w := k'])) + mset (case ks ! w of None \<Rightarrow> [] | Some k \<Rightarrow> pend_of k) =
         mset (pend_all ks) + mset (case k' of None \<Rightarrow> [] | Some k \<Rightarrow> pend_of k)"
  using assms unfolding pend_all_def
proof (induction ks arbitrary: w)
  case (Cons k ks)
  then show ?case by (cases w) (auto simp: ac_simps)
qed simp

lemma sock_at_Some: "sock_at w s = Some k \<longleftrightarrow> w < length (nt_socks s) \<and> nt_socks s ! w = Some k"
  by (auto simp: sock_at_def)

text \<open>What a handler of one socket does to the callbacks of all of them.\<close>

lemma all_ids_put:
  assumes "sock_at w s = Some k"
  shows "mset (all_ids (call_back cs (put_sock w r s))) + mset (pend_of k) =
         mset (all_ids s) + (mset (map fst cs) + mset (pend_of (fst r)))"
proof -
  have "mset (pend_all ((nt_socks s)[w := Some (fst r)])) + mset (pend_of k) =
      mset (pend_all (nt_socks s)) + mset (pend_of (fst r))"
    using mset_pend_all_update [of w "nt_socks s" "Some (fst r)"] assms by (simp add: sock_at_Some)
  then show ?thesis by (simp add: all_ids_def call_back_def put_sock_def ac_simps)
qed

lemma all_ids_put_mono:
  assumes "sock_at w s = Some k"
  shows "mset (map fst cs) + mset (pend_of (fst r)) \<subseteq># mset (pend_of k) + N \<Longrightarrow>
           mset (all_ids (call_back cs (put_sock w r s))) \<subseteq># mset (all_ids s) + N"
    and "mset (map fst cs) + mset (pend_of (fst r)) = mset (pend_of k) + N \<Longrightarrow>
           mset (all_ids (call_back cs (put_sock w r s))) = mset (all_ids s) + N"
proof -
  have eq: "mset (all_ids (call_back cs (put_sock w r s))) + mset (pend_of k) =
      mset (all_ids s) + (mset (map fst cs) + mset (pend_of (fst r)))"
    by (rule all_ids_put [OF assms])
  show "mset (all_ids (call_back cs (put_sock w r s))) \<subseteq># mset (all_ids s) + N"
    if le: "mset (map fst cs) + mset (pend_of (fst r)) \<subseteq># mset (pend_of k) + N"
  proof -
    have "mset (all_ids s) + (mset (map fst cs) + mset (pend_of (fst r))) \<subseteq>#
        mset (all_ids s) + (mset (pend_of k) + N)" using le by simp
    then have "mset (all_ids (call_back cs (put_sock w r s))) + mset (pend_of k) \<subseteq>#
        (mset (all_ids s) + N) + mset (pend_of k)" by (simp only: eq [symmetric] ac_simps)
    then show ?thesis by (simp only: mset_subset_eq_mono_add_right_cancel)
  qed
  show "mset (all_ids (call_back cs (put_sock w r s))) = mset (all_ids s) + N"
    if "mset (map fst cs) + mset (pend_of (fst r)) = mset (pend_of k) + N"
  proof -
    have "mset (all_ids (call_back cs (put_sock w r s))) + mset (pend_of k) =
        (mset (all_ids s) + N) + mset (pend_of k)" unfolding eq that by (simp only: ac_simps)
    then show ?thesis by simp
  qed
qed

lemma call_back_Nil [simp]: "call_back [] s = s"
  by (simp add: call_back_def)

lemma all_ids_frame [simp]:
  "all_ids (s\<lparr>nt_now := a\<rparr>) = all_ids s" "all_ids (s\<lparr>nt_pump := b\<rparr>) = all_ids s"
  "all_ids (s\<lparr>nt_next := c\<rparr>) = all_ids s" "all_ids (s\<lparr>nt_unscheduled := d\<rparr>) = all_ids s"
  "all_ids (s\<lparr>nt_timeouts := e\<rparr>) = all_ids s" "all_ids (s\<lparr>nt_closed := f\<rparr>) = all_ids s"
  by (simp_all add: all_ids_def)

lemma sock_at_frame [simp]:
  "sock_at w (s\<lparr>nt_now := a\<rparr>) = sock_at w s" "sock_at w (s\<lparr>nt_pump := b\<rparr>) = sock_at w s"
  "sock_at w (s\<lparr>nt_next := c\<rparr>) = sock_at w s" "sock_at w (s\<lparr>nt_unscheduled := d\<rparr>) = sock_at w s"
  "sock_at w (s\<lparr>nt_timeouts := e\<rparr>) = sock_at w s" "sock_at w (s\<lparr>nt_closed := f\<rparr>) = sock_at w s"
  by (simp_all add: sock_at_def)

lemma net_callback_conserves:
  "mset (all_ids (net_callback acc rd so_error wr cb s)) = mset (all_ids s)"
  "nt_next (net_callback acc rd so_error wr cb s) = nt_next s"
proof -
  show "mset (all_ids (net_callback acc rd so_error wr cb s)) = mset (all_ids s)"
    using handlers_conserve all_ids_put_mono(2) [of _ s _ _ _ "{#}"]
    by (cases cb) (auto split: option.splits prod.splits)
  show "nt_next (net_callback acc rd so_error wr cb s) = nt_next s"
    by (cases cb) (auto simp: call_back_def put_sock_def split: option.splits prod.splits)
qed

lemma net_event_conserves:
  "mset (all_ids (net_event fd flags acc rd so_error wr s)) = mset (all_ids s)"
  "nt_next (net_event fd flags acc rd so_error wr s) = nt_next s"
proof -
  have "mset (all_ids (fold (net_callback acc rd so_error wr) cbs u)) = mset (all_ids u)"
    "nt_next (fold (net_callback acc rd so_error wr) cbs u) = nt_next u" for cbs u
    by (induction cbs arbitrary: u) (simp_all add: net_callback_conserves)
  then show "mset (all_ids (net_event fd flags acc rd so_error wr s)) = mset (all_ids s)"
    "nt_next (net_event fd flags acc rd so_error wr s) = nt_next s"
    by (auto simp: net_event_def split: prod.splits)
qed

definition new_timeouts :: "nat \<Rightarrow> sock_op \<Rightarrow> duration option \<Rightarrow> sock \<Rightarrow> nat \<Rightarrow> timeout list" where
  "new_timeouts w op deadline k cb =
     (case deadline of
        None \<Rightarrow> []
      | Some d \<Rightarrow> [\<lparr>to_sock = w, to_kind = op_kind op, to_gen = slot_gen (op_kind op) k + 1, to_delay = d, to_cb = cb\<rparr>])"

lemma net_opE:
  assumes "net_op valid w op deadline s = Some t"
  obtains k cs r where "sock_at w s = Some k" "sock_run valid w op (nt_next s) k (nt_pump s) = Some (cs, r)"
    "t = call_back cs (put_sock w r
       (s\<lparr>nt_next := nt_next s + 1, nt_unscheduled := nt_unscheduled s @ new_timeouts w op deadline k (nt_next s)\<rparr>))"
proof -
  obtain k where k: "sock_at w s = Some k" using assms by (auto simp: net_op_def split: option.splits)
  obtain cs r where run: "sock_run valid w op (nt_next s) k (nt_pump s) = Some (cs, r)"
    using assms k by (auto simp: net_op_def Let_def split: option.splits)
  show thesis
    using assms k run by (intro that [OF k run]) (simp add: net_op_def Let_def new_timeouts_def)
qed

text \<open>The callbacks around after a step: those before, and the name the step used up.\<close>

lemma net_step_ids:
  assumes step: "net_step valid l s = Some t"
  shows "\<exists>N. mset (all_ids t) \<subseteq># mset (all_ids s) + N \<and>
           (N = {#} \<and> nt_next t = nt_next s \<or> N = {#nt_next s#} \<and> nt_next t = nt_next s + 1) \<and>
           (\<not> cancels l \<and> \<not> overlaps l s \<longrightarrow> mset (all_ids t) = mset (all_ids s) + N)"
proof (cases l)
  case (Op w op deadline)
  then have op: "net_op valid w op deadline s = Some t" using step by simp
  then obtain k cs r u where k: "sock_at w s = Some k"
      and run: "sock_run valid w op (nt_next s) k (nt_pump s) = Some (cs, r)"
      and t: "t = call_back cs (put_sock w r (s\<lparr>nt_next := nt_next s + 1, nt_unscheduled := u\<rparr>))"
    by (rule net_opE)
  let ?s = "s\<lparr>nt_next := nt_next s + 1, nt_unscheduled := u\<rparr>"
  have at: "sock_at w ?s = Some k" and ids: "all_ids ?s = all_ids s" using k by simp_all
  have "mset (all_ids t) \<subseteq># mset (all_ids s) + {#nt_next s#}"
    using all_ids_put_mono(1) [OF at, of cs r "{#nt_next s#}"] sock_run_conserves(1) [OF run] by (simp add: t ids)
  moreover have "mset (all_ids t) = mset (all_ids s) + {#nt_next s#}" if "\<not> overlaps l s"
    using all_ids_put_mono(2) [OF at, of cs r "{#nt_next s#}"] sock_run_conserves(2) [OF run] that k
    by (simp add: t ids Op)
  moreover have "nt_next t = nt_next s + 1" by (simp add: t call_back_def put_sock_def)
  ultimately show ?thesis by (intro exI [of _ "{#nt_next s#}"]) simp
next
  case (Accept w ans)
  then obtain k cs r where k: "sock_at w s = Some k"
      and run: "sock_accept valid w ans (nt_next s) k (nt_pump s) = Some (cs, r)"
      and t: "t = call_back cs (put_sock w r (s\<lparr>nt_next := nt_next s + 1\<rparr>))"
    using step by (auto simp: net_accept_def split: option.splits)
  let ?s = "s\<lparr>nt_next := nt_next s + 1\<rparr>"
  have at: "sock_at w ?s = Some k" and ids: "all_ids ?s = all_ids s" using k by simp_all
  have "mset (all_ids t) \<subseteq># mset (all_ids s) + {#nt_next s#}"
    using all_ids_put_mono(1) [OF at, of cs r "{#nt_next s#}"] sock_accept_conserves(1) [OF run] by (simp add: t ids)
  moreover have "mset (all_ids t) = mset (all_ids s) + {#nt_next s#}" if "\<not> overlaps l s"
    using all_ids_put_mono(2) [OF at, of cs r "{#nt_next s#}"] sock_accept_conserves(2) [OF run] that k
    by (simp add: t ids Accept)
  moreover have "nt_next t = nt_next s + 1" by (simp add: t call_back_def put_sock_def)
  ultimately show ?thesis by (intro exI [of _ "{#nt_next s#}"]) simp
next
  case (Fire i)
  let ?u = "s\<lparr>nt_timeouts := take i (nt_timeouts s) @ drop (Suc i) (nt_timeouts s)\<rparr>"
  let ?to = "snd (nt_timeouts s ! i)"
  consider "t = ?u" | k cs r where "sock_at (to_sock ?to) s = Some k"
      "sock_fire (to_kind ?to) (to_gen ?to) k (nt_pump s) = (cs, r)"
      "t = call_back cs (put_sock (to_sock ?to) r ?u)"
    using step Fire by (auto simp: net_fire_def Let_def split: if_splits option.splits prod.splits)
  then show ?thesis
  proof cases
    case 2
    have "sock_at (to_sock ?to) ?u = Some k" using 2(1) by simp
    from all_ids_put_mono(2) [OF this, of cs r "{#}"] sock_fire_conserves [OF 2(2)]
    show ?thesis by (simp add: 2(3)) (simp add: call_back_def put_sock_def)
  qed simp
next
  case (CloseSock w)
  then obtain k where at: "sock_at w s = Some k" using step by (auto simp: with_sock_def)
  obtain fds r where close: "sock_close k (nt_pump s) = (fds, r)" by (rule prod.exhaust)
  note k = at close
  have t: "t = put_sock w r (s\<lparr>nt_closed := nt_closed s @ fds\<rparr>)"
    using step CloseSock k by (simp add: with_sock_def)
  have "sock_at w (s\<lparr>nt_closed := nt_closed s @ fds\<rparr>) = Some k" using k by simp
  from all_ids_put_mono(1) [OF this, of "[]" r "{#}"] close_conserves [OF k(2)]
  show ?thesis using CloseSock by (simp add: t) (simp add: put_sock_def)
next
  case (DropSock w)
  then obtain k where k: "sock_at w s = Some k" using step by (auto simp: with_sock_def)
  obtain fds p where "sock_drop k (nt_pump s) = (fds, p)" by (rule prod.exhaust)
  then have t: "t = s\<lparr>nt_socks := (nt_socks s)[w := None], nt_pump := p, nt_closed := nt_closed s @ fds\<rparr>"
    using step DropSock k by (simp add: with_sock_def)
  have "mset (pend_all ((nt_socks s)[w := None])) + mset (pend_of k) = mset (pend_all (nt_socks s))"
    using mset_pend_all_update [of w "nt_socks s" None] k by (simp add: sock_at_Some)
  then have "mset (pend_all ((nt_socks s)[w := None])) \<subseteq># mset (pend_all (nt_socks s))"
    by (metis mset_subset_eq_add_left)
  then show ?thesis using DropSock by (simp add: t all_ids_def)
next
  case (Event fd flags acc rd so_error wr)
  then show ?thesis using step net_event_conserves by auto
next
  case (Schedule i)
  then show ?thesis using step by (auto simp: net_schedule_def Let_def split: if_splits)
next
  case (Open w ans)
  then obtain k where k: "sock_at w s = Some k" and t: "t = put_sock w (snd (sock_open ans k), nt_pump s) s"
    using step by (auto simp: with_sock_def)
  have "pend_of (snd (sock_open ans k)) = pend_of k" by (simp add: sock_open_def pend_of_def split: sum.split)
  then show ?thesis
    using all_ids_put_mono(2) [OF k, of "[]" "(snd (sock_open ans k), nt_pump s)" "{#}"]
    by (simp add: t) (simp add: put_sock_def)
next
  case (CancelAccept w)
  then show ?thesis
    using step all_ids_put_mono(1) [of w s _ "[]" _ "{#}"] cancel_conserves
    by (fastforce simp: with_sock_def put_sock_def)
next
  case (CancelRead w)
  then show ?thesis
    using step all_ids_put_mono(1) [of w s _ "[]" _ "{#}"] cancel_conserves
    by (fastforce simp: with_sock_def put_sock_def)
next
  case (CancelWrite w)
  then show ?thesis
    using step all_ids_put_mono(1) [of w s _ "[]" _ "{#}"] cancel_conserves
    by (fastforce simp: with_sock_def put_sock_def)
qed (use step in \<open>auto simp: all_ids_def pend_all_def pend_of_def sock_new_def sock_from_fd_def\<close>)

lemma distinct_mset_mono: "mset xs \<subseteq># mset ys \<Longrightarrow> distinct ys \<Longrightarrow> distinct xs"
  by (metis distinct_count_atmost_1 le_zero_eq mset_subset_eq_count not_gr_zero count_mset_0_iff
      dual_order.antisym less_one not_less subseteq_mset_def)

interpretation once: inductive_invariant "\<lambda>s. s = net_new" "net_step valid" once_inv for valid
proof
  show "once_inv s" if "s = net_new" for s
    using that by (simp add: net_new_def once_inv_def all_ids_def pend_all_def)
  show "once_inv t" if inv: "once_inv s" and step: "net_step valid l s = Some t" for s t l
  proof -
    obtain N where N: "mset (all_ids t) \<subseteq># mset (all_ids s) + N"
        "N = {#} \<and> nt_next t = nt_next s \<or> N = {#nt_next s#} \<and> nt_next t = nt_next s + 1"
      using net_step_ids [OF step] by blast
    obtain ns where ns: "N = mset ns" "ns = [] \<and> nt_next t = nt_next s \<or> ns = [nt_next s] \<and> nt_next t = nt_next s + 1"
      using N(2) by (metis mset.simps(1) mset_single_iff_right mset.simps(2))
    have d: "distinct (all_ids s @ ns)" and b: "\<forall>c \<in> set (all_ids s @ ns). c < nt_next t"
      using inv ns(2) by (auto simp: once_inv_def)
    have sub: "mset (all_ids t) \<subseteq># mset (all_ids s @ ns)" using N(1) ns(1) by simp
    have "set (all_ids t) \<subseteq> set (all_ids s @ ns)" using set_mset_mono [OF sub] by simp
    then show ?thesis using distinct_mset_mono [OF sub d] b by (auto simp: once_inv_def)
  qed
qed

end
