(* ===== verification/Socket_Deadlines.thy ===== *)
theory Socket_Deadlines
  imports Socket_Machine
begin

text \<open>
  Properties of the sockets of one IO thread: callbacks are called once and not lost, a deadline
  times out only its own operation as long as operations of one kind do not overlap, and two
  runs in which the code does less: overlapping reads, and a write that waits beside a read.
\<close>

section \<open>Generations\<close>

text \<open>A handler that starts nothing: generations stay, slots stay or are emptied.\<close>

definition quiet :: "sock \<Rightarrow> sock \<Rightarrow> bool" where
  "quiet k k' \<longleftrightarrow>
     (\<forall>K. slot_gen K k' = slot_gen K k \<and> (slot_cb K k' = slot_cb K k \<or> slot_cb K k' = None))"

definition timeout_ok :: "timeout \<Rightarrow> sock \<Rightarrow> bool" where
  "timeout_ok to k \<longleftrightarrow>
     unat (to_gen to) \<le> unat (slot_gen (to_kind to) k) \<and>
     (to_gen to = slot_gen (to_kind to) k \<longrightarrow>
        slot_cb (to_kind to) k = None \<or> slot_cb (to_kind to) k = Some (to_cb to))"

definition live_timeouts :: "net \<Rightarrow> timeout set" where
  "live_timeouts s = set (nt_unscheduled s) \<union> snd ` set (nt_timeouts s)"

definition deadline_inv :: "net \<Rightarrow> bool" where
  "deadline_inv s \<longleftrightarrow> (nt_next s < 2 ^ 64 \<longrightarrow>
     (\<forall>to \<in> live_timeouts s. to_sock to < length (nt_socks s) \<and>
        (\<forall>k. sock_at (to_sock to) s = Some k \<longrightarrow> timeout_ok to k)) \<and>
     (\<forall>w k K. sock_at w s = Some k \<longrightarrow> unat (slot_gen K k) \<le> nt_next s))"

lemma quietI:
  assumes "\<And>K. slot_gen K k' = slot_gen K k" and "\<And>K. slot_cb K k' = slot_cb K k \<or> slot_cb K k' = None"
  shows "quiet k k'"
  using assms by (simp add: quiet_def)

lemma quiet_ops:
  "quiet k (snd (sock_open ans k))" "quiet k (fst (cancel_accept k p))" "quiet k (fst (cancel_read k p))"
  "quiet k (fst (cancel_write k p))" "sock_close k p = (fds, r) \<Longrightarrow> quiet k (fst r)"
  "on_file_can_read acc rd k = (cs, k') \<Longrightarrow> quiet k k'"
  "on_file_can_write so_error wr k = (cs, k') \<Longrightarrow> quiet k k'"
  "sock_fire K g k p = (cs, r) \<Longrightarrow> quiet k (fst r)"
  "sock_accept valid w acc cb k p = Some (cs, r) \<Longrightarrow> quiet k (fst r)"
proof -
  have K: "quiet k k'" if
    "sk_connect_gen k' = sk_connect_gen k" "sk_read_gen k' = sk_read_gen k" "sk_write_gen k' = sk_write_gen k"
    "sk_pending_connect k' = sk_pending_connect k \<or> sk_pending_connect k' = None"
    "sk_pending_read k' = sk_pending_read k \<or> sk_pending_read k' = None"
    "sk_pending_write k' = sk_pending_write k \<or> sk_pending_write k' = None" for k'
  proof (rule quietI)
    show "slot_gen K k' = slot_gen K k" for K using that by (cases K) auto
    show "slot_cb K k' = slot_cb K k \<or> slot_cb K k' = None" for K using that by (cases K) auto
  qed
  show "quiet k (snd (sock_open ans k))" by (rule K) (auto simp: sock_open_def split: sum.split)
  show "quiet k (fst (cancel_accept k p))" "quiet k (fst (cancel_read k p))" "quiet k (fst (cancel_write k p))"
    by (rule K; simp add: cancel_accept_def cancel_read_def cancel_write_def)+
  show "quiet k (fst r)" if "sock_close k p = (fds, r)"
  proof -
    obtain s1 p1 where 1: "stop_read k p = (s1, p1)" by fastforce
    obtain s2 p2 where 2: "stop_write s1 p1 = (s2, p2)" by fastforce
    have "slot_gen K s2 = slot_gen K k" for K
      using arm_stop_slots(7) [of K k p] arm_stop_slots(8) [of K s1 p1] 1 2 by simp
    from this [of ConnectSlot] this [of ReadSlot] this [of WriteSlot] show ?thesis
      using that 1 2 by (intro K) (auto simp: sock_close_def)
  qed
  show "quiet k k'" if "on_file_can_read acc rd k = (cs, k')"
    using that by (intro K) (auto simp: on_file_can_read_def split: option.splits read_op.splits)
  show "quiet k k'" if "on_file_can_write so_error wr k = (cs, k')"
    using that by (intro K) (auto simp: on_file_can_write_def split: option.splits write_op.splits)
  show "quiet k (fst r)" if "sock_fire K g k p = (cs, r)"
    using that by (cases K) (auto intro!: K simp: fire_connect_timeout_def fire_read_timeout_def fire_write_timeout_def
        split: if_splits option.splits read_op.splits write_op.splits)
  show "quiet k (fst r)" if "sock_accept valid w acc cb k p = Some (cs, r)"
    using that by (intro K) (auto simp: sock_accept_def split: if_splits sum.splits io_error.splits)
qed

lemma sock_at_put: "sock_at w s = Some k \<Longrightarrow>
    sock_at v (call_back cs (put_sock w r s)) = (if v = w then Some (fst r) else sock_at v s)"
  by (auto simp: sock_at_def call_back_def put_sock_def)

lemma put_fields [simp]:
  "live_timeouts (call_back cs (put_sock w r s)) = live_timeouts s"
  "nt_next (call_back cs (put_sock w r s)) = nt_next s"
  "length (nt_socks (call_back cs (put_sock w r s))) = length (nt_socks s)"
  by (simp_all add: live_timeouts_def call_back_def put_sock_def)

lemma timeout_ok_quiet: "timeout_ok to k \<Longrightarrow> quiet k k' \<Longrightarrow> timeout_ok to k'"
  unfolding timeout_ok_def quiet_def by metis

lemma quiet_gen: "quiet k k' \<Longrightarrow> slot_gen K k' = slot_gen K k"
  by (simp add: quiet_def)

lemma deadline_inv_put:
  assumes "deadline_inv s" and "sock_at w s = Some k" and "quiet k (fst r)"
  shows "deadline_inv (call_back cs (put_sock w r s))"
  using assms(1) timeout_ok_quiet [OF _ assms(3)] assms(2) unfolding deadline_inv_def
  by (auto simp: sock_at_put [OF assms(2)] quiet_gen [OF assms(3)] split: if_splits)

lemma deadline_inv_weaken:
  assumes "deadline_inv s" and "live_timeouts t \<subseteq> live_timeouts s" and "nt_next s \<le> nt_next t"
    and "length (nt_socks s) \<le> length (nt_socks t)"
    and "\<And>w k. sock_at w t = Some k \<Longrightarrow> sock_at w s = Some k \<or>
            length (nt_socks s) \<le> w \<and> (\<forall>K. slot_gen K k = 0)"
  shows "deadline_inv t"
  unfolding deadline_inv_def
proof (intro impI conjI ballI allI)
  assume lt: "nt_next t < 2 ^ 64"
  then have lt': "nt_next s < 2 ^ 64" using assms(3) by simp
  show "to_sock to < length (nt_socks t)" if "to \<in> live_timeouts t" for to
    using assms(1,2,4) lt' that by (fastforce simp: deadline_inv_def)
  show "timeout_ok to k" if "to \<in> live_timeouts t" "sock_at (to_sock to) t = Some k" for to k
  proof -
    have "to \<in> live_timeouts s" using that(1) assms(2) by blast
    then have "to_sock to < length (nt_socks s)" "\<forall>k. sock_at (to_sock to) s = Some k \<longrightarrow> timeout_ok to k"
      using assms(1) lt' by (auto simp: deadline_inv_def)
    then show ?thesis using assms(5) [OF that(2)] by auto
  qed
  show "unat (slot_gen K k) \<le> nt_next t" if "sock_at w t = Some k" for w k K
  proof (cases "sock_at w s = Some k")
    case True
    then have "unat (slot_gen K k) \<le> nt_next s" using assms(1) lt' by (simp add: deadline_inv_def)
    then show ?thesis using assms(3) by simp
  next
    case False
    then show ?thesis using assms(5) [OF that] by simp
  qed
qed

lemma net_callback_deadline_inv: "deadline_inv s \<Longrightarrow> deadline_inv (net_callback acc rd so_error wr cb s)"
  using quiet_ops(6,7) deadline_inv_put [of s] by (cases cb) (auto split: option.splits prod.splits)

lemma net_event_deadline_inv:
  assumes "deadline_inv s"
  shows "deadline_inv (net_event fd flags acc rd so_error wr s)"
proof -
  have "deadline_inv (fold (net_callback acc rd so_error wr) cbs u)" if "deadline_inv u" for cbs u
    using that by (induction cbs arbitrary: u) (simp_all add: net_callback_deadline_inv)
  moreover have "deadline_inv (s\<lparr>nt_pump := p\<rparr>)" for p
    by (rule deadline_inv_weaken [OF assms]) (auto simp: live_timeouts_def)
  ultimately show ?thesis by (auto simp: net_event_def split: prod.splits)
qed

text \<open>An operation bumps its generation and fills its slot or leaves it empty.\<close>

lemma sock_run_slots:
  assumes "sock_run valid w op cb k p = Some (cs, r)" and "slot_cb (op_kind op) k = None"
  shows "slot_gen (op_kind op) (fst r) = slot_gen (op_kind op) k + 1"
    and "slot_cb (op_kind op) (fst r) = None \<or> slot_cb (op_kind op) (fst r) = Some cb"
    and "K \<noteq> op_kind op \<Longrightarrow> slot_gen K (fst r) = slot_gen K k \<and> slot_cb K (fst r) = slot_cb K k"
proof -
  note defs = sock_connect_def sock_read_if_ready_def sock_read_def sock_write_def Let_def
  show "slot_gen (op_kind op) (fst r) = slot_gen (op_kind op) k + 1"
    using assms by (cases op) (auto simp: defs split: if_splits sum.splits)
  show "slot_cb (op_kind op) (fst r) = None \<or> slot_cb (op_kind op) (fst r) = Some cb"
    using assms by (cases op) (auto simp: defs split: if_splits sum.splits)
  show "slot_gen K (fst r) = slot_gen K k \<and> slot_cb K (fst r) = slot_cb K k" if "K \<noteq> op_kind op"
    using assms that by (cases op; cases K) (auto simp: defs split: if_splits sum.splits)
qed

lemma net_op_deadline_inv:
  assumes inv: "deadline_inv s" and step: "net_op valid w op deadline s = Some t"
    and idle: "\<And>k. sock_at w s = Some k \<Longrightarrow> slot_cb (op_kind op) k = None"
  shows "deadline_inv t"
proof -
  obtain k cs r where k: "sock_at w s = Some k"
      and run: "sock_run valid w op (nt_next s) k (nt_pump s) = Some (cs, r)"
      and t: "t = call_back cs (put_sock w r (s\<lparr>nt_next := nt_next s + 1,
        nt_unscheduled := nt_unscheduled s @ new_timeouts w op deadline k (nt_next s)\<rparr>))"
    using step by (rule net_opE)
  let ?s = "s\<lparr>nt_next := nt_next s + 1,
        nt_unscheduled := nt_unscheduled s @ new_timeouts w op deadline k (nt_next s)\<rparr>"
  have at: "sock_at w ?s = Some k" using k by simp
  have at_t: "sock_at v t = (if v = w then Some (fst r) else sock_at v s)" for v
    using sock_at_put [OF at, of v cs r] by (simp add: t)
  note slots = sock_run_slots [OF run idle [OF k]]
  have len: "length (nt_socks t) = length (nt_socks s)" by (simp add: t)
  have next_t: "nt_next t = nt_next s + 1" by (simp add: t)
  have live: "live_timeouts t = live_timeouts s \<union> set (new_timeouts w op deadline k (nt_next s))"
    by (auto simp: t) (auto simp: live_timeouts_def)
  show ?thesis
    unfolding deadline_inv_def
  proof (intro impI conjI ballI allI)
    assume lt: "nt_next t < 2 ^ 64"
    then have lt': "nt_next s < 2 ^ 64" and d: "nt_next s + 1 < 2 ^ 64" using next_t by simp_all
    have bound: "unat (slot_gen K k) \<le> nt_next s" for K using inv lt' k by (simp add: deadline_inv_def)
    then have "unat (slot_gen (op_kind op) k) + 1 < 2 ^ 64" using d by (meson add_le_mono1 le_less_trans)
    then have inc: "unat (slot_gen (op_kind op) k + 1) = unat (slot_gen (op_kind op) k) + 1"
      by (simp add: unat_word_ariths)
    have wl: "w < length (nt_socks s)" using k by (simp add: sock_at_Some)
    show "to_sock to < length (nt_socks t)" if "to \<in> live_timeouts t" for to
      using that inv lt' wl by (auto simp: live len deadline_inv_def new_timeouts_def split: option.splits)
    show "timeout_ok to k'" if to: "to \<in> live_timeouts t" "sock_at (to_sock to) t = Some k'" for to k'
    proof (cases "to \<in> live_timeouts s")
      case True
      then have ok: "\<forall>k. sock_at (to_sock to) s = Some k \<longrightarrow> timeout_ok to k" using inv lt' by (simp add: deadline_inv_def)
      show ?thesis
      proof (cases "to_sock to = w")
        case same: True
        then have "timeout_ok to k" using ok k by simp
        moreover have "k' = fst r" using to(2) same at_t by simp
        ultimately show ?thesis
          using slots(1) slots(3) [of "to_kind to"] inc
          by (cases "to_kind to = op_kind op") (auto simp: timeout_ok_def)
      next
        case False
        then show ?thesis using ok to(2) at_t by simp
      qed
    next
      case False
      then have new: "to \<in> set (new_timeouts w op deadline k (nt_next s))" using to(1) live by blast
      then have "k' = fst r" using to(2) at_t by (auto simp: new_timeouts_def split: option.splits)
      then show ?thesis
        using new slots(1,2) by (auto simp: new_timeouts_def timeout_ok_def split: option.splits)
    qed
    show "unat (slot_gen K k') \<le> nt_next t" if "sock_at v t = Some k'" for v k' K
    proof (cases "v = w")
      case True
      then show ?thesis
        using that at_t slots(1) slots(3) [of K] bound [of K] inc next_t
        by (cases "K = op_kind op") auto
    next
      case False
      then have "unat (slot_gen K k') \<le> nt_next s" using that at_t inv lt' by (simp add: deadline_inv_def)
      then show ?thesis using next_t by simp
    qed
  qed
qed

text \<open>Runs in which no operation is started over a pending one of the same kind.\<close>

definition tidy_step :: "(raw_fd \<Rightarrow> bool) \<Rightarrow> net_label \<Rightarrow> net \<Rightarrow> net option" where
  "tidy_step valid l s = (if overlaps l s then None else net_step valid l s)"

lemma net_step_deadline_inv:
  assumes inv: "deadline_inv s" and step: "net_step valid l s = Some t" and tidy: "\<not> overlaps l s"
  shows "deadline_inv t"
proof (cases l)
  case (Op w op deadline)
  show ?thesis
  proof (rule net_op_deadline_inv [OF inv])
    show "net_op valid w op deadline s = Some t" using step Op by simp
    show "slot_cb (op_kind op) k = None" if "sock_at w s = Some k" for k using tidy Op that by simp
  qed
next
  case (Accept w ans)
  then obtain k cs r where k: "sock_at w s = Some k"
      and run: "sock_accept valid w ans (nt_next s) k (nt_pump s) = Some (cs, r)"
      and t: "t = call_back cs (put_sock w r (s\<lparr>nt_next := nt_next s + 1\<rparr>))"
    using step by (auto simp: net_accept_def split: option.splits)
  have "deadline_inv (s\<lparr>nt_next := nt_next s + 1\<rparr>)"
    by (rule deadline_inv_weaken [OF inv]) (auto simp: live_timeouts_def)
  then show ?thesis unfolding t using k quiet_ops(9) [OF run] by (intro deadline_inv_put) simp_all
next
  case (Fire i)
  let ?u = "s\<lparr>nt_timeouts := take i (nt_timeouts s) @ drop (Suc i) (nt_timeouts s)\<rparr>"
  let ?to = "snd (nt_timeouts s ! i)"
  have u: "deadline_inv ?u"
    using set_remove_nth_subset [of i "nt_timeouts s"]
    by (intro deadline_inv_weaken [OF inv]) (auto simp: live_timeouts_def)
  consider "t = ?u" | k cs r where "sock_at (to_sock ?to) s = Some k"
      "sock_fire (to_kind ?to) (to_gen ?to) k (nt_pump s) = (cs, r)"
      "t = call_back cs (put_sock (to_sock ?to) r ?u)"
    using step Fire by (auto simp: net_fire_def Let_def split: if_splits option.splits prod.splits)
  then show ?thesis
  proof cases
    case 2
    then show ?thesis using quiet_ops(8) [OF 2(2)] by (auto intro!: deadline_inv_put [OF u])
  qed (simp add: u)
next
  case (Schedule i)
  then have i: "i < length (nt_unscheduled s)"
    and t: "t = s\<lparr>nt_unscheduled := take i (nt_unscheduled s) @ drop (Suc i) (nt_unscheduled s),
        nt_timeouts := nt_timeouts s @ [(nt_now s + to_delay (nt_unscheduled s ! i), nt_unscheduled s ! i)]\<rparr>"
    using step by (auto simp: net_schedule_def Let_def split: if_splits)
  show ?thesis
    using set_remove_nth_subset [of i "nt_unscheduled s"] i
    by (intro deadline_inv_weaken [OF inv]) (auto simp: t live_timeouts_def)
next
  case (Event fd flags acc rd so_error wr)
  then show ?thesis using step net_event_deadline_inv [OF inv] by auto
next
  case (CloseSock w)
  then obtain k where k: "sock_at w s = Some k" using step by (auto simp: with_sock_def)
  obtain fds r where close: "sock_close k (nt_pump s) = (fds, r)" by (rule prod.exhaust)
  have t: "t = call_back [] (put_sock w r (s\<lparr>nt_closed := nt_closed s @ fds\<rparr>))"
    using step CloseSock k close by (simp add: with_sock_def)
  have "deadline_inv (s\<lparr>nt_closed := nt_closed s @ fds\<rparr>)"
    by (rule deadline_inv_weaken [OF inv]) (auto simp: live_timeouts_def)
  then show ?thesis unfolding t using k quiet_ops(5) [OF close] by (intro deadline_inv_put) simp_all
next
  case (DropSock w)
  then obtain k where k: "sock_at w s = Some k" using step by (auto simp: with_sock_def)
  obtain fds p where "sock_drop k (nt_pump s) = (fds, p)" by (rule prod.exhaust)
  then have t: "t = s\<lparr>nt_socks := (nt_socks s)[w := None], nt_pump := p, nt_closed := nt_closed s @ fds\<rparr>"
    using step DropSock k by (simp add: with_sock_def)
  show ?thesis
  proof (rule deadline_inv_weaken [OF inv])
    show "sock_at v s = Some k' \<or> length (nt_socks s) \<le> v \<and> (\<forall>K. slot_gen K k' = 0)"
      if "sock_at v t = Some k'" for v k'
      using that by (cases "v = w") (auto simp: t sock_at_def split: if_splits)
  qed (auto simp: t live_timeouts_def)
next
  case (Open w ans)
  then obtain k where k: "sock_at w s = Some k"
    and t: "t = call_back [] (put_sock w (snd (sock_open ans k), nt_pump s) s)"
    using step by (auto simp: with_sock_def)
  show ?thesis unfolding t using quiet_ops(1) by (intro deadline_inv_put [OF inv k]) simp
next
  case (CancelAccept w)
  then obtain k where k: "sock_at w s = Some k" and t: "t = call_back [] (put_sock w (cancel_accept k (nt_pump s)) s)"
    using step by (auto simp: with_sock_def)
  show ?thesis unfolding t by (rule deadline_inv_put [OF inv k quiet_ops(2)])
next
  case (CancelRead w)
  then obtain k where k: "sock_at w s = Some k" and t: "t = call_back [] (put_sock w (cancel_read k (nt_pump s)) s)"
    using step by (auto simp: with_sock_def)
  show ?thesis unfolding t by (rule deadline_inv_put [OF inv k quiet_ops(3)])
next
  case (CancelWrite w)
  then obtain k where k: "sock_at w s = Some k" and t: "t = call_back [] (put_sock w (cancel_write k (nt_pump s)) s)"
    using step by (auto simp: with_sock_def)
  show ?thesis unfolding t by (rule deadline_inv_put [OF inv k quiet_ops(4)])
next
  case (NetTick d)
  then show ?thesis using step by (intro deadline_inv_weaken [OF inv]) (auto simp: live_timeouts_def)
next
  case NewSocket
  have "slot_gen K sock_new = 0" for K by (cases K) (simp_all add: sock_new_def sock_from_fd_def)
  then show ?thesis
    using step NewSocket
    by (intro deadline_inv_weaken [OF inv]) (auto simp: live_timeouts_def sock_at_def nth_append less_Suc_eq split: if_splits)
next
  case (FromFd fd)
  have "slot_gen K (sock_from_fd fd) = 0" for K by (cases K) (simp_all add: sock_from_fd_def)
  then show ?thesis
    using step FromFd
    by (intro deadline_inv_weaken [OF inv]) (auto simp: live_timeouts_def sock_at_def nth_append less_Suc_eq split: if_splits)
qed

interpretation tidy: inductive_invariant "\<lambda>s. s = net_new" "tidy_step valid" deadline_inv for valid
proof
  show "deadline_inv s" if "s = net_new" for s
    using that by (simp add: net_new_def deadline_inv_def live_timeouts_def sock_at_def)
  show "deadline_inv t" if "deadline_inv s" "tidy_step valid l s = Some t" for s t l
    using that net_step_deadline_inv [of s valid l t] by (simp add: tidy_step_def split: if_splits)
qed

section \<open>Properties\<close>

lemma net_run_reach: "run (net_step valid) ls net_new = Some s \<Longrightarrow> reach (\<lambda>s. s = net_new) (net_step valid) s"
  by (rule reach_init_run) auto

lemma tidy_run_reach: "run (tidy_step valid) ls net_new = Some s \<Longrightarrow> reach (\<lambda>s. s = net_new) (tidy_step valid) s"
  by (rule reach_init_run) auto

definition any_fd :: "raw_fd \<Rightarrow> bool" where
  "any_fd fd \<longleftrightarrow> 0 \<le> fd"

text \<open>
  C15. No callback of a socket operation is called twice, whatever the interleaving of readiness
  events, deadlines, cancellations and closes; none that a socket holds was called before; and a
  step that is not a cancellation, a close, a drop or an operation started over a pending one
  loses none: each callback held before it is still held or has just been called.
\<close>

theorem socket_callbacks_at_most_once:
  assumes "reach (\<lambda>s. s = net_new) (net_step valid) s" and "net_step valid l s = Some t"
  shows "distinct (map fst (nt_calls t) @ pend_all (nt_socks t)) \<and>
         (\<not> cancels l \<and> \<not> overlaps l s \<longrightarrow>
            set (map fst (nt_calls s) @ pend_all (nt_socks s)) \<subseteq> set (map fst (nt_calls t) @ pend_all (nt_socks t)))"
proof -
  have "once_inv t" by (rule once.inv_step [OF once.reach_inv [OF assms(1)] assms(2)])
  moreover have "set (all_ids s) \<subseteq> set (all_ids t)" if "\<not> cancels l" "\<not> overlaps l s"
    using net_step_ids [OF assms(2)] that by (metis mset_subset_eq_add_left set_mset_mono set_mset_mset)
  ultimately show ?thesis by (auto simp: once_inv_def all_ids_def)
qed

definition socket_trace :: "net_label list" where
  "socket_trace =
     [FromFd 5, Op 0 (OpRead 10 (Inl EAGAIN)) (Some 100), Schedule 0, NetTick 100, Fire 0,
      Op 0 (OpRead 10 (Inl EAGAIN)) None]"

theorem socket_callbacks_at_most_once_witness:
  "\<exists>s t. run (net_step any_fd) socket_trace net_new = Some s \<and>
     net_step any_fd (Event 5 EPOLLIN (Inl 0) (Inr [1, 2]) 0 (Inl 0)) s = Some t \<and>
     nt_calls t = [(0, Bytes (Inl timed_out)), (1, Bytes (Inr [1, 2]))] \<and>
     distinct (map fst (nt_calls t) @ pend_all (nt_socks t))"
proof -
  have "case run (net_step any_fd) socket_trace net_new of None \<Rightarrow> False
    | Some s \<Rightarrow> (case net_step any_fd (Event 5 EPOLLIN (Inl 0) (Inr [1, 2]) 0 (Inl 0)) s of None \<Rightarrow> False
        | Some t \<Rightarrow> nt_calls t = [(0, Bytes (Inl timed_out)), (1, Bytes (Inr [1, 2]))])"
    by code_simp
  then obtain s t where s: "run (net_step any_fd) socket_trace net_new = Some s"
      "net_step any_fd (Event 5 EPOLLIN (Inl 0) (Inr [1, 2]) 0 (Inl 0)) s = Some t"
      "nt_calls t = [(0, Bytes (Inl timed_out)), (1, Bytes (Inr [1, 2]))]"
    by (auto split: option.splits simp del: net_step.simps)
  have "distinct (map fst (nt_calls t) @ pend_all (nt_socks t))"
    using socket_callbacks_at_most_once [OF net_run_reach [OF s(1)] s(2)] by blast
  with s show ?thesis by blast
qed

text \<open>
  C16. As long as no operation is started while one of the same kind is pending on the same
  socket (and fewer than \<open>2 ^ 64\<close> operations were started), a deadline that fires does nothing,
  or calls exactly the callback of the operation it was set for, with \<open>TimedOut\<close>, and not before
  its time: a deadline left over from a completed operation never hits a later one.
\<close>

theorem socket_deadline_hits_own_operation:
  assumes "reach (\<lambda>s. s = net_new) (tidy_step valid) s" and "nt_next s < 2 ^ 64"
    and "net_step valid (Fire i) s = Some t"
  shows "fst (nt_timeouts s ! i) \<le> nt_now s \<and>
         (nt_calls t = nt_calls s \<or>
          nt_calls t = nt_calls s @ [(to_cb (snd (nt_timeouts s ! i)), Done (Inl timed_out))] \<or>
          nt_calls t = nt_calls s @ [(to_cb (snd (nt_timeouts s ! i)), Bytes (Inl timed_out))] \<or>
          nt_calls t = nt_calls s @ [(to_cb (snd (nt_timeouts s ! i)), Count (Inl timed_out))])"
proof -
  let ?to = "snd (nt_timeouts s ! i)"
  have i: "i < length (nt_timeouts s)" "fst (nt_timeouts s ! i) \<le> nt_now s"
    using assms(3) by (auto simp: net_fire_def split: if_splits)
  have "?to \<in> live_timeouts s" using i(1) by (auto simp: live_timeouts_def)
  then have ok: "\<forall>k. sock_at (to_sock ?to) s = Some k \<longrightarrow> timeout_ok ?to k"
    using tidy.reach_inv [OF assms(1)] assms(2) by (simp add: deadline_inv_def)
  consider "nt_calls t = nt_calls s"
    | k cs r where "sock_at (to_sock ?to) s = Some k"
      "sock_fire (to_kind ?to) (to_gen ?to) k (nt_pump s) = (cs, r)" "nt_calls t = nt_calls s @ cs"
    using assms(3) by (auto simp: net_fire_def Let_def call_back_def put_sock_def split: if_splits option.splits prod.splits)
  then show ?thesis
  proof cases
    case 2
    then have "timeout_ok ?to k" using ok by simp
    then have "cs = [] \<or> cs = [(to_cb ?to, Done (Inl timed_out))] \<or> cs = [(to_cb ?to, Bytes (Inl timed_out))] \<or>
        cs = [(to_cb ?to, Count (Inl timed_out))]"
      using 2(2) by (cases "to_kind ?to")
        (auto simp: timeout_ok_def fire_connect_timeout_def fire_read_timeout_def fire_write_timeout_def
          split: if_splits option.splits read_op.splits write_op.splits)
    then show ?thesis using 2(3) i(2) by auto
  qed (use i(2) in simp)
qed

theorem socket_deadline_hits_own_operation_witness:
  "\<exists>s t. run (tidy_step any_fd) (take 4 socket_trace) net_new = Some s \<and> net_step any_fd (Fire 0) s = Some t \<and>
     to_cb (snd (nt_timeouts s ! 0)) = 0 \<and> nt_calls t = nt_calls s @ [(0, Bytes (Inl timed_out))] \<and>
     fst (nt_timeouts s ! 0) \<le> nt_now s"
proof -
  have "case run (tidy_step any_fd) (take 4 socket_trace) net_new of None \<Rightarrow> False
    | Some s \<Rightarrow> (case net_step any_fd (Fire 0) s of None \<Rightarrow> False
        | Some t \<Rightarrow> to_cb (snd (nt_timeouts s ! 0)) = 0 \<and> nt_next s = 1 \<and>
            nt_calls t = nt_calls s @ [(0, Bytes (Inl timed_out))])"
    by code_simp
  then obtain s t where s: "run (tidy_step any_fd) (take 4 socket_trace) net_new = Some s"
      "net_step any_fd (Fire 0) s = Some t" "to_cb (snd (nt_timeouts s ! 0)) = 0" "nt_next s = 1"
      "nt_calls t = nt_calls s @ [(0, Bytes (Inl timed_out))]"
    by (auto split: option.splits simp del: net_step.simps)
  have "fst (nt_timeouts s ! 0) \<le> nt_now s"
    using socket_deadline_hits_own_operation [OF tidy_run_reach [OF s(1)] _ s(2)] s(4) by simp
  with s show ?thesis by blast
qed

definition overlap_trace :: "net_label list" where
  "overlap_trace =
     [FromFd 5, Op 0 (OpRead 10 (Inl EAGAIN)) None, Op 0 (OpRead 10 (Inr [7])) (Some 100), Schedule 0,
      NetTick 100, Fire 0]"

text \<open>
  With overlapping reads the generation check is not enough: a read with a deadline that
  completes at once while an older read without one is pending leaves a deadline behind that
  times out the older read.
\<close>

theorem overlapping_read_deadline_hits_other_read:
  "\<exists>s. run (net_step any_fd) overlap_trace net_new = Some s \<and>
     nt_calls s = [(1, Bytes (Inr [7])), (0, Bytes (Inl timed_out))]"
proof -
  have "case run (net_step any_fd) overlap_trace net_new of None \<Rightarrow> False
    | Some s \<Rightarrow> nt_calls s = [(1, Bytes (Inr [7])), (0, Bytes (Inl timed_out))]"
    by code_simp
  then show ?thesis by (auto split: option.splits)
qed

definition duplex_trace :: "net_label list" where
  "duplex_trace =
     [FromFd 5, Op 0 (OpRead 10 (Inl EAGAIN)) None, Op 0 (OpWrite [1] (Inl EAGAIN)) None,
      Event 5 EPOLLOUT (Inl 0) (Inl 0) 0 (Inr 1)]"

text \<open>
  A socket cannot wait in both directions: when a write has to wait while a read is pending,
  the write's watch replaces the read's; after the write completed, the read is still pending but
  the pump has no watch for the descriptor, so no event on it, of whatever kind, calls the
  read's callback.
\<close>

theorem waiting_write_strands_pending_read:
  "\<exists>s. run (net_step any_fd) duplex_trace net_new = Some s \<and> nt_calls s = [(1, Count (Inr 1))] \<and>
     pend_all (nt_socks s) = [0] \<and> pu_watches (nt_pump s) 5 = None \<and>
     net_event 5 flags acc rd so_error wr s = s"
proof -
  have "case run (net_step any_fd) duplex_trace net_new of None \<Rightarrow> False
    | Some s \<Rightarrow> nt_calls s = [(1, Count (Inr 1))] \<and> pend_all (nt_socks s) = [0] \<and> pu_watches (nt_pump s) 5 = None"
    by code_simp
  then obtain s where s: "run (net_step any_fd) duplex_trace net_new = Some s" "nt_calls s = [(1, Count (Inr 1))]"
      "pend_all (nt_socks s) = [0]" "pu_watches (nt_pump s) 5 = None"
    by (auto split: option.splits)
  then have "net_event 5 flags acc rd so_error wr s = s" by (simp add: net_event_def dispatch_event_def)
  with s show ?thesis by (intro exI [of _ s] conjI)
qed

end
