(* ===== verification/File_Proxy_Model.thy ===== *)
theory File_Proxy_Model
  imports Thread_Pool_Model
begin

text \<open>
  \<open>rust_io/file_proxy.rs\<close>: file operations that run on a task runner and post their result back to
  the IO runner.  The kernel is an argument of the blocking helpers: a record of the system calls
  they make, as functions of a state \<open>'k\<close> of the kernel, each returning \<open>Inl errno\<close> or a value.
  The number of bytes a \<open>pread\<close> returned is the length of the bytes it filled in.
\<close>

section \<open>System calls\<close>

text \<open>What \<open>open\<close> is asked for: the flags each helper passes (\<open>O_CLOEXEC\<close> is in all of them).\<close>

datatype open_mode = RdOnly | WrOnlyCreat | WrOnlyCreatAppend

record 'k kernel =
  k_open :: "byte list \<Rightarrow> open_mode \<Rightarrow> 'k \<Rightarrow> (int + raw_fd) \<times> 'k"
  k_pread :: "raw_fd \<Rightarrow> nat \<Rightarrow> int \<Rightarrow> 'k \<Rightarrow> (int + byte list) \<times> 'k"
  k_pwrite :: "raw_fd \<Rightarrow> byte list \<Rightarrow> int \<Rightarrow> 'k \<Rightarrow> (int + nat) \<times> 'k"
  k_write :: "raw_fd \<Rightarrow> byte list \<Rightarrow> 'k \<Rightarrow> (int + nat) \<times> 'k"
  k_close :: "raw_fd \<Rightarrow> 'k \<Rightarrow> int option \<times> 'k"
  k_read_file :: "byte list \<Rightarrow> 'k \<Rightarrow> byte list io_result \<times> 'k"
  k_write_file :: "byte list \<Rightarrow> byte list \<Rightarrow> 'k \<Rightarrow> unit io_result \<times> 'k"

section \<open>Blocking helpers\<close>

text \<open>
  \<open>libc::close\<close>, then the result of the call before it: a negative one becomes \<open>last_os_error()\<close>,
  which is read after the close and is the errno of a failed close when there was one.
\<close>

definition close_then :: "'k kernel \<Rightarrow> raw_fd \<Rightarrow> (int + 'a) \<Rightarrow> 'k \<Rightarrow> 'a io_result \<times> 'k" where
  "close_then K fd ans k =
     (case k_close K fd k of
        (close_errno, k') \<Rightarrow>
          (case ans of
             Inl e \<Rightarrow> Inl (Os (case close_errno of None \<Rightarrow> e | Some e' \<Rightarrow> e'))
           | Inr a \<Rightarrow> Inr a, k'))"

text \<open>\<open>CString::new\<close> refuses a path with a NUL byte and appends one.\<close>

definition to_cpath :: "byte list \<Rightarrow> byte list io_result" where
  "to_cpath path =
     (if 0 \<in> set path then Inl (Custom InvalidInput ''path contains null byte'') else Inr (path @ [0]))"

text \<open>\<open>offset as libc::off_t\<close>: the 64 bits read as a signed number.\<close>

definition as_off_t :: "u64 \<Rightarrow> int" where
  "as_off_t offset = sint offset"

text \<open>The shape the three helpers share: open the path, use the descriptor once, close it.\<close>

definition open_use_close ::
    "'k kernel \<Rightarrow> byte list \<Rightarrow> open_mode \<Rightarrow> (raw_fd \<Rightarrow> 'k \<Rightarrow> (int + 'a) \<times> 'k) \<Rightarrow> 'k \<Rightarrow> 'a io_result \<times> 'k" where
  "open_use_close K path mode use k =
     (case to_cpath path of
        Inl e \<Rightarrow> (Inl e, k)
      | Inr cpath \<Rightarrow>
          (case k_open K cpath mode k of
             (Inl e, k1) \<Rightarrow> (Inl (Os e), k1)
           | (Inr fd, k1) \<Rightarrow> (case use fd k1 of (ans, k2) \<Rightarrow> close_then K fd ans k2)))"

text \<open>\<open>buf.truncate(n)\<close> keeps the bytes the kernel filled in.\<close>

definition blocking_pread :: "'k kernel \<Rightarrow> byte list \<Rightarrow> u64 \<Rightarrow> nat \<Rightarrow> 'k \<Rightarrow> byte list io_result \<times> 'k" where
  "blocking_pread K path offset len k =
     open_use_close K path RdOnly
       (\<lambda>fd k1. case k_pread K fd len (as_off_t offset) k1 of (ans, k2) \<Rightarrow> (map_sum id (take len) ans, k2)) k"

definition blocking_pwrite :: "'k kernel \<Rightarrow> byte list \<Rightarrow> u64 \<Rightarrow> byte list \<Rightarrow> 'k \<Rightarrow> nat io_result \<times> 'k" where
  "blocking_pwrite K path offset data k =
     open_use_close K path WrOnlyCreat (\<lambda>fd k1. k_pwrite K fd data (as_off_t offset) k1) k"

definition blocking_append :: "'k kernel \<Rightarrow> byte list \<Rightarrow> byte list \<Rightarrow> 'k \<Rightarrow> nat io_result \<times> 'k" where
  "blocking_append K path data k = open_use_close K path WrOnlyCreatAppend (\<lambda>fd k1. k_write K fd data k1) k"

section \<open>\<open>FileProxy\<close>\<close>

record file_proxy =
  fp_path :: "byte list"
  fp_runner :: nat

definition file_proxy_traits :: task_traits where
  "file_proxy_traits = default_traits\<lparr>tt_may_block := True\<rparr>"

text \<open>\<open>FileProxy::new\<close>: a sequenced runner of the pool, named by its sequence.\<close>

definition file_proxy_new :: "byte list \<Rightarrow> 'u pool \<Rightarrow> file_proxy \<times> 'u pool" where
  "file_proxy_new path s =
     (\<lparr>fp_path = path, fp_runner = length (pl_seqs s)\<rparr>, create_sequenced_task_runner file_proxy_traits s)"

definition file_proxy_with_runner :: "byte list \<Rightarrow> nat \<Rightarrow> file_proxy" where
  "file_proxy_with_runner path runner = \<lparr>fp_path = path, fp_runner = runner\<rparr>"

datatype file_request =
    FpRead u64 nat
  | FpReadAll
  | FpWrite u64 "byte list"
  | FpWriteAll "byte list"
  | FpAppend "byte list"

datatype file_outcome =
    FileBytes "byte list io_result"
  | FileCount "nat io_result"
  | FileDone "unit io_result"

text \<open>
  The task a request posts to the runner: the path cloned at the call, what to do, the callback,
  and the IO runner that was current at the call, to which the result goes.
\<close>

record file_task =
  ft_path :: "byte list"
  ft_request :: file_request
  ft_callback :: nat
  ft_io :: nat

text \<open>\<open>None\<close> is the panic when the calling thread is no IO thread.\<close>

definition file_request_task :: "file_proxy \<Rightarrow> file_request \<Rightarrow> nat \<Rightarrow> nat option \<Rightarrow> (nat \<times> file_task) option" where
  "file_request_task fp req cb current_io =
     (case current_io of
        None \<Rightarrow> None
      | Some io \<Rightarrow>
          Some (fp_runner fp, \<lparr>ft_path = fp_path fp, ft_request = req, ft_callback = cb, ft_io = io\<rparr>))"

text \<open>Running it: the kernel work, then the post of the callback with its argument to the IO runner.\<close>

definition run_file_task ::
    "'k kernel \<Rightarrow> file_task \<Rightarrow> 'k \<Rightarrow> (nat \<times> nat \<times> file_outcome) \<times> 'k" where
  "run_file_task K t k =
     (case ft_request t of
        FpRead offset len \<Rightarrow>
          (case blocking_pread K (ft_path t) offset len k of (r, k') \<Rightarrow> ((ft_io t, ft_callback t, FileBytes r), k'))
      | FpReadAll \<Rightarrow>
          (case k_read_file K (ft_path t) k of (r, k') \<Rightarrow> ((ft_io t, ft_callback t, FileBytes r), k'))
      | FpWrite offset data \<Rightarrow>
          (case blocking_pwrite K (ft_path t) offset data k of (r, k') \<Rightarrow> ((ft_io t, ft_callback t, FileCount r), k'))
      | FpWriteAll data \<Rightarrow>
          (case k_write_file K (ft_path t) data k of (r, k') \<Rightarrow> ((ft_io t, ft_callback t, FileDone r), k'))
      | FpAppend data \<Rightarrow>
          (case blocking_append K (ft_path t) data k of (r, k') \<Rightarrow> ((ft_io t, ft_callback t, FileCount r), k')))"

section \<open>What the helpers rely on\<close>

text \<open>
  The documented behaviour of the system calls, for a file system seen as a map from paths to
  contents (\<open>content\<close>) and a table of open descriptors (\<open>fds\<close>): a descriptor that \<open>open\<close> returned is
  open until it is closed; \<open>pread\<close> returns bytes that are there, at most \<open>len\<close> of them; \<open>pwrite\<close>
  replaces a range, padding a gap with zero bytes; an \<open>O_APPEND\<close> write adds at the end; a write
  may be short; a failed call changes nothing.
\<close>

definition overwrite :: "byte list \<Rightarrow> nat \<Rightarrow> byte list \<Rightarrow> byte list" where
  "overwrite old offset data =
     take offset old @ replicate (offset - length old) 0 @ data @ drop (offset + length data) old"

type_synonym files = "byte list \<rightharpoonup> byte list"
type_synonym fd_table = "raw_fd \<rightharpoonup> byte list \<times> open_mode"

definition open_ok :: "'k kernel \<Rightarrow> ('k \<Rightarrow> files) \<Rightarrow> ('k \<Rightarrow> fd_table) \<Rightarrow> bool" where
  "open_ok K content fds \<longleftrightarrow>
     (\<forall>path mode k fd k'. k_open K path mode k = (Inr fd, k') \<longrightarrow>
        fds k fd = None \<and> fds k' = (fds k)(fd \<mapsto> (path, mode)) \<and> content k' path \<noteq> None \<and>
        content k' = (if mode = RdOnly \<or> content k path \<noteq> None then content k else (content k)(path \<mapsto> []))) \<and>
     (\<forall>path mode k e k'. k_open K path mode k = (Inl e, k') \<longrightarrow> fds k' = fds k \<and> content k' = content k)"

definition close_ok :: "'k kernel \<Rightarrow> ('k \<Rightarrow> files) \<Rightarrow> ('k \<Rightarrow> fd_table) \<Rightarrow> bool" where
  "close_ok K content fds \<longleftrightarrow>
     (\<forall>fd k e k'. k_close K fd k = (e, k') \<longrightarrow> fds k' = (fds k)(fd := None) \<and> content k' = content k)"

definition pread_ok :: "'k kernel \<Rightarrow> ('k \<Rightarrow> files) \<Rightarrow> ('k \<Rightarrow> fd_table) \<Rightarrow> bool" where
  "pread_ok K content fds \<longleftrightarrow>
     (\<forall>fd len offset k ans k'. k_pread K fd len offset k = (ans, k') \<longrightarrow>
        fds k' = fds k \<and> content k' = content k \<and>
        (\<forall>path old buf. fds k fd = Some (path, RdOnly) \<and> content k path = Some old \<and> ans = Inr buf \<longrightarrow>
           0 \<le> offset \<and> (\<exists>n \<le> len. buf = take n (drop (nat offset) old))))"

definition write_ok :: "'k kernel \<Rightarrow> ('k \<Rightarrow> files) \<Rightarrow> ('k \<Rightarrow> fd_table) \<Rightarrow> bool" where
  "write_ok K content fds \<longleftrightarrow>
     (\<forall>fd data offset k ans k'. k_pwrite K fd data offset k = (ans, k') \<longrightarrow>
        fds k' = fds k \<and>
        (case ans of
           Inl _ \<Rightarrow> content k' = content k
         | Inr n \<Rightarrow> (\<forall>path old. fds k fd = Some (path, WrOnlyCreat) \<and> content k path = Some old \<longrightarrow>
             n \<le> length data \<and> 0 \<le> offset \<and>
             content k' = (content k)(path \<mapsto> overwrite old (nat offset) (take n data))))) \<and>
     (\<forall>fd data k ans k'. k_write K fd data k = (ans, k') \<longrightarrow>
        fds k' = fds k \<and>
        (case ans of
           Inl _ \<Rightarrow> content k' = content k
         | Inr n \<Rightarrow> (\<forall>path old. fds k fd = Some (path, WrOnlyCreatAppend) \<and> content k path = Some old \<longrightarrow>
             n \<le> length data \<and> content k' = (content k)(path \<mapsto> old @ take n data))))"

definition kernel_ok :: "'k kernel \<Rightarrow> ('k \<Rightarrow> files) \<Rightarrow> ('k \<Rightarrow> fd_table) \<Rightarrow> bool" where
  "kernel_ok K content fds \<longleftrightarrow>
     open_ok K content fds \<and> close_ok K content fds \<and> pread_ok K content fds \<and> write_ok K content fds"

text \<open>
  \<open>pread\<close> of a regular file returns fewer bytes than it was asked for only at the end of the file;
  \<open>pread_ok\<close> alone also allows the short answers of other files.
\<close>

definition full_reads :: "'k kernel \<Rightarrow> ('k \<Rightarrow> files) \<Rightarrow> ('k \<Rightarrow> fd_table) \<Rightarrow> bool" where
  "full_reads K content fds \<longleftrightarrow>
     (\<forall>fd len offset k buf k' path old. k_pread K fd len offset k = (Inr buf, k') \<and>
        fds k fd = Some (path, RdOnly) \<and> content k path = Some old \<longrightarrow> buf = take len (drop (nat offset) old))"

section \<open>Properties\<close>

lemma to_cpath_Inr: "to_cpath path = Inr c \<longleftrightarrow> 0 \<notin> set path \<and> c = path @ [0]"
  by (auto simp: to_cpath_def)

lemma close_then_state:
  assumes "kernel_ok K content fds" and "close_then K fd ans k = (r, k')"
  shows "fds k' = (fds k)(fd := None)" and "content k' = content k"
    and "(\<exists>e. r = Inl e) \<longleftrightarrow> (\<exists>e. ans = Inl e)" and "ans = Inr a \<Longrightarrow> r = Inr a"
  using assms by (auto simp: kernel_ok_def close_ok_def close_then_def split: prod.splits sum.splits)

lemma open_use_closeE:
  assumes "open_use_close K path mode use k = (r, k')"
  obtains (early) e where "r = Inl e" "k' = k \<or> (\<exists>c e'. k_open K c mode k = (Inl e', k'))"
  | (opened) fd k1 ans k2 where "k_open K (path @ [0]) mode k = (Inr fd, k1)" "use fd k1 = (ans, k2)"
      "close_then K fd ans k2 = (r, k')"
proof (cases "to_cpath path")
  case (Inl e)
  then have "r = Inl e" "k' = k" using assms by (auto simp: open_use_close_def)
  then show thesis by (intro early) auto
next
  case (Inr c)
  obtain a k1 where o: "k_open K c mode k = (a, k1)" by (rule prod.exhaust)
  show thesis
  proof (cases a)
    case (Inl e)
    then have "r = Inl (Os e)" "k_open K c mode k = (Inl e, k')"
      using assms Inr o by (auto simp: open_use_close_def)
    then show thesis by (intro early) auto
  next
    case (Inr fd)
    obtain ans k2 where p: "use fd k1 = (ans, k2)" by (rule prod.exhaust)
    show thesis
      using assms \<open>to_cpath path = Inr c\<close> o Inr p
      by (intro opened [OF _ p]) (auto simp: open_use_close_def to_cpath_Inr)
  qed
qed

lemma open_use_close_fds:
  assumes ok: "kernel_ok K content fds" and "open_use_close K path mode use k = (r, k')"
    and frame: "\<And>fd k1 ans k2. use fd k1 = (ans, k2) \<Longrightarrow> fds k2 = fds k1"
  shows "fds k' = fds k"
  using assms(2)
proof (cases rule: open_use_closeE)
  case early
  then show ?thesis using ok by (auto simp: kernel_ok_def open_ok_def)
next
  case (opened fd k1 ans k2)
  have "fds k fd = None" "fds k1 = (fds k)(fd \<mapsto> (path @ [0], mode))"
    using ok opened(1) by (auto simp: kernel_ok_def open_ok_def)
  then show ?thesis
    using close_then_state(1) [OF ok opened(3)] frame [OF opened(2)] by (simp add: fun_upd_idem)
qed

lemma take_overwrite: "take n (drop m (overwrite old m data)) = take n (data @ drop (m + length data) old)"
  by (cases "m \<le> length old") (simp_all add: overwrite_def)

lemma as_off_t_nonneg: "0 \<le> as_off_t offset \<Longrightarrow> nat (as_off_t offset) = unat offset"
  using sint_lt [of offset]
  by (simp add: as_off_t_def uint_sint take_bit_int_eq_self flip: nat_uint_eq)

lemma pwrite_content:
  assumes ok: "kernel_ok K content fds" and "blocking_pwrite K path offset data k = (Inr n, k')"
  shows "n \<le> length data \<and> 0 \<le> as_off_t offset \<and>
         (\<exists>old. (content k (path @ [0]) = Some old \<or> content k (path @ [0]) = None \<and> old = []) \<and>
            content k' = (content k)(path @ [0] \<mapsto> overwrite old (nat (as_off_t offset)) (take n data)))"
  using assms(2) unfolding blocking_pwrite_def
proof (cases rule: open_use_closeE)
  case (opened fd k1 ans k2)
  obtain old where old: "content k1 (path @ [0]) = Some old"
    and o: "fds k1 fd = Some (path @ [0], WrOnlyCreat)"
      "content k1 = (if content k (path @ [0]) \<noteq> None then content k else (content k)(path @ [0] \<mapsto> []))"
    using ok opened(1) by (fastforce simp: kernel_ok_def open_ok_def)
  have "ans = Inr n" using close_then_state(3,4) [OF ok opened(3)] by (cases ans) auto
  then have "n \<le> length data \<and> 0 \<le> as_off_t offset \<and>
      content k2 = (content k1)(path @ [0] \<mapsto> overwrite old (nat (as_off_t offset)) (take n data))"
    using ok opened(2) o(1) old unfolding kernel_ok_def write_ok_def by fastforce
  then show ?thesis
    using close_then_state(2) [OF ok opened(3)] o(2) old by (cases "content k (path @ [0])") auto
qed simp

text \<open>The bytes at a path, where a file that does not exist yet counts as empty.\<close>

definition bytes_at :: "files \<Rightarrow> byte list \<Rightarrow> byte list" where
  "bytes_at files path = (case files path of None \<Rightarrow> [] | Some old \<Rightarrow> old)"

lemma pread_content:
  assumes ok: "kernel_ok K content fds" "full_reads K content fds"
    and "blocking_pread K path offset len k = (Inr buf, k')" and old: "content k (path @ [0]) = Some old"
  shows "buf = take len (drop (nat (as_off_t offset)) old)"
  using assms(3) unfolding blocking_pread_def
proof (cases rule: open_use_closeE)
  case (opened fd k1 ans k2)
  obtain ans' where p: "k_pread K fd len (as_off_t offset) k1 = (ans', k2)" and ans: "ans = map_sum id (take len) ans'"
    using opened(2) by (auto split: prod.splits)
  have o: "fds k1 fd = Some (path @ [0], RdOnly)" "content k1 = content k"
    using ok opened(1) by (auto simp: kernel_ok_def open_ok_def)
  have "ans = Inr buf" using close_then_state(3,4) [OF ok(1) opened(3)] by (cases ans) auto
  then obtain buf' where b: "ans' = Inr buf'" "buf = take len buf'" using ans by (cases ans') auto
  moreover have "buf' = take len (drop (nat (as_off_t offset)) old)"
    using ok(2) p b(1) o old unfolding full_reads_def by (metis (no_types, lifting))
  ultimately show ?thesis by simp
qed simp

lemma blocking_fds:
  assumes "kernel_ok K content fds"
  shows "blocking_pread K path offset len k = (r, k') \<Longrightarrow> fds k' = fds k"
    and "blocking_pwrite K path offset data k = (r', k') \<Longrightarrow> fds k' = fds k"
    and "blocking_append K path data k = (r', k') \<Longrightarrow> fds k' = fds k"
  unfolding blocking_pread_def blocking_pwrite_def blocking_append_def
  using assms
  by (auto simp: kernel_ok_def write_ok_def pread_ok_def split: prod.splits
      elim!: open_use_close_fds [OF assms])

text \<open>
  C39. Write and read back through one \<open>FileProxy\<close>, on a kernel that behaves as documented: the two
  requests go to the runner of the proxy; when their tasks have run there, one after the other, each
  has posted its callback to the IO runner that was current at its call, no descriptor is left open,
  on success and on every error path; and if the write reported \<open>n\<close> bytes and the read succeeded, the
  read returns exactly the first \<open>n\<close> written bytes followed by what the file had behind them, cut at
  the \<open>len\<close> bytes it asked for.
\<close>

theorem file_write_read_round_trip:
  assumes "kernel_ok K content fds" "full_reads K content fds"
    and "file_request_task fp (FpWrite offset data) cb (Some io) = Some (runner, t)"
    and "file_request_task fp (FpRead offset len) cb' (Some io') = Some (runner', t')"
    and "run_file_task K t k = (w, k1)" and "run_file_task K t' k1 = (r, k2)"
  shows "runner = fp_runner fp \<and> runner' = fp_runner fp \<and> fds k1 = fds k \<and> fds k2 = fds k \<and>
    (\<exists>wres rres. w = (io, cb, FileCount wres) \<and> r = (io', cb', FileBytes rres) \<and>
       (\<forall>n buf. wres = Inr n \<and> rres = Inr buf \<longrightarrow> n \<le> length data \<and>
          buf = take len (take n data @ drop (unat offset + n) (bytes_at (content k) (fp_path fp @ [0])))))"
proof -
  obtain wres where w: "blocking_pwrite K (fp_path fp) offset data k = (wres, k1)" "w = (io, cb, FileCount wres)"
    using assms(3,5) by (auto simp: file_request_task_def run_file_task_def split: prod.splits)
  obtain rres where r: "blocking_pread K (fp_path fp) offset len k1 = (rres, k2)" "r = (io', cb', FileBytes rres)"
    using assms(4,6) by (auto simp: file_request_task_def run_file_task_def split: prod.splits)
  have "n \<le> length data \<and> buf = take len (take n data @ drop (unat offset + n) (bytes_at (content k) (fp_path fp @ [0])))"
    if a: "wres = Inr n" "rres = Inr buf" for n buf
  proof -
    obtain old where n: "n \<le> length data" "0 \<le> as_off_t offset" "old = bytes_at (content k) (fp_path fp @ [0])"
      and c: "content k1 (fp_path fp @ [0]) = Some (overwrite old (nat (as_off_t offset)) (take n data))"
      using pwrite_content [OF assms(1), of "fp_path fp" offset data k n k1] w(1) a(1) by (auto simp: bytes_at_def)
    have "nat (as_off_t offset) = unat offset" by (rule as_off_t_nonneg [OF n(2)])
    moreover have "buf = take len (drop (nat (as_off_t offset)) (overwrite old (nat (as_off_t offset)) (take n data)))"
      by (rule pread_content [OF assms(1,2) _ c]) (use r(1) a(2) in simp)
    ultimately show ?thesis using n(1,3) by (simp add: take_overwrite)
  qed
  moreover have "fds k1 = fds k" "fds k2 = fds k1"
    using blocking_fds(1) [OF assms(1) r(1)] blocking_fds(2) [OF assms(1) w(1)] by simp_all
  moreover have "runner = fp_runner fp" "runner' = fp_runner fp"
    using assms(3,4) by (simp_all add: file_request_task_def)
  ultimately show ?thesis
    by (intro conjI exI [of _ wres] exI [of _ rres] allI impI w(2) r(2)) (auto simp del: take_append)
qed

text \<open>A file system in memory, as an instance of the kernel.\<close>

type_synonym mem_fs = "files \<times> fd_table \<times> nat"

definition mem_open :: "byte list \<Rightarrow> open_mode \<Rightarrow> mem_fs \<Rightarrow> (int + raw_fd) \<times> mem_fs" where
  "mem_open path mode fs =
     (case fs of (files, tab, nxt) \<Rightarrow>
        if tab (int nxt) \<noteq> None then (Inl 24, fs)
        else if mode = RdOnly \<and> files path = None then (Inl 2, fs)
        else (Inr (int nxt),
              (if files path = None then files(path \<mapsto> []) else files, tab(int nxt \<mapsto> (path, mode)), nxt + 1)))"

definition mem_pread :: "raw_fd \<Rightarrow> nat \<Rightarrow> int \<Rightarrow> mem_fs \<Rightarrow> (int + byte list) \<times> mem_fs" where
  "mem_pread fd len offset fs =
     (case fs of (files, tab, nxt) \<Rightarrow>
        (case tab fd of
           None \<Rightarrow> (Inl 9, fs)
         | Some (path, mode) \<Rightarrow>
             (case files path of
                None \<Rightarrow> (Inl 5, fs)
              | Some old \<Rightarrow> (if offset < 0 then Inl 22 else Inr (take len (drop (nat offset) old)), fs))))"

definition mem_pwrite :: "raw_fd \<Rightarrow> byte list \<Rightarrow> int \<Rightarrow> mem_fs \<Rightarrow> (int + nat) \<times> mem_fs" where
  "mem_pwrite fd data offset fs =
     (case fs of (files, tab, nxt) \<Rightarrow>
        (case tab fd of
           None \<Rightarrow> (Inl 9, fs)
         | Some (path, mode) \<Rightarrow>
             (case files path of
                None \<Rightarrow> (Inl 5, fs)
              | Some old \<Rightarrow>
                  if offset < 0 then (Inl 22, fs)
                  else (Inr (length data), files(path \<mapsto> overwrite old (nat offset) data), tab, nxt))))"

definition mem_write :: "raw_fd \<Rightarrow> byte list \<Rightarrow> mem_fs \<Rightarrow> (int + nat) \<times> mem_fs" where
  "mem_write fd data fs =
     (case fs of (files, tab, nxt) \<Rightarrow>
        (case tab fd of
           None \<Rightarrow> (Inl 9, fs)
         | Some (path, mode) \<Rightarrow>
             (case files path of
                None \<Rightarrow> (Inl 5, fs)
              | Some old \<Rightarrow> (Inr (length data), files(path \<mapsto> old @ data), tab, nxt))))"

definition mem_close :: "raw_fd \<Rightarrow> mem_fs \<Rightarrow> int option \<times> mem_fs" where
  "mem_close fd fs = (case fs of (files, tab, nxt) \<Rightarrow> (None, files, tab(fd := None), nxt))"

definition mem_kernel :: "mem_fs kernel" where
  "mem_kernel =
     \<lparr>k_open = mem_open, k_pread = mem_pread, k_pwrite = mem_pwrite, k_write = mem_write, k_close = mem_close,
      k_read_file = (\<lambda>path fs. (case fst fs path of None \<Rightarrow> Inl (Os 2) | Some d \<Rightarrow> Inr d, fs)),
      k_write_file = (\<lambda>path data fs. (Inr (), (fst fs)(path \<mapsto> data), snd fs))\<rparr>"

lemma mem_kernel_ok: "kernel_ok mem_kernel fst (fst \<circ> snd)"
proof -
  have "open_ok mem_kernel fst (fst \<circ> snd)"
    by (auto simp: open_ok_def mem_kernel_def mem_open_def simp del: not_None_eq split: prod.splits if_splits)
  moreover have "close_ok mem_kernel fst (fst \<circ> snd)"
    by (auto simp: close_ok_def mem_kernel_def mem_close_def split: prod.splits)
  moreover have "pread_ok mem_kernel fst (fst \<circ> snd)"
    by (auto simp: pread_ok_def mem_kernel_def mem_pread_def split: prod.splits if_splits option.splits)
  moreover have "write_ok mem_kernel fst (fst \<circ> snd)"
    by (auto simp: write_ok_def mem_kernel_def mem_pwrite_def mem_write_def split: prod.splits if_splits option.splits)
  ultimately show ?thesis by (simp add: kernel_ok_def)
qed

lemma mem_full_reads: "full_reads mem_kernel fst (fst \<circ> snd)"
  by (auto simp: full_reads_def mem_kernel_def mem_pread_def split: prod.splits if_splits option.splits)

lemmas mem_kernel_eval = run_file_task_def file_request_task_def blocking_pwrite_def blocking_pread_def
  open_use_close_def to_cpath_def mem_kernel_def mem_open_def mem_pwrite_def mem_pread_def as_off_t_def
  close_then_def mem_close_def overwrite_def

definition demo_proxy :: file_proxy where
  "demo_proxy = file_proxy_with_runner [47] 0"

definition demo_file_task :: "file_request \<Rightarrow> nat \<Rightarrow> file_task" where
  "demo_file_task req cb = \<lparr>ft_path = [47], ft_request = req, ft_callback = cb, ft_io = 1\<rparr>"

text \<open>Three bytes are written at offset 3 of a new file, and four are asked for at offset 3.\<close>

theorem file_write_read_round_trip_witness:
  "\<exists>k1 k2. run_file_task mem_kernel (demo_file_task (FpWrite 3 [1, 2, 3]) 8) (Map.empty, Map.empty, 0) =
       ((1, 8, FileCount (Inr 3)), k1) \<and>
     run_file_task mem_kernel (demo_file_task (FpRead 3 4) 9) k1 = ((1, 9, FileBytes (Inr [1, 2, 3])), k2) \<and>
     fst (snd k2) = Map.empty"
proof -
  let ?k = "(Map.empty, Map.empty, 0) :: mem_fs"
  obtain k1 where w: "run_file_task mem_kernel (demo_file_task (FpWrite 3 [1, 2, 3]) 8) ?k = ((1, 8, FileCount (Inr 3)), k1)"
    and k1: "k1 = ([[47, 0] \<mapsto> [0, 0, 0, 1, 2, 3]], Map.empty, 1)"
    by (simp add: demo_file_task_def mem_kernel_eval numeral_3_eq_3)
  obtain r k2 where r: "run_file_task mem_kernel (demo_file_task (FpRead 3 4) 9) k1 = (r, k2)" by (rule prod.exhaust)
  obtain buf where buf: "r = (1, 9, FileBytes (Inr buf))"
    using r by (auto simp: k1 demo_file_task_def mem_kernel_eval)
  have t: "file_request_task demo_proxy (FpWrite 3 [1, 2, 3]) 8 (Some 1) = Some (0, demo_file_task (FpWrite 3 [1, 2, 3]) 8)"
    "file_request_task demo_proxy (FpRead 3 4) 9 (Some 1) = Some (0, demo_file_task (FpRead 3 4) 9)"
    by (simp_all add: demo_proxy_def file_proxy_with_runner_def file_request_task_def demo_file_task_def)
  have "buf = [1, 2, 3] \<and> fst (snd k2) = Map.empty"
    using file_write_read_round_trip [OF mem_kernel_ok mem_full_reads t w r] buf
    by (simp add: bytes_at_def)
  then show ?thesis using w r buf by blast
qed

end
