(* ===== verification/Tcp_Sockets_Model.thy ===== *)
theory Tcp_Sockets_Model
  imports Socket_Machine
begin

text \<open>
  \<open>rust_net/tcp_socket.rs\<close>, \<open>tcp_client_socket.rs\<close> and \<open>tcp_server_socket.rs\<close>: the TCP layer over
  \<open>SocketPosix\<close>.  A \<open>TcpSocket\<close>, a \<open>TcpClientSocket\<close> and a \<open>TcpServerSocket\<close> each wrap one socket of
  the machine; most methods delegate to the operations of \<open>Socket_Posix_Model\<close> and, for those with a
  deadline, of \<open>Socket_Machine\<close>.  \<open>setsockopt\<close> is a function of the kernel.
\<close>

section \<open>Options\<close>

definition SOL_SOCKET :: int where "SOL_SOCKET = 1"
definition SO_REUSEADDR :: int where "SO_REUSEADDR = 2"
definition IPPROTO_TCP :: int where "IPPROTO_TCP = 6"
definition TCP_NODELAY :: int where "TCP_NODELAY = 1"

type_synonym setsockopt = "raw_fd \<Rightarrow> int \<Rightarrow> int \<Rightarrow> int \<Rightarrow> int + unit"

definition setsockopt_bool :: "setsockopt \<Rightarrow> raw_fd \<Rightarrow> int \<Rightarrow> int \<Rightarrow> bool \<Rightarrow> unit io_result" where
  "setsockopt_bool sys fd level name on = os_result (sys fd level name (if on then 1 else 0))"

definition set_reuse_addr :: "setsockopt \<Rightarrow> bool \<Rightarrow> sock \<Rightarrow> unit io_result" where
  "set_reuse_addr sys on s = setsockopt_bool sys (sk_fd s) SOL_SOCKET SO_REUSEADDR on"

definition set_no_delay :: "setsockopt \<Rightarrow> bool \<Rightarrow> sock \<Rightarrow> unit io_result" where
  "set_no_delay sys on s = setsockopt_bool sys (sk_fd s) IPPROTO_TCP TCP_NODELAY on"

definition set_default_options_for_server :: "setsockopt \<Rightarrow> sock \<Rightarrow> unit io_result" where
  "set_default_options_for_server sys s = set_reuse_addr sys True s"

definition set_default_options_for_client :: "setsockopt \<Rightarrow> sock \<Rightarrow> unit io_result" where
  "set_default_options_for_client sys s = set_no_delay sys True s"

section \<open>Delegated operations of \<open>TcpSocket\<close>\<close>

definition tcp_new :: "sock" where
  "tcp_new = sock_new"

definition tcp_from_connected_fd :: "raw_fd \<Rightarrow> sock" where
  "tcp_from_connected_fd fd = sock_from_fd fd"

definition tcp_open :: "(int + raw_fd) \<Rightarrow> sock \<Rightarrow> unit io_result \<times> sock" where
  "tcp_open ans s = sock_open ans s"

definition tcp_local_addr :: "(int + sockaddr) \<Rightarrow> socket_addr io_result" where
  "tcp_local_addr ans = sock_local_addr ans"

definition tcp_bind :: "(sockaddr \<Rightarrow> int + unit) \<Rightarrow> socket_addr \<Rightarrow> sock \<Rightarrow> unit io_result option" where
  "tcp_bind sys addr s = sock_bind sys addr s"

definition tcp_listen :: "(int + unit) \<Rightarrow> sock \<Rightarrow> unit io_result option" where
  "tcp_listen ans s = sock_listen ans s"

definition tcp_connect :: "(raw_fd \<Rightarrow> bool) \<Rightarrow> nat \<Rightarrow> (sockaddr \<Rightarrow> int + unit) \<Rightarrow> socket_addr \<Rightarrow> nat \<Rightarrow> sock \<Rightarrow> pump \<Rightarrow>
     (call list \<times> sock \<times> pump) option" where
  "tcp_connect valid w sys addr cb s p = sock_connect valid w sys addr cb s p"

definition tcp_connect_with_timeout :: "(raw_fd \<Rightarrow> bool) \<Rightarrow> nat \<Rightarrow> (sockaddr \<Rightarrow> int + unit) \<Rightarrow> socket_addr \<Rightarrow> duration \<Rightarrow> net \<Rightarrow> net option" where
  "tcp_connect_with_timeout valid w sys addr timeout s = connect_with_timeout valid w sys addr timeout s"

definition tcp_sock_read :: "(raw_fd \<Rightarrow> bool) \<Rightarrow> nat \<Rightarrow> nat \<Rightarrow> (int + byte list) \<Rightarrow> nat \<Rightarrow> sock \<Rightarrow> pump \<Rightarrow>
     (call list \<times> sock \<times> pump) option" where
  "tcp_sock_read valid w len ans cb s p = sock_read valid w len ans cb s p"

definition tcp_read_with_timeout :: "(raw_fd \<Rightarrow> bool) \<Rightarrow> nat \<Rightarrow> nat \<Rightarrow> (int + byte list) \<Rightarrow> duration \<Rightarrow> net \<Rightarrow> net option" where
  "tcp_read_with_timeout valid w len ans timeout s = read_with_timeout valid w len ans timeout s"

definition tcp_read_if_ready :: "(raw_fd \<Rightarrow> bool) \<Rightarrow> nat \<Rightarrow> nat \<Rightarrow> sock \<Rightarrow> pump \<Rightarrow> (call list \<times> sock \<times> pump) option" where
  "tcp_read_if_ready valid w cb s p = sock_read_if_ready valid w cb s p"

definition tcp_read_if_ready_with_timeout :: "(raw_fd \<Rightarrow> bool) \<Rightarrow> nat \<Rightarrow> duration \<Rightarrow> net \<Rightarrow> net option" where
  "tcp_read_if_ready_with_timeout valid w timeout s = read_if_ready_with_timeout valid w timeout s"

definition tcp_sock_write :: "(raw_fd \<Rightarrow> bool) \<Rightarrow> nat \<Rightarrow> byte list \<Rightarrow> (int + nat) \<Rightarrow> nat \<Rightarrow> sock \<Rightarrow> pump \<Rightarrow>
     (call list \<times> sock \<times> pump) option" where
  "tcp_sock_write valid w buf ans cb s p = sock_write valid w buf ans cb s p"

definition tcp_write_with_timeout :: "(raw_fd \<Rightarrow> bool) \<Rightarrow> nat \<Rightarrow> byte list \<Rightarrow> (int + nat) \<Rightarrow> duration \<Rightarrow> net \<Rightarrow> net option" where
  "tcp_write_with_timeout valid w buf ans timeout s = write_with_timeout valid w buf ans timeout s"

text \<open>\<open>accept\<close>, and the socket its callback gets for an accepted descriptor.\<close>

definition tcp_accept :: "(raw_fd \<Rightarrow> bool) \<Rightarrow> nat \<Rightarrow> (int + raw_fd) \<Rightarrow> nat \<Rightarrow> sock \<Rightarrow> pump \<Rightarrow> (call list \<times> sock \<times> pump) option" where
  "tcp_accept valid w ans cb s p = sock_accept valid w ans cb s p"

definition tcp_accepted :: "raw_fd io_result \<Rightarrow> sock io_result" where
  "tcp_accepted result = map_sum id tcp_from_connected_fd result"

definition tcp_close :: "sock \<Rightarrow> pump \<Rightarrow> raw_fd list \<times> sock \<times> pump" where
  "tcp_close s p = sock_close s p"

lemmas tcp_delegates =
  tcp_new_def tcp_from_connected_fd_def tcp_open_def tcp_local_addr_def tcp_bind_def tcp_listen_def tcp_connect_def
  tcp_connect_with_timeout_def tcp_sock_read_def tcp_read_with_timeout_def tcp_read_if_ready_def
  tcp_read_if_ready_with_timeout_def tcp_sock_write_def tcp_write_with_timeout_def tcp_accept_def tcp_accepted_def
  tcp_close_def

section \<open>Client\<close>

text \<open>\<open>TcpClientSocket::connect\<close>: the option is best effort, its result is thrown away.\<close>

definition tcp_client_connect ::
    "(raw_fd \<Rightarrow> bool) \<Rightarrow> nat \<Rightarrow> (int + raw_fd) \<Rightarrow> setsockopt \<Rightarrow> (sockaddr \<Rightarrow> int + unit) \<Rightarrow> socket_addr \<Rightarrow> nat \<Rightarrow>
       sock \<Rightarrow> pump \<Rightarrow> (call list \<times> sock \<times> pump) option" where
  "tcp_client_connect valid w opened sysopt sys addr cb s p =
     (case tcp_open opened s of
        (Inl e, s1) \<Rightarrow> Some ([(cb, Done (Inl e))], s1, p)
      | (Inr _, s1) \<Rightarrow>
          (let _ = set_default_options_for_client sysopt s1
           in tcp_connect valid w sys addr cb s1 p))"

text \<open>\<open>TcpClientSocket::connect_with_timeout\<close> on socket \<open>w\<close> of the machine.\<close>

definition tcp_client_connect_with_timeout ::
    "(raw_fd \<Rightarrow> bool) \<Rightarrow> nat \<Rightarrow> (int + raw_fd) \<Rightarrow> setsockopt \<Rightarrow> (sockaddr \<Rightarrow> int + unit) \<Rightarrow> socket_addr \<Rightarrow> duration \<Rightarrow>
       net \<Rightarrow> net option" where
  "tcp_client_connect_with_timeout valid w opened sysopt sys addr timeout s =
     (case sock_at w s of
        None \<Rightarrow> None
      | Some k \<Rightarrow>
          (case tcp_open opened k of
             (Inl e, k1) \<Rightarrow>
               Some (call_back [(nt_next s, Done (Inl e))]
                 (put_sock w (k1, nt_pump s) (s\<lparr>nt_next := nt_next s + 1\<rparr>)))
           | (Inr _, k1) \<Rightarrow>
               (let _ = set_default_options_for_client sysopt k1
                in tcp_connect_with_timeout valid w sys addr timeout (put_sock w (k1, nt_pump s) s))))"

text \<open>What the client delegates further.\<close>

definition tcp_client_new :: "sock" where
  "tcp_client_new = tcp_new"

definition tcp_client_read :: "(raw_fd \<Rightarrow> bool) \<Rightarrow> nat \<Rightarrow> nat \<Rightarrow> (int + byte list) \<Rightarrow> nat \<Rightarrow> sock \<Rightarrow> pump \<Rightarrow>
     (call list \<times> sock \<times> pump) option" where
  "tcp_client_read valid w len ans cb s p = tcp_sock_read valid w len ans cb s p"

definition tcp_client_read_with_timeout :: "(raw_fd \<Rightarrow> bool) \<Rightarrow> nat \<Rightarrow> nat \<Rightarrow> (int + byte list) \<Rightarrow> duration \<Rightarrow> net \<Rightarrow> net option" where
  "tcp_client_read_with_timeout valid w len ans timeout s = tcp_read_with_timeout valid w len ans timeout s"

definition tcp_client_read_if_ready :: "(raw_fd \<Rightarrow> bool) \<Rightarrow> nat \<Rightarrow> nat \<Rightarrow> sock \<Rightarrow> pump \<Rightarrow> (call list \<times> sock \<times> pump) option" where
  "tcp_client_read_if_ready valid w cb s p = tcp_read_if_ready valid w cb s p"

definition tcp_client_read_if_ready_with_timeout :: "(raw_fd \<Rightarrow> bool) \<Rightarrow> nat \<Rightarrow> duration \<Rightarrow> net \<Rightarrow> net option" where
  "tcp_client_read_if_ready_with_timeout valid w timeout s = tcp_read_if_ready_with_timeout valid w timeout s"

definition tcp_client_write :: "(raw_fd \<Rightarrow> bool) \<Rightarrow> nat \<Rightarrow> byte list \<Rightarrow> (int + nat) \<Rightarrow> nat \<Rightarrow> sock \<Rightarrow> pump \<Rightarrow>
     (call list \<times> sock \<times> pump) option" where
  "tcp_client_write valid w buf ans cb s p = tcp_sock_write valid w buf ans cb s p"

definition tcp_client_write_with_timeout :: "(raw_fd \<Rightarrow> bool) \<Rightarrow> nat \<Rightarrow> byte list \<Rightarrow> (int + nat) \<Rightarrow> duration \<Rightarrow> net \<Rightarrow> net option" where
  "tcp_client_write_with_timeout valid w buf ans timeout s = tcp_write_with_timeout valid w buf ans timeout s"

definition tcp_client_local_addr :: "(int + sockaddr) \<Rightarrow> socket_addr io_result" where
  "tcp_client_local_addr ans = tcp_local_addr ans"

definition tcp_client_disconnect :: "sock \<Rightarrow> pump \<Rightarrow> raw_fd list \<times> sock \<times> pump" where
  "tcp_client_disconnect s p = tcp_close s p"

section \<open>Server\<close>

definition tcp_server_new :: "sock" where
  "tcp_server_new = tcp_new"

definition tcp_server_local_addr :: "(int + sockaddr) \<Rightarrow> socket_addr io_result" where
  "tcp_server_local_addr ans = tcp_local_addr ans"

text \<open>\<open>TcpServerSocket::listen\<close>: four calls, the first error ends it.  \<open>None\<close> is a panic.\<close>

definition tcp_server_listen ::
    "(int + raw_fd) \<Rightarrow> setsockopt \<Rightarrow> (sockaddr \<Rightarrow> int + unit) \<Rightarrow> (int + unit) \<Rightarrow> socket_addr \<Rightarrow> sock \<Rightarrow>
       (unit io_result \<times> sock) option" where
  "tcp_server_listen opened sysopt sysbind listened addr s =
     (case tcp_open opened s of
        (Inl e, s1) \<Rightarrow> Some (Inl e, s1)
      | (Inr _, s1) \<Rightarrow>
          (case set_default_options_for_server sysopt s1 of
             Inl e \<Rightarrow> Some (Inl e, s1)
           | Inr _ \<Rightarrow>
               (case tcp_bind sysbind addr s1 of
                  None \<Rightarrow> None
                | Some (Inl e) \<Rightarrow> Some (Inl e, s1)
                | Some (Inr _) \<Rightarrow>
                    (case tcp_listen listened s1 of None \<Rightarrow> None | Some r \<Rightarrow> Some (r, s1)))))"

text \<open>
  \<open>TcpServerSocket::accept\<close>: what the client's callback gets when the socket's callback gets
  \<open>result\<close>; an accepted connection is a client socket over the descriptor with \<open>TCP_NODELAY\<close> set
  as far as possible.
\<close>

definition tcp_server_accepted :: "setsockopt \<Rightarrow> raw_fd io_result \<Rightarrow> sock io_result" where
  "tcp_server_accepted sysopt result =
     (case tcp_accepted result of
        Inl e \<Rightarrow> Inl e
      | Inr client \<Rightarrow> let _ = set_default_options_for_client sysopt client in Inr client)"

section \<open>Properties\<close>

text \<open>\<open>connect\<close> calls back exactly when it does not wait; it never panics on a fresh descriptor.\<close>

lemma tcp_client_connect_total:
  assumes "\<And>fd. opened = Inr fd \<Longrightarrow> 0 \<le> fd"
  shows "\<exists>cs s' p'. tcp_client_connect valid w opened sysopt sys addr cb s p = Some (cs, s', p') \<and>
           (cs = [] \<longleftrightarrow> sys (encode_addr addr) = Inl EINPROGRESS \<and> (\<exists>fd. opened = Inr fd)) \<and>
           (cs = [] \<longrightarrow> sk_pending_connect s' = Some cb) \<and> (cs \<noteq> [] \<longrightarrow> (\<exists>r. cs = [(cb, Done r)]))"
proof (cases opened)
  case (Inl e)
  then show ?thesis by (auto simp: tcp_client_connect_def tcp_delegates sock_open_def)
next
  case (Inr fd)
  obtain s' p' where a: "arm_write valid w (s\<lparr>sk_fd := fd, sk_connect_gen := sk_connect_gen s + 1,
      sk_pending_connect := Some cb\<rparr>) p = (s', p')" by (rule prod.exhaust)
  then have "sk_pending_connect s' = Some cb"
    using arm_stop_fields(12) [of valid w "s\<lparr>sk_fd := fd, sk_connect_gen := sk_connect_gen s + 1,
      sk_pending_connect := Some cb\<rparr>" p] by simp
  moreover have "0 \<le> fd" using assms Inr by simp
  ultimately show ?thesis
    using Inr a
    by (cases "sys (encode_addr addr)")
       (auto simp: tcp_client_connect_def tcp_delegates sock_open_def sock_connect_def syscall_connect_def os_result_def Let_def)
qed

text \<open>
  \<open>TcpServerSocket::listen\<close> succeeds exactly when all four calls do, it applies
  \<open>SO_REUSEADDR\<close> before it binds, and on an error it returns the first one.
\<close>

lemma tcp_listen_first_error:
  assumes "\<And>fd. opened = Inr fd \<Longrightarrow> 0 \<le> fd"
  shows "\<exists>s'. tcp_server_listen opened sysopt sysbind listened addr s =
     Some (case opened of
             Inl e \<Rightarrow> Inl (Os e)
           | Inr fd \<Rightarrow>
               (case sysopt fd SOL_SOCKET SO_REUSEADDR 1 of
                  Inl e \<Rightarrow> Inl (Os e)
                | Inr _ \<Rightarrow>
                    (case sysbind (encode_addr addr) of
                       Inl e \<Rightarrow> Inl (Os e)
                     | Inr _ \<Rightarrow> (case listened of Inl e \<Rightarrow> Inl (Os e) | Inr _ \<Rightarrow> Inr ()))), s')"
  using assms
  by (fastforce simp: tcp_server_listen_def tcp_delegates sock_open_def set_default_options_for_server_def set_reuse_addr_def
      setsockopt_bool_def sock_bind_def syscall_bind_def sock_listen_def os_result_def split: sum.splits)

text \<open>
  \<open>open\<close> on a socket that already has a descriptor overwrites it without closing it: a second
  \<open>connect\<close> or \<open>listen\<close> on the same object leaks the first descriptor.
\<close>

lemma reopen_leaks_descriptor:
  assumes "sock_at w s = Some k" and "sk_fd k = 5" and "net_step valid (Open w (Inr 6)) s = Some t"
  shows "nt_closed t = nt_closed s \<and> (\<exists>k'. sock_at w t = Some k' \<and> sk_fd k' = 6)"
  using assms by (auto simp: with_sock_def put_sock_def sock_open_def sock_at_def split: if_splits)

end
