(* ===== verification/Tls_Client_Model.thy ===== *)
theory Tls_Client_Model
  imports Prelude "HOL-Library.Sublist"
begin

text \<open>
  \<open>rust_net/tls_client_socket.rs\<close>: the pumps between a transport stream and a TLS engine.  The
  engine (\<open>rustls\<close>) is a record of functions on a connection state \<open>'c\<close>; the transport answers one
  request at a time.  The closures the code passes to the transport are the values of \<open>tls_cont\<close>;
  a state of the pump is the request it waits on with its continuation, or its end.
\<close>

section \<open>The engine\<close>

record 'c engine =
  e_wants_write :: "'c \<Rightarrow> bool"
  e_write_tls :: "'c \<Rightarrow> byte list \<times> 'c"
  e_read_tls :: "byte list \<Rightarrow> 'c \<Rightarrow> (io_error + nat) \<times> 'c"
  e_process_new_packets :: "'c \<Rightarrow> (io_error + unit) \<times> 'c"
  e_is_handshaking :: "'c \<Rightarrow> bool"
  e_reader_read :: "nat \<Rightarrow> 'c \<Rightarrow> byte list io_result \<times> 'c"
  e_writer_write_all :: "byte list \<Rightarrow> 'c \<Rightarrow> unit io_result \<times> 'c"
  e_send_close_notify :: "'c \<Rightarrow> 'c"

definition READ_CHUNK :: nat where "READ_CHUNK = 16 * 1024"

section \<open>Continuations\<close>

datatype tls_cont =
    HandshakeFlushed | HandshakeFed
  | ReadFed nat | ReadFlushed nat
  | WriteFlushed nat
  | DisconnectFlushed

datatype tls_outcome =
    TlsDone "unit io_result"
  | TlsBytes "byte list io_result"
  | TlsCount "nat io_result"
  | TlsDisconnect

datatype tls_pc =
    WritingAll "byte list" tls_cont
  | Feeding tls_cont
  | Finished tls_outcome

text \<open>How each operation reports an error to its caller; \<open>disconnect\<close> ignores it and goes on.\<close>

fun tls_fail :: "tls_cont \<Rightarrow> io_error \<Rightarrow> tls_outcome" where
  "tls_fail HandshakeFlushed e = TlsDone (Inl e)"
| "tls_fail HandshakeFed e = TlsDone (Inl e)"
| "tls_fail (ReadFed len) e = TlsBytes (Inl e)"
| "tls_fail (ReadFlushed len) e = TlsBytes (Inl e)"
| "tls_fail (WriteFlushed len) e = TlsCount (Inl e)"
| "tls_fail DisconnectFlushed e = TlsDisconnect"

text \<open>\<open>StreamSocket::read\<close> of the TLS socket.\<close>

definition tls_read :: "'c engine \<Rightarrow> nat \<Rightarrow> 'c \<Rightarrow> tls_pc \<times> 'c" where
  "tls_read E len c =
     (case e_reader_read E len c of
        (Inr buf, c') \<Rightarrow> (Finished (TlsBytes (Inr (take len buf))), c')
      | (Inl e, c') \<Rightarrow>
          if e = Kind WouldBlock then (Feeding (ReadFed len), c') else (Finished (TlsBytes (Inl e)), c'))"

text \<open>What follows a flush that succeeded.\<close>

fun tls_flushed :: "'c engine \<Rightarrow> tls_cont \<Rightarrow> 'c \<Rightarrow> tls_pc \<times> 'c" where
  "tls_flushed E (ReadFlushed len) c = tls_read E len c"
| "tls_flushed E (WriteFlushed len) c = (Finished (TlsCount (Inr len)), c)"
| "tls_flushed E DisconnectFlushed c = (Finished TlsDisconnect, c)"
| "tls_flushed E _ c =
     (if \<not> e_is_handshaking E c then (Finished (TlsDone (Inr ())), c) else (Feeding HandshakeFed, c))"

definition flush_pending :: "'c engine \<Rightarrow> tls_cont \<Rightarrow> 'c \<Rightarrow> tls_pc \<times> 'c" where
  "flush_pending E k c =
     (case (if e_wants_write E c then e_write_tls E c else ([], c)) of
        (outgoing, c') \<Rightarrow> if outgoing = [] then tls_flushed E k c' else (WritingAll outgoing k, c'))"

definition drive_handshake :: "'c engine \<Rightarrow> 'c \<Rightarrow> tls_pc \<times> 'c" where
  "drive_handshake E c = flush_pending E HandshakeFlushed c"

text \<open>What follows a chunk that was fed to the engine.\<close>

fun tls_fed :: "'c engine \<Rightarrow> tls_cont \<Rightarrow> 'c \<Rightarrow> tls_pc \<times> 'c" where
  "tls_fed E (ReadFed len) c = flush_pending E (ReadFlushed len) c"
| "tls_fed E _ c = drive_handshake E c"

definition tls_write :: "'c engine \<Rightarrow> byte list \<Rightarrow> 'c \<Rightarrow> tls_pc \<times> 'c" where
  "tls_write E buf c =
     (case e_writer_write_all E buf c of
        (Inl e, c') \<Rightarrow> (Finished (TlsCount (Inl e)), c')
      | (Inr _, c') \<Rightarrow> flush_pending E (WriteFlushed (length buf)) c')"

definition tls_disconnect :: "'c engine \<Rightarrow> 'c \<Rightarrow> tls_pc \<times> 'c" where
  "tls_disconnect E c = flush_pending E DisconnectFlushed (e_send_close_notify E c)"

section \<open>Transport answers\<close>

text \<open>The inner loop of \<open>feed_one\<close>; the second component is what the engine was not given.\<close>

function (sequential) feed_slice :: "'c engine \<Rightarrow> byte list \<Rightarrow> 'c \<Rightarrow> (io_error + unit) \<times> byte list \<times> 'c" where
  "feed_slice E [] c = (Inr (), [], c)"
| "feed_slice E rest c =
     (case e_read_tls E rest c of
        (Inl e, c1) \<Rightarrow> (Inl e, rest, c1)
      | (Inr n, c1) \<Rightarrow>
          if n = 0 then (Inr (), rest, c1)
          else (case e_process_new_packets E c1 of
                  (Inl e, c2) \<Rightarrow> (Inl e, drop n rest, c2)
                | (Inr _, c2) \<Rightarrow> feed_slice E (drop n rest) c2))"
  by pat_completeness auto
termination
  by (relation "measure (\<lambda>(E, rest, c). length rest)") auto

definition feed_answer :: "'c engine \<Rightarrow> tls_cont \<Rightarrow> byte list io_result \<Rightarrow> 'c \<Rightarrow> tls_pc \<times> 'c" where
  "feed_answer E k res c =
     (case res of
        Inl e \<Rightarrow> (Finished (tls_fail k e), c)
      | Inr data \<Rightarrow>
          if data = [] then (Finished (tls_fail k (Custom UnexpectedEof ''transport closed'')), c)
          else (case feed_slice E data c of
                  (Inl e, _, c') \<Rightarrow> (Finished (tls_fail k e), c')
                | (Inr _, _, c') \<Rightarrow> tls_fed E k c'))"

text \<open>\<open>write_all\<close>, on the transport's answer to the write of \<open>buf\<close>.\<close>

definition write_all_answer :: "'c engine \<Rightarrow> byte list \<Rightarrow> tls_cont \<Rightarrow> nat io_result \<Rightarrow> 'c \<Rightarrow> tls_pc \<times> 'c" where
  "write_all_answer E buf k res c =
     (case res of
        Inl e \<Rightarrow> (Finished (tls_fail k e), c)
      | Inr n \<Rightarrow> if length buf \<le> n then flush_pending E k c else (WritingAll (drop n buf) k, c))"

datatype answer = Wrote "nat io_result" | GotData "byte list io_result"

text \<open>
  The machine of one operation that has the connection for itself, as the handshake of \<open>connect\<close> has:
  the pump and the connection, and the bytes the transport took.  Operations that share the
  connection run in \<open>Tls_Over_Tcp\<close>, on the same functions.
\<close>

record 'c tls_state =
  ts_pc :: tls_pc
  ts_conn :: 'c
  ts_wire :: "byte list"

fun in_flight :: "tls_pc \<Rightarrow> byte list" where
  "in_flight (WritingAll buf k) = buf"
| "in_flight _ = []"

text \<open>A transport takes a prefix of the buffer it is given.\<close>

fun tls_step :: "'c engine \<Rightarrow> answer \<Rightarrow> 'c tls_state \<Rightarrow> 'c tls_state option" where
  "tls_step E (Wrote res) s =
     (case ts_pc s of
        WritingAll buf k \<Rightarrow>
          if (case res of Inl _ \<Rightarrow> True | Inr n \<Rightarrow> n \<le> length buf)
          then (case write_all_answer E buf k res (ts_conn s) of
                  (pc, c) \<Rightarrow> Some \<lparr>ts_pc = pc, ts_conn = c,
                     ts_wire = ts_wire s @ (case res of Inl _ \<Rightarrow> [] | Inr n \<Rightarrow> take n buf)\<rparr>)
          else None
      | _ \<Rightarrow> None)"
| "tls_step E (GotData res) s =
     (case ts_pc s of
        Feeding k \<Rightarrow>
          (case feed_answer E k (map_sum id (take READ_CHUNK) res) (ts_conn s) of
             (pc, c) \<Rightarrow> Some \<lparr>ts_pc = pc, ts_conn = c, ts_wire = ts_wire s\<rparr>)
      | _ \<Rightarrow> None)"

definition tls_start :: "tls_pc \<times> 'c \<Rightarrow> byte list \<Rightarrow> 'c tls_state" where
  "tls_start r wire = \<lparr>ts_pc = fst r, ts_conn = snd r, ts_wire = wire\<rparr>"

section \<open>What the pump relies on\<close>

text \<open>
  The documented behaviour of the engine, for the bytes it has handed out (\<open>sent\<close>) and those it
  has queued: \<open>wants_write\<close> says whether something is queued, \<open>write_tls\<close> hands out a non-empty part of
  it in order, and every other call may only queue more.
\<close>

definition grows :: "('c \<Rightarrow> byte list) \<Rightarrow> ('c \<Rightarrow> byte list) \<Rightarrow> 'c \<Rightarrow> 'c \<Rightarrow> bool" where
  "grows sent queued c c' \<longleftrightarrow> sent c' = sent c \<and> (\<exists>more. queued c' = queued c @ more)"

definition engine_ok :: "'c engine \<Rightarrow> ('c \<Rightarrow> byte list) \<Rightarrow> ('c \<Rightarrow> byte list) \<Rightarrow> bool" where
  "engine_ok E sent queued \<longleftrightarrow>
     (\<forall>c. e_wants_write E c \<longleftrightarrow> queued c \<noteq> []) \<and>
     (\<forall>c buf c'. e_write_tls E c = (buf, c') \<longrightarrow> 
        queued c = buf @ queued c' \<and> (buf = [] \<longrightarrow> queued c = []) \<and> sent c' = sent c @ buf) \<and>
     (\<forall>c d r c'. e_read_tls E d c = (r, c') \<longrightarrow> grows sent queued c c') \<and>
     (\<forall>c r c'. e_process_new_packets E c = (r, c') \<longrightarrow> grows sent queued c c') \<and>
     (\<forall>c n r c'. e_reader_read E n c = (r, c') \<longrightarrow> grows sent queued c c') \<and>
     (\<forall>c d r c'. e_writer_write_all E d c = (r, c') \<longrightarrow> grows sent queued c c') \<and>
     (\<forall>c. grows sent queued c (e_send_close_notify E c))"

fun run_tls :: "'c engine \<Rightarrow> answer list \<Rightarrow> 'c tls_state \<Rightarrow> 'c tls_state option" where
  "run_tls E [] s = Some s"
| "run_tls E (a # as) s = (case tls_step E a s of None \<Rightarrow> None | Some s' \<Rightarrow> run_tls E as s')"

text \<open>Ends after which bytes may be missing on the wire.\<close>

fun failed :: "tls_pc \<Rightarrow> bool" where
  "failed (Finished (TlsDone (Inl e))) = True"
| "failed (Finished (TlsBytes (Inl e))) = True"
| "failed (Finished (TlsCount (Inl e))) = True"
| "failed (Finished TlsDisconnect) = True"
| "failed _ = False"

text \<open>What the transport has taken and is being given is what the engine handed out.\<close>

definition wire_exact :: "('c \<Rightarrow> byte list) \<Rightarrow> byte list \<Rightarrow> tls_pc \<times> 'c \<Rightarrow> bool" where
  "wire_exact sent wire r \<longleftrightarrow> sent (snd r) = wire @ in_flight (fst r)"

definition wire_ok :: "('c \<Rightarrow> byte list) \<Rightarrow> byte list \<Rightarrow> tls_pc \<times> 'c \<Rightarrow> bool" where
  "wire_ok sent wire r \<longleftrightarrow>
     wire_exact sent wire r \<or> failed (fst r) \<and> prefix wire (sent (snd r))"

text \<open>A write of \<open>len\<close> bytes after which the stream is \<open>strm\<close>.\<close>

fun tls_write_ok :: "('c \<Rightarrow> byte list) \<Rightarrow> nat \<Rightarrow> byte list \<Rightarrow> byte list \<Rightarrow> tls_pc \<times> 'c \<Rightarrow> bool" where
  "tls_write_ok queued len strm wire (WritingAll buf (WriteFlushed n), c) \<longleftrightarrow> n = len \<and> strm = wire @ buf @ queued c"
| "tls_write_ok queued len strm wire (Finished (TlsCount (Inr n)), c) \<longleftrightarrow> n = len \<and> strm = wire \<and> queued c = []"
| "tls_write_ok queued len strm wire (Finished (TlsCount (Inl e)), c) \<longleftrightarrow> prefix wire strm"
| "tls_write_ok queued len strm wire _ \<longleftrightarrow> False"

section \<open>The engine's laws, one by one\<close>

lemma grows_refl [simp]: "grows sent queued c c"
  by (simp add: grows_def)

lemma grows_trans: "grows sent queued c c' \<Longrightarrow> grows sent queued c' c'' \<Longrightarrow> grows sent queued c c''"
  by (auto simp: grows_def)

lemma grows_sent: "grows sent queued c c' \<Longrightarrow> sent c' = sent c"
  by (simp add: grows_def)

lemma engine_write_tls:
  assumes "engine_ok E sent queued" "e_write_tls E c = (buf, c')"
  shows "queued c = buf @ queued c'" "buf = [] \<Longrightarrow> queued c = []" "sent c' = sent c @ buf"
proof -
  have "queued c = buf @ queued c' \<and> (buf = [] \<longrightarrow> queued c = []) \<and> sent c' = sent c @ buf"
    using assms unfolding engine_ok_def by blast
  then show "queued c = buf @ queued c'" "buf = [] \<Longrightarrow> queued c = []" "sent c' = sent c @ buf" by blast+
qed

lemma engine_wants_write: "engine_ok E sent queued \<Longrightarrow> e_wants_write E c \<longleftrightarrow> queued c \<noteq> []"
  by (simp add: engine_ok_def)

lemma engine_grows:
  assumes "engine_ok E sent queued"
  shows "e_read_tls E d c = (r, c') \<Longrightarrow> grows sent queued c c'"
    and "e_process_new_packets E c = (r1, c') \<Longrightarrow> grows sent queued c c'"
    and "e_reader_read E n c = (r2, c') \<Longrightarrow> grows sent queued c c'"
    and "e_writer_write_all E d c = (r3, c') \<Longrightarrow> grows sent queued c c'"
    and "grows sent queued c (e_send_close_notify E c)"
  using assms by (auto simp: engine_ok_def)

lemma feed_slice_grows:
  assumes ok: "engine_ok E sent queued" and "feed_slice E d c = (r, d', c')"
  shows "grows sent queued c c'"
  using assms
proof (induction E d c arbitrary: r d' c' rule: feed_slice.induct)
  case (2 E b d c)
  obtain a c1 where a: "e_read_tls E (b # d) c = (a, c1)" by (rule prod.exhaust)
  obtain a2 c2 where a2: "e_process_new_packets E c1 = (a2, c2)" by (rule prod.exhaust)
  note g1 = engine_grows(1) [OF 2(2) a] and g2 = engine_grows(2) [OF 2(2) a2]
  show ?case
  proof (cases a)
    case (Inl e)
    then show ?thesis using 2(3) a g1 by simp
  next
    case n: (Inr n)
    show ?thesis
    proof (cases "n \<noteq> 0 \<and> a2 = Inr ()")
      case True
      then have "grows sent queued c2 c'"
        using 2 a a2 n by simp
      then show ?thesis using g1 g2 grows_trans by metis
    next
      case False
      then show ?thesis
        using 2(3) a a2 n g1 g2 grows_trans [OF g1 g2] by (auto split: sum.splits if_splits)
    qed
  qed
qed simp

section \<open>The operations keep the stream\<close>

lemma tls_read_exact:
  assumes "engine_ok E sent queued" "sent c = wire"
  shows "wire_exact sent wire (tls_read E len c)"
proof -
  obtain r c' where r: "e_reader_read E len c = (r, c')" by (rule prod.exhaust)
  then have "sent c' = wire"
    using assms engine_grows(3) grows_sent by metis
  then show ?thesis
    using r by (auto simp: tls_read_def wire_exact_def split: sum.split)
qed

lemma tls_flushed_exact:
  assumes "engine_ok E sent queued" "sent c = wire"
  shows "wire_exact sent wire (tls_flushed E k c)"
  using assms tls_read_exact [OF assms] by (cases k) (auto simp: wire_exact_def)

lemma flush_pending_exact:
  assumes "engine_ok E sent queued" "sent c = wire"
  shows "wire_exact sent wire (flush_pending E k c)"
proof (cases "e_wants_write E c")
  case True
  obtain buf c' where w: "e_write_tls E c = (buf, c')" by (rule prod.exhaust)
  then show ?thesis
    using True assms engine_write_tls(3) [OF assms(1) w] tls_flushed_exact [of E sent queued c' wire k]
    by (auto simp: flush_pending_def wire_exact_def)
qed (use tls_flushed_exact [OF assms] in \<open>simp add: flush_pending_def\<close>)

lemma tls_fed_exact:
  assumes "engine_ok E sent queued" "sent c = wire"
  shows "wire_exact sent wire (tls_fed E k c)"
  using flush_pending_exact [OF assms] by (cases k) (simp_all add: drive_handshake_def)

lemma failed_tls_fail [simp]: "failed (Finished (tls_fail k e))"
  by (cases k) simp_all

lemma feed_answer_exact:
  assumes "engine_ok E sent queued" "sent c = wire"
  shows "wire_exact sent wire (feed_answer E k res c)"
proof (cases res)
  case (Inr data)
  obtain r d c' where f: "feed_slice E data c = (r, d, c')" by (metis prod.exhaust)
  then have c': "sent c' = wire"
    using assms feed_slice_grows grows_sent by metis
  show ?thesis
    using Inr f c' assms(2) tls_fed_exact [OF assms(1) c', of k]
    by (auto simp: feed_answer_def wire_exact_def split: sum.split)
qed (use assms in \<open>simp add: feed_answer_def wire_exact_def\<close>)

lemma write_all_answer_exact:
  assumes "engine_ok E sent queued" "sent c = wire @ buf" "n \<le> length buf"
  shows "wire_exact sent (wire @ take n buf) (write_all_answer E buf k (Inr n) c)"
  using assms flush_pending_exact [OF assms(1,2), of k]
  by (auto simp: write_all_answer_def wire_exact_def)

lemma write_all_answer_wire_ok:
  assumes "engine_ok E sent queued" "sent c = wire @ buf" "\<And>n. res = Inr n \<Longrightarrow> n \<le> length buf"
  shows "wire_ok sent (wire @ (case res of Inl _ \<Rightarrow> [] | Inr n \<Rightarrow> take n buf)) (write_all_answer E buf k res c)"
proof (cases res)
  case (Inr n)
  then show ?thesis
    using assms write_all_answer_exact [OF assms(1,2)] by (simp add: wire_ok_def)
qed (use assms in \<open>simp add: write_all_answer_def wire_ok_def\<close>)

lemma tls_step_wire_ok:
  assumes ok: "engine_ok E sent queued" and w: "wire_ok sent (ts_wire s) (ts_pc s, ts_conn s)"
    and step: "tls_step E a s = Some s'"
  shows "wire_ok sent (ts_wire s') (ts_pc s', ts_conn s')"
proof (cases a)
  case (Wrote res)
  obtain buf k where pc: "ts_pc s = WritingAll buf k"
    using step Wrote by (cases "ts_pc s") auto
  obtain pc' c' where r: "write_all_answer E buf k res (ts_conn s) = (pc', c')" by (rule prod.exhaust)
  show ?thesis
    using write_all_answer_wire_ok [OF ok, of "ts_conn s" "ts_wire s" buf res k] step Wrote pc r w
    by (auto simp: wire_ok_def wire_exact_def split: if_splits sum.splits)
next
  case (GotData res)
  obtain k where pc: "ts_pc s = Feeding k"
    using step GotData by (cases "ts_pc s") auto
  obtain pc' c' where r: "feed_answer E k (map_sum id (take READ_CHUNK) res) (ts_conn s) = (pc', c')"
    by (rule prod.exhaust)
  show ?thesis
    using feed_answer_exact [OF ok, of "ts_conn s" "ts_wire s" k "map_sum id (take READ_CHUNK) res"]
      step GotData pc r w
    by (auto simp: wire_ok_def wire_exact_def)
qed

lemma run_tls_induct:
  assumes "run_tls E as s = Some s'" "P s" "\<And>a t t'. P t \<Longrightarrow> tls_step E a t = Some t' \<Longrightarrow> P t'"
  shows "P s'"
  using assms(1,2) by (induction as arbitrary: s) (auto split: option.splits intro: assms(3))

section \<open>A write reports the bytes it put on the wire\<close>

lemma flush_pending_write_ok:
  assumes "engine_ok E sent queued" "strm = wire @ queued c"
  shows "tls_write_ok queued len strm wire (flush_pending E (WriteFlushed len) c)"
proof (cases "e_wants_write E c")
  case True
  obtain buf c' where w: "e_write_tls E c = (buf, c')" by (rule prod.exhaust)
  show ?thesis
    using True assms(2) w engine_write_tls(1,2) [OF assms(1) w] by (auto simp: flush_pending_def)
qed (use assms engine_wants_write [OF assms(1), of c] in \<open>simp add: flush_pending_def\<close>)

lemma tls_step_write_ok:
  assumes ok: "engine_ok E sent queued" and w: "tls_write_ok queued len strm (ts_wire s) (ts_pc s, ts_conn s)"
    and step: "tls_step E a s = Some s'"
  shows "tls_write_ok queued len strm (ts_wire s') (ts_pc s', ts_conn s')"
proof -
  obtain buf where pc: "ts_pc s = WritingAll buf (WriteFlushed len)"
    and t: "strm = ts_wire s @ buf @ queued (ts_conn s)"
    using w step by (cases a) (auto split: tls_pc.splits elim: tls_write_ok.elims)
  then obtain res where a: "a = Wrote res"
    using step by (cases a) auto
  show ?thesis
  proof (cases res)
    case (Inr n)
    obtain pc' c' where r: "write_all_answer E buf (WriteFlushed len) res (ts_conn s) = (pc', c')"
      by (rule prod.exhaust)
    show ?thesis
      using step pc a t r Inr flush_pending_write_ok [OF ok, of strm "ts_wire s @ buf" "ts_conn s" len]
      by (auto simp: write_all_answer_def split: if_splits)
  qed (use step pc a t in \<open>auto simp: write_all_answer_def split: if_splits\<close>)
qed

lemma tls_write_run_ok:
  assumes "engine_ok E sent queued" "e_writer_write_all E buf c = (Inr u, c1)"
    and "run_tls E as (tls_start (tls_write E buf c) wire) = Some s"
  shows "tls_write_ok queued (length buf) (wire @ queued c1) (ts_wire s) (ts_pc s, ts_conn s)"
  by (rule run_tls_induct [OF assms(3)])
    (use assms(1,2) flush_pending_write_ok tls_step_write_ok in \<open>fastforce simp: tls_write_def tls_start_def\<close>)+

text \<open>
  A write that fails because the engine takes only part of the plaintext leaves that part queued:
  the next write that succeeds puts it on the wire in front of its own bytes.
\<close>

lemma failed_write_stays_queued:
  assumes ok: "engine_ok E sent queued" and "e_writer_write_all E buf c = (Inl e, c1)"
    and "e_writer_write_all E buf2 c1 = (Inr u, c2)"
    and "run_tls E as (tls_start (tls_write E buf2 c1) wire) = Some s" "ts_pc s = Finished (TlsCount (Inr n))"
  shows "tls_write E buf c = (Finished (TlsCount (Inl e)), c1) \<and> prefix (wire @ queued c1) (ts_wire s)"
proof
  show "tls_write E buf c = (Finished (TlsCount (Inl e)), c1)"
    using assms(2) by (simp add: tls_write_def)
  have "ts_wire s = wire @ queued c2"
    using tls_write_run_ok [OF ok assms(3,4)] assms(5) by simp
  then show "prefix (wire @ queued c1) (ts_wire s)"
    using engine_grows(4) [OF ok assms(3)] by (auto simp: grows_def)
qed

section \<open>The handshake ends flushed\<close>

fun handshake_ok :: "'c engine \<Rightarrow> ('c \<Rightarrow> byte list) \<Rightarrow> tls_pc \<times> 'c \<Rightarrow> bool" where
  "handshake_ok E queued (WritingAll buf HandshakeFlushed, c) \<longleftrightarrow> True"
| "handshake_ok E queued (Feeding HandshakeFed, c) \<longleftrightarrow> True"
| "handshake_ok E queued (Finished (TlsDone (Inl e)), c) \<longleftrightarrow> True"
| "handshake_ok E queued (Finished (TlsDone (Inr u)), c) \<longleftrightarrow> \<not> e_is_handshaking E c \<and> queued c = []"
| "handshake_ok E queued _ \<longleftrightarrow> False"

lemma drive_handshake_ok:
  assumes "engine_ok E sent queued"
  shows "handshake_ok E queued (drive_handshake E c)"
proof (cases "e_wants_write E c")
  case True
  obtain buf c' where w: "e_write_tls E c = (buf, c')" by (rule prod.exhaust)
  show ?thesis
    using True w engine_write_tls(1,2) [OF assms w] by (auto simp: drive_handshake_def flush_pending_def)
qed (use engine_wants_write [OF assms, of c] in \<open>simp add: drive_handshake_def flush_pending_def\<close>)

lemma feed_answer_handshake_ok:
  assumes "engine_ok E sent queued"
  shows "handshake_ok E queued (feed_answer E HandshakeFed res c)"
  using drive_handshake_ok [OF assms] by (auto simp: feed_answer_def split: sum.split prod.split)

lemma write_all_handshake_ok:
  assumes "engine_ok E sent queued"
  shows "handshake_ok E queued (write_all_answer E buf HandshakeFlushed res c)"
  using drive_handshake_ok [OF assms] by (auto simp: write_all_answer_def drive_handshake_def split: sum.split)

lemma tls_step_handshake_ok:
  assumes ok: "engine_ok E sent queued" and h: "handshake_ok E queued (ts_pc s, ts_conn s)"
    and step: "tls_step E a s = Some s'"
  shows "handshake_ok E queued (ts_pc s', ts_conn s')"
proof (cases "ts_pc s")
  case (WritingAll buf k)
  then have "k = HandshakeFlushed" using h by (cases k) auto
  then show ?thesis
    using step WritingAll write_all_handshake_ok [OF ok, of buf _ "ts_conn s"]
    by (cases a) (auto split: if_splits prod.splits; metis)+
next
  case (Feeding k)
  then have "k = HandshakeFed" using h by (cases k) auto
  then show ?thesis
    using step Feeding feed_answer_handshake_ok [OF ok, of _ "ts_conn s"]
    by (cases a) (auto split: prod.splits; metis)+
next
  case (Finished out)
  then show ?thesis using step by (cases a) auto
qed

section \<open>Properties\<close>

text \<open>
  A write that has the connection for itself reports success with everything that was queued on the
  wire and nothing more; \<open>Tls_Sharing\<close> has the write among other operations.
\<close>
lemma lone_tls_write:
  assumes "engine_ok E sent queued" "e_writer_write_all E buf c = (Inr u, c1)"
    and "run_tls E as (tls_start (tls_write E buf c) wire) = Some s"
    and "ts_pc s = Finished (TlsCount (Inr n))"
  shows "n = length buf \<and> ts_wire s = wire @ queued c1 \<and> queued (ts_conn s) = []"
  using tls_write_run_ok [OF assms(1-3)] assms(4) by auto

text \<open>A plain engine for examples: records are the plaintext, handed out two bytes at a time.\<close>

definition plain_engine :: "(byte list \<times> byte list) engine" where
  "plain_engine =
     \<lparr>e_wants_write = (\<lambda>c. snd c \<noteq> []),
      e_write_tls = (\<lambda>c. (take 2 (snd c), (fst c @ take 2 (snd c), drop 2 (snd c)))),
      e_read_tls = (\<lambda>d c. (Inr (length d), c)),
      e_process_new_packets = (\<lambda>c. (Inr (), c)),
      e_is_handshaking = (\<lambda>c. False),
      e_reader_read = (\<lambda>n c. (Inl (Kind WouldBlock), c)),
      e_writer_write_all = (\<lambda>d c. (Inr (), (fst c, snd c @ d))),
      e_send_close_notify = (\<lambda>c. c)\<rparr>"

text \<open>
  A handshake that reports success has left the handshaking state, has nothing queued, and the
  transport has taken exactly the bytes the engine ever handed out, in order; this holds for every
  sequence of partial writes and of chunks from the peer.
\<close>
theorem tls_handshake_done_and_flushed:
  assumes "engine_ok E sent queued" "sent c = wire"
    and "run_tls E as (tls_start (drive_handshake E c) wire) = Some s"
    and "ts_pc s = Finished (TlsDone (Inr u))"
  shows "\<not> e_is_handshaking E (ts_conn s) \<and> queued (ts_conn s) = [] \<and> ts_wire s = sent (ts_conn s)"
proof -
  have "handshake_ok E queued (ts_pc s, ts_conn s)"
    by (rule run_tls_induct [OF assms(3)])
      (use drive_handshake_ok [OF assms(1)] tls_step_handshake_ok [OF assms(1)] in \<open>auto simp: tls_start_def\<close>)
  moreover have "wire_ok sent (ts_wire s) (ts_pc s, ts_conn s)"
    by (rule run_tls_induct [OF assms(3)])
      (use flush_pending_exact [OF assms(1,2)] tls_step_wire_ok [OF assms(1)] in
        \<open>auto simp: tls_start_def drive_handshake_def wire_ok_def\<close>)
  ultimately show ?thesis using assms(4) by (simp add: wire_ok_def wire_exact_def)
qed

text \<open>The example engine handshakes until the peer sent one chunk.\<close>

definition greeting_engine :: "(byte list \<times> byte list \<times> bool) engine" where
  "greeting_engine =
     \<lparr>e_wants_write = (\<lambda>(s, q, h). q \<noteq> []),
      e_write_tls = (\<lambda>(s, q, h). (q, (s @ q, [], h))),
      e_read_tls = (\<lambda>d c. (Inr (length d), c)),
      e_process_new_packets = (\<lambda>(s, q, h). (Inr (), (s, q @ [22], False))),
      e_is_handshaking = (\<lambda>(s, q, h). h),
      e_reader_read = (\<lambda>n c. (Inl (Kind WouldBlock), c)),
      e_writer_write_all = (\<lambda>d (s, q, h). (Inr (), (s, q @ d, h))),
      e_send_close_notify = (\<lambda>c. c)\<rparr>"

lemma greeting_engine_ok: "engine_ok greeting_engine fst (fst \<circ> snd)"
  by (auto simp: engine_ok_def greeting_engine_def grows_def)

lemma greeting_run:
  "run_tls greeting_engine [Wrote (Inr 1), Wrote (Inr 1), GotData (Inr [5]), Wrote (Inr 1)]
     (tls_start (drive_handshake greeting_engine ([], [1, 2], True)) []) =
   Some \<lparr>ts_pc = Finished (TlsDone (Inr ())), ts_conn = ([1, 2, 22], [], False), ts_wire = [1, 2, 22]\<rparr>"
  by (simp add: greeting_engine_def drive_handshake_def tls_start_def flush_pending_def write_all_answer_def
      feed_answer_def READ_CHUNK_def)

theorem tls_handshake_done_and_flushed_witness:
  "\<not> e_is_handshaking greeting_engine ([1, 2, 22], [], False) \<and>
   (fst \<circ> snd) ([1 :: byte, 2, 22], [] :: byte list, False) = []"
  using tls_handshake_done_and_flushed [OF greeting_engine_ok _ greeting_run, of "()"] by simp

end
