(* ===== verification/Tls_Over_Tcp.thy ===== *)
theory Tls_Over_Tcp
  imports Tls_Client_Model Tcp_Sockets_Model
begin

text \<open>
  A \<open>TlsClientSocket\<close> whose transport is a connected \<open>TcpClientSocket\<close>.  Its operations share one
  engine and one socket, and the socket has one slot for a pending read and one for a pending
  write.  Operation \<open>i\<close> is the \<open>i\<close>-th call made on the TLS socket; its closures are the callbacks
  named \<open>i\<close> of the transport.

  Everything runs on the IO thread.  A transport call that the kernel serves at once calls back
  before it returns, so one step goes on until the operation is parked in a slot or has ended; the
  list of a label holds the kernel's answers to the system calls made on the way.
\<close>

section \<open>State\<close>

record 'c tls_link =
  tk_conn :: 'c
  tk_sock :: sock
  tk_pump :: pump
  tk_ops :: "tls_pc list"
  tk_wire :: "byte list"
  tk_closed :: "raw_fd list"

datatype tls_call = CallHandshake | CallRead nat | CallWrite "byte list" | CallDisconnect

datatype sys_answer = SysWrite "int + nat" | SysRead "int + byte list"

datatype tls_label =
    TlsCall tls_call "sys_answer list"
  | Readable "int + byte list" "sys_answer list"
  | Writable "int + nat" "sys_answer list"

definition tls_link_new :: "'c \<Rightarrow> raw_fd \<Rightarrow> pump \<Rightarrow> 'c tls_link" where
  "tls_link_new c fd p =
     \<lparr>tk_conn = c, tk_sock = sock_from_fd fd, tk_pump = p, tk_ops = [], tk_wire = [], tk_closed = []\<rparr>"

text \<open>\<open>TlsClientSocket::new\<close> with the answer of \<open>ClientConnection::new\<close>.\<close>

definition tls_client_new :: "string + 'c \<Rightarrow> raw_fd \<Rightarrow> pump \<Rightarrow> 'c tls_link io_result" where
  "tls_client_new ans fd p =
     (case ans of Inl msg \<Rightarrow> Inl (Custom OtherKind msg) | Inr c \<Rightarrow> Inr (tls_link_new c fd p))"

section \<open>Steps\<close>

text \<open>What a call does before it first turns to the transport.\<close>

fun tls_begin :: "'c engine \<Rightarrow> tls_call \<Rightarrow> 'c \<Rightarrow> tls_pc \<times> 'c" where
  "tls_begin E CallHandshake c = drive_handshake E c"
| "tls_begin E (CallRead len) c = tls_read E len c"
| "tls_begin E (CallWrite buf) c = tls_write E buf c"
| "tls_begin E CallDisconnect c = tls_disconnect E c"

text \<open>The transport's \<open>read\<close> and \<open>write\<close> for operation \<open>i\<close>; the kernel takes a prefix of a buffer.\<close>

definition tls_issue ::
    "(raw_fd \<Rightarrow> bool) \<Rightarrow> nat \<Rightarrow> nat \<Rightarrow> sys_answer \<Rightarrow> 'c tls_link \<Rightarrow> (call list \<times> 'c tls_link) option" where
  "tls_issue valid w i ans s =
     (case (tk_ops s ! i, ans) of
        (WritingAll buf k, SysWrite a) \<Rightarrow>
          if (case a of Inl _ \<Rightarrow> True | Inr n \<Rightarrow> n \<le> length buf)
          then (case tcp_client_write valid w buf a i (tk_sock s) (tk_pump s) of
                  None \<Rightarrow> None
                | Some (cs, r) \<Rightarrow>
                    Some (cs, s\<lparr>tk_sock := fst r, tk_pump := snd r,
                      tk_wire := tk_wire s @ (case a of Inl _ \<Rightarrow> [] | Inr n \<Rightarrow> take n buf)\<rparr>))
          else None
      | (Feeding k, SysRead a) \<Rightarrow>
          (case tcp_client_read valid w READ_CHUNK a i (tk_sock s) (tk_pump s) of
             None \<Rightarrow> None
           | Some (cs, r) \<Rightarrow> Some (cs, s\<lparr>tk_sock := fst r, tk_pump := snd r\<rparr>))
      | _ \<Rightarrow> None)"

text \<open>The transport is disconnected as soon as a \<open>disconnect\<close> has flushed.\<close>

definition tls_settle :: "nat \<Rightarrow> tls_pc \<times> 'c \<Rightarrow> 'c tls_link \<Rightarrow> 'c tls_link" where
  "tls_settle i r s =
     (let s' = s\<lparr>tk_ops := (tk_ops s)[i := fst r], tk_conn := snd r\<rparr>
      in if fst r = Finished TlsDisconnect
         then (case tcp_client_disconnect (tk_sock s') (tk_pump s') of
                 (fds, k, p) \<Rightarrow> s'\<lparr>tk_sock := k, tk_pump := p, tk_closed := tk_closed s' @ fds\<rparr>)
         else s')"

text \<open>The closure of operation \<open>i\<close>, called with the transport's result.\<close>

fun tls_deliver :: "'c engine \<Rightarrow> call \<Rightarrow> 'c tls_link \<Rightarrow> 'c tls_link option" where
  "tls_deliver E (i, Count r) s =
     (case tk_ops s ! i of
        WritingAll buf k \<Rightarrow> Some (tls_settle i (write_all_answer E buf k r (tk_conn s)) s)
      | _ \<Rightarrow> None)"
| "tls_deliver E (i, Bytes r) s =
     (case tk_ops s ! i of
        Feeding k \<Rightarrow> Some (tls_settle i (feed_answer E k r (tk_conn s)) s)
      | _ \<Rightarrow> None)"
| "tls_deliver E _ s = None"

text \<open>Operation \<open>i\<close> until it is parked or over, with the kernel's answers.\<close>

fun tls_drive :: "(raw_fd \<Rightarrow> bool) \<Rightarrow> 'c engine \<Rightarrow> nat \<Rightarrow> nat \<Rightarrow> sys_answer list \<Rightarrow> 'c tls_link \<Rightarrow> 'c tls_link option" where
  "tls_drive valid E w i [] s = (case tk_ops s ! i of Finished out \<Rightarrow> Some s | _ \<Rightarrow> None)"
| "tls_drive valid E w i (a # as) s =
     (case tls_issue valid w i a s of
        None \<Rightarrow> None
      | Some ([], s') \<Rightarrow> if as = [] then Some s' else None
      | Some (x # xs, s') \<Rightarrow>
          (case tls_deliver E x s' of None \<Rightarrow> None | Some s'' \<Rightarrow> tls_drive valid E w i as s''))"

text \<open>What the readiness handlers of the socket call, and what the closures called then do.\<close>

definition tls_resume ::
    "(raw_fd \<Rightarrow> bool) \<Rightarrow> 'c engine \<Rightarrow> nat \<Rightarrow> call list \<Rightarrow> sys_answer list \<Rightarrow> 'c tls_link \<Rightarrow> 'c tls_link option" where
  "tls_resume valid E w cs as s =
     (case cs of
        [] \<Rightarrow> if as = [] then Some s else None
      | x # _ \<Rightarrow> (case tls_deliver E x s of None \<Rightarrow> None | Some s' \<Rightarrow> tls_drive valid E w (fst x) as s'))"

definition tls_can_read ::
    "(raw_fd \<Rightarrow> bool) \<Rightarrow> 'c engine \<Rightarrow> nat \<Rightarrow> (int + byte list) \<Rightarrow> sys_answer list \<Rightarrow> 'c tls_link \<Rightarrow> 'c tls_link option" where
  "tls_can_read valid E w rd as s =
     (case on_file_can_read (Inl EAGAIN) rd (tk_sock s) of
        (cs, k) \<Rightarrow> tls_resume valid E w cs as (s\<lparr>tk_sock := k\<rparr>))"

definition tls_can_write ::
    "(raw_fd \<Rightarrow> bool) \<Rightarrow> 'c engine \<Rightarrow> nat \<Rightarrow> (int + nat) \<Rightarrow> sys_answer list \<Rightarrow> 'c tls_link \<Rightarrow> 'c tls_link option" where
  "tls_can_write valid E w wr as s =
     (case sk_pending_write (tk_sock s) of
        None \<Rightarrow> if as = [] then Some s else None
      | Some (WriteOp buf i) \<Rightarrow>
          if (case wr of Inl _ \<Rightarrow> True | Inr n \<Rightarrow> n \<le> length buf)
          then (case on_file_can_write 0 wr (tk_sock s) of
                  (cs, k) \<Rightarrow> tls_resume valid E w cs as
                    (s\<lparr>tk_sock := k,
                       tk_wire := tk_wire s @ (case wr of Inl _ \<Rightarrow> [] | Inr n \<Rightarrow> take n buf)\<rparr>))
          else None)"

text \<open>
  A readiness event goes through the pump, which calls the socket only when its descriptor has a
  watch in that direction; an error or hang-up event calls the same handlers.
\<close>

definition tls_dispatch :: "32 word \<Rightarrow> 'c tls_link \<Rightarrow> fd_callback list \<times> 'c tls_link" where
  "tls_dispatch flags s =
     (case dispatch_event (\<lambda>w. True) (sk_fd (tk_sock s)) flags (tk_pump s) of (cbs, p) \<Rightarrow> (cbs, s\<lparr>tk_pump := p\<rparr>))"

fun tls_link_step :: "(raw_fd \<Rightarrow> bool) \<Rightarrow> 'c engine \<Rightarrow> nat \<Rightarrow> tls_label \<Rightarrow> 'c tls_link \<Rightarrow> 'c tls_link option" where
  "tls_link_step valid E w (TlsCall f as) s =
     (let i = length (tk_ops s); r = tls_begin E f (tk_conn s)
      in tls_drive valid E w i as (tls_settle i r (s\<lparr>tk_ops := tk_ops s @ [fst r]\<rparr>)))"
| "tls_link_step valid E w (Readable rd as) s =
     (case tls_dispatch EPOLLIN s of
        ([], s') \<Rightarrow> if as = [] then Some s' else None
      | (_ # _, s') \<Rightarrow> tls_can_read valid E w rd as s')"
| "tls_link_step valid E w (Writable wr as) s =
     (case tls_dispatch EPOLLOUT s of
        ([], s') \<Rightarrow> if as = [] then Some s' else None
      | (_ # _, s') \<Rightarrow> tls_can_write valid E w wr as s')"

section \<open>Who holds the slots\<close>

definition held :: "nat \<Rightarrow> 'c tls_link \<Rightarrow> bool" where
  "held j s \<longleftrightarrow> slot_cb ReadSlot (tk_sock s) = Some j \<or> slot_cb WriteSlot (tk_sock s) = Some j"

fun fed_cont :: "tls_cont \<Rightarrow> bool" where
  "fed_cont HandshakeFed \<longleftrightarrow> True"
| "fed_cont (ReadFed len) \<longleftrightarrow> True"
| "fed_cont _ \<longleftrightarrow> False"

fun tls_pc_ok :: "tls_pc \<Rightarrow> bool" where
  "tls_pc_ok (Feeding k) \<longleftrightarrow> fed_cont k"
| "tls_pc_ok _ \<longleftrightarrow> True"

text \<open>A slot holds the request of an operation that waits for exactly that request.\<close>

fun read_slot_ok :: "tls_pc list \<Rightarrow> read_op option \<Rightarrow> bool" where
  "read_slot_ok ops None \<longleftrightarrow> True"
| "read_slot_ok ops (Some (ReadIfReady i)) \<longleftrightarrow> False"
| "read_slot_ok ops (Some (ReadLen len i)) \<longleftrightarrow> i < length ops \<and> (\<exists>k. ops ! i = Feeding k)"

fun write_slot_ok :: "tls_pc list \<Rightarrow> write_op option \<Rightarrow> bool" where
  "write_slot_ok ops None \<longleftrightarrow> True"
| "write_slot_ok ops (Some (WriteOp buf i)) \<longleftrightarrow> i < length ops \<and> (\<exists>k. ops ! i = WritingAll buf k)"

definition slots_ok :: "'c tls_link \<Rightarrow> bool" where
  "slots_ok s \<longleftrightarrow>
     sk_pending_accept (tk_sock s) = None \<and> sk_pending_connect (tk_sock s) = None \<and>
     read_slot_ok (tk_ops s) (sk_pending_read (tk_sock s)) \<and>
     write_slot_ok (tk_ops s) (sk_pending_write (tk_sock s)) \<and> list_all tls_pc_ok (tk_ops s)"

lemma slot_ok_update:
  "read_slot_ok ops r \<Longrightarrow> map_option read_cb r \<noteq> Some i \<Longrightarrow> read_slot_ok (ops[i := pc]) r"
  "write_slot_ok ops o1 \<Longrightarrow> map_option write_cb o1 \<noteq> Some i \<Longrightarrow> write_slot_ok (ops[i := pc]) o1"
  by (cases "(ops, r)" rule: read_slot_ok.cases; simp; fail)
    (cases "(ops, o1)" rule: write_slot_ok.cases; simp)

lemma slot_ok_append:
  "read_slot_ok ops r \<Longrightarrow> read_slot_ok (ops @ [pc]) r \<and> map_option read_cb r \<noteq> Some (length ops)"
  "write_slot_ok ops o1 \<Longrightarrow> write_slot_ok (ops @ [pc]) o1 \<and> map_option write_cb o1 \<noteq> Some (length ops)"
  by (cases "(ops, r)" rule: read_slot_ok.cases; simp add: nth_append; fail)
    (cases "(ops, o1)" rule: write_slot_ok.cases; simp add: nth_append)

lemma list_all_update: "list_all P xs \<Longrightarrow> P x \<Longrightarrow> list_all P (xs[i := x])"
  by (induction xs arbitrary: i) (auto split: nat.split)

definition driving :: "nat \<Rightarrow> 'c tls_link \<Rightarrow> bool" where
  "driving i s \<longleftrightarrow> slots_ok s \<and> i < length (tk_ops s) \<and> \<not> held i s"

lemma tls_read_pc_ok [simp]: "tls_pc_ok (fst (tls_read E len c))" "fst (tls_read E len c) \<noteq> Finished TlsDisconnect"
  by (auto simp: tls_read_def split: sum.split prod.split)

lemma tls_flushed_pc_ok [simp]: "tls_pc_ok (fst (tls_flushed E k c))"
  by (cases k) simp_all

lemma flush_pending_pc_ok [simp]: "tls_pc_ok (fst (flush_pending E k c))"
  by (auto simp: flush_pending_def split: prod.split)

lemma flush_pending_no_disconnect:
  "k \<noteq> DisconnectFlushed \<Longrightarrow> fst (flush_pending E k c) \<noteq> Finished TlsDisconnect"
  by (cases k) (auto simp: flush_pending_def split: prod.split)

lemma feed_answer_pc_ok [simp]: "tls_pc_ok (fst (feed_answer E k r c))"
  by (cases k) (auto simp: feed_answer_def drive_handshake_def split: sum.split prod.split)

lemma feed_answer_no_disconnect:
  "fed_cont k \<Longrightarrow> fst (feed_answer E k r c) \<noteq> Finished TlsDisconnect"
  by (cases k)
    (auto simp: feed_answer_def drive_handshake_def flush_pending_no_disconnect split: sum.split prod.split)

lemma write_all_answer_pc_ok [simp]: "tls_pc_ok (fst (write_all_answer E buf k r c))"
  by (auto simp: write_all_answer_def split: sum.split)

lemma tls_begin_pc_ok [simp]: "tls_pc_ok (fst (tls_begin E f c))"
  by (cases f) (auto simp: drive_handshake_def tls_write_def tls_disconnect_def split: sum.split prod.split)

lemma sock_close_slots [simp]:
  "sk_pending_read (fst (snd (sock_close k p))) = None" "sk_pending_write (fst (snd (sock_close k p))) = None"
  "sk_pending_connect (fst (snd (sock_close k p))) = None" "sk_pending_accept (fst (snd (sock_close k p))) = None"
  by (simp_all add: sock_close_def split: prod.split)

lemma tls_settle_fields [simp]:
  "tk_ops (tls_settle i r s) = (tk_ops s)[i := fst r]" "tk_conn (tls_settle i r s) = snd r"
  "tk_wire (tls_settle i r s) = tk_wire s"
  by (simp_all add: tls_settle_def tcp_client_disconnect_def tcp_close_def Let_def split: prod.split)

lemma tls_settle_sock:
  "fst r \<noteq> Finished TlsDisconnect \<Longrightarrow> tk_sock (tls_settle i r s) = tk_sock s"
  "fst r = Finished TlsDisconnect \<Longrightarrow>
     tk_sock (tls_settle i r s) = fst (snd (sock_close (tk_sock s) (tk_pump s)))"
  by (simp_all add: tls_settle_def tcp_client_disconnect_def tcp_close_def Let_def split: prod.split)

lemma tls_settle_driving:
  assumes "driving i s" "tls_pc_ok (fst r)"
  shows "driving i (tls_settle i r s)" and "held j (tls_settle i r s) \<Longrightarrow> held j s"
  using assms
  by (cases "fst r = Finished TlsDisconnect";
      simp add: driving_def slots_ok_def held_def tls_settle_sock slot_ok_update list_all_update)+

lemma tls_deliver_cases:
  assumes "tls_deliver E (i, out) s = Some s'"
  obtains (wrote) buf k r where "out = Count r" "tk_ops s ! i = WritingAll buf k"
      "s' = tls_settle i (write_all_answer E buf k r (tk_conn s)) s"
    | (got) k r where "out = Bytes r" "tk_ops s ! i = Feeding k"
      "s' = tls_settle i (feed_answer E k r (tk_conn s)) s"
  using assms by (cases out) (auto split: tls_pc.splits)

lemma tls_deliver_driving:
  assumes "tls_deliver E (i, out) s = Some s'" "driving i s"
  shows "driving i s'" and "held j s' \<Longrightarrow> held j s" and "length (tk_ops s') = length (tk_ops s)"
    and "j \<noteq> i \<Longrightarrow> tk_ops s' ! j = tk_ops s ! j"
proof -
  obtain r where "s' = tls_settle i r s" "tls_pc_ok (fst r)"
    using assms(1)
    by (cases rule: tls_deliver_cases) (auto intro: that [OF _ write_all_answer_pc_ok] that [OF _ feed_answer_pc_ok])
  with tls_settle_driving [OF assms(2)]
  show "driving i s'" and "held j s' \<Longrightarrow> held j s" and "length (tk_ops s') = length (tk_ops s)"
    and "j \<noteq> i \<Longrightarrow> tk_ops s' ! j = tk_ops s ! j"
    by auto
qed

definition slots_of :: "sock \<Rightarrow> read_op option \<times> write_op option" where
  "slots_of k = (sk_pending_read k, sk_pending_write k)"

definition same_sides :: "sock \<Rightarrow> sock \<Rightarrow> bool" where
  "same_sides k k' \<longleftrightarrow>
     sk_pending_connect k' = sk_pending_connect k \<and> sk_pending_accept k' = sk_pending_accept k"

text \<open>What one transport request can do.\<close>

lemma tls_issue_cases:
  assumes "tls_issue valid w i a s = Some (cs, s')"
  obtains (wrote) buf k n where "tk_ops s ! i = WritingAll buf k" "a = SysWrite (Inr n)" "n \<le> length buf"
      "cs = [(i, Count (Inr n))]" "tk_wire s' = tk_wire s @ take n buf" "slots_of (tk_sock s') = slots_of (tk_sock s)"
    | (write_failed) buf k e where "tk_ops s ! i = WritingAll buf k" "a = SysWrite (Inl e)" "e \<noteq> EAGAIN"
      "cs = [(i, Count (Inl (Os e)))]" "tk_wire s' = tk_wire s" "slots_of (tk_sock s') = slots_of (tk_sock s)"
    | (write_parked) buf k where "tk_ops s ! i = WritingAll buf k" "a = SysWrite (Inl EAGAIN)" "cs = []"
      "tk_wire s' = tk_wire s" "slots_of (tk_sock s') = (sk_pending_read (tk_sock s), Some (WriteOp buf i))"
    | (got) k r b where "tk_ops s ! i = Feeding k" "a = SysRead b" "cs = [(i, Bytes r)]"
      "tk_wire s' = tk_wire s" "slots_of (tk_sock s') = slots_of (tk_sock s)"
    | (read_parked) k where "tk_ops s ! i = Feeding k" "a = SysRead (Inl EAGAIN)" "cs = []"
      "tk_wire s' = tk_wire s" "slots_of (tk_sock s') = (Some (ReadLen READ_CHUNK i), sk_pending_write (tk_sock s))"
proof (cases "tk_ops s ! i")
  case (WritingAll buf k)
  then obtain b where "a = SysWrite b" using assms by (cases a) (auto simp: tls_issue_def)
  then show ?thesis
    using assms WritingAll wrote write_failed write_parked
    by (cases b)
      (auto simp: tls_issue_def tcp_client_write_def tcp_sock_write_def sock_write_def slots_of_def is_would_block_def Let_def split: if_splits)
next
  case (Feeding k)
  then obtain b where "a = SysRead b" using assms by (cases a) (auto simp: tls_issue_def)
  then show ?thesis
    using assms Feeding got read_parked
    by (cases b)
      (auto simp: tls_issue_def tcp_client_read_def tcp_sock_read_def sock_read_def slots_of_def is_would_block_def Let_def split: if_splits)
qed (use assms in \<open>simp add: tls_issue_def\<close>)

lemma tls_issue_frame:
  assumes "tls_issue valid w i a s = Some (cs, s')"
  shows "tk_ops s' = tk_ops s" "tk_conn s' = tk_conn s" "same_sides (tk_sock s) (tk_sock s')"
  using assms
  by (cases "tk_ops s ! i"; cases a;
      fastforce simp: tls_issue_def tcp_client_write_def tcp_sock_write_def sock_write_def tcp_client_read_def tcp_sock_read_def sock_read_def same_sides_def Let_def split: if_splits sum.splits)+

lemma slots_ok_cong:
  "same_sides (tk_sock s) (tk_sock s') \<Longrightarrow> slots_of (tk_sock s') = slots_of (tk_sock s) \<Longrightarrow>
     tk_ops s' = tk_ops s \<Longrightarrow> slots_ok s' \<longleftrightarrow> slots_ok s"
  by (simp add: slots_ok_def same_sides_def slots_of_def)

lemma held_cong: "slots_of (tk_sock s') = slots_of (tk_sock s) \<Longrightarrow> held j s' \<longleftrightarrow> held j s"
  by (simp add: held_def slots_of_def)

lemma tls_issue_parked:
  assumes "driving i s" "tls_issue valid w i a s = Some ([], s')"
  shows "slots_ok s'" and "held j s' \<Longrightarrow> held j s \<or> j = i"
  using assms(2) assms(1) tls_issue_frame [OF assms(2)]
  by (cases rule: tls_issue_cases;
      auto simp: driving_def slots_ok_def held_def slots_of_def same_sides_def)+

lemma tls_issue_called:
  assumes "driving i s" "tls_issue valid w i a s = Some (x # xs, s')"
  shows "fst x = i" and "driving i s'" and "held j s' \<longleftrightarrow> held j s"
proof -
  note frame = tls_issue_frame [OF assms(2)]
  have "fst x = i \<and> slots_of (tk_sock s') = slots_of (tk_sock s)"
    using assms(2) by (cases rule: tls_issue_cases) auto
  then show "fst x = i" and "driving i s'" and "held j s' \<longleftrightarrow> held j s"
    using assms(1) frame slots_ok_cong [of s s'] held_cong [of s' s] by (simp_all add: driving_def)
qed

lemma tls_drive_slots:
  assumes "tls_drive valid E w i as s = Some t" "driving i s"
  shows "slots_ok t \<and> length (tk_ops t) = length (tk_ops s) \<and>
    (\<forall>j. j \<noteq> i \<longrightarrow> tk_ops t ! j = tk_ops s ! j \<and> (held j t \<longrightarrow> held j s))"
  using assms
proof (induction as arbitrary: s)
  case Nil
  then show ?case by (auto simp: driving_def split: tls_pc.splits)
next
  case (Cons a as)
  then obtain cs s1 where req: "tls_issue valid w i a s = Some (cs, s1)"
    by (auto split: option.splits)
  note frame = tls_issue_frame [OF req]
  show ?case
  proof (cases cs)
    case Nil
    then show ?thesis
      using Cons.prems req frame tls_issue_parked [OF Cons.prems(2), of valid w a s1] by (auto split: if_splits)
  next
    case (Cons x xs)
    note called = tls_issue_called [OF Cons.prems(2) req [unfolded Cons]]
    obtain s2 where s2: "tls_deliver E x s1 = Some s2" "tls_drive valid E w i as s2 = Some t"
      using Cons.prems(1) req Cons by (auto split: option.splits)
    have "tls_deliver E (i, snd x) s1 = Some s2" using s2(1) called(1) by (cases x) simp
    from tls_deliver_driving [OF this called(2)] show ?thesis
      using Cons.IH [OF s2(2)] frame(1) called(3) by auto
  qed
qed

text \<open>Each step runs the closures of one operation: a new one, or the one a slot gives up.\<close>

lemma tls_call_driving:
  assumes "slots_ok s"
  shows "driving (length (tk_ops s)) (tls_settle (length (tk_ops s)) (tls_begin E f c)
           (s\<lparr>tk_ops := tk_ops s @ [fst (tls_begin E f c)]\<rparr>))"
    and "held j (tls_settle (length (tk_ops s)) (tls_begin E f c)
           (s\<lparr>tk_ops := tk_ops s @ [fst (tls_begin E f c)]\<rparr>)) \<Longrightarrow> held j s"
proof -
  have d: "driving (length (tk_ops s)) (s\<lparr>tk_ops := tk_ops s @ [fst (tls_begin E f c)]\<rparr>)"
    using assms slot_ok_append(1) [of "tk_ops s" "sk_pending_read (tk_sock s)"]
      slot_ok_append(2) [of "tk_ops s" "sk_pending_write (tk_sock s)"]
    by (auto simp: driving_def slots_ok_def held_def)
  show "driving (length (tk_ops s)) (tls_settle (length (tk_ops s)) (tls_begin E f c)
           (s\<lparr>tk_ops := tk_ops s @ [fst (tls_begin E f c)]\<rparr>))"
    using tls_settle_driving(1) [OF d] by simp
  show "held j (tls_settle (length (tk_ops s)) (tls_begin E f c)
           (s\<lparr>tk_ops := tk_ops s @ [fst (tls_begin E f c)]\<rparr>)) \<Longrightarrow> held j s"
    using tls_settle_driving(2) [OF d, of "tls_begin E f c" j] by (simp add: held_def)
qed

lemma readable_cases:
  assumes "slots_ok s"
  obtains (idle) "on_file_can_read acc rd (tk_sock s) = ([], tk_sock s)" "sk_pending_read (tk_sock s) = None"
    | (got) len i r where "sk_pending_read (tk_sock s) = Some (ReadLen len i)" "\<not> held i (s\<lparr>tk_sock := (tk_sock s)\<lparr>sk_pending_read := None\<rparr>\<rparr>)"
      "on_file_can_read acc rd (tk_sock s) = ([(i, Bytes r)], (tk_sock s)\<lparr>sk_pending_read := None\<rparr>)"
      "driving i (s\<lparr>tk_sock := (tk_sock s)\<lparr>sk_pending_read := None\<rparr>\<rparr>)"
proof (cases "sk_pending_read (tk_sock s)")
  case None
  then show ?thesis using assms idle by (simp add: on_file_can_read_def slots_ok_def)
next
  case (Some x)
  then obtain len i where x: "x = ReadLen len i" using assms by (cases x) (auto simp: slots_ok_def)
  have "slot_cb WriteSlot (tk_sock s) \<noteq> Some i"
    using assms Some x
    by (cases "(tk_ops s, sk_pending_write (tk_sock s))" rule: write_slot_ok.cases) (auto simp: slots_ok_def)
  then show ?thesis
    using assms Some x got [of len i] by (simp add: on_file_can_read_def slots_ok_def driving_def held_def)
qed

lemma writable_driving:
  assumes "slots_ok s" "sk_pending_write (tk_sock s) = Some (WriteOp buf i)"
  shows "on_file_can_write e wr (tk_sock s) = ([(i, Count (os_result wr))], (tk_sock s)\<lparr>sk_pending_write := None\<rparr>)"
    and "driving i (s\<lparr>tk_sock := (tk_sock s)\<lparr>sk_pending_write := None\<rparr>, tk_wire := v\<rparr>)"
proof -
  have "slot_cb ReadSlot (tk_sock s) \<noteq> Some i"
    using assms
    by (cases "(tk_ops s, sk_pending_read (tk_sock s))" rule: read_slot_ok.cases) (auto simp: slots_ok_def)
  then show "on_file_can_write e wr (tk_sock s) = ([(i, Count (os_result wr))], (tk_sock s)\<lparr>sk_pending_write := None\<rparr>)"
    and "driving i (s\<lparr>tk_sock := (tk_sock s)\<lparr>sk_pending_write := None\<rparr>, tk_wire := v\<rparr>)"
    using assms by (auto simp: on_file_can_write_def slots_ok_def driving_def held_def)
qed

lemma tls_resume_slots:
  assumes "tls_resume valid E w [(i, out)] as s = Some t" "driving i s"
  shows "slots_ok t \<and> length (tk_ops t) = length (tk_ops s) \<and>
    (\<forall>j. j \<noteq> i \<longrightarrow> tk_ops t ! j = tk_ops s ! j \<and> (held j t \<longrightarrow> held j s))"
proof -
  obtain s1 where s1: "tls_deliver E (i, out) s = Some s1" "tls_drive valid E w i as s1 = Some t"
    using assms(1) by (auto simp: tls_resume_def split: option.splits)
  show ?thesis
    using tls_drive_slots [OF s1(2)] tls_deliver_driving [OF s1(1) assms(2)] by auto
qed

fun new_ops :: "tls_label \<Rightarrow> nat" where
  "new_ops (TlsCall f as) = 1"
| "new_ops _ = 0"

definition runs_only :: "nat \<Rightarrow> 'c tls_link \<Rightarrow> 'c tls_link \<Rightarrow> bool" where
  "runs_only i s t \<longleftrightarrow>
     (\<forall>j<length (tk_ops s). j \<noteq> i \<longrightarrow> tk_ops t ! j = tk_ops s ! j \<and> (held j t \<longrightarrow> held j s))"

definition slots_kept :: "nat \<Rightarrow> 'c tls_link \<Rightarrow> 'c tls_link \<Rightarrow> bool" where
  "slots_kept n s t \<longleftrightarrow>
     slots_ok t \<and> length (tk_ops t) = length (tk_ops s) + n \<and>
     (\<exists>i. (held i s \<and> n = 0 \<or> i = length (tk_ops s)) \<and> runs_only i s t)"

lemma pump_update_slots [simp]:
  "slots_ok (s\<lparr>tk_pump := p\<rparr>) \<longleftrightarrow> slots_ok s" "held j (s\<lparr>tk_pump := p\<rparr>) \<longleftrightarrow> held j s"
  "runs_only i (s\<lparr>tk_pump := p\<rparr>) t \<longleftrightarrow> runs_only i s t" "slots_kept n (s\<lparr>tk_pump := p\<rparr>) t \<longleftrightarrow> slots_kept n s t"
  by (simp_all add: slots_ok_def held_def runs_only_def slots_kept_def)

lemma slots_kept_idle: "slots_ok s \<Longrightarrow> slots_kept 0 s (s\<lparr>tk_pump := p\<rparr>)"
  by (auto simp: slots_kept_def runs_only_def)

lemma tls_can_read_slots:
  assumes "slots_ok s" "tls_can_read valid E w rd as s = Some t"
  shows "slots_kept 0 s t"
  using assms(1)
proof (cases rule: readable_cases [where acc = "Inl EAGAIN" and rd = rd])
  case idle
  then show ?thesis
    using assms by (auto simp: tls_can_read_def tls_resume_def slots_kept_def runs_only_def split: if_splits)
next
  case (got len i r)
  have "tls_resume valid E w [(i, Bytes r)] as (s\<lparr>tk_sock := (tk_sock s)\<lparr>sk_pending_read := None\<rparr>\<rparr>) = Some t"
    using assms(2) got(3) by (simp add: tls_can_read_def)
  from tls_resume_slots [OF this got(4)] show ?thesis
    using got(1) unfolding slots_kept_def by (intro conjI exI [of _ i]) (auto simp: held_def runs_only_def)
qed

lemma tls_can_write_slots:
  assumes "slots_ok s" "tls_can_write valid E w wr as s = Some t"
  shows "slots_kept 0 s t"
proof (cases "sk_pending_write (tk_sock s)")
  case None
  then show ?thesis using assms by (auto simp: tls_can_write_def slots_kept_def runs_only_def split: if_splits)
next
  case (Some x)
  obtain buf i where x: "x = WriteOp buf i" by (cases x)
  note wd = writable_driving [OF assms(1) Some [unfolded x]]
  obtain v where "tls_resume valid E w [(i, Count (os_result wr))] as
      (s\<lparr>tk_sock := (tk_sock s)\<lparr>sk_pending_write := None\<rparr>, tk_wire := v\<rparr>) = Some t"
    using assms(2) Some x wd(1) by (auto simp: tls_can_write_def split: if_splits)
  from tls_resume_slots [OF this wd(2)] show ?thesis
    using Some x unfolding slots_kept_def by (intro conjI exI [of _ i]) (auto simp: held_def runs_only_def)
qed

lemma tls_link_step_kept:
  assumes "slots_ok s" "tls_link_step valid E w l s = Some t"
  shows "slots_kept (new_ops l) s t"
proof (cases l)
  case (TlsCall f as)
  then show ?thesis
    using assms(2) tls_drive_slots [OF _ tls_call_driving(1) [OF assms(1), of E f "tk_conn s"], of valid E w as t]
      tls_call_driving(2) [OF assms(1), of _ E f "tk_conn s"]
    by (auto simp: Let_def nth_append runs_only_def slots_kept_def intro!: exI [of _ "length (tk_ops s)"])
next
  case (Readable rd as)
  then show ?thesis
    using assms tls_can_read_slots [of "s\<lparr>tk_pump := _\<rparr>" valid E w rd as t] slots_kept_idle [OF assms(1)]
    by (auto simp: tls_dispatch_def split: prod.splits list.splits if_splits)
next
  case (Writable wr as)
  then show ?thesis
    using assms tls_can_write_slots [of "s\<lparr>tk_pump := _\<rparr>" valid E w wr as t] slots_kept_idle [OF assms(1)]
    by (auto simp: tls_dispatch_def split: prod.splits list.splits if_splits)
qed

lemma tls_link_step_slots:
  assumes "slots_ok s" "tls_link_step valid E w l s = Some t"
  shows "slots_ok t" and "length (tk_ops t) = length (tk_ops s) + new_ops l"
    and "\<exists>i. (held i s \<and> new_ops l = 0 \<or> i = length (tk_ops s)) \<and> runs_only i s t"
  using tls_link_step_kept [OF assms] by (simp_all add: slots_kept_def)

text \<open>An operation in neither slot is never resumed.\<close>

lemma unheld_step:
  assumes "slots_ok s" "tls_link_step valid E w l s = Some t" "j < length (tk_ops s)" "\<not> held j s"
  shows "tk_ops t ! j = tk_ops s ! j \<and> \<not> held j t"
  using tls_link_step_slots(3) [OF assms(1,2)] assms(3,4) by (auto simp: runs_only_def)

lemma unheld_run:
  assumes "run (tls_link_step valid E w) ls s = Some t" "slots_ok s" "j < length (tk_ops s)" "\<not> held j s"
  shows "tk_ops t ! j = tk_ops s ! j"
  using assms
proof (induction ls arbitrary: s)
  case (Cons l ls)
  then obtain u where u: "tls_link_step valid E w l s = Some u" "run (tls_link_step valid E w) ls u = Some t"
    by (auto split: option.splits)
  show ?case
    using Cons.IH [OF u(2)] tls_link_step_slots [OF Cons.prems(2) u(1)] unheld_step [OF Cons.prems(2) u(1)]
      Cons.prems(3,4) by simp
qed simp

lemma slots_ok_run:
  "slots_ok s \<Longrightarrow> run (tls_link_step valid E w) ls s = Some t \<Longrightarrow> slots_ok t"
  by (induction ls arbitrary: s) (auto split: option.splits intro: tls_link_step_slots(1))

text \<open>The slots and the operations that wait in them.\<close>

lemma write_slot_waits:
  "slots_ok s \<Longrightarrow> sk_pending_write (tk_sock s) = Some (WriteOp buf i) \<Longrightarrow>
     i < length (tk_ops s) \<and> (\<exists>k. tk_ops s ! i = WritingAll buf k)"
  by (simp add: slots_ok_def)

lemma read_slot_waits:
  "slots_ok s \<Longrightarrow> slot_cb ReadSlot (tk_sock s) = Some i \<Longrightarrow>
     i < length (tk_ops s) \<and> (\<exists>k. tk_ops s ! i = Feeding k)"
  by (cases "(tk_ops s, sk_pending_read (tk_sock s))" rule: read_slot_ok.cases) (auto simp: slots_ok_def)

section \<open>One transport write at a time\<close>

fun write_bytes :: "write_op option \<Rightarrow> byte list" where
  "write_bytes None = []"
| "write_bytes (Some (WriteOp buf i)) = buf"

abbreviation slot_bytes :: "'c tls_link \<Rightarrow> byte list" where
  "slot_bytes s \<equiv> write_bytes (sk_pending_write (tk_sock s))"

fun is_sys_write :: "sys_answer \<Rightarrow> bool" where
  "is_sys_write (SysWrite a) \<longleftrightarrow> True"
| "is_sys_write (SysRead a) \<longleftrightarrow> False"

text \<open>The kernel's answers other than an error of \<open>write\<close>.\<close>

fun sys_write_ok :: "sys_answer \<Rightarrow> bool" where
  "sys_write_ok (SysWrite (Inl e)) \<longleftrightarrow> e = EAGAIN"
| "sys_write_ok _ \<longleftrightarrow> True"

text \<open>
  The discipline: no operation writes to the transport, and none disconnects it, while the write of
  another one is parked; and no \<open>write\<close> fails.
\<close>

fun label_ok :: "'c tls_link \<Rightarrow> tls_label \<Rightarrow> bool" where
  "label_ok s (TlsCall f as) \<longleftrightarrow> list_all sys_write_ok as \<and>
     (sk_pending_write (tk_sock s) = None \<or> \<not> list_ex is_sys_write as \<and> f \<noteq> CallDisconnect)"
| "label_ok s (Readable rd as) \<longleftrightarrow> list_all sys_write_ok as \<and>
     (sk_pending_write (tk_sock s) = None \<or> \<not> list_ex is_sys_write as)"
| "label_ok s (Writable wr as) \<longleftrightarrow> list_all sys_write_ok as \<and> \<not> isl wr"

fun disciplined :: "(raw_fd \<Rightarrow> bool) \<Rightarrow> 'c engine \<Rightarrow> nat \<Rightarrow> tls_label list \<Rightarrow> 'c tls_link \<Rightarrow> bool" where
  "disciplined valid E w [] s \<longleftrightarrow> True"
| "disciplined valid E w (l # ls) s \<longleftrightarrow>
     (case tls_link_step valid E w l s of None \<Rightarrow> True | Some t \<Rightarrow> label_ok s l \<and> disciplined valid E w ls t)"

definition others_parked :: "(nat \<Rightarrow> bool) \<Rightarrow> 'c tls_link \<Rightarrow> bool" where
  "others_parked D s \<longleftrightarrow>
     (\<forall>j<length (tk_ops s). \<forall>buf k. \<not> D j \<longrightarrow> tk_ops s ! j = WritingAll buf k \<longrightarrow>
        sk_pending_write (tk_sock s) = Some (WriteOp buf j))"

text \<open>What the kernel took and what is parked is what the engine handed out.\<close>

definition link_ok :: "('c \<Rightarrow> byte list) \<Rightarrow> 'c tls_link \<Rightarrow> bool" where
  "link_ok sent s \<longleftrightarrow>
     slots_ok s \<and> sent (tk_conn s) = tk_wire s @ slot_bytes s \<and> others_parked (\<lambda>j. False) s"

definition link_driving :: "('c \<Rightarrow> byte list) \<Rightarrow> nat \<Rightarrow> 'c tls_link \<Rightarrow> bool" where
  "link_driving sent i s \<longleftrightarrow>
     driving i s \<and> sent (tk_conn s) = tk_wire s @ slot_bytes s @ in_flight (tk_ops s ! i) \<and>
     others_parked (\<lambda>j. j = i) s"

lemma tls_begin_exact:
  assumes "engine_ok E sent queued" "sent c = wire"
  shows "wire_exact sent wire (tls_begin E f c)"
proof (cases f)
  case (CallWrite buf)
  obtain r c' where r: "e_writer_write_all E buf c = (r, c')" by (rule prod.exhaust)
  then have "sent c' = wire" using assms engine_grows(4) grows_sent by metis
  then show ?thesis
    using CallWrite r flush_pending_exact [OF assms(1), of c' wire]
    by (auto simp: tls_write_def wire_exact_def split: sum.split)
next
  case CallDisconnect
  have "sent (e_send_close_notify E c) = wire"
    using assms engine_grows(5) grows_sent by metis
  then show ?thesis
    using CallDisconnect flush_pending_exact [OF assms(1)] by (simp add: tls_disconnect_def)
qed (use assms flush_pending_exact tls_read_exact in \<open>simp_all add: drive_handshake_def\<close>)

lemma tls_begin_no_disconnect:
  "f \<noteq> CallDisconnect \<Longrightarrow> fst (tls_begin E f c) \<noteq> Finished TlsDisconnect"
  by (cases f)
    (auto simp: drive_handshake_def tls_write_def flush_pending_no_disconnect split: sum.split prod.split)

lemma tls_settle_write_slot:
  assumes "fst r = Finished TlsDisconnect \<Longrightarrow> sk_pending_write (tk_sock s) = None"
  shows "sk_pending_write (tk_sock (tls_settle i r s)) = sk_pending_write (tk_sock s)"
  using assms by (cases "fst r = Finished TlsDisconnect") (simp_all add: tls_settle_sock)

lemma tls_settle_link_driving:
  assumes "driving i s" "tls_pc_ok (fst r)" "wire_exact sent (tk_wire s @ slot_bytes s) r"
    and "others_parked (\<lambda>j. j = i) s"
    and "fst r = Finished TlsDisconnect \<Longrightarrow> sk_pending_write (tk_sock s) = None"
  shows "link_driving sent i (tls_settle i r s)"
  using assms(1-4) tls_settle_driving(1) [OF assms(1,2)] tls_settle_write_slot [where i = i, OF assms(5)]
  by (auto simp: link_driving_def wire_exact_def others_parked_def driving_def)

lemma tls_deliver_bytes_link:
  assumes "engine_ok E sent queued" "tls_deliver E (i, Bytes r) s = Some s'"
    and "driving i s" "sent (tk_conn s) = tk_wire s @ slot_bytes s" "others_parked (\<lambda>j. j = i) s"
  shows "link_driving sent i s'" and "sk_pending_write (tk_sock s') = sk_pending_write (tk_sock s)"
proof -
  obtain k where k: "tk_ops s ! i = Feeding k" "s' = tls_settle i (feed_answer E k r (tk_conn s)) s"
    using assms(2) by (auto split: tls_pc.splits)
  then have nd: "fst (feed_answer E k r (tk_conn s)) \<noteq> Finished TlsDisconnect"
    using assms(3) by (intro feed_answer_no_disconnect) (auto simp: driving_def slots_ok_def list_all_length)
  show "link_driving sent i s'"
    unfolding k(2)
    by (rule tls_settle_link_driving [OF assms(3) feed_answer_pc_ok feed_answer_exact [OF assms(1,4)] assms(5)])
      (use nd in simp)
  show "sk_pending_write (tk_sock s') = sk_pending_write (tk_sock s)"
    unfolding k(2) by (rule tls_settle_write_slot) (use nd in simp)
qed

lemma tls_deliver_count_link:
  assumes "engine_ok E sent queued" "tls_deliver E (i, Count (Inr n)) s = Some s'"
    and "driving i s" "tk_ops s ! i = WritingAll buf k" "n \<le> length buf"
    and "sent (tk_conn s) = wire @ buf" "tk_wire s = wire @ take n buf"
    and "others_parked (\<lambda>j. j = i) s" "sk_pending_write (tk_sock s) = None"
  shows "link_driving sent i s'" and "sk_pending_write (tk_sock s') = None"
  using assms tls_settle_link_driving [OF assms(3) write_all_answer_pc_ok, of sent E buf k "Inr n" "tk_conn s"]
    write_all_answer_exact [OF assms(1,6,5)]
  by (auto simp: tls_settle_write_slot)

lemma others_parked_frame:
  "others_parked D s \<Longrightarrow> tk_ops s' = tk_ops s \<Longrightarrow>
     sk_pending_write (tk_sock s') = sk_pending_write (tk_sock s) \<Longrightarrow> others_parked D s'"
  by (simp add: others_parked_def)

lemma tls_issue_called_link:
  assumes ok: "engine_ok E sent queued" and "tls_issue valid w i a s = Some (x # xs, s1)"
    and "tls_deliver E x s1 = Some s2" "link_driving sent i s" "sys_write_ok a"
    and "sk_pending_write (tk_sock s) = None \<or> \<not> is_sys_write a"
  shows "link_driving sent i s2 \<and> sk_pending_write (tk_sock s2) = sk_pending_write (tk_sock s)"
proof -
  have d: "driving i s" using assms(4) by (simp add: link_driving_def)
  note frame = tls_issue_frame [OF assms(2)] and called = tls_issue_called [OF d assms(2)]
  have o1: "sk_pending_write (tk_sock s1) = sk_pending_write (tk_sock s) \<Longrightarrow> others_parked (\<lambda>j. j = i) s1"
    using assms(4) frame(1) others_parked_frame [of _ s s1] by (simp add: link_driving_def)
  show ?thesis
    using assms(2)
  proof (cases rule: tls_issue_cases)
    case (wrote buf k n)
    then show ?thesis
      using tls_deliver_count_link [OF ok _ called(2), of n s2 buf k "tk_wire s"] assms(3,4,6) frame o1
      by (simp add: link_driving_def slots_of_def)
  next
    case (got k r b)
    then show ?thesis
      using tls_deliver_bytes_link [OF ok _ called(2), of r s2] assms(3,4,6) frame o1
      by (simp add: link_driving_def slots_of_def)
  qed (use assms(5) in auto)
qed

lemma tls_issue_parked_link:
  assumes "tls_issue valid w i a s = Some ([], s1)" "link_driving sent i s"
    and "sk_pending_write (tk_sock s) = None \<or> \<not> is_sys_write a"
  shows "link_ok sent s1"
  using assms(1)
proof (cases rule: tls_issue_cases)
  case (write_parked buf k)
  then show ?thesis
    using assms tls_issue_frame [OF assms(1)] tls_issue_parked(1) [OF _ assms(1)]
    by (auto simp: link_driving_def link_ok_def slots_of_def others_parked_def)
next
  case (read_parked k)
  then show ?thesis
    using assms tls_issue_frame [OF assms(1)] tls_issue_parked(1) [OF _ assms(1)]
    by (auto simp: link_driving_def link_ok_def slots_of_def others_parked_def)
qed auto

lemma tls_drive_link:
  assumes ok: "engine_ok E sent queued" and "tls_drive valid E w i as s = Some t"
    and "link_driving sent i s" "list_all sys_write_ok as"
    and "sk_pending_write (tk_sock s) = None \<or> \<not> list_ex is_sys_write as"
  shows "link_ok sent t"
  using assms(2-)
proof (induction as arbitrary: s)
  case Nil
  then show ?case
    by (auto simp: link_driving_def link_ok_def driving_def others_parked_def split: tls_pc.splits)
next
  case (Cons a as)
  then obtain cs s1 where req: "tls_issue valid w i a s = Some (cs, s1)"
    by (auto split: option.splits)
  show ?case
  proof (cases cs)
    case Nil
    then show ?thesis
      using Cons.prems req tls_issue_parked_link [of valid w i a s s1 sent] by (auto split: if_splits)
  next
    case (Cons x xs)
    obtain s2 where s2: "tls_deliver E x s1 = Some s2" "tls_drive valid E w i as s2 = Some t"
      using Cons.prems(1) req Cons by (auto split: option.splits)
    show ?thesis
      using tls_issue_called_link [OF ok req [unfolded Cons] s2(1)] Cons.prems(2-) Cons.IH [OF s2(2)] by auto
  qed
qed

lemma tls_resume_link:
  assumes ok: "engine_ok E sent queued" and "tls_resume valid E w [x] as s = Some t"
    and "\<And>s'. tls_deliver E x s = Some s' \<Longrightarrow>
           link_driving sent (fst x) s' \<and> sk_pending_write (tk_sock s') = sk_pending_write (tk_sock s)"
    and "list_all sys_write_ok as" "sk_pending_write (tk_sock s) = None \<or> \<not> list_ex is_sys_write as"
  shows "link_ok sent t"
  using assms(2-5) tls_drive_link [OF ok, of valid w "fst x" as _ t]
  by (fastforce simp: tls_resume_def split: option.splits)

lemma tls_call_link:
  assumes ok: "engine_ok E sent queued" and "link_ok sent s"
    and "sk_pending_write (tk_sock s) = None \<or> f \<noteq> CallDisconnect"
  defines "r \<equiv> tls_begin E f (tk_conn s)" and "i \<equiv> length (tk_ops s)"
  shows "link_driving sent i (tls_settle i r (s\<lparr>tk_ops := tk_ops s @ [fst r]\<rparr>))"
    and "sk_pending_write (tk_sock (tls_settle i r (s\<lparr>tk_ops := tk_ops s @ [fst r]\<rparr>))) = sk_pending_write (tk_sock s)"
proof -
  have nd: "fst r = Finished TlsDisconnect \<Longrightarrow> sk_pending_write (tk_sock s) = None"
    using assms(3) tls_begin_no_disconnect [of f E "tk_conn s"] by (auto simp: r_def)
  then show "sk_pending_write (tk_sock (tls_settle i r (s\<lparr>tk_ops := tk_ops s @ [fst r]\<rparr>))) = sk_pending_write (tk_sock s)"
    by (subst tls_settle_write_slot) simp_all
  have "slots_ok s" using assms(2) by (simp add: link_ok_def)
  then have "driving i (tls_settle i r (s\<lparr>tk_ops := tk_ops s @ [fst r]\<rparr>))"
    unfolding i_def r_def by (rule tls_call_driving)
  moreover have "wire_exact sent (tk_wire s @ slot_bytes s) r"
    using tls_begin_exact [OF ok, of "tk_conn s"] assms(2) by (simp add: r_def link_ok_def)
  ultimately show "link_driving sent i (tls_settle i r (s\<lparr>tk_ops := tk_ops s @ [fst r]\<rparr>))"
    using assms(2) tls_settle_write_slot [of r "s\<lparr>tk_ops := tk_ops s @ [fst r]\<rparr>" i] nd
    by (auto simp: link_driving_def link_ok_def others_parked_def wire_exact_def i_def nth_append)
qed

lemma tls_can_read_link:
  assumes ok: "engine_ok E sent queued" and "link_ok sent s" "tls_can_read valid E w rd as s = Some t"
    and "list_all sys_write_ok as" "sk_pending_write (tk_sock s) = None \<or> \<not> list_ex is_sys_write as"
  shows "link_ok sent t"
proof -
  have so: "slots_ok s" using assms(2) by (simp add: link_ok_def)
  then show ?thesis
  proof (cases rule: readable_cases [where acc = "Inl EAGAIN" and rd = rd])
    case idle
    then show ?thesis using assms by (auto simp: tls_can_read_def tls_resume_def split: if_splits)
  next
    case (got len i r)
    let ?s = "s\<lparr>tk_sock := (tk_sock s)\<lparr>sk_pending_read := None\<rparr>\<rparr>"
    have "others_parked (\<lambda>j. j = i) ?s"
      using assms(2) by (simp add: link_ok_def others_parked_def)
    then show ?thesis
      using tls_resume_link [OF ok, of valid w "(i, Bytes r)" as ?s t] got assms
        tls_deliver_bytes_link [OF ok _ got(4), of r]
      by (auto simp: link_ok_def tls_can_read_def)
  qed
qed

lemma tls_can_write_link:
  assumes ok: "engine_ok E sent queued" and "link_ok sent s" "tls_can_write valid E w wr as s = Some t"
    and "list_all sys_write_ok as" "\<not> isl wr"
  shows "link_ok sent t"
proof (cases "sk_pending_write (tk_sock s)")
  case None
  then show ?thesis using assms by (auto simp: tls_can_write_def split: if_splits)
next
  case (Some x)
  have so: "slots_ok s" using assms(2) by (simp add: link_ok_def)
  obtain buf i where x: "x = WriteOp buf i" by (cases x)
  note wd = writable_driving [OF so Some [unfolded x]]
  obtain n where n: "wr = Inr n" "n \<le> length buf"
    using assms(3,5) Some x by (cases wr) (auto simp: tls_can_write_def split: if_splits)
  obtain k where k: "tk_ops s ! i = WritingAll buf k"
    using so Some x by (auto simp: slots_ok_def)
  let ?s = "s\<lparr>tk_sock := (tk_sock s)\<lparr>sk_pending_write := None\<rparr>, tk_wire := tk_wire s @ take n buf\<rparr>"
  have oth: "others_parked (\<lambda>j. j = i) ?s"
    using assms(2) Some x by (auto simp: link_ok_def others_parked_def)
  have sent: "sent (tk_conn s) = tk_wire s @ buf"
    using assms(2) Some x by (simp add: link_ok_def)
  have "tls_resume valid E w [(i, Count (Inr n))] as ?s = Some t"
    using assms(3) Some x n wd(1) by (simp add: tls_can_write_def os_result_def)
  then show ?thesis
  proof (rule tls_resume_link [OF ok])
    show "link_driving sent (fst (i, Count (Inr n))) s' \<and>
        sk_pending_write (tk_sock s') = sk_pending_write (tk_sock ?s)"
      if "tls_deliver E (i, Count (Inr n)) ?s = Some s'" for s'
      using tls_deliver_count_link [OF ok that wd(2), of buf k "tk_wire s"] oth sent n(2) k by simp
  qed (use assms(4) in simp_all)
qed

lemma pump_update_link [simp]: "link_ok sent (s\<lparr>tk_pump := p\<rparr>) \<longleftrightarrow> link_ok sent s"
  by (simp add: link_ok_def others_parked_def)

lemma tls_link_step_ok:
  assumes ok: "engine_ok E sent queued" and "link_ok sent s" "label_ok s l" "tls_link_step valid E w l s = Some t"
  shows "link_ok sent t"
proof (cases l)
  case (TlsCall f as)
  then show ?thesis
    using tls_call_link [OF ok assms(2), of f] assms(3,4)
      tls_drive_link [OF ok, of valid w "length (tk_ops s)" as _ t]
    by (auto simp: Let_def)
next
  case (Readable rd as)
  then show ?thesis
    using assms(2-) tls_can_read_link [OF ok, of "s\<lparr>tk_pump := _\<rparr>" valid w rd as t]
    by (auto simp: tls_dispatch_def split: prod.splits list.splits if_splits)
next
  case (Writable wr as)
  then show ?thesis
    using assms(2-) tls_can_write_link [OF ok, of "s\<lparr>tk_pump := _\<rparr>" valid w wr as t]
    by (auto simp: tls_dispatch_def split: prod.splits list.splits if_splits)
qed

lemma disciplined_run_ok:
  assumes "engine_ok E sent queued" "link_ok sent s" "disciplined valid E w ls s"
    and "run (tls_link_step valid E w) ls s = Some t"
  shows "link_ok sent t"
  using assms(2-) by (induction ls arbitrary: s) (auto split: option.splits intro: tls_link_step_ok [OF assms(1)])

lemma slots_ok_new: "slots_ok (tls_link_new c fd p)"
  by (simp add: slots_ok_def tls_link_new_def sock_from_fd_def)

lemma link_ok_new: "sent c = [] \<Longrightarrow> link_ok sent (tls_link_new c fd p)"
  by (simp add: link_ok_def slots_ok_new) (simp add: tls_link_new_def sock_from_fd_def others_parked_def)

end
