(* ===== verification/Tls_Sharing.thy ===== *)
theory Tls_Sharing
  imports Tls_Over_Tcp
begin

text \<open>
  What sharing one TCP connection between the operations of a TLS socket does to the stream: it is
  exact as long as the transport writes do not overlap, which a client that makes one call at a
  time guarantees, and a write that reports success is then on the wire as a whole, whatever runs
  beside it; an overlapping one loses a callback and a record.
\<close>

text \<open>An operation that has reported.\<close>

fun over :: "tls_pc \<Rightarrow> bool" where
  "over (Finished out) \<longleftrightarrow> True"
| "over _ \<longleftrightarrow> False"

section \<open>The stream only grows\<close>

text \<open>What the engine has handed out and what it still has queued.\<close>

definition tls_stream :: "('c \<Rightarrow> byte list) \<Rightarrow> ('c \<Rightarrow> byte list) \<Rightarrow> 'c \<Rightarrow> byte list" where
  "tls_stream sent queued c = sent c @ queued c"

lemma grows_stream: "grows sent queued c c' \<Longrightarrow> prefix (tls_stream sent queued c) (tls_stream sent queued c')"
  by (auto simp: grows_def tls_stream_def)

lemma tls_read_stream:
  assumes "engine_ok E sent queued"
  shows "prefix (tls_stream sent queued c) (tls_stream sent queued (snd (tls_read E len c)))"
proof -
  obtain r c' where r: "e_reader_read E len c = (r, c')" by (rule prod.exhaust)
  then have "snd (tls_read E len c) = c'" by (auto simp: tls_read_def split: sum.split)
  then show ?thesis using grows_stream [OF engine_grows(3) [OF assms r]] by simp
qed

lemma flush_pending_stream:
  assumes "engine_ok E sent queued"
  shows "prefix (tls_stream sent queued c) (tls_stream sent queued (snd (flush_pending E k c)))"
proof -
  have flushed: "prefix (tls_stream sent queued c) (tls_stream sent queued (snd (tls_flushed E k c)))" for c
    using tls_read_stream [OF assms] by (cases k) simp_all
  obtain buf c' where w: "e_write_tls E c = (buf, c')" by (rule prod.exhaust)
  then have "tls_stream sent queued c' = tls_stream sent queued c"
    using engine_write_tls [OF assms w] by (simp add: tls_stream_def)
  then show ?thesis
    using w flushed [of c] flushed [of c'] by (auto simp: flush_pending_def)
qed

lemma tls_begin_stream:
  assumes "engine_ok E sent queued"
  shows "prefix (tls_stream sent queued c) (tls_stream sent queued (snd (tls_begin E f c)))"
proof (cases f)
  case (CallWrite buf)
  obtain r c' where r: "e_writer_write_all E buf c = (r, c')" by (rule prod.exhaust)
  then show ?thesis
    using CallWrite prefix_order.trans [OF grows_stream [OF engine_grows(4) [OF assms r]] flush_pending_stream [OF assms]]
      grows_stream [OF engine_grows(4) [OF assms r]]
    by (auto simp: tls_write_def split: sum.split)
next
  case CallDisconnect
  then show ?thesis
    using prefix_order.trans [OF grows_stream [OF engine_grows(5) [OF assms]] flush_pending_stream [OF assms]]
    by (simp add: tls_disconnect_def)
qed (use flush_pending_stream [OF assms] tls_read_stream [OF assms] in \<open>simp_all add: drive_handshake_def\<close>)

lemma feed_answer_stream:
  assumes "engine_ok E sent queued"
  shows "prefix (tls_stream sent queued c) (tls_stream sent queued (snd (feed_answer E k res c)))"
proof (cases res)
  case (Inr data)
  obtain r d c' where f: "feed_slice E data c = (r, d, c')" by (metis prod.exhaust)
  have fed: "prefix (tls_stream sent queued c') (tls_stream sent queued (snd (tls_fed E k c')))"
    using flush_pending_stream [OF assms] by (cases k) (simp_all add: drive_handshake_def)
  note g = grows_stream [OF feed_slice_grows [OF assms f]]
  show ?thesis
    using Inr f g prefix_order.trans [OF g fed] by (auto simp: feed_answer_def split: sum.split)
qed (simp add: feed_answer_def)

lemma write_all_answer_stream:
  assumes "engine_ok E sent queued"
  shows "prefix (tls_stream sent queued c) (tls_stream sent queued (snd (write_all_answer E buf k res c)))"
  using flush_pending_stream [OF assms] by (auto simp: write_all_answer_def split: sum.split)

text \<open>From one state of the link to a later one.\<close>

definition link_grows :: "('c \<Rightarrow> byte list) \<Rightarrow> ('c \<Rightarrow> byte list) \<Rightarrow> 'c tls_link \<Rightarrow> 'c tls_link \<Rightarrow> bool" where
  "link_grows sent queued s t \<longleftrightarrow>
     prefix (tk_wire s) (tk_wire t) \<and> prefix (tls_stream sent queued (tk_conn s)) (tls_stream sent queued (tk_conn t))"

lemma link_grows_trans: "link_grows sent queued s t \<Longrightarrow> link_grows sent queued t u \<Longrightarrow> link_grows sent queued s u"
  by (auto simp: link_grows_def)

lemma tls_deliver_grows:
  assumes "engine_ok E sent queued" "tls_deliver E x s = Some s'"
  shows "link_grows sent queued s s'"
proof -
  obtain i out where x: "x = (i, out)" by (cases x)
  show ?thesis
    using assms(2) unfolding x
    by (cases rule: tls_deliver_cases)
      (simp_all add: link_grows_def write_all_answer_stream [OF assms(1)] feed_answer_stream [OF assms(1)])
qed

lemma tls_issue_grows:
  assumes "tls_issue valid w i a s = Some (cs, s')"
  shows "link_grows sent queued s s'"
  using assms tls_issue_frame(2) [OF assms] by (cases rule: tls_issue_cases) (simp_all add: link_grows_def)

lemma tls_drive_grows:
  assumes ok: "engine_ok E sent queued" and "tls_drive valid E w i as s = Some t"
  shows "link_grows sent queued s t"
  using assms(2)
proof (induction as arbitrary: s)
  case Nil
  then show ?case by (auto simp: link_grows_def split: tls_pc.splits)
next
  case (Cons a as)
  then obtain cs s1 where req: "tls_issue valid w i a s = Some (cs, s1)" by (auto split: option.splits)
  note g = tls_issue_grows [where sent = sent and queued = queued, OF req]
  show ?case
  proof (cases cs)
    case Nil
    then show ?thesis using Cons.prems req g by (auto split: if_splits)
  next
    case (Cons x xs)
    then obtain s2 where "tls_deliver E x s1 = Some s2" "tls_drive valid E w i as s2 = Some t"
      using Cons.prems req by (auto split: option.splits)
    then show ?thesis using Cons.IH tls_deliver_grows [OF ok] g link_grows_trans by metis
  qed
qed

lemma tls_resume_grows:
  assumes "engine_ok E sent queued" "tls_resume valid E w cs as s = Some t"
  shows "link_grows sent queued s t"
  using assms(2) tls_deliver_grows [OF assms(1)] tls_drive_grows [OF assms(1)]
  by (fastforce simp: tls_resume_def link_grows_def split: list.splits if_splits option.splits
      intro: prefix_order.trans)

lemma tls_link_step_grows:
  assumes ok: "engine_ok E sent queued" and "tls_link_step valid E w l s = Some t"
  shows "link_grows sent queued s t"
proof (cases l)
  case (TlsCall f as)
  define s0 where "s0 = tls_settle (length (tk_ops s)) (tls_begin E f (tk_conn s)) (s\<lparr>tk_ops := tk_ops s @ [fst (tls_begin E f (tk_conn s))]\<rparr>)"
  have "tls_drive valid E w (length (tk_ops s)) as s0 = Some t" using assms(2) TlsCall by (simp add: Let_def s0_def)
  moreover have "link_grows sent queued s s0" using tls_begin_stream [OF ok] by (simp add: link_grows_def s0_def)
  ultimately show ?thesis using tls_drive_grows [OF ok] link_grows_trans by metis
next
  case (Readable rd as)
  then show ?thesis
    using assms(2) tls_resume_grows [OF ok, of valid w _ as _ t]
    by (fastforce simp: tls_dispatch_def tls_can_read_def link_grows_def split: prod.splits list.splits if_splits)
next
  case (Writable wr as)
  then show ?thesis
    using assms(2) tls_resume_grows [OF ok, of valid w _ as _ t]
    by (fastforce simp: tls_dispatch_def tls_can_write_def link_grows_def append_prefixD
        split: prod.splits list.splits if_splits option.splits write_op.splits sum.splits)
qed

section \<open>A write among other operations\<close>

text \<open>A write of \<open>len\<close> bytes that has ended well has left nothing queued.\<close>

fun write_pc_ok :: "('c \<Rightarrow> byte list) \<Rightarrow> nat \<Rightarrow> tls_pc \<times> 'c \<Rightarrow> bool" where
  "write_pc_ok queued len (WritingAll buf k, c) \<longleftrightarrow> k = WriteFlushed len"
| "write_pc_ok queued len (Finished (TlsCount (Inr n)), c) \<longleftrightarrow> n = len \<and> queued c = []"
| "write_pc_ok queued len (Finished (TlsCount (Inl e)), c) \<longleftrightarrow> True"
| "write_pc_ok queued len _ \<longleftrightarrow> False"

lemma flush_pending_write_pc:
  assumes "engine_ok E sent queued"
  shows "write_pc_ok queued len (flush_pending E (WriteFlushed len) c)"
proof -
  obtain buf c' where w: "e_write_tls E c = (buf, c')" by (rule prod.exhaust)
  show ?thesis
    using w engine_write_tls(1,2) [OF assms w] engine_wants_write [OF assms, of c] by (auto simp: flush_pending_def)
qed

lemma write_all_answer_write_pc:
  assumes "engine_ok E sent queued"
  shows "write_pc_ok queued len (write_all_answer E buf (WriteFlushed len) res c)"
  using flush_pending_write_pc [OF assms] by (auto simp: write_all_answer_def split: sum.split)

lemma write_pc_no_disconnect: "write_pc_ok queued len r \<Longrightarrow> fst r \<noteq> Finished TlsDisconnect"
  by (cases r) auto

lemma tls_deliver_write:
  assumes "engine_ok E sent queued" "tls_deliver E (i, out) s = Some s'" "i < length (tk_ops s)"
    and "write_pc_ok queued len (tk_ops s ! i, tk_conn s)"
  shows "write_pc_ok queued len (tk_ops s' ! i, tk_conn s')"
    and "sk_pending_write (tk_sock s') = sk_pending_write (tk_sock s)" "length (tk_ops s') = length (tk_ops s)"
proof -
  obtain buf r where s': "s' = tls_settle i (write_all_answer E buf (WriteFlushed len) r (tk_conn s)) s"
    using assms(2,4) by (cases rule: tls_deliver_cases) auto
  note w = write_all_answer_write_pc [OF assms(1), of len buf r "tk_conn s"]
  show "write_pc_ok queued len (tk_ops s' ! i, tk_conn s')" "length (tk_ops s') = length (tk_ops s)"
    using w assms(3) by (simp_all add: s')
  show "sk_pending_write (tk_sock s') = sk_pending_write (tk_sock s)"
    using write_pc_no_disconnect [OF w] by (simp add: s' tls_settle_sock)
qed

lemma tls_drive_write:
  assumes ok: "engine_ok E sent queued" and "tls_drive valid E w i as s = Some t" "i < length (tk_ops s)"
    and "write_pc_ok queued len (tk_ops s ! i, tk_conn s)" "sk_pending_write (tk_sock s) = None"
  shows "write_pc_ok queued len (tk_ops t ! i, tk_conn t) \<and> (over (tk_ops t ! i) \<longrightarrow> sk_pending_write (tk_sock t) = None)"
  using assms(2-)
proof (induction as arbitrary: s)
  case Nil
  then show ?case by (auto split: tls_pc.splits)
next
  case (Cons a as)
  then obtain cs s1 where req: "tls_issue valid w i a s = Some (cs, s1)" by (auto split: option.splits)
  note frame = tls_issue_frame [OF req]
  show ?case
  proof (cases cs)
    case Nil
    show ?thesis
      using req by (cases rule: tls_issue_cases) (use Nil req Cons.prems frame in \<open>auto split: if_splits\<close>)
  next
    case (Cons x xs)
    obtain s2 where s2: "tls_deliver E x s1 = Some s2" "tls_drive valid E w i as s2 = Some t"
      using Cons.prems(1) req Cons by (auto split: option.splits)
    have x: "x = (i, snd x)" "sk_pending_write (tk_sock s1) = None"
      using req by (cases rule: tls_issue_cases; use Cons Cons.prems(4) in \<open>auto simp: slots_of_def\<close>)+
    have d: "tls_deliver E (i, snd x) s1 = Some s2" using s2(1) x(1) by simp
    show ?thesis
      using tls_deliver_write [OF ok d, of len] Cons.IH [OF s2(2)] Cons.prems(2,3) frame x(2) by simp
  qed
qed

text \<open>The state of write number \<open>i\<close>, of \<open>len\<close> bytes, that has to put \<open>strm\<close> on the wire.\<close>

fun write_state_ok ::
    "('c \<Rightarrow> byte list) \<Rightarrow> ('c \<Rightarrow> byte list) \<Rightarrow> nat \<Rightarrow> byte list \<Rightarrow> 'c tls_link \<Rightarrow> tls_pc \<Rightarrow> bool" where
  "write_state_ok sent queued len strm s (WritingAll buf k) \<longleftrightarrow>
     k = WriteFlushed len \<and> prefix strm (tls_stream sent queued (tk_conn s))"
| "write_state_ok sent queued len strm s (Finished (TlsCount (Inr n))) \<longleftrightarrow> n = len \<and> prefix strm (tk_wire s)"
| "write_state_ok sent queued len strm s (Finished (TlsCount (Inl e))) \<longleftrightarrow> True"
| "write_state_ok sent queued len strm s _ \<longleftrightarrow> False"

lemma write_state_ok_mono:
  assumes "write_state_ok sent queued len strm s pc" "link_grows sent queued s t"
  shows "write_state_ok sent queued len strm t pc"
  using assms
  by (cases "(sent, queued, len, strm, s, pc)" rule: write_state_ok.cases)
    (auto simp: link_grows_def intro: prefix_order.trans)

text \<open>At the end of a step that ran the write, the bytes are on the wire or the write is not over.\<close>

lemma write_state_ok_end:
  assumes "link_ok sent t" "write_pc_ok queued len (tk_ops t ! i, tk_conn t)"
    and "over (tk_ops t ! i) \<longrightarrow> sk_pending_write (tk_sock t) = None"
    and "prefix strm (tls_stream sent queued (tk_conn t))"
  shows "write_state_ok sent queued len strm t (tk_ops t ! i)"
  using assms
  by (cases "(queued, len, (tk_ops t ! i, tk_conn t))" rule: write_pc_ok.cases)
    (auto simp: link_ok_def tls_stream_def)

lemma write_call_ok:
  assumes ok: "engine_ok E sent queued" and link: "link_ok sent s" and "label_ok s (TlsCall (CallWrite buf) as)"
    and step: "tls_link_step valid E w (TlsCall (CallWrite buf) as) s = Some t"
    and free: "sk_pending_write (tk_sock s) = None" and wr: "e_writer_write_all E buf (tk_conn s) = (Inr u, c1)"
  shows "write_state_ok sent queued (length buf) (tls_stream sent queued c1) t (tk_ops t ! length (tk_ops s))"
proof -
  define i r where "i = length (tk_ops s)" and "r = flush_pending E (WriteFlushed (length buf)) c1"
  let ?s = "tls_settle i r (s\<lparr>tk_ops := tk_ops s @ [fst r]\<rparr>)"
  have d: "tls_drive valid E w i as ?s = Some t"
    using step wr by (simp add: Let_def tls_write_def i_def r_def)
  note w = flush_pending_write_pc [OF ok, of "length buf" c1, folded r_def]
  have "sk_pending_write (tk_sock ?s) = None"
    using write_pc_no_disconnect [OF w] free by (simp add: tls_settle_sock)
  moreover have "write_pc_ok queued (length buf) (tk_ops ?s ! i, tk_conn ?s)" "i < length (tk_ops ?s)"
    using w by (simp_all add: i_def)
  moreover have "prefix (tls_stream sent queued c1) (tls_stream sent queued (tk_conn t))"
    using tls_drive_grows [OF ok d] flush_pending_stream [OF ok, of c1 "WriteFlushed (length buf)"]
    by (auto simp: link_grows_def r_def intro: prefix_order.trans)
  ultimately show ?thesis
    using tls_drive_write [OF ok d] write_state_ok_end [OF tls_link_step_ok [OF ok link assms(3) step]]
    unfolding i_def by blast
qed

lemma write_resumed_ok:
  assumes ok: "engine_ok E sent queued" and "link_ok sent t" "slots_ok s"
    and slot: "sk_pending_write (tk_sock s) = Some (WriteOp buf i)"
    and "tls_can_write valid E w wr as s = Some t" and w: "write_state_ok sent queued len strm s (tk_ops s ! i)"
  shows "write_state_ok sent queued len strm t (tk_ops t ! i)"
proof -
  note waits = write_slot_waits [OF assms(3) slot] and wd = writable_driving(1) [OF assms(3) slot]
  then obtain k where i: "i < length (tk_ops s)" "tk_ops s ! i = WritingAll buf k" by blast
  have k: "k = WriteFlushed len" "prefix strm (tls_stream sent queued (tk_conn s))" using w i(2) by simp_all
  define v where "v = tk_wire s @ (case wr of Inl _ \<Rightarrow> [] | Inr n \<Rightarrow> take n buf)"
  let ?s = "s\<lparr>tk_sock := (tk_sock s)\<lparr>sk_pending_write := None\<rparr>, tk_wire := v\<rparr>"
  obtain s1 where s1: "tls_deliver E (i, Count (os_result wr)) ?s = Some s1" "tls_drive valid E w i as s1 = Some t"
    using assms(5) slot wd by (auto simp: tls_can_write_def tls_resume_def v_def split: if_splits option.splits)
  note dw = tls_deliver_write [OF ok s1(1), of len]
  have "write_pc_ok queued len (tk_ops s1 ! i, tk_conn s1)" "sk_pending_write (tk_sock s1) = None" "i < length (tk_ops s1)"
    using dw i k by simp_all
  from tls_drive_write [OF ok s1(2) this(3,1,2)]
  have "write_pc_ok queued len (tk_ops t ! i, tk_conn t) \<and> (over (tk_ops t ! i) \<longrightarrow> sk_pending_write (tk_sock t) = None)" .
  moreover have "prefix (tls_stream sent queued (tk_conn s)) (tls_stream sent queued (tk_conn t))"
    using tls_deliver_grows [OF ok s1(1)] tls_drive_grows [OF ok s1(2)]
    by (auto simp: link_grows_def intro: prefix_order.trans)
  ultimately show ?thesis
    using write_state_ok_end [OF assms(2)] k(2) prefix_order.trans by blast
qed

lemma write_kept_step:
  assumes ok: "engine_ok E sent queued" and link: "link_ok sent s" and lab: "label_ok s l"
    and step: "tls_link_step valid E w l s = Some t" and i: "i < length (tk_ops s)"
    and w: "write_state_ok sent queued len strm s (tk_ops s ! i)"
  shows "write_state_ok sent queued len strm t (tk_ops t ! i)"
proof -
  have so: "slots_ok s" using link by (simp add: link_ok_def)
  note mono = write_state_ok_mono [OF w tls_link_step_grows [OF ok step]]
  show ?thesis
  proof (cases "sk_pending_write (tk_sock s) = None \<or> slot_cb WriteSlot (tk_sock s) \<noteq> Some i")
    case True
    have "\<not> (\<exists>k. tk_ops s ! i = Feeding k)" using w by auto
    then have "\<not> held i s" using True read_slot_waits [OF so, of i] by (auto simp: held_def)
    then show ?thesis using unheld_step [OF so step i] mono by simp
  next
    case False
    then obtain x where "sk_pending_write (tk_sock s) = Some x" "write_cb x = i" by auto
    then obtain buf where slot: "sk_pending_write (tk_sock s) = Some (WriteOp buf i)" by (cases x) auto
    then obtain k where pc: "tk_ops s ! i = WritingAll buf k" using write_slot_waits [OF so slot] by blast
    show ?thesis
    proof (cases l)
      case (TlsCall f as)
      then have "tk_ops t ! i = tk_ops s ! i"
        using tls_link_step_slots(3) [OF so step] i by (auto simp: runs_only_def)
      then show ?thesis using mono by simp
    next
      case (Readable rd as)
      obtain cbs p where d: "tls_dispatch EPOLLIN s = (cbs, s\<lparr>tk_pump := p\<rparr>)"
        by (cases "dispatch_event (\<lambda>w. True) (sk_fd (tk_sock s)) EPOLLIN (tk_pump s)") (auto simp: tls_dispatch_def)
      have "tk_ops t ! i = tk_ops s ! i"
      proof (cases cbs)
        case (Cons cb rest)
        then have r: "tls_can_read valid E w rd as (s\<lparr>tk_pump := p\<rparr>) = Some t" using step Readable d by simp
        have so': "slots_ok (s\<lparr>tk_pump := p\<rparr>)" using so by simp
        then show ?thesis
        proof (cases rule: readable_cases [where acc = "Inl EAGAIN" and rd = rd])
          case idle
          then show ?thesis using r by (auto simp: tls_can_read_def tls_resume_def split: if_splits)
        next
          case (got rlen j res)
          then have "j \<noteq> i" using read_slot_waits [OF so, of j] pc by auto
          then show ?thesis
            using r got(3) tls_resume_slots [OF _ got(4), of valid E w "Bytes res" as t] by (auto simp: tls_can_read_def)
        qed
      qed (use step Readable d in \<open>auto split: if_splits\<close>)
      then show ?thesis using mono by simp
    next
      case (Writable wr as)
      obtain cbs p where d: "tls_dispatch EPOLLOUT s = (cbs, s\<lparr>tk_pump := p\<rparr>)"
        by (cases "dispatch_event (\<lambda>w. True) (sk_fd (tk_sock s)) EPOLLOUT (tk_pump s)") (auto simp: tls_dispatch_def)
      show ?thesis
      proof (cases cbs)
        case Nil
        then show ?thesis using step Writable d mono by (auto split: if_splits)
      next
        case (Cons cb rest)
        have "write_state_ok sent queued len strm (s\<lparr>tk_pump := p\<rparr>) (tk_ops (s\<lparr>tk_pump := p\<rparr>) ! i)"
          using write_state_ok_mono [OF w, of "s\<lparr>tk_pump := p\<rparr>"] by (simp add: link_grows_def)
        then show ?thesis
          using write_resumed_ok [OF ok tls_link_step_ok [OF ok link lab step], of "s\<lparr>tk_pump := p\<rparr>" buf i valid w wr as len strm]
            so slot step Writable d Cons by simp
      qed
    qed
  qed
qed

lemma write_kept_run:
  assumes ok: "engine_ok E sent queued" and "run (tls_link_step valid E w) ls s = Some t" "disciplined valid E w ls s"
    and "link_ok sent s" "i < length (tk_ops s)" "write_state_ok sent queued len strm s (tk_ops s ! i)"
  shows "write_state_ok sent queued len strm t (tk_ops t ! i)"
  using assms(2-)
proof (induction ls arbitrary: s)
  case (Cons l ls)
  then obtain u where u: "tls_link_step valid E w l s = Some u" "run (tls_link_step valid E w) ls u = Some t"
    by (auto split: option.splits)
  have lab: "label_ok s l" "disciplined valid E w ls u" using Cons.prems(2) u(1) by simp_all
  have "slots_ok s" using Cons.prems(3) by (simp add: link_ok_def)
  then have "i < length (tk_ops u)" using tls_link_step_slots(2) u(1) Cons.prems(4) by fastforce
  then show ?case
    using Cons.IH [OF u(2) lab(2)] tls_link_step_ok [OF ok Cons.prems(3) lab(1) u(1)]
      write_kept_step [OF ok Cons.prems(3) lab(1) u(1) Cons.prems(4,5)] by blast
qed simp

lemma disciplined_append:
  "disciplined valid E w (ls @ ms) s \<Longrightarrow> run (tls_link_step valid E w) ls s = Some t \<Longrightarrow>
     disciplined valid E w ls s \<and> disciplined valid E w ms t"
  by (induction ls arbitrary: s) (auto split: option.splits)

section \<open>Properties\<close>

text \<open>
  C37. What a TLS socket puts on its TCP connection is the stream the engine produced: as long as no
  operation writes to the transport while the write of another one is parked, and no \<open>write\<close> fails,
  the bytes the kernel took followed by the parked buffer are exactly the bytes the engine handed
  out, in order, under any partial writes, any interleaving of reads, handshake and writes and any
  readiness events; and every operation that waits for a write holds the socket's write slot.
\<close>
theorem tls_over_tcp_stream_exact:
  assumes "engine_ok E sent queued" "sent c = []"
    and "disciplined valid E w ls (tls_link_new c fd p)"
    and "run (tls_link_step valid E w) ls (tls_link_new c fd p) = Some s"
  shows "sent (tk_conn s) = tk_wire s @ write_bytes (sk_pending_write (tk_sock s)) \<and>
    (\<forall>j buf k. j < length (tk_ops s) \<longrightarrow> tk_ops s ! j = WritingAll buf k \<longrightarrow>
       sk_pending_write (tk_sock s) = Some (WriteOp buf j))"
  using disciplined_run_ok [OF assms(1) link_ok_new [where sent = sent and c = c, OF assms(2)] assms(3,4)]
  by (simp add: link_ok_def others_parked_def)

text \<open>The example: a write is parked, and a read answers a record that has arrived.\<close>

definition link_start :: "(byte list \<times> byte list \<times> bool) tls_link" where
  "link_start = tls_link_new ([], [], False) 3 pump_new"

definition greeting_step ::
    "tls_label \<Rightarrow> (byte list \<times> byte list \<times> bool) tls_link \<Rightarrow> (byte list \<times> byte list \<times> bool) tls_link option" where
  "greeting_step = tls_link_step (\<lambda>fd. True) greeting_engine 0"

definition parked_write :: tls_label where
  "parked_write = TlsCall (CallWrite [1, 2, 3]) [SysWrite (Inl EAGAIN)]"

definition answering_read :: "sys_answer list \<Rightarrow> tls_label" where
  "answering_read as = TlsCall (CallRead 10) (SysRead (Inr [5]) # as)"

lemmas link_example =
  greeting_step_def link_start_def parked_write_def answering_read_def tls_link_new_def sock_from_fd_def
  tls_issue_def tls_settle_def tls_resume_def tls_can_read_def tls_can_write_def tcp_client_read_def tcp_sock_read_def
  tcp_client_write_def tcp_sock_write_def sock_read_def sock_write_def
  on_file_can_read_def on_file_can_write_def is_would_block_def greeting_engine_def tls_read_def tls_write_def
  flush_pending_def feed_answer_def write_all_answer_def READ_CHUNK_def EAGAIN_def os_result_def

lemmas pump_example =
  tls_dispatch_def dispatch_event_def arm_read_def arm_write_def watch_file_descriptor_def register_fd_def
  stop_watching_file_descriptor_def unregister_fd_def epoll_ctl_add_def epoll_ctl_mod_def epoll_ctl_del_def
  controller_new_def controller_attach_def pump_new_def entry_reads_def entry_writes_def epoll_bits

definition orderly_labels :: "tls_label list" where
  "orderly_labels =
     [parked_write, Writable (Inr 2) [SysWrite (Inr 1)], answering_read [SysWrite (Inr 1), SysRead (Inl EAGAIN)]]"

lemma orderly_run: "\<exists>s. run greeting_step orderly_labels link_start = Some s \<and> tk_wire s = [1, 2, 3, 22]"
  by (simp add: orderly_labels_def link_example pump_example)

lemma orderly_disciplined: "disciplined (\<lambda>fd. True) greeting_engine 0 orderly_labels link_start"
  by (simp add: orderly_labels_def link_example pump_example)

theorem tls_over_tcp_stream_exact_witness:
  "\<exists>s. run greeting_step orderly_labels link_start = Some s \<and>
     fst (tk_conn s) = [1, 2, 3, 22] @ write_bytes (sk_pending_write (tk_sock s))"
proof -
  obtain s where s: "run greeting_step orderly_labels link_start = Some s" "tk_wire s = [1, 2, 3, 22]"
    using orderly_run by blast
  then show ?thesis
    using tls_over_tcp_stream_exact [OF greeting_engine_ok _ orderly_disciplined [unfolded link_start_def]
        s(1) [unfolded greeting_step_def link_start_def]]
    by simp
qed

text \<open>
  C36. A TLS write that reports success reports the length of its buffer, and by then the kernel has
  taken, in order and behind what it had when the write was called, every byte the engine had queued
  once it accepted the plaintext: partial writes neither drop, repeat nor reorder any of them.  This
  holds with any other operations on the connection before and during the write, as long as the
  transport writes do not overlap and none fails (\<open>disciplined\<close>; the next property is about what happens
  otherwise) and no transport write is parked when the write is called.  The engine is a parameter with the documented laws of \<open>wants_write\<close>, \<open>write_tls\<close> and
  the calls that queue records.
\<close>
theorem tls_write_puts_all_on_wire:
  assumes "engine_ok E sent queued" "sent c = []"
    and "disciplined valid E w (ls @ TlsCall (CallWrite buf) as # ls') (tls_link_new c fd p)"
    and "run (tls_link_step valid E w) ls (tls_link_new c fd p) = Some s"
    and "sk_pending_write (tk_sock s) = None" "e_writer_write_all E buf (tk_conn s) = (Inr u, c1)"
    and "run (tls_link_step valid E w) (TlsCall (CallWrite buf) as # ls') s = Some t"
    and "tk_ops t ! length (tk_ops s) = Finished (TlsCount (Inr n))"
  shows "n = length buf \<and> prefix (tk_wire s @ queued c1) (tk_wire t)"
proof -
  note d = disciplined_append [OF assms(3,4)]
  have link: "link_ok sent s"
    using disciplined_run_ok [OF assms(1) link_ok_new [where sent = sent and c = c, OF assms(2)] conjunct1 [OF d] assms(4)] .
  obtain v where v: "tls_link_step valid E w (TlsCall (CallWrite buf) as) s = Some v"
    and rest: "run (tls_link_step valid E w) ls' v = Some t"
    using assms(7) by (auto simp del: tls_link_step.simps split: option.splits)
  have lab: "label_ok s (TlsCall (CallWrite buf) as)" "disciplined valid E w ls' v"
    using d v by (simp_all del: tls_link_step.simps label_ok.simps)
  have "slots_ok s" using link by (simp add: link_ok_def)
  then have "length (tk_ops s) < length (tk_ops v)" using tls_link_step_slots(2) [OF _ v] by simp
  from write_kept_run [OF assms(1) rest lab(2) tls_link_step_ok [OF assms(1) link lab(1) v] this
      write_call_ok [OF assms(1) link lab(1) v assms(5,6)]]
  have "n = length buf" "prefix (tls_stream sent queued c1) (tk_wire t)" using assms(8) by simp_all
  moreover have "sent c1 = tk_wire s"
    using grows_sent [OF engine_grows(4) [OF assms(1,6)]] link assms(5) by (simp add: link_ok_def)
  ultimately show ?thesis by (simp add: tls_stream_def)
qed

text \<open>The example: a read waits for the peer while a write is parked, and the kernel takes the record in two parts.\<close>

definition waiting_read :: tls_label where
  "waiting_read = TlsCall (CallRead 10) [SysRead (Inl EAGAIN)]"

definition shared_labels :: "tls_label list" where
  "shared_labels = [waiting_read] @ parked_write # [Writable (Inr 2) [SysWrite (Inr 1)]]"

lemma shared_disciplined: "disciplined (\<lambda>fd. True) greeting_engine 0 shared_labels link_start"
  by (simp add: shared_labels_def waiting_read_def link_example pump_example)

lemma shared_run:
  "\<exists>s. run greeting_step [waiting_read] link_start = Some s \<and> sk_pending_write (tk_sock s) = None \<and>
     tk_conn s = ([], [], False) \<and> length (tk_ops s) = 1 \<and> tk_wire s = [] \<and>
     (\<exists>t. run greeting_step [parked_write, Writable (Inr 2) [SysWrite (Inr 1)]] s = Some t \<and>
          tk_ops t ! 1 = Finished (TlsCount (Inr 3)))"
  by (simp add: waiting_read_def link_example pump_example)

theorem tls_write_puts_all_on_wire_witness:
  "\<exists>s t. run greeting_step [waiting_read] link_start = Some s \<and>
     run greeting_step [parked_write, Writable (Inr 2) [SysWrite (Inr 1)]] s = Some t \<and>
     tk_ops t ! 1 = Finished (TlsCount (Inr 3)) \<and> prefix [1, 2, 3] (tk_wire t)"
proof -
  obtain s t where s: "run greeting_step [waiting_read] link_start = Some s" "sk_pending_write (tk_sock s) = None"
      "tk_conn s = ([], [], False)" "length (tk_ops s) = 1" "tk_wire s = []"
    and t: "run greeting_step [parked_write, Writable (Inr 2) [SysWrite (Inr 1)]] s = Some t"
      "tk_ops t ! 1 = Finished (TlsCount (Inr 3))"
    using shared_run by blast
  have "e_writer_write_all greeting_engine [1, 2, 3] (tk_conn s) = (Inr (), ([], [1, 2, 3], False))"
    by (simp add: s(3) greeting_engine_def)
  from tls_write_puts_all_on_wire [OF greeting_engine_ok _ shared_disciplined [unfolded link_start_def shared_labels_def parked_write_def]
      s(1) [unfolded greeting_step_def link_start_def] s(2) this]
  show ?thesis
    using s t unfolding greeting_step_def parked_write_def by fastforce
qed

text \<open>
  C38. The socket has one write slot, and a TLS operation does not ask whether it is taken: when an
  operation (the flush of a read, or another write) parks its transport write while the write of
  operation \<open>j\<close> is parked, the closure of \<open>j\<close> is thrown away with the rest of its record; whatever
  happens afterwards, \<open>j\<close> stays in the middle of its write and its caller is never called back.
\<close>
theorem overlapping_flush_strands_write:
  assumes "run (tls_link_step valid E w) ls (tls_link_new c fd p) = Some s"
    and "sk_pending_write (tk_sock s) = Some (WriteOp buf j)"
    and "tls_link_step valid E w l s = Some t"
    and "sk_pending_write (tk_sock t) = Some (WriteOp buf' i)" "i \<noteq> j"
    and "run (tls_link_step valid E w) ls' t = Some u"
  shows "\<exists>k. tk_ops u ! j = WritingAll buf k"
proof -
  have so: "slots_ok s" using slots_ok_run [OF slots_ok_new assms(1)] .
  note to = tls_link_step_slots [OF so assms(3)]
  obtain k where j: "j < length (tk_ops s)" "tk_ops s ! j = WritingAll buf k"
    using write_slot_waits [OF so assms(2)] by blast
  obtain k' where i: "tk_ops t ! i = WritingAll buf' k'" "i < length (tk_ops t)"
    using write_slot_waits [OF to(1) assms(4)] by blast
  obtain d where d: "held d s \<and> new_ops l = 0 \<or> d = length (tk_ops s)" "runs_only d s t" using to(3) by blast
  have "d \<noteq> j"
  proof
    assume "d = j"
    with d(2) i assms(4,5) j(1) have "i < length (tk_ops s) \<Longrightarrow> held i s \<and> tk_ops s ! i = WritingAll buf' k'"
      by (auto simp: runs_only_def held_def)
    moreover have "\<not> (held i s \<and> tk_ops s ! i = WritingAll buf' k')"
      using read_slot_waits [OF so, of i] assms(2,5) by (auto simp: held_def)
    ultimately have "length (tk_ops s) \<le> i" by linarith
    then show False using \<open>d = j\<close> to(2) i(2) j(1) d(1) by auto
  qed
  then have tj: "tk_ops t ! j = WritingAll buf k" using d(2) j by (simp add: runs_only_def)
  have "\<not> held j t"
    using read_slot_waits [OF to(1), of j] tj assms(4,5) by (auto simp: held_def)
  then show ?thesis using unheld_run [OF assms(6) to(1)] to(2) j(1) tj by simp
qed

lemma overlapping_run:
  "\<exists>s. run greeting_step [parked_write] link_start = Some s \<and>
     sk_pending_write (tk_sock s) = Some (WriteOp [1, 2, 3] 0) \<and>
     (\<exists>t. greeting_step (answering_read [SysWrite (Inl EAGAIN)]) s = Some t \<and>
          sk_pending_write (tk_sock t) = Some (WriteOp [22] 1) \<and>
          (\<exists>u. run greeting_step [Writable (Inr 1) [SysRead (Inl EAGAIN)]] t = Some u \<and>
               tk_wire u = [22] \<and> fst (tk_conn u) = [1, 2, 3, 22]))"
  by (simp add: link_example pump_example)

theorem overlapping_flush_strands_write_witness:
  "\<exists>s t u. greeting_step (answering_read [SysWrite (Inl EAGAIN)]) s = Some t \<and>
     run greeting_step [Writable (Inr 1) [SysRead (Inl EAGAIN)]] t = Some u \<and>
     (\<exists>k. tk_ops u ! 0 = WritingAll [1, 2, 3] k)"
proof -
  obtain s t u where s: "run greeting_step [parked_write] link_start = Some s"
      "sk_pending_write (tk_sock s) = Some (WriteOp [1, 2, 3] 0)"
    and t: "greeting_step (answering_read [SysWrite (Inl EAGAIN)]) s = Some t"
      "sk_pending_write (tk_sock t) = Some (WriteOp [22] 1)"
    and u: "run greeting_step [Writable (Inr 1) [SysRead (Inl EAGAIN)]] t = Some u"
    using overlapping_run by blast
  have "\<exists>k. tk_ops u ! 0 = WritingAll [1, 2, 3] k"
    using overlapping_flush_strands_write [OF s(1) [unfolded greeting_step_def link_start_def] s(2)
        t(1) [unfolded greeting_step_def] t(2) _ u [unfolded greeting_step_def]] by simp
  then show ?thesis using t(1) u by blast
qed

text \<open>
  The stream is broken by then: the peer gets the answer of the read where the record of the write
  should be, so the wire is no beginning of what the engine handed out.
\<close>

theorem overlapping_flush_corrupts_stream:
  "\<exists>ls s. run greeting_step ls link_start = Some s \<and> \<not> prefix (tk_wire s) (fst (tk_conn s))"
proof -
  have "\<exists>s. run greeting_step
      [parked_write, answering_read [SysWrite (Inl EAGAIN)], Writable (Inr 1) [SysRead (Inl EAGAIN)]]
      link_start = Some s \<and> \<not> prefix (tk_wire s) (fst (tk_conn s))"
    by (simp add: link_example pump_example)
  then show ?thesis by blast
qed

section \<open>One operation at a time\<close>

text \<open>A client that makes a call only when all its earlier ones have reported keeps the discipline.\<close>

fun label_writes_ok :: "tls_label \<Rightarrow> bool" where
  "label_writes_ok (TlsCall f as) \<longleftrightarrow> list_all sys_write_ok as"
| "label_writes_ok (Readable rd as) \<longleftrightarrow> list_all sys_write_ok as"
| "label_writes_ok (Writable wr as) \<longleftrightarrow> list_all sys_write_ok as \<and> \<not> isl wr"

fun half_duplex :: "(raw_fd \<Rightarrow> bool) \<Rightarrow> 'c engine \<Rightarrow> nat \<Rightarrow> tls_label list \<Rightarrow> 'c tls_link \<Rightarrow> bool" where
  "half_duplex valid E w [] s \<longleftrightarrow> True"
| "half_duplex valid E w (l # ls) s \<longleftrightarrow>
     (case tls_link_step valid E w l s of
        None \<Rightarrow> True
      | Some t \<Rightarrow> (new_ops l = 0 \<or> list_all over (tk_ops s)) \<and> label_writes_ok l \<and> half_duplex valid E w ls t)"

definition one_open :: "'c tls_link \<Rightarrow> bool" where
  "one_open s \<longleftrightarrow>
     (\<forall>i j. i < length (tk_ops s) \<longrightarrow> j < length (tk_ops s) \<longrightarrow> \<not> over (tk_ops s ! i) \<longrightarrow> \<not> over (tk_ops s ! j) \<longrightarrow> i = j)"

lemma write_slot_open:
  assumes "slots_ok s" "slot_cb WriteSlot (tk_sock s) = Some i"
  shows "i < length (tk_ops s) \<and> (\<exists>buf k. tk_ops s ! i = WritingAll buf k)"
  using assms by (cases "(tk_ops s, sk_pending_write (tk_sock s))" rule: write_slot_ok.cases) (auto simp: slots_ok_def)

lemma over_stays:
  assumes "slots_ok s" "tls_link_step valid E w l s = Some t" "j < length (tk_ops s)" "over (tk_ops s ! j)"
  shows "over (tk_ops t ! j)"
proof -
  have "\<not> held j s"
    using assms(4) read_slot_waits [OF assms(1), of j] write_slot_open [OF assms(1), of j] by (auto simp: held_def)
  then show ?thesis using unheld_step [OF assms(1-3)] assms(4) by simp
qed

lemma one_open_step:
  assumes "slots_ok s" "tls_link_step valid E w l s = Some t" "one_open s"
    and "new_ops l = 0 \<or> list_all over (tk_ops s)"
  shows "one_open t"
proof -
  have old: "\<not> over (tk_ops t ! j) \<Longrightarrow> j < length (tk_ops s) \<Longrightarrow> \<not> over (tk_ops s ! j)" for j
    using over_stays [OF assms(1,2)] by blast
  show ?thesis
    using tls_link_step_slots(2) [OF assms(1,2)] old assms(3,4)
    by (cases l) (auto simp: one_open_def list_all_length less_Suc_eq)
qed

lemma one_open_label_ok:
  assumes "slots_ok s" "tls_link_step valid E w l s = Some t" "one_open s" "label_writes_ok l"
    and "new_ops l = 0 \<or> list_all over (tk_ops s)"
  shows "label_ok s l"
proof (cases "sk_pending_write (tk_sock s)")
  case None
  then show ?thesis using assms(4) by (cases l) auto
next
  case (Some x)
  then obtain i where i: "slot_cb WriteSlot (tk_sock s) = Some i" by simp
  then obtain buf k where w: "i < length (tk_ops s)" "tk_ops s ! i = WritingAll buf k"
    using write_slot_open [OF assms(1)] by blast
  have "sk_pending_read (tk_sock s) = None"
  proof (cases "slot_cb ReadSlot (tk_sock s)")
    case (Some j)
    with read_slot_waits [OF assms(1) this] w assms(3) show ?thesis by (force simp: one_open_def)
  qed simp
  then show ?thesis
    using assms w
    by (cases l)
      (auto simp: list_all_length tls_can_read_def tls_dispatch_def tls_resume_def on_file_can_read_def slots_ok_def
        split: if_splits prod.splits list.splits)
qed

lemma half_duplex_disciplined:
  assumes "half_duplex valid E w ls s" "slots_ok s" "one_open s"
  shows "disciplined valid E w ls s"
  using assms
proof (induction ls arbitrary: s)
  case (Cons l ls)
  show ?case
  proof (cases "tls_link_step valid E w l s")
    case (Some t)
    then show ?thesis
      using Cons one_open_step [OF Cons.prems(2) Some] one_open_label_ok [OF Cons.prems(2) Some]
        tls_link_step_slots(1) [OF Cons.prems(2) Some] by simp
  qed simp
qed simp

text \<open>So a request-response client's stream is exact, and complete whenever it waits for nothing.\<close>

theorem half_duplex_stream_complete:
  assumes "engine_ok E sent queued" "sent c = []"
    and "half_duplex valid E w ls (tls_link_new c fd p)"
    and "run (tls_link_step valid E w) ls (tls_link_new c fd p) = Some s" "list_all over (tk_ops s)"
  shows "sent (tk_conn s) = tk_wire s"
proof -
  have d: "disciplined valid E w ls (tls_link_new c fd p)"
    by (rule half_duplex_disciplined [OF assms(3) slots_ok_new]) (simp add: one_open_def tls_link_new_def)
  have ok: "link_ok sent s"
    using disciplined_run_ok [OF assms(1) link_ok_new [where sent = sent and c = c, OF assms(2)] d assms(4)] .
  then have so: "slots_ok s" by (simp add: link_ok_def)
  have "sk_pending_write (tk_sock s) = None"
  proof (cases "slot_cb WriteSlot (tk_sock s)")
    case (Some i)
    then show ?thesis using write_slot_open [OF so Some] assms(5) by (auto simp: list_all_length)
  qed simp
  then show ?thesis using ok by (simp add: link_ok_def)
qed

end
