(* ===== verification/Stream_Socket_Spec.thy ===== *)
theory Stream_Socket_Spec
  imports Prelude "HOL-Library.Sublist"
begin

text \<open>
  \<open>rust_net/stream_socket.rs\<close>: the interface \<open>StreamSocket\<close> as a record of operations, and what its
  documentation promises to the layers above as a locale.  An operation is seen from its call to
  its callback: it gets what its environment answers meanwhile (\<open>'w\<close> for a write, \<open>'r\<close> for a read) and
  gives the result its callback is called with, or \<open>None\<close> when it is not called with these answers.
\<close>

section \<open>The interface\<close>

record ('r, 'w, 's) stream_ops =
  ss_read :: "'r \<Rightarrow> nat \<Rightarrow> 's \<Rightarrow> (byte list io_result \<times> 's) option"
  ss_write :: "'w \<Rightarrow> byte list \<Rightarrow> 's \<Rightarrow> (nat io_result \<times> 's) option"
  ss_disconnect :: "'w \<Rightarrow> 's \<Rightarrow> 's option"

text \<open>\<open>write_all\<close> of \<open>tls_client_socket.rs\<close>, a client of the interface; one answer per \<open>write\<close>.\<close>

fun stream_write_all ::
    "('r, 'w, 's) stream_ops \<Rightarrow> 'w list \<Rightarrow> byte list \<Rightarrow> 's \<Rightarrow> (unit io_result \<times> 's) option" where
  "stream_write_all S [] buf s = None"
| "stream_write_all S (e # es) buf s =
     (case ss_write S e buf s of
        None \<Rightarrow> None
      | Some (Inl err, s') \<Rightarrow> Some (Inl err, s')
      | Some (Inr n, s') \<Rightarrow>
          if length buf \<le> n then Some (Inr (), s') else stream_write_all S es (drop n buf) s')"

text \<open>A client that reads \<open>len\<close> bytes at a time: all it got.\<close>

fun stream_read_many ::
    "('r, 'w, 's) stream_ops \<Rightarrow> 'r list \<Rightarrow> nat \<Rightarrow> 's \<Rightarrow> (byte list io_result \<times> 's) option" where
  "stream_read_many S [] len s = Some (Inr [], s)"
| "stream_read_many S (e # es) len s =
     (case ss_read S e len s of
        None \<Rightarrow> None
      | Some (Inl err, s') \<Rightarrow> Some (Inl err, s')
      | Some (Inr bs, s') \<Rightarrow>
          (case stream_read_many S es len s' of
             None \<Rightarrow> None
           | Some (r, s'') \<Rightarrow> Some (map_sum id (append bs) r, s'')))"

section \<open>The contract\<close>

text \<open>
  \<open>out s\<close> are the bytes the stream has accepted from its client, \<open>inp s\<close> those it has delivered.  A
  read delivers at most what was asked for, a write accepts a beginning of its buffer and says how
  much, an error leaves a beginning accepted, and no operation touches the other direction.
\<close>

locale stream_socket =
  fixes S :: "('r, 'w, 's) stream_ops"
    and inv :: "'s \<Rightarrow> bool"
    and out :: "'s \<Rightarrow> byte list"
    and inp :: "'s \<Rightarrow> byte list"
  assumes read_inv: "inv s \<Longrightarrow> ss_read S e len s = Some (r, s') \<Longrightarrow> inv s' \<and> out s' = out s"
    and read_got: "inv s \<Longrightarrow> ss_read S e len s = Some (Inr bs, s') \<Longrightarrow> length bs \<le> len \<and> inp s' = inp s @ bs"
    and read_failed: "inv s \<Longrightarrow> ss_read S e len s = Some (Inl err, s') \<Longrightarrow> inp s' = inp s"
    and write_inv: "inv s \<Longrightarrow> ss_write S f buf s = Some (r', s') \<Longrightarrow> inv s' \<and> inp s' = inp s"
    and write_took:
      "inv s \<Longrightarrow> ss_write S f buf s = Some (Inr n, s') \<Longrightarrow> n \<le> length buf \<and> out s' = out s @ take n buf"
    and write_failed: "inv s \<Longrightarrow> ss_write S f buf s = Some (Inl err, s') \<Longrightarrow> \<exists>m. out s' = out s @ take m buf"
    and disconnect_keeps: "inv s \<Longrightarrow> ss_disconnect S f s = Some s' \<Longrightarrow> out s' = out s \<and> inp s' = inp s"
begin

text \<open>\<open>write_all\<close> hands over the whole buffer once, or fails after a beginning of it.\<close>

lemma write_all_exact:
  assumes "inv s" "stream_write_all S es buf s = Some (r, t)"
  shows "inv t \<and> inp t = inp s \<and> (\<exists>m. out t = out s @ take m buf) \<and> (r = Inr () \<longrightarrow> out t = out s @ buf)"
  using assms
proof (induction es arbitrary: buf s)
  case (Cons e es)
  then obtain q u where w: "ss_write S e buf s = Some (q, u)" by (auto split: option.splits)
  note u = write_inv [OF Cons.prems(1) w]
  show ?case
  proof (cases q)
    case (Inl err)
    then show ?thesis using Cons.prems(2) w u write_failed [OF Cons.prems(1), of e buf err u] by auto
  next
    case (Inr n)
    note took = write_took [OF Cons.prems(1) w [unfolded Inr]]
    show ?thesis
    proof (cases "length buf \<le> n")
      case True
      then show ?thesis using Cons.prems(2) w u took Inr by (auto intro!: exI [of _ n])
    next
      case False
      then have "stream_write_all S es (drop n buf) u = Some (r, t)" using Cons.prems(2) w Inr by simp
      from Cons.IH [OF _ this] obtain m where "inv t" "inp t = inp s" "out t = out s @ take n buf @ take m (drop n buf)"
          "r = Inr () \<longrightarrow> out t = out s @ take n buf @ drop n buf"
        using u took by auto
      then show ?thesis by (auto simp: take_add [symmetric])
    qed
  qed
qed simp

text \<open>Consecutive reads deliver consecutive bytes.\<close>

lemma read_many_contiguous:
  assumes "inv s" "stream_read_many S es len s = Some (Inr bs, t)"
  shows "inv t \<and> out t = out s \<and> inp t = inp s @ bs \<and> length bs \<le> length es * len"
  using assms
proof (induction es arbitrary: s bs)
  case (Cons e es)
  then obtain b u where r: "ss_read S e len s = Some (Inr b, u)"
    by (auto split: option.splits sum.splits)
  then obtain q where q: "stream_read_many S es len u = Some (q, t)" "map_sum id (append b) q = Inr bs"
    using Cons.prems(2) by (auto split: option.splits)
  then obtain bs' where bs': "stream_read_many S es len u = Some (Inr bs', t)" "bs = b @ bs'"
    by (cases q) auto
  show ?case
    using Cons.IH [OF _ bs'(1)] read_inv [OF Cons.prems(1) r] read_got [OF Cons.prems(1) r] bs'(2) by auto
qed simp

end

end
