(* ===== verification/Stream_Sockets.thy ===== *)
theory Stream_Sockets
  imports Stream_Socket_Spec Tcp_Sockets_Model Tls_Client_Model
begin

text \<open>
  The two implementors of \<open>StreamSocket\<close>: \<open>TcpClientSocket\<close> over its socket and the pump, and
  \<open>TlsClientSocket\<close> over a transport.  Both keep the contract, so a client written against the
  interface, such as \<open>write_all\<close>, behaves the same over either.
\<close>

section \<open>TCP\<close>

record tcp_stream =
  cs_sock :: sock
  cs_pump :: pump
  cs_out :: "byte list"
  cs_in :: "byte list"

text \<open>
  A write with the kernel's answers: the first to the call itself; when that one is \<open>EAGAIN\<close>, the
  second at the readiness event the pump dispatches.  The kernel takes a beginning of the buffer.
\<close>

fun kernel_took :: "byte list \<Rightarrow> int + nat \<Rightarrow> byte list option" where
  "kernel_took buf (Inl e) = Some []"
| "kernel_took buf (Inr n) = (if n \<le> length buf then Some (take n buf) else None)"

definition tcp_wait :: "32 word \<Rightarrow> tcp_stream \<Rightarrow> tcp_stream option" where
  "tcp_wait flags s =
     (case dispatch_event (\<lambda>w. True) (sk_fd (cs_sock s)) flags (cs_pump s) of
        (cbs, p) \<Rightarrow> if cbs = [] then None else Some (s\<lparr>cs_pump := p\<rparr>))"

fun tcp_stream_write ::
    "(raw_fd \<Rightarrow> bool) \<Rightarrow> nat \<Rightarrow> (int + nat) list \<Rightarrow> byte list \<Rightarrow> tcp_stream \<Rightarrow> (nat io_result \<times> tcp_stream) option" where
  "tcp_stream_write valid w (a # as) buf s =
     (case (kernel_took buf a, tcp_client_write valid w buf a 0 (cs_sock s) (cs_pump s)) of
        (Some took, Some (cs, k, p)) \<Rightarrow>
          let s1 = s\<lparr>cs_sock := k, cs_pump := p, cs_out := cs_out s @ took\<rparr> in
          (case (cs, as) of
             ([(_, Count r)], []) \<Rightarrow> Some (r, s1)
           | ([], [b]) \<Rightarrow>
               (case (kernel_took buf b, tcp_wait EPOLLOUT s1) of
                  (Some took', Some s2) \<Rightarrow>
                    (case on_file_can_write 0 b (cs_sock s2) of
                       ([(_, Count r)], k') \<Rightarrow> Some (r, s2\<lparr>cs_sock := k', cs_out := cs_out s2 @ took'\<rparr>)
                     | _ \<Rightarrow> None)
                | _ \<Rightarrow> None)
           | _ \<Rightarrow> None)
      | _ \<Rightarrow> None)"
| "tcp_stream_write valid w [] buf s = None"

fun tcp_stream_read ::
    "(raw_fd \<Rightarrow> bool) \<Rightarrow> nat \<Rightarrow> (int + byte list) list \<Rightarrow> nat \<Rightarrow> tcp_stream \<Rightarrow>
       (byte list io_result \<times> tcp_stream) option" where
  "tcp_stream_read valid w (a # as) len s =
     (case tcp_client_read valid w len a 0 (cs_sock s) (cs_pump s) of
        Some (cs, k, p) \<Rightarrow>
          let s1 = s\<lparr>cs_sock := k, cs_pump := p\<rparr> in
          (case (cs, as) of
             ([(_, Bytes r)], []) \<Rightarrow> Some (r, s1\<lparr>cs_in := cs_in s1 @ (case r of Inl _ \<Rightarrow> [] | Inr bs \<Rightarrow> bs)\<rparr>)
           | ([], [b]) \<Rightarrow>
               (case tcp_wait EPOLLIN s1 of
                  Some s2 \<Rightarrow>
                    (case on_file_can_read (Inl EAGAIN) b (cs_sock s2) of
                       ([(_, Bytes r)], k') \<Rightarrow>
                         Some (r, s2\<lparr>cs_sock := k', cs_in := cs_in s2 @ (case r of Inl _ \<Rightarrow> [] | Inr bs \<Rightarrow> bs)\<rparr>)
                     | _ \<Rightarrow> None)
                | None \<Rightarrow> None)
           | _ \<Rightarrow> None)
      | None \<Rightarrow> None)"
| "tcp_stream_read valid w [] len s = None"

definition tcp_stream_disconnect :: "tcp_stream \<Rightarrow> tcp_stream" where
  "tcp_stream_disconnect s =
     (case tcp_client_disconnect (cs_sock s) (cs_pump s) of (_, k, p) \<Rightarrow> s\<lparr>cs_sock := k, cs_pump := p\<rparr>)"

definition tcp_ops ::
    "(raw_fd \<Rightarrow> bool) \<Rightarrow> nat \<Rightarrow> ((int + byte list) list, (int + nat) list, tcp_stream) stream_ops" where
  "tcp_ops valid w =
     \<lparr>ss_read = tcp_stream_read valid w, ss_write = tcp_stream_write valid w,
      ss_disconnect = (\<lambda>_ s. Some (tcp_stream_disconnect s))\<rparr>"

text \<open>Between operations nothing is parked.\<close>

definition tcp_idle :: "tcp_stream \<Rightarrow> bool" where
  "tcp_idle s \<longleftrightarrow>
     sk_pending_read (cs_sock s) = None \<and> sk_pending_write (cs_sock s) = None \<and>
     sk_pending_connect (cs_sock s) = None \<and> sk_pending_accept (cs_sock s) = None"

lemma tcp_wait_fields:
  assumes "tcp_wait flags s = Some t"
  shows "cs_sock t = cs_sock s" "cs_out t = cs_out s" "cs_in t = cs_in s"
  using assms by (auto simp: tcp_wait_def split: prod.splits if_splits)

lemma kernel_took_result:
  assumes "kernel_took buf a = Some took"
  shows "os_result a = Inr n \<Longrightarrow> n \<le> length buf \<and> took = take n buf" and "os_result a = Inl e \<Longrightarrow> took = []"
  using assms by (cases a; auto simp: os_result_def split: if_splits)+

lemmas tcp_write_defs = tcp_client_write_def tcp_sock_write_def sock_write_def is_would_block_def
lemmas tcp_read_defs = tcp_client_read_def tcp_sock_read_def sock_read_def is_would_block_def

lemma tcp_write_completes:
  assumes "tcp_stream_write valid w as buf s = Some (r, t)" "tcp_idle s"
  obtains b took where "r = os_result b" "kernel_took buf b = Some took" "tcp_idle t"
    "cs_out t = cs_out s @ took" "cs_in t = cs_in s"
proof -
  obtain a as' where as: "as = a # as'" using assms(1) by (cases as) auto
  show ?thesis
  proof (cases "a = Inl EAGAIN")
    case True
    obtain k p where k: "arm_write valid w ((cs_sock s)\<lparr>sk_write_gen := sk_write_gen (cs_sock s) + 1,
        sk_pending_write := Some (WriteOp buf 0)\<rparr>) (cs_pump s) = (k, p)" by (rule prod.exhaust)
    note fields = arm_stop_fields(9-13) [of valid w "(cs_sock s)\<lparr>sk_write_gen := sk_write_gen (cs_sock s) + 1,
        sk_pending_write := Some (WriteOp buf 0)\<rparr>" "cs_pump s", unfolded k]
    obtain b took s2 where b: "as' = [b]" "kernel_took buf b = Some took"
        "tcp_wait EPOLLOUT (s\<lparr>cs_sock := k, cs_pump := p\<rparr>) = Some s2"
      using assms as True k by (auto simp: tcp_write_defs Let_def split: if_splits list.splits option.splits)
    note s2 = tcp_wait_fields [OF b(3)]
    have "on_file_can_write 0 b k = ([(0, Count (os_result b))], k\<lparr>sk_pending_write := None\<rparr>)"
      using fields assms(2) by (simp add: on_file_can_write_def tcp_idle_def)
    then have "r = os_result b \<and> t = s2\<lparr>cs_sock := k\<lparr>sk_pending_write := None\<rparr>, cs_out := cs_out s2 @ took\<rparr>"
      using assms as True k b s2(1) by (auto simp: tcp_write_defs Let_def split: if_splits)
    then show ?thesis
      using that [of b took] fields s2 b(2) assms(2) by (simp add: tcp_idle_def)
  next
    case False
    then show ?thesis
      using assms as that [of a]
      by (cases a) (auto simp: tcp_write_defs tcp_idle_def os_result_def Let_def split: if_splits list.splits option.splits)
  qed
qed

lemma tcp_read_completes:
  assumes "tcp_stream_read valid w as len s = Some (r, t)" "tcp_idle s"
  shows "tcp_idle t" "cs_out t = cs_out s" "cs_in t = cs_in s @ (case r of Inl _ \<Rightarrow> [] | Inr bs \<Rightarrow> bs)"
    "r = Inr bs \<Longrightarrow> length bs \<le> len"
proof -
  obtain a as' where as: "as = a # as'" using assms(1) by (cases as) auto
  have "tcp_idle t \<and> cs_out t = cs_out s \<and> cs_in t = cs_in s @ (case r of Inl _ \<Rightarrow> [] | Inr bs \<Rightarrow> bs) \<and>
    (\<forall>bs. r = Inr bs \<longrightarrow> length bs \<le> len)"
  proof (cases "a = Inl EAGAIN")
    case True
    obtain k p where k: "arm_read valid w ((cs_sock s)\<lparr>sk_read_gen := sk_read_gen (cs_sock s) + 1,
        sk_pending_read := Some (ReadLen len 0)\<rparr>) (cs_pump s) = (k, p)" by (rule prod.exhaust)
    note fields = arm_stop_fields(1-5) [of valid w "(cs_sock s)\<lparr>sk_read_gen := sk_read_gen (cs_sock s) + 1,
        sk_pending_read := Some (ReadLen len 0)\<rparr>" "cs_pump s", unfolded k]
    obtain b s2 where b: "as' = [b]" "tcp_wait EPOLLIN (s\<lparr>cs_sock := k, cs_pump := p\<rparr>) = Some s2"
      using assms as True k by (auto simp: tcp_read_defs Let_def split: if_splits list.splits option.splits)
    note s2 = tcp_wait_fields [OF b(2)]
    let ?r = "case b of Inl e \<Rightarrow> Inl (Os e) | Inr buf \<Rightarrow> Inr (take len buf)"
    have "on_file_can_read (Inl EAGAIN) b k = ([(0, Bytes ?r)], k\<lparr>sk_pending_read := None\<rparr>)"
      using fields assms(2) by (simp add: on_file_can_read_def tcp_idle_def)
    then have "r = ?r \<and> t = s2\<lparr>cs_sock := k\<lparr>sk_pending_read := None\<rparr>,
        cs_in := cs_in s2 @ (case ?r of Inl _ \<Rightarrow> [] | Inr bs \<Rightarrow> bs)\<rparr>"
      using assms as True k b s2(1) by (auto simp: tcp_read_defs Let_def split: if_splits)
    then show ?thesis
      using fields s2 assms(2) by (auto simp: tcp_idle_def split: sum.splits)
  next
    case False
    then show ?thesis
      using assms as
      by (cases a) (auto simp: tcp_read_defs tcp_idle_def Let_def split: if_splits list.splits option.splits)
  qed
  then show "tcp_idle t" "cs_out t = cs_out s" "cs_in t = cs_in s @ (case r of Inl _ \<Rightarrow> [] | Inr bs \<Rightarrow> bs)"
    "r = Inr bs \<Longrightarrow> length bs \<le> len" by blast+
qed

lemma tcp_write_contract:
  assumes "tcp_stream_write valid w as buf s = Some (r, t)" "tcp_idle s"
  shows "tcp_idle t" "cs_in t = cs_in s" "r = Inr n \<Longrightarrow> n \<le> length buf \<and> cs_out t = cs_out s @ take n buf"
    "r = Inl err \<Longrightarrow> cs_out t = cs_out s"
proof -
  obtain b took where b: "r = os_result b" "kernel_took buf b = Some took" "tcp_idle t"
    "cs_out t = cs_out s @ took" "cs_in t = cs_in s"
    using tcp_write_completes [OF assms] .
  show "tcp_idle t" "cs_in t = cs_in s" "r = Inr n \<Longrightarrow> n \<le> length buf \<and> cs_out t = cs_out s @ take n buf"
    "r = Inl err \<Longrightarrow> cs_out t = cs_out s"
    using b kernel_took_result [OF b(2)] by auto
qed

lemma tcp_ops_simps [simp]:
  "ss_read (tcp_ops valid w) = tcp_stream_read valid w" "ss_write (tcp_ops valid w) = tcp_stream_write valid w"
  "ss_disconnect (tcp_ops valid w) e s = Some (tcp_stream_disconnect s)"
  by (simp_all add: tcp_ops_def)

interpretation tcp_strm: stream_socket "tcp_ops valid w" tcp_idle cs_out cs_in
proof unfold_locales
  fix s s' :: tcp_stream and e f len r r' bs err buf n
  show "tcp_idle s' \<and> cs_out s' = cs_out s" if "tcp_idle s" "ss_read (tcp_ops valid w) e len s = Some (r, s')"
    using tcp_read_completes [of valid w e len s r s'] that by simp
  show "length bs \<le> len \<and> cs_in s' = cs_in s @ bs"
    if "tcp_idle s" "ss_read (tcp_ops valid w) e len s = Some (Inr bs, s')"
    using tcp_read_completes [of valid w e len s "Inr bs" s'] that by simp
  show "cs_in s' = cs_in s" if "tcp_idle s" "ss_read (tcp_ops valid w) e len s = Some (Inl err, s')"
    using tcp_read_completes [of valid w e len s "Inl err" s'] that by simp
  show "tcp_idle s' \<and> cs_in s' = cs_in s" if "tcp_idle s" "ss_write (tcp_ops valid w) f buf s = Some (r', s')"
    using tcp_write_contract [of valid w f buf s r' s'] that by simp
  show "n \<le> length buf \<and> cs_out s' = cs_out s @ take n buf"
    if "tcp_idle s" "ss_write (tcp_ops valid w) f buf s = Some (Inr n, s')"
    using tcp_write_contract(3) [of valid w f buf s "Inr n" s' n] that by simp
  show "\<exists>m. cs_out s' = cs_out s @ take m buf"
    if "tcp_idle s" "ss_write (tcp_ops valid w) f buf s = Some (Inl err, s')"
    using tcp_write_contract(4) [of valid w f buf s "Inl err" s'] that by (auto intro: exI [of _ 0])
  show "cs_out s' = cs_out s \<and> cs_in s' = cs_in s"
    if "tcp_idle s" "ss_disconnect (tcp_ops valid w) f s = Some s'"
    using that by (auto simp: tcp_stream_disconnect_def split: prod.splits)
qed

section \<open>TLS\<close>

text \<open>
  What the plaintext side of the engine is documented to do: \<open>sealed\<close> is what the writer has taken,
  \<open>opened\<close> what the reader has given; the calls that move records leave both alone.
\<close>

definition same_plain :: "('c \<Rightarrow> byte list) \<Rightarrow> ('c \<Rightarrow> byte list) \<Rightarrow> 'c \<Rightarrow> 'c \<Rightarrow> bool" where
  "same_plain sealed opened c c' \<longleftrightarrow> sealed c' = sealed c \<and> opened c' = opened c"

definition plain_laws :: "'c engine \<Rightarrow> ('c \<Rightarrow> byte list) \<Rightarrow> ('c \<Rightarrow> byte list) \<Rightarrow> bool" where
  "plain_laws E sealed opened \<longleftrightarrow>
     (\<forall>c buf c'. e_write_tls E c = (buf, c') \<longrightarrow> same_plain sealed opened c c') \<and>
     (\<forall>c d r c'. e_read_tls E d c = (r, c') \<longrightarrow> same_plain sealed opened c c') \<and>
     (\<forall>c r c'. e_process_new_packets E c = (r, c') \<longrightarrow> same_plain sealed opened c c') \<and>
     (\<forall>c. same_plain sealed opened c (e_send_close_notify E c)) \<and>
     (\<forall>c n r c'. e_reader_read E n c = (r, c') \<longrightarrow> sealed c' = sealed c \<and>
        (case r of Inl e \<Rightarrow> opened c' = opened c | Inr bs \<Rightarrow> length bs \<le> n \<and> opened c' = opened c @ bs)) \<and>
     (\<forall>c d r c'. e_writer_write_all E d c = (r, c') \<longrightarrow> opened c' = opened c \<and>
        (case r of Inl e \<Rightarrow> \<exists>m. sealed c' = sealed c @ take m d | Inr u \<Rightarrow> sealed c' = sealed c @ d))"

definition tls_stream_write ::
    "'c engine \<Rightarrow> answer list \<Rightarrow> byte list \<Rightarrow> 'c \<times> byte list \<Rightarrow> (nat io_result \<times> 'c \<times> byte list) option" where
  "tls_stream_write E as buf s =
     (case run_tls E as (tls_start (tls_write E buf (fst s)) (snd s)) of
        Some t \<Rightarrow> (case ts_pc t of Finished (TlsCount r) \<Rightarrow> Some (r, ts_conn t, ts_wire t) | _ \<Rightarrow> None)
      | None \<Rightarrow> None)"

definition tls_stream_read ::
    "'c engine \<Rightarrow> answer list \<Rightarrow> nat \<Rightarrow> 'c \<times> byte list \<Rightarrow> (byte list io_result \<times> 'c \<times> byte list) option" where
  "tls_stream_read E as len s =
     (case run_tls E as (tls_start (tls_read E len (fst s)) (snd s)) of
        Some t \<Rightarrow> (case ts_pc t of Finished (TlsBytes r) \<Rightarrow> Some (r, ts_conn t, ts_wire t) | _ \<Rightarrow> None)
      | None \<Rightarrow> None)"

definition tls_stream_disconnect ::
    "'c engine \<Rightarrow> answer list \<Rightarrow> 'c \<times> byte list \<Rightarrow> ('c \<times> byte list) option" where
  "tls_stream_disconnect E as s =
     (case run_tls E as (tls_start (tls_disconnect E (fst s)) (snd s)) of
        Some t \<Rightarrow> (case ts_pc t of Finished TlsDisconnect \<Rightarrow> Some (ts_conn t, ts_wire t) | _ \<Rightarrow> None)
      | None \<Rightarrow> None)"

definition tls_ops :: "'c engine \<Rightarrow> (answer list, answer list, 'c \<times> byte list) stream_ops" where
  "tls_ops E = \<lparr>ss_read = tls_stream_read E, ss_write = tls_stream_write E, ss_disconnect = tls_stream_disconnect E\<rparr>"

section \<open>The pumps and the plaintext\<close>

lemma same_plain_refl [simp]: "same_plain sealed opened c c"
  by (simp add: same_plain_def)

lemma same_plain_trans: "same_plain sealed opened a b \<Longrightarrow> same_plain sealed opened b c \<Longrightarrow> same_plain sealed opened a c"
  by (simp add: same_plain_def)

lemma plain_records:
  assumes "plain_laws E sealed opened"
  shows "e_write_tls E c = (buf, c') \<Longrightarrow> same_plain sealed opened c c'"
    and "e_read_tls E d c = (r, c') \<Longrightarrow> same_plain sealed opened c c'"
    and "e_process_new_packets E c = (r1, c') \<Longrightarrow> same_plain sealed opened c c'"
    and "same_plain sealed opened c (e_send_close_notify E c)"
  using assms by (auto simp: plain_laws_def)

lemma plain_reader:
  assumes "plain_laws E sealed opened" "e_reader_read E n c = (r, c')"
  shows "sealed c' = sealed c \<and>
    (case r of Inl e \<Rightarrow> opened c' = opened c | Inr bs \<Rightarrow> length bs \<le> n \<and> opened c' = opened c @ bs)"
  using assms unfolding plain_laws_def by blast

lemma plain_writer:
  assumes "plain_laws E sealed opened" "e_writer_write_all E d c = (r, c')"
  shows "opened c' = opened c \<and>
    (case r of Inl e \<Rightarrow> \<exists>m. sealed c' = sealed c @ take m d | Inr u \<Rightarrow> sealed c' = sealed c @ d)"
  using assms unfolding plain_laws_def by blast

lemma feed_slice_plain:
  assumes "plain_laws E sealed opened" "feed_slice E d c = (r, d', c')"
  shows "same_plain sealed opened c c'"
  using assms
proof (induction E d c arbitrary: r d' c' rule: feed_slice.induct)
  case (2 E b d c)
  obtain a c1 where a: "e_read_tls E (b # d) c = (a, c1)" by (rule prod.exhaust)
  obtain a2 c2 where a2: "e_process_new_packets E c1 = (a2, c2)" by (rule prod.exhaust)
  note g = plain_records(2) [OF 2(2) a] plain_records(3) [OF 2(2) a2]
  show ?case
  proof (cases "\<exists>n. a = Inr n \<and> n \<noteq> 0 \<and> a2 = Inr ()")
    case True
    then have "same_plain sealed opened c2 c'" using 2 a a2 by auto
    then show ?thesis using g same_plain_trans by metis
  next
    case False
    then show ?thesis
      using 2(3) a a2 g same_plain_trans [OF g] by (auto split: sum.splits if_splits)
  qed
qed simp

text \<open>What is known of a read, a write of \<open>len\<close> bytes and a disconnect that started at \<open>c0\<close>.\<close>

fun read_view ::
    "('c \<Rightarrow> byte list) \<Rightarrow> ('c \<Rightarrow> byte list) \<Rightarrow> nat \<Rightarrow> 'c \<Rightarrow> tls_pc \<times> 'c \<Rightarrow> bool" where
  "read_view sealed opened len c0 (WritingAll b (ReadFlushed n), c) \<longleftrightarrow> n = len \<and> same_plain sealed opened c0 c"
| "read_view sealed opened len c0 (Feeding (ReadFed n), c) \<longleftrightarrow> n = len \<and> same_plain sealed opened c0 c"
| "read_view sealed opened len c0 (Finished (TlsBytes (Inl e)), c) \<longleftrightarrow> same_plain sealed opened c0 c"
| "read_view sealed opened len c0 (Finished (TlsBytes (Inr bs)), c) \<longleftrightarrow>
     length bs \<le> len \<and> sealed c = sealed c0 \<and> opened c = opened c0 @ bs"
| "read_view sealed opened len c0 _ \<longleftrightarrow> False"

fun flush_view ::
    "('c \<Rightarrow> byte list) \<Rightarrow> ('c \<Rightarrow> byte list) \<Rightarrow> nat \<Rightarrow> 'c \<Rightarrow> tls_pc \<times> 'c \<Rightarrow> bool" where
  "flush_view sealed opened len c0 (WritingAll b (WriteFlushed n), c) \<longleftrightarrow> n = len \<and> same_plain sealed opened c0 c"
| "flush_view sealed opened len c0 (WritingAll b DisconnectFlushed, c) \<longleftrightarrow> same_plain sealed opened c0 c"
| "flush_view sealed opened len c0 (Finished (TlsCount (Inr n)), c) \<longleftrightarrow> n = len \<and> same_plain sealed opened c0 c"
| "flush_view sealed opened len c0 (Finished (TlsCount (Inl e)), c) \<longleftrightarrow> same_plain sealed opened c0 c"
| "flush_view sealed opened len c0 (Finished TlsDisconnect, c) \<longleftrightarrow> same_plain sealed opened c0 c"
| "flush_view sealed opened len c0 _ \<longleftrightarrow> False"

lemma tls_read_view:
  assumes "plain_laws E sealed opened" "same_plain sealed opened c0 c"
  shows "read_view sealed opened len c0 (tls_read E len c)"
proof -
  obtain r c' where r: "e_reader_read E len c = (r, c')" by (rule prod.exhaust)
  show ?thesis
    using plain_reader [OF assms(1) r] assms(2) r
    by (cases r) (auto simp: tls_read_def same_plain_def)
qed

lemma flush_pending_views:
  assumes "plain_laws E sealed opened" "same_plain sealed opened c0 c"
  shows "read_view sealed opened len c0 (flush_pending E (ReadFlushed len) c)"
    and "flush_view sealed opened len c0 (flush_pending E (WriteFlushed len) c)"
    and "flush_view sealed opened len c0 (flush_pending E DisconnectFlushed c)"
proof -
  obtain b c' where w: "(if e_wants_write E c then e_write_tls E c else ([], c)) = (b, c')" by (rule prod.exhaust)
  then have "same_plain sealed opened c0 c'"
    using plain_records(1) [OF assms(1)] assms(2) same_plain_trans by (metis prod.inject)
  then show "read_view sealed opened len c0 (flush_pending E (ReadFlushed len) c)"
    and "flush_view sealed opened len c0 (flush_pending E (WriteFlushed len) c)"
    and "flush_view sealed opened len c0 (flush_pending E DisconnectFlushed c)"
    using w tls_read_view [OF assms(1)] by (auto simp: flush_pending_def)
qed

lemma tls_step_read_view:
  assumes "plain_laws E sealed opened" "read_view sealed opened len c0 (ts_pc s, ts_conn s)"
    and "tls_step E a s = Some s'"
  shows "read_view sealed opened len c0 (ts_pc s', ts_conn s')"
  using assms(2)
proof (cases rule: read_view.elims(2))
  case 1
  then obtain res where a: "a = Wrote res" using assms(3) by (cases a) auto
  show ?thesis
    using 1 a assms(3) flush_pending_views(1) [OF assms(1), of c0 "ts_conn s" len]
    by (cases res) (auto simp: write_all_answer_def split: if_splits prod.splits)
next
  case 2
  then obtain res where a: "a = GotData res" using assms(3) by (cases a) auto
  obtain pc' c' where f: "feed_answer E (ReadFed len) (map_sum id (take READ_CHUNK) res) (ts_conn s) = (pc', c')"
    by (rule prod.exhaust)
  have "read_view sealed opened len c0 (pc', c')"
  proof (cases res)
    case (Inr data)
    obtain r d c1 where fs: "feed_slice E (take READ_CHUNK data) (ts_conn s) = (r, d, c1)" by (metis prod.exhaust)
    have "same_plain sealed opened c0 c1"
      using feed_slice_plain [OF assms(1) fs] 2 same_plain_trans by (metis prod.inject)
    then show ?thesis
      using f Inr fs 2 flush_pending_views(1) [OF assms(1), of c0 c1 len]
      by (auto simp: feed_answer_def split: if_splits sum.splits)
  qed (use f 2 in \<open>auto simp: feed_answer_def\<close>)
  then show ?thesis using 2 a f assms(3) by auto
qed (use assms(3) in \<open>cases a; auto\<close>)+

lemma tls_step_flush_view:
  assumes "plain_laws E sealed opened" "flush_view sealed opened len c0 (ts_pc s, ts_conn s)"
    and "tls_step E a s = Some s'"
  shows "flush_view sealed opened len c0 (ts_pc s', ts_conn s')"
  using assms(2)
proof (cases rule: flush_view.elims(2))
  case 1
  then obtain res where a: "a = Wrote res" using assms(3) by (cases a) auto
  show ?thesis
    using 1 a assms(3) flush_pending_views(2) [OF assms(1), of c0 "ts_conn s" len]
    by (cases res) (auto simp: write_all_answer_def split: if_splits prod.splits)
next
  case 2
  then obtain res where a: "a = Wrote res" using assms(3) by (cases a) auto
  show ?thesis
    using 2 a assms(3) flush_pending_views(3) [OF assms(1), of c0 "ts_conn s" len]
    by (cases res) (auto simp: write_all_answer_def split: if_splits prod.splits)
qed (use assms(3) in \<open>cases a; auto\<close>)+

lemma run_tls_finished:
  assumes "run_tls E as s = Some u" "ts_pc s = Finished out"
  shows "u = s"
proof (cases as)
  case (Cons a as')
  then show ?thesis using assms by (cases a) auto
qed (use assms in simp)

lemma tls_write_view:
  assumes "plain_laws E sealed opened" "tls_stream_write E as buf s = Some (r, t)"
  shows "opened (fst t) = opened (fst s)"
    and "r = Inr n \<Longrightarrow> n = length buf \<and> sealed (fst t) = sealed (fst s) @ buf"
    and "\<exists>m. sealed (fst t) = sealed (fst s) @ take m buf"
proof -
  obtain u where u: "run_tls E as (tls_start (tls_write E buf (fst s)) (snd s)) = Some u"
      "ts_pc u = Finished (TlsCount r)" "t = (ts_conn u, ts_wire u)"
    using assms(2) by (auto simp: tls_stream_write_def split: option.splits tls_pc.splits tls_outcome.splits)
  obtain q c1 where q: "e_writer_write_all E buf (fst s) = (q, c1)" by (rule prod.exhaust)
  note pw = plain_writer [OF assms(1) q]
  have "opened (fst t) = opened (fst s) \<and> (\<exists>m. sealed (fst t) = sealed (fst s) @ take m buf) \<and>
    (\<forall>n. r = Inr n \<longrightarrow> n = length buf \<and> sealed (fst t) = sealed (fst s) @ buf)"
  proof (cases q)
    case (Inl e)
    then have "u = \<lparr>ts_pc = Finished (TlsCount (Inl e)), ts_conn = c1, ts_wire = snd s\<rparr>"
      using run_tls_finished [OF u(1)] q by (simp add: tls_write_def tls_start_def)
    then show ?thesis using u pw Inl by auto
  next
    case (Inr x)
    have "flush_view sealed opened (length buf) c1 (ts_pc u, ts_conn u)"
      by (rule run_tls_induct [OF u(1)])
        (use q Inr flush_pending_views(2) [OF assms(1)] tls_step_flush_view [OF assms(1)] in
          \<open>auto simp: tls_write_def tls_start_def\<close>)
    then have "same_plain sealed opened c1 (ts_conn u) \<and> (\<forall>n. r = Inr n \<longrightarrow> n = length buf)"
      using u(2) by (cases r) auto
    then show ?thesis using u(3) pw Inr by (auto simp: same_plain_def intro: exI [of _ "length buf"])
  qed
  then show "opened (fst t) = opened (fst s)" and "\<exists>m. sealed (fst t) = sealed (fst s) @ take m buf"
    and "r = Inr n \<Longrightarrow> n = length buf \<and> sealed (fst t) = sealed (fst s) @ buf"
    by blast+
qed

lemma tls_read_stream_view:
  assumes "plain_laws E sealed opened" "tls_stream_read E as len s = Some (r, t)"
  shows "read_view sealed opened len (fst s) (Finished (TlsBytes r), fst t)"
proof -
  obtain u where u: "run_tls E as (tls_start (tls_read E len (fst s)) (snd s)) = Some u"
      "ts_pc u = Finished (TlsBytes r)" "t = (ts_conn u, ts_wire u)"
    using assms(2) by (auto simp: tls_stream_read_def split: option.splits tls_pc.splits tls_outcome.splits)
  have "read_view sealed opened len (fst s) (ts_pc u, ts_conn u)"
    by (rule run_tls_induct [OF u(1)])
      (use tls_read_view [OF assms(1)] tls_step_read_view [OF assms(1)] in \<open>auto simp: tls_start_def\<close>)
  then show ?thesis using u by simp
qed

lemma tls_disconnect_view:
  assumes "plain_laws E sealed opened" "tls_stream_disconnect E as s = Some t"
  shows "same_plain sealed opened (fst s) (fst t)"
proof -
  obtain u where u: "run_tls E as (tls_start (tls_disconnect E (fst s)) (snd s)) = Some u"
      "ts_pc u = Finished TlsDisconnect" "t = (ts_conn u, ts_wire u)"
    using assms(2) by (auto simp: tls_stream_disconnect_def split: option.splits tls_pc.splits tls_outcome.splits)
  have "flush_view sealed opened 0 (fst s) (ts_pc u, ts_conn u)"
    by (rule run_tls_induct [OF u(1)])
      (use plain_records(4) [OF assms(1)] flush_pending_views(3) [OF assms(1)] tls_step_flush_view [OF assms(1)] in
        \<open>auto simp: tls_disconnect_def tls_start_def\<close>)
  then show ?thesis using u by simp
qed

lemma tls_ops_simps [simp]:
  "ss_read (tls_ops E) = tls_stream_read E" "ss_write (tls_ops E) = tls_stream_write E"
  "ss_disconnect (tls_ops E) = tls_stream_disconnect E"
  by (simp_all add: tls_ops_def)

text \<open>For every engine that keeps the plaintext laws, the TLS socket is a stream socket.\<close>

lemma tls_stream_socket:
  assumes laws: "plain_laws E sealed opened"
  shows "stream_socket (tls_ops E) (\<lambda>s. True) (\<lambda>s. sealed (fst s)) (\<lambda>s. opened (fst s))"
proof
  fix s s' :: "'a \<times> byte list" and e f len r r' bs err buf n
  show "True \<and> sealed (fst s') = sealed (fst s)" if "ss_read (tls_ops E) e len s = Some (r, s')"
    using tls_read_stream_view [OF laws, of e len s r s'] that by (cases r) (auto simp: same_plain_def)
  show "length bs \<le> len \<and> opened (fst s') = opened (fst s) @ bs"
    if "ss_read (tls_ops E) e len s = Some (Inr bs, s')"
    using tls_read_stream_view [OF laws, of e len s "Inr bs" s'] that by simp
  show "opened (fst s') = opened (fst s)" if "ss_read (tls_ops E) e len s = Some (Inl err, s')"
    using tls_read_stream_view [OF laws, of e len s "Inl err" s'] that by (simp add: same_plain_def)
  show "True \<and> opened (fst s') = opened (fst s)" if "ss_write (tls_ops E) f buf s = Some (r', s')"
    using tls_write_view(1) [OF laws, of f buf s r' s'] that by simp
  show "n \<le> length buf \<and> sealed (fst s') = sealed (fst s) @ take n buf"
    if "ss_write (tls_ops E) f buf s = Some (Inr n, s')"
    using tls_write_view(2) [OF laws, of f buf s "Inr n" s' n] that by simp
  show "\<exists>m. sealed (fst s') = sealed (fst s) @ take m buf"
    if "ss_write (tls_ops E) f buf s = Some (Inl err, s')"
    using tls_write_view(3) [OF laws, of f buf s "Inl err" s'] that by simp
  show "sealed (fst s') = sealed (fst s) \<and> opened (fst s') = opened (fst s)"
    if "ss_disconnect (tls_ops E) f s = Some s'"
    using tls_disconnect_view [OF laws, of f s s'] that by (simp add: same_plain_def)
qed

section \<open>Clients of the interface\<close>

text \<open>
  A client that follows partial writes with \<open>write_all\<close> gets the same from both implementors: a
  success means that its buffer was accepted once and in order, behind what it sent before; a
  failure leaves a beginning of the buffer; and nothing it is owed by the other direction is lost.
  Over TLS the accepted bytes are the plaintext the engine has taken.
\<close>

theorem write_all_over_tcp_and_tls:
  assumes "tcp_idle s" "stream_write_all (tcp_ops valid w) es buf s = Some (r, t)"
    and "plain_laws E sealed opened" "stream_write_all (tls_ops E) es' buf s' = Some (r', t')"
  shows "tcp_idle t \<and> cs_in t = cs_in s \<and> (\<exists>m. cs_out t = cs_out s @ take m buf) \<and>
      (r = Inr () \<longrightarrow> cs_out t = cs_out s @ buf)"
    and "opened (fst t') = opened (fst s') \<and> (\<exists>m. sealed (fst t') = sealed (fst s') @ take m buf) \<and>
      (r' = Inr () \<longrightarrow> sealed (fst t') = sealed (fst s') @ buf)"
  using tcp_strm.write_all_exact [OF assms(1,2)]
    stream_socket.write_all_exact [OF tls_stream_socket [OF assms(3)] _ assms(4)] by blast+

lemma tcp_reads_contiguous:
  assumes "tcp_idle s" "stream_read_many (tcp_ops valid w) es len s = Some (Inr bs, t)"
  shows "cs_in t = cs_in s @ bs \<and> length bs \<le> length es * len"
  using tcp_strm.read_many_contiguous [OF assms] by blast

lemma tls_reads_contiguous:
  assumes "plain_laws E sealed opened" "stream_read_many (tls_ops E) es len s = Some (Inr bs, t)"
  shows "opened (fst t) = opened (fst s) @ bs \<and> length bs \<le> length es * len"
  using stream_socket.read_many_contiguous [OF tls_stream_socket [OF assms(1)] _ assms(2)] by blast

text \<open>The example engine keeps the laws, so they are consistent with those on its records.\<close>

lemma plain_engine_laws: "plain_laws plain_engine (\<lambda>c. fst c @ snd c) (\<lambda>c. [])"
  by (auto simp: plain_laws_def plain_engine_def same_plain_def)

text \<open>A buffer of three bytes over both: the kernel blocks once and takes it in two parts.\<close>

lemma write_all_example:
  "\<exists>t. stream_write_all (tcp_ops (\<lambda>fd. True) 0) [[Inl EAGAIN, Inr 2], [Inr 1]] [7, 8, 9]
       \<lparr>cs_sock = sock_from_fd 3, cs_pump = pump_new, cs_out = [], cs_in = []\<rparr> = Some (Inr (), t) \<and>
     cs_out t = [7, 8, 9]"
  "\<exists>t. stream_write_all (tls_ops plain_engine) [[Wrote (Inr 1), Wrote (Inr 1), Wrote (Inr 1)]] [7, 8, 9]
       (([], []), []) = Some (Inr (), t) \<and> snd t = [7, 8, 9]"
  by (simp_all add: tcp_write_defs tcp_wait_def dispatch_event_def arm_write_def watch_file_descriptor_def
      register_fd_def stop_watching_file_descriptor_def unregister_fd_def epoll_ctl_add_def epoll_ctl_mod_def
      controller_new_def controller_attach_def pump_new_def entry_reads_def entry_writes_def epoll_bits
      sock_from_fd_def on_file_can_write_def os_result_def EAGAIN_def tls_stream_write_def plain_engine_def
      tls_write_def tls_start_def flush_pending_def write_all_answer_def)

text \<open>
  The other way round, the loop of the pump on a transport that answers \<open>rs\<close> is \<open>write_all\<close> on that
  transport followed by the next flush.
\<close>

definition wire_ops :: "(unit, nat io_result, byte list) stream_ops" where
  "wire_ops =
     \<lparr>ss_read = (\<lambda>_ _ _. None),
      ss_write = (\<lambda>res buf wire.
        case res of
          Inl e \<Rightarrow> Some (Inl e, wire)
        | Inr n \<Rightarrow> if n \<le> length buf then Some (Inr n, wire @ take n buf) else None),
      ss_disconnect = (\<lambda>_ wire. Some wire)\<rparr>"

lemma wire_write_simps [simp]:
  "ss_write wire_ops (Inl e) buf wire = Some (Inl e, wire)"
  "ss_write wire_ops (Inr n) buf wire = (if n \<le> length buf then Some (Inr n, wire @ take n buf) else None)"
  by (simp_all add: wire_ops_def)

lemma tls_pump_is_write_all:
  assumes "stream_write_all wire_ops rs buf wire = Some (r, wire')"
  shows "\<exists>rs'. prefix rs' rs \<and>
    run_tls E (map Wrote rs') \<lparr>ts_pc = WritingAll buf k, ts_conn = c, ts_wire = wire\<rparr> =
      Some (case r of
              Inl e \<Rightarrow> \<lparr>ts_pc = Finished (tls_fail k e), ts_conn = c, ts_wire = wire'\<rparr>
            | Inr _ \<Rightarrow> tls_start (flush_pending E k c) wire')"
  using assms
proof (induction rs arbitrary: buf wire)
  case (Cons a rs)
  show ?case
  proof (cases a)
    case (Inl e)
    then show ?thesis
      using Cons.prems by (intro exI [of _ "[a]"]) (auto simp: write_all_answer_def)
  next
    case (Inr n)
    then have n: "n \<le> length buf" using Cons.prems by (auto split: if_splits)
    show ?thesis
    proof (cases "length buf \<le> n")
      case True
      then show ?thesis
        using Cons.prems Inr n
        by (intro exI [of _ "[a]"]) (auto simp: write_all_answer_def tls_start_def split: prod.split)
    next
      case False
      then obtain rs' where "prefix rs' rs"
          "run_tls E (map Wrote rs') \<lparr>ts_pc = WritingAll (drop n buf) k, ts_conn = c, ts_wire = wire @ take n buf\<rparr> =
            Some (case r of
              Inl e \<Rightarrow> \<lparr>ts_pc = Finished (tls_fail k e), ts_conn = c, ts_wire = wire'\<rparr>
            | Inr _ \<Rightarrow> tls_start (flush_pending E k c) wire')"
        using Cons.IH [of "drop n buf" "wire @ take n buf"] Cons.prems Inr n by auto
      then show ?thesis
        using False Inr n by (intro exI [of _ "a # rs'"]) (simp add: write_all_answer_def)
    qed
  qed
qed simp

end
