(* ===== verification/Runner_Lifetime.thy ===== *)
theory Runner_Lifetime
  imports Io_Task_Runner_Model
begin

text \<open>
  Who keeps an \<open>IoTaskRunner\<close> alive (\<open>io_task_runner.rs\<close>, \<open>epoll_pump.rs\<close>): the \<open>Arc\<close>s of its clients,
  counted, and the one of the IO thread, which lives from \<open>with_pump_impl\<close> to the end of \<open>drive\<close>.  The
  drop of the last one runs \<open>Drop for IoTaskRunner\<close> on the thread that held it and then drops the
  pump, which closes its two descriptors.
\<close>

section \<open>Construction and drop\<close>

definition io_with_pump_impl :: "nat \<Rightarrow> sequence_token \<Rightarrow> bool \<Rightarrow> 'u io_runner" where
  "io_with_pump_impl i tok monitored = (io_build i tok monitored)\<lparr>io_handle := True\<rparr>"

definition io_new :: "nat \<Rightarrow> sequence_token \<Rightarrow> 'u io_runner" where
  "io_new i tok = io_with_pump_impl i tok False"

definition io_new_with_monitor :: "nat \<Rightarrow> sequence_token \<Rightarrow> 'u io_runner" where
  "io_new_with_monitor i tok = io_with_pump_impl i tok True"

definition io_with_pump :: "nat \<Rightarrow> sequence_token \<Rightarrow> pump \<Rightarrow> 'u io_runner" where
  "io_with_pump i tok p = (io_with_pump_impl i tok False)\<lparr>io_pump := p\<rparr>"

record 'u owned_runner =
  ow_runner :: "'u io_runner"
  ow_clients :: nat
  ow_dropped :: bool
  ow_self_join :: bool
  ow_fds :: "raw_fd list"
  ow_closed :: "raw_fd list"

text \<open>A runner its creator holds, over the two descriptors of its pump.\<close>

definition own_new :: "raw_fd \<Rightarrow> raw_fd \<Rightarrow> 'u io_runner \<Rightarrow> 'u owned_runner" where
  "own_new epoll_fd wake_fd r =
     \<lparr>ow_runner = r, ow_clients = 1, ow_dropped = False, ow_self_join = False,
      ow_fds = [epoll_fd, wake_fd], ow_closed = []\<rparr>"

definition strong_count :: "'u owned_runner \<Rightarrow> nat" where
  "strong_count s = ow_clients s + (if io_pc (ow_runner s) = IEnd then 0 else 1)"

text \<open>\<open>IoTaskRunner::current\<close> on the IO thread: the weak reference of its thread-local, upgraded.\<close>

definition runner_current :: "'u owned_runner \<Rightarrow> nat option" where
  "runner_current s =
     (if io_current (ow_runner s) \<and> 0 < strong_count s then Some (io_id (ow_runner s)) else None)"

text \<open>\<open>Drop for EpollMessagePump\<close>.\<close>

definition pump_drop :: "'u owned_runner \<Rightarrow> 'u owned_runner" where
  "pump_drop s = s\<lparr>ow_closed := ow_closed s @ ow_fds s\<rparr>"

text \<open>
  \<open>Drop for IoTaskRunner\<close>, on the IO thread or on a client's: a handle that is still there is joined,
  which on the IO thread is a join of itself.
\<close>

definition runner_drop :: "bool \<Rightarrow> 'u owned_runner \<Rightarrow> 'u owned_runner" where
  "runner_drop on_io_thread s =
     (if io_handle (ow_runner s)
      then let r = (ow_runner s)\<lparr>io_handle := False, io_pump := pump_quit (io_pump (ow_runner s))\<rparr>
           in if on_io_thread then s\<lparr>ow_runner := r, ow_dropped := True, ow_self_join := True\<rparr>
              else pump_drop (s\<lparr>ow_runner := r, ow_dropped := True\<rparr>)
      else pump_drop (s\<lparr>ow_dropped := True\<rparr>))"

definition arc_release :: "bool \<Rightarrow> 'u owned_runner \<Rightarrow> 'u owned_runner" where
  "arc_release on_io_thread s = (if strong_count s = 0 then runner_drop on_io_thread s else s)"

section \<open>The machine\<close>

text \<open>\<open>OwnClone\<close> is a clone of a client's \<open>Arc\<close>, or \<open>current()\<close> called by a task of the runner.\<close>

datatype 'u own_label = OwnClone | OwnDrop | OwnRun "'u io_label"

text \<open>A call borrows its client's \<open>Arc\<close>, so the last one is not dropped while a call is under way.\<close>

definition calls_over :: "'u io_runner \<Rightarrow> bool" where
  "calls_over r \<longleftrightarrow> list_all (\<lambda>ops. ops = []) (io_calls r) \<and> list_all (\<lambda>pc. pc = CDone) (io_closers r)"

fun by_client :: "'u io_label \<Rightarrow> bool" where
  "by_client (IoPost b) \<longleftrightarrow> True"
| "by_client (IoPostDelayed b d) \<longleftrightarrow> True"
| "by_client (IoCallStep i) \<longleftrightarrow> True"
| "by_client IoShutdown \<longleftrightarrow> True"
| "by_client (IoClose i) \<longleftrightarrow> True"
| "by_client (IoWatch fd persistent mode w) \<longleftrightarrow> True"
| "by_client _ \<longleftrightarrow> False"

fun own_step :: "(raw_fd \<Rightarrow> bool) \<Rightarrow> (nat \<Rightarrow> bool) \<Rightarrow> 'u own_label \<Rightarrow> 'u owned_runner \<Rightarrow> 'u owned_runner option" where
  "own_step valid alive OwnClone s = (if 0 < strong_count s then Some (s\<lparr>ow_clients := ow_clients s + 1\<rparr>) else None)"
| "own_step valid alive OwnDrop s =
     (if 1 < ow_clients s \<or> ow_clients s = 1 \<and> calls_over (ow_runner s)
      then Some (arc_release False (s\<lparr>ow_clients := ow_clients s - 1\<rparr>)) else None)"
| "own_step valid alive (OwnRun l) s =
     (if by_client l \<and> ow_clients s = 0 then None
      else case io_step valid alive l (ow_runner s) of
             None \<Rightarrow> None
           | Some r \<Rightarrow>
               let s' = s\<lparr>ow_runner := r\<rparr>
               in Some (if io_pc (ow_runner s) \<noteq> IEnd \<and> io_pc r = IEnd then arc_release True s' else s'))"

definition own_init :: "'u owned_runner \<Rightarrow> bool" where
  "own_init s \<longleftrightarrow> (\<exists>i tok monitored p epoll_fd wake_fd.
     s = own_new epoll_fd wake_fd ((io_with_pump_impl i tok monitored)\<lparr>io_pump := p\<rparr>) \<and> \<not> pu_quit p)"

section \<open>What the steps of the runner keep\<close>

lemma schedule_work_quit [simp]: "pu_quit (schedule_work p) = pu_quit p"
  by (simp add: schedule_work_def)

lemma register_fd_quit [simp]: "pu_quit (snd (register_fd valid fd persistent mode w p)) = pu_quit p"
  by (auto simp: register_fd_def Let_def split: sum.split errno.split)

lemma dispatch_event_quit: "dispatch_event alive fd flags p = (cbs, p') \<Longrightarrow> pu_quit p' = pu_quit p"
  by (auto simp: dispatch_event_def Let_def split: option.splits if_splits)

definition own_kept :: "'u io_runner \<Rightarrow> 'u io_runner \<Rightarrow> bool" where
  "own_kept r r' \<longleftrightarrow>
     io_handle r' = io_handle r \<and> io_closers r' = io_closers r \<and> io_calls r' = io_calls r \<and>
     pu_quit (io_pump r') = pu_quit (io_pump r)"

lemma exec_io_op_kept:
  assumes "exec_io_op op r = (new, r')"
  shows "own_kept r r'" "io_pc r' = io_pc r"
  using assms by (cases op; auto simp: own_kept_def io_emit_def elim!: exec_io_op.elims split: if_splits)+

lemma io_dispatch_kept: "own_kept r (io_dispatch alive evs r)" "io_pc (io_dispatch alive evs r) \<noteq> IEnd"
  by (auto simp: io_dispatch_def own_kept_def clear_slot_def io_emit_def dest: dispatch_event_quit
      split: list.split io_event.split prod.split)

lemma io_thread_step_kept:
  assumes "io_thread_step alive r = Some r'"
  shows "own_kept r r'" and "io_pc r' = IEnd \<longrightarrow> pu_quit (io_pump r)" and "io_pc r \<noteq> IEnd"
proof -
  have "own_kept r r' \<and> (io_pc r' = IEnd \<longrightarrow> pu_quit (io_pump r)) \<and> io_pc r \<noteq> IEnd"
  proof (cases "io_pc r")
    case (IRun ops)
    then show ?thesis
      using assms by (cases ops) (auto simp: io_thread_step_def own_kept_def clear_slot_def dest: exec_io_op_kept split: prod.splits)
  next
    case (IRunDelayed ops)
    then show ?thesis
      using assms by (cases ops) (auto simp: io_thread_step_def own_kept_def clear_slot_def dest: exec_io_op_kept split: prod.splits)
  next
    case (IDispatch evs)
    then show ?thesis using assms by (auto simp: io_thread_step_def io_dispatch_kept)
  qed (use assms in \<open>auto simp: io_thread_step_def own_kept_def io_drive_def io_drain_def io_run_delayed_def io_check_def
      io_finish_def set_slot_def io_emit_def Let_def split: list.splits option.splits if_splits\<close>)
  then show "own_kept r r'" and "io_pc r' = IEnd \<longrightarrow> pu_quit (io_pump r)" and "io_pc r \<noteq> IEnd" by blast+
qed

text \<open>Only the thread ends itself, and only clients touch the calls, the closers and the handle.\<close>

lemma thread_label_kept:
  assumes "io_step valid alive l r = Some r'" "\<not> by_client l"
  shows "own_kept r r'" and "io_pc r = IEnd \<Longrightarrow> io_pc r' = IEnd"
    and "l \<noteq> IoEpollError \<Longrightarrow> io_pc r' = IEnd \<Longrightarrow> io_pc r = IEnd \<or> pu_quit (io_pump r)"
  using assms io_thread_step_kept [of alive r r']
  by (cases l; auto simp: own_kept_def epoll_returns_def epoll_fails_def io_finish_def split: io_pc.splits if_splits)+

lemma io_call_step_kept:
  assumes "io_call_step i r = Some r'"
  shows "io_handle r' = io_handle r" "io_closers r' = io_closers r" "pu_quit (io_pump r') = pu_quit (io_pump r)"
    "io_pc r' = io_pc r"
  using assms by (auto simp: io_call_step_def own_kept_def dest: exec_io_op_kept split: if_splits list.splits prod.splits)

definition handle_ok :: "'u io_runner \<Rightarrow> bool" where
  "handle_ok r \<longleftrightarrow>
     (io_handle r \<or> CJoin \<in> set (io_closers r) \<or> io_pc r = IEnd) \<and>
     (CJoin \<in> set (io_closers r) \<or> CDone \<in> set (io_closers r) \<longrightarrow> \<not> io_handle r)"

lemma mem_update_other:
  assumes "i < length xs" "y \<noteq> xs ! i"
  shows "y \<in> set (xs[i := z]) \<longleftrightarrow> y = z \<or> y \<in> set xs"
proof
  assume "y = z \<or> y \<in> set xs"
  then show "y \<in> set (xs[i := z])"
  proof
    assume "y \<in> set xs"
    then obtain j where "j < length xs" "xs ! j = y" by (auto simp: in_set_conv_nth)
    with assms(2) show ?thesis by (metis length_list_update nth_list_update_neq nth_mem)
  qed (use assms(1) in \<open>simp add: set_update_memI\<close>)
qed (use set_update_subset_insert [of xs i z] in auto)

lemma io_close_handle_ok:
  assumes "io_close i r = Some r'" "handle_ok r"
  shows "handle_ok r'" and "io_pc r' = io_pc r"
proof -
  obtain pc r1 where i: "i < length (io_closers r)" "close_round (io_closers r ! i) r = Some (pc, r1)"
      "r' = r1\<lparr>io_closers := (io_closers r1)[i := pc]\<rparr>"
    using assms(1) by (auto simp: io_close_def split: if_splits option.splits)
  have "handle_ok r' \<and> io_pc r' = io_pc r"
    using i(2) assms(2) i(3) mem_update_other [OF i(1)] i(1) nth_mem [OF i(1)]
    by (cases "io_closers r ! i") (auto simp: handle_ok_def set_update_memI split: if_splits)
  then show "handle_ok r'" and "io_pc r' = io_pc r" by blast+
qed

lemma client_label_kept:
  assumes "io_step valid alive l r = Some r'" "by_client l" "handle_ok r"
  shows "handle_ok r'" and "io_pc r' = io_pc r"
  using assms io_close_handle_ok [of _ r r'] io_call_step_kept [of _ r r']
  by (cases l; auto simp: io_answer_def io_emit_def handle_ok_def)+

section \<open>Ownership\<close>

definition own_inv :: "'u owned_runner \<Rightarrow> bool" where
  "own_inv s \<longleftrightarrow>
     (ow_dropped s \<longleftrightarrow> strong_count s = 0) \<and>
     ow_closed s = (if ow_dropped s \<and> \<not> ow_self_join s then ow_fds s else []) \<and>
     (ow_self_join s \<longrightarrow> ow_dropped s \<and> io_closers (ow_runner s) = []) \<and>
     (ow_clients s = 0 \<longrightarrow> calls_over (ow_runner s)) \<and>
     (\<not> ow_dropped s \<longrightarrow> handle_ok (ow_runner s))"

lemma calls_over_no_handle:
  "handle_ok r \<Longrightarrow> calls_over r \<Longrightarrow> io_handle r \<Longrightarrow> io_closers r = []"
  by (cases "io_closers r") (auto simp: handle_ok_def calls_over_def)

lemma arc_release_inv:
  assumes "\<not> ow_dropped s" "\<not> ow_self_join s" "ow_closed s = []" "handle_ok (ow_runner s)"
    and "ow_clients s = 0 \<longrightarrow> calls_over (ow_runner s)"
  shows "own_inv (arc_release b s)"
proof (cases "strong_count s = 0")
  case True
  then have "ow_clients s = 0" "io_pc (ow_runner s) = IEnd" by (auto simp: strong_count_def split: if_splits)
  then show ?thesis
    using assms True calls_over_no_handle [OF assms(4)]
    by (auto simp: arc_release_def runner_drop_def pump_drop_def own_inv_def strong_count_def calls_over_def Let_def)
qed (use assms in \<open>simp add: arc_release_def own_inv_def\<close>)

lemma own_step_inv:
  assumes "own_inv s" "own_step valid alive l s = Some t"
  shows "own_inv t"
proof (cases l)
  case OwnClone
  then show ?thesis
    using assms by (auto simp: own_inv_def strong_count_def split: if_splits)
next
  case OwnDrop
  then have c: "0 < ow_clients s" "t = arc_release False (s\<lparr>ow_clients := ow_clients s - 1\<rparr>)"
      "ow_clients s = 1 \<longrightarrow> calls_over (ow_runner s)"
    using assms(2) by (auto split: if_splits)
  then have "\<not> ow_dropped s" using assms(1) by (auto simp: own_inv_def strong_count_def)
  then show ?thesis
    unfolding c(2) using assms(1) c(3) by (intro arc_release_inv) (auto simp: own_inv_def)
next
  case (OwnRun x)
  then obtain r where r: "io_step valid alive x (ow_runner s) = Some r" "by_client x \<longrightarrow> 0 < ow_clients s"
      "t = (if io_pc (ow_runner s) \<noteq> IEnd \<and> io_pc r = IEnd then arc_release True (s\<lparr>ow_runner := r\<rparr>) else s\<lparr>ow_runner := r\<rparr>)"
    using assms(2) by (auto simp: Let_def split: if_splits option.splits)
  show ?thesis
  proof (cases "by_client x")
    case True
    then have "\<not> ow_dropped s" using r(2) assms(1) by (auto simp: own_inv_def strong_count_def)
    then show ?thesis
      using client_label_kept [OF r(1) True] r True assms(1) by (auto simp: own_inv_def strong_count_def)
  next
    case False
    note k = thread_label_kept [OF r(1) False]
    have co: "calls_over r \<longleftrightarrow> calls_over (ow_runner s)" "io_closers r = io_closers (ow_runner s)"
      using k(1) by (simp_all add: own_kept_def calls_over_def)
    have ho: "handle_ok (ow_runner s) \<Longrightarrow> handle_ok r"
      using k(1,2) by (auto simp: own_kept_def handle_ok_def)
    show ?thesis
    proof (cases "io_pc (ow_runner s) \<noteq> IEnd \<and> io_pc r = IEnd")
      case True
      then have "\<not> ow_dropped s" using assms(1) by (auto simp: own_inv_def strong_count_def)
      then have "own_inv (arc_release True (s\<lparr>ow_runner := r\<rparr>))"
        using assms(1) co ho by (intro arc_release_inv) (auto simp: own_inv_def)
      then show ?thesis using True r(3) by simp
    next
      case False
      then have "strong_count t = strong_count s" using r(3) k(2) by (auto simp: strong_count_def)
      then show ?thesis using False r(3) assms(1) co ho by (auto simp: own_inv_def)
    qed
  qed
qed

interpretation owned: inductive_invariant own_init "own_step valid alive" own_inv
proof
  fix s :: "'a owned_runner"
  assume "own_init s"
  then show "own_inv s"
    by (auto simp: own_init_def own_new_def own_inv_def io_with_pump_impl_def io_build_def strong_count_def handle_ok_def)
qed (rule own_step_inv)

section \<open>When the runner goes\<close>

text \<open>
  \<open>Drop for IoTaskRunner\<close> runs exactly when nobody holds the runner, which is after the IO thread has
  left its loop; unless it runs on the IO thread itself with the handle still there, the
  descriptors of the pump are then closed, once.
\<close>

theorem runner_dropped_after_thread_ended:
  assumes "reach own_init (own_step valid alive) s"
  shows "(ow_dropped s \<longleftrightarrow> ow_clients s = 0 \<and> io_pc (ow_runner s) = IEnd) \<and>
    ow_closed s = (if ow_dropped s \<and> \<not> ow_self_join s then ow_fds s else [])"
  using owned.reach_inv [OF assms] by (auto simp: own_inv_def strong_count_def split: if_splits)

text \<open>A client that has called \<open>shutdown\<close> and let it return, and drops its \<open>Arc\<close>, releases everything.\<close>

theorem shutdown_then_drop_releases:
  assumes "reach own_init (own_step valid alive) s" "io_closers (ow_runner s) \<noteq> []" "ow_clients s = 0"
  shows "ow_dropped s \<and> ow_closed s = ow_fds s"
proof -
  have inv: "own_inv s" using owned.reach_inv [OF assms(1)] .
  have "ow_dropped s"
  proof (rule ccontr)
    assume "\<not> ow_dropped s"
    then have "handle_ok (ow_runner s)" "calls_over (ow_runner s)" "io_pc (ow_runner s) \<noteq> IEnd"
      using inv assms(3) by (auto simp: own_inv_def strong_count_def split: if_splits)
    moreover obtain c cs where "io_closers (ow_runner s) = c # cs" using assms(2) by (cases "io_closers (ow_runner s)") auto
    ultimately show False by (auto simp: handle_ok_def calls_over_def list_all_iff)
  qed
  then show ?thesis using inv assms(2) by (auto simp: own_inv_def)
qed

text \<open>
  But \<open>Drop\<close> does not stop a running thread: without a \<open>shutdown\<close> the thread goes on for ever, also
  when the last client has dropped its \<open>Arc\<close>; the runner and its descriptors are never released.
\<close>

fun quiet_label :: "'u own_label \<Rightarrow> bool" where
  "quiet_label (OwnRun IoShutdown) \<longleftrightarrow> False"
| "quiet_label (OwnRun IoEpollError) \<longleftrightarrow> False"
| "quiet_label _ \<longleftrightarrow> True"

definition unclosed :: "'u owned_runner \<Rightarrow> bool" where
  "unclosed s \<longleftrightarrow> io_closers (ow_runner s) = [] \<and> \<not> pu_quit (io_pump (ow_runner s)) \<and> io_pc (ow_runner s) \<noteq> IEnd"

lemma unclosed_io_step:
  assumes "io_closers r = []" "\<not> pu_quit (io_pump r)" "io_pc r \<noteq> IEnd" "io_step valid alive l r = Some r'"
    and "l \<noteq> IoShutdown" "l \<noteq> IoEpollError"
  shows "io_closers r' = [] \<and> \<not> pu_quit (io_pump r') \<and> io_pc r' \<noteq> IEnd"
proof (cases "by_client l")
  case True
  then show ?thesis
    using assms io_call_step_kept [of _ r r'] by (cases l) (auto simp: io_answer_def io_emit_def io_close_def)
next
  case False
  then show ?thesis
    using assms thread_label_kept [OF assms(4) False] by (auto simp: own_kept_def)
qed

lemma unclosed_step:
  assumes "unclosed s" "own_step valid alive l s = Some t" "quiet_label l"
  shows "unclosed t"
proof (cases l)
  case (OwnRun x)
  then have "x \<noteq> IoShutdown" "x \<noteq> IoEpollError" using assms(3) by auto
  then show ?thesis
    using OwnRun assms(1,2) unclosed_io_step [of "ow_runner s" valid alive x]
    by (auto simp: unclosed_def Let_def split: if_splits option.splits)
qed (use assms in \<open>auto simp: unclosed_def arc_release_def strong_count_def split: if_splits\<close>)

theorem unclosed_runner_never_released:
  assumes "own_init s" "run (own_step valid alive) ls s = Some t" "list_all quiet_label ls"
  shows "io_pc (ow_runner t) \<noteq> IEnd \<and> \<not> ow_dropped t \<and> ow_closed t = []"
proof -
  have "unclosed s"
    using assms(1) by (auto simp: own_init_def own_new_def unclosed_def io_with_pump_impl_def io_build_def)
  then have "unclosed t"
    using assms(2,3) by (induction ls arbitrary: s) (auto split: option.splits intro: unclosed_step)
  moreover have "own_inv t" using owned.run_inv [OF owned.inv_init [OF assms(1)] assms(2)] .
  ultimately show ?thesis by (auto simp: unclosed_def own_inv_def strong_count_def)
qed

end
