(* ===== verification/Block_On_Model.thy ===== *)
theory Block_On_Model
  imports Wait_Set_Model
begin

text \<open>
  \<open>rust_async/block_on.rs\<close>: the calling thread polls, and parks until its \<open>ThreadWaker\<close> set the \<open>awoken\<close>
  flag.  A step is one atomic access or one poll; wakers run on other threads, and each is between
  its store and its \<open>unpark\<close> for a while (\<open>bo_storing\<close> counts those).  \<open>thread::park\<close> returns when the token
  of the thread is set, which it takes, and may return for no reason.
\<close>

section \<open>The machine\<close>

datatype 'v block_pc = ToPoll | InPoll | ToSwap | ToPark | Returned 'v

record 'v block_sys =
  bo_pc :: "'v block_pc"
  bo_awoken :: bool
  bo_token :: bool
  bo_storing :: nat
  bo_since :: bool

text \<open>\<open>bo_since\<close> is a history variable: some waker was called since the last poll began.\<close>

definition block_new :: "'v block_sys" where
  "block_new = \<lparr>bo_pc = ToPoll, bo_awoken = False, bo_token = False, bo_storing = 0, bo_since = False\<rparr>"

datatype 'v block_label =
    StartPoll | EndPoll "'v poll" | SwapAwoken | ParkReturns | SpuriousReturn | WakeStore | WakeUnpark

fun block_step :: "'v block_label \<Rightarrow> 'v block_sys \<Rightarrow> 'v block_sys option" where
  "block_step StartPoll s = (if bo_pc s = ToPoll then Some (s\<lparr>bo_pc := InPoll, bo_since := False\<rparr>) else None)"
| "block_step (EndPoll r) s =
     (if bo_pc s = InPoll
      then Some (s\<lparr>bo_pc := (case r of Ready v \<Rightarrow> Returned v | Pending \<Rightarrow> ToSwap)\<rparr>) else None)"
| "block_step SwapAwoken s =
     (if bo_pc s = ToSwap
      then Some (s\<lparr>bo_pc := (if bo_awoken s then ToPoll else ToPark), bo_awoken := False\<rparr>) else None)"
| "block_step ParkReturns s =
     (if bo_pc s = ToPark \<and> bo_token s then Some (s\<lparr>bo_pc := ToSwap, bo_token := False\<rparr>) else None)"
| "block_step SpuriousReturn s = (if bo_pc s = ToPark then Some (s\<lparr>bo_pc := ToSwap\<rparr>) else None)"
| "block_step WakeStore s =
     Some (s\<lparr>bo_awoken := True, bo_storing := bo_storing s + 1, bo_since := True\<rparr>)"
| "block_step WakeUnpark s =
     (if bo_storing s = 0 then None else Some (s\<lparr>bo_storing := bo_storing s - 1, bo_token := True\<rparr>))"

definition block_init :: "'v block_sys \<Rightarrow> bool" where
  "block_init s \<longleftrightarrow> s = block_new"

section \<open>No wake-up is lost\<close>

text \<open>
  A wake-up since the last poll is still in the flag, and a thread that is to park on a set flag has
  its token, or a waker on the way to it.
\<close>

definition block_inv :: "'v block_sys \<Rightarrow> bool" where
  "block_inv s \<longleftrightarrow>
     (bo_since s \<and> bo_pc s \<noteq> ToPoll \<longrightarrow> bo_awoken s) \<and>
     (bo_awoken s \<longrightarrow> bo_token s \<or> 0 < bo_storing s \<or> bo_pc s \<in> {ToPoll, InPoll, ToSwap} \<or> (\<exists>v. bo_pc s = Returned v))"

lemma block_inv_step:
  assumes "block_inv s" and "block_step l s = Some t"
  shows "block_inv t"
  using assms by (cases l) (auto simp: block_inv_def split: if_splits poll.splits)

lemma block_inv_init: "block_init s \<Longrightarrow> block_inv s"
  by (simp add: block_init_def block_new_def block_inv_def)

interpretation blocking: inductive_invariant block_init block_step block_inv
  by unfold_locales (rule block_inv_init, assumption, rule block_inv_step)

text \<open>From a state in which a wake-up has not been answered the thread gets back to its poll.\<close>

lemma woken_repolls:
  assumes inv: "block_inv s" and since: "bo_since s" and pc: "bo_pc s = ToSwap \<or> bo_pc s = ToPark"
  shows "\<exists>ls t. set ls \<subseteq> {WakeUnpark, ParkReturns, SwapAwoken} \<and> length ls \<le> 3 \<and>
    run block_step ls s = Some t \<and> bo_pc t = ToPoll"
proof -
  have awoken: "bo_awoken s" using inv since pc by (auto simp: block_inv_def)
  consider "bo_pc s = ToSwap" | "bo_pc s = ToPark" "bo_token s" | "bo_pc s = ToPark" "0 < bo_storing s"
    using inv pc awoken by (auto simp: block_inv_def)
  then show ?thesis
  proof cases
    case 1
    then show ?thesis using awoken by (intro exI [of _ "[SwapAwoken]"]) simp
  next
    case 2
    then show ?thesis using awoken by (intro exI [of _ "[ParkReturns, SwapAwoken]"]) simp
  next
    case 3
    then show ?thesis using awoken by (intro exI [of _ "[WakeUnpark, ParkReturns, SwapAwoken]"]) simp
  qed
qed

section \<open>Properties\<close>

text \<open>
  C29. \<open>block_on\<close> loses no wake-up: in every reachable state, if the waker was called since the last
  poll began (also during that poll) and the poll was pending, then the steps already under way (a
  waker's \<open>unpark\<close>, the return of \<open>park\<close>, the swap) bring the thread to its next poll, at most three of
  them.
\<close>
theorem block_on_no_lost_wakeup:
  fixes s :: "'v block_sys"
  assumes "reach block_init block_step s" and "bo_since s" and "bo_pc s = ToSwap \<or> bo_pc s = ToPark"
  shows "\<exists>ls t. set ls \<subseteq> {WakeUnpark, ParkReturns, SwapAwoken} \<and> length ls \<le> 3 \<and>
    run block_step ls s = Some t \<and> bo_pc t = ToPoll"
  by (rule woken_repolls [OF blocking.reach_inv [OF assms(1)] assms(2,3)])

definition block_demo :: "nat block_sys" where
  "block_demo = \<lparr>bo_pc = ToPark, bo_awoken = True, bo_token = False, bo_storing = 1, bo_since = True\<rparr>"

text \<open>The waker is called between the swap and the park.\<close>

lemma block_demo_run:
  "run block_step [StartPoll, EndPoll Pending, SwapAwoken, WakeStore] block_new = Some block_demo"
  by (simp add: block_new_def block_demo_def)

lemma block_demo_reach: "reach block_init block_step block_demo"
  by (rule reach_init_run [OF _ block_demo_run]) (simp add: block_init_def)

theorem block_on_no_lost_wakeup_witness:
  "\<exists>ls t. set ls \<subseteq> {WakeUnpark, ParkReturns, SwapAwoken} \<and> length ls \<le> 3 \<and>
     run block_step ls block_demo = Some t \<and> bo_pc t = ToPoll"
  using block_on_no_lost_wakeup [OF block_demo_reach] by (simp add: block_demo_def)

end
