(* ===== verification/Async_Stream_Model.thy ===== *)
theory Async_Stream_Model
  imports Wait_Set_Model
begin

text \<open>
  \<open>rust_async/stream.rs\<close>: the combinators and constructors.  A stream is the function its \<open>poll_next\<close>
  computes on its state; a combinator maps such functions to such functions, with the state of
  its inner stream and of its \<open>FnMut\<close> closure in its own.  \<open>None\<close> is a poll that never returns: the
  loops of \<open>filter\<close>, \<open>fold\<close>, \<open>for_each\<close> and \<open>collect\<close> run as long as the inner stream is ready.  What a
  stream yields is the relation \<open>yields\<close>; the reference definitions are list functions.
\<close>

type_synonym ('a, 's) stream_poll = "waker \<Rightarrow> 's \<Rightarrow> ('a option poll \<times> 's) option"

datatype panic = Panicked

type_synonym ('r, 's) future_poll = "waker \<Rightarrow> 's \<Rightarrow> ((panic + 'r poll) \<times> 's) option"

section \<open>Combinators\<close>

text \<open>\<open>StreamExt\<close>: the adapters before their first poll; \<open>e\<close> is what a closure has captured.\<close>

definition stream_map :: "'s \<Rightarrow> 'e \<Rightarrow> 's \<times> 'e" where "stream_map s e = (s, e)"
definition stream_filter :: "'s \<Rightarrow> 'e \<Rightarrow> 's \<times> 'e" where "stream_filter s e = (s, e)"
definition stream_take :: "'s \<Rightarrow> nat \<Rightarrow> 's \<times> nat" where "stream_take s n = (s, n)"
definition stream_fold :: "'s \<Rightarrow> 'b \<Rightarrow> 's \<times> 'b option" where "stream_fold s init = (s, Some init)"
definition stream_for_each :: "'s \<Rightarrow> 'e \<Rightarrow> 's \<times> 'e" where "stream_for_each s e = (s, e)"
definition stream_collect :: "'s \<Rightarrow> 's \<times> 'a list" where "stream_collect s = (s, [])"

lemmas stream_ext_defs =
  stream_map_def stream_filter_def stream_take_def stream_fold_def stream_for_each_def stream_collect_def

definition stream_next :: "('a, 's) stream_poll \<Rightarrow> ('a option, 's) future_poll" where
  "stream_next p wk s = map_option (\<lambda>(r, s'). (Inr r, s')) (p wk s)"

definition map_poll_next ::
    "('e \<Rightarrow> 'a \<Rightarrow> 'b \<times> 'e) \<Rightarrow> ('a, 's) stream_poll \<Rightarrow> ('b, 's \<times> 'e) stream_poll" where
  "map_poll_next f p wk st =
     Option.bind (p wk (fst st)) (\<lambda>(r, s).
       case r of
         Ready (Some item) \<Rightarrow> (case f (snd st) item of (b, e) \<Rightarrow> Some (Ready (Some b), (s, e)))
       | Ready None \<Rightarrow> Some (Ready None, (s, snd st))
       | Pending \<Rightarrow> Some (Pending, (s, snd st)))"

partial_function (option) filter_poll_next ::
    "('e \<Rightarrow> 'a \<Rightarrow> bool \<times> 'e) \<Rightarrow> ('a, 's) stream_poll \<Rightarrow> waker \<Rightarrow> 's \<times> 'e \<Rightarrow> ('a option poll \<times> 's \<times> 'e) option" where
  "filter_poll_next predicate p wk st =
     Option.bind (p wk (fst st)) (\<lambda>(r, s).
       case r of
         Ready (Some item) \<Rightarrow>
           (case predicate (snd st) item of
              (keep, e) \<Rightarrow> if keep then Some (Ready (Some item), (s, e)) else filter_poll_next predicate p wk (s, e))
       | Ready None \<Rightarrow> Some (Ready None, (s, snd st))
       | Pending \<Rightarrow> Some (Pending, (s, snd st)))"

definition take_poll_next :: "('a, 's) stream_poll \<Rightarrow> ('a, 's \<times> nat) stream_poll" where
  "take_poll_next p wk st =
     (if snd st = 0 then Some (Ready None, st)
      else Option.bind (p wk (fst st)) (\<lambda>(r, s).
        case r of
          Ready (Some item) \<Rightarrow> Some (Ready (Some item), (s, snd st - 1))
        | Ready None \<Rightarrow> Some (Ready None, (s, snd st))
        | Pending \<Rightarrow> Some (Pending, (s, snd st))))"

text \<open>\<open>Fold::poll\<close>: \<open>acc\<close> is taken out before the closure runs; polled after its end it panics.\<close>

partial_function (option) fold_poll ::
    "('b \<Rightarrow> 'a \<Rightarrow> 'b) \<Rightarrow> ('a, 's) stream_poll \<Rightarrow> waker \<Rightarrow> 's \<times> 'b option \<Rightarrow>
       ((panic + 'b poll) \<times> 's \<times> 'b option) option" where
  "fold_poll f p wk st =
     Option.bind (p wk (fst st)) (\<lambda>(r, s).
       case r of
         Ready (Some item) \<Rightarrow>
           (case snd st of
              None \<Rightarrow> Some (Inl Panicked, (s, None))
            | Some acc \<Rightarrow> fold_poll f p wk (s, Some (f acc item)))
       | Ready None \<Rightarrow>
           (case snd st of
              None \<Rightarrow> Some (Inl Panicked, (s, None))
            | Some acc \<Rightarrow> Some (Inr (Ready acc), (s, None)))
       | Pending \<Rightarrow> Some (Inr Pending, (s, snd st)))"

partial_function (option) for_each_poll ::
    "('e \<Rightarrow> 'a \<Rightarrow> 'e) \<Rightarrow> ('a, 's) stream_poll \<Rightarrow> waker \<Rightarrow> 's \<times> 'e \<Rightarrow> ((panic + unit poll) \<times> 's \<times> 'e) option" where
  "for_each_poll f p wk st =
     Option.bind (p wk (fst st)) (\<lambda>(r, s).
       case r of
         Ready (Some item) \<Rightarrow> for_each_poll f p wk (s, f (snd st) item)
       | Ready None \<Rightarrow> Some (Inr (Ready ()), (s, snd st))
       | Pending \<Rightarrow> Some (Inr Pending, (s, snd st)))"

partial_function (option) collect_poll ::
    "('a, 's) stream_poll \<Rightarrow> waker \<Rightarrow> 's \<times> 'a list \<Rightarrow> ((panic + 'a list poll) \<times> 's \<times> 'a list) option" where
  "collect_poll p wk st =
     Option.bind (p wk (fst st)) (\<lambda>(r, s).
       case r of
         Ready (Some item) \<Rightarrow> collect_poll p wk (s, snd st @ [item])
       | Ready None \<Rightarrow> Some (Inr (Ready (snd st)), (s, []))
       | Pending \<Rightarrow> Some (Inr Pending, (s, snd st)))"

section \<open>Constructors\<close>

definition once_poll_next :: "('a, 'a option) stream_poll" where
  "once_poll_next wk value = Some (Ready value, None)"

definition empty_poll_next :: "('a, unit) stream_poll" where
  "empty_poll_next wk u = Some (Ready None, ())"

definition repeat_poll_next :: "('a, 'a) stream_poll" where
  "repeat_poll_next wk value = Some (Ready (Some value), value)"

text \<open>\<open>from_iter\<close>: the iterator is the list of the items it has left.\<close>

definition from_iter_poll_next :: "('a, 'a list) stream_poll" where
  "from_iter_poll_next wk items =
     (case items of [] \<Rightarrow> Some (Ready None, []) | x # rest \<Rightarrow> Some (Ready (Some x), rest))"

section \<open>What a stream yields and a future resolves to\<close>

inductive yields :: "('a, 's) stream_poll \<Rightarrow> waker \<Rightarrow> 's \<Rightarrow> 'a list \<Rightarrow> bool"
  for p :: "('a, 's) stream_poll" and wk :: waker where
  yields_end: "p wk s = Some (Ready None, s') \<Longrightarrow> yields p wk s []"
| yields_item: "p wk s = Some (Ready (Some x), s') \<Longrightarrow> yields p wk s' xs \<Longrightarrow> yields p wk s (x # xs)"
| yields_pending: "p wk s = Some (Pending, s') \<Longrightarrow> yields p wk s' xs \<Longrightarrow> yields p wk s xs"

inductive resolves :: "('r, 's) future_poll \<Rightarrow> waker \<Rightarrow> 's \<Rightarrow> 'r \<Rightarrow> 's \<Rightarrow> bool"
  for q :: "('r, 's) future_poll" and wk :: waker where
  resolves_now: "q wk s = Some (Inr (Ready v), s') \<Longrightarrow> resolves q wk s v s'"
| resolves_later: "q wk s = Some (Inr Pending, s') \<Longrightarrow> resolves q wk s' v s'' \<Longrightarrow> resolves q wk s v s''"

text \<open>The reference functions thread the state of the closure.\<close>

fun map_st :: "('e \<Rightarrow> 'a \<Rightarrow> 'b \<times> 'e) \<Rightarrow> 'e \<Rightarrow> 'a list \<Rightarrow> 'b list" where
  "map_st f e [] = []"
| "map_st f e (x # xs) = (case f e x of (b, e') \<Rightarrow> b # map_st f e' xs)"

fun filter_st :: "('e \<Rightarrow> 'a \<Rightarrow> bool \<times> 'e) \<Rightarrow> 'e \<Rightarrow> 'a list \<Rightarrow> 'a list" where
  "filter_st f e [] = []"
| "filter_st f e (x # xs) = (case f e x of (keep, e') \<Rightarrow> if keep then x # filter_st f e' xs else filter_st f e' xs)"

lemma map_st_pure: "map_st (\<lambda>e x. (f x, e)) e xs = map f xs"
  by (induction xs) auto

lemma filter_st_pure: "filter_st (\<lambda>e x. (P x, e)) e xs = filter P xs"
  by (induction xs) auto

lemma yields_first:
  assumes "p wk s = p wk s'" and "yields p wk s' xs"
  shows "yields p wk s xs"
  using assms(2)
proof (cases rule: yields.cases)
  case (yields_end t)
  then show ?thesis using assms(1) yields.yields_end [of p wk s t] by simp
next
  case (yields_item x t ys)
  then show ?thesis using assms(1) yields.yields_item [of p wk s x t ys] by simp
next
  case (yields_pending t)
  then show ?thesis using assms(1) yields.yields_pending [of p wk s t xs] by simp
qed

lemma resolves_first:
  assumes "q wk s = q wk s'" and "resolves q wk s' v t"
  shows "resolves q wk s v t"
  using assms(2)
proof (cases rule: resolves.cases)
  case resolves_now
  then show ?thesis using assms(1) by (simp add: resolves.resolves_now)
next
  case (resolves_later u)
  then show ?thesis using assms(1) resolves.resolves_later [of q wk s u v t] by simp
qed

inductive_cases yields_cases: "yields p wk s xs"

lemma yields_unique: "yields p wk s xs \<Longrightarrow> yields p wk s ys \<Longrightarrow> ys = xs"
proof (induction arbitrary: ys rule: yields.induct)
  case (yields_end s s')
  from yields_end(2) show ?case
    by (rule yields_cases) (use yields_end(1) in simp_all)
next
  case (yields_item s x s' xs)
  from yields_item(4) show ?case
  proof (rule yields_cases)
    fix x' t zs assume "p wk s = Some (Ready (Some x'), t)" "ys = x' # zs" "yields p wk t zs"
    then show ?thesis using yields_item(1) yields_item.IH [of zs] by simp
  qed (use yields_item(1) in simp_all)
next
  case (yields_pending s s' xs)
  from yields_pending(4) show ?case
  proof (rule yields_cases)
    fix t assume "p wk s = Some (Pending, t)" "yields p wk t ys"
    then show ?thesis using yields_pending(1) yields_pending.IH [of ys] by simp
  qed (use yields_pending(1) in simp_all)
qed

section \<open>The combinators compute the list functions\<close>

lemma map_yields: "yields p wk s xs \<Longrightarrow> yields (map_poll_next f p) wk (s, e) (map_st f e xs)"
proof (induction arbitrary: e rule: yields.induct)
  case (yields_end s s')
  then show ?case by (auto simp: map_poll_next_def intro: yields.yields_end)
next
  case (yields_item s x s' xs)
  obtain b e' where "f e x = (b, e')" by (rule prod.exhaust)
  then show ?case
    using yields_item by (auto simp: map_poll_next_def intro!: yields.yields_item)
next
  case (yields_pending s s' xs)
  then show ?case by (auto simp: map_poll_next_def intro: yields.yields_pending)
qed

lemma filter_yields: "yields p wk s xs \<Longrightarrow> yields (filter_poll_next P p) wk (s, e) (filter_st P e xs)"
proof (induction arbitrary: e rule: yields.induct)
  case (yields_end s s')
  then have "filter_poll_next P p wk (s, e) = Some (Ready None, (s', e))"
    by (subst filter_poll_next.simps) simp
  then show ?case by (simp add: yields.yields_end)
next
  case (yields_item s x s' xs)
  obtain keep e' where k: "P e x = (keep, e')" by (rule prod.exhaust)
  have step: "filter_poll_next P p wk (s, e) =
      (if keep then Some (Ready (Some x), (s', e')) else filter_poll_next P p wk (s', e'))"
    using yields_item k by (subst filter_poll_next.simps) simp
  show ?case
  proof (cases keep)
    case True
    then show ?thesis using step k yields_item.IH [of e'] by (simp add: yields.yields_item)
  next
    case False
    then show ?thesis using step k yields_item.IH [of e'] by (auto intro: yields_first)
  qed
next
  case (yields_pending s s' xs)
  then have "filter_poll_next P p wk (s, e) = Some (Pending, (s', e))"
    by (subst filter_poll_next.simps) simp
  then show ?case using yields_pending.IH by (auto intro: yields.yields_pending)
qed

lemma take_yields: "yields p wk s xs \<Longrightarrow> yields (take_poll_next p) wk (s, n) (take n xs)"
proof (induction arbitrary: n rule: yields.induct)
  case (yields_end s s')
  then show ?case by (cases n) (auto simp: take_poll_next_def intro!: yields.yields_end)
next
  case (yields_item s x s' xs)
  show ?case
  proof (cases n)
    case 0
    then show ?thesis by (auto simp: take_poll_next_def intro!: yields.yields_end)
  next
    case (Suc m)
    then show ?thesis
      using yields_item by (auto simp: take_poll_next_def intro!: yields.yields_item)
  qed
next
  case (yields_pending s s' xs)
  show ?case
  proof (cases n)
    case 0
    then show ?thesis by (auto simp: take_poll_next_def intro!: yields.yields_end)
  next
    case (Suc m)
    have "take_poll_next p wk (s, Suc m) = Some (Pending, (s', Suc m))"
      using yields_pending by (simp add: take_poll_next_def)
    then show ?thesis using Suc yields_pending.IH yields.yields_pending by metis
  qed
qed

lemma fold_resolves: "yields p wk s xs \<Longrightarrow> \<exists>s'. resolves (fold_poll f p) wk (s, Some acc) (foldl f acc xs) (s', None)"
proof (induction arbitrary: acc rule: yields.induct)
  case (yields_end s s')
  then have "fold_poll f p wk (s, Some acc) = Some (Inr (Ready acc), (s', None))"
    by (subst fold_poll.simps) simp
  then show ?case by (auto intro: resolves.resolves_now)
next
  case (yields_item s x s' xs)
  then have "fold_poll f p wk (s, Some acc) = fold_poll f p wk (s', Some (f acc x))"
    by (subst fold_poll.simps) simp
  then show ?case using yields_item.IH [of "f acc x"] by (auto intro: resolves_first)
next
  case (yields_pending s s' xs)
  then have "fold_poll f p wk (s, Some acc) = Some (Inr Pending, (s', Some acc))"
    by (subst fold_poll.simps) simp
  then show ?case using yields_pending.IH [of acc] by (auto intro: resolves.resolves_later)
qed

lemma for_each_resolves: "yields p wk s xs \<Longrightarrow> \<exists>s'. resolves (for_each_poll f p) wk (s, e) () (s', foldl f e xs)"
proof (induction arbitrary: e rule: yields.induct)
  case (yields_end s s')
  then have "for_each_poll f p wk (s, e) = Some (Inr (Ready ()), (s', e))"
    by (subst for_each_poll.simps) simp
  then show ?case by (auto intro: resolves.resolves_now)
next
  case (yields_item s x s' xs)
  then have "for_each_poll f p wk (s, e) = for_each_poll f p wk (s', f e x)"
    by (subst for_each_poll.simps) simp
  then show ?case using yields_item.IH [of "f e x"] by (auto intro: resolves_first)
next
  case (yields_pending s s' xs)
  then have "for_each_poll f p wk (s, e) = Some (Inr Pending, (s', e))"
    by (subst for_each_poll.simps) simp
  then show ?case using yields_pending.IH [of e] by (auto intro: resolves.resolves_later)
qed

lemma collect_resolves: "yields p wk s xs \<Longrightarrow> \<exists>s'. resolves (collect_poll p) wk (s, items) (items @ xs) (s', [])"
proof (induction arbitrary: items rule: yields.induct)
  case (yields_end s s')
  then have "collect_poll p wk (s, items) = Some (Inr (Ready items), (s', []))"
    by (subst collect_poll.simps) simp
  then show ?case by (auto intro: resolves.resolves_now)
next
  case (yields_item s x s' xs)
  then have "collect_poll p wk (s, items) = collect_poll p wk (s', items @ [x])"
    by (subst collect_poll.simps) simp
  then show ?case using yields_item.IH [of "items @ [x]"] by (auto intro: resolves_first)
next
  case (yields_pending s s' xs)
  then have "collect_poll p wk (s, items) = Some (Inr Pending, (s', items))"
    by (subst collect_poll.simps) simp
  then show ?case using yields_pending.IH [of items] by (auto intro: resolves.resolves_later)
qed

section \<open>Constructors\<close>

lemma once_yields: "yields once_poll_next wk (Some v) [v]"
proof (rule yields_item)
  show "once_poll_next wk (Some v) = Some (Ready (Some v), None)" by (simp add: once_poll_next_def)
  show "yields once_poll_next wk None []" by (rule yields_end [of _ _ _ None]) (simp add: once_poll_next_def)
qed

lemma empty_yields: "yields empty_poll_next wk () []"
  by (rule yields_end [of _ _ _ "()"]) (simp add: empty_poll_next_def)

lemma from_iter_yields: "yields from_iter_poll_next wk xs xs"
proof (induction xs)
  case Nil
  show ?case by (rule yields_end [of _ _ _ "[]"]) (simp add: from_iter_poll_next_def)
next
  case (Cons x xs)
  show ?case by (rule yields_item [OF _ Cons]) (simp add: from_iter_poll_next_def)
qed

text \<open>\<open>repeat\<close> never ends, but a bounded part of it does.\<close>

lemma take_repeat_yields: "yields (take_poll_next repeat_poll_next) wk (v, n) (replicate n v)"
proof (induction n)
  case 0
  have "take_poll_next repeat_poll_next wk (v, 0) = Some (Ready None, (v, 0))" by (simp add: take_poll_next_def)
  then show ?case by (simp add: yields_end)
next
  case (Suc n)
  have "take_poll_next repeat_poll_next wk (v, Suc n) = Some (Ready (Some v), (v, n))"
    by (simp add: take_poll_next_def repeat_poll_next_def)
  then show ?case using Suc by (simp add: yields_item)
qed

section \<open>Properties\<close>

text \<open>
  C31. The combinators are the list functions: over every stream that yields \<open>xs\<close>, with any pending polls
  in between, collecting the first \<open>n\<close> of the filtered mapped items resolves to the first \<open>n\<close> of the
  filtered mapped list, closures with state included; no loop of the adapters runs for ever.
\<close>
theorem stream_pipeline_is_list_pipeline:
  assumes "yields p wk s xs"
  shows "\<exists>t. resolves (collect_poll (take_poll_next (filter_poll_next P (map_poll_next f p)))) wk
    (stream_collect (stream_take (stream_filter (stream_map s e) d) n)) (take n (filter_st P d (map_st f e xs))) t"
proof -
  have "yields (take_poll_next (filter_poll_next P (map_poll_next f p))) wk (((s, e), d), n)
      (take n (filter_st P d (map_st f e xs)))"
    by (intro take_yields filter_yields map_yields assms)
  from collect_resolves [OF this, of "[]"] show ?thesis unfolding stream_ext_defs by (metis append_Nil)
qed

lemma pipeline_items:
  "take 2 (filter_st (\<lambda>_ x. (5 \<le> x, ())) () (map_st (\<lambda>_ x. (x + 2, ())) () [1, 3, 2, 5, 7 :: int])) = [5, 7]"
  by code_simp

theorem stream_pipeline_is_list_pipeline_witness:
  "\<exists>t. resolves (collect_poll (take_poll_next
      (filter_poll_next (\<lambda>_ x. (5 \<le> x, ())) (map_poll_next (\<lambda>_ x. (x + 2, ())) from_iter_poll_next)))) 0
    (stream_collect (stream_take (stream_filter (stream_map [1, 3, 2, 5, 7 :: int] ()) ()) 2)) [5, 7] t"
  by (rule stream_pipeline_is_list_pipeline [OF from_iter_yields, where n = 2 and wk = 0 and s = "[1, 3, 2, 5, 7 :: int]"
      and P = "\<lambda>_ x. (5 \<le> x, ())" and f = "\<lambda>_ x. (x + 2, ())" and e = "()" and d = "()", unfolded pipeline_items])

end
