(* ===== verification/Async_Task_Model.thy ===== *)
theory Async_Task_Model
  imports Wait_Set_Model
begin

text \<open>
  The leaf futures of \<open>rust_async/task.rs\<close>, the one-shot channel of \<open>fs.rs\<close>, \<open>interval\<close> of \<open>stream.rs\<close> and
  \<open>block_on.rs\<close>.  All of them hand a result from another thread to a polled future through a small
  cell under a mutex; the contract they share is the locale \<open>wake_cell\<close>.  The delayed tasks of the
  reactor are due times, which \<open>Io_Task_Runner_Model\<close> never runs early.
\<close>

section \<open>Cells\<close>

record 'v cell =
  ce_value :: "'v option"
  ce_waker :: "waker option"

definition oneshot :: "'v cell" where
  "oneshot = \<lparr>ce_value = None, ce_waker = None\<rparr>"

text \<open>\<open>Setter::set\<close>: the waker it calls after it released the lock.\<close>

definition setter_set :: "'v \<Rightarrow> 'v cell \<Rightarrow> waker option \<times> 'v cell" where
  "setter_set v c = (ce_waker c, c\<lparr>ce_value := Some v, ce_waker := None\<rparr>)"

definition oneshot_poll :: "waker \<Rightarrow> 'v cell \<Rightarrow> 'v poll \<times> 'v cell" where
  "oneshot_poll wk c =
     (case ce_value c of
        Some v \<Rightarrow> (Ready v, c\<lparr>ce_value := None\<rparr>)
      | None \<Rightarrow> (Pending, c\<lparr>ce_waker := Some wk\<rparr>))"

text \<open>\<open>Offload\<close>: the first poll posts the job to the blocking pool; the second component is that post.\<close>

record ('j, 'v) offload_fut =
  of_job :: "'j option"
  of_cell :: "'v cell"

definition offload :: "'j \<Rightarrow> ('j, 'v) offload_fut" where
  "offload f = \<lparr>of_job = Some f, of_cell = \<lparr>ce_value = None, ce_waker = None\<rparr>\<rparr>"

definition offload_poll :: "waker \<Rightarrow> ('j, 'v) offload_fut \<Rightarrow> 'v poll \<times> 'j option \<times> ('j, 'v) offload_fut" where
  "offload_poll wk f =
     (let posted = of_job f; f1 = f\<lparr>of_job := None\<rparr>
      in case ce_value (of_cell f1) of
           Some v \<Rightarrow> (Ready v, posted, f1\<lparr>of_cell := (of_cell f1)\<lparr>ce_value := None\<rparr>\<rparr>)
         | None \<Rightarrow> (Pending, posted, f1\<lparr>of_cell := (of_cell f1)\<lparr>ce_waker := Some wk\<rparr>\<rparr>))"

text \<open>\<open>TimerState\<close> and \<open>TickState\<close>.\<close>

record timer_cell =
  tc_fired :: bool
  tc_waker :: "waker option"

definition timer_fire :: "timer_cell \<Rightarrow> waker option \<times> timer_cell" where
  "timer_fire c = (tc_waker c, c\<lparr>tc_fired := True, tc_waker := None\<rparr>)"

record timer_fut =
  tf_dur :: duration
  tf_cell :: timer_cell
  tf_scheduled :: bool

definition sleep :: "duration \<Rightarrow> timer_fut" where
  "sleep dur = \<lparr>tf_dur = dur, tf_cell = \<lparr>tc_fired = False, tc_waker = None\<rparr>, tf_scheduled = False\<rparr>"

definition interval_new :: "duration \<Rightarrow> timer_fut" where
  "interval_new period = \<lparr>tf_dur = period, tf_cell = \<lparr>tc_fired = False, tc_waker = None\<rparr>, tf_scheduled = False\<rparr>"

text \<open>\<open>Timer::poll\<close>; the second component says whether it posts the delayed task.\<close>

definition timer_poll :: "waker \<Rightarrow> timer_fut \<Rightarrow> unit poll \<times> bool \<times> timer_fut" where
  "timer_poll wk f =
     (if tc_fired (tf_cell f) then (Ready (), False, f)
      else let f1 = f\<lparr>tf_cell := (tf_cell f)\<lparr>tc_waker := Some wk\<rparr>\<rparr>
           in if tf_scheduled f1 then (Pending, False, f1)
              else (Pending, True, f1\<lparr>tf_scheduled := True\<rparr>))"

text \<open>\<open>Interval::poll_next\<close>: a tick is consumed, the next poll schedules the next one.\<close>

definition interval_poll_next :: "waker \<Rightarrow> timer_fut \<Rightarrow> unit option poll \<times> bool \<times> timer_fut" where
  "interval_poll_next wk f =
     (if tc_fired (tf_cell f)
      then (Ready (Some ()), False, f\<lparr>tf_cell := (tf_cell f)\<lparr>tc_fired := False\<rparr>, tf_scheduled := False\<rparr>)
      else let f1 = f\<lparr>tf_cell := (tf_cell f)\<lparr>tc_waker := Some wk\<rparr>\<rparr>
           in if tf_scheduled f1 then (Pending, False, f1)
              else (Pending, True, f1\<lparr>tf_scheduled := True\<rparr>))"

text \<open>\<open>Timeout::poll\<close> over any future; the inner one is asked first.\<close>

datatype timeout_error = TimeoutError

definition timeout_poll ::
    "(waker \<Rightarrow> 'f \<Rightarrow> 'v poll \<times> 'f) \<Rightarrow> waker \<Rightarrow> 'f \<times> timer_fut \<Rightarrow> (timeout_error + 'v) poll \<times> bool \<times> 'f \<times> timer_fut" where
  "timeout_poll inner wk t =
     (case inner wk (fst t) of
        (Ready v, f) \<Rightarrow> (Ready (Inr v), False, f, snd t)
      | (Pending, f) \<Rightarrow>
          (case timer_poll wk (snd t) of
             (Ready _, post, tm) \<Rightarrow> (Ready (Inl TimeoutError), post, f, tm)
           | (Pending, post, tm) \<Rightarrow> (Pending, post, f, tm)))"

definition timeout_error_to_io :: "timeout_error \<Rightarrow> io_error" where
  "timeout_error_to_io _ = Custom TimedOut ''future timed out''"

text \<open>\<open>YieldNow::poll\<close>: the first poll wakes its own waker.\<close>

definition yield_poll :: "waker \<Rightarrow> bool \<Rightarrow> unit poll \<times> waker list \<times> bool" where
  "yield_poll wk yielded = (if yielded then (Ready (), [], True) else (Pending, [wk], True))"

section \<open>The contract of a cell\<close>

text \<open>
  \<open>put\<close> is the producer's lock region and \<open>get\<close> the consumer's; \<open>full\<close> says that a result is there and
  \<open>slot\<close> is the stored waker.
\<close>

locale wake_cell =
  fixes put :: "'s \<Rightarrow> waker option \<times> 's"
    and get :: "waker \<Rightarrow> 's \<Rightarrow> 'r poll \<times> 's"
    and full :: "'s \<Rightarrow> bool"
    and slot :: "'s \<Rightarrow> waker option"
  assumes put_wakes: "fst (put s) = slot s"
    and put_full: "full (snd (put s))"
    and get_full: "full s \<Longrightarrow> fst (get wk s) \<noteq> Pending"
    and get_empty: "\<not> full s \<Longrightarrow> fst (get wk s) = Pending"
    and get_keeps: "\<not> full s \<Longrightarrow> \<not> full (snd (get wk s))"
    and get_registers: "\<not> full s \<Longrightarrow> slot (snd (get wk s)) = Some wk"
begin

text \<open>Any number of polls before the result arrives: the last one is woken, and the next poll is ready.\<close>

lemma polls_keep_empty:
  assumes "\<not> full s"
  shows "\<not> full (fold (\<lambda>wk s. snd (get wk s)) wks s)"
  using assms by (induction wks arbitrary: s) (simp_all add: get_keeps)

lemma last_poll_woken:
  assumes "\<not> full s"
  shows "fst (put (fold (\<lambda>wk s. snd (get wk s)) (wks @ [wk]) s)) = Some wk"
  using polls_keep_empty [OF assms] by (simp add: put_wakes get_registers)

lemma ready_after_put: "fst (get wk (snd (put s))) \<noteq> Pending"
  by (rule get_full [OF put_full])

end

interpretation oneshot: wake_cell "setter_set v" oneshot_poll "\<lambda>c. ce_value c \<noteq> None" ce_waker for v
  by unfold_locales (auto simp: setter_set_def oneshot_poll_def split: option.splits)

interpretation offload: wake_cell
  "\<lambda>f. let (w, c) = setter_set v (of_cell f) in (w, f\<lparr>of_cell := c\<rparr>)"
  "\<lambda>wk f. let (r, _, f') = offload_poll wk f in (r, f')"
  "\<lambda>f. ce_value (of_cell f) \<noteq> None" "\<lambda>f. ce_waker (of_cell f)" for v
  by unfold_locales (auto simp: setter_set_def offload_poll_def Let_def split: option.splits)

interpretation timer: wake_cell
  "\<lambda>f. let (w, c) = timer_fire (tf_cell f) in (w, f\<lparr>tf_cell := c\<rparr>)"
  "\<lambda>wk f. let (r, _, f') = timer_poll wk f in (r, f')"
  "\<lambda>f. tc_fired (tf_cell f)" "\<lambda>f. tc_waker (tf_cell f)"
  by unfold_locales (auto simp: timer_fire_def timer_poll_def Let_def)

interpretation tick: wake_cell
  "\<lambda>f. let (w, c) = timer_fire (tf_cell f) in (w, f\<lparr>tf_cell := c\<rparr>)"
  "\<lambda>wk f. let (r, _, f') = interval_poll_next wk f in (r, f')"
  "\<lambda>f. tc_fired (tf_cell f)" "\<lambda>f. tc_waker (tf_cell f)"
  by unfold_locales (auto simp: timer_fire_def interval_poll_next_def Let_def)

section \<open>Timers over the reactor's clock\<close>

text \<open>
  One timer future, the delayed task it posted (\<open>tm_due\<close>) and the clock.  \<open>tm_log\<close> are the times of the
  polls that were ready, \<open>tm_waiting\<close> the waker of the last poll if it was pending; a reactor that is not
  \<open>tm_open\<close> any more drops what is posted to it.
\<close>

record timer_sys =
  tm_start :: instant
  tm_now :: instant
  tm_fut :: timer_fut
  tm_due :: "instant option"
  tm_open :: bool
  tm_log :: "instant list"
  tm_waiting :: "waker option"
  tm_woken :: "waker list"

definition timer_init :: "duration \<Rightarrow> timer_sys \<Rightarrow> bool" where
  "timer_init dur s \<longleftrightarrow>
     s = \<lparr>tm_start = tm_start s, tm_now = tm_start s, tm_fut = sleep dur, tm_due = None, tm_open = True,
          tm_log = [], tm_waiting = None, tm_woken = []\<rparr>"

datatype clock_label = PollTimer waker | Elapse duration | FireTimer | CloseReactor

fun clock_step ::
    "(waker \<Rightarrow> timer_fut \<Rightarrow> 'r poll \<times> bool \<times> timer_fut) \<Rightarrow> clock_label \<Rightarrow> timer_sys \<Rightarrow> timer_sys option" where
  "clock_step p (PollTimer wk) s =
     (case p wk (tm_fut s) of
        (r, post, f) \<Rightarrow>
          Some (s\<lparr>tm_fut := f, tm_due := (if post \<and> tm_open s then Some (tm_now s + tf_dur f) else tm_due s),
                  tm_log := (case r of Ready _ \<Rightarrow> tm_log s @ [tm_now s] | Pending \<Rightarrow> tm_log s),
                  tm_waiting := (case r of Ready _ \<Rightarrow> None | Pending \<Rightarrow> Some wk)\<rparr>))"
| "clock_step p (Elapse d) s = Some (s\<lparr>tm_now := tm_now s + d\<rparr>)"
| "clock_step p FireTimer s =
     (case tm_due s of
        None \<Rightarrow> None
      | Some due \<Rightarrow>
          if due \<le> tm_now s
          then (case timer_fire (tf_cell (tm_fut s)) of
                  (w, c) \<Rightarrow> Some (s\<lparr>tm_fut := (tm_fut s)\<lparr>tf_cell := c\<rparr>, tm_due := None,
                     tm_woken := tm_woken s @ (case w of None \<Rightarrow> [] | Some wk \<Rightarrow> [wk])\<rparr>))
          else None)"
| "clock_step p CloseReactor s = Some (s\<lparr>tm_open := False\<rparr>)"

text \<open>Whoever waits is registered and, with an open reactor, expected; or was woken and is ready.\<close>

definition waiter_served :: "timer_sys \<Rightarrow> bool" where
  "waiter_served s \<longleftrightarrow>
     (\<forall>wk. tm_waiting s = Some wk \<longrightarrow>
        (if tc_fired (tf_cell (tm_fut s)) then wk \<in> set (tm_woken s)
         else tc_waker (tf_cell (tm_fut s)) = Some wk \<and> (tm_open s \<longrightarrow> tm_due s \<noteq> None)))"

text \<open>The shape both kinds of timer keep: what is due was scheduled and has not fired.\<close>

definition timer_shape :: "timer_sys \<Rightarrow> bool" where
  "timer_shape s \<longleftrightarrow>
     (tm_due s \<noteq> None \<longrightarrow> tf_scheduled (tm_fut s) \<and> \<not> tc_fired (tf_cell (tm_fut s))) \<and>
     (tc_fired (tf_cell (tm_fut s)) \<longrightarrow> tf_scheduled (tm_fut s)) \<and>
     (tf_scheduled (tm_fut s) \<and> \<not> tc_fired (tf_cell (tm_fut s)) \<and> tm_open s \<longrightarrow> tm_due s \<noteq> None)"

text \<open>Nothing fires before \<open>(n + 1)\<close> periods after the start, where \<open>n\<close> ticks were consumed.\<close>

definition ticks_paced :: "duration \<Rightarrow> nat \<Rightarrow> timer_sys \<Rightarrow> bool" where
  "ticks_paced period n s \<longleftrightarrow>
     tf_dur (tm_fut s) = period \<and> tm_start s + n * period \<le> tm_now s \<and>
     (\<forall>d. tm_due s = Some d \<longrightarrow> tm_start s + Suc n * period \<le> d) \<and>
     (tc_fired (tf_cell (tm_fut s)) \<longrightarrow> tm_start s + Suc n * period \<le> tm_now s)"

definition sleep_inv :: "duration \<Rightarrow> timer_sys \<Rightarrow> bool" where
  "sleep_inv dur s \<longleftrightarrow>
     waiter_served s \<and> timer_shape s \<and> ticks_paced dur 0 s \<and> (\<forall>t\<in>set (tm_log s). tm_start s + dur \<le> t)"

definition interval_inv :: "duration \<Rightarrow> timer_sys \<Rightarrow> bool" where
  "interval_inv period s \<longleftrightarrow>
     waiter_served s \<and> timer_shape s \<and> ticks_paced period (length (tm_log s)) s \<and>
     (\<forall>i < length (tm_log s). tm_start s + Suc i * period \<le> tm_log s ! i)"

text \<open>The steps that are no polls keep the three parts.\<close>

lemma fire_parts:
  assumes step: "clock_step p FireTimer s = Some t" and shape: "timer_shape s"
  shows "waiter_served s \<Longrightarrow> waiter_served t" "timer_shape t"
    and "ticks_paced period n s \<Longrightarrow> ticks_paced period n t"
    and "tm_log t = tm_log s" "tm_start t = tm_start s"
proof -
  obtain due where d: "tm_due s = Some due" "due \<le> tm_now s"
    using step by (auto split: option.splits if_splits)
  have t: "t = s\<lparr>tm_fut := (tm_fut s)\<lparr>tf_cell := (tf_cell (tm_fut s))\<lparr>tc_fired := True, tc_waker := None\<rparr>\<rparr>,
      tm_due := None,
      tm_woken := tm_woken s @ (case tc_waker (tf_cell (tm_fut s)) of None \<Rightarrow> [] | Some wk \<Rightarrow> [wk])\<rparr>"
    using step d by (simp add: timer_fire_def)
  show "waiter_served t" if "waiter_served s"
    using that shape d by (simp add: waiter_served_def timer_shape_def t)
  show "timer_shape t" "tm_log t = tm_log s" "tm_start t = tm_start s"
    using shape d by (simp_all add: timer_shape_def t)
  assume paced: "ticks_paced period n s"
  then have "tm_start s + Suc n * period \<le> due" using d by (simp add: ticks_paced_def)
  then have "tm_start s + Suc n * period \<le> tm_now s" using d(2) by (rule order_trans)
  then show "ticks_paced period n t"
    using paced unfolding ticks_paced_def t by simp
qed

lemma timer_other_parts:
  assumes step: "clock_step p l s = Some t" and l: "\<forall>wk. l \<noteq> PollTimer wk" and shape: "timer_shape s"
  shows "waiter_served s \<Longrightarrow> waiter_served t" "timer_shape t"
    and "ticks_paced period n s \<Longrightarrow> ticks_paced period n t"
    and "tm_log t = tm_log s" "tm_start t = tm_start s"
proof -
  have "(waiter_served s \<longrightarrow> waiter_served t) \<and> timer_shape t \<and>
    (ticks_paced period n s \<longrightarrow> ticks_paced period n t) \<and> tm_log t = tm_log s \<and> tm_start t = tm_start s"
  proof (cases l)
    case FireTimer
    then have fire: "clock_step p FireTimer s = Some t" using step by simp
    show ?thesis using fire_parts [OF fire shape] by blast
  next
    case (Elapse d)
    then have t: "t = s\<lparr>tm_now := tm_now s + d\<rparr>" using step by simp
    have "ticks_paced period n t" if p: "ticks_paced period n s"
    proof -
      have "tm_start s + n * period \<le> tm_now s + d"
        using p unfolding ticks_paced_def by (metis trans_le_add1)
      moreover have "tm_start s + Suc n * period \<le> tm_now s + d" if "tc_fired (tf_cell (tm_fut s))"
        using p that unfolding ticks_paced_def by (metis trans_le_add1)
      ultimately show ?thesis using p unfolding ticks_paced_def t by simp
    qed
    moreover have "waiter_served t = waiter_served s" "timer_shape t = timer_shape s"
      by (simp_all add: waiter_served_def timer_shape_def t)
    ultimately show ?thesis using shape t by simp
  next
    case CloseReactor
    then have t: "t = s\<lparr>tm_open := False\<rparr>" using step by simp
    have "waiter_served s \<Longrightarrow> waiter_served t" "ticks_paced period n t = ticks_paced period n s"
      by (simp_all add: waiter_served_def ticks_paced_def t)
    moreover have "tm_due t = tm_due s" "tm_fut t = tm_fut s" "\<not> tm_open t" by (simp_all add: t)
    then have "timer_shape t"
      using shape unfolding timer_shape_def by metis
    ultimately show ?thesis by (simp add: t)
  qed (use l in simp)
  then show "waiter_served s \<Longrightarrow> waiter_served t" "timer_shape t"
    "ticks_paced period n s \<Longrightarrow> ticks_paced period n t" "tm_log t = tm_log s" "tm_start t = tm_start s"
    by blast+
qed

text \<open>A pending poll, which is the same for both kinds, and a ready one.\<close>

definition pending_poll :: "waker \<Rightarrow> timer_sys \<Rightarrow> timer_sys" where
  "pending_poll wk s =
     s\<lparr>tm_fut := (tm_fut s)\<lparr>tf_cell := (tf_cell (tm_fut s))\<lparr>tc_waker := Some wk\<rparr>, tf_scheduled := True\<rparr>,
       tm_due := (if \<not> tf_scheduled (tm_fut s) \<and> tm_open s then Some (tm_now s + tf_dur (tm_fut s)) else tm_due s),
       tm_waiting := Some wk\<rparr>"

lemma pending_polls:
  assumes "\<not> tc_fired (tf_cell (tm_fut s))"
  shows "clock_step timer_poll (PollTimer wk) s = Some (pending_poll wk s)"
    and "clock_step interval_poll_next (PollTimer wk) s = Some (pending_poll wk s)"
  using assms by (auto simp: timer_poll_def interval_poll_next_def pending_poll_def Let_def)

lemma pending_poll_parts:
  assumes "\<not> tc_fired (tf_cell (tm_fut s))" "timer_shape s"
  shows "waiter_served (pending_poll wk s)" "timer_shape (pending_poll wk s)"
    and "ticks_paced period n s \<Longrightarrow> ticks_paced period n (pending_poll wk s)"
proof -
  show "waiter_served (pending_poll wk s)" "timer_shape (pending_poll wk s)"
    using assms by (auto simp: waiter_served_def timer_shape_def pending_poll_def)
  assume paced: "ticks_paced period n s"
  then have "tm_start s + Suc n * period \<le> tm_now s + tf_dur (tm_fut s)"
    by (simp add: ticks_paced_def)
  then show "ticks_paced period n (pending_poll wk s)"
    using paced assms(1) unfolding ticks_paced_def pending_poll_def by simp
qed

lemma sleep_inv_step:
  assumes inv: "sleep_inv dur s" and step: "clock_step timer_poll l s = Some t"
  shows "sleep_inv dur t"
proof (cases "\<exists>wk. l = PollTimer wk")
  case True
  then obtain wk where l: "l = PollTimer wk" by blast
  show ?thesis
  proof (cases "tc_fired (tf_cell (tm_fut s))")
    case fired: True
    then have "t = s\<lparr>tm_log := tm_log s @ [tm_now s], tm_waiting := None\<rparr>"
      using step l by (simp add: timer_poll_def)
    then show ?thesis
      using inv fired by (auto simp: sleep_inv_def waiter_served_def timer_shape_def ticks_paced_def)
  next
    case False
    then have "t = pending_poll wk s" using step l pending_polls(1) by simp
    then show ?thesis
      using inv pending_poll_parts [OF False] by (simp add: sleep_inv_def pending_poll_def)
  qed
next
  case False
  then show ?thesis
    using inv timer_other_parts [OF step] by (simp add: sleep_inv_def)
qed

lemma interval_inv_step:
  assumes inv: "interval_inv period s" and step: "clock_step interval_poll_next l s = Some t"
  shows "interval_inv period t"
proof (cases "\<exists>wk. l = PollTimer wk")
  case True
  then obtain wk where l: "l = PollTimer wk" by blast
  show ?thesis
  proof (cases "tc_fired (tf_cell (tm_fut s))")
    case fired: True
    then have t: "t = s\<lparr>tm_fut := (tm_fut s)\<lparr>tf_cell := (tf_cell (tm_fut s))\<lparr>tc_fired := False\<rparr>, tf_scheduled := False\<rparr>,
        tm_log := tm_log s @ [tm_now s], tm_waiting := None\<rparr>"
      using step l by (simp add: interval_poll_next_def)
    have "tm_due s = None" "tm_start s + Suc (length (tm_log s)) * period \<le> tm_now s"
      using inv fired by (auto simp: interval_inv_def timer_shape_def ticks_paced_def)
    then show ?thesis
      using inv unfolding interval_inv_def t
      by (simp add: waiter_served_def timer_shape_def ticks_paced_def nth_append less_Suc_eq)
  next
    case False
    then have "t = pending_poll wk s" using step l pending_polls(2) by simp
    then show ?thesis
      using inv pending_poll_parts [OF False] by (simp add: interval_inv_def pending_poll_def)
  qed
next
  case False
  then show ?thesis
    using inv timer_other_parts [OF step] by (simp add: interval_inv_def)
qed

lemma timer_init_inv:
  assumes "timer_init dur s"
  shows "sleep_inv dur s" "interval_inv dur s"
proof -
  have "tm_fut s = sleep dur" "tm_due s = None" "tm_log s = []" "tm_waiting s = None" "tm_now s = tm_start s"
    using assms unfolding timer_init_def by (metis timer_sys.select_convs)+
  then show "sleep_inv dur s" "interval_inv dur s"
    by (simp_all add: sleep_inv_def interval_inv_def waiter_served_def timer_shape_def ticks_paced_def sleep_def)
qed

interpretation sleeping: inductive_invariant "timer_init dur" "clock_step timer_poll" "sleep_inv dur"
  by unfold_locales (auto intro: timer_init_inv sleep_inv_step)

interpretation ticking: inductive_invariant "timer_init dur" "clock_step interval_poll_next" "interval_inv dur"
  by unfold_locales (auto intro: timer_init_inv interval_inv_step)

lemma served_next:
  assumes "waiter_served s" "tm_waiting s = Some wk" "tm_open s"
  shows "(\<exists>d. tm_due s = Some d) \<and> tc_waker (tf_cell (tm_fut s)) = Some wk \<or>
    wk \<in> set (tm_woken s) \<and> tc_fired (tf_cell (tm_fut s))"
  using assms by (auto simp: waiter_served_def split: if_splits)

text \<open>
  A \<open>sleep\<close> is never early and never forgotten: whenever a poll was ready, at least the duration
  had passed since the call, and a task whose last poll was pending is either registered with a
  delayed task outstanding on the reactor, or has been woken with the next poll ready.
\<close>
theorem sleep_never_early_never_lost:
  assumes "reach (timer_init dur) (clock_step timer_poll) s"
  shows "(\<forall>t\<in>set (tm_log s). tm_start s + dur \<le> t) \<and>
    (\<forall>wk. tm_waiting s = Some wk \<and> tm_open s \<longrightarrow>
       (\<exists>d. tm_due s = Some d) \<and> tc_waker (tf_cell (tm_fut s)) = Some wk \<or>
       wk \<in> set (tm_woken s) \<and> fst (timer_poll wk (tm_fut s)) = Ready ())"
proof -
  have inv: "sleep_inv dur s" by (rule sleeping.reach_inv [OF assms])
  then have "waiter_served s" by (simp add: sleep_inv_def)
  from served_next [OF this] have "\<forall>wk. tm_waiting s = Some wk \<and> tm_open s \<longrightarrow>
       (\<exists>d. tm_due s = Some d) \<and> tc_waker (tf_cell (tm_fut s)) = Some wk \<or>
       wk \<in> set (tm_woken s) \<and> fst (timer_poll wk (tm_fut s)) = Ready ()"
    by (auto simp: timer_poll_def)
  then show ?thesis using inv by (simp add: sleep_inv_def)
qed

text \<open>
  C30. The ticks of an \<open>interval\<close> come at most at its rate: the \<open>i\<close>-th tick (from 0) is not consumed before
  \<open>i + 1\<close> periods after the start, however late or often the stream is polled; and a consumer that
  waits is registered with a tick outstanding, or has been woken with the next poll ready.
\<close>
theorem interval_ticks_paced:
  assumes "reach (timer_init period) (clock_step interval_poll_next) s"
  shows "(\<forall>i < length (tm_log s). tm_start s + Suc i * period \<le> tm_log s ! i) \<and>
    (\<forall>wk. tm_waiting s = Some wk \<and> tm_open s \<longrightarrow>
       (\<exists>d. tm_due s = Some d) \<and> tc_waker (tf_cell (tm_fut s)) = Some wk \<or>
       wk \<in> set (tm_woken s) \<and> fst (interval_poll_next wk (tm_fut s)) = Ready (Some ()))"
proof -
  have inv: "interval_inv period s" by (rule ticking.reach_inv [OF assms])
  then have "waiter_served s" by (simp add: interval_inv_def)
  from served_next [OF this] have "\<forall>wk. tm_waiting s = Some wk \<and> tm_open s \<longrightarrow>
       (\<exists>d. tm_due s = Some d) \<and> tc_waker (tf_cell (tm_fut s)) = Some wk \<or>
       wk \<in> set (tm_woken s) \<and> fst (interval_poll_next wk (tm_fut s)) = Ready (Some ())"
    by (auto simp: interval_poll_next_def)
  then show ?thesis using inv by (simp add: interval_inv_def)
qed

definition timer_demo :: timer_sys where
  "timer_demo = \<lparr>tm_start = 5, tm_now = 5, tm_fut = sleep 10, tm_due = None, tm_open = True,
     tm_log = [], tm_waiting = None, tm_woken = []\<rparr>"

lemma timer_demo_init: "timer_init 10 timer_demo"
  by (simp add: timer_init_def timer_demo_def)

lemma timer_demo_runs:
  "run (clock_step timer_poll) [PollTimer 1, Elapse 7, PollTimer 2, Elapse 4, FireTimer, PollTimer 2] timer_demo =
     Some \<lparr>tm_start = 5, tm_now = 16,
       tm_fut = \<lparr>tf_dur = 10, tf_cell = \<lparr>tc_fired = True, tc_waker = None\<rparr>, tf_scheduled = True\<rparr>,
       tm_due = None, tm_open = True, tm_log = [16], tm_waiting = None, tm_woken = [2]\<rparr>"
  "run (clock_step interval_poll_next)
     [PollTimer 1, Elapse 11, FireTimer, PollTimer 1, PollTimer 3, Elapse 10, FireTimer, PollTimer 3] timer_demo =
     Some \<lparr>tm_start = 5, tm_now = 26,
       tm_fut = \<lparr>tf_dur = 10, tf_cell = \<lparr>tc_fired = False, tc_waker = None\<rparr>, tf_scheduled = False\<rparr>,
       tm_due = None, tm_open = True, tm_log = [16, 26], tm_waiting = None, tm_woken = [1, 3]\<rparr>"
  by (simp_all add: timer_demo_def sleep_def timer_poll_def interval_poll_next_def timer_fire_def)

theorem sleep_never_early_never_lost_witness: "(5 :: nat) + 10 \<le> 16"
  using sleep_never_early_never_lost [OF reach_init_run [where init = "timer_init 10", OF timer_demo_init timer_demo_runs(1)]] by simp

theorem interval_ticks_paced_witness: "(5 :: nat) + Suc 1 * 10 \<le> [16, 26] ! 1"
  using interval_ticks_paced [OF reach_init_run [where init = "timer_init 10", OF timer_demo_init timer_demo_runs(2)]] by simp

text \<open>A new interval is in the state of a new sleep, which is where \<open>timer_init\<close> starts both.\<close>

lemma interval_new_sleep: "interval_new period = sleep period"
  by (simp add: interval_new_def sleep_def)

text \<open>
  \<open>timeout\<close>: a ready inner future wins even when the time is over; \<open>TimeoutError\<close> needs an expired timer
  and an inner future that was just pending; a pending answer has polled both with this waker.
\<close>

lemma timeout_poll_cases:
  assumes "inner wk f = (r, f')"
  shows "r = Ready v \<Longrightarrow> timeout_poll inner wk (f, tm) = (Ready (Inr v), False, f', tm)"
    and "r = Pending \<Longrightarrow> tc_fired (tf_cell tm) \<Longrightarrow> timeout_poll inner wk (f, tm) = (Ready (Inl TimeoutError), False, f', tm)"
    and "r = Pending \<Longrightarrow> \<not> tc_fired (tf_cell tm) \<Longrightarrow>
      fst (timeout_poll inner wk (f, tm)) = Pending \<and>
      tc_waker (tf_cell (snd (snd (snd (timeout_poll inner wk (f, tm)))))) = Some wk"
  using assms by (auto simp: timeout_poll_def timer_poll_def Let_def)

end
