(* ===== verification/Async_File_Model.thy ===== *)
theory Async_File_Model
  imports Async_Task_Model "HOL-Library.Sublist"
begin

text \<open>
  \<open>rust_async/fs.rs\<close>: the size of the blocking pool, and \<open>File\<close> with its cursor.  Every operation of a \<open>File\<close>
  posts a blocking call to the pool and keeps the one-shot channel of its result in a busy slot;
  the job may end before or after the first poll of the channel, so the polls take the result that
  is already there (\<open>fast\<close>), if any.  The content of the file and what the jobs do to it is the
  machine at the end.
\<close>

section \<open>The pool size\<close>

definition DEFAULT_FS_THREADS :: nat where "DEFAULT_FS_THREADS = 4"

definition is_space :: "char \<Rightarrow> bool" where
  "is_space c \<longleftrightarrow> c = CHR '' '' \<or> (9 \<le> (of_char c :: nat) \<and> (of_char c :: nat) \<le> 13)"

definition trim :: "string \<Rightarrow> string" where
  "trim s = rev (dropWhile is_space (rev (dropWhile is_space s)))"

definition digit_value :: "char \<Rightarrow> nat option" where
  "digit_value c =
     (if 48 \<le> (of_char c :: nat) \<and> (of_char c :: nat) \<le> 57 then Some (of_char c - 48) else None)"

text \<open>\<open>str::parse::<usize>\<close> of an ASCII string: an optional plus sign, then digits, with overflow an error.\<close>

fun parse_digits :: "nat \<Rightarrow> string \<Rightarrow> nat option" where
  "parse_digits acc [] = Some acc"
| "parse_digits acc (c # cs) =
     (case digit_value c of
        None \<Rightarrow> None
      | Some d \<Rightarrow> if 10 * acc + d < 2 ^ 64 then parse_digits (10 * acc + d) cs else None)"

definition parse_usize :: "string \<Rightarrow> nat option" where
  "parse_usize s =
     (case s of
        [] \<Rightarrow> None
      | c # cs \<Rightarrow> if c = CHR ''+'' then (if cs = [] then None else parse_digits 0 cs) else parse_digits 0 s)"

definition parse_fs_threads :: "string option \<Rightarrow> nat" where
  "parse_fs_threads raw =
     (case Option.bind raw (\<lambda>v. parse_usize (trim v)) of
        Some n \<Rightarrow> if 0 < n then n else DEFAULT_FS_THREADS
      | None \<Rightarrow> DEFAULT_FS_THREADS)"

text \<open>\<open>FS_POOL\<close>: the size of the pool once it exists; \<open>env\<close> is the variable \<open>RUST_ASYNC_FS_THREADS\<close>.\<close>

definition init_pool :: "nat \<Rightarrow> nat option \<Rightarrow> bool \<times> nat option" where
  "init_pool num_threads p = (case p of None \<Rightarrow> (True, Some (max num_threads 1)) | Some k \<Rightarrow> (False, Some k))"

definition fs_pool :: "string option \<Rightarrow> nat option \<Rightarrow> nat \<times> nat option" where
  "fs_pool env p = (case p of None \<Rightarrow> (parse_fs_threads env, Some (parse_fs_threads env)) | Some k \<Rightarrow> (k, Some k))"

section \<open>\<open>File\<close>\<close>

type_synonym ('o, 'r) job = "'o \<times> 'r io_result cell"

record afile =
  af_pos :: u64
  af_read_busy :: "(u64 \<times> nat, byte list) job option"
  af_read_leftover :: "byte list"
  af_write_busy :: "(u64 \<times> byte list, nat) job option"
  af_seek_busy :: "(64 word, u64) job option"

definition file_from_std :: afile where
  "file_from_std = \<lparr>af_pos = 0, af_read_busy = None, af_read_leftover = [], af_write_busy = None, af_seek_busy = None\<rparr>"

text \<open>\<open>fs_blocking\<close>: the channel of a new job, with its result if the pool was fast.\<close>

definition fs_blocking :: "'o \<Rightarrow> 'r io_result option \<Rightarrow> ('o, 'r) job" where
  "fs_blocking op fast = (op, case fast of None \<Rightarrow> oneshot | Some r \<Rightarrow> snd (setter_set r oneshot))"

definition read_leftover :: "nat \<Rightarrow> afile \<Rightarrow> byte list io_result poll \<times> afile" where
  "read_leftover n f =
     (Ready (Inr (take n (af_read_leftover f))), f\<lparr>af_read_leftover := drop n (af_read_leftover f)\<rparr>)"

definition poll_read_job ::
    "waker \<Rightarrow> nat \<Rightarrow> (u64 \<times> nat, byte list) job \<Rightarrow> afile \<Rightarrow> byte list io_result poll \<times> afile" where
  "poll_read_job wk n j f =
     (case oneshot_poll wk (snd j) of
        (Pending, c) \<Rightarrow> (Pending, f\<lparr>af_read_busy := Some (fst j, c)\<rparr>)
      | (Ready (Inl e), _) \<Rightarrow> (Ready (Inl e), f\<lparr>af_read_busy := None\<rparr>)
      | (Ready (Inr bytes), _) \<Rightarrow>
          if bytes = [] then (Ready (Inr []), f\<lparr>af_read_busy := None\<rparr>)
          else read_leftover n
                 (f\<lparr>af_read_busy := None, af_pos := af_pos f + of_nat (length bytes), af_read_leftover := bytes\<rparr>))"

text \<open>\<open>AsyncRead::poll_read\<close> with a buffer of \<open>n\<close> bytes; the result is what it copies into the buffer.\<close>

definition poll_read ::
    "byte list io_result option \<Rightarrow> waker \<Rightarrow> nat \<Rightarrow> afile \<Rightarrow> byte list io_result poll \<times> afile" where
  "poll_read fast wk n f =
     (if af_read_leftover f \<noteq> [] then read_leftover n f
      else case af_read_busy f of
             Some j \<Rightarrow> poll_read_job wk n j f
           | None \<Rightarrow> poll_read_job wk n (fs_blocking (af_pos f, max n 1) fast) f)"

definition poll_write_job ::
    "waker \<Rightarrow> (u64 \<times> byte list, nat) job \<Rightarrow> afile \<Rightarrow> nat io_result poll \<times> afile" where
  "poll_write_job wk j f =
     (case oneshot_poll wk (snd j) of
        (Pending, c) \<Rightarrow> (Pending, f\<lparr>af_write_busy := Some (fst j, c)\<rparr>)
      | (Ready (Inl e), _) \<Rightarrow> (Ready (Inl e), f\<lparr>af_write_busy := None\<rparr>)
      | (Ready (Inr n), _) \<Rightarrow> (Ready (Inr n), f\<lparr>af_write_busy := None, af_pos := af_pos f + of_nat n\<rparr>))"

definition poll_write :: "nat io_result option \<Rightarrow> waker \<Rightarrow> byte list \<Rightarrow> afile \<Rightarrow> nat io_result poll \<times> afile" where
  "poll_write fast wk buf f =
     (case af_write_busy f of
        Some j \<Rightarrow> poll_write_job wk j f
      | None \<Rightarrow> poll_write_job wk (fs_blocking (af_pos f, buf) fast) f)"

definition invalid_seek :: io_error where
  "invalid_seek = Custom InvalidInput ''invalid seek to a negative or overflowing position''"

text \<open>\<open>u64::checked_add_signed\<close>.\<close>

definition checked_add_signed :: "u64 \<Rightarrow> 64 word \<Rightarrow> u64 option" where
  "checked_add_signed p delta =
     (let v = uint p + sint delta in if 0 \<le> v \<and> v < 2 ^ 64 then Some (word_of_int v) else None)"

datatype seek_from = SeekStart u64 | SeekCurrent "64 word" | SeekEnd "64 word"

definition poll_seek_job :: "waker \<Rightarrow> (64 word, u64) job \<Rightarrow> afile \<Rightarrow> u64 io_result poll \<times> afile" where
  "poll_seek_job wk j f =
     (case oneshot_poll wk (snd j) of
        (Pending, c) \<Rightarrow> (Pending, f\<lparr>af_seek_busy := Some (fst j, c)\<rparr>)
      | (Ready (Inl e), _) \<Rightarrow> (Ready (Inl e), f\<lparr>af_seek_busy := None\<rparr>)
      | (Ready (Inr new_pos), _) \<Rightarrow>
          (Ready (Inr new_pos), f\<lparr>af_seek_busy := None, af_pos := new_pos, af_read_leftover := []\<rparr>))"

definition poll_seek :: "u64 io_result option \<Rightarrow> waker \<Rightarrow> seek_from \<Rightarrow> afile \<Rightarrow> u64 io_result poll \<times> afile" where
  "poll_seek fast wk whence f =
     (case af_seek_busy f of
        Some j \<Rightarrow> poll_seek_job wk j f
      | None \<Rightarrow>
          (case whence of
             SeekStart n \<Rightarrow> (Ready (Inr n), f\<lparr>af_pos := n, af_read_leftover := []\<rparr>)
           | SeekCurrent delta \<Rightarrow>
               (case checked_add_signed (af_pos f) delta of
                  None \<Rightarrow> (Ready (Inl invalid_seek), f)
                | Some new_pos \<Rightarrow> (Ready (Inr new_pos), f\<lparr>af_pos := new_pos, af_read_leftover := []\<rparr>))
           | SeekEnd delta \<Rightarrow> poll_seek_job wk (fs_blocking delta fast) f))"

section \<open>The file and its jobs\<close>

text \<open>
  \<open>read_at\<close> may return fewer bytes than asked for, none only at the end; \<open>write_all_at\<close> writes all of its
  data, with zero bytes in a gap, or fails.
\<close>

definition read_at_ok :: "byte list \<Rightarrow> u64 \<times> nat \<Rightarrow> byte list io_result \<Rightarrow> bool" where
  "read_at_ok content op r =
     (case r of
        Inl _ \<Rightarrow> True
      | Inr bytes \<Rightarrow>
          prefix bytes (take (snd op) (drop (unat (fst op)) content)) \<and>
          (bytes = [] \<longrightarrow> length content \<le> unat (fst op)))"

definition write_at :: "byte list \<Rightarrow> nat \<Rightarrow> byte list \<Rightarrow> byte list" where
  "write_at content off data =
     take off (content @ replicate (off - length content) 0) @ data @ drop (off + length data) content"

definition seek_end :: "byte list \<Rightarrow> 64 word \<Rightarrow> u64 io_result" where
  "seek_end content delta =
     (case checked_add_signed (of_nat (length content)) delta of None \<Rightarrow> Inl invalid_seek | Some p \<Rightarrow> Inr p)"

record file_sys =
  fs_file :: afile
  fs_content :: "byte list"
  fs_got :: "byte list"

datatype file_label =
    PollRead waker nat "byte list io_result option"
  | FinishRead "byte list io_result"

fun file_step :: "file_label \<Rightarrow> file_sys \<Rightarrow> file_sys option" where
  "file_step (PollRead wk n fast) s =
     (if (case fast of None \<Rightarrow> True | Some r \<Rightarrow> read_at_ok (fs_content s) (af_pos (fs_file s), max n 1) r)
      then (case poll_read fast wk n (fs_file s) of
              (r, f) \<Rightarrow> Some (s\<lparr>fs_file := f, fs_got := fs_got s @ (case r of Ready (Inr bs) \<Rightarrow> bs | _ \<Rightarrow> [])\<rparr>))
      else None)"
| "file_step (FinishRead r) s =
     (case af_read_busy (fs_file s) of
        Some (op, c) \<Rightarrow>
          if ce_value c = None \<and> read_at_ok (fs_content s) op r
          then Some (s\<lparr>fs_file := (fs_file s)\<lparr>af_read_busy := Some (op, snd (setter_set r c))\<rparr>\<rparr>)
          else None
      | None \<Rightarrow> None)"

definition reading_init :: "byte list \<Rightarrow> nat \<Rightarrow> file_sys \<Rightarrow> bool" where
  "reading_init content start s \<longleftrightarrow>
     length content < 2 ^ 63 \<and> start < 2 ^ 63 \<and>
     s = \<lparr>fs_file = file_from_std\<lparr>af_pos := of_nat start\<rparr>, fs_content = content, fs_got = []\<rparr>"

section \<open>Sequential reads\<close>

text \<open>
  What was returned and what is left over is a part of the content from the start; the cursor is
  behind it; a job that is under way reads from the cursor.
\<close>

definition read_so_far :: "byte list \<Rightarrow> nat \<Rightarrow> byte list \<Rightarrow> afile \<Rightarrow> bool" where
  "read_so_far content start got f \<longleftrightarrow>
     prefix (got @ af_read_leftover f) (drop start content) \<and>
     unat (af_pos f) = start + length got + length (af_read_leftover f)"

definition job_ok :: "byte list \<Rightarrow> afile \<Rightarrow> (u64 \<times> nat, byte list) job \<Rightarrow> bool" where
  "job_ok content f j \<longleftrightarrow>
     af_read_leftover f = [] \<and> fst (fst j) = af_pos f \<and>
     (\<forall>r. ce_value (snd j) = Some r \<longrightarrow> read_at_ok content (fst j) r)"

definition reading_inv :: "byte list \<Rightarrow> nat \<Rightarrow> file_sys \<Rightarrow> bool" where
  "reading_inv content start s \<longleftrightarrow>
     length content < 2 ^ 63 \<and> start < 2 ^ 63 \<and> fs_content s = content \<and>
     read_so_far content start (fs_got s) (fs_file s) \<and>
     (\<forall>j. af_read_busy (fs_file s) = Some j \<longrightarrow> job_ok content (fs_file s) j)"

lemma prefix_continue:
  assumes "prefix got (drop start content)" "prefix bytes (take n (drop (start + length got) content))"
  shows "prefix (got @ bytes) (drop start content)"
proof -
  obtain rest where r: "drop start content = got @ rest" using assms(1) by (auto simp: prefix_def)
  then have "drop (start + length got) content = rest"
    using drop_drop [of "length got" start content] by (simp add: add.commute)
  then have "prefix bytes rest" using assms(2) take_is_prefix prefix_order.trans by metis
  then show ?thesis using r by (auto simp: prefix_def)
qed

lemma read_bound:
  assumes "prefix got (drop start content)" "length content < 2 ^ 63" "start < 2 ^ 63"
  shows "start + length got < 2 ^ 63"
  using prefix_length_le [OF assms(1)] assms(2,3) by (cases "length got = 0") auto

lemma read_leftover_so_far:
  assumes "read_so_far content start got f" "read_leftover n f = (Ready (Inr bs), f')"
  shows "read_so_far content start (got @ bs) f'"
proof -
  have bs: "bs = take n (af_read_leftover f)" and f': "f' = f\<lparr>af_read_leftover := drop n (af_read_leftover f)\<rparr>"
    using assms(2) by (simp_all add: read_leftover_def)
  have "length (take n (af_read_leftover f)) + length (drop n (af_read_leftover f)) = length (af_read_leftover f)"
    by (metis append_take_drop_id length_append)
  then show ?thesis
    using assms(1) by (simp add: read_so_far_def bs f')
qed

lemma job_advances:
  assumes sofar: "read_so_far content start got f" and job: "job_ok content f (op, c)"
    and bytes: "ce_value c = Some (Inr bytes)" and bounds: "length content < 2 ^ 63" "start < 2 ^ 63"
  shows "read_so_far content start got
    (f\<lparr>af_read_busy := b, af_pos := af_pos f + of_nat (length bytes), af_read_leftover := bytes\<rparr>)"
proof -
  have left: "af_read_leftover f = []" and ok: "read_at_ok content op (Inr bytes)" and op: "fst op = af_pos f"
    using job bytes by (auto simp: job_ok_def)
  have pos: "unat (af_pos f) = start + length got" and got: "prefix got (drop start content)"
    using sofar left by (simp_all add: read_so_far_def)
  have new: "prefix (got @ bytes) (drop start content)"
    using prefix_continue [OF got, of bytes "snd op"] ok op pos by (simp add: read_at_ok_def)
  have "unat (af_pos f) + length bytes < 2 ^ 63"
    using read_bound [OF new bounds] pos by simp
  then have "unat (af_pos f + of_nat (length bytes)) = unat (af_pos f) + length bytes"
    by (simp add: unat_word_ariths unat_of_nat take_bit_nat_eq_self)
  then show ?thesis using new pos by (simp add: read_so_far_def)
qed

lemma poll_read_job_inv:
  assumes inv: "reading_inv content start s" and job: "job_ok content (fs_file s) j"
    and p: "poll_read_job wk n j (fs_file s) = (r, f)"
  shows "reading_inv content start (s\<lparr>fs_file := f, fs_got := fs_got s @ (case r of Ready (Inr bs) \<Rightarrow> bs | _ \<Rightarrow> [])\<rparr>)"
proof -
  have bounds: "length content < 2 ^ 63" "start < 2 ^ 63" and sofar: "read_so_far content start (fs_got s) (fs_file s)"
    using inv by (simp_all add: reading_inv_def)
  obtain op c where j: "j = (op, c)" by (rule prod.exhaust)
  show ?thesis
  proof (cases "ce_value c")
    case None
    then show ?thesis
      using inv job p j by (auto simp: poll_read_job_def oneshot_poll_def reading_inv_def read_so_far_def job_ok_def)
  next
    case (Some res)
    show ?thesis
    proof (cases "\<exists>bytes. res = Inr bytes \<and> bytes \<noteq> []")
      case True
      then obtain bytes where b: "res = Inr bytes" "bytes \<noteq> []" by blast
      let ?f1 = "(fs_file s)\<lparr>af_read_busy := None, af_pos := af_pos (fs_file s) + of_nat (length bytes),
        af_read_leftover := bytes\<rparr>"
      have "read_so_far content start (fs_got s) ?f1"
        using job_advances [OF sofar _ _ bounds] job j Some b(1) by simp
      moreover have l: "read_leftover n ?f1 = (r, f)"
        using p j Some b by (simp add: poll_read_job_def oneshot_poll_def)
      moreover obtain bs where r: "r = Ready (Inr bs)"
        using l unfolding read_leftover_def by blast
      ultimately have "read_so_far content start (fs_got s @ bs) f"
        using read_leftover_so_far by metis
      moreover have "af_read_busy f = None" using l by (auto simp: read_leftover_def)
      ultimately show ?thesis using inv r by (simp add: reading_inv_def)
    next
      case False
      then show ?thesis
        using inv p j Some
        by (auto simp: poll_read_job_def oneshot_poll_def reading_inv_def read_so_far_def split: sum.splits)
    qed
  qed
qed

lemma new_job_ok:
  assumes "af_read_leftover f = []" "case fast of None \<Rightarrow> True | Some r \<Rightarrow> read_at_ok content (af_pos f, n) r"
  shows "job_ok content f (fs_blocking (af_pos f, n) fast)"
  using assms by (auto simp: job_ok_def fs_blocking_def oneshot_def setter_set_def split: option.splits)

lemma reading_inv_step:
  assumes inv: "reading_inv content start s" and step: "file_step l s = Some t"
  shows "reading_inv content start t"
proof (cases l)
  case (PollRead wk n fast)
  obtain r f where p: "poll_read fast wk n (fs_file s) = (r, f)" by (rule prod.exhaust)
  have fast: "case fast of None \<Rightarrow> True | Some r \<Rightarrow> read_at_ok content (af_pos (fs_file s), max n 1) r"
    and t: "t = s\<lparr>fs_file := f, fs_got := fs_got s @ (case r of Ready (Inr bs) \<Rightarrow> bs | _ \<Rightarrow> [])\<rparr>"
    using step PollRead p inv by (auto simp: reading_inv_def split: if_splits)
  show ?thesis
  proof (cases "af_read_leftover (fs_file s) = []")
    case True
    then show ?thesis
      using p t inv poll_read_job_inv [OF inv] new_job_ok [OF True fast]
      by (auto simp: poll_read_def reading_inv_def split: option.splits)
  next
    case False
    then have "read_leftover n (fs_file s) = (r, f)"
      using p by (simp add: poll_read_def)
    moreover have "af_read_busy (fs_file s) = None"
      using inv False by (cases "af_read_busy (fs_file s)") (simp_all add: reading_inv_def job_ok_def)
    moreover obtain bs where r: "r = Ready (Inr bs)"
      using calculation(1) unfolding read_leftover_def by blast
    ultimately have "read_so_far content start (fs_got s @ bs) f" "af_read_busy f = None"
      using inv read_leftover_so_far unfolding reading_inv_def by (blast, auto simp: read_leftover_def)
    then show ?thesis
      using t inv r by (simp add: reading_inv_def)
  qed
next
  case (FinishRead r)
  then show ?thesis
    using step inv
    by (auto simp: reading_inv_def job_ok_def read_so_far_def setter_set_def split: option.splits if_splits)
qed

lemma reading_inv_init: "reading_init content start s \<Longrightarrow> reading_inv content start s"
  by (auto simp: reading_init_def reading_inv_def read_so_far_def file_from_std_def unat_of_nat take_bit_nat_eq_self)

interpretation reading: inductive_invariant "reading_init content start" file_step "reading_inv content start"
  by unfold_locales (rule reading_inv_init, assumption, rule reading_inv_step)

section \<open>Properties\<close>

text \<open>
  C33. Reading a file through \<open>AsyncRead\<close> returns its bytes in order without gap or repetition,
  whatever the sizes of the buffers, short reads, errors, pending polls and cancelled reads in
  between; and a read into a non-empty buffer that reports the end has returned all of it.
\<close>
theorem file_reads_are_contiguous:
  assumes "reach (reading_init content start) file_step s"
  shows "prefix (fs_got s) (drop start content) \<and>
    (\<forall>fast wk n f t. 0 < n \<and> file_step (PollRead wk n fast) s = Some t \<and>
       poll_read fast wk n (fs_file s) = (Ready (Inr []), f) \<longrightarrow> fs_got s = drop start content)"
proof -
  have inv: "reading_inv content start s" by (rule reading.reach_inv [OF assms])
  then have sofar: "read_so_far content start (fs_got s) (fs_file s)" and c: "fs_content s = content"
    by (simp_all add: reading_inv_def)
  have "fs_got s = drop start content"
    if "0 < n" and st: "file_step (PollRead wk n fast) s = Some t"
      and p: "poll_read fast wk n (fs_file s) = (Ready (Inr []), f)" for fast wk n f t
  proof -
    have left: "af_read_leftover (fs_file s) = []"
      using p \<open>0 < n\<close> by (auto simp: poll_read_def read_leftover_def split: if_splits)
    have fast: "case fast of None \<Rightarrow> True | Some r \<Rightarrow> read_at_ok content (af_pos (fs_file s), max n 1) r"
      using st c by (auto split: if_splits)
    obtain j where j: "job_ok content (fs_file s) j" "poll_read_job wk n j (fs_file s) = (Ready (Inr []), f)"
      using p left inv new_job_ok [OF left fast]
      by (cases "af_read_busy (fs_file s)") (auto simp: poll_read_def reading_inv_def)
    then have "ce_value (snd j) = Some (Inr [])"
      using \<open>0 < n\<close> by (auto simp: poll_read_job_def oneshot_poll_def read_leftover_def split: option.splits sum.splits if_splits)
    then have "length content \<le> unat (af_pos (fs_file s))"
      using j(1) by (auto simp: job_ok_def read_at_ok_def)
    then have "length (drop start content) \<le> length (fs_got s)"
      using sofar left by (simp add: read_so_far_def)
    then show ?thesis
      using sofar left prefix_length_prefix [of "drop start content" "drop start content" "fs_got s"]
        prefix_order.antisym [of "fs_got s" "drop start content"]
      by (metis append_Nil2 prefix_length_prefix prefix_order.order_refl read_so_far_def prefix_order.antisym)
  qed
  moreover have "prefix (fs_got s) (drop start content)"
    using sofar append_prefixD unfolding read_so_far_def by blast
  ultimately show ?thesis by blast
qed

definition read_demo :: file_sys where
  "read_demo = \<lparr>fs_file = file_from_std\<lparr>af_pos := of_nat 1\<rparr>, fs_content = [10, 11, 12, 13], fs_got = []\<rparr>"

lemma read_demo_init: "reading_init [10, 11, 12, 13] 1 read_demo"
  by (simp add: reading_init_def read_demo_def)

definition read_labels :: "file_label list" where
  "read_labels = [PollRead 0 3 None, FinishRead (Inr [11, 12]), PollRead 0 1 None, PollRead 0 3 None,
      PollRead 0 3 (Some (Inr [13]))]"

lemma read_demo_run:
  "case run file_step read_labels read_demo of
     None \<Rightarrow> False
   | Some s \<Rightarrow> fs_got s = [11, 12, 13] \<and> file_step (PollRead 0 2 (Some (Inr []))) s \<noteq> None \<and>
       fst (poll_read (Some (Inr [])) 0 2 (fs_file s)) = Ready (Inr [])"
  by code_simp

theorem file_reads_are_contiguous_witness:
  "\<exists>s. run file_step read_labels read_demo = Some s \<and> fs_got s = drop 1 [10, 11, 12, 13]"
proof -
  obtain s where s: "run file_step read_labels read_demo = Some s"
      "file_step (PollRead 0 2 (Some (Inr []))) s \<noteq> None"
      "fst (poll_read (Some (Inr [])) 0 2 (fs_file s)) = Ready (Inr [])"
    using read_demo_run by (cases "run file_step read_labels read_demo") (simp_all del: file_step.simps not_None_eq)
  obtain t where t: "file_step (PollRead 0 2 (Some (Inr []))) s = Some t" using s(2) by blast
  obtain f where f: "poll_read (Some (Inr [])) 0 2 (fs_file s) = (Ready (Inr []), f)"
    using s(3) by (metis prod.collapse)
  have r: "reach (reading_init [10, 11, 12, 13] 1) file_step s"
    by (rule reach_init_run [where init = "reading_init [10, 11, 12, 13] 1", OF read_demo_init s(1)])
  have "fs_got s = drop 1 [10, 11, 12, 13]"
    using file_reads_are_contiguous [OF r] t f by (metis zero_less_numeral)
  then show ?thesis using s(1) by blast
qed

text \<open>
  A relative seek is exact: with no seek to the end under way, \<open>SeekFrom::Current\<close> answers the sum of
  the cursor and the signed offset as integers, moves the cursor there and drops the bytes read
  ahead; a sum outside \<open>u64\<close> is refused with the cursor unchanged.  There is no wrap-around.
\<close>
theorem seek_current_exact_or_refused:
  assumes "af_seek_busy f = None"
  shows "(0 \<le> uint (af_pos f) + sint delta \<and> uint (af_pos f) + sint delta < 2 ^ 64 \<longrightarrow>
      (\<exists>p. uint p = uint (af_pos f) + sint delta \<and>
        poll_seek fast wk (SeekCurrent delta) f = (Ready (Inr p), f\<lparr>af_pos := p, af_read_leftover := []\<rparr>))) \<and>
    (uint (af_pos f) + sint delta < 0 \<or> 2 ^ 64 \<le> uint (af_pos f) + sint delta \<longrightarrow>
      poll_seek fast wk (SeekCurrent delta) f = (Ready (Inl invalid_seek), f))"
proof -
  obtain v where v: "uint (af_pos f) + sint delta = v" by blast
  have "uint (word_of_int v :: u64) = v" if "0 \<le> v" "v < 2 ^ 64"
    using that by (simp add: uint_word_of_int take_bit_int_eq_self)
  moreover have "poll_seek fast wk (SeekCurrent delta) f =
      (if 0 \<le> v \<and> v < 2 ^ 64 then (Ready (Inr (word_of_int v)), f\<lparr>af_pos := word_of_int v, af_read_leftover := []\<rparr>)
       else (Ready (Inl invalid_seek), f))"
    using assms by (simp add: poll_seek_def checked_add_signed_def v)
  ultimately show ?thesis unfolding v by auto
qed

theorem seek_current_exact_or_refused_witness:
  "poll_seek None 0 (SeekCurrent (- 3)) file_from_std = (Ready (Inl invalid_seek), file_from_std)"
  using seek_current_exact_or_refused [of file_from_std "- 3" None 0] by (simp add: file_from_std_def)

section \<open>The pool size\<close>

fun decimal :: "nat \<Rightarrow> string" where
  "decimal n = (if n < 10 then [char_of (48 + n)] else decimal (n div 10) @ [char_of (48 + n mod 10)])"

declare decimal.simps [simp del]

lemma digit_char:
  assumes "d < 10"
  shows "digit_value (char_of (48 + d)) = Some d" "\<not> is_space (char_of (48 + d))" "char_of (48 + d) \<noteq> CHR ''+''"
proof -
  have c: "(of_char (char_of (48 + d) :: char) :: nat) = 48 + d" using assms by simp
  then show "digit_value (char_of (48 + d)) = Some d" using assms by (simp add: digit_value_def)
  have "(of_char (CHR '' '') :: nat) = 32" "(of_char (CHR ''+'') :: nat) = 43" by simp_all
  moreover have "(32 :: nat) \<noteq> 48 + d" "(43 :: nat) \<noteq> 48 + d" by simp_all
  ultimately have "char_of (48 + d) \<noteq> CHR '' ''" "char_of (48 + d) \<noteq> CHR ''+''"
    using c by metis+
  then show "\<not> is_space (char_of (48 + d))" "char_of (48 + d) \<noteq> CHR ''+''"
    using c by (simp_all add: is_space_def)
qed

lemma parse_digits_append:
  "parse_digits a (xs @ ys) = Option.bind (parse_digits a xs) (\<lambda>b. parse_digits b ys)"
  by (induction xs arbitrary: a) (auto split: option.splits)

lemma parse_decimal: "n < 2 ^ 64 \<Longrightarrow> parse_digits 0 (decimal n) = Some n"
proof (induction n rule: decimal.induct)
  case (1 n)
  show ?case
  proof (cases "n < 10")
    case True
    then show ?thesis using 1 digit_char(1) by (subst decimal.simps) simp
  next
    case False
    then have "parse_digits 0 (decimal (n div 10)) = Some (n div 10)" using 1 by simp
    moreover have "10 * (n div 10) + n mod 10 = n" by simp
    ultimately show ?thesis
      using False 1(2) digit_char(1) [of "n mod 10"]
      by (subst decimal.simps) (simp add: parse_digits_append)
  qed
qed

lemma decimal_chars:
  "decimal n \<noteq> []" "c \<in> set (decimal n) \<Longrightarrow> \<not> is_space c \<and> c \<noteq> CHR ''+''"
proof -
  show "decimal n \<noteq> []" by (subst decimal.simps) simp
  show "c \<in> set (decimal n) \<Longrightarrow> \<not> is_space c \<and> c \<noteq> CHR ''+''"
  proof (induction n rule: decimal.induct)
    case (1 n)
    then show ?case
      using digit_char(2,3) [of n] digit_char(2,3) [of "n mod 10"]
      by (subst (asm) (2) decimal.simps) (auto split: if_splits)
  qed
qed

lemma trim_padded:
  assumes "\<forall>c\<in>set a. is_space c" "\<forall>c\<in>set b. is_space c" "m \<noteq> []" "\<forall>c\<in>set m. \<not> is_space c"
  shows "trim (a @ m @ b) = m"
proof -
  have "dropWhile is_space (a @ m @ b) = m @ b"
    using assms by (cases m) (auto simp: dropWhile_append2)
  moreover have "dropWhile is_space (rev b @ rev m) = rev m"
    using assms dropWhile_append2 [of "rev b" is_space "rev m"] by (cases "rev m") auto
  ultimately show ?thesis by (simp add: trim_def)
qed

text \<open>
  \<open>RUST_ASYNC_FS_THREADS\<close> is read back: for every \<open>n\<close> from 1 to the largest \<open>usize\<close>, its decimal form
  with any white space around it gives a pool of \<open>n\<close> threads.
\<close>
theorem fs_threads_round_trip:
  assumes "0 < n" "n < 2 ^ 64" "\<forall>c\<in>set a. is_space c" "\<forall>c\<in>set b. is_space c"
  shows "parse_fs_threads (Some (a @ decimal n @ b)) = n"
proof -
  have "trim (a @ decimal n @ b) = decimal n"
    using trim_padded [OF assms(3,4) decimal_chars(1)] decimal_chars(2) by blast
  moreover have "parse_usize (decimal n) = Some n"
    using parse_decimal [OF assms(2)] decimal_chars [where n = n]
    by (cases "decimal n") (auto simp: parse_usize_def)
  ultimately show ?thesis using assms(1) by (simp add: parse_fs_threads_def)
qed

theorem fs_threads_round_trip_witness: "parse_fs_threads (Some (''  '' @ decimal 16 @ '' '')) = 16"
  using fs_threads_round_trip [of 16 "''  ''" "'' ''"] by (simp add: is_space_def)

text \<open>Whatever the variable says, the pool has a thread, and the first to size it wins.\<close>

lemma parse_fs_threads_pos: "0 < parse_fs_threads raw"
  by (simp add: parse_fs_threads_def DEFAULT_FS_THREADS_def split: option.split)

lemma pool_sized_once:
  "init_pool n None = (True, Some k) \<Longrightarrow> 0 < k \<and> init_pool m (Some k) = (False, Some k) \<and> fs_pool env (Some k) = (k, Some k)"
  by (auto simp: init_pool_def fs_pool_def)

section \<open>What mixing the operations does\<close>

text \<open>
  A read into an empty buffer reads one byte ahead and moves the cursor, which a following relative
  seek reports and a following write uses; the byte is then lost.
\<close>

lemma empty_read_moves_cursor:
  "case poll_read (Some (Inr [7])) 0 0 file_from_std of
     (r, f) \<Rightarrow> r = Ready (Inr []) \<and> af_read_leftover f = [7] \<and>
       (case poll_seek None 0 (SeekCurrent 0) f of (r', f') \<Rightarrow> r' = Ready (Inr 1) \<and> af_read_leftover f' = [])"
  by code_simp

text \<open>A seek does not forget a read that is under way: its bytes come from the old position.\<close>

lemma seek_keeps_pending_read:
  "case poll_read None 0 2 file_from_std of
     (_, f) \<Rightarrow> (case poll_seek None 0 (SeekStart 100) f of
       (_, f') \<Rightarrow> map_option (fst \<circ> fst) (af_read_busy f') = Some 0 \<and> af_pos f' = 100)"
  by code_simp

text \<open>A write that is polled with another buffer answers for the buffer of the first poll.\<close>

lemma write_answers_for_first_buffer:
  "case poll_write None 0 [1, 2, 3] file_from_std of
     (_, f) \<Rightarrow> (case af_write_busy f of
       Some (op, c) \<Rightarrow>
         fst (poll_write None 0 [9] (f\<lparr>af_write_busy := Some (op, snd (setter_set (Inr 3) c))\<rparr>)) = Ready (Inr 3)
     | None \<Rightarrow> False)"
  by code_simp

end
