(* ===== verification/Async_Stdio_Model.thy ===== *)
theory Async_Stdio_Model
  imports Async_Task_Model "HOL-Library.Sublist"
begin

text \<open>
  \<open>rust_async/io.rs\<close>: the standard streams.  Every read, write and flush is an offloaded blocking call
  whose future sits in a busy slot.  As for files, \<open>fast\<close> is a result that is there before the first
  poll of a new future looks for it.
\<close>

section \<open>\<open>Stdin\<close>\<close>

record async_stdin =
  sd_busy :: "(nat, byte list io_result) offload_fut option"
  sd_leftover :: "byte list"

definition stdin :: async_stdin where
  "stdin = \<lparr>sd_busy = None, sd_leftover = []\<rparr>"

definition deliver :: "'v \<Rightarrow> ('j, 'v) offload_fut \<Rightarrow> ('j, 'v) offload_fut" where
  "deliver v f = f\<lparr>of_cell := snd (setter_set v (of_cell f))\<rparr>"

definition new_offload :: "'j \<Rightarrow> 'v option \<Rightarrow> ('j, 'v) offload_fut" where
  "new_offload j fast = (case fast of None \<Rightarrow> offload j | Some v \<Rightarrow> deliver v (offload j))"

definition stdin_leftover :: "nat \<Rightarrow> async_stdin \<Rightarrow> byte list io_result poll \<times> async_stdin" where
  "stdin_leftover n s = (Ready (Inr (take n (sd_leftover s))), s\<lparr>sd_leftover := drop n (sd_leftover s)\<rparr>)"

definition stdin_poll_job ::
    "waker \<Rightarrow> nat \<Rightarrow> (nat, byte list io_result) offload_fut \<Rightarrow> async_stdin \<Rightarrow> byte list io_result poll \<times> async_stdin" where
  "stdin_poll_job wk n job s =
     (case offload_poll wk job of
        (Pending, _, job') \<Rightarrow> (Pending, s\<lparr>sd_busy := Some job'\<rparr>)
      | (Ready (Inl e), _, _) \<Rightarrow> (Ready (Inl e), s\<lparr>sd_busy := None\<rparr>)
      | (Ready (Inr bytes), _, _) \<Rightarrow>
          if bytes = [] then (Ready (Inr []), s\<lparr>sd_busy := None\<rparr>)
          else stdin_leftover n (s\<lparr>sd_busy := None, sd_leftover := bytes\<rparr>))"

definition stdin_poll_read ::
    "byte list io_result option \<Rightarrow> waker \<Rightarrow> nat \<Rightarrow> async_stdin \<Rightarrow> byte list io_result poll \<times> async_stdin" where
  "stdin_poll_read fast wk n s =
     (if sd_leftover s \<noteq> [] then stdin_leftover n s
      else case sd_busy s of
             Some job \<Rightarrow> stdin_poll_job wk n job s
           | None \<Rightarrow> stdin_poll_job wk n (new_offload (max n 1) fast) s)"

section \<open>\<open>Stdout\<close> and \<open>Stderr\<close>\<close>

datatype sink = Stdout | Stderr

record writer =
  wr_sink :: sink
  wr_write_busy :: "(sink \<times> byte list, nat io_result) offload_fut option"
  wr_flush_busy :: "(sink, unit io_result) offload_fut option"

definition writer_new :: "sink \<Rightarrow> writer" where
  "writer_new k = \<lparr>wr_sink = k, wr_write_busy = None, wr_flush_busy = None\<rparr>"

definition writer_poll_write :: "nat io_result option \<Rightarrow> waker \<Rightarrow> byte list \<Rightarrow> writer \<Rightarrow> nat io_result poll \<times> writer" where
  "writer_poll_write fast wk buf w =
     (case offload_poll wk
             (case wr_write_busy w of Some job \<Rightarrow> job | None \<Rightarrow> new_offload (wr_sink w, buf) fast) of
        (Pending, _, job) \<Rightarrow> (Pending, w\<lparr>wr_write_busy := Some job\<rparr>)
      | (Ready res, _, _) \<Rightarrow> (Ready res, w\<lparr>wr_write_busy := None\<rparr>))"

definition writer_poll_flush :: "unit io_result option \<Rightarrow> waker \<Rightarrow> writer \<Rightarrow> unit io_result poll \<times> writer" where
  "writer_poll_flush fast wk w =
     (case offload_poll wk (case wr_flush_busy w of Some job \<Rightarrow> job | None \<Rightarrow> new_offload (wr_sink w) fast) of
        (Pending, _, job) \<Rightarrow> (Pending, w\<lparr>wr_flush_busy := Some job\<rparr>)
      | (Ready res, _, _) \<Rightarrow> (Ready res, w\<lparr>wr_flush_busy := None\<rparr>))"

section \<open>Nothing of the input is lost\<close>

text \<open>
  The machine: the input not read yet and the bytes returned.  A blocking read takes a prefix of the
  input away, or nothing at its end, or fails and takes nothing.
\<close>

record stdin_sys =
  in_stdin :: async_stdin
  in_rest :: "byte list"
  in_got :: "byte list"

datatype stdin_label =
    StdinPoll waker nat "byte list io_result option"
  | StdinFinish "byte list io_result"

definition consume :: "byte list io_result \<Rightarrow> byte list \<Rightarrow> byte list option" where
  "consume r rest =
     (case r of
        Inl _ \<Rightarrow> Some rest
      | Inr bytes \<Rightarrow> if prefix bytes rest then Some (drop (length bytes) rest) else None)"

text \<open>A new job may be posted by a poll only when no bytes are left over and none is under way.\<close>

fun stdin_step :: "stdin_label \<Rightarrow> stdin_sys \<Rightarrow> stdin_sys option" where
  "stdin_step (StdinPoll wk n fast) s =
     (let fresh = (sd_leftover (in_stdin s) = [] \<and> sd_busy (in_stdin s) = None);
          used = (if fresh then fast else None)
      in case (case used of None \<Rightarrow> Some (in_rest s) | Some r \<Rightarrow> consume r (in_rest s)) of
           None \<Rightarrow> None
         | Some rest \<Rightarrow>
             (case stdin_poll_read used wk n (in_stdin s) of
                (r, sd) \<Rightarrow> Some \<lparr>in_stdin = sd, in_rest = rest,
                   in_got = in_got s @ (case r of Ready (Inr bs) \<Rightarrow> bs | _ \<Rightarrow> [])\<rparr>))"
| "stdin_step (StdinFinish r) s =
     (case sd_busy (in_stdin s) of
        Some job \<Rightarrow>
          if ce_value (of_cell job) = None
          then (case consume r (in_rest s) of
                  None \<Rightarrow> None
                | Some rest \<Rightarrow> Some (s\<lparr>in_stdin := (in_stdin s)\<lparr>sd_busy := Some (deliver r job)\<rparr>, in_rest := rest\<rparr>))
          else None
      | None \<Rightarrow> None)"

definition job_bytes :: "(nat, byte list io_result) offload_fut option \<Rightarrow> byte list" where
  "job_bytes busy =
     (case busy of None \<Rightarrow> [] | Some job \<Rightarrow> (case ce_value (of_cell job) of Some (Inr bs) \<Rightarrow> bs | _ \<Rightarrow> []))"

definition stdin_inv :: "byte list \<Rightarrow> stdin_sys \<Rightarrow> bool" where
  "stdin_inv input s \<longleftrightarrow>
     in_got s @ sd_leftover (in_stdin s) @ job_bytes (sd_busy (in_stdin s)) @ in_rest s = input \<and>
     (sd_leftover (in_stdin s) \<noteq> [] \<longrightarrow> sd_busy (in_stdin s) = None)"

definition stdin_init :: "byte list \<Rightarrow> stdin_sys \<Rightarrow> bool" where
  "stdin_init input s \<longleftrightarrow> s = \<lparr>in_stdin = stdin, in_rest = input, in_got = []\<rparr>"

lemma consume_Some:
  assumes "consume r rest = Some rest'"
  shows "(case r of Inr bs \<Rightarrow> bs | _ \<Rightarrow> []) @ rest' = rest"
  using assms by (auto simp: consume_def prefix_def split: sum.splits if_splits)

text \<open>A poll of a job gives out exactly the bytes the job holds, or keeps them.\<close>

lemma stdin_poll_job_bytes:
  assumes "sd_leftover s = []" "stdin_poll_job wk n job s = (r, s')"
  shows "(case r of Ready (Inr bs) \<Rightarrow> bs | _ \<Rightarrow> []) @ sd_leftover s' @ job_bytes (sd_busy s') = job_bytes (Some job)"
    and "sd_leftover s' \<noteq> [] \<longrightarrow> sd_busy s' = None"
  using assms
  by (auto simp: stdin_poll_job_def offload_poll_def job_bytes_def stdin_leftover_def Let_def
      split: option.splits sum.splits if_splits)

lemma job_bytes_new [simp]:
  "job_bytes (Some (new_offload j fast)) = (case fast of Some (Inr bs) \<Rightarrow> bs | _ \<Rightarrow> [])"
  by (auto simp: job_bytes_def new_offload_def offload_def deliver_def setter_set_def split: option.splits sum.splits)

lemma stdin_poll_inv:
  assumes inv: "stdin_inv input s" and step: "stdin_step (StdinPoll wk n fast) s = Some t"
  shows "stdin_inv input t"
proof -
  define used where "used = (if sd_leftover (in_stdin s) = [] \<and> sd_busy (in_stdin s) = None then fast else None)"
  obtain rest where rest: "(case used of None \<Rightarrow> Some (in_rest s) | Some r \<Rightarrow> consume r (in_rest s)) = Some rest"
    using step unfolding used_def by (auto simp: Let_def split: option.splits)
  obtain r sd where p: "stdin_poll_read used wk n (in_stdin s) = (r, sd)" by (rule prod.exhaust)
  let ?out = "case r of Ready (Inr bs) \<Rightarrow> bs | _ \<Rightarrow> []"
  have t: "t = \<lparr>in_stdin = sd, in_rest = rest, in_got = in_got s @ ?out\<rparr>"
    using step rest p unfolding used_def [symmetric] by (simp add: Let_def used_def [symmetric])
  show ?thesis
  proof (cases "sd_leftover (in_stdin s) = []")
    case False
    then show ?thesis
      using inv p rest
      by (auto simp: t stdin_inv_def used_def stdin_poll_read_def stdin_leftover_def)
  next
    case True
    let ?job = "case sd_busy (in_stdin s) of Some job \<Rightarrow> job | None \<Rightarrow> new_offload (max n 1) used"
    have j: "stdin_poll_job wk n ?job (in_stdin s) = (r, sd)"
      using p True by (cases "sd_busy (in_stdin s)") (simp_all add: stdin_poll_read_def)
    have all: "job_bytes (Some ?job) @ rest = job_bytes (sd_busy (in_stdin s)) @ in_rest s"
    proof (cases "sd_busy (in_stdin s)")
      case None
      show ?thesis
      proof (cases used)
        case unused: None
        then show ?thesis using None rest by (simp add: job_bytes_def [of None])
      next
        case (Some a)
        then show ?thesis
          using None rest consume_Some [of a "in_rest s" rest] by (simp add: job_bytes_def [of None])
      qed
    next
      case (Some job)
      then show ?thesis using rest by (simp add: used_def)
    qed
    note out = stdin_poll_job_bytes [OF True j]
    have "?out @ sd_leftover sd @ job_bytes (sd_busy sd) @ rest = job_bytes (sd_busy (in_stdin s)) @ in_rest s"
      using out(1) all by (metis append.assoc)
    then show ?thesis
      using inv True out(2) by (simp add: t stdin_inv_def)
  qed
qed

lemma stdin_finish_inv:
  assumes inv: "stdin_inv input s" and step: "stdin_step (StdinFinish r) s = Some t"
  shows "stdin_inv input t"
proof -
  obtain job rest where job: "sd_busy (in_stdin s) = Some job" "ce_value (of_cell job) = None"
    and rest: "consume r (in_rest s) = Some rest"
    and t: "t = s\<lparr>in_stdin := (in_stdin s)\<lparr>sd_busy := Some (deliver r job)\<rparr>, in_rest := rest\<rparr>"
    using step by (auto split: option.splits if_splits)
  have "job_bytes (Some (deliver r job)) = (case r of Inr bs \<Rightarrow> bs | _ \<Rightarrow> [])"
    by (simp add: job_bytes_def deliver_def setter_set_def)
  then show ?thesis
    using inv job consume_Some [OF rest] by (auto simp: t stdin_inv_def job_bytes_def)
qed

lemma stdin_inv_step: "stdin_inv input s \<Longrightarrow> stdin_step l s = Some t \<Longrightarrow> stdin_inv input t"
  using stdin_poll_inv stdin_finish_inv by (cases l) blast+

lemma stdin_inv_init: "stdin_init input s \<Longrightarrow> stdin_inv input s"
  by (simp add: stdin_init_def stdin_inv_def stdin_def job_bytes_def)

interpretation stdin_reads: inductive_invariant "stdin_init input" stdin_step "stdin_inv input"
  by unfold_locales (rule stdin_inv_init, assumption, rule stdin_inv_step)

text \<open>
  What \<open>Stdin\<close> has returned is the input in order; the rest is left over, in a finished job, or not
  read: nothing is lost, also when reads are cancelled and polled again with other buffers.
\<close>

lemma stdin_loses_nothing:
  assumes "reach (stdin_init input) stdin_step s"
  shows "in_got s @ sd_leftover (in_stdin s) @ job_bytes (sd_busy (in_stdin s)) @ in_rest s = input"
  using stdin_reads.reach_inv [OF assms] by (simp add: stdin_inv_def)

end
