(* ===== verification/Async_Stdout_Model.thy ===== *)
theory Async_Stdout_Model
  imports Async_Stdio_Model
begin

text \<open>
  \<open>Stdout\<close> and \<open>Stderr\<close> of \<open>rust_async/io.rs\<close> over their sink: what the jobs that a \<open>Writer\<close> posts do to the
  stream behind it, and what its polls answer.
\<close>

section \<open>Handles\<close>

definition async_stdout :: writer where
  "async_stdout = writer_new Stdout"

definition async_stderr :: writer where
  "async_stderr = writer_new Stderr"

text \<open>The instances \<open>impl_async_write\<close> makes; closing a standard stream only flushes it.\<close>

definition std_poll_write :: "nat io_result option \<Rightarrow> waker \<Rightarrow> byte list \<Rightarrow> writer \<Rightarrow> nat io_result poll \<times> writer" where
  "std_poll_write fast wk buf w = writer_poll_write fast wk buf w"

definition std_poll_flush :: "unit io_result option \<Rightarrow> waker \<Rightarrow> writer \<Rightarrow> unit io_result poll \<times> writer" where
  "std_poll_flush fast wk w = writer_poll_flush fast wk w"

definition std_poll_close :: "unit io_result option \<Rightarrow> waker \<Rightarrow> writer \<Rightarrow> unit io_result poll \<times> writer" where
  "std_poll_close fast wk w = writer_poll_flush fast wk w"

section \<open>The machine\<close>

text \<open>
  \<open>Sink::write_all\<close> followed by the length: all of the data and its length, or an error after some
  beginning of it.
\<close>

fun sink_write_all :: "byte list \<Rightarrow> nat io_result \<Rightarrow> byte list \<Rightarrow> bool" where
  "sink_write_all data (Inr n) written \<longleftrightarrow> n = length data \<and> written = data"
| "sink_write_all data (Inl e) written \<longleftrightarrow> prefix written data"

text \<open>A finished job: its data, its result, what it wrote.\<close>

type_synonym out_job = "byte list \<times> nat io_result \<times> byte list"

record stdout_sys =
  so_writer :: writer
  so_data :: "byte list"
  so_out :: "byte list"
  so_jobs :: "out_job list"
  so_answers :: "nat io_result list"

datatype stdout_label =
    OutPoll waker "byte list" "(nat io_result \<times> byte list) option"
  | OutFinish "nat io_result" "byte list"
  | OutFlush waker "unit io_result option"
  | OutFlushed "unit io_result"

definition job_done :: "byte list \<Rightarrow> nat io_result \<times> byte list \<Rightarrow> stdout_sys \<Rightarrow> stdout_sys option" where
  "job_done data r s =
     (if sink_write_all data (fst r) (snd r)
      then Some (s\<lparr>so_out := so_out s @ snd r, so_jobs := so_jobs s @ [(data, r)]\<rparr>) else None)"

fun poll_list :: "'a poll \<Rightarrow> 'a list" where
  "poll_list (Ready a) = [a]"
| "poll_list Pending = []"

text \<open>A poll posts a job only when none is under way; \<open>fast\<close> is the job's end before the poll looks.\<close>

fun stdout_step :: "stdout_label \<Rightarrow> stdout_sys \<Rightarrow> stdout_sys option" where
  "stdout_step (OutPoll wk buf fast) s =
     (let fresh = (wr_write_busy (so_writer s) = None); used = (if fresh then fast else None);
          s1 = (if fresh then s\<lparr>so_data := buf\<rparr> else s)
      in case (case used of None \<Rightarrow> Some s1 | Some r \<Rightarrow> job_done buf r s1) of
           None \<Rightarrow> None
         | Some s2 \<Rightarrow>
             (case std_poll_write (map_option fst used) wk buf (so_writer s) of
                (r, w) \<Rightarrow> Some (s2\<lparr>so_writer := w, so_answers := so_answers s @ poll_list r\<rparr>)))"
| "stdout_step (OutFinish r written) s =
     (case wr_write_busy (so_writer s) of
        Some job \<Rightarrow>
          if ce_value (of_cell job) = None
          then map_option (\<lambda>s'. s'\<lparr>so_writer := (so_writer s)\<lparr>wr_write_busy := Some (deliver r job)\<rparr>\<rparr>)
                 (job_done (so_data s) (r, written) s)
          else None
      | None \<Rightarrow> None)"
| "stdout_step (OutFlush wk fast) s =
     Some (s\<lparr>so_writer := snd (std_poll_flush
       (if wr_flush_busy (so_writer s) = None then fast else None) wk (so_writer s))\<rparr>)"
| "stdout_step (OutFlushed r) s =
     (case wr_flush_busy (so_writer s) of
        Some job \<Rightarrow>
          if ce_value (of_cell job) = None
          then Some (s\<lparr>so_writer := (so_writer s)\<lparr>wr_flush_busy := Some (deliver r job)\<rparr>\<rparr>) else None
      | None \<Rightarrow> None)"

definition stdout_init :: "stdout_sys \<Rightarrow> bool" where
  "stdout_init s \<longleftrightarrow> (\<exists>k. s = \<lparr>so_writer = writer_new k, so_data = [], so_out = [], so_jobs = [], so_answers = []\<rparr>)"

section \<open>Every answer is about what was written\<close>

definition job_value :: "('j, 'v) offload_fut option \<Rightarrow> 'v list" where
  "job_value busy = (case busy of None \<Rightarrow> [] | Some job \<Rightarrow> (case ce_value (of_cell job) of None \<Rightarrow> [] | Some v \<Rightarrow> [v]))"

lemma job_value_simps [simp]:
  "job_value None = []" "job_value (Some (deliver r job)) = [r]"
  "ce_value (of_cell job) = None \<Longrightarrow> job_value (Some job) = []"
  by (simp_all add: job_value_def deliver_def setter_set_def)

definition stdout_inv :: "stdout_sys \<Rightarrow> bool" where
  "stdout_inv s \<longleftrightarrow>
     so_out s = concat (map (\<lambda>j. snd (snd j)) (so_jobs s)) \<and>
     list_all (\<lambda>j. sink_write_all (fst j) (fst (snd j)) (snd (snd j))) (so_jobs s) \<and>
     map (\<lambda>j. fst (snd j)) (so_jobs s) = so_answers s @ job_value (wr_write_busy (so_writer s))"

lemma writer_poll_value:
  assumes "writer_poll_write fast wk buf w = (r, w')"
  shows "poll_list r @ job_value (wr_write_busy w') =
    (case wr_write_busy w of None \<Rightarrow> (case fast of None \<Rightarrow> [] | Some v \<Rightarrow> [v]) | busy \<Rightarrow> job_value busy)"
  using assms
  by (auto simp: writer_poll_write_def offload_poll_def new_offload_def offload_def deliver_def setter_set_def
      job_value_def Let_def split: option.splits)

lemma writer_flush_keeps: "wr_write_busy (snd (writer_poll_flush fast wk w)) = wr_write_busy w"
  by (simp add: writer_poll_flush_def split: prod.split poll.split)

lemma job_done_inv:
  assumes "job_done data r s = Some t"
  shows "so_out t = so_out s @ snd r" "so_jobs t = so_jobs s @ [(data, r)]" "sink_write_all data (fst r) (snd r)"
    "so_answers t = so_answers s"
  using assms by (auto simp: job_done_def split: if_splits)

lemma stdout_poll_inv:
  assumes "stdout_inv s" "stdout_step (OutPoll wk buf fast) s = Some t"
  shows "stdout_inv t"
proof -
  let ?fresh = "wr_write_busy (so_writer s) = None"
  define used where "used = (if ?fresh then fast else None)"
  define s1 where "s1 = (if ?fresh then s\<lparr>so_data := buf\<rparr> else s)"
  obtain r w where p: "writer_poll_write (map_option fst used) wk buf (so_writer s) = (r, w)" by (rule prod.exhaust)
  obtain s2 where s2: "(case used of None \<Rightarrow> Some s1 | Some q \<Rightarrow> job_done buf q s1) = Some s2"
      "t = s2\<lparr>so_writer := w, so_answers := so_answers s @ poll_list r\<rparr>"
    using assms(2) p unfolding used_def s1_def by (auto simp: Let_def std_poll_write_def split: option.splits)
  have s1: "so_out s1 = so_out s" "so_jobs s1 = so_jobs s" by (simp_all add: s1_def)
  note v = writer_poll_value [OF p]
  show ?thesis
  proof (cases used)
    case None
    then show ?thesis
      using assms(1) s1 s2 v by (cases ?fresh) (auto simp: stdout_inv_def)
  next
    case (Some q)
    then have fresh: "?fresh" by (auto simp: used_def split: if_splits)
    have d: "job_done buf q s1 = Some s2" using s2(1) Some by simp
    then show ?thesis
      using assms(1) s1 s2(2) v Some fresh job_done_inv [OF d] by (simp add: stdout_inv_def)
  qed
qed

lemma stdout_step_inv:
  assumes "stdout_inv s" "stdout_step l s = Some t"
  shows "stdout_inv t"
proof (cases l)
  case (OutPoll wk buf fast)
  then show ?thesis using assms stdout_poll_inv by simp
next
  case (OutFinish r written)
  then obtain job u where u: "wr_write_busy (so_writer s) = Some job" "ce_value (of_cell job) = None"
      "job_done (so_data s) (r, written) s = Some u"
      "t = u\<lparr>so_writer := (so_writer s)\<lparr>wr_write_busy := Some (deliver r job)\<rparr>\<rparr>"
    using assms(2) by (auto split: option.splits if_splits)
  then show ?thesis using assms(1) job_done_inv [OF u(3)] by (simp add: stdout_inv_def)
next
  case (OutFlush wk fast)
  then show ?thesis using assms writer_flush_keeps by (auto simp: stdout_inv_def std_poll_flush_def)
next
  case (OutFlushed r)
  then show ?thesis using assms by (auto simp: stdout_inv_def split: option.splits if_splits)
qed

lemma stdout_inv_init: "stdout_init s \<Longrightarrow> stdout_inv s"
  by (auto simp: stdout_init_def stdout_inv_def writer_new_def)

interpretation stdout_writes: inductive_invariant stdout_init stdout_step stdout_inv
  by unfold_locales (rule stdout_inv_init, assumption, rule stdout_step_inv)

text \<open>
  The stream holds what the jobs wrote, in the order of the polls that posted them and each once; the
  answers of \<open>poll_write\<close> are the results of these jobs in the same order, at most the last of them
  not fetched yet; and a job that answers a count has written all of its data.
\<close>

theorem stdout_writes_in_order:
  assumes "reach stdout_init stdout_step s"
  shows "so_out s = concat (map (\<lambda>j. snd (snd j)) (so_jobs s)) \<and>
    (\<exists>k. so_answers s = take k (map (\<lambda>j. fst (snd j)) (so_jobs s)) \<and> length (so_jobs s) \<le> k + 1) \<and>
    (\<forall>d n w. (d, Inr n, w) \<in> set (so_jobs s) \<longrightarrow> w = d \<and> n = length d)"
proof -
  have inv: "stdout_inv s" using stdout_writes.reach_inv [OF assms] .
  then have m: "map (\<lambda>j. fst (snd j)) (so_jobs s) = so_answers s @ job_value (wr_write_busy (so_writer s))"
    by (simp add: stdout_inv_def)
  have "length (job_value (wr_write_busy (so_writer s))) \<le> 1"
    by (auto simp: job_value_def split: option.split)
  moreover have "length (so_jobs s) = length (so_answers s) + length (job_value (wr_write_busy (so_writer s)))"
    using arg_cong [OF m, of length] unfolding length_map length_append .
  ultimately have "so_answers s = take (length (so_answers s)) (map (\<lambda>j. fst (snd j)) (so_jobs s)) \<and>
      length (so_jobs s) \<le> length (so_answers s) + 1"
    by (simp add: m)
  moreover have "w = d \<and> n = length d" if "(d, Inr n, w) \<in> set (so_jobs s)" for d n w
  proof -
    have "list_all (\<lambda>j. sink_write_all (fst j) (fst (snd j)) (snd (snd j))) (so_jobs s)"
      using inv by (simp add: stdout_inv_def)
    with that have "sink_write_all d (Inr n) w" by (auto simp: list_all_iff)
    then show ?thesis by simp
  qed
  moreover have "so_out s = concat (map (\<lambda>j. snd (snd j)) (so_jobs s))" using inv by (simp add: stdout_inv_def)
  ultimately show ?thesis by blast
qed

text \<open>
  But an answer is about the buffer of the poll that posted the job: after a cancelled write the next
  one gets the old count, which may exceed the buffer it was given.  And a flush does not wait for
  the write: it is answered while that write is still under way.
\<close>

lemma writer_answers_for_cancelled_write:
  assumes "wr_write_busy w = Some job" "ce_value (of_cell job) = Some (Inr n)"
  shows "std_poll_write fast wk buf w = (Ready (Inr n), w\<lparr>wr_write_busy := None\<rparr>)"
  using assms by (simp add: std_poll_write_def writer_poll_write_def offload_poll_def Let_def)

lemma flush_overtakes_write:
  assumes "wr_write_busy w = Some job" "ce_value (of_cell job) = None" "wr_flush_busy w = None"
  shows "std_poll_flush (Some (Inr ())) wk w = (Ready (Inr ()), w)"
  using assms
  by (simp add: std_poll_flush_def writer_poll_flush_def new_offload_def offload_def deliver_def setter_set_def
      offload_poll_def Let_def)

end
