(* ===== verification/Reactor_Model.thy ===== *)
theory Reactor_Model
  imports Epoll_Pump_Model Wait_Set_Model
begin

text \<open>
  \<open>rust_async/reactor.rs\<close>: a \<open>Source\<close> turns one-shot watches of a descriptor into wake-ups of the task
  that reads and the task that writes.  Arming is posted to the IO thread, so the source's idea of
  what is armed (\<open>ss_armed\<close>), the posted arms and the watch in the pump are three different things;
  the invariant below says how they fit.

  A reactor is a number.  Each has a lane: the arms posted to it and not run, its pump, and the
  callbacks of the event it is dispatching.  Of the other work of an IO thread only what it does
  to the pump matters here; it never touches the descriptor of this source, which its owner keeps
  open.
\<close>

section \<open>The source\<close>

record source_state =
  ss_read_waker :: "waker option"
  ss_write_waker :: "waker option"
  ss_read_ready :: bool
  ss_write_ready :: bool
  ss_armed :: "watch_mode option"
  ss_reactor :: "nat option"

definition source_new :: source_state where
  "source_new = \<lparr>ss_read_waker = None, ss_write_waker = None, ss_read_ready = False, ss_write_ready = False,
     ss_armed = None, ss_reactor = None\<rparr>"

definition desired_mode :: "source_state \<Rightarrow> watch_mode option" where
  "desired_mode s =
     (case (ss_read_waker s, ss_write_waker s) of
        (Some _, Some _) \<Rightarrow> Some WatchReadWrite
      | (Some _, None) \<Rightarrow> Some WatchRead
      | (None, Some _) \<Rightarrow> Some WatchWrite
      | (None, None) \<Rightarrow> None)"

text \<open>\<open>update_arm\<close>; the first component is the arm it posts, and \<open>current\<close> is what \<open>io_runner()\<close> returns.\<close>

definition update_arm :: "nat \<Rightarrow> source_state \<Rightarrow> (nat \<times> watch_mode) option \<times> source_state" where
  "update_arm current s =
     (let desired = desired_mode s
      in if desired \<noteq> ss_armed s
         then (let s1 = s\<lparr>ss_armed := desired\<rparr>
               in case desired of
                    None \<Rightarrow> (None, s1)
                  | Some mode \<Rightarrow>
                      (let io = (case ss_reactor s1 of Some r \<Rightarrow> r | None \<Rightarrow> current)
                       in (Some (io, mode), s1\<lparr>ss_reactor := Some io\<rparr>)))
         else (None, s))"

definition poll_readable ::
    "nat \<Rightarrow> waker \<Rightarrow> source_state \<Rightarrow> unit poll \<times> (nat \<times> watch_mode) option \<times> source_state" where
  "poll_readable current wk s =
     (if ss_read_ready s then (Ready (), None, s\<lparr>ss_read_ready := False\<rparr>)
      else (Pending, update_arm current (s\<lparr>ss_read_waker := Some wk\<rparr>)))"

definition poll_writable ::
    "nat \<Rightarrow> waker \<Rightarrow> source_state \<Rightarrow> unit poll \<times> (nat \<times> watch_mode) option \<times> source_state" where
  "poll_writable current wk s =
     (if ss_write_ready s then (Ready (), None, s\<lparr>ss_write_ready := False\<rparr>)
      else (Pending, update_arm current (s\<lparr>ss_write_waker := Some wk\<rparr>)))"

text \<open>The two callbacks: the waker they call, the arm they post.\<close>

definition source_can_read ::
    "nat \<Rightarrow> source_state \<Rightarrow> waker option \<times> (nat \<times> watch_mode) option \<times> source_state" where
  "source_can_read current s =
     (ss_read_waker s,
      update_arm current (s\<lparr>ss_armed := None, ss_read_ready := True, ss_read_waker := None\<rparr>))"

definition source_can_write ::
    "nat \<Rightarrow> source_state \<Rightarrow> waker option \<times> (nat \<times> watch_mode) option \<times> source_state" where
  "source_can_write current s =
     (ss_write_waker s,
      update_arm current (s\<lparr>ss_armed := None, ss_write_ready := True, ss_write_waker := None\<rparr>))"

section \<open>The machine\<close>

record lane =
  ln_arms :: "watch_mode list"
  ln_pump :: pump
  ln_calls :: "fd_callback list"
  ln_shutdown :: bool

record source_sys =
  sy_source :: source_state
  sy_controller :: controller
  sy_lanes :: "nat \<Rightarrow> lane"
  sy_woken :: "waker list"

definition lane_new :: lane where
  "lane_new = \<lparr>ln_arms = [], ln_pump = pump_new, ln_calls = [], ln_shutdown = False\<rparr>"

definition sys_new :: source_sys where
  "sys_new = \<lparr>sy_source = source_new, sy_controller = controller_new, sy_lanes = (\<lambda>_. lane_new), sy_woken = []\<rparr>"

definition upd_lane :: "nat \<Rightarrow> (lane \<Rightarrow> lane) \<Rightarrow> source_sys \<Rightarrow> source_sys" where
  "upd_lane r f s = s\<lparr>sy_lanes := (sy_lanes s)(r := f (sy_lanes s r))\<rparr>"

text \<open>\<open>arm\<close>: \<open>post_task\<close> to the reactor, whose answer is not looked at; a runner that was shut down drops it.\<close>

definition arm_source :: "(nat \<times> watch_mode) option \<Rightarrow> source_sys \<Rightarrow> source_sys" where
  "arm_source a s =
     (case a of
        None \<Rightarrow> s
      | Some (io, mode) \<Rightarrow>
          upd_lane io (\<lambda>l. if ln_shutdown l then l else l\<lparr>ln_arms := ln_arms l @ [mode]\<rparr>) s)"

definition after_poll ::
    "'r poll \<times> (nat \<times> watch_mode) option \<times> source_state \<Rightarrow> source_sys \<Rightarrow> source_sys" where
  "after_poll res s = (case res of (_, a, src) \<Rightarrow> arm_source a (s\<lparr>sy_source := src\<rparr>))"

definition after_call ::
    "waker option \<times> (nat \<times> watch_mode) option \<times> source_state \<Rightarrow> source_sys \<Rightarrow> source_sys" where
  "after_call res s =
     (case res of (w, a, src) \<Rightarrow>
        arm_source a (s\<lparr>sy_source := src, sy_woken := sy_woken s @ (case w of None \<Rightarrow> [] | Some wk \<Rightarrow> [wk])\<rparr>))"

text \<open>
  The closure posted by \<open>arm\<close>, on the IO thread, for the source with watcher \<open>me\<close> on descriptor \<open>fd\<close>.
\<close>

definition run_arm :: "(raw_fd \<Rightarrow> bool) \<Rightarrow> raw_fd \<Rightarrow> nat \<Rightarrow> watch_mode \<Rightarrow> nat \<Rightarrow> source_sys \<Rightarrow> source_sys" where
  "run_arm valid fd me mode r s =
     (case watch_file_descriptor valid fd False mode me (sy_controller s) (ln_pump (sy_lanes s r)) of
        (_, c, p) \<Rightarrow> upd_lane r (\<lambda>l. l\<lparr>ln_pump := p\<rparr>) (s\<lparr>sy_controller := c\<rparr>))"

text \<open>What \<open>epoll_wait\<close> can report for a descriptor: a bit of its interest, an error or a hang-up.\<close>

definition reports :: "pump \<Rightarrow> raw_fd \<Rightarrow> 32 word \<Rightarrow> bool" where
  "reports p fd ev \<longleftrightarrow>
     (case pu_interest p fd of None \<Rightarrow> False | Some events \<Rightarrow> ev AND (events OR EPOLLERR OR EPOLLHUP) \<noteq> 0)"

datatype source_label =
    PollReadable waker nat
  | PollWritable waker nat
  | RunArm nat
  | FdEvent nat raw_fd "32 word"
  | RunCallback nat
  | OtherWatch nat raw_fd bool watch_mode nat
  | OtherStop nat raw_fd u64
  | ShutdownLane nat

fun source_step ::
    "(raw_fd \<Rightarrow> bool) \<Rightarrow> (nat \<Rightarrow> bool) \<Rightarrow> raw_fd \<Rightarrow> nat \<Rightarrow> nat \<Rightarrow> source_label \<Rightarrow> source_sys \<Rightarrow> source_sys option" where
  "source_step valid alive fd me global (PollReadable wk r) s =
     Some (after_poll (poll_readable r wk (sy_source s)) s)"
| "source_step valid alive fd me global (PollWritable wk r) s =
     Some (after_poll (poll_writable r wk (sy_source s)) s)"
| "source_step valid alive fd me global (RunArm r) s =
     (case (ln_arms (sy_lanes s r), ln_calls (sy_lanes s r)) of
        (mode # rest, []) \<Rightarrow> Some (run_arm valid fd me mode r (upd_lane r (\<lambda>l. l\<lparr>ln_arms := rest\<rparr>) s))
      | _ \<Rightarrow> None)"
| "source_step valid alive fd me global (FdEvent r fd' ev) s =
     (if ln_calls (sy_lanes s r) = [] \<and> reports (ln_pump (sy_lanes s r)) fd' ev
      then Some (case dispatch_event alive fd' ev (ln_pump (sy_lanes s r)) of
                   (calls, p) \<Rightarrow> upd_lane r (\<lambda>l. l\<lparr>ln_pump := p, ln_calls := calls\<rparr>) s)
      else None)"
| "source_step valid alive fd me global (RunCallback r) s =
     (case ln_calls (sy_lanes s r) of
        [] \<Rightarrow> None
      | call # rest \<Rightarrow>
          (let s1 = upd_lane r (\<lambda>l. l\<lparr>ln_calls := rest\<rparr>) s
           in Some (case call of
                      CanRead w _ \<Rightarrow> if w = me then after_call (source_can_read global (sy_source s1)) s1 else s1
                    | CanWrite w _ \<Rightarrow> if w = me then after_call (source_can_write global (sy_source s1)) s1 else s1)))"
| "source_step valid alive fd me global (OtherWatch r fd' persistent mode w) s =
     (if fd' = fd \<or> w = me then None
      else Some (upd_lane r (\<lambda>l. l\<lparr>ln_pump := snd (register_fd valid fd' persistent mode w (ln_pump l))\<rparr>) s))"
| "source_step valid alive fd me global (OtherStop r fd' g) s =
     (if fd' = fd then None
      else Some (upd_lane r (\<lambda>l. l\<lparr>ln_pump := snd (unregister_fd fd' g (ln_pump l))\<rparr>) s))"
| "source_step valid alive fd me global (ShutdownLane r) s =
     Some (upd_lane r (\<lambda>l. l\<lparr>ln_shutdown := True\<rparr>) s)"

text \<open>The descriptor is one epoll accepts and the source is kept alive by its owner.\<close>

definition sys_init :: "(raw_fd \<Rightarrow> bool) \<Rightarrow> (nat \<Rightarrow> bool) \<Rightarrow> raw_fd \<Rightarrow> nat \<Rightarrow> source_sys \<Rightarrow> bool" where
  "sys_init valid alive fd me s \<longleftrightarrow> s = sys_new \<and> valid fd \<and> alive me"

section \<open>The invariant\<close>

text \<open>
  What is armed is what is waited for; a direction is not both waited for and latched.
\<close>

definition source_ok :: "source_state \<Rightarrow> bool" where
  "source_ok s \<longleftrightarrow>
     ss_armed s = desired_mode s \<and>
     (ss_read_ready s \<longrightarrow> ss_read_waker s = None) \<and>
     (ss_write_ready s \<longrightarrow> ss_write_waker s = None) \<and>
     (ss_armed s \<noteq> None \<longrightarrow> ss_reactor s \<noteq> None)"

text \<open>The lane of the source's reactor will have the watch for \<open>mode\<close>, or is calling back already.\<close>

definition own_calls :: "nat \<Rightarrow> fd_callback list \<Rightarrow> bool" where
  "own_calls me cs \<longleftrightarrow> (\<exists>call\<in>set cs. \<exists>f. call = CanRead me f \<or> call = CanWrite me f)"

definition watch_of :: "raw_fd \<Rightarrow> nat \<Rightarrow> pump \<Rightarrow> watch_mode option" where
  "watch_of fd me p =
     (case pu_watches p fd of
        Some e \<Rightarrow> if we_watcher e = me \<and> \<not> we_persistent e then Some (we_mode e) else None
      | None \<Rightarrow> None)"

definition lane_serves :: "raw_fd \<Rightarrow> nat \<Rightarrow> watch_mode \<Rightarrow> lane \<Rightarrow> bool" where
  "lane_serves fd me mode l \<longleftrightarrow>
     (if own_calls me (ln_calls l) then True
      else if ln_arms l \<noteq> [] then last (ln_arms l) = mode
      else watch_of fd me (ln_pump l) = Some mode)"

text \<open>Only the bound reactor has anything to do with the source.\<close>

definition lane_foreign :: "raw_fd \<Rightarrow> nat \<Rightarrow> lane \<Rightarrow> bool" where
  "lane_foreign fd me l \<longleftrightarrow> ln_arms l = [] \<and> \<not> own_calls me (ln_calls l) \<and> pu_watches (ln_pump l) fd = None"

definition pump_mine :: "raw_fd \<Rightarrow> nat \<Rightarrow> pump \<Rightarrow> bool" where
  "pump_mine fd me p \<longleftrightarrow>
     pump_ok p \<and>
     (\<forall>fd' e. pu_watches p fd' = Some e \<longrightarrow> (we_watcher e = me \<longleftrightarrow> fd' = fd)) \<and>
     (\<forall>e. pu_watches p fd = Some e \<longrightarrow> \<not> we_persistent e)"

definition lanes_ok :: "raw_fd \<Rightarrow> nat \<Rightarrow> nat option \<Rightarrow> (nat \<Rightarrow> lane) \<Rightarrow> bool" where
  "lanes_ok fd me bound lanes \<longleftrightarrow>
     (\<forall>r. pump_mine fd me (ln_pump (lanes r))) \<and> (\<forall>r. bound \<noteq> Some r \<longrightarrow> lane_foreign fd me (lanes r))"

definition armed_served :: "raw_fd \<Rightarrow> nat \<Rightarrow> source_state \<Rightarrow> (nat \<Rightarrow> lane) \<Rightarrow> bool" where
  "armed_served fd me src lanes \<longleftrightarrow>
     (\<forall>mode r. ss_armed src = Some mode \<and> ss_reactor src = Some r \<and> \<not> ln_shutdown (lanes r) \<longrightarrow>
        lane_serves fd me mode (lanes r))"

definition sys_ok :: "(raw_fd \<Rightarrow> bool) \<Rightarrow> (nat \<Rightarrow> bool) \<Rightarrow> raw_fd \<Rightarrow> nat \<Rightarrow> source_sys \<Rightarrow> bool" where
  "sys_ok valid alive fd me s \<longleftrightarrow>
     valid fd \<and> alive me \<and> source_ok (sy_source s) \<and>
     lanes_ok fd me (ss_reactor (sy_source s)) (sy_lanes s) \<and>
     armed_served fd me (sy_source s) (sy_lanes s) \<and>
     (ct_attached (sy_controller s) \<longrightarrow> ct_fd (sy_controller s) = fd)"

section \<open>Arming\<close>

lemma upd_lane_simps [simp]:
  "sy_source (upd_lane r f s) = sy_source s" "sy_controller (upd_lane r f s) = sy_controller s"
  "sy_woken (upd_lane r f s) = sy_woken s" "sy_lanes (upd_lane r f s) = (sy_lanes s)(r := f (sy_lanes s r))"
  by (simp_all add: upd_lane_def)

lemma arm_source_simps [simp]:
  "sy_source (arm_source a s) = sy_source s" "sy_controller (arm_source a s) = sy_controller s"
  "sy_woken (arm_source a s) = sy_woken s"
  by (auto simp: arm_source_def split: option.split)

lemma desired_mode_update [simp]:
  "desired_mode (s\<lparr>ss_armed := a\<rparr>) = desired_mode s" "desired_mode (s\<lparr>ss_reactor := b\<rparr>) = desired_mode s"
  "desired_mode (s\<lparr>ss_read_ready := x\<rparr>) = desired_mode s" "desired_mode (s\<lparr>ss_write_ready := x\<rparr>) = desired_mode s"
  by (simp_all add: desired_mode_def)

lemma update_arm_cases:
  assumes "update_arm current src = (a, src')"
  obtains (same) "a = None" "src' = src" "ss_armed src = desired_mode src"
  | (drop) "a = None" "src' = src\<lparr>ss_armed := None\<rparr>" "desired_mode src = None"
  | (post) io mode where "a = Some (io, mode)" "desired_mode src = Some mode"
      "io = (case ss_reactor src of Some r \<Rightarrow> r | None \<Rightarrow> current)"
      "src' = src\<lparr>ss_armed := Some mode, ss_reactor := Some io\<rparr>"
proof (cases "desired_mode src = ss_armed src")
  case True
  then show ?thesis using assms same by (simp add: update_arm_def)
next
  case False
  show ?thesis
  proof (cases "desired_mode src")
    case None
    then show ?thesis using assms False drop by (simp add: update_arm_def)
  next
    case (Some mode)
    show ?thesis
      by (rule post [OF _ Some refl]) (use assms False Some in \<open>simp_all add: update_arm_def Let_def\<close>)
  qed
qed

text \<open>
  The heart of the invariant: from a source whose latches are right and whose recorded arm is
  served, \<open>update_arm\<close> and the post it makes restore the whole invariant.
\<close>

lemma arm_source_lanes_ok:
  assumes lanes: "lanes_ok fd me (ss_reactor src) (sy_lanes s)"
    and a: "update_arm current src = (a, src')"
  shows "lanes_ok fd me (ss_reactor src') (sy_lanes (arm_source a s))"
  using a
proof (cases rule: update_arm_cases)
  case (post io mode)
  then show ?thesis
    using lanes by (auto simp: lanes_ok_def arm_source_def lane_foreign_def split: option.splits)
qed (use lanes in \<open>simp_all add: arm_source_def\<close>)

lemma arm_source_served:
  assumes served: "armed_served fd me src (sy_lanes s)"
    and a: "update_arm current src = (a, src')"
  shows "armed_served fd me src' (sy_lanes (arm_source a s))"
  using a
proof (cases rule: update_arm_cases)
  case (post io mode)
  then show ?thesis
    by (auto simp: armed_served_def arm_source_def lane_serves_def)
qed (use served in \<open>simp_all add: arm_source_def armed_served_def\<close>)

lemma update_arm_source_ok:
  assumes "update_arm current src = (a, src')"
    and "ss_read_ready src \<longrightarrow> ss_read_waker src = None" "ss_write_ready src \<longrightarrow> ss_write_waker src = None"
    and "ss_armed src \<noteq> None \<longrightarrow> ss_reactor src \<noteq> None"
  shows "source_ok src'"
  using assms(1)
  by (cases rule: update_arm_cases) (use assms(2-4) in \<open>simp_all add: source_ok_def\<close>)

text \<open>Both polls and both callbacks are this: change wakers or latches, perhaps forget the arm, update.\<close>

lemma sys_ok_update:
  assumes "valid fd" "alive me" "ct_attached (sy_controller s) \<longrightarrow> ct_fd (sy_controller s) = fd"
    and "lanes_ok fd me (ss_reactor src) (sy_lanes s)" "armed_served fd me src (sy_lanes s)"
    and "ss_read_ready src \<longrightarrow> ss_read_waker src = None" "ss_write_ready src \<longrightarrow> ss_write_waker src = None"
    and "ss_armed src \<noteq> None \<longrightarrow> ss_reactor src \<noteq> None"
    and "update_arm current src = (a, src')"
  shows "sys_ok valid alive fd me (arm_source a (s\<lparr>sy_source := src', sy_woken := ws\<rparr>))"
  using assms arm_source_lanes_ok [of fd me src "s\<lparr>sy_source := src', sy_woken := ws\<rparr>" current a src']
    arm_source_served [of fd me src "s\<lparr>sy_source := src', sy_woken := ws\<rparr>" current a src']
    update_arm_source_ok [of current src a src']
  by (simp add: sys_ok_def)


section \<open>The steps keep the invariant\<close>

lemma sys_okD:
  assumes "sys_ok valid alive fd me s"
  shows "valid fd" "alive me" "source_ok (sy_source s)"
    and "lanes_ok fd me (ss_reactor (sy_source s)) (sy_lanes s)"
    and "armed_served fd me (sy_source s) (sy_lanes s)"
    and "ct_attached (sy_controller s) \<longrightarrow> ct_fd (sy_controller s) = fd"
  using assms by (simp_all add: sys_ok_def)

lemma poll_readable_ok:
  assumes "sys_ok valid alive fd me s"
  shows "sys_ok valid alive fd me (after_poll (poll_readable r wk (sy_source s)) s)"
proof (cases "ss_read_ready (sy_source s)")
  case True
  then show ?thesis
    using assms by (simp add: sys_ok_def poll_readable_def after_poll_def arm_source_def source_ok_def
        lanes_ok_def armed_served_def)
next
  case False
  obtain a src' where u: "update_arm r ((sy_source s)\<lparr>ss_read_waker := Some wk\<rparr>) = (a, src')"
    by (rule prod.exhaust)
  show ?thesis
    using False u sys_okD [OF assms]
      sys_ok_update [OF _ _ _ _ _ _ _ _ u, of valid fd alive me s "sy_woken s"]
    by (simp add: poll_readable_def after_poll_def source_ok_def armed_served_def)
qed

lemma poll_writable_ok:
  assumes "sys_ok valid alive fd me s"
  shows "sys_ok valid alive fd me (after_poll (poll_writable r wk (sy_source s)) s)"
proof (cases "ss_write_ready (sy_source s)")
  case True
  then show ?thesis
    using assms by (simp add: sys_ok_def poll_writable_def after_poll_def arm_source_def source_ok_def
        lanes_ok_def armed_served_def)
next
  case False
  obtain a src' where u: "update_arm r ((sy_source s)\<lparr>ss_write_waker := Some wk\<rparr>) = (a, src')"
    by (rule prod.exhaust)
  show ?thesis
    using False u sys_okD [OF assms]
      sys_ok_update [OF _ _ _ _ _ _ _ _ u, of valid fd alive me s "sy_woken s"]
    by (simp add: poll_writable_def after_poll_def source_ok_def armed_served_def)
qed

lemma source_call_ok:
  assumes "valid fd" "alive me" "source_ok (sy_source s)"
    and "ct_attached (sy_controller s) \<longrightarrow> ct_fd (sy_controller s) = fd"
    and "lanes_ok fd me (ss_reactor (sy_source s)) (sy_lanes s)"
  shows "sys_ok valid alive fd me (after_call (source_can_read g (sy_source s)) s)"
    and "sys_ok valid alive fd me (after_call (source_can_write g (sy_source s)) s)"
proof -
  let ?R = "(sy_source s)\<lparr>ss_armed := None, ss_read_ready := True, ss_read_waker := None\<rparr>"
  let ?W = "(sy_source s)\<lparr>ss_armed := None, ss_write_ready := True, ss_write_waker := None\<rparr>"
  obtain a src' where u: "update_arm g ?R = (a, src')" by (rule prod.exhaust)
  show "sys_ok valid alive fd me (after_call (source_can_read g (sy_source s)) s)"
    using u assms sys_ok_update [OF _ _ _ _ _ _ _ _ u, of valid fd alive me s]
    by (simp add: source_can_read_def after_call_def source_ok_def armed_served_def)
  obtain a src' where u: "update_arm g ?W = (a, src')" by (rule prod.exhaust)
  show "sys_ok valid alive fd me (after_call (source_can_write g (sy_source s)) s)"
    using u assms sys_ok_update [OF _ _ _ _ _ _ _ _ u, of valid fd alive me s]
    by (simp add: source_can_write_def after_call_def source_ok_def armed_served_def)
qed

lemma watch_fd_mine:
  assumes mine: "pump_mine fd me p" and c: "ct_attached c \<longrightarrow> ct_fd c = fd" and "valid fd"
    and w: "watch_file_descriptor valid fd False mode me c p = (ok, c', p')"
  shows "pump_mine fd me p'" "watch_of fd me p' = Some mode" "ct_attached c' \<longrightarrow> ct_fd c' = fd"
proof -
  obtain b c1 p1 where st: "stop_watching_file_descriptor c p = (b, c1, p1)" by (metis prod.exhaust)
  have p1: "pump_ok p1"
    using pump_ok_stop [of p c] mine st by (simp add: pump_mine_def)
  have c1: "ct_fd c1 = ct_fd c"
    and sub: "\<And>f e. pu_watches p1 f = Some e \<Longrightarrow> pu_watches p f = Some e"
    using st by (auto simp: stop_watching_file_descriptor_def unregister_fd_def split: if_splits option.splits)
  obtain g p2 where rg: "register_fd valid fd False mode me p1 = (g, p2)" by (rule prod.exhaust)
  have g: "g = Some (pu_generation p1)"
    and p2: "pu_watches p2 = (pu_watches p1)(fd \<mapsto> \<lparr>we_watcher = me, we_persistent = False, we_mode = mode,
       we_generation = pu_generation p1\<rparr>)"
    using register_result(1,2) [OF p1, of valid fd False mode me] rg \<open>valid fd\<close> by simp_all
  have p': "p' = p2" and c': "c' = controller_attach fd (pu_generation p1) c1"
    using w st rg g by (simp_all add: watch_file_descriptor_def)
  have "pump_ok p2"
    using pump_ok_register [OF p1, of valid fd False mode me] rg by simp
  moreover have "we_watcher e = me \<longleftrightarrow> f = fd" if "pu_watches p2 f = Some e" for f e
  proof (cases "f = fd")
    case False
    then have "pu_watches p f = Some e" using that p2 sub by simp
    then show ?thesis using mine False unfolding pump_mine_def by blast
  qed (use that p2 in auto)
  moreover have "\<not> we_persistent e" if "pu_watches p2 fd = Some e" for e
    using that p2 by auto
  ultimately show "pump_mine fd me p'"
    unfolding p' pump_mine_def by blast
  show "watch_of fd me p' = Some mode" by (simp add: p' p2 watch_of_def)
  show "ct_attached c' \<longrightarrow> ct_fd c' = fd" by (simp add: c' controller_attach_def)
qed

lemma run_arm_ok:
  assumes ok: "sys_ok valid alive fd me s" and q: "ln_arms (sy_lanes s r) = mode # rest" "ln_calls (sy_lanes s r) = []"
  shows "sys_ok valid alive fd me (run_arm valid fd me mode r (upd_lane r (\<lambda>l. l\<lparr>ln_arms := rest\<rparr>) s))"
proof -
  note s = sys_okD [OF ok]
  have r: "ss_reactor (sy_source s) = Some r"
    using s(4) q(1) by (auto simp: lanes_ok_def lane_foreign_def)
  have mine: "pump_mine fd me (ln_pump (sy_lanes s r))"
    using s(4) by (simp add: lanes_ok_def)
  obtain b c p where w: "watch_file_descriptor valid fd False mode me (sy_controller s) (ln_pump (sy_lanes s r)) = (b, c, p)"
    by (metis prod.exhaust)
  note p = watch_fd_mine [where p = "ln_pump (sy_lanes s r)", OF mine s(6) s(1) w]
  have lanes: "lanes_ok fd me (Some r) ((sy_lanes s)(r := sy_lanes s r\<lparr>ln_arms := rest, ln_pump := p\<rparr>))"
    using s(4) r p(1) by (simp add: lanes_ok_def)
  have "lane_serves fd me m (sy_lanes s r\<lparr>ln_arms := rest, ln_pump := p\<rparr>)"
    if "lane_serves fd me m (sy_lanes s r)" for m
    using that q p(2) by (auto simp: lane_serves_def own_calls_def split: if_splits)
  then have "armed_served fd me (sy_source s) ((sy_lanes s)(r := sy_lanes s r\<lparr>ln_arms := rest, ln_pump := p\<rparr>))"
    using s(5) r by (simp add: armed_served_def)
  then show ?thesis
    using s lanes r p(3) w by (simp add: sys_ok_def run_arm_def)
qed

text \<open>A reported event calls back the watcher in at least one direction it watches.\<close>

lemma reports_calls:
  assumes ok: "pump_ok p" and rep: "reports p fd ev" and e: "pu_watches p fd = Some e" and "alive (we_watcher e)"
  shows "own_calls (we_watcher e) (fst (dispatch_event alive fd ev p))"
proof -
  have "pu_interest p fd = Some (mode_to_epoll_events (we_mode e))"
    using ok e by (simp add: pump_ok_def)
  then have "ev AND (mode_to_epoll_events (we_mode e) OR EPOLLERR OR EPOLLHUP) \<noteq> 0"
    using rep by (simp add: reports_def)
  then have "ev AND mode_to_epoll_events (we_mode e) \<noteq> 0 \<or> ev AND (EPOLLERR OR EPOLLHUP) \<noteq> 0"
    by (auto simp: bit.conj_disj_distrib)
  then have "((ev AND EPOLLIN) \<noteq> 0 \<or> ev AND (EPOLLERR OR EPOLLHUP) \<noteq> 0) \<and> entry_reads (we_mode e) \<or>
     ((ev AND EPOLLOUT) \<noteq> 0 \<or> ev AND (EPOLLERR OR EPOLLHUP) \<noteq> 0) \<and> entry_writes (we_mode e)"
    by (cases "we_mode e") (auto simp: entry_reads_def entry_writes_def bit.conj_disj_distrib)
  then show ?thesis
    using e assms(4) by (auto simp: dispatch_event_def own_calls_def Let_def)
qed

lemma dispatch_watches:
  "pu_watches (snd (dispatch_event alive f ev p)) f' = Some e \<Longrightarrow> pu_watches p f' = Some e"
  "f' \<noteq> f \<Longrightarrow> pu_watches (snd (dispatch_event alive f ev p)) f' = pu_watches p f'"
  by (auto simp: dispatch_event_def Let_def split: option.splits if_splits)

lemma own_calls_dispatch:
  assumes "own_calls me (fst (dispatch_event alive f ev p))"
  shows "\<exists>e. pu_watches p f = Some e \<and> we_watcher e = me"
  using assms by (auto simp: dispatch_event_def own_calls_def Let_def split: option.splits if_splits)

lemma fd_event_ok:
  assumes ok: "sys_ok valid alive fd me s" and calls: "ln_calls (sy_lanes s r) = []"
    and rep: "reports (ln_pump (sy_lanes s r)) f ev"
    and d: "dispatch_event alive f ev (ln_pump (sy_lanes s r)) = (cs, p)"
  shows "sys_ok valid alive fd me (upd_lane r (\<lambda>l. l\<lparr>ln_pump := p, ln_calls := cs\<rparr>) s)"
proof -
  note s = sys_okD [OF ok]
  let ?l = "sy_lanes s r" and ?l' = "sy_lanes s r\<lparr>ln_pump := p, ln_calls := cs\<rparr>"
  have mine: "pump_mine fd me (ln_pump ?l)"
    using s(4) by (simp add: lanes_ok_def)
  have sub: "\<And>f' e. pu_watches p f' = Some e \<Longrightarrow> pu_watches (ln_pump ?l) f' = Some e"
    and other: "\<And>f'. f' \<noteq> f \<Longrightarrow> pu_watches p f' = pu_watches (ln_pump ?l) f'"
    using dispatch_watches(1) [where alive = alive and f = f and ev = ev and p = "ln_pump ?l"]
      dispatch_watches(2) [where alive = alive and f = f and ev = ev and p = "ln_pump ?l"] d
    by (metis snd_conv)+
  have "pump_ok p"
    using pump_ok_dispatch [of "ln_pump ?l" alive f ev] mine d by (simp add: pump_mine_def)
  then have mine': "pump_mine fd me p"
    using mine sub unfolding pump_mine_def by blast
  have own: "own_calls me cs \<Longrightarrow> f = fd \<and> (\<exists>e. pu_watches (ln_pump ?l) fd = Some e)"
    using own_calls_dispatch [of me alive f ev "ln_pump ?l"] mine d by (auto simp: pump_mine_def)
  have foreign: "lane_foreign fd me ?l'" if "lane_foreign fd me ?l"
    using that own sub [of fd] unfolding lane_foreign_def by (cases "pu_watches p fd") auto
  have lanes: "lanes_ok fd me (ss_reactor (sy_source s)) ((sy_lanes s)(r := ?l'))"
    using s(4) mine' foreign by (simp add: lanes_ok_def)
  have "lane_serves fd me m ?l'" if m: "lane_serves fd me m ?l" for m
  proof (cases "f = fd \<and> pu_watches (ln_pump ?l) fd \<noteq> None")
    case True
    then obtain e where e: "pu_watches (ln_pump ?l) fd = Some e" "we_watcher e = me"
      using mine by (auto simp: pump_mine_def)
    have "pump_ok (ln_pump ?l)" using mine by (simp add: pump_mine_def)
    then have "own_calls me (fst (dispatch_event alive fd ev (ln_pump ?l)))"
      using reports_calls [OF _ _ e(1)] rep s(2) True e(2) by simp
    then show ?thesis using True d by (simp add: lane_serves_def)
  next
    case False
    then have "\<not> own_calls me cs"
      using own by auto
    moreover have "pu_watches p fd = pu_watches (ln_pump ?l) fd"
      using False other [of fd] sub [of fd] by (cases "f = fd"; cases "pu_watches p fd") auto
    ultimately show ?thesis
      using m calls by (auto simp: lane_serves_def own_calls_def watch_of_def)
  qed
  then have "armed_served fd me (sy_source s) ((sy_lanes s)(r := ?l'))"
    using s(5) by (auto simp: armed_served_def)
  then show ?thesis
    using s lanes by (simp add: sys_ok_def)
qed

lemma run_callback_ok:
  assumes ok: "sys_ok valid alive fd me s" and cs: "ln_calls (sy_lanes s r) = call # rest"
  shows "sys_ok valid alive fd me
    (let s1 = upd_lane r (\<lambda>l. l\<lparr>ln_calls := rest\<rparr>) s
     in case call of
          CanRead w _ \<Rightarrow> if w = me then after_call (source_can_read g (sy_source s1)) s1 else s1
        | CanWrite w _ \<Rightarrow> if w = me then after_call (source_can_write g (sy_source s1)) s1 else s1)"
proof -
  note s = sys_okD [OF ok]
  let ?l' = "sy_lanes s r\<lparr>ln_calls := rest\<rparr>"
  let ?s1 = "upd_lane r (\<lambda>l. l\<lparr>ln_calls := rest\<rparr>) s"
  have lanes: "lanes_ok fd me (ss_reactor (sy_source s)) ((sy_lanes s)(r := ?l'))"
    using s(4) cs by (auto simp: lanes_ok_def lane_foreign_def own_calls_def)
  have rd: "sys_ok valid alive fd me (after_call (source_can_read g (sy_source s)) ?s1)"
    and wr: "sys_ok valid alive fd me (after_call (source_can_write g (sy_source s)) ?s1)"
    using source_call_ok [of valid fd alive me ?s1 g] s lanes by simp_all
  have other: "sys_ok valid alive fd me ?s1"
    if "\<forall>f. call \<noteq> CanRead me f \<and> call \<noteq> CanWrite me f"
  proof -
    have "own_calls me (call # rest) = own_calls me rest"
      using that by (auto simp: own_calls_def)
    then have "lane_serves fd me m ?l' = lane_serves fd me m (sy_lanes s r)" for m
      using cs by (simp add: lane_serves_def)
    then have "armed_served fd me (sy_source s) ((sy_lanes s)(r := ?l'))"
      using s(5) by (auto simp: armed_served_def)
    then show ?thesis using s lanes by (simp add: sys_ok_def)
  qed
  show ?thesis
    using rd wr other by (cases call) (auto simp: Let_def)
qed

lemma other_pump_ok:
  assumes ok: "sys_ok valid alive fd me s"
    and mine: "pump_mine fd me p" and same: "pu_watches p fd = pu_watches (ln_pump (sy_lanes s r)) fd"
  shows "sys_ok valid alive fd me (upd_lane r (\<lambda>l. l\<lparr>ln_pump := p\<rparr>) s)"
proof -
  note s = sys_okD [OF ok]
  have "lanes_ok fd me (ss_reactor (sy_source s)) ((sy_lanes s)(r := sy_lanes s r\<lparr>ln_pump := p\<rparr>))"
    using s(4) mine same by (auto simp: lanes_ok_def lane_foreign_def)
  moreover have "lane_serves fd me m (sy_lanes s r\<lparr>ln_pump := p\<rparr>) = lane_serves fd me m (sy_lanes s r)" for m
    using same by (simp add: lane_serves_def watch_of_def)
  ultimately show ?thesis
    using s by (auto simp: sys_ok_def armed_served_def)
qed

lemma register_other_mine:
  assumes "pump_mine fd me p" "f \<noteq> fd" "w \<noteq> me"
  shows "pump_mine fd me (snd (register_fd valid f persistent mode w p))"
    and "pu_watches (snd (register_fd valid f persistent mode w p)) fd = pu_watches p fd"
proof -
  have ok: "pump_ok p" using assms(1) by (simp add: pump_mine_def)
  note r = register_result [OF ok, of valid f persistent mode w]
  show fd: "pu_watches (snd (register_fd valid f persistent mode w p)) fd = pu_watches p fd"
    using r(2,3) assms(2) by (cases "valid f") auto
  have "we_watcher e = me \<longleftrightarrow> f' = fd"
    if e: "pu_watches (snd (register_fd valid f persistent mode w p)) f' = Some e" for f' e
  proof (cases "f' = f \<and> valid f")
    case True
    then show ?thesis using e r(2) assms(2,3) by auto
  next
    case False
    then have "pu_watches p f' = Some e" using e r(2,3) by (cases "valid f") auto
    then show ?thesis using assms(1) unfolding pump_mine_def by blast
  qed
  then show "pump_mine fd me (snd (register_fd valid f persistent mode w p))"
    using assms(1) fd pump_ok_register [OF ok] by (simp add: pump_mine_def)
qed

lemma unregister_other_mine:
  assumes "pump_mine fd me p" "f \<noteq> fd"
  shows "pump_mine fd me (snd (unregister_fd f g p))"
    and "pu_watches (snd (unregister_fd f g p)) fd = pu_watches p fd"
proof -
  show fd: "pu_watches (snd (unregister_fd f g p)) fd = pu_watches p fd"
    using assms(2) by (auto simp: unregister_fd_def split: option.split)
  have "pu_watches p f' = Some e" if "pu_watches (snd (unregister_fd f g p)) f' = Some e" for f' e
    using that by (auto simp: unregister_fd_def split: option.splits if_splits)
  then show "pump_mine fd me (snd (unregister_fd f g p))"
    using assms(1) pump_ok_unregister [of p f g] unfolding pump_mine_def by blast
qed

lemma source_step_ok:
  assumes "sys_ok valid alive fd me s" and "source_step valid alive fd me g l s = Some t"
  shows "sys_ok valid alive fd me t"
proof (cases l)
  case (RunArm r)
  then show ?thesis
    using assms run_arm_ok [OF assms(1)] by (auto split: list.splits)
next
  case (FdEvent r f ev)
  obtain cs p where "dispatch_event alive f ev (ln_pump (sy_lanes s r)) = (cs, p)" by (rule prod.exhaust)
  then show ?thesis
    using FdEvent assms fd_event_ok [OF assms(1)] by (auto split: if_splits)
next
  case (RunCallback r)
  then obtain call rest where cs: "ln_calls (sy_lanes s r) = call # rest"
    using assms(2) by (cases "ln_calls (sy_lanes s r)") auto
  then show ?thesis
    using RunCallback assms(2) run_callback_ok [OF assms(1) cs, of g] by (simp add: Let_def)
next
  case (OtherWatch r f persistent mode w)
  then show ?thesis
    using assms other_pump_ok [OF assms(1)] register_other_mine [of fd me "ln_pump (sy_lanes s r)" f w]
      sys_okD(4) [OF assms(1)]
    by (auto simp: lanes_ok_def upd_lane_def split: if_splits)
next
  case (OtherStop r f gen)
  then show ?thesis
    using assms other_pump_ok [OF assms(1)] unregister_other_mine [of fd me "ln_pump (sy_lanes s r)" f]
      sys_okD(4) [OF assms(1)]
    by (auto simp: lanes_ok_def upd_lane_def split: if_splits)
next
  case (ShutdownLane r)
  then show ?thesis
    using assms by (auto simp: sys_ok_def lanes_ok_def armed_served_def lane_foreign_def split: if_splits)
qed (use assms poll_readable_ok poll_writable_ok in auto)

lemma sys_ok_init: "sys_init valid alive fd me s \<Longrightarrow> sys_ok valid alive fd me s"
  by (auto simp: sys_init_def sys_ok_def sys_new_def source_new_def source_ok_def desired_mode_def lanes_ok_def
      armed_served_def lane_foreign_def lane_new_def pump_mine_def own_calls_def controller_new_def pump_new_def
      pump_ok_def)

interpretation source: inductive_invariant "sys_init valid alive fd me" "source_step valid alive fd me g"
  "sys_ok valid alive fd me"
  by unfold_locales (auto intro: sys_ok_init source_step_ok)

section \<open>The IO thread of a reactor comes to rest\<close>

definition lane_idle :: "lane \<Rightarrow> bool" where
  "lane_idle l \<longleftrightarrow> ln_arms l = [] \<and> ln_calls l = []"

definition lane_work :: "lane \<Rightarrow> nat" where
  "lane_work l = 2 * length (ln_calls l) + length (ln_arms l)"

lemma arm_source_lane [simp]:
  "lane_work (sy_lanes (arm_source a s) r) \<le> Suc (lane_work (sy_lanes s r))"
  "ln_shutdown (sy_lanes (arm_source a s) r) = ln_shutdown (sy_lanes s r)"
  by (auto simp: arm_source_def lane_work_def split: option.split)

lemma lane_work_cong [simp]: "lane_work (sy_lanes (arm_source a (s\<lparr>sy_source := x, sy_woken := y\<rparr>)) r) = lane_work (sy_lanes (arm_source a s) r)"
  by (auto simp: arm_source_def upd_lane_def split: option.split)

lemma update_arm_reactor:
  assumes "update_arm current src = (a, src')" "ss_reactor src = Some r"
  shows "ss_reactor src' = Some r"
  using assms(1) by (cases rule: update_arm_cases) (use assms(2) in simp_all)

lemma after_call_lane:
  assumes "ss_reactor (sy_source s) = Some r"
  shows "lane_work (sy_lanes (after_call (source_can_read g (sy_source s)) s) r) \<le> Suc (lane_work (sy_lanes s r))"
    and "lane_work (sy_lanes (after_call (source_can_write g (sy_source s)) s) r) \<le> Suc (lane_work (sy_lanes s r))"
    and "ln_shutdown (sy_lanes (after_call (source_can_read g (sy_source s)) s) r) = ln_shutdown (sy_lanes s r)"
    and "ln_shutdown (sy_lanes (after_call (source_can_write g (sy_source s)) s) r) = ln_shutdown (sy_lanes s r)"
    and "ss_reactor (sy_source (after_call (source_can_read g (sy_source s)) s)) = Some r"
    and "ss_reactor (sy_source (after_call (source_can_write g (sy_source s)) s)) = Some r"
  using assms
  by (auto simp: after_call_def source_can_read_def source_can_write_def update_arm_reactor split: prod.split)

text \<open>One step of the IO thread, as long as there is something to do.\<close>

lemma lane_progress:
  assumes r: "ss_reactor (sy_source s) = Some r" and "\<not> lane_idle (sy_lanes s r)"
  shows "\<exists>l t. l \<in> {RunArm r, RunCallback r} \<and> source_step valid alive fd me g l s = Some t \<and>
    lane_work (sy_lanes t r) < lane_work (sy_lanes s r) \<and> ss_reactor (sy_source t) = Some r \<and>
    ln_shutdown (sy_lanes t r) = ln_shutdown (sy_lanes s r)"
proof (cases "ln_calls (sy_lanes s r)")
  case Nil
  then obtain mode rest where q: "ln_arms (sy_lanes s r) = mode # rest"
    using assms(2) by (cases "ln_arms (sy_lanes s r)") (auto simp: lane_idle_def)
  obtain b c p where "watch_file_descriptor valid fd False mode me (sy_controller s) (ln_pump (sy_lanes s r)) = (b, c, p)"
    by (metis prod.exhaust)
  then have "source_step valid alive fd me g (RunArm r) s =
      Some (upd_lane r (\<lambda>l. l\<lparr>ln_pump := p\<rparr>) ((upd_lane r (\<lambda>l. l\<lparr>ln_arms := rest\<rparr>) s)\<lparr>sy_controller := c\<rparr>))"
    using Nil q by (simp add: run_arm_def)
  moreover have "lane_work (sy_lanes s r\<lparr>ln_arms := rest, ln_pump := p\<rparr>) < lane_work (sy_lanes s r)"
    using q by (simp add: lane_work_def)
  ultimately show ?thesis
    using r by (intro exI [of _ "RunArm r"]) simp
next
  case (Cons call rest)
  let ?s1 = "upd_lane r (\<lambda>l. l\<lparr>ln_calls := rest\<rparr>) s"
  have "lane_work (sy_lanes ?s1 r) + 2 \<le> lane_work (sy_lanes s r)"
    using Cons by (simp add: lane_work_def)
  moreover have "ss_reactor (sy_source ?s1) = Some r" using r by simp
  moreover have "ln_shutdown (sy_lanes ?s1 r) = ln_shutdown (sy_lanes s r)" by simp
  ultimately have "\<exists>t. source_step valid alive fd me g (RunCallback r) s = Some t \<and>
    lane_work (sy_lanes t r) < lane_work (sy_lanes s r) \<and> ss_reactor (sy_source t) = Some r \<and>
    ln_shutdown (sy_lanes t r) = ln_shutdown (sy_lanes s r)"
    using after_call_lane [of ?s1 r g] Cons by (cases call) (auto simp: Let_def simp del: upd_lane_simps(4))
  then show ?thesis by blast
qed

lemma lane_drains:
  assumes "ss_reactor (sy_source s) = Some r"
  shows "\<exists>ls t. set ls \<subseteq> {RunArm r, RunCallback r} \<and> length ls \<le> lane_work (sy_lanes s r) \<and>
    run (source_step valid alive fd me g) ls s = Some t \<and> lane_idle (sy_lanes t r) \<and>
    ss_reactor (sy_source t) = Some r \<and> ln_shutdown (sy_lanes t r) = ln_shutdown (sy_lanes s r)"
  using assms
proof (induction "lane_work (sy_lanes s r)" arbitrary: s rule: less_induct)
  case less
  show ?case
  proof (cases "lane_idle (sy_lanes s r)")
    case True
    then show ?thesis using less.prems by (intro exI [of _ "[]"]) simp
  next
    case False
    then obtain l t where l: "l \<in> {RunArm r, RunCallback r}" "source_step valid alive fd me g l s = Some t"
      and t: "lane_work (sy_lanes t r) < lane_work (sy_lanes s r)" "ss_reactor (sy_source t) = Some r"
        "ln_shutdown (sy_lanes t r) = ln_shutdown (sy_lanes s r)"
      using lane_progress [OF less.prems] by metis
    obtain ls u where "set ls \<subseteq> {RunArm r, RunCallback r}" "length ls \<le> lane_work (sy_lanes t r)"
      "run (source_step valid alive fd me g) ls t = Some u" "lane_idle (sy_lanes u r)"
      "ss_reactor (sy_source u) = Some r" "ln_shutdown (sy_lanes u r) = ln_shutdown (sy_lanes t r)"
      using less.hyps [OF t(1,2)] by blast
    then show ?thesis
      using l t by (intro exI [of _ "l # ls"] exI [of _ u]) auto
  qed
qed

section \<open>Properties\<close>

definition interested :: "32 word \<Rightarrow> raw_fd \<Rightarrow> lane \<Rightarrow> bool" where
  "interested bits fd l \<longleftrightarrow> (case pu_interest (ln_pump l) fd of None \<Rightarrow> False | Some events \<Rightarrow> events AND bits = bits)"

lemma mode_bits:
  "mode_to_epoll_events m AND EPOLLIN = EPOLLIN \<longleftrightarrow> entry_reads m"
  "mode_to_epoll_events m AND EPOLLOUT = EPOLLOUT \<longleftrightarrow> entry_writes m"
  by (cases m; simp add: entry_reads_def entry_writes_def epoll_bits)+

lemma idle_lane_watches:
  assumes ok: "sys_ok valid alive fd me s" and r: "ss_reactor (sy_source s) = Some r" "\<not> ln_shutdown (sy_lanes s r)"
    and idle: "lane_idle (sy_lanes s r)" and armed: "ss_armed (sy_source s) = Some mode"
  shows "watch_of fd me (ln_pump (sy_lanes s r)) = Some mode"
    and "pu_interest (ln_pump (sy_lanes s r)) fd = Some (mode_to_epoll_events mode)"
proof -
  note s = sys_okD [OF ok]
  show w: "watch_of fd me (ln_pump (sy_lanes s r)) = Some mode"
    using s(5) r idle armed by (auto simp: armed_served_def lane_serves_def lane_idle_def own_calls_def)
  have "pump_ok (ln_pump (sy_lanes s r))"
    using s(4) by (simp add: lanes_ok_def pump_mine_def)
  then show "pu_interest (ln_pump (sy_lanes s r)) fd = Some (mode_to_epoll_events mode)"
    using w by (auto simp: pump_ok_def watch_of_def split: option.splits if_splits)
qed

lemma armed_of_waker:
  assumes "source_ok src"
  shows "ss_read_waker src = Some wk \<Longrightarrow> \<exists>mode. ss_armed src = Some mode \<and> entry_reads mode"
    and "ss_write_waker src = Some wk \<Longrightarrow> \<exists>mode. ss_armed src = Some mode \<and> entry_writes mode"
  using assms by (auto simp: source_ok_def desired_mode_def entry_reads_def entry_writes_def split: option.splits)

text \<open>
  C24. No direction is ever waited for without a watch.  From every reachable state of a source whose
  reactor was not shut down, the IO thread of that reactor alone, in a bounded number of its own
  steps, comes to rest with every direction that is still waited for in the epoll interest list of
  the descriptor, whatever polls, stale arms, events and callbacks came before.
\<close>
theorem source_waiters_get_watched:
  assumes "reach (sys_init valid alive fd me) (source_step valid alive fd me g) s"
    and "ss_reactor (sy_source s) = Some r" "\<not> ln_shutdown (sy_lanes s r)"
  shows "\<exists>ls t. set ls \<subseteq> {RunArm r, RunCallback r} \<and> length ls \<le> lane_work (sy_lanes s r) \<and>
    run (source_step valid alive fd me g) ls s = Some t \<and> lane_idle (sy_lanes t r) \<and>
    (ss_read_waker (sy_source t) \<noteq> None \<longrightarrow> interested EPOLLIN fd (sy_lanes t r)) \<and>
    (ss_write_waker (sy_source t) \<noteq> None \<longrightarrow> interested EPOLLOUT fd (sy_lanes t r))"
proof -
  obtain ls t where t: "set ls \<subseteq> {RunArm r, RunCallback r}" "length ls \<le> lane_work (sy_lanes s r)"
    "run (source_step valid alive fd me g) ls s = Some t" "lane_idle (sy_lanes t r)"
    "ss_reactor (sy_source t) = Some r" "\<not> ln_shutdown (sy_lanes t r)"
    using lane_drains [OF assms(2)] assms(3) by metis
  have ok: "sys_ok valid alive fd me t"
    using source.run_inv [OF source.reach_inv [OF assms(1)] t(3)] .
  note w = idle_lane_watches [OF ok t(5,6,4)] and a = armed_of_waker [OF sys_okD(3) [OF ok]]
  have "ss_read_waker (sy_source t) \<noteq> None \<longrightarrow> interested EPOLLIN fd (sy_lanes t r)"
    using a(1) w(2) by (auto simp: interested_def mode_bits)
  moreover have "ss_write_waker (sy_source t) \<noteq> None \<longrightarrow> interested EPOLLOUT fd (sy_lanes t r)"
    using a(2) w(2) by (auto simp: interested_def mode_bits)
  ultimately show ?thesis using t by blast
qed

lemma dispatch_own_event:
  assumes "watch_of fd me p = Some mode" "alive me"
  shows "fst (dispatch_event alive fd ev p) =
     (if ((ev AND EPOLLIN) \<noteq> 0 \<or> ev AND (EPOLLERR OR EPOLLHUP) \<noteq> 0) \<and> entry_reads mode then [CanRead me fd] else []) @
     (if ((ev AND EPOLLOUT) \<noteq> 0 \<or> ev AND (EPOLLERR OR EPOLLHUP) \<noteq> 0) \<and> entry_writes mode then [CanWrite me fd] else [])"
  using assms by (auto simp: dispatch_event_def watch_of_def Let_def split: option.splits if_splits)

text \<open>
  Readiness wakes the reader.  When the IO thread is at rest and a task waits to read, an event
  that says the descriptor is readable or in error is delivered, and its first callback wakes the
  waker of the last poll and latches the readiness, so that the next poll returns at once.
\<close>
theorem source_event_wakes_reader:
  assumes "reach (sys_init valid alive fd me) (source_step valid alive fd me g) s"
    and "ss_reactor (sy_source s) = Some r" "\<not> ln_shutdown (sy_lanes s r)" "lane_idle (sy_lanes s r)"
    and "ss_read_waker (sy_source s) = Some wk" and "ev AND (EPOLLIN OR EPOLLERR OR EPOLLHUP) \<noteq> 0"
  shows "\<exists>t. run (source_step valid alive fd me g) [FdEvent r fd ev, RunCallback r] s = Some t \<and>
    sy_woken t = sy_woken s @ [wk] \<and> fst (poll_readable r' wk' (sy_source t)) = Ready ()"
proof -
  have ok: "sys_ok valid alive fd me s" using source.reach_inv [OF assms(1)] .
  obtain mode where m: "ss_armed (sy_source s) = Some mode" "entry_reads mode"
    using armed_of_waker(1) [OF sys_okD(3) [OF ok] assms(5)] by blast
  note w = idle_lane_watches [OF ok assms(2-4) m(1)]
  obtain cs p where d: "dispatch_event alive fd ev (ln_pump (sy_lanes s r)) = (cs, p)" by (rule prod.exhaust)
  have ev: "(ev AND EPOLLIN) \<noteq> 0 \<or> ev AND (EPOLLERR OR EPOLLHUP) \<noteq> 0"
    using assms(6) by (auto simp: bit.conj_disj_distrib)
  then obtain rest where cs: "cs = CanRead me fd # rest"
    using dispatch_own_event [where alive = alive and ev = ev, OF w(1) sys_okD(2) [OF ok]] d m(2) by simp
  have "reports (ln_pump (sy_lanes s r)) fd ev"
    using w(2) m(2) assms(6) by (cases mode) (auto simp: reports_def entry_reads_def bit.conj_disj_distrib or_eq_0_iff)
  then have st: "source_step valid alive fd me g (FdEvent r fd ev) s =
      Some (upd_lane r (\<lambda>l. l\<lparr>ln_pump := p, ln_calls := cs\<rparr>) s)"
    using assms(4) d by (simp add: lane_idle_def)
  obtain a src where u: "update_arm g ((sy_source s)\<lparr>ss_armed := None, ss_read_ready := True, ss_read_waker := None\<rparr>) = (a, src)"
    by (rule prod.exhaust)
  then have "ss_read_ready src"
    by (cases rule: update_arm_cases) auto
  then show ?thesis
    using st cs u assms(5) by (simp add: Let_def after_call_def source_can_read_def poll_readable_def)
qed

section \<open>Examples\<close>

text \<open>
  A reader (waker 1) and a writer (waker 2) on descriptor 5: the write event arrives while the
  combined arm is queued behind the first one.
\<close>

definition demo_step :: "source_label \<Rightarrow> source_sys \<Rightarrow> source_sys option" where
  "demo_step = source_step (\<lambda>_. True) (\<lambda>_. True) 5 7 0"

definition demo_labels :: "source_label list" where
  "demo_labels = [PollReadable 1 3, RunArm 3, PollWritable 2 3, RunArm 3, FdEvent 3 5 EPOLLOUT]"

lemma demo_facts:
  "case run demo_step demo_labels sys_new of
     None \<Rightarrow> False
   | Some s \<Rightarrow> ss_reactor (sy_source s) = Some 3 \<and> \<not> ln_shutdown (sy_lanes s 3) \<and>
       ss_read_waker (sy_source s) = Some 1 \<and> ln_calls (sy_lanes s 3) \<noteq> []"
  "case run demo_step [PollReadable 1 3, RunArm 3] sys_new of
     None \<Rightarrow> False
   | Some s \<Rightarrow> ss_reactor (sy_source s) = Some 3 \<and> \<not> ln_shutdown (sy_lanes s 3) \<and> lane_idle (sy_lanes s 3) \<and>
       ss_read_waker (sy_source s) = Some 1"
  "EPOLLIN AND (EPOLLIN OR EPOLLERR OR EPOLLHUP) \<noteq> 0"
  by code_simp+

lemma demo_reach:
  assumes "run demo_step ls sys_new = Some s"
  shows "reach (sys_init (\<lambda>_. True) (\<lambda>_. True) 5 7) (source_step (\<lambda>_. True) (\<lambda>_. True) 5 7 0) s"
  using assms reach_init_run [of "sys_init (\<lambda>_. True) (\<lambda>_. True) 5 7" sys_new demo_step]
  by (simp add: sys_init_def demo_step_def)

theorem source_waiters_get_watched_witness:
  "\<exists>s ls t. run demo_step demo_labels sys_new = Some s \<and> set ls \<subseteq> {RunArm 3, RunCallback 3} \<and>
     run demo_step ls s = Some t \<and> lane_idle (sy_lanes t 3) \<and>
     (ss_read_waker (sy_source t) \<noteq> None \<longrightarrow> interested EPOLLIN 5 (sy_lanes t 3))"
proof -
  obtain s where s: "run demo_step demo_labels sys_new = Some s" "ss_reactor (sy_source s) = Some 3"
    "\<not> ln_shutdown (sy_lanes s 3)"
    using demo_facts(1) by (auto split: option.splits)
  show ?thesis
    using source_waiters_get_watched [OF demo_reach [OF s(1)] s(2,3)] s(1) unfolding demo_step_def by blast
qed

theorem source_event_wakes_reader_witness:
  "\<exists>s t. run demo_step [PollReadable 1 3, RunArm 3] sys_new = Some s \<and>
     run demo_step [FdEvent 3 5 EPOLLIN, RunCallback 3] s = Some t \<and> sy_woken t = sy_woken s @ [1]"
proof -
  obtain s where s: "run demo_step [PollReadable 1 3, RunArm 3] sys_new = Some s"
    "ss_reactor (sy_source s) = Some 3" "\<not> ln_shutdown (sy_lanes s 3)" "lane_idle (sy_lanes s 3)"
    "ss_read_waker (sy_source s) = Some 1"
    using demo_facts(2) by (auto split: option.splits)
  show ?thesis
    using source_event_wakes_reader [OF demo_reach [OF s(1)] s(2-5) demo_facts(3)] s(1)
    unfolding demo_step_def by blast
qed

text \<open>
  A source has one waker per direction.  Two tasks that read through clones of one socket replace
  each other's waker: the event wakes the second only, and nothing wakes the first.
\<close>

lemma second_reader_replaces_first:
  "case run demo_step [PollReadable 1 3, PollReadable 2 3, RunArm 3, FdEvent 3 5 EPOLLIN, RunCallback 3] sys_new of
     None \<Rightarrow> False
   | Some s \<Rightarrow> sy_woken s = [2] \<and> ss_read_waker (sy_source s) = None \<and> lane_idle (sy_lanes s 3)"
  by code_simp

end
