(* ===== verification/Async_Net_Model.thy ===== *)
theory Async_Net_Model
  imports Reactor_Model Sockaddr_Model "HOL-Library.Sublist"
begin

text \<open>
  \<open>rust_async/net.rs\<close> and \<open>rust_async/os/unix/net.rs\<close>: every operation of a socket is the same loop around
  a non-blocking call, which waits for the source when the call would block.  The answers of the
  call, attempt by attempt, are a list; \<open>None\<close> means that the loop wants one more.  An \<open>async fn\<close> that
  was pending asks the source first when it is polled again, a \<open>poll_\<close> method asks the call first.
\<close>

section \<open>Readiness loops\<close>

datatype direction = Reading | Writing

fun poll_ready ::
    "direction \<Rightarrow> nat \<Rightarrow> waker \<Rightarrow> source_state \<Rightarrow> unit poll \<times> (nat \<times> watch_mode) option \<times> source_state" where
  "poll_ready Reading current wk s = poll_readable current wk s"
| "poll_ready Writing current wk s = poll_writable current wk s"

definition would_block :: "io_error \<Rightarrow> bool" where
  "would_block e =
     (case e of Os errno \<Rightarrow> errno = 11 | Kind k \<Rightarrow> k = WouldBlock | Custom k _ \<Rightarrow> k = WouldBlock)"

fun poll_io ::
    "direction \<Rightarrow> nat \<Rightarrow> waker \<Rightarrow> 'r io_result list \<Rightarrow> source_state \<Rightarrow>
       ('r io_result poll \<times> (nat \<times> watch_mode) option \<times> source_state) option" where
  "poll_io dir current wk [] s = None"
| "poll_io dir current wk (Inr v # answers) s = Some (Ready (Inr v), None, s)"
| "poll_io dir current wk (Inl e # answers) s =
     (if would_block e
      then (case poll_ready dir current wk s of
              (Ready _, _, s') \<Rightarrow> poll_io dir current wk answers s'
            | (Pending, post, s') \<Rightarrow> Some (Pending, post, s'))
      else Some (Ready (Inl e), None, s))"

text \<open>One poll of the \<open>async fn\<close>; \<open>awaiting\<close> says that its last poll was pending.\<close>

definition async_io_poll ::
    "direction \<Rightarrow> nat \<Rightarrow> waker \<Rightarrow> bool \<Rightarrow> 'r io_result list \<Rightarrow> source_state \<Rightarrow>
       ('r io_result poll \<times> (nat \<times> watch_mode) option \<times> source_state) option" where
  "async_io_poll dir current wk awaiting answers s =
     (if awaiting
      then (case poll_ready dir current wk s of
              (Ready _, _, s') \<Rightarrow> poll_io dir current wk answers s'
            | (Pending, post, s') \<Rightarrow> Some (Pending, post, s'))
      else poll_io dir current wk answers s)"

section \<open>The operations\<close>

text \<open>
  What the callers see: a byte count, or a count and a sender.  The two kinds of stream and the two
  kinds of datagram socket differ in the call only.
\<close>

type_synonym 'r async_answer = "('r io_result poll \<times> (nat \<times> watch_mode) option \<times> source_state) option"

definition tcp_read :: "nat \<Rightarrow> waker \<Rightarrow> bool \<Rightarrow> nat io_result list \<Rightarrow> source_state \<Rightarrow> nat async_answer" where
  "tcp_read = async_io_poll Reading"

definition tcp_write :: "nat \<Rightarrow> waker \<Rightarrow> bool \<Rightarrow> nat io_result list \<Rightarrow> source_state \<Rightarrow> nat async_answer" where
  "tcp_write = async_io_poll Writing"

definition tcp_poll_read :: "nat \<Rightarrow> waker \<Rightarrow> nat io_result list \<Rightarrow> source_state \<Rightarrow> nat async_answer" where
  "tcp_poll_read = poll_io Reading"

definition tcp_poll_write :: "nat \<Rightarrow> waker \<Rightarrow> nat io_result list \<Rightarrow> source_state \<Rightarrow> nat async_answer" where
  "tcp_poll_write = poll_io Writing"

definition unix_read :: "nat \<Rightarrow> waker \<Rightarrow> bool \<Rightarrow> nat io_result list \<Rightarrow> source_state \<Rightarrow> nat async_answer" where
  "unix_read = async_io_poll Reading"

definition unix_write :: "nat \<Rightarrow> waker \<Rightarrow> bool \<Rightarrow> nat io_result list \<Rightarrow> source_state \<Rightarrow> nat async_answer" where
  "unix_write = async_io_poll Writing"

definition unix_poll_read :: "nat \<Rightarrow> waker \<Rightarrow> nat io_result list \<Rightarrow> source_state \<Rightarrow> nat async_answer" where
  "unix_poll_read = poll_io Reading"

definition unix_poll_write :: "nat \<Rightarrow> waker \<Rightarrow> nat io_result list \<Rightarrow> source_state \<Rightarrow> nat async_answer" where
  "unix_poll_write = poll_io Writing"

definition udp_send_to :: "nat \<Rightarrow> waker \<Rightarrow> bool \<Rightarrow> nat io_result list \<Rightarrow> source_state \<Rightarrow> nat async_answer" where
  "udp_send_to = async_io_poll Writing"

definition udp_recv_from :: "nat \<Rightarrow> waker \<Rightarrow> bool \<Rightarrow> (nat \<times> socket_addr) io_result list \<Rightarrow> source_state \<Rightarrow> (nat \<times> socket_addr) async_answer" where
  "udp_recv_from = async_io_poll Reading"

definition udp_send :: "nat \<Rightarrow> waker \<Rightarrow> bool \<Rightarrow> nat io_result list \<Rightarrow> source_state \<Rightarrow> nat async_answer" where
  "udp_send = async_io_poll Writing"

definition udp_recv :: "nat \<Rightarrow> waker \<Rightarrow> bool \<Rightarrow> nat io_result list \<Rightarrow> source_state \<Rightarrow> nat async_answer" where
  "udp_recv = async_io_poll Reading"

definition unix_send_to :: "nat \<Rightarrow> waker \<Rightarrow> bool \<Rightarrow> nat io_result list \<Rightarrow> source_state \<Rightarrow> nat async_answer" where
  "unix_send_to = async_io_poll Writing"

definition unix_recv_from :: "nat \<Rightarrow> waker \<Rightarrow> bool \<Rightarrow> (nat \<times> byte list) io_result list \<Rightarrow> source_state \<Rightarrow> (nat \<times> byte list) async_answer" where
  "unix_recv_from = async_io_poll Reading"

definition unix_send :: "nat \<Rightarrow> waker \<Rightarrow> bool \<Rightarrow> nat io_result list \<Rightarrow> source_state \<Rightarrow> nat async_answer" where
  "unix_send = async_io_poll Writing"

definition unix_recv :: "nat \<Rightarrow> waker \<Rightarrow> bool \<Rightarrow> nat io_result list \<Rightarrow> source_state \<Rightarrow> nat async_answer" where
  "unix_recv = async_io_poll Reading"

text \<open>
  Accepting: the accepted socket is made non-blocking, which may fail; \<open>nonblocking\<close> is that answer.
\<close>

definition wrap_accepted :: "unit io_result \<Rightarrow> 'r io_result \<Rightarrow> 'r io_result" where
  "wrap_accepted nonblocking r =
     (case r of Inl e \<Rightarrow> Inl e | Inr conn \<Rightarrow> (case nonblocking of Inl e \<Rightarrow> Inl e | Inr _ \<Rightarrow> Inr conn))"

definition listener_accept ::
    "unit io_result \<Rightarrow> nat \<Rightarrow> waker \<Rightarrow> bool \<Rightarrow> (raw_fd \<times> 'addr) io_result list \<Rightarrow> source_state \<Rightarrow>
       (raw_fd \<times> 'addr) async_answer" where
  "listener_accept nonblocking current wk awaiting answers s =
     map_option (\<lambda>(r, post, s'). (map_poll_result (wrap_accepted nonblocking) r, post, s'))
       (async_io_poll Reading current wk awaiting answers s)"

text \<open>\<open>Incoming::poll_next\<close>: the peer's address is dropped and the stream never ends.\<close>

definition incoming_poll_next ::
    "unit io_result \<Rightarrow> nat \<Rightarrow> waker \<Rightarrow> (raw_fd \<times> 'addr) io_result list \<Rightarrow> source_state \<Rightarrow>
       (raw_fd io_result option poll \<times> (nat \<times> watch_mode) option \<times> source_state) option" where
  "incoming_poll_next nonblocking current wk answers s =
     map_option (\<lambda>(r, post, s'). (map_poll_result (\<lambda>x. Some (map_sum (\<lambda>e. e) fst (wrap_accepted nonblocking x))) r, post, s'))
       (poll_io Reading current wk answers s)"

section \<open>Writing everything\<close>

definition write_zero :: io_error where
  "write_zero = Custom WriteZero ''write returned 0''"

text \<open>\<open>write_all\<close>, on the results of its writes; the second component is what was written.\<close>

fun async_write_all :: "nat io_result list \<Rightarrow> byte list \<Rightarrow> (unit io_result \<times> byte list) option" where
  "async_write_all answers [] = Some (Inr (), [])"
| "async_write_all [] (b # buf) = None"
| "async_write_all (Inl e # answers) (b # buf) = Some (Inl e, [])"
| "async_write_all (Inr n # answers) (b # buf) =
     (if n = 0 then Some (Inl write_zero, [])
      else map_option (\<lambda>(r, w). (r, take n (b # buf) @ w)) (async_write_all answers (drop n (b # buf))))"

section \<open>Connecting\<close>

definition socket_domain :: "socket_addr \<Rightarrow> 16 word" where
  "socket_domain addr = (case addr of V4 _ _ \<Rightarrow> AF_INET | V6 _ _ _ _ \<Rightarrow> AF_INET6)"

fun connect_sockaddr :: "socket_addr \<Rightarrow> sockaddr" where
  "connect_sockaddr (V4 ip port) = SockaddrIn AF_INET (swap_bytes16 port) (swap_bytes32 ip)"
| "connect_sockaddr (V6 octets port flowinfo scope_id) = SockaddrIn6 AF_INET6 (swap_bytes16 port) flowinfo octets scope_id"

text \<open>\<open>start_connect\<close>: the answers of \<open>socket\<close> and \<open>connect\<close>; an error after \<open>socket\<close> closes the descriptor.\<close>

definition start_connect ::
    "(16 word \<Rightarrow> int + raw_fd) \<Rightarrow> (raw_fd \<Rightarrow> sockaddr \<Rightarrow> int + unit) \<Rightarrow> socket_addr \<Rightarrow> raw_fd io_result \<times> raw_fd list" where
  "start_connect sys_socket sys_connect addr =
     (case sys_socket (socket_domain addr) of
        Inl e \<Rightarrow> (Inl (Os e), [])
      | Inr fd \<Rightarrow>
          (case sys_connect fd (connect_sockaddr addr) of
             Inl e \<Rightarrow> if e = 115 then (Inr fd, []) else (Inl (Os e), [fd])
           | Inr _ \<Rightarrow> (Inr fd, [])))"

definition take_socket_error :: "(int + int) \<Rightarrow> io_error option io_result" where
  "take_socket_error ans =
     (case ans of Inl e \<Rightarrow> Inl (Os e) | Inr err \<Rightarrow> Inr (if err \<noteq> 0 then Some (Os err) else None))"

text \<open>
  \<open>connect_one\<close>, once the socket is writable: \<open>nonblocking\<close> is the answer of \<open>set_nonblocking\<close> and
  \<open>so_error\<close> that of \<open>getsockopt\<close>; every error closes the descriptor.
\<close>

definition connect_one ::
    "raw_fd io_result \<times> raw_fd list \<Rightarrow> unit io_result \<Rightarrow> (int + int) \<Rightarrow> raw_fd io_result \<times> raw_fd list" where
  "connect_one started nonblocking so_error =
     (case started of
        (Inl e, closed) \<Rightarrow> (Inl e, closed)
      | (Inr fd, closed) \<Rightarrow>
          (case nonblocking of
             Inl e \<Rightarrow> (Inl e, closed @ [fd])
           | Inr _ \<Rightarrow>
               (case take_socket_error so_error of
                  Inl e \<Rightarrow> (Inl e, closed @ [fd])
                | Inr (Some err) \<Rightarrow> (Inl err, closed @ [fd])
                | Inr None \<Rightarrow> (Inr fd, closed))))"

definition unresolved :: io_error where
  "unresolved = Custom InvalidInput ''could not resolve to any address''"

fun connect_loop :: "('a \<Rightarrow> 'c io_result) \<Rightarrow> io_error option \<Rightarrow> 'a list \<Rightarrow> 'c io_result" where
  "connect_loop one last_err [] = Inl (case last_err of Some e \<Rightarrow> e | None \<Rightarrow> unresolved)"
| "connect_loop one last_err (a # addrs) =
     (case one a of Inr conn \<Rightarrow> Inr conn | Inl e \<Rightarrow> connect_loop one (Some e) addrs)"

definition async_connect :: "('a \<Rightarrow> 'c io_result) \<Rightarrow> 'a list io_result \<Rightarrow> 'c io_result" where
  "async_connect one resolved = (case resolved of Inl e \<Rightarrow> Inl e | Inr addrs \<Rightarrow> connect_loop one None addrs)"

section \<open>Lemmas\<close>

definition waits :: "direction \<Rightarrow> waker \<Rightarrow> source_state \<Rightarrow> bool" where
  "waits dir wk s = (case dir of Reading \<Rightarrow> ss_read_waker s = Some wk | Writing \<Rightarrow> ss_write_waker s = Some wk)"

definition latched :: "direction \<Rightarrow> source_state \<Rightarrow> bool" where
  "latched dir s = (case dir of Reading \<Rightarrow> ss_read_ready s | Writing \<Rightarrow> ss_write_ready s)"

lemma update_arm_wakers:
  assumes "update_arm current s = (a, s')"
  shows "ss_read_waker s' = ss_read_waker s" "ss_write_waker s' = ss_write_waker s"
  using assms by (cases rule: update_arm_cases; simp)+

lemma poll_ready_pending:
  assumes "poll_ready dir current wk s = (Pending, a, s')"
  shows "waits dir wk s'"
  using assms update_arm_wakers
  by (cases dir) (fastforce simp: poll_readable_def poll_writable_def waits_def split: if_splits)+

lemma poll_ready_ready:
  assumes "poll_ready dir current wk s = (Ready u, a, s')"
  shows "a = None" "\<not> latched dir s'"
  using assms by (cases dir; auto simp: poll_readable_def poll_writable_def latched_def split: if_splits)+

lemma poll_ready_unlatched:
  assumes "\<not> latched dir s"
  shows "fst (poll_ready dir current wk s) = Pending"
  using assms by (cases dir) (simp_all add: latched_def poll_readable_def poll_writable_def)

lemma poll_io_pending_waits: "poll_io dir current wk answers s = Some (Pending, a, s') \<Longrightarrow> waits dir wk s'"
  by (induction dir current wk answers s rule: poll_io.induct)
    (auto split: if_splits prod.splits poll.splits intro: poll_ready_pending)

lemma poll_io_unlatched:
  assumes "\<not> latched dir s" "answers \<noteq> []"
  shows "poll_io dir current wk answers s \<noteq> None"
proof (cases answers)
  case (Cons ans rest)
  then show ?thesis
    using poll_ready_unlatched [OF assms(1), of current wk]
    by (cases ans) (auto split: prod.splits poll.splits)
qed (use assms in simp)

text \<open>A left-over latch costs one more attempt and no more: the loop does not spin.\<close>

lemma poll_io_two_attempts:
  assumes "2 \<le> length answers"
  shows "poll_io dir current wk answers s \<noteq> None"
proof -
  obtain ans rest where a: "answers = ans # rest" "Suc 0 \<le> length rest"
    using assms by (cases answers) auto
  then have "rest \<noteq> []" by auto
  obtain p post s' where p: "poll_ready dir current wk s = (p, post, s')" by (metis prod.exhaust)
  show ?thesis
    using a(1) \<open>rest \<noteq> []\<close> p poll_io_unlatched [of dir s' rest current wk] poll_ready_ready(2) [of dir current wk s]
    by (cases ans; cases p) auto
qed

section \<open>Properties\<close>

text \<open>
  The readiness loop of every asynchronous socket operation needs at most two calls per poll (it
  cannot spin on a stale latch), and when it is pending its waker is registered with the source in
  the direction of the operation.
\<close>
lemma poll_io_registers_and_never_spins:
  "(2 \<le> length answers \<longrightarrow> (\<exists>r. poll_io dir current wk answers s = Some r)) \<and>
   (\<forall>a s'. poll_io dir current wk answers s = Some (Pending, a, s') \<longrightarrow> waits dir wk s')"
  using poll_io_two_attempts poll_io_pending_waits by blast

lemma async_write_all_exact:
  assumes "async_write_all answers buf = Some (r, w)"
    and "\<And>n. Inr n \<in> set answers \<Longrightarrow> n \<le> length buf"
  shows "prefix w buf \<and> (r = Inr () \<longrightarrow> w = buf)"
  using assms(1)
proof (induction answers buf arbitrary: r w rule: async_write_all.induct)
  case (4 n answers b buf)
  show ?case
  proof (cases "n = 0")
    case False
    then obtain w' where w': "async_write_all answers (drop n (b # buf)) = Some (r, w')"
      and w: "w = take n (b # buf) @ w'"
      using 4(2) by auto
    have ih: "prefix w' (drop n (b # buf)) \<and> (r = Inr () \<longrightarrow> w' = drop n (b # buf))"
      using 4(1) [OF False w'] .
    then obtain rest where "drop n (b # buf) = w' @ rest" by (auto simp: prefix_def)
    then have "b # buf = w @ rest" using w append_take_drop_id [of n "b # buf"] by simp
    then show ?thesis using ih w by (auto simp: prefix_def)
  qed (use 4 in auto)
qed auto

text \<open>
  \<open>write_all\<close> with enough answers ends: each successful write makes progress or is refused as
  \<open>WriteZero\<close>.
\<close>

lemma async_write_all_total: "length buf \<le> length answers \<Longrightarrow> async_write_all answers buf \<noteq> None"
proof (induction answers buf rule: async_write_all.induct)
  case (4 n answers b buf)
  then show ?case by (cases n) auto
qed auto

text \<open>\<open>connect\<close> tries the addresses in order: the first success, else the last error.\<close>

lemma connect_first_success:
  assumes "\<forall>b\<in>set before. isl (one b)" "one a = Inr c"
  shows "connect_loop one last_err (before @ a # after) = Inr c"
  using assms by (induction before arbitrary: last_err) (auto simp: isl_def)

lemma connect_last_error:
  assumes "\<forall>b\<in>set addrs. isl (one b)" "addrs \<noteq> []"
  shows "connect_loop one last_err addrs = one (last addrs)"
  using assms
proof (induction addrs arbitrary: last_err)
  case (Cons a addrs)
  then show ?case by (cases addrs) (auto simp: isl_def)
qed simp

text \<open>A connection attempt that fails leaves no descriptor open.\<close>

lemma connect_one_closes:
  assumes "connect_one (start_connect sock conn addr) nb so = (Inl e, closed)" "sock (socket_domain addr) = Inr fd"
  shows "closed = [fd]"
  using assms by (auto simp: connect_one_def start_connect_def split: sum.splits option.splits if_splits)

text \<open>Unlike \<open>rust_net\<close>, this client keeps the flow label and the scope of an IPv6 address.\<close>

lemma connect_sockaddr_exact: "decode_addr (connect_sockaddr addr) = Inr addr"
  by (cases addr) (simp_all add: decode_addr_def)

end
