(* ===== verification/Task_Context_Model.thy ===== *)
theory Task_Context_Model
  imports Prelude
begin

text \<open>
  \<open>rust_async/local.rs\<close> with \<open>current_or_global\<close> of \<open>runtime.rs\<close> and \<open>spawn\<close> of \<open>executor.rs\<close>: the context of
  the running task is a thread-local that \<open>Tagged::poll\<close> replaces and a guard restores, also when the
  poll panics.  What a future does in one poll is a list of actions: it asks for its runtime, uses a
  task-local (and does something with the value), spawns, panics, or polls another tagged future in
  place.  A \<open>Runtime\<close>, a task's storage and a task-local key are numbers.

  \<open>LocalKey::with\<close> holds the mutex of the task's storage while it initialises the value and while its
  closure runs.  So a panic in either poisons the storage, and a task-local of the same task used in
  either locks the mutex a second time on the same thread, which does not return.
\<close>

section \<open>The thread and its operations\<close>

record task_context =
  cx_locals :: nat
  cx_runtime :: nat

text \<open>\<open>TaskLocals\<close>: a map behind a mutex.\<close>

record 'v task_store =
  ls_map :: "nat \<rightharpoonup> 'v"
  ls_locked :: bool
  ls_poisoned :: bool

definition task_store_new :: "'v task_store" where
  "task_store_new = \<lparr>ls_map = Map.empty, ls_locked = False, ls_poisoned = False\<rparr>"

type_synonym 'v task_locals = "nat \<Rightarrow> 'v task_store"

record 'v async_thread =
  at_current :: "task_context option"
  at_locals :: "'v task_locals"

definition current_guard_set :: "task_context \<Rightarrow> 'v async_thread \<Rightarrow> task_context option \<times> 'v async_thread" where
  "current_guard_set ctx t = (at_current t, t\<lparr>at_current := Some ctx\<rparr>)"

definition current_guard_drop :: "task_context option \<Rightarrow> 'v async_thread \<Rightarrow> 'v async_thread" where
  "current_guard_drop prev t = t\<lparr>at_current := prev\<rparr>"

definition current_runtime :: "'v async_thread \<Rightarrow> nat option" where
  "current_runtime t = map_option cx_runtime (at_current t)"

definition current_or_global :: "nat \<Rightarrow> 'v async_thread \<Rightarrow> nat" where
  "current_or_global glob t = (case current_runtime t of Some r \<Rightarrow> r | None \<Rightarrow> glob)"

text \<open>How code ends on a thread: it goes on, it panics, or it waits for a mutex for ever.\<close>

datatype outcome = GoesOn | Panics | Hangs

text \<open>What the initialiser of a key does; \<open>InitUsesLocal\<close> is one that uses a task-local itself.\<close>

datatype 'v init_run = Gives 'v | InitPanics | InitUsesLocal

definition set_store :: "nat \<Rightarrow> 'v task_store \<Rightarrow> 'v task_locals \<Rightarrow> 'v task_locals" where
  "set_store k st m = m(k := st)"

definition upd_store :: "nat \<Rightarrow> 'v task_store \<Rightarrow> 'v async_thread \<Rightarrow> 'v async_thread" where
  "upd_store k st t = t\<lparr>at_locals := set_store k st (at_locals t)\<rparr>"

text \<open>
  \<open>LocalKey::with\<close> up to the call of its closure: the current storage, \<open>lock().unwrap()\<close>, and the entry with
  its initialiser.  The result is the storage whose lock is held and the value.
\<close>

definition local_with :: "(nat \<Rightarrow> 'v init_run) \<Rightarrow> nat \<Rightarrow> 'v async_thread \<Rightarrow> (outcome + nat \<times> 'v) \<times> 'v async_thread" where
  "local_with init key t =
     (case at_current t of
        None \<Rightarrow> (Inl Panics, t)
      | Some ctx \<Rightarrow>
          (let k = cx_locals ctx; st = at_locals t k
           in if ls_locked st then (Inl Hangs, t)
              else if ls_poisoned st then (Inl Panics, t)
              else case ls_map st key of
                     Some v \<Rightarrow> (Inr (k, v), upd_store k (st\<lparr>ls_locked := True\<rparr>) t)
                   | None \<Rightarrow>
                       (case init key of
                          Gives v \<Rightarrow> (Inr (k, v), upd_store k (st\<lparr>ls_map := (ls_map st)(key \<mapsto> v), ls_locked := True\<rparr>) t)
                        | InitPanics \<Rightarrow> (Inl Panics, upd_store k (st\<lparr>ls_poisoned := True\<rparr>) t)
                        | InitUsesLocal \<Rightarrow> (Inl Hangs, upd_store k (st\<lparr>ls_locked := True\<rparr>) t))))"

text \<open>The end of \<open>with\<close>: the guard of the mutex is dropped; dropped by a panic it poisons the mutex.\<close>

definition local_release :: "nat \<Rightarrow> outcome \<Rightarrow> 'v async_thread \<Rightarrow> 'v async_thread" where
  "local_release k out t =
     (case out of
        GoesOn \<Rightarrow> upd_store k ((at_locals t k)\<lparr>ls_locked := False\<rparr>) t
      | Panics \<Rightarrow> upd_store k ((at_locals t k)\<lparr>ls_locked := False, ls_poisoned := True\<rparr>) t
      | Hangs \<Rightarrow> t)"

section \<open>Polls\<close>

datatype action =
    AskRuntime
  | UseLocal nat "action list"
  | Spawn
  | Crash
  | PollTagged nat nat "action list"

datatype 'v context_event = OnRuntime nat | SawLocal 'v | SpawnedOn nat

text \<open>
  The events of a poll, how it ended, and the thread after it.  \<open>Tagged::poll\<close> is the case
  \<open>PollTagged\<close>: storage, runtime, and what its future does; \<open>UseLocal\<close> has what the closure of \<open>with\<close> does.
\<close>

fun exec_action ::
    "(nat \<Rightarrow> 'v init_run) \<Rightarrow> nat \<Rightarrow> action \<Rightarrow> 'v async_thread \<Rightarrow> 'v context_event list \<times> outcome \<times> 'v async_thread"
  and exec_actions ::
    "(nat \<Rightarrow> 'v init_run) \<Rightarrow> nat \<Rightarrow> action list \<Rightarrow> 'v async_thread \<Rightarrow> 'v context_event list \<times> outcome \<times> 'v async_thread" where
  "exec_action init glob AskRuntime t = ([OnRuntime (current_or_global glob t)], GoesOn, t)"
| "exec_action init glob (UseLocal key body) t =
     (case local_with init key t of
        (Inl out, t1) \<Rightarrow> ([], out, t1)
      | (Inr (k, v), t1) \<Rightarrow>
          (case exec_actions init glob body t1 of (evs, out, t2) \<Rightarrow> (SawLocal v # evs, out, local_release k out t2)))"
| "exec_action init glob Spawn t = ([SpawnedOn (current_or_global glob t)], GoesOn, t)"
| "exec_action init glob Crash t = ([], Panics, t)"
| "exec_action init glob (PollTagged locals runtime body) t =
     (case current_guard_set \<lparr>cx_locals = locals, cx_runtime = runtime\<rparr> t of
        (prev, t1) \<Rightarrow>
          (case exec_actions init glob body t1 of
             (evs, out, t2) \<Rightarrow> (evs, out, if out = Hangs then t2 else current_guard_drop prev t2)))"
| "exec_actions init glob [] t = ([], GoesOn, t)"
| "exec_actions init glob (a # as) t =
     (case exec_action init glob a t of
        (evs, out, t1) \<Rightarrow>
          if out = GoesOn
          then (case exec_actions init glob as t1 of (evs', out', t2) \<Rightarrow> (evs @ evs', out', t2))
          else (evs, out, t1))"

section \<open>The reference: the context as a parameter\<close>

text \<open>A value of a key is there, or is made once.\<close>

definition scoped_value :: "(nat \<Rightarrow> 'v init_run) \<Rightarrow> nat \<Rightarrow> 'v task_store \<Rightarrow> 'v init_run" where
  "scoped_value init key st = (case ls_map st key of Some v \<Rightarrow> Gives v | None \<Rightarrow> init key)"

fun scoped_action ::
    "(nat \<Rightarrow> 'v init_run) \<Rightarrow> nat \<Rightarrow> task_context option \<Rightarrow> action \<Rightarrow> 'v task_locals \<Rightarrow>
       'v context_event list \<times> outcome \<times> 'v task_locals"
  and scoped_actions ::
    "(nat \<Rightarrow> 'v init_run) \<Rightarrow> nat \<Rightarrow> task_context option \<Rightarrow> action list \<Rightarrow> 'v task_locals \<Rightarrow>
       'v context_event list \<times> outcome \<times> 'v task_locals" where
  "scoped_action init glob cur AskRuntime m =
     ([OnRuntime (case cur of None \<Rightarrow> glob | Some c \<Rightarrow> cx_runtime c)], GoesOn, m)"
| "scoped_action init glob cur (UseLocal key body) m =
     (case cur of
        None \<Rightarrow> ([], Panics, m)
      | Some c \<Rightarrow>
          (let k = cx_locals c
           in if ls_locked (m k) then ([], Hangs, m)
              else if ls_poisoned (m k) then ([], Panics, m)
              else case scoped_value init key (m k) of
                     InitPanics \<Rightarrow> ([], Panics, set_store k ((m k)\<lparr>ls_poisoned := True\<rparr>) m)
                   | InitUsesLocal \<Rightarrow> ([], Hangs, set_store k ((m k)\<lparr>ls_locked := True\<rparr>) m)
                   | Gives v \<Rightarrow>
                       (case scoped_actions init glob cur body
                               (set_store k ((m k)\<lparr>ls_map := (ls_map (m k))(key \<mapsto> v), ls_locked := True\<rparr>) m) of
                          (evs, out, m1) \<Rightarrow>
                            (SawLocal v # evs, out,
                             if out = Hangs then m1
                             else set_store k ((m1 k)\<lparr>ls_locked := False, ls_poisoned := ls_poisoned (m1 k) \<or> out = Panics\<rparr>) m1))))"
| "scoped_action init glob cur Spawn m =
     ([SpawnedOn (case cur of None \<Rightarrow> glob | Some c \<Rightarrow> cx_runtime c)], GoesOn, m)"
| "scoped_action init glob cur Crash m = ([], Panics, m)"
| "scoped_action init glob cur (PollTagged locals runtime body) m =
     scoped_actions init glob (Some \<lparr>cx_locals = locals, cx_runtime = runtime\<rparr>) body m"
| "scoped_actions init glob cur [] m = ([], GoesOn, m)"
| "scoped_actions init glob cur (a # as) m =
     (case scoped_action init glob cur a m of
        (evs, out, m1) \<Rightarrow>
          if out = GoesOn
          then (case scoped_actions init glob cur as m1 of (evs', out', m2) \<Rightarrow> (evs @ evs', out', m2))
          else (evs, out, m1))"

section \<open>Properties\<close>

text \<open>What a run on a thread has to do with the reference run \<open>ref\<close>, from a thread whose context is \<open>cur\<close>.\<close>

definition same_run ::
    "task_context option \<Rightarrow> 'v context_event list \<times> outcome \<times> 'v async_thread \<Rightarrow>
       'v context_event list \<times> outcome \<times> 'v task_locals \<Rightarrow> bool" where
  "same_run cur r ref \<longleftrightarrow>
     ref = (fst r, fst (snd r), at_locals (snd (snd r))) \<and> (fst (snd r) = Hangs \<or> at_current (snd (snd r)) = cur)"

lemma set_store_other: "k \<noteq> x \<Longrightarrow> set_store k st m x = m x"
  by (simp add: set_store_def)

lemma upd_store_simps [simp]:
  "at_current (upd_store k st t) = at_current t" "at_locals (upd_store k st t) = set_store k st (at_locals t)"
  by (simp_all add: upd_store_def)

lemma local_release_simps [simp]:
  "at_current (local_release k out t) = at_current t"
  "at_locals (local_release k out t) =
     (if out = Hangs then at_locals t
      else set_store k ((at_locals t k)\<lparr>ls_locked := False, ls_poisoned := ls_poisoned (at_locals t k) \<or> out = Panics\<rparr>) (at_locals t))"
  by (cases out; simp add: local_release_def)+

lemma exec_scoped:
  "same_run (at_current t) (exec_action init glob a t) (scoped_action init glob (at_current t) a (at_locals t))"
  "same_run (at_current t) (exec_actions init glob as t) (scoped_actions init glob (at_current t) as (at_locals t))"
proof (induction init glob a t and init glob as t rule: exec_action_exec_actions.induct)
  case (2 init glob key body t)
  show ?case
  proof (cases "at_current t")
    case None
    then show ?thesis by (simp add: local_with_def same_run_def)
  next
    case (Some c)
    define st where "st = at_locals t (cx_locals c)"
    define t1 where "t1 v = upd_store (cx_locals c) (st\<lparr>ls_map := (ls_map st)(key \<mapsto> v), ls_locked := True\<rparr>) t" for v
    have "same_run (Some c) (exec_actions init glob body (t1 v))
        (scoped_actions init glob (Some c) body (set_store (cx_locals c) (st\<lparr>ls_map := (ls_map st)(key \<mapsto> v), ls_locked := True\<rparr>) (at_locals t)))"
      if "local_with init key t = (Inr (cx_locals c, v), t1 v)" for v
      using 2 [OF that [symmetric] refl refl] Some by (simp add: t1_def)
    moreover have "st\<lparr>ls_locked := True\<rparr> = st\<lparr>ls_map := (ls_map st)(key \<mapsto> v), ls_locked := True\<rparr>" if "ls_map st key = Some v" for v
      using that by (cases st) (simp add: map_upd_triv)
    ultimately show ?thesis
      using Some
      by (cases "ls_map st key"; cases "init key")
        (auto simp: local_with_def scoped_value_def same_run_def Let_def st_def [symmetric] t1_def split: prod.splits)
  qed
next
  case (7 init glob a as t)
  obtain evs out t1 where a: "exec_action init glob a t = (evs, out, t1)" by (metis prod.exhaust)
  then show ?case
    using 7(1) 7(2) [OF a [symmetric] refl]
    by (cases out) (auto simp: same_run_def split: prod.splits)
qed (auto simp: same_run_def current_or_global_def current_runtime_def current_guard_set_def current_guard_drop_def
    split: option.splits prod.splits)

text \<open>
  C32. The thread-local context with its guards is lexical scoping: every poll sees and does exactly
  what it would with the context of its innermost tagged future passed as a parameter: the
  runtime it asks for and spawns on, the task-locals it initialises once and keeps, the locks of
  their storage and what they make of nested uses, its panics; and the caller's context is restored
  after it, panic or not.
\<close>
theorem task_context_is_lexical:
  "case exec_actions init glob as t of
     (evs, out, t') \<Rightarrow>
       scoped_actions init glob (at_current t) as (at_locals t) = (evs, out, at_locals t') \<and>
       (out = Hangs \<or> at_current t' = at_current t)"
  using exec_scoped(2) [where init = init and glob = glob and as = as and t = t]
  by (auto simp: same_run_def split: prod.splits)

text \<open>
  \<open>with\<close> does not nest: a task-local used inside the closure of \<open>with\<close>, its own or another of the same task,
  never returns; and one panic inside \<open>with\<close> makes every later \<open>with\<close> of the task panic.
\<close>

lemma local_with_gives:
  assumes "at_current t = Some c" "\<not> ls_locked (at_locals t (cx_locals c))" "\<not> ls_poisoned (at_locals t (cx_locals c))"
    and "scoped_value init key (at_locals t (cx_locals c)) = Gives v"
  shows "\<exists>st. ls_locked st \<and> local_with init key t = (Inr (cx_locals c, v), upd_store (cx_locals c) st t)"
  using assms
  by (cases "ls_map (at_locals t (cx_locals c)) key")
    (auto simp: local_with_def scoped_value_def Let_def intro: exI [of _ "_\<lparr>ls_locked := True\<rparr>"])

lemma local_with_refused:
  assumes "at_current t = Some c"
  shows "ls_locked (at_locals t (cx_locals c)) \<Longrightarrow> local_with init key t = (Inl Hangs, t)"
    and "\<not> ls_locked (at_locals t (cx_locals c)) \<Longrightarrow> ls_poisoned (at_locals t (cx_locals c)) \<Longrightarrow>
      local_with init key t = (Inl Panics, t)"
  using assms by (simp_all add: local_with_def Let_def)

theorem nested_with_hangs:
  assumes "at_current t = Some c" "\<not> ls_locked (at_locals t (cx_locals c))" "\<not> ls_poisoned (at_locals t (cx_locals c))"
    and "scoped_value init key (at_locals t (cx_locals c)) = Gives v"
  shows "fst (snd (exec_action init glob (UseLocal key (UseLocal key' body # rest)) t)) = Hangs"
    and "fst (snd (exec_action init glob (UseLocal key' body)
           (snd (snd (exec_action init glob (UseLocal key (Crash # rest)) t))))) = Panics"
proof -
  obtain st where st: "ls_locked st" "local_with init key t = (Inr (cx_locals c, v), upd_store (cx_locals c) st t)"
    using local_with_gives [OF assms] by blast
  let ?t = "upd_store (cx_locals c) st t" and ?u = "local_release (cx_locals c) Panics (upd_store (cx_locals c) st t)"
  have "local_with init key' ?t = (Inl Hangs, ?t)"
    by (rule local_with_refused(1) [of _ c]) (use assms(1) st(1) in \<open>simp_all add: set_store_def\<close>)
  then show "fst (snd (exec_action init glob (UseLocal key (UseLocal key' body # rest)) t)) = Hangs"
    by (simp add: st(2))
  have "local_with init key' ?u = (Inl Panics, ?u)"
    by (rule local_with_refused(2) [of _ c]) (use assms(1) in \<open>simp_all add: set_store_def\<close>)
  then show "fst (snd (exec_action init glob (UseLocal key' body)
           (snd (snd (exec_action init glob (UseLocal key (Crash # rest)) t))))) = Panics"
    by (simp add: st(2))
qed

text \<open>A task's storage is touched only by polls tagged with it.\<close>

fun tags_in :: "action \<Rightarrow> nat set" where
  "tags_in (PollTagged locals runtime body) = insert locals (\<Union>a\<in>set body. tags_in a)"
| "tags_in (UseLocal key body) = (\<Union>a\<in>set body. tags_in a)"
| "tags_in _ = {}"

lemma locals_isolated:
  "scoped_action init glob cur a m = (evs, p, m') \<Longrightarrow> k \<notin> tags_in a \<Longrightarrow> (\<And>c. cur = Some c \<Longrightarrow> cx_locals c \<noteq> k) \<Longrightarrow> m' k = m k"
  "scoped_actions init glob cur as m = (evs, p, m') \<Longrightarrow> k \<notin> (\<Union>a\<in>set as. tags_in a) \<Longrightarrow>
     (\<And>c. cur = Some c \<Longrightarrow> cx_locals c \<noteq> k) \<Longrightarrow> m' k = m k"
proof (induction init glob cur a m and init glob cur as m arbitrary: evs p m' and evs p m'
    rule: scoped_action_scoped_actions.induct)
  case (2 init glob cur key body m)
  then show ?case
    by (auto simp: Let_def set_store_other split: option.splits if_splits init_run.splits prod.splits)
next
  case (7 init glob cur a as m)
  obtain evs1 p1 m1 where a: "scoped_action init glob cur a m = (evs1, p1, m1)" by (metis prod.exhaust)
  then show ?case using 7 by (cases p1) (auto split: prod.splits)
qed (auto split: option.splits)

end
