(* ===== verification/Async_Stream_Socket.thy ===== *)
theory Async_Stream_Socket
  imports Async_Net_Model
begin

text \<open>
  An asynchronous stream socket (\<open>net.rs\<close>, \<open>os/unix/net.rs\<close>) together with its source, the IO thread of
  its reactor and the socket buffers of the kernel, as one machine.  The loop of \<open>Async::read\<close> and
  \<open>Async::write\<close> is taken apart at the points where other threads may come in between: the system call,
  and the question to the source that follows a would-block answer.  So bytes may arrive, and the
  IO thread may dispatch, between the two.

  One task reads and one writes at a time; either may be dropped at any point, which leaves its
  waker with the source.  (A second task in the same direction, through a clone of the socket,
  takes the place of the first in the source: lemma \<open>second_reader_replaces_first\<close> of \<open>Reactor_Model\<close>.)
\<close>

section \<open>The machine\<close>

text \<open>
  Where a read or a write is in its loop, with its waker, the reactor of its task and its buffer:
  about to make the system call; about to ask the source; pending.  The number in \<open>Waiting\<close> is the
  length of the wake-up log when it became pending.
\<close>

datatype io_task =
    Idle
  | Trying waker nat "byte list"
  | Blocked waker nat "byte list"
  | Waiting waker "byte list" nat

record stream_sys =
  st_sys :: source_sys
  st_arrived :: "byte list"
  st_in :: "byte list"
  st_eof :: bool
  st_got :: "byte list"
  st_space :: nat
  st_out :: "byte list"
  st_task :: "direction \<Rightarrow> io_task"
  st_returned :: "(direction \<times> nat) list"
  st_failed :: "(direction \<times> io_error) list"

text \<open>
  The non-blocking call on a connected stream: it transfers at least one byte (\<open>k\<close> of them) when it
  can, answers 0 at the end of the stream and for an empty buffer, and would block otherwise.
\<close>

definition transfer_ok :: "nat \<Rightarrow> nat \<Rightarrow> nat \<Rightarrow> bool" where
  "transfer_ok k wanted available \<longleftrightarrow> 0 < k \<and> k \<le> wanted \<and> k \<le> available"

fun stream_call :: "direction \<Rightarrow> byte list \<Rightarrow> nat \<Rightarrow> stream_sys \<Rightarrow> (nat io_result \<times> stream_sys) option" where
  "stream_call Reading buf k s =
     (if buf = [] then Some (Inr 0, s)
      else if st_in s \<noteq> []
      then (if transfer_ok k (length buf) (length (st_in s))
            then Some (Inr k, s\<lparr>st_in := drop k (st_in s), st_got := st_got s @ take k (st_in s)\<rparr>)
            else None)
      else Some (if st_eof s then Inr 0 else Inl (Os 11), s))"
| "stream_call Writing buf k s =
     (if buf = [] then Some (Inr 0, s)
      else if 0 < st_space s
      then (if transfer_ok k (length buf) (st_space s)
            then Some (Inr k, s\<lparr>st_space := st_space s - k, st_out := st_out s @ take k buf\<rparr>)
            else None)
      else Some (Inl (Os 11), s))"

definition set_task :: "direction \<Rightarrow> io_task \<Rightarrow> stream_sys \<Rightarrow> stream_sys" where
  "set_task dir tk s = s\<lparr>st_task := (st_task s)(dir := tk)\<rparr>"

text \<open>The three arms of the \<open>match\<close> on the answer.\<close>

definition try_answer ::
    "direction \<Rightarrow> waker \<Rightarrow> nat \<Rightarrow> byte list \<Rightarrow> nat io_result \<Rightarrow> stream_sys \<Rightarrow> stream_sys" where
  "try_answer dir wk r buf res s =
     (case res of
        Inr n \<Rightarrow> set_task dir Idle (s\<lparr>st_returned := st_returned s @ [(dir, n)]\<rparr>)
      | Inl e \<Rightarrow> if would_block e then set_task dir (Blocked wk r buf) s
                 else set_task dir Idle (s\<lparr>st_failed := st_failed s @ [(dir, e)]\<rparr>))"

definition try_io :: "direction \<Rightarrow> waker \<Rightarrow> nat \<Rightarrow> byte list \<Rightarrow> nat \<Rightarrow> stream_sys \<Rightarrow> stream_sys option" where
  "try_io dir wk r buf k s =
     (case stream_call dir buf k s of
        None \<Rightarrow> None
      | Some (res, s') \<Rightarrow> Some (try_answer dir wk r buf res s'))"

definition ask_source :: "direction \<Rightarrow> waker \<Rightarrow> nat \<Rightarrow> byte list \<Rightarrow> stream_sys \<Rightarrow> stream_sys" where
  "ask_source dir wk r buf s =
     (let res = poll_ready dir r wk (sy_source (st_sys s));
          tk = (case fst res of Ready _ \<Rightarrow> Trying wk r buf | Pending \<Rightarrow> Waiting wk buf (length (sy_woken (st_sys s))))
      in set_task dir tk (s\<lparr>st_sys := after_poll res (st_sys s)\<rparr>))"

text \<open>
  \<open>TryFail\<close> is a system call the kernel answers with an error other than would-block, such as a reset.
  \<open>Repoll\<close> with \<open>True\<close> is the second poll of the \<open>async fn\<close>, which goes on where it awaited; with \<open>False\<close> the
  next call of a \<open>poll_\<close> method, which starts with the system call.
\<close>

datatype stream_label =
    StartIo direction waker nat "byte list"
  | TryIo direction nat
  | TryFail direction io_error
  | AskSource direction
  | Repoll direction waker nat bool
  | DropIo direction
  | IoThread source_label
  | Arrive "byte list"
  | PeerClose
  | FreeSpace nat

fun polls_source :: "source_label \<Rightarrow> bool" where
  "polls_source (PollReadable _ _) = True"
| "polls_source (PollWritable _ _) = True"
| "polls_source _ = False"

fun stream_step ::
    "(raw_fd \<Rightarrow> bool) \<Rightarrow> (nat \<Rightarrow> bool) \<Rightarrow> raw_fd \<Rightarrow> nat \<Rightarrow> nat \<Rightarrow> stream_label \<Rightarrow> stream_sys \<Rightarrow> stream_sys option" where
  "stream_step valid alive fd me g (StartIo dir wk r buf) s =
     (if st_task s dir = Idle then Some (set_task dir (Trying wk r buf) s) else None)"
| "stream_step valid alive fd me g (TryIo dir k) s =
     (case st_task s dir of Trying wk r buf \<Rightarrow> try_io dir wk r buf k s | _ \<Rightarrow> None)"
| "stream_step valid alive fd me g (TryFail dir e) s =
     (case st_task s dir of
        Trying wk r buf \<Rightarrow> if would_block e then None else Some (try_answer dir wk r buf (Inl e) s)
      | _ \<Rightarrow> None)"
| "stream_step valid alive fd me g (AskSource dir) s =
     (case st_task s dir of Blocked wk r buf \<Rightarrow> Some (ask_source dir wk r buf s) | _ \<Rightarrow> None)"
| "stream_step valid alive fd me g (Repoll dir wk r resumes) s =
     (case st_task s dir of
        Waiting _ buf _ \<Rightarrow> Some (set_task dir (if resumes then Blocked wk r buf else Trying wk r buf) s)
      | _ \<Rightarrow> None)"
| "stream_step valid alive fd me g (DropIo dir) s = Some (set_task dir Idle s)"
| "stream_step valid alive fd me g (IoThread l) s =
     (if polls_source l then None
      else map_option (\<lambda>sys. s\<lparr>st_sys := sys\<rparr>) (source_step valid alive fd me g l (st_sys s)))"
| "stream_step valid alive fd me g (Arrive bs) s =
     (if st_eof s then None else Some (s\<lparr>st_arrived := st_arrived s @ bs, st_in := st_in s @ bs\<rparr>))"
| "stream_step valid alive fd me g PeerClose s = Some (s\<lparr>st_eof := True\<rparr>)"
| "stream_step valid alive fd me g (FreeSpace n) s = Some (s\<lparr>st_space := st_space s + n\<rparr>)"

definition stream_new :: "nat \<Rightarrow> stream_sys" where
  "stream_new space = \<lparr>st_sys = sys_new, st_arrived = [], st_in = [], st_eof = False, st_got = [], st_space = space,
     st_out = [], st_task = (\<lambda>_. Idle), st_returned = [], st_failed = []\<rparr>"

definition stream_init :: "(raw_fd \<Rightarrow> bool) \<Rightarrow> (nat \<Rightarrow> bool) \<Rightarrow> raw_fd \<Rightarrow> nat \<Rightarrow> stream_sys \<Rightarrow> bool" where
  "stream_init valid alive fd me s \<longleftrightarrow> (\<exists>space. s = stream_new space) \<and> valid fd \<and> alive me"

section \<open>The invariant\<close>

definition source_waker :: "direction \<Rightarrow> source_state \<Rightarrow> waker option" where
  "source_waker dir src = (case dir of Reading \<Rightarrow> ss_read_waker src | Writing \<Rightarrow> ss_write_waker src)"

text \<open>A pending task is registered, or was woken since and will find its direction ready.\<close>

definition task_served :: "direction \<Rightarrow> io_task \<Rightarrow> source_sys \<Rightarrow> bool" where
  "task_served dir tk sys =
     (case tk of
        Waiting wk _ since \<Rightarrow>
          since \<le> length (sy_woken sys) \<and>
          (source_waker dir (sy_source sys) = Some wk \<or>
           latched dir (sy_source sys) \<and> wk \<in> set (drop since (sy_woken sys)))
      | _ \<Rightarrow> True)"

definition stream_inv :: "(raw_fd \<Rightarrow> bool) \<Rightarrow> (nat \<Rightarrow> bool) \<Rightarrow> raw_fd \<Rightarrow> nat \<Rightarrow> stream_sys \<Rightarrow> bool" where
  "stream_inv valid alive fd me s \<longleftrightarrow>
     sys_ok valid alive fd me (st_sys s) \<and> (\<forall>dir. task_served dir (st_task s dir) (st_sys s)) \<and>
     st_arrived s = st_got s @ st_in s"

lemma set_task_simps [simp]:
  "st_sys (set_task dir tk s) = st_sys s" "st_task (set_task dir tk s) = (st_task s)(dir := tk)"
  "st_arrived (set_task dir tk s) = st_arrived s" "st_in (set_task dir tk s) = st_in s"
  "st_got (set_task dir tk s) = st_got s" "st_eof (set_task dir tk s) = st_eof s"
  "st_space (set_task dir tk s) = st_space s" "st_out (set_task dir tk s) = st_out s"
  "st_returned (set_task dir tk s) = st_returned s"
  by (simp_all add: set_task_def)

lemma stream_call_frame:
  assumes "stream_call dir buf k s = Some (res, s')"
  shows "st_sys s' = st_sys s" "st_task s' = st_task s" "st_arrived s' = st_arrived s"
    and "st_got s' @ st_in s' = st_got s @ st_in s"
  using assms by (cases dir; auto split: if_splits)+

text \<open>What a poll of the source does to the wakers and latches of both directions.\<close>

lemma update_arm_latches:
  assumes "update_arm current s = (a, s')"
  shows "ss_read_ready s' = ss_read_ready s" "ss_write_ready s' = ss_write_ready s"
  using assms by (cases rule: update_arm_cases; simp)+

lemma update_arm_dir:
  assumes "update_arm current s = (a, s')"
  shows "source_waker dir s' = source_waker dir s" "latched dir s' = latched dir s"
  using update_arm_wakers [OF assms] update_arm_latches [OF assms]
  by (cases dir; simp add: source_waker_def latched_def)+

lemma poll_ready_dirs:
  assumes p: "poll_ready dir current wk s = (p, a, s')"
  shows "p = Pending \<Longrightarrow> source_waker dir s' = Some wk"
    and "dir' \<noteq> dir \<Longrightarrow> source_waker dir' s' = source_waker dir' s"
    and "dir' \<noteq> dir \<Longrightarrow> latched dir' s' = latched dir' s"
proof -
  show "p = Pending \<Longrightarrow> source_waker dir s' = Some wk"
    using poll_ready_pending [of dir current wk s a s'] p by (cases dir) (auto simp: waits_def source_waker_def)
  assume d: "dir' \<noteq> dir"
  show "source_waker dir' s' = source_waker dir' s" "latched dir' s' = latched dir' s"
    using p d update_arm_dir [of current _ a s' dir']
    by (cases dir; cases dir'; fastforce simp: poll_readable_def poll_writable_def source_waker_def latched_def
        split: if_splits)+
qed

lemma poll_ready_step:
  "source_step valid alive fd me g (case dir of Reading \<Rightarrow> PollReadable wk r | Writing \<Rightarrow> PollWritable wk r) sys =
     Some (after_poll (poll_ready dir r wk (sy_source sys)) sys)"
  by (cases dir) simp_all

lemma after_poll_simps [simp]:
  "sy_source (after_poll res sys) = snd (snd res)" "sy_woken (after_poll res sys) = sy_woken sys"
  by (auto simp: after_poll_def split: prod.split)

lemma after_call_simps [simp]:
  "sy_source (after_call res sys) = snd (snd res)"
  "sy_woken (after_call res sys) = sy_woken sys @ (case fst res of None \<Rightarrow> [] | Some wk \<Rightarrow> [wk])"
  by (auto simp: after_call_def split: prod.split)

text \<open>
  A step of the IO thread changes the source only by a callback, and a callback that takes a waker
  wakes it and latches its direction.
\<close>

lemma callback_serves:
  assumes "task_served dir tk sys"
  shows "task_served dir tk (after_call (source_can_read g (sy_source sys)) sys)"
    and "task_served dir tk (after_call (source_can_write g (sy_source sys)) sys)"
proof -
  let ?R = "(sy_source sys)\<lparr>ss_armed := None, ss_read_ready := True, ss_read_waker := None\<rparr>"
  let ?W = "(sy_source sys)\<lparr>ss_armed := None, ss_write_ready := True, ss_write_waker := None\<rparr>"
  obtain a src where u: "update_arm g ?R = (a, src)" by (rule prod.exhaust)
  show "task_served dir tk (after_call (source_can_read g (sy_source sys)) sys)"
    using assms update_arm_dir [OF u, of dir] u
    by (cases dir) (auto simp: task_served_def source_can_read_def source_waker_def latched_def split: io_task.split)
  obtain a src where u: "update_arm g ?W = (a, src)" by (rule prod.exhaust)
  show "task_served dir tk (after_call (source_can_write g (sy_source sys)) sys)"
    using assms update_arm_dir [OF u, of dir] u
    by (cases dir) (auto simp: task_served_def source_can_write_def source_waker_def latched_def split: io_task.split)
qed

lemma task_served_cong:
  "sy_source sys' = sy_source sys \<Longrightarrow> sy_woken sys' = sy_woken sys \<Longrightarrow> task_served dir tk sys' = task_served dir tk sys"
  by (auto simp: task_served_def split: io_task.split)

lemma io_thread_serves:
  assumes step: "source_step valid alive fd me g l sys = Some sys'" and l: "\<not> polls_source l"
    and tk: "task_served dir tk sys"
  shows "task_served dir tk sys'"
proof (cases l)
  case (RunCallback r)
  then obtain call rest where cs: "ln_calls (sy_lanes sys r) = call # rest"
    using step by (cases "ln_calls (sy_lanes sys r)") auto
  let ?s1 = "upd_lane r (\<lambda>l. l\<lparr>ln_calls := rest\<rparr>) sys"
  have "task_served dir tk ?s1" using tk task_served_cong [of ?s1 sys] by simp
  note callback_serves [OF this, of g]
  then show ?thesis
    using step RunCallback cs tk task_served_cong [of ?s1 sys] by (cases call) (auto simp: Let_def split: if_splits)
next
  case (RunArm r)
  then have "sy_source sys' = sy_source sys" "sy_woken sys' = sy_woken sys"
    using step by (auto simp: run_arm_def split: list.splits prod.splits)
  then show ?thesis using tk task_served_cong by blast
next
  case (FdEvent r f ev)
  then have "sy_source sys' = sy_source sys" "sy_woken sys' = sy_woken sys"
    using step by (auto split: if_splits prod.splits)
  then show ?thesis using tk task_served_cong by blast
qed (use step l tk in \<open>auto simp: task_served_def split: if_splits io_task.splits\<close>)

lemma ask_source_inv:
  assumes inv: "stream_inv valid alive fd me s"
  shows "stream_inv valid alive fd me (ask_source dir wk r buf s)"
proof -
  let ?sys = "st_sys s"
  obtain p a src where p: "poll_ready dir r wk (sy_source ?sys) = (p, a, src)" by (metis prod.exhaust)
  have "sys_ok valid alive fd me (after_poll (poll_ready dir r wk (sy_source ?sys)) ?sys)"
    by (rule source_step_ok [OF _ poll_ready_step]) (use inv in \<open>simp add: stream_inv_def\<close>)
  moreover have "task_served dir' (st_task (ask_source dir wk r buf s) dir') (st_sys (ask_source dir wk r buf s))" for dir'
  proof (cases "dir' = dir")
    case True
    then show ?thesis
      using p poll_ready_dirs(1) [OF p] by (cases p) (auto simp: ask_source_def task_served_def)
  next
    case False
    then show ?thesis
      using inv p poll_ready_dirs(2,3) [OF p False]
      by (auto simp: stream_inv_def ask_source_def Let_def task_served_def split: io_task.splits)
  qed
  ultimately show ?thesis
    using inv by (simp add: stream_inv_def ask_source_def Let_def)
qed

lemma stream_inv_task:
  assumes "stream_inv valid alive fd me s" "task_served dir tk (st_sys s)"
  shows "stream_inv valid alive fd me (set_task dir tk s)"
  using assms by (auto simp: stream_inv_def)

lemma not_waiting_served [simp]:
  "task_served dir Idle sys" "task_served dir (Trying wk r buf) sys" "task_served dir (Blocked wk r buf) sys"
  by (simp_all add: task_served_def)

lemma try_answer_inv:
  assumes "stream_inv valid alive fd me s"
  shows "stream_inv valid alive fd me (try_answer dir wk r buf res s)"
  using assms by (auto simp: try_answer_def stream_inv_def split: sum.split)

lemma try_io_inv:
  assumes inv: "stream_inv valid alive fd me s" and t: "try_io dir wk r buf k s = Some t"
  shows "stream_inv valid alive fd me t"
proof -
  obtain res s' where c: "stream_call dir buf k s = Some (res, s')" "t = try_answer dir wk r buf res s'"
    using t by (auto simp: try_io_def split: option.splits)
  have "stream_inv valid alive fd me s'"
    using inv stream_call_frame [OF c(1)] by (simp add: stream_inv_def)
  then show ?thesis unfolding c(2) by (rule try_answer_inv)
qed

lemma stream_inv_step:
  assumes inv: "stream_inv valid alive fd me s" and step: "stream_step valid alive fd me g l s = Some t"
  shows "stream_inv valid alive fd me t"
proof (cases l)
  case (IoThread l')
  then obtain sys where sys: "\<not> polls_source l'" "source_step valid alive fd me g l' (st_sys s) = Some sys"
    "t = s\<lparr>st_sys := sys\<rparr>"
    using step by (auto split: if_splits)
  then show ?thesis
    using inv source_step_ok [OF _ sys(2)] io_thread_serves [OF sys(2,1)] by (simp add: stream_inv_def)
qed (use inv step ask_source_inv [OF inv] try_io_inv [OF inv] try_answer_inv [OF inv] stream_inv_task [OF inv]
     in \<open>auto simp: stream_inv_def split: io_task.splits if_splits\<close>)

lemma stream_inv_init: "stream_init valid alive fd me s \<Longrightarrow> stream_inv valid alive fd me s"
  using sys_ok_init [of valid alive fd me sys_new]
  by (auto simp: stream_init_def stream_inv_def stream_new_def sys_init_def)

interpretation stream: inductive_invariant "stream_init valid alive fd me" "stream_step valid alive fd me g"
  "stream_inv valid alive fd me"
  by unfold_locales (auto intro: stream_inv_init stream_inv_step)

section \<open>From readiness to the wake-up\<close>

fun event_bit :: "direction \<Rightarrow> 32 word" where
  "event_bit Reading = EPOLLIN"
| "event_bit Writing = EPOLLOUT"

definition watches_dir :: "direction \<Rightarrow> watch_mode \<Rightarrow> bool" where
  "watches_dir dir mode = (case dir of Reading \<Rightarrow> entry_reads mode | Writing \<Rightarrow> entry_writes mode)"

lemma event_bit_dispatch:
  assumes "watch_of fd me p = Some mode" "alive me" "watches_dir dir mode"
  shows "fst (dispatch_event alive fd (event_bit dir) p) = [case dir of Reading \<Rightarrow> CanRead me fd | Writing \<Rightarrow> CanWrite me fd]"
  using dispatch_own_event [OF assms(1), of alive "event_bit dir"] assms(2,3)
  by (cases dir) (simp_all add: watches_dir_def epoll_bits)

lemma event_bit_reports:
  assumes "pu_interest p fd = Some (mode_to_epoll_events mode)" "watches_dir dir mode"
  shows "reports p fd (event_bit dir)"
  using assms by (cases dir; cases mode) (simp_all add: reports_def watches_dir_def entry_reads_def entry_writes_def epoll_bits)

lemma event_wakes_dir:
  assumes ok: "sys_ok valid alive fd me sys" and r: "ss_reactor (sy_source sys) = Some r" "\<not> ln_shutdown (sy_lanes sys r)"
    and idle: "lane_idle (sy_lanes sys r)" and wk: "source_waker dir (sy_source sys) = Some wk"
  shows "\<exists>sys'. run (source_step valid alive fd me g) [FdEvent r fd (event_bit dir), RunCallback r] sys = Some sys' \<and>
    sy_woken sys' = sy_woken sys @ [wk] \<and> latched dir (sy_source sys')"
proof -
  obtain mode where m: "ss_armed (sy_source sys) = Some mode" "watches_dir dir mode"
    using armed_of_waker [OF sys_okD(3) [OF ok]] wk by (cases dir) (auto simp: source_waker_def watches_dir_def)
  note w = idle_lane_watches [OF ok r idle m(1)]
  obtain cs p where d: "dispatch_event alive fd (event_bit dir) (ln_pump (sy_lanes sys r)) = (cs, p)" by (rule prod.exhaust)
  have cs: "cs = [case dir of Reading \<Rightarrow> CanRead me fd | Writing \<Rightarrow> CanWrite me fd]"
    using event_bit_dispatch [where alive = alive, OF w(1) sys_okD(2) [OF ok] m(2)] d by simp
  let ?s1 = "upd_lane r (\<lambda>l. l\<lparr>ln_pump := p, ln_calls := cs\<rparr>) sys"
  have st: "source_step valid alive fd me g (FdEvent r fd (event_bit dir)) sys = Some ?s1"
    using event_bit_reports [OF w(2) m(2)] idle d by (simp add: lane_idle_def)
  have "\<exists>sys'. source_step valid alive fd me g (RunCallback r) ?s1 = Some sys' \<and>
    sy_woken sys' = sy_woken sys @ [wk] \<and> latched dir (sy_source sys')"
    using cs wk update_arm_latches [OF surjective_pairing]
    by (cases dir) (auto simp: Let_def source_can_read_def source_can_write_def source_waker_def latched_def)
  then show ?thesis using st by auto
qed

lemma io_thread_run:
  assumes "run (source_step valid alive fd me g) ls (st_sys s) = Some sys" "\<forall>l\<in>set ls. \<not> polls_source l"
  shows "run (stream_step valid alive fd me g) (map IoThread ls) s = Some (s\<lparr>st_sys := sys\<rparr>)"
  using assms by (induction ls arbitrary: s) (auto split: option.splits)

text \<open>A registered task is woken by the IO thread alone, within its work plus one event.\<close>

lemma io_thread_wakes:
  assumes ok: "sys_ok valid alive fd me sys" and r: "ss_reactor (sy_source sys) = Some r" "\<not> ln_shutdown (sy_lanes sys r)"
    and served: "task_served dir (Waiting wk buf since) sys"
  shows "\<exists>ls sys'. set ls \<subseteq> {RunArm r, RunCallback r, FdEvent r fd (event_bit dir)} \<and>
    length ls \<le> lane_work (sy_lanes sys r) + 2 \<and> run (source_step valid alive fd me g) ls sys = Some sys' \<and>
    latched dir (sy_source sys') \<and> wk \<in> set (drop since (sy_woken sys'))"
proof -
  obtain ls t where t: "set ls \<subseteq> {RunArm r, RunCallback r}" "length ls \<le> lane_work (sy_lanes sys r)"
    "run (source_step valid alive fd me g) ls sys = Some t" "lane_idle (sy_lanes t r)"
    "ss_reactor (sy_source t) = Some r" "\<not> ln_shutdown (sy_lanes t r)"
    using lane_drains [OF r(1)] r(2) by metis
  have ok': "sys_ok valid alive fd me t"
    using source.run_inv [OF ok t(3)] .
  have served': "task_served dir (Waiting wk buf since) t"
    using t(1,3) served
  proof (induction ls arbitrary: sys)
    case (Cons l ls)
    then obtain u where u: "source_step valid alive fd me g l sys = Some u" "run (source_step valid alive fd me g) ls u = Some t"
      by (auto split: option.splits)
    have "\<not> polls_source l" using Cons.prems(1) by auto
    from io_thread_serves [OF u(1) this] show ?case
      using Cons u(2) by auto
  qed simp
  then consider (woken) "latched dir (sy_source t)" "wk \<in> set (drop since (sy_woken t))"
    | (waits) "source_waker dir (sy_source t) = Some wk" "since \<le> length (sy_woken t)"
    by (auto simp: task_served_def)
  then show ?thesis
  proof cases
    case woken
    then show ?thesis using t by (intro exI [of _ ls] exI [of _ t]) auto
  next
    case waits
    obtain u where "run (source_step valid alive fd me g) [FdEvent r fd (event_bit dir), RunCallback r] t = Some u"
      "sy_woken u = sy_woken t @ [wk]" "latched dir (sy_source u)"
      using event_wakes_dir [OF ok' t(5,6,4) waits(1)] by blast
    then show ?thesis
      using t waits(2)
      by (intro exI [of _ "ls @ [FdEvent r fd (event_bit dir), RunCallback r]"] exI [of _ u]) (auto simp: run_append)
  qed
qed

section \<open>Properties\<close>

fun kernel_ready :: "direction \<Rightarrow> stream_sys \<Rightarrow> bool" where
  "kernel_ready Reading s = (st_in s \<noteq> [] \<or> st_eof s)"
| "kernel_ready Writing s = (0 < st_space s)"

text \<open>The next poll of a task whose direction is latched goes through to the system call, which answers.\<close>

definition repoll_labels :: "direction \<Rightarrow> waker \<Rightarrow> nat \<Rightarrow> bool \<Rightarrow> stream_label list" where
  "repoll_labels dir wk r resumes =
     Repoll dir wk r resumes # (if resumes then [AskSource dir] else []) @ [TryIo dir 1]"

lemma stream_call_ready:
  assumes "kernel_ready dir s" "buf \<noteq> []"
  obtains n s' where "stream_call dir buf 1 s = Some (Inr n, s')" "n = 0 \<Longrightarrow> dir = Reading \<and> st_in s = [] \<and> st_eof s"
proof (cases dir)
  case Reading
  then show ?thesis
    using that assms by (cases "st_in s = []") (auto simp: transfer_ok_def Suc_le_eq)
next
  case Writing
  then show ?thesis
    using that assms by (auto simp: transfer_ok_def Suc_le_eq)
qed

lemma stream_call_cong:
  "stream_call dir buf k s = Some (Inr n, s') \<Longrightarrow>
   \<exists>s''. stream_call dir buf k (set_task dir' tk (s\<lparr>st_sys := sys\<rparr>)) = Some (Inr n, s'') \<and> st_returned s'' = st_returned s"
  by (cases dir) (auto split: if_splits)

lemma latched_poll_returns:
  assumes "latched dir (sy_source (st_sys s))" "st_task s dir = Waiting wk0 buf since" "kernel_ready dir s" "buf \<noteq> []"
  shows "\<exists>t n. run (stream_step valid alive fd me g) (repoll_labels dir wk r resumes) s = Some t \<and>
    st_task t dir = Idle \<and> st_returned t = st_returned s @ [(dir, n)] \<and>
    (n = 0 \<longrightarrow> dir = Reading \<and> st_in s = [] \<and> st_eof s)"
proof -
  obtain n s' where c: "stream_call dir buf 1 s = Some (Inr n, s')" "n = 0 \<Longrightarrow> dir = Reading \<and> st_in s = [] \<and> st_eof s"
    using stream_call_ready [OF assms(3,4)] by blast
  obtain a src where p: "poll_ready dir r wk (sy_source (st_sys s)) = (Ready (), a, src)"
    using assms(1) by (cases dir) (auto simp: latched_def poll_readable_def poll_writable_def)
  define s1 where "s1 = (if resumes then ask_source dir wk r buf (set_task dir (Blocked wk r buf) s) else set_task dir (Trying wk r buf) s)"
  have s1: "s1 = set_task dir (Trying wk r buf) (s\<lparr>st_sys := st_sys s1\<rparr>)"
    using p by (auto simp: s1_def ask_source_def Let_def set_task_def)
  obtain s2 where s2: "stream_call dir buf 1 s1 = Some (Inr n, s2)" "st_returned s2 = st_returned s"
    using stream_call_cong [OF c(1), of dir "Trying wk r buf" "st_sys s1"] s1 by metis
  then have "try_io dir wk r buf 1 s1 = Some (set_task dir Idle (s2\<lparr>st_returned := st_returned s @ [(dir, n)]\<rparr>))"
    by (simp add: try_io_def try_answer_def)
  moreover have "st_task s1 dir = Trying wk r buf" using s1 by (metis fun_upd_same set_task_simps(2))
  ultimately have "run (stream_step valid alive fd me g) (repoll_labels dir wk r resumes) s =
      Some (set_task dir Idle (s2\<lparr>st_returned := st_returned s @ [(dir, n)]\<rparr>))"
    using assms(2) by (cases resumes) (simp_all add: repoll_labels_def s1_def)
  then show ?thesis using c(2) by auto
qed

text \<open>
  C25. An asynchronous read or write that waits is never forgotten.  When its task is pending and the
  kernel can serve it (bytes or the end of the stream to read, room to write), then, whatever
  polls, drops, arrivals, stale arms and callbacks of both directions came before and in between
  system call and registration, the IO thread of the reactor alone wakes the task within its
  outstanding work and one event of epoll; and the next poll, by whatever thread, returns at least
  one byte, or 0 for a read exactly at the end of the stream.
\<close>
theorem async_stream_io_completes:
  assumes "reach (stream_init valid alive fd me) (stream_step valid alive fd me g) s"
    and "st_task s dir = Waiting wk buf since" "kernel_ready dir s" "buf \<noteq> []"
    and "ss_reactor (sy_source (st_sys s)) = Some r" "\<not> ln_shutdown (sy_lanes (st_sys s) r)"
  shows "\<exists>ls t. set ls \<subseteq> {IoThread (RunArm r), IoThread (RunCallback r), IoThread (FdEvent r fd (event_bit dir))} \<and>
    length ls \<le> lane_work (sy_lanes (st_sys s) r) + 2 \<and> run (stream_step valid alive fd me g) ls s = Some t \<and>
    wk \<in> set (drop since (sy_woken (st_sys t))) \<and>
    (\<forall>wk' r' resumes. \<exists>u n. run (stream_step valid alive fd me g) (repoll_labels dir wk' r' resumes) t = Some u \<and>
       st_task u dir = Idle \<and> st_returned u = st_returned s @ [(dir, n)] \<and>
       (n = 0 \<longrightarrow> dir = Reading \<and> st_in s = [] \<and> st_eof s))"
proof -
  have inv: "stream_inv valid alive fd me s" by (rule stream.reach_inv [OF assms(1)])
  then have ok: "sys_ok valid alive fd me (st_sys s)" and served: "task_served dir (Waiting wk buf since) (st_sys s)"
    using assms(2) by (auto simp: stream_inv_def) metis
  obtain ls sys where ls: "set ls \<subseteq> {RunArm r, RunCallback r, FdEvent r fd (event_bit dir)}"
    "length ls \<le> lane_work (sy_lanes (st_sys s) r) + 2" "run (source_step valid alive fd me g) ls (st_sys s) = Some sys"
    "latched dir (sy_source sys)" "wk \<in> set (drop since (sy_woken sys))"
    using io_thread_wakes [OF ok assms(5,6) served] by blast
  let ?t = "s\<lparr>st_sys := sys\<rparr>"
  have "\<forall>l\<in>set ls. \<not> polls_source l" using ls(1) by auto
  then have "run (stream_step valid alive fd me g) (map IoThread ls) s = Some ?t"
    by (rule io_thread_run [OF ls(3)])
  moreover have "kernel_ready dir ?t" using assms(3) by (cases dir) auto
  then have "\<forall>wk' r' resumes. \<exists>u n. run (stream_step valid alive fd me g) (repoll_labels dir wk' r' resumes) ?t = Some u \<and>
       st_task u dir = Idle \<and> st_returned u = st_returned s @ [(dir, n)] \<and>
       (n = 0 \<longrightarrow> dir = Reading \<and> st_in s = [] \<and> st_eof s)"
    using latched_poll_returns [where s = ?t and dir = dir and ?wk0.0 = wk and buf = buf and since = since] ls(4) assms(2,4)
    by simp
  ultimately show ?thesis
    using ls(1,2,5) by (intro exI [of _ "map IoThread ls"] exI [of _ ?t]) auto
qed

text \<open>A read on descriptor 5; the bytes arrive after its system call and before it is registered.\<close>

definition demo_stream_step :: "stream_label \<Rightarrow> stream_sys \<Rightarrow> stream_sys option" where
  "demo_stream_step = stream_step (\<lambda>_. True) (\<lambda>_. True) 5 7 0"

definition demo_stream_labels :: "stream_label list" where
  "demo_stream_labels = [StartIo Reading 1 3 [0, 0], TryIo Reading 0, Arrive [9, 8, 7], AskSource Reading]"

lemma demo_stream_facts:
  "case run demo_stream_step demo_stream_labels (stream_new 0) of
     None \<Rightarrow> False
   | Some s \<Rightarrow> st_task s Reading = Waiting 1 [0, 0] 0 \<and> kernel_ready Reading s \<and>
       ss_reactor (sy_source (st_sys s)) = Some 3 \<and> \<not> ln_shutdown (sy_lanes (st_sys s) 3)"
  by code_simp

theorem async_stream_io_completes_witness:
  "\<exists>s ls t. run demo_stream_step demo_stream_labels (stream_new 0) = Some s \<and>
     run demo_stream_step ls s = Some t \<and> 1 \<in> set (sy_woken (st_sys t))"
proof -
  obtain s where s: "run demo_stream_step demo_stream_labels (stream_new 0) = Some s"
    "st_task s Reading = Waiting 1 [0, 0] 0" "kernel_ready Reading s"
    "ss_reactor (sy_source (st_sys s)) = Some 3" "\<not> ln_shutdown (sy_lanes (st_sys s) 3)"
    using demo_stream_facts by (auto split: option.splits)
  have "reach (stream_init (\<lambda>_. True) (\<lambda>_. True) 5 7) (stream_step (\<lambda>_. True) (\<lambda>_. True) 5 7 0) s"
    by (rule reach_init_run [where s = "stream_new 0" and ls = demo_stream_labels])
      (use s(1) in \<open>auto simp: stream_init_def demo_stream_step_def\<close>)
  from async_stream_io_completes [OF this s(2,3) _ s(4,5)] show ?thesis
    using s(1) unfolding demo_stream_step_def by auto
qed

text \<open>
  What the calls return accounts for every byte: the reads have returned exactly the first bytes that
  arrived, in order, and the writes have counted exactly the bytes they put into the send buffer,
  whatever futures were dropped.
\<close>

definition returned_sum :: "direction \<Rightarrow> (direction \<times> nat) list \<Rightarrow> nat" where
  "returned_sum dir log = sum_list (map snd (filter (\<lambda>e. fst e = dir) log))"

definition counts_ok :: "stream_sys \<Rightarrow> bool" where
  "counts_ok s \<longleftrightarrow>
     returned_sum Reading (st_returned s) = length (st_got s) \<and> returned_sum Writing (st_returned s) = length (st_out s)"

lemma returned_sum_simps [simp]:
  "returned_sum dir [] = 0" "returned_sum dir (log @ [e]) = returned_sum dir log + (if fst e = dir then snd e else 0)"
  by (simp_all add: returned_sum_def)

lemma stream_call_counts:
  assumes "stream_call dir buf k s = Some (res, s')" "counts_ok s"
  shows "case res of Inl _ \<Rightarrow> counts_ok s' | Inr n \<Rightarrow> counts_ok (s'\<lparr>st_returned := st_returned s' @ [(dir, n)]\<rparr>)"
  using assms by (cases dir) (auto simp: counts_ok_def transfer_ok_def split: if_splits)

lemma counts_cong:
  assumes "counts_ok s" "st_returned t = st_returned s" "st_got t = st_got s" "st_out t = st_out s"
  shows "counts_ok t"
  using assms by (simp add: counts_ok_def)

lemma try_failed_counts: "counts_ok s \<Longrightarrow> counts_ok (try_answer dir wk r buf (Inl e) s)"
  by (simp add: try_answer_def counts_ok_def)

lemma try_io_counts:
  assumes "try_io dir wk r buf k s = Some t" "counts_ok s"
  shows "counts_ok t"
proof -
  obtain res s' where c: "stream_call dir buf k s = Some (res, s')" "t = try_answer dir wk r buf res s'"
    using assms(1) by (auto simp: try_io_def split: option.splits)
  show ?thesis
    using stream_call_counts [OF c(1) assms(2)] try_failed_counts unfolding c(2)
    by (cases res) (auto simp: try_answer_def elim: counts_cong)
qed

lemma counts_step:
  assumes "counts_ok s" "stream_step valid alive fd me g l s = Some t"
  shows "counts_ok t"
proof (cases l)
  case (TryIo dir k)
  then show ?thesis using assms try_io_counts by (auto split: io_task.splits)
next
  case (TryFail dir e)
  then show ?thesis using assms try_failed_counts by (auto split: io_task.splits if_splits)
qed (use assms in \<open>auto simp: ask_source_def Let_def split: io_task.splits if_splits elim!: counts_cong\<close>)

interpretation counting: inductive_invariant "stream_init valid alive fd me" "stream_step valid alive fd me g" counts_ok
proof
  show "stream_init valid alive fd me s \<Longrightarrow> counts_ok s" for s
    by (auto simp: stream_init_def stream_new_def counts_ok_def)
qed (rule counts_step)

theorem async_stream_bytes_exact:
  assumes "reach (stream_init valid alive fd me) (stream_step valid alive fd me g) s"
  shows "st_got s = take (returned_sum Reading (st_returned s)) (st_arrived s) \<and>
    length (st_out s) = returned_sum Writing (st_returned s)"
  using stream.reach_inv [OF assms] counting.reach_inv [OF assms] by (simp add: stream_inv_def counts_ok_def)

end
