(* ===== verification/Runtime_Model.thy ===== *)
theory Runtime_Model
  imports Task_Context_Model Async_Task_Model
begin

text \<open>
  \<open>rust_async/runtime.rs\<close> and \<open>executor.rs\<close>: runtimes, \<open>spawn\<close> and \<open>JoinHandle\<close>.  A runtime pairs a task runner
  with a reactor; spawning wraps the future with its context, makes a task of it with the crate
  \<open>async_task\<close> and posts the task's runnable to the runner at every wake-up.

  \<open>async_task\<close> is not part of the repository.  Its operations are the fields of a record \<open>ops\<close>, a
  parameter of the machine, and \<open>async_task_laws\<close> says what its documentation promises of them: that
  a task has at most one runnable, that a wake-up of a parked task schedules it, that a wake-up
  during a poll schedules it when the poll returns, that dropping the runnable closes the task, and
  that the handle gets the output.

  A runner is the list of closures it accepted and has not started.  The pool's parallel runner
  starts any of them, a sequenced runner and an IO thread (\<open>seq\<close>) start them in order and one at a time
  (\<open>Pool_Order\<close>, \<open>Pool_Ownership\<close>, \<open>Io_Task_Runner_Model\<close>); a runner that was shut down refuses, and the
  closures it had accepted may be dropped.  A poll that panics unwinds through \<open>r.run()\<close> and ends the
  thread that polls: a sequenced runner then keeps its worker flag and an IO runner has no thread, so
  neither starts another closure (\<open>ex_live\<close>); a parallel runner goes on until its pool has lost its last
  thread (\<open>LoseThreads\<close>).
\<close>

section \<open>The \<open>async_task\<close> crate\<close>

datatype 'v join = Joined 'v | JoinPanic

datatype 'v poll_end = Yielded | Returned 'v | Panicked

record ('k, 'v) async_task =
  ta_spawn :: 'k
  ta_run_begin :: "'k \<Rightarrow> 'k"
  ta_run_end :: "'v poll_end \<Rightarrow> 'k \<Rightarrow> bool \<times> waker option \<times> 'k"
  ta_wake :: "'k \<Rightarrow> bool \<times> 'k"
  ta_drop_runnable :: "'k \<Rightarrow> waker option \<times> 'k"
  ta_poll :: "waker \<Rightarrow> 'k \<Rightarrow> 'v join poll \<times> 'k"
  ta_detach :: "'k \<Rightarrow> 'k"

text \<open>What can be observed of a task: where its future is, and the waker of the handle's last poll.\<close>

datatype 'v phase = Scheduled | Running bool | Parked | Completed "'v option" | Closed

record 'v task_view =
  tv_phase :: "'v phase"
  tv_awaiter :: "waker option"

fun finished :: "'v phase \<Rightarrow> bool" where
  "finished (Completed _) = True"
| "finished Closed = True"
| "finished _ = False"

definition view_spawn :: "'v task_view" where
  "view_spawn = \<lparr>tv_phase = Scheduled, tv_awaiter = None\<rparr>"

fun view_end :: "'v poll_end \<Rightarrow> bool \<Rightarrow> 'v task_view \<Rightarrow> bool \<times> waker option \<times> 'v task_view" where
  "view_end Yielded woken v = (woken, None, v\<lparr>tv_phase := if woken then Scheduled else Parked\<rparr>)"
| "view_end (Returned x) woken v = (False, tv_awaiter v, v\<lparr>tv_phase := Completed (Some x), tv_awaiter := None\<rparr>)"
| "view_end Panicked woken v = (False, tv_awaiter v, v\<lparr>tv_phase := Closed, tv_awaiter := None\<rparr>)"

definition view_wake :: "'v task_view \<Rightarrow> bool \<times> 'v task_view" where
  "view_wake v =
     (case tv_phase v of
        Parked \<Rightarrow> (True, v\<lparr>tv_phase := Scheduled\<rparr>)
      | Running _ \<Rightarrow> (False, v\<lparr>tv_phase := Running True\<rparr>)
      | _ \<Rightarrow> (False, v))"

definition view_drop_runnable :: "'v task_view \<Rightarrow> waker option \<times> 'v task_view" where
  "view_drop_runnable v = (tv_awaiter v, v\<lparr>tv_phase := Closed, tv_awaiter := None\<rparr>)"

definition view_poll :: "waker \<Rightarrow> 'v task_view \<Rightarrow> 'v join poll \<times> 'v task_view" where
  "view_poll wk v =
     (case tv_phase v of
        Completed (Some x) \<Rightarrow> (Ready (Joined x), v\<lparr>tv_phase := Completed None\<rparr>)
      | Completed None \<Rightarrow> (Ready JoinPanic, v)
      | Closed \<Rightarrow> (Ready JoinPanic, v)
      | _ \<Rightarrow> (Pending, v\<lparr>tv_awaiter := Some wk\<rparr>))"

definition async_task_laws :: "('k, 'v) async_task \<Rightarrow> ('k \<Rightarrow> 'v task_view) \<Rightarrow> bool" where
  "async_task_laws ops view \<longleftrightarrow>
     view (ta_spawn ops) = view_spawn \<and>
     (\<forall>k. tv_phase (view k) = Scheduled \<longrightarrow> view (ta_run_begin ops k) = (view k)\<lparr>tv_phase := Running False\<rparr>) \<and>
     (\<forall>e k woken sched w k'. tv_phase (view k) = Running woken \<longrightarrow> ta_run_end ops e k = (sched, w, k') \<longrightarrow>
        view_end e woken (view k) = (sched, w, view k')) \<and>
     (\<forall>k sched k'. ta_wake ops k = (sched, k') \<longrightarrow> view_wake (view k) = (sched, view k')) \<and>
     (\<forall>k w k'. tv_phase (view k) = Scheduled \<longrightarrow> ta_drop_runnable ops k = (w, k') \<longrightarrow>
        view_drop_runnable (view k) = (w, view k')) \<and>
     (\<forall>wk k r k'. ta_poll ops wk k = (r, k') \<longrightarrow> view_poll wk (view k) = (r, view k')) \<and>
     (\<forall>k. tv_phase (view (ta_detach ops k)) = tv_phase (view k))"

section \<open>Runtimes and handles\<close>

text \<open>
  A runtime is a number in the contexts of \<open>Task_Context_Model\<close>; this is what the number stands for.
\<close>

record runtime =
  rt_runner :: nat
  rt_reactor :: nat

definition runtime_new :: "nat \<Rightarrow> nat \<Rightarrow> runtime" where
  "runtime_new runner reactor = \<lparr>rt_runner = runner, rt_reactor = reactor\<rparr>"

definition runtime_reactor :: "runtime \<Rightarrow> nat" where
  "runtime_reactor rt = rt_reactor rt"

text \<open>The process-wide values are made by the first call that needs them (\<open>OnceLock::get_or_init\<close>).\<close>

definition get_or_init :: "'a \<Rightarrow> 'a option \<Rightarrow> 'a \<times> 'a option" where
  "get_or_init v cell = (case cell of Some x \<Rightarrow> (x, Some x) | None \<Rightarrow> (v, Some v))"

definition global_pool_threads :: "nat option \<Rightarrow> nat \<times> nat option" where
  "global_pool_threads = get_or_init 4"

definition global_runtime :: "nat \<Rightarrow> nat \<Rightarrow> runtime option \<Rightarrow> runtime \<times> runtime option" where
  "global_runtime pool_runner reactor_io = get_or_init (runtime_new pool_runner reactor_io)"

definition current_io_runner :: "(nat \<Rightarrow> runtime) \<Rightarrow> nat \<Rightarrow> 'v async_thread \<Rightarrow> nat" where
  "current_io_runner rts glob t = runtime_reactor (rts (current_or_global glob t))"

definition tag_with :: "nat \<Rightarrow> nat \<Rightarrow> task_context" where
  "tag_with fresh rt = \<lparr>cx_locals = fresh, cx_runtime = rt\<rparr>"

section \<open>The machine\<close>

text \<open>
  Tasks are numbered in the order of their spawns.  The last five fields record the run: which tasks
  have a wake-up (or their spawn) that no poll has followed, what every runtime accepted and began,
  what the futures returned, and the wake-ups of the wakers that polled handles.
\<close>

record ('k, 'v) exec_sys =
  ex_queue :: "nat \<Rightarrow> nat list"
  ex_open :: "nat \<Rightarrow> bool"
  ex_live :: "nat \<Rightarrow> bool"
  ex_tasks :: "'k list"
  ex_tags :: "task_context list"
  ex_running :: "nat list"
  ex_handle :: "nat \<Rightarrow> bool"
  ex_waiting :: "nat \<Rightarrow> (waker \<times> nat) option"
  ex_due :: "nat \<Rightarrow> bool"
  ex_posted :: "nat \<Rightarrow> nat list"
  ex_begun :: "nat \<Rightarrow> nat list"
  ex_output :: "nat \<Rightarrow> 'v poll_end option"
  ex_woken :: "waker list"

definition exec_new :: "('k, 'v) exec_sys" where
  "exec_new = \<lparr>ex_queue = (\<lambda>_. []), ex_open = (\<lambda>_. True), ex_live = (\<lambda>_. True), ex_tasks = [], ex_tags = [], ex_running = [],
     ex_handle = (\<lambda>_. False), ex_waiting = (\<lambda>_. None), ex_due = (\<lambda>_. False), ex_posted = (\<lambda>_. []),
     ex_begun = (\<lambda>_. []), ex_output = (\<lambda>_. None), ex_woken = []\<rparr>"

definition runtime_of :: "('k, 'v) exec_sys \<Rightarrow> nat \<Rightarrow> nat" where
  "runtime_of s i = cx_runtime (ex_tags s ! i)"

definition wake_opt :: "waker option \<Rightarrow> ('k, 'v) exec_sys \<Rightarrow> ('k, 'v) exec_sys" where
  "wake_opt w s = (case w of None \<Rightarrow> s | Some wk \<Rightarrow> s\<lparr>ex_woken := ex_woken s @ [wk]\<rparr>)"

definition drop_runnable :: "('k, 'v) async_task \<Rightarrow> nat \<Rightarrow> ('k, 'v) exec_sys \<Rightarrow> ('k, 'v) exec_sys" where
  "drop_runnable ops i s =
     (case ta_drop_runnable ops (ex_tasks s ! i) of
        (w, k) \<Rightarrow> wake_opt w (s\<lparr>ex_tasks := (ex_tasks s)[i := k]\<rparr>))"

text \<open>
  The closure \<open>schedule\<close> of \<open>Runtime::new\<close>: it posts \<open>r.run()\<close> and does not look at the answer of \<open>post_task\<close>; a
  closure that is refused is dropped with its runnable.
\<close>

definition schedule :: "('k, 'v) async_task \<Rightarrow> nat \<Rightarrow> ('k, 'v) exec_sys \<Rightarrow> ('k, 'v) exec_sys" where
  "schedule ops i s =
     (let r = runtime_of s i
      in if ex_open s r
         then s\<lparr>ex_queue := (ex_queue s)(r := ex_queue s r @ [i]), ex_posted := (ex_posted s)(r := ex_posted s r @ [i])\<rparr>
         else drop_runnable ops i s)"

definition runtime_spawn :: "('k, 'v) async_task \<Rightarrow> nat \<Rightarrow> ('k, 'v) exec_sys \<Rightarrow> ('k, 'v) exec_sys" where
  "runtime_spawn ops r s =
     (let i = length (ex_tasks s)
      in schedule ops i (s\<lparr>ex_tasks := ex_tasks s @ [ta_spawn ops], ex_tags := ex_tags s @ [tag_with i r],
           ex_handle := (ex_handle s)(i := True), ex_due := (ex_due s)(i := True)\<rparr>))"

text \<open>\<open>executor::spawn\<close>, called on a thread whose context is \<open>cur\<close>; \<open>spawn_blocking\<close> is this on an \<open>Offload\<close>.\<close>

definition executor_spawn ::
    "('k, 'v) async_task \<Rightarrow> nat \<Rightarrow> task_context option \<Rightarrow> ('k, 'v) exec_sys \<Rightarrow> ('k, 'v) exec_sys" where
  "executor_spawn ops glob cur s =
     runtime_spawn ops (current_or_global glob \<lparr>at_current = cur, at_locals = (\<lambda>_. task_store_new :: unit task_store)\<rparr>) s"

definition begin_poll :: "('k, 'v) async_task \<Rightarrow> nat \<Rightarrow> nat \<Rightarrow> ('k, 'v) exec_sys \<Rightarrow> ('k, 'v) exec_sys" where
  "begin_poll ops r p s =
     (let i = ex_queue s r ! p
      in s\<lparr>ex_queue := (ex_queue s)(r := take p (ex_queue s r) @ drop (Suc p) (ex_queue s r)),
           ex_tasks := (ex_tasks s)[i := ta_run_begin ops (ex_tasks s ! i)], ex_running := i # ex_running s,
           ex_due := (ex_due s)(i := False), ex_begun := (ex_begun s)(r := ex_begun s r @ [i])\<rparr>)"

definition end_poll :: "('k, 'v) async_task \<Rightarrow> (nat \<Rightarrow> bool) \<Rightarrow> nat \<Rightarrow> 'v poll_end \<Rightarrow> ('k, 'v) exec_sys \<Rightarrow> ('k, 'v) exec_sys" where
  "end_poll ops seq i e s =
     (case ta_run_end ops e (ex_tasks s ! i) of
        (sched, w, k) \<Rightarrow>
          (let s1 = wake_opt w (s\<lparr>ex_tasks := (ex_tasks s)[i := k], ex_running := remove1 i (ex_running s),
                      ex_output := (ex_output s)(i := if e = Yielded then None else Some e),
                      ex_live := (\<lambda>r. ex_live s r \<and> \<not> (e = Panicked \<and> seq r \<and> r = runtime_of s i))\<rparr>)
           in if sched then schedule ops i s1 else s1))"

definition wake_task :: "('k, 'v) async_task \<Rightarrow> nat \<Rightarrow> ('k, 'v) exec_sys \<Rightarrow> ('k, 'v) exec_sys" where
  "wake_task ops i s =
     (case ta_wake ops (ex_tasks s ! i) of
        (sched, k) \<Rightarrow>
          (let s1 = s\<lparr>ex_tasks := (ex_tasks s)[i := k], ex_due := (ex_due s)(i := True)\<rparr>
           in if sched then schedule ops i s1 else s1))"

text \<open>\<open>JoinHandle::poll\<close>, on a handle that still has its task, and its \<open>Drop\<close>.\<close>

definition join_poll ::
    "('k, 'v) async_task \<Rightarrow> nat \<Rightarrow> waker \<Rightarrow> ('k, 'v) exec_sys \<Rightarrow> 'v join poll \<times> ('k, 'v) exec_sys" where
  "join_poll ops i wk s =
     (case ta_poll ops wk (ex_tasks s ! i) of
        (r, k) \<Rightarrow>
          (r, s\<lparr>ex_tasks := (ex_tasks s)[i := k],
                ex_waiting := (ex_waiting s)(i := case r of Pending \<Rightarrow> Some (wk, length (ex_woken s)) | Ready _ \<Rightarrow> None)\<rparr>))"

definition join_drop :: "('k, 'v) async_task \<Rightarrow> nat \<Rightarrow> ('k, 'v) exec_sys \<Rightarrow> ('k, 'v) exec_sys" where
  "join_drop ops i s =
     s\<lparr>ex_tasks := (ex_tasks s)[i := ta_detach ops (ex_tasks s ! i)], ex_handle := (ex_handle s)(i := False),
       ex_waiting := (ex_waiting s)(i := None)\<rparr>"

datatype 'v exec_label =
    SpawnOn nat
  | SpawnIn "nat option"
  | BeginPoll nat nat
  | EndPoll nat "'v poll_end"
  | WakeTask nat
  | PollHandle nat waker
  | DropHandle nat
  | CloseRunner nat
  | Discard nat nat
  | LoseThreads nat

definition lane_busy :: "(nat \<Rightarrow> bool) \<Rightarrow> nat \<Rightarrow> ('k, 'v) exec_sys \<Rightarrow> bool" where
  "lane_busy seq r s \<longleftrightarrow> seq r \<and> (\<exists>i\<in>set (ex_running s). runtime_of s i = r)"

fun exec_step ::
    "('k, 'v) async_task \<Rightarrow> (nat \<Rightarrow> bool) \<Rightarrow> nat \<Rightarrow> 'v exec_label \<Rightarrow> ('k, 'v) exec_sys \<Rightarrow> ('k, 'v) exec_sys option" where
  "exec_step ops seq glob (SpawnOn r) s = Some (runtime_spawn ops r s)"
| "exec_step ops seq glob (SpawnIn None) s = Some (executor_spawn ops glob None s)"
| "exec_step ops seq glob (SpawnIn (Some i)) s =
     (if i \<in> set (ex_running s) then Some (executor_spawn ops glob (Some (ex_tags s ! i)) s) else None)"
| "exec_step ops seq glob (BeginPoll r p) s =
     (if p < length (ex_queue s r) \<and> (seq r \<longrightarrow> p = 0) \<and> \<not> lane_busy seq r s \<and> ex_live s r then Some (begin_poll ops r p s) else None)"
| "exec_step ops seq glob (EndPoll i e) s = (if i \<in> set (ex_running s) then Some (end_poll ops seq i e s) else None)"
| "exec_step ops seq glob (WakeTask i) s = (if i < length (ex_tasks s) then Some (wake_task ops i s) else None)"
| "exec_step ops seq glob (PollHandle i wk) s =
     (if i < length (ex_tasks s) \<and> ex_handle s i then Some (snd (join_poll ops i wk s)) else None)"
| "exec_step ops seq glob (DropHandle i) s =
     (if i < length (ex_tasks s) \<and> ex_handle s i then Some (join_drop ops i s) else None)"
| "exec_step ops seq glob (CloseRunner r) s = Some (s\<lparr>ex_open := (ex_open s)(r := False)\<rparr>)"
| "exec_step ops seq glob (Discard r p) s =
     (if p < length (ex_queue s r) \<and> \<not> ex_open s r
      then Some (drop_runnable ops (ex_queue s r ! p)
                  (s\<lparr>ex_queue := (ex_queue s)(r := take p (ex_queue s r) @ drop (Suc p) (ex_queue s r))\<rparr>))
      else None)"
| "exec_step ops seq glob (LoseThreads r) s =
     (if \<exists>i\<in>set (ex_running s). runtime_of s i = r then None else Some (s\<lparr>ex_live := (ex_live s)(r := False)\<rparr>))"

definition exec_init :: "('k, 'v) exec_sys \<Rightarrow> bool" where
  "exec_init s \<longleftrightarrow> s = exec_new"

section \<open>The invariant\<close>

text \<open>
  What concerns one task: its view, how often it is posted to its runtime and polled, its pending
  wake-up, its outcome, the wait of its handle, and whether its runner is open.  \<open>missing\<close> is true of a
  task whose runnable is in no queue because it is just being posted, started or dropped.
\<close>

type_synonym 'v task_state =
  "'v task_view \<times> nat \<times> nat \<times> bool \<times> 'v poll_end option \<times> (waker \<times> nat) option \<times> bool"

definition task_state :: "('k \<Rightarrow> 'v task_view) \<Rightarrow> ('k, 'v) exec_sys \<Rightarrow> nat \<Rightarrow> 'v task_state" where
  "task_state view s j =
     (view (ex_tasks s ! j), count_list (ex_queue s (runtime_of s j)) j, count_list (ex_running s) j, ex_due s j,
      ex_output s j, ex_waiting s j, ex_open s (runtime_of s j))"

fun phase_running :: "'v phase \<Rightarrow> bool" where
  "phase_running (Running _) = True"
| "phase_running _ = False"

definition outcome_ok :: "'v phase \<Rightarrow> 'v poll_end option \<Rightarrow> bool \<Rightarrow> bool" where
  "outcome_ok ph out opened =
     (case ph of
        Closed \<Rightarrow> out = Some Panicked \<or> \<not> opened
      | Completed (Some x) \<Rightarrow> out = Some (Returned x)
      | Completed None \<Rightarrow> \<exists>x. out = Some (Returned x)
      | _ \<Rightarrow> out = None)"

definition awaiter_ok :: "'v task_view \<Rightarrow> (waker \<times> nat) option \<Rightarrow> waker list \<Rightarrow> bool" where
  "awaiter_ok v w woken =
     (case w of
        None \<Rightarrow> True
      | Some (wk, since) \<Rightarrow>
          since \<le> length woken \<and> (if finished (tv_phase v) then wk \<in> set (drop since woken) else tv_awaiter v = Some wk))"

fun task_ok :: "bool \<Rightarrow> waker list \<Rightarrow> 'v task_state \<Rightarrow> bool" where
  "task_ok missing woken (v, queued, running, due, out, w, opened) \<longleftrightarrow>
     queued = (if tv_phase v = Scheduled \<and> \<not> missing then 1 else 0) \<and>
     running = (if phase_running (tv_phase v) then 1 else 0) \<and>
     (due \<longrightarrow> tv_phase v = Scheduled \<or> tv_phase v = Running True \<or> finished (tv_phase v)) \<and>
     outcome_ok (tv_phase v) out opened \<and> awaiter_ok v w woken"

definition places_ok :: "('k, 'v) exec_sys \<Rightarrow> bool" where
  "places_ok s \<longleftrightarrow>
     (\<forall>r j. j \<in> set (ex_queue s r) \<longrightarrow> j < length (ex_tasks s) \<and> runtime_of s j = r) \<and>
     (\<forall>j\<in>set (ex_running s). j < length (ex_tasks s)) \<and>
     (\<forall>j. length (ex_tasks s) \<le> j \<longrightarrow> \<not> ex_due s j \<and> ex_waiting s j = None \<and> ex_output s j = None)"

definition lanes_ordered :: "(nat \<Rightarrow> bool) \<Rightarrow> ('k, 'v) exec_sys \<Rightarrow> bool" where
  "lanes_ordered seq s \<longleftrightarrow>
     (\<forall>r. seq r \<and> ex_open s r \<longrightarrow> ex_posted s r = ex_begun s r @ ex_queue s r) \<and>
     (\<forall>i\<in>set (ex_running s). \<forall>j\<in>set (ex_running s). runtime_of s i = runtime_of s j \<and> seq (runtime_of s i) \<longrightarrow> i = j)"

definition exec_inv :: "('k \<Rightarrow> 'v task_view) \<Rightarrow> (nat \<Rightarrow> bool) \<Rightarrow> nat option \<Rightarrow> ('k, 'v) exec_sys \<Rightarrow> bool" where
  "exec_inv view seq missing s \<longleftrightarrow>
     length (ex_tags s) = length (ex_tasks s) \<and>
     (\<forall>j < length (ex_tasks s). task_ok (missing = Some j) (ex_woken s) (task_state view s j)) \<and>
     places_ok s \<and> lanes_ordered seq s"

lemma exec_invD:
  assumes "exec_inv view seq missing s"
  shows "length (ex_tags s) = length (ex_tasks s)"
    and "j < length (ex_tasks s) \<Longrightarrow> task_ok (missing = Some j) (ex_woken s) (task_state view s j)"
    and "places_ok s" "lanes_ordered seq s"
  using assms by (simp_all add: exec_inv_def)

lemma wait_ok_mono: "awaiter_ok v w woken \<Longrightarrow> awaiter_ok v w (woken @ later)"
  by (auto simp: awaiter_ok_def split: option.splits)

lemma task_ok_mono: "task_ok missing woken ts \<Longrightarrow> task_ok missing (woken @ later) ts"
  by (cases ts) (auto simp: wait_ok_mono)

text \<open>A step that changes one task: the others keep their state, perhaps with more wake-ups logged.\<close>

lemma exec_inv_change:
  assumes inv: "exec_inv view seq missing s"
    and "length (ex_tags t) = length (ex_tasks t)" "length (ex_tasks t) = length (ex_tasks s)"
    and "ex_woken t = ex_woken s @ later"
    and others: "\<And>j. j < length (ex_tasks s) \<Longrightarrow> j \<noteq> i \<Longrightarrow> task_state view t j = task_state view s j"
    and "missing = None \<or> missing = Some i" "missing' = None \<or> missing' = Some i"
    and "i < length (ex_tasks s) \<Longrightarrow> task_ok (missing' = Some i) (ex_woken t) (task_state view t i)"
    and "places_ok t" "lanes_ordered seq t"
  shows "exec_inv view seq missing' t"
proof -
  have "task_ok (missing' = Some j) (ex_woken t) (task_state view t j)" if j: "j < length (ex_tasks t)" for j
  proof (cases "j = i")
    case False
    then have "(missing' = Some j) = (missing = Some j)" using assms(6,7) by auto
    then show ?thesis
      using j False others [of j] task_ok_mono [OF exec_invD(2) [OF inv], of j later] assms(3,4) by simp
  qed (use assms(3,8) j in simp)
  then show ?thesis
    using assms by (simp add: exec_inv_def)
qed

section \<open>The laws as rewrite rules\<close>

lemma laws_spawn: "async_task_laws ops view \<Longrightarrow> view (ta_spawn ops) = view_spawn"
  by (simp add: async_task_laws_def)

lemma laws_begin:
  "async_task_laws ops view \<Longrightarrow> tv_phase (view k) = Scheduled \<Longrightarrow> view (ta_run_begin ops k) = (view k)\<lparr>tv_phase := Running False\<rparr>"
  by (simp add: async_task_laws_def)

lemma laws_end:
  "async_task_laws ops view \<Longrightarrow> tv_phase (view k) = Running woken \<Longrightarrow> ta_run_end ops e k = (sched, w, k') \<Longrightarrow>
     view_end e woken (view k) = (sched, w, view k')"
  unfolding async_task_laws_def by blast

lemma laws_wake: "async_task_laws ops view \<Longrightarrow> ta_wake ops k = (sched, k') \<Longrightarrow> view_wake (view k) = (sched, view k')"
  unfolding async_task_laws_def by blast

lemma laws_drop:
  "async_task_laws ops view \<Longrightarrow> tv_phase (view k) = Scheduled \<Longrightarrow> ta_drop_runnable ops k = (w, k') \<Longrightarrow>
     view_drop_runnable (view k) = (w, view k')"
  unfolding async_task_laws_def by blast

lemma laws_poll: "async_task_laws ops view \<Longrightarrow> ta_poll ops wk k = (r, k') \<Longrightarrow> view_poll wk (view k) = (r, view k')"
  unfolding async_task_laws_def by blast

lemma laws_detach: "async_task_laws ops view \<Longrightarrow> tv_phase (view (ta_detach ops k)) = tv_phase (view k)"
  by (simp add: async_task_laws_def)

section \<open>The steps keep the invariant\<close>

lemma wake_opt_simps [simp]:
  "ex_live (wake_opt w s) = ex_live s"
  "ex_queue (wake_opt w s) = ex_queue s" "ex_open (wake_opt w s) = ex_open s" "ex_tasks (wake_opt w s) = ex_tasks s"
  "ex_tags (wake_opt w s) = ex_tags s" "ex_running (wake_opt w s) = ex_running s" "ex_handle (wake_opt w s) = ex_handle s"
  "ex_waiting (wake_opt w s) = ex_waiting s" "ex_due (wake_opt w s) = ex_due s" "ex_posted (wake_opt w s) = ex_posted s"
  "ex_begun (wake_opt w s) = ex_begun s" "ex_output (wake_opt w s) = ex_output s"
  "ex_woken (wake_opt w s) = ex_woken s @ (case w of None \<Rightarrow> [] | Some wk \<Rightarrow> [wk])"
  by (auto simp: wake_opt_def split: option.split)

lemma runtime_of_cong: "ex_tags t = ex_tags s \<Longrightarrow> runtime_of t j = runtime_of s j"
  by (simp add: runtime_of_def)

text \<open>The parts of the invariant that do not look into tasks depend on these fields only.\<close>

lemma places_cong:
  assumes "places_ok s" "length (ex_tasks t) = length (ex_tasks s)" "ex_tags t = ex_tags s" "ex_queue t = ex_queue s"
    and "ex_running t = ex_running s" "ex_due t = ex_due s" "ex_waiting t = ex_waiting s" "ex_output t = ex_output s"
  shows "places_ok t"
  using assms by (simp add: places_ok_def runtime_of_def)

lemma lanes_cong:
  assumes "lanes_ordered seq s" "ex_tags t = ex_tags s" "ex_queue t = ex_queue s" "ex_posted t = ex_posted s"
    and "ex_begun t = ex_begun s" "set (ex_running t) \<subseteq> set (ex_running s)" "\<And>r. ex_open t r \<Longrightarrow> ex_open s r"
  shows "lanes_ordered seq t"
proof -
  have "i \<in> set (ex_running s)" if "i \<in> set (ex_running t)" for i using that assms(6) by blast
  then show ?thesis
    using assms(1-5,7) unfolding lanes_ordered_def runtime_of_def by (metis (no_types, lifting))
qed

lemma task_ok_of:
  assumes "exec_inv view seq missing s" "i < length (ex_tasks s)" "view (ex_tasks s ! i) = v"
  shows "count_list (ex_queue s (runtime_of s i)) i = (if tv_phase v = Scheduled \<and> missing \<noteq> Some i then 1 else 0)"
    and "count_list (ex_running s) i = (if phase_running (tv_phase v) then 1 else 0)"
    and "ex_due s i \<Longrightarrow> tv_phase v = Scheduled \<or> tv_phase v = Running True \<or> finished (tv_phase v)"
    and "outcome_ok (tv_phase v) (ex_output s i) (ex_open s (runtime_of s i))"
    and "awaiter_ok v (ex_waiting s i) (ex_woken s)"
  using exec_invD(2) [OF assms(1,2)] assms(3) by (auto simp: task_state_def)

lemma wait_ok_wakes:
  assumes "awaiter_ok v w woken" "\<not> finished (tv_phase v)" "finished (tv_phase v')"
  shows "awaiter_ok v' w (woken @ (case tv_awaiter v of None \<Rightarrow> [] | Some wk \<Rightarrow> [wk]))"
  using assms by (auto simp: awaiter_ok_def split: option.splits)

lemma drop_runnable_inv:
  assumes laws: "async_task_laws ops view" and inv: "exec_inv view seq (Some i) s"
    and i: "i < length (ex_tasks s)" "tv_phase (view (ex_tasks s ! i)) = Scheduled" "\<not> ex_open s (runtime_of s i)"
  shows "exec_inv view seq None (drop_runnable ops i s)"
proof -
  obtain w k where d: "ta_drop_runnable ops (ex_tasks s ! i) = (w, k)" by (rule prod.exhaust)
  define v where "v = view (ex_tasks s ! i)"
  note old = task_ok_of [OF inv i(1) v_def [symmetric]]
  have k: "view k = v\<lparr>tv_phase := Closed, tv_awaiter := None\<rparr>" "w = tv_awaiter v"
    using laws_drop [OF laws i(2) d] by (simp_all add: view_drop_runnable_def v_def)
  let ?t = "wake_opt w (s\<lparr>ex_tasks := (ex_tasks s)[i := k]\<rparr>)"
  have "runtime_of ?t = runtime_of s" by (rule ext) (simp add: runtime_of_def)
  then have "task_state view ?t j = task_state view s j" if "j \<noteq> i" for j
    using that by (simp add: task_state_def)
  moreover have "awaiter_ok (view k) (ex_waiting s i) (ex_woken s @ (case w of None \<Rightarrow> [] | Some wk \<Rightarrow> [wk]))"
    using wait_ok_wakes [OF old(5), of "view k"] i(2) k by (simp add: v_def)
  then have "task_ok False (ex_woken ?t) (task_state view ?t i)"
    using old i k \<open>runtime_of ?t = runtime_of s\<close> by (auto simp: task_state_def outcome_ok_def v_def)
  moreover have "places_ok ?t" by (rule places_cong [OF exec_invD(3) [OF inv]]) simp_all
  moreover have "lanes_ordered seq ?t" by (rule lanes_cong [OF exec_invD(4) [OF inv]]) simp_all
  ultimately have "exec_inv view seq None ?t"
    by (intro exec_inv_change [OF inv, where i = i]) (use exec_invD(1) [OF inv] in simp_all)
  then show ?thesis by (simp add: drop_runnable_def d)
qed

lemma schedule_inv:
  assumes laws: "async_task_laws ops view" and inv: "exec_inv view seq (Some i) s"
    and i: "i < length (ex_tasks s)" "tv_phase (view (ex_tasks s ! i)) = Scheduled"
  shows "exec_inv view seq None (schedule ops i s)"
proof (cases "ex_open s (runtime_of s i)")
  case True
  define r where "r = runtime_of s i"
  let ?t = "s\<lparr>ex_queue := (ex_queue s)(r := ex_queue s r @ [i]), ex_posted := (ex_posted s)(r := ex_posted s r @ [i])\<rparr>"
  note old = task_ok_of [OF inv i(1) refl]
  have rt: "runtime_of ?t = runtime_of s" by (rule ext) (simp add: runtime_of_def)
  then have "task_state view ?t j = task_state view s j" if "j \<noteq> i" for j
    using that by (simp add: task_state_def)
  moreover have "task_ok False (ex_woken ?t) (task_state view ?t i)"
    using old i rt by (auto simp: task_state_def r_def)
  moreover have "places_ok ?t"
    using exec_invD(3) [OF inv] i rt by (auto simp: places_ok_def r_def)
  moreover have "lanes_ordered seq ?t"
    using exec_invD(4) [OF inv] rt by (auto simp: lanes_ordered_def)
  ultimately have "exec_inv view seq None ?t"
    by (intro exec_inv_change [OF inv, where i = i and later = "[]"]) (use exec_invD(1) [OF inv] in simp_all)
  then show ?thesis using True by (simp add: schedule_def r_def Let_def)
qed (use drop_runnable_inv [OF laws inv i] in \<open>simp add: schedule_def\<close>)

lemma spawn_inv:
  assumes laws: "async_task_laws ops view" and inv: "exec_inv view seq None s"
  shows "exec_inv view seq None (runtime_spawn ops r s)"
proof -
  let ?n = "length (ex_tasks s)"
  let ?t = "s\<lparr>ex_tasks := ex_tasks s @ [ta_spawn ops], ex_tags := ex_tags s @ [tag_with ?n r],
     ex_handle := (ex_handle s)(?n := True), ex_due := (ex_due s)(?n := True)\<rparr>"
  note s = exec_invD [OF inv]
  have rt: "runtime_of ?t j = runtime_of s j" if "j < ?n" for j
    using that s(1) by (simp add: runtime_of_def nth_append)
  have new: "runtime_of ?t ?n = r" using s(1) by (simp add: runtime_of_def tag_with_def nth_append)
  have fresh: "count_list (ex_queue s r) ?n = 0" "count_list (ex_running s) ?n = 0" "ex_waiting s ?n = None" "ex_output s ?n = None"
    using s(3) by (auto simp: places_ok_def count_list_0_iff)
  have "task_ok (Some ?n = Some j) (ex_woken ?t) (task_state view ?t j)" if j: "j < Suc ?n" for j
  proof (cases "j = ?n")
    case True
    have "view (ta_spawn ops) = view_spawn" by (rule laws_spawn [OF laws])
    then show ?thesis
      using True fresh unfolding task_state_def new True
      by (simp add: view_spawn_def outcome_ok_def awaiter_ok_def)
  next
    case False
    then have "task_state view ?t j = task_state view s j"
      using j rt [of j] by (simp add: task_state_def nth_append)
    then show ?thesis using False j s(2) [of j] by simp
  qed
  moreover have "places_ok ?t"
    using s(3) rt by (fastforce simp: places_ok_def)
  moreover have "lanes_ordered seq ?t"
    using s(3,4) rt unfolding lanes_ordered_def places_ok_def by (simp, blast)
  ultimately have "exec_inv view seq (Some ?n) ?t"
    using s(1) by (simp add: exec_inv_def)
  moreover have "tv_phase (view (ex_tasks ?t ! ?n)) = Scheduled"
    using laws_spawn [OF laws] by (simp add: view_spawn_def)
  ultimately show ?thesis
    using schedule_inv [OF laws, of seq ?n ?t] by (simp add: runtime_spawn_def Let_def)
qed

text \<open>Taking a runnable out of its queue.\<close>

lemma count_remove_nth:
  assumes "p < length xs"
  shows "count_list (take p xs @ drop (Suc p) xs) x + (if xs ! p = x then 1 else 0) = count_list xs x"
proof -
  have "count_list xs x = count_list (take p xs @ xs ! p # drop (Suc p) xs) x"
    using assms by (simp add: id_take_nth_drop [symmetric])
  then show ?thesis by simp
qed

lemma take_out:
  assumes inv: "exec_inv view seq None s" and p: "p < length (ex_queue s r)" and i: "i = ex_queue s r ! p"
  shows "i < length (ex_tasks s)" "runtime_of s i = r" "tv_phase (view (ex_tasks s ! i)) = Scheduled"
    and "count_list (take p (ex_queue s r) @ drop (Suc p) (ex_queue s r)) i = 0"
    and "i \<notin> set (ex_running s)"
    and "set (take p (ex_queue s r) @ drop (Suc p) (ex_queue s r)) \<subseteq> set (ex_queue s r)"
proof -
  have mem: "i \<in> set (ex_queue s r)" using p i by simp
  then show n: "i < length (ex_tasks s)" and r: "runtime_of s i = r"
    using exec_invD(3) [OF inv] by (auto simp: places_ok_def)
  note old = task_ok_of [OF inv n refl]
  have "count_list (ex_queue s r) i \<noteq> 0" using mem by (simp add: count_list_0_iff)
  then show ph: "tv_phase (view (ex_tasks s ! i)) = Scheduled" using old(1) r by (simp split: if_splits)
  show "count_list (take p (ex_queue s r) @ drop (Suc p) (ex_queue s r)) i = 0"
    using count_remove_nth [OF p, of i] old(1) ph r i by simp
  show "i \<notin> set (ex_running s)" using old(2) ph by (simp add: count_list_0_iff)
  show "set (take p (ex_queue s r) @ drop (Suc p) (ex_queue s r)) \<subseteq> set (ex_queue s r)"
    by (rule set_remove_nth_subset)
qed

lemma take_out_others:
  assumes "p < length (ex_queue s r)" "j \<noteq> ex_queue s r ! p"
  shows "count_list (((ex_queue s)(r := take p (ex_queue s r) @ drop (Suc p) (ex_queue s r))) q) j = count_list (ex_queue s q) j"
  using count_remove_nth [OF assms(1), of j] assms(2) by auto

lemma discard_inv:
  assumes laws: "async_task_laws ops view" and inv: "exec_inv view seq None s"
    and p: "p < length (ex_queue s r)" "\<not> ex_open s r"
  shows "exec_inv view seq None (drop_runnable ops (ex_queue s r ! p)
    (s\<lparr>ex_queue := (ex_queue s)(r := take p (ex_queue s r) @ drop (Suc p) (ex_queue s r))\<rparr>))"
proof -
  define i where "i = ex_queue s r ! p"
  let ?t = "s\<lparr>ex_queue := (ex_queue s)(r := take p (ex_queue s r) @ drop (Suc p) (ex_queue s r))\<rparr>"
  note i = take_out [OF inv p(1) i_def] and old = task_ok_of [OF inv take_out(1) [OF inv p(1) i_def] refl]
  have rt: "runtime_of ?t = runtime_of s" by (rule ext) (simp add: runtime_of_def)
  have "task_state view ?t j = task_state view s j" if "j \<noteq> i" for j
    using take_out_others [OF p(1)] that rt by (simp add: task_state_def i_def)
  moreover have "task_ok True (ex_woken ?t) (task_state view ?t i)"
    using old i rt by (auto simp: task_state_def)
  moreover have "places_ok ?t"
    using exec_invD(3) [OF inv] rt i(6) unfolding places_ok_def by auto
  moreover have "lanes_ordered seq ?t"
    using exec_invD(4) [OF inv] rt p(2) by (auto simp: lanes_ordered_def)
  ultimately have "exec_inv view seq (Some i) ?t"
    by (intro exec_inv_change [OF inv, where i = i and later = "[]"]) (use exec_invD(1) [OF inv] in simp_all)
  from drop_runnable_inv [OF laws this] show ?thesis
    using i p(2) rt by (simp add: i_def)
qed

lemma begin_inv:
  assumes laws: "async_task_laws ops view" and inv: "exec_inv view seq None s"
    and p: "p < length (ex_queue s r)" "seq r \<longrightarrow> p = 0" "\<not> lane_busy seq r s"
  shows "exec_inv view seq None (begin_poll ops r p s)"
proof -
  define i where "i = ex_queue s r ! p"
  let ?t = "begin_poll ops r p s"
  note i = take_out [OF inv p(1) i_def] and old = task_ok_of [OF inv take_out(1) [OF inv p(1) i_def] refl]
  have rt: "runtime_of ?t = runtime_of s" by (rule ext) (simp add: runtime_of_def begin_poll_def Let_def)
  have v: "view (ta_run_begin ops (ex_tasks s ! i)) = (view (ex_tasks s ! i))\<lparr>tv_phase := Running False\<rparr>"
    by (rule laws_begin [OF laws i(3)])
  have "task_state view ?t j = task_state view s j" if "j \<noteq> i" for j
    using take_out_others [OF p(1), of j] that rt unfolding task_state_def
    by (simp add: begin_poll_def Let_def i_def)
  moreover have "task_ok False (ex_woken ?t) (task_state view ?t i)"
    using old i rt v unfolding task_state_def by (auto simp: begin_poll_def Let_def i_def outcome_ok_def awaiter_ok_def split: option.splits)
  moreover have "places_ok ?t"
    using exec_invD(3) [OF inv] rt i(1,6) unfolding places_ok_def
    by (auto simp: begin_poll_def Let_def i_def)
  moreover have "lanes_ordered seq ?t"
  proof -
    have "ex_posted s q = ex_begun ?t q @ ex_queue ?t q" if "seq q" "ex_open s q" for q
      using exec_invD(4) [OF inv] that p(1,2)
      by (cases "ex_queue s r") (auto simp: lanes_ordered_def begin_poll_def Let_def)
    then show ?thesis
      using exec_invD(4) [OF inv] rt p(3) i(2)
      unfolding lanes_ordered_def lane_busy_def by (auto simp: begin_poll_def Let_def i_def)
  qed
  ultimately show ?thesis
    by (intro exec_inv_change [OF inv, where i = i and later = "[]"])
      (use exec_invD(1) [OF inv] in \<open>simp_all add: begin_poll_def Let_def\<close>)
qed

lemma distinct_count: "(\<And>x. count_list xs x \<le> 1) \<Longrightarrow> distinct xs"
proof (induction xs)
  case (Cons a xs)
  have "count_list xs x \<le> 1" for x using Cons.prems [of x] by (simp split: if_splits)
  moreover have "a \<notin> set xs" using Cons.prems [of a] by (simp add: count_list_0_iff)
  ultimately show ?case using Cons.IH by simp
qed simp

lemma remove1_count:
  assumes "count_list xs i = 1"
  shows "count_list (remove1 i xs) j = (if j = i then 0 else count_list xs j)"
  using assms by simp

lemma end_inv:
  assumes laws: "async_task_laws ops view" and inv: "exec_inv view seq None s" and run: "i \<in> set (ex_running s)"
  shows "exec_inv view seq None (end_poll ops seq i e s)"
proof -
  have n: "i < length (ex_tasks s)" using exec_invD(3) [OF inv] run by (auto simp: places_ok_def)
  define v where "v = view (ex_tasks s ! i)"
  note old = task_ok_of [OF inv n v_def [symmetric]]
  obtain woken where ph: "tv_phase v = Running woken"
    using old(2) run by (cases "tv_phase v") (auto simp: count_list_0_iff)
  obtain sched w k where e: "ta_run_end ops e (ex_tasks s ! i) = (sched, w, k)" by (metis prod.exhaust)
  have ve: "sched = fst (view_end e woken v)" "w = fst (snd (view_end e woken v))" "view k = snd (snd (view_end e woken v))"
    using laws_end [OF laws _ e] ph by (simp_all add: v_def)
  let ?t = "wake_opt w (s\<lparr>ex_tasks := (ex_tasks s)[i := k], ex_running := remove1 i (ex_running s),
    ex_output := (ex_output s)(i := if e = Yielded then None else Some e),
    ex_live := (\<lambda>r. ex_live s r \<and> \<not> (e = Panicked \<and> seq r \<and> r = runtime_of s i))\<rparr>)"
  have rt: "runtime_of ?t = runtime_of s" by (rule ext) (simp add: runtime_of_def)
  have cnt: "count_list (ex_running s) i = 1" using old(2) ph by simp
  have "task_state view ?t j = task_state view s j" if "j \<noteq> i" for j
    using that rt remove1_count [OF cnt, of j] by (simp add: task_state_def)
  moreover have "awaiter_ok (view k) (ex_waiting s i) (ex_woken ?t)"
    using wait_ok_wakes [OF old(5), of "view k"] old(5) ve ph
    by (cases e) (auto simp: awaiter_ok_def split: option.splits)
  then have "task_ok sched (ex_woken ?t) (task_state view ?t i)"
    using old n ve ph rt remove1_count [OF cnt, of i]
    by (cases e) (auto simp: task_state_def outcome_ok_def)
  moreover have "set (remove1 i (ex_running s)) \<subseteq> set (ex_running s)" by (rule set_remove1_subset)
  then have "places_ok ?t"
    using exec_invD(3) [OF inv] rt n unfolding places_ok_def by auto
  moreover have "lanes_ordered seq ?t"
    by (rule lanes_cong [OF exec_invD(4) [OF inv]]) (simp_all add: set_remove1_subset)
  ultimately have t: "exec_inv view seq (if sched then Some i else None) ?t"
    by (intro exec_inv_change [OF inv, where i = i]) (use exec_invD(1) [OF inv] in \<open>cases sched; simp\<close>)+
  show ?thesis
  proof (cases sched)
    case True
    then have "tv_phase (view (ex_tasks ?t ! i)) = Scheduled" using n ve by (cases e) auto
    then show ?thesis
      using schedule_inv [OF laws, of seq i ?t] t True n e by (simp add: end_poll_def)
  qed (use t e in \<open>simp add: end_poll_def\<close>)
qed

lemma wake_task_inv:
  assumes laws: "async_task_laws ops view" and inv: "exec_inv view seq None s" and n: "i < length (ex_tasks s)"
  shows "exec_inv view seq None (wake_task ops i s)"
proof -
  define v where "v = view (ex_tasks s ! i)"
  note old = task_ok_of [OF inv n v_def [symmetric]]
  obtain sched k where w: "ta_wake ops (ex_tasks s ! i) = (sched, k)" by (metis prod.exhaust)
  have vw: "sched = fst (view_wake v)" "view k = snd (view_wake v)" using laws_wake [OF laws w] by (simp_all add: v_def)
  let ?t = "s\<lparr>ex_tasks := (ex_tasks s)[i := k], ex_due := (ex_due s)(i := True)\<rparr>"
  have rt: "runtime_of ?t = runtime_of s" by (rule ext) (simp add: runtime_of_def)
  have "task_state view ?t j = task_state view s j" if "j \<noteq> i" for j
    using that rt by (simp add: task_state_def)
  moreover have "task_ok sched (ex_woken ?t) (task_state view ?t i)"
    using old n vw rt
    by (cases "tv_phase v") (auto simp: task_state_def outcome_ok_def view_wake_def awaiter_ok_def split: option.splits)
  moreover have "places_ok ?t"
    using exec_invD(3) [OF inv] rt n unfolding places_ok_def by auto
  moreover have "lanes_ordered seq ?t" by (rule lanes_cong [OF exec_invD(4) [OF inv]]) simp_all
  ultimately have t: "exec_inv view seq (if sched then Some i else None) ?t"
    by (intro exec_inv_change [OF inv, where i = i and later = "[]"]) (use exec_invD(1) [OF inv] in \<open>cases sched; simp\<close>)+
  show ?thesis
  proof (cases sched)
    case True
    then have "tv_phase (view (ex_tasks ?t ! i)) = Scheduled"
      using n vw by (cases "tv_phase v") (auto simp: view_wake_def)
    then show ?thesis
      using schedule_inv [OF laws, of seq i ?t] t True n w by (simp add: wake_task_def)
  qed (use t w in \<open>simp add: wake_task_def\<close>)
qed

lemma join_poll_inv:
  assumes laws: "async_task_laws ops view" and inv: "exec_inv view seq None s" and n: "i < length (ex_tasks s)"
  shows "exec_inv view seq None (snd (join_poll ops i wk s))"
proof -
  define v where "v = view (ex_tasks s ! i)"
  note old = task_ok_of [OF inv n v_def [symmetric]]
  obtain r k where p: "ta_poll ops wk (ex_tasks s ! i) = (r, k)" by (metis prod.exhaust)
  have vp: "r = fst (view_poll wk v)" "view k = snd (view_poll wk v)" using laws_poll [OF laws p] by (simp_all add: v_def)
  let ?t = "s\<lparr>ex_tasks := (ex_tasks s)[i := k],
     ex_waiting := (ex_waiting s)(i := case r of Pending \<Rightarrow> Some (wk, length (ex_woken s)) | Ready _ \<Rightarrow> None)\<rparr>"
  have rt: "runtime_of ?t = runtime_of s" by (rule ext) (simp add: runtime_of_def)
  have "task_state view ?t j = task_state view s j" if "j \<noteq> i" for j
    using that rt by (simp add: task_state_def)
  moreover have "task_ok False (ex_woken ?t) (task_state view ?t i)"
    using old n vp rt
    by (cases "tv_phase v") (auto simp: task_state_def outcome_ok_def view_poll_def awaiter_ok_def split: option.splits)
  moreover have "places_ok ?t"
    using exec_invD(3) [OF inv] rt n unfolding places_ok_def by auto
  moreover have "lanes_ordered seq ?t" by (rule lanes_cong [OF exec_invD(4) [OF inv]]) simp_all
  ultimately have "exec_inv view seq None ?t"
    by (intro exec_inv_change [OF inv, where i = i and later = "[]"]) (use exec_invD(1) [OF inv] in simp_all)
  then show ?thesis using p by (simp add: join_poll_def)
qed

lemma join_drop_inv:
  assumes laws: "async_task_laws ops view" and inv: "exec_inv view seq None s" and n: "i < length (ex_tasks s)"
  shows "exec_inv view seq None (join_drop ops i s)"
proof -
  note old = task_ok_of [OF inv n refl]
  let ?t = "join_drop ops i s"
  have rt: "runtime_of ?t = runtime_of s" by (rule ext) (simp add: runtime_of_def join_drop_def)
  have "task_state view ?t j = task_state view s j" if "j \<noteq> i" for j
    using that rt unfolding task_state_def by (simp add: join_drop_def)
  moreover have "task_ok False (ex_woken ?t) (task_state view ?t i)"
    using old n rt laws_detach [OF laws] unfolding task_state_def by (auto simp: join_drop_def awaiter_ok_def)
  moreover have "places_ok ?t"
    using exec_invD(3) [OF inv] rt n unfolding places_ok_def by (auto simp: join_drop_def)
  moreover have "lanes_ordered seq ?t" by (rule lanes_cong [OF exec_invD(4) [OF inv]]) (simp_all add: join_drop_def)
  ultimately show ?thesis
    by (intro exec_inv_change [OF inv, where i = i and later = "[]"])
      (use exec_invD(1) [OF inv] in \<open>simp_all add: join_drop_def\<close>)
qed

lemma close_inv:
  assumes inv: "exec_inv view seq None s"
  shows "exec_inv view seq None (s\<lparr>ex_open := (ex_open s)(r := False)\<rparr>)"
proof -
  let ?t = "s\<lparr>ex_open := (ex_open s)(r := False)\<rparr>"
  have rt: "runtime_of ?t = runtime_of s" by (rule ext) (simp add: runtime_of_def)
  have "task_ok False (ex_woken ?t) (task_state view ?t j)" if "j < length (ex_tasks s)" for j
    using exec_invD(2) [OF inv that] rt
    by (auto simp: task_state_def outcome_ok_def split: phase.splits option.splits)
  moreover have "places_ok ?t" by (rule places_cong [OF exec_invD(3) [OF inv]]) simp_all
  moreover have "lanes_ordered seq ?t" by (rule lanes_cong [OF exec_invD(4) [OF inv]]) (auto split: if_splits)
  ultimately show ?thesis using exec_invD(1) [OF inv] by (simp add: exec_inv_def)
qed

lemma lose_inv:
  assumes inv: "exec_inv view seq None s"
  shows "exec_inv view seq None (s\<lparr>ex_live := live\<rparr>)"
proof -
  let ?t = "s\<lparr>ex_live := live\<rparr>"
  have "task_ok False (ex_woken ?t) (task_state view ?t j)" if "j < length (ex_tasks s)" for j
    using exec_invD(2) [OF inv that] by (simp add: task_state_def runtime_of_def)
  moreover have "places_ok ?t" by (rule places_cong [OF exec_invD(3) [OF inv]]) simp_all
  moreover have "lanes_ordered seq ?t" by (rule lanes_cong [OF exec_invD(4) [OF inv]]) simp_all
  ultimately show ?thesis using exec_invD(1) [OF inv] by (simp add: exec_inv_def)
qed

lemma exec_inv_step:
  assumes laws: "async_task_laws ops view" and inv: "exec_inv view seq None s"
    and step: "exec_step ops seq glob l s = Some t"
  shows "exec_inv view seq None t"
proof (cases l)
  case (SpawnIn c)
  then show ?thesis
    using step spawn_inv [OF laws inv] by (cases c) (auto simp: executor_spawn_def split: if_splits)
qed (use step spawn_inv [OF laws inv] begin_inv [OF laws inv] end_inv [OF laws inv] wake_task_inv [OF laws inv]
      join_poll_inv [OF laws inv] join_drop_inv [OF laws inv] discard_inv [OF laws inv] close_inv [OF inv] lose_inv [OF inv]
    in \<open>auto split: if_splits\<close>)

lemma exec_inv_init: "exec_init s \<Longrightarrow> exec_inv view seq None s"
  by (simp add: exec_init_def exec_new_def exec_inv_def places_ok_def lanes_ordered_def)

lemma reach_exec_inv:
  assumes "async_task_laws ops view" "reach exec_init (exec_step ops seq glob) s"
  shows "exec_inv view seq None s"
  using assms(2) by (induction rule: reach.induct) (blast intro: exec_inv_init exec_inv_step [OF assms(1)])+

section \<open>A posted task gets its turn\<close>

lemma runtime_of_steps [simp]:
  "runtime_of (begin_poll ops r p s) = runtime_of s" "runtime_of (end_poll ops seq i e s) = runtime_of s"
  by (auto simp: fun_eq_iff runtime_of_def begin_poll_def end_poll_def schedule_def drop_runnable_def Let_def
      split: prod.split)

lemma live_steps [simp]:
  "ex_live (drop_runnable ops i s) = ex_live s" "ex_live (schedule ops i s) = ex_live s"
  "ex_live (begin_poll ops r p s) = ex_live s"
  "ex_live (end_poll ops seq i e s) = (\<lambda>r. ex_live s r \<and> \<not> (e = Panicked \<and> seq r \<and> r = runtime_of s i))"
  by (auto simp: begin_poll_def end_poll_def schedule_def drop_runnable_def Let_def split: prod.split)



lemma running_phase:
  assumes "exec_inv view seq missing s" "i \<in> set (ex_running s)"
  shows "i < length (ex_tasks s)" "\<exists>woken. tv_phase (view (ex_tasks s ! i)) = Running woken"
proof -
  show n: "i < length (ex_tasks s)" using exec_invD(3) [OF assms(1)] assms(2) by (auto simp: places_ok_def)
  show "\<exists>woken. tv_phase (view (ex_tasks s ! i)) = Running woken"
    using task_ok_of(2) [OF assms(1) n refl] assms(2)
    by (cases "tv_phase (view (ex_tasks s ! i))") (auto simp: count_list_0_iff)
qed






section \<open>Properties\<close>


text \<open>
  C27. A spawned future is polled by one thread at a time and stays with its runtime: over all
  runners its runnable is posted at most once, only to the runtime it was spawned on, and not while
  it is being polled; a sequenced runtime polls one future at a time and in the order of the posts.
\<close>
theorem task_stays_on_its_runtime:
  assumes "async_task_laws ops view" "reach exec_init (exec_step ops seq glob) s"
  shows "distinct (ex_running s) \<and> distinct (ex_queue s r) \<and>
    (\<forall>i\<in>set (ex_queue s r). runtime_of s i = r \<and> i \<notin> set (ex_running s)) \<and>
    (seq r \<and> ex_open s r \<longrightarrow> ex_posted s r = ex_begun s r @ ex_queue s r) \<and>
    (seq r \<longrightarrow> card {i \<in> set (ex_running s). runtime_of s i = r} \<le> 1)"
proof -
  have inv: "exec_inv view seq None s" by (rule reach_exec_inv [OF assms])
  have "count_list (ex_running s) i \<le> 1" for i
  proof (cases "i \<in> set (ex_running s)")
    case True
    then show ?thesis using task_ok_of(2) [OF inv running_phase(1) [OF inv True] refl] by simp
  qed (simp add: count_list_0_iff)
  moreover have mem: "i < length (ex_tasks s) \<and> runtime_of s i = r" if "i \<in> set (ex_queue s r)" for i
    using exec_invD(3) [OF inv] that by (simp add: places_ok_def)
  moreover have "count_list (ex_queue s r) i \<le> 1 \<and> i \<notin> set (ex_running s)" if "i \<in> set (ex_queue s r)" for i
  proof -
    note old = task_ok_of [OF inv conjunct1 [OF mem [OF that]] refl]
    have "count_list (ex_queue s r) i \<noteq> 0" using that by (simp add: count_list_0_iff)
    then show ?thesis using old(1,2) mem [OF that] by (auto simp: count_list_0_iff split: if_splits)
  qed
  moreover have "count_list (ex_queue s r) i \<le> 1" for i
    using calculation(3) [of i] by (cases "i \<in> set (ex_queue s r)") (auto simp: count_list_0_iff)
  moreover have "card {i \<in> set (ex_running s). runtime_of s i = r} \<le> 1" if "seq r"
  proof -
    have "finite {i \<in> set (ex_running s). runtime_of s i = r}" by simp
    then show ?thesis
      using exec_invD(4) [OF inv] that unfolding lanes_ordered_def One_nat_def by (subst card_le_Suc0_iff_eq) auto
  qed
  ultimately show ?thesis
    using exec_invD(4) [OF inv] by (auto simp: lanes_ordered_def intro: distinct_count)
qed

text \<open>
  A \<open>JoinHandle\<close> delivers: it is ready with a value only when the future returned that value, it is
  pending only while the future has not ended, it panics only when the future panicked, its runner
  was shut down, or the value was taken before; and a waker whose poll of the handle was pending has
  been woken when the future has ended.
\<close>
theorem join_handle_gets_output:
  assumes "async_task_laws ops view" "reach exec_init (exec_step ops seq glob) s"
    and i: "i < length (ex_tasks s)" and "join_poll ops i wk s = (r, t)"
  shows "(\<forall>x. r = Ready (Joined x) \<longrightarrow> ex_output s i = Some (Returned x)) \<and> (r = Pending \<longrightarrow> ex_output s i = None) \<and>
    (r = Ready JoinPanic \<longrightarrow> ex_output s i = Some Panicked \<or> \<not> ex_open s (runtime_of s i) \<or> (\<exists>x. ex_output s i = Some (Returned x))) \<and>
    (\<forall>wk' since. ex_waiting s i = Some (wk', since) \<and> ex_output s i \<noteq> None \<longrightarrow> wk' \<in> set (drop since (ex_woken s)))"
proof -
  have inv: "exec_inv view seq None s" by (rule reach_exec_inv [OF assms(1,2)])
  define v where "v = view (ex_tasks s ! i)"
  note old = task_ok_of [OF inv i v_def [symmetric]]
  have r: "r = fst (view_poll wk v)"
    using laws_poll [OF assms(1)] assms(4) by (cases "ta_poll ops wk (ex_tasks s ! i)") (auto simp: join_poll_def v_def)
  show ?thesis
    using old(4,5) r
    by (cases "tv_phase v") (auto simp: view_poll_def outcome_ok_def awaiter_ok_def split: option.splits)
qed

text \<open>A spawn made inside a poll goes to the runtime of the polled task.\<close>

lemma executor_spawn_inherits:
  assumes "length (ex_tags s) = length (ex_tasks s)"
  shows "runtime_of (executor_spawn ops glob (Some ctx) s) (length (ex_tasks s)) = cx_runtime ctx"
    and "runtime_of (executor_spawn ops glob None s) (length (ex_tasks s)) = glob"
  using assms
  by (auto simp: executor_spawn_def runtime_spawn_def schedule_def drop_runnable_def runtime_of_def tag_with_def Let_def
      current_or_global_def current_runtime_def nth_append split: prod.split)

text \<open>
  What the closure of \<open>Runtime::new\<close> ignores: when the runner refuses a post, the runnable is
  dropped and the task is closed.  A future that is spawned on a runtime whose runner was shut down
  is never polled and the first poll of its handle panics.
\<close>
theorem spawn_after_shutdown_panics_awaiter:
  assumes laws: "async_task_laws ops view" and "reach exec_init (exec_step ops seq glob) s" and closed: "\<not> ex_open s r"
  shows "fst (join_poll ops (length (ex_tasks s)) wk (runtime_spawn ops r s)) = Ready JoinPanic \<and>
    ex_queue (runtime_spawn ops r s) = ex_queue s"
proof -
  have n: "length (ex_tags s) = length (ex_tasks s)" by (rule exec_invD(1) [OF reach_exec_inv [OF assms(1,2)]])
  obtain w k where d: "ta_drop_runnable ops (ta_spawn ops) = (w, k)" by (rule prod.exhaust)
  have "view k = \<lparr>tv_phase = Closed, tv_awaiter = None\<rparr>"
    using laws_drop [OF laws _ d] laws_spawn [OF laws] by (simp add: view_spawn_def view_drop_runnable_def)
  then have "fst (ta_poll ops wk k) = Ready JoinPanic"
    using laws_poll [OF laws, of wk k] by (cases "ta_poll ops wk k") (auto simp: view_poll_def)
  then show ?thesis
    using closed n d
    by (auto simp: runtime_spawn_def schedule_def drop_runnable_def runtime_of_def tag_with_def join_poll_def Let_def
        nth_append list_update_append split: prod.split)
qed

text \<open>
  A panic is not confined to the task that panics.  Once a poll on a sequenced runtime, or on an IO
  thread, has panicked, no future of that runtime is ever polled again, whatever is spawned on it or
  woken: the closure of \<open>Runtime::new\<close> calls \<open>r.run()\<close> with no \<open>catch_unwind\<close>.
\<close>

lemma dead_lane_step:
  assumes "exec_step ops seq glob l s = Some t" "\<not> ex_live s r"
  shows "\<not> ex_live t r \<and> ex_begun t r = ex_begun s r"
proof (cases l)
  case (SpawnIn c)
  then show ?thesis
    using assms by (cases c) (auto simp: executor_spawn_def runtime_spawn_def schedule_def drop_runnable_def Let_def
      split: if_splits prod.splits)
qed (use assms in \<open>auto simp: runtime_spawn_def begin_poll_def end_poll_def wake_task_def join_poll_def join_drop_def
    schedule_def drop_runnable_def Let_def split: if_splits prod.splits\<close>)

lemma dead_lane_run:
  "run (exec_step ops seq glob) ls s = Some t \<Longrightarrow> \<not> ex_live s r \<Longrightarrow> ex_begun t r = ex_begun s r"
proof (induction ls arbitrary: s)
  case (Cons l ls)
  then obtain u where u: "exec_step ops seq glob l s = Some u" "run (exec_step ops seq glob) ls u = Some t"
    by (auto split: option.splits)
  show ?case using dead_lane_step [OF u(1) Cons.prems(2)] Cons.IH [OF u(2)] by simp
qed simp

theorem panic_strands_sequenced_runtime:
  assumes "i \<in> set (ex_running s)" "seq (runtime_of s i)"
    and "run (exec_step ops seq glob) (EndPoll i Panicked # ls) s = Some t"
  shows "ex_begun t (runtime_of s i) = ex_begun s (runtime_of s i)"
proof -
  have "ex_begun (end_poll ops seq i Panicked s) = ex_begun s"
    by (auto simp: end_poll_def schedule_def drop_runnable_def Let_def split: prod.split)
  then show ?thesis
    using assms dead_lane_run [of ops seq glob ls "end_poll ops seq i Panicked s" t "runtime_of s i"] by simp
qed

section \<open>Examples\<close>

text \<open>The laws can hold: the operations on views themselves.\<close>

definition view_ops :: "('v task_view, 'v) async_task" where
  "view_ops = \<lparr>ta_spawn = view_spawn, ta_run_begin = (\<lambda>v. v\<lparr>tv_phase := Running False\<rparr>),
     ta_run_end = (\<lambda>e v. view_end e (tv_phase v = Running True) v), ta_wake = view_wake,
     ta_drop_runnable = view_drop_runnable, ta_poll = view_poll, ta_detach = (\<lambda>v. v)\<rparr>"

lemma view_ops_laws: "async_task_laws view_ops (\<lambda>v. v)"
  by (simp add: async_task_laws_def view_ops_def)

text \<open>
  A sequenced runtime (number 1): task 0 is polled, spawns task 1 and is woken while it runs; its
  handle is polled with waker 9.
\<close>

definition demo_exec_step :: "nat exec_label \<Rightarrow> (nat task_view, nat) exec_sys \<Rightarrow> (nat task_view, nat) exec_sys option" where
  "demo_exec_step = exec_step view_ops (\<lambda>r. r = 1) 0"

definition demo_exec_labels :: "nat exec_label list" where
  "demo_exec_labels = [SpawnOn 1, BeginPoll 1 0, SpawnIn (Some 0), WakeTask 0, PollHandle 0 9]"

lemma demo_exec_facts:
  "case run demo_exec_step demo_exec_labels exec_new of
     None \<Rightarrow> False
   | Some s \<Rightarrow> ex_due s 0 \<and> ex_output s 0 = None \<and> ex_open s (runtime_of s 0) \<and> ex_live s (runtime_of s 0) \<and> ex_running s = [0] \<and>
       ex_queue s 1 = [1] \<and> length (ex_tasks s) = 2"
  "case run demo_exec_step [SpawnOn 1, BeginPoll 1 0, PollHandle 0 9, EndPoll 0 (Returned 42)] exec_new of
     None \<Rightarrow> False
   | Some s \<Rightarrow> length (ex_tasks s) = 1 \<and> fst (join_poll view_ops 0 9 s) = Ready (Joined 42) \<and> ex_waiting s 0 = Some (9, 0) \<and>
       ex_woken s = [9]"
  "case run demo_exec_step [CloseRunner 3] exec_new of None \<Rightarrow> False | Some s \<Rightarrow> \<not> ex_open s 3 \<and> ex_tasks s = []"
  by code_simp+

lemma demo_exec_reach:
  "run demo_exec_step ls exec_new = Some s \<Longrightarrow> reach exec_init (exec_step view_ops (\<lambda>r. r = 1) 0) s"
  unfolding demo_exec_step_def by (rule reach_init_run [where s = exec_new]) (simp_all add: exec_init_def)


theorem task_stays_on_its_runtime_witness:
  "\<exists>s. run demo_exec_step demo_exec_labels exec_new = Some s \<and> ex_queue s 1 = [1] \<and> runtime_of s 1 = 1 \<and>
     ex_posted s 1 = ex_begun s 1 @ ex_queue s 1"
proof -
  obtain s where s: "run demo_exec_step demo_exec_labels exec_new = Some s" "ex_queue s 1 = [1]"
    "ex_open s (runtime_of s 0)"
    using demo_exec_facts(1) by (auto split: option.splits)
  have "case run demo_exec_step demo_exec_labels exec_new of None \<Rightarrow> False | Some s \<Rightarrow> ex_open s 1" by code_simp
  then have "ex_open s 1" using s(1) by simp
  then show ?thesis
    using task_stays_on_its_runtime [OF view_ops_laws demo_exec_reach [OF s(1)], of 1] s(1,2) by simp
qed

theorem join_handle_gets_output_witness:
  "\<exists>s. run demo_exec_step [SpawnOn 1, BeginPoll 1 0, PollHandle 0 9, EndPoll 0 (Returned 42)] exec_new = Some s \<and>
     ex_output s 0 = Some (Returned 42)"
proof -
  obtain s where s: "run demo_exec_step [SpawnOn 1, BeginPoll 1 0, PollHandle 0 9, EndPoll 0 (Returned 42)] exec_new = Some s"
    "length (ex_tasks s) = 1" "fst (join_poll view_ops 0 9 s) = Ready (Joined 42)"
    using demo_exec_facts(2) by (auto split: option.splits)
  have "0 < length (ex_tasks s)" using s(2) by simp
  from join_handle_gets_output [OF view_ops_laws demo_exec_reach [OF s(1)] this surjective_pairing]
  show ?thesis using s(1,3) by blast
qed

theorem spawn_after_shutdown_panics_awaiter_witness:
  "\<exists>s. run demo_exec_step [CloseRunner 3] exec_new = Some s \<and>
     fst (join_poll view_ops 0 9 (runtime_spawn view_ops 3 s)) = Ready JoinPanic"
proof -
  obtain s where s: "run demo_exec_step [CloseRunner 3] exec_new = Some s" "\<not> ex_open s 3" "ex_tasks s = []"
    using demo_exec_facts(3) by (auto split: option.splits)
  show ?thesis
    using spawn_after_shutdown_panics_awaiter [OF view_ops_laws demo_exec_reach [OF s(1)] s(2), of 9] s(1,3) by simp
qed

end
