(* ===== verification/Async_File_Writes.thy ===== *)
theory Async_File_Writes
  imports Async_File_Model "HOL-Library.Sublist"
begin

text \<open>
  Writing through the cursor of a \<open>File\<close> (\<open>poll_write\<close> of \<open>rust_async/fs.rs\<close>): the polls of the task, the job on
  the blocking pool and the content of the file as one machine.  The job may run before the first
  poll of its channel or at any time later; it writes all of its data, or fails after a part of it.
  A task may give up a write; the job then stays in the busy slot of the \<open>File\<close> and the next write
  finds it.

  \<open>write_all_at\<close> is \<open>FileExt::write_all_at\<close> of the standard library, a loop of \<open>pwrite\<close> calls, on a file that
  nobody else writes.  It writes at the offset it is given; on a file that was opened with
  \<open>OpenOptions::append(true)\<close> Linux appends the data whatever the offset is, as the documentation of
  \<open>FileExt::write_at\<close> says.
\<close>

section \<open>The machine\<close>

text \<open>
  \<open>wr_append\<close> is the append flag of the open file.  The last four fields record the run: the bytes of the
  jobs whose success a poll returned, the bytes the callers were told are written (the first \<open>n\<close> of the
  buffer they passed, for an answer \<open>n\<close>), whether a poll ever answered for a job with other bytes than
  its own buffer, and whether a job failed.
\<close>

record write_sys =
  wr_file :: afile
  wr_content :: "byte list"
  wr_append :: bool
  wr_jobs :: "byte list"
  wr_done :: "byte list"
  wr_mixed :: bool
  wr_failed :: bool

text \<open>
  What \<open>write_all_at\<close> does: \<open>None\<close> writes everything, \<open>Some (k, e)\<close> fails with \<open>e\<close> after \<open>k\<close> bytes.  No file reaches
  beyond the largest \<open>off_t\<close>.
\<close>

definition write_all_at ::
    "bool \<Rightarrow> (nat \<times> io_error) option \<Rightarrow> u64 \<times> byte list \<Rightarrow> byte list \<Rightarrow> nat io_result \<times> byte list" where
  "write_all_at app fault op content =
     (let place = (if app then length content else unat (fst op))
      in if 2 ^ 63 \<le> uint (fst op) + int (length (snd op)) \<or> 2 ^ 63 \<le> int place + int (length (snd op))
         then (Inl (Os 27), content)
         else case fault of
                None \<Rightarrow> (Inr (length (snd op)), write_at content place (snd op))
              | Some (k, e) \<Rightarrow> (Inl e, write_at content place (take k (snd op))))"

datatype write_label =
    PollWrite waker "byte list" "(nat \<times> io_error) option option"
  | RunWrite "(nat \<times> io_error) option"

text \<open>What a poll with the buffer \<open>buf\<close> leaves, when the job it waited for has the data of \<open>op\<close>.\<close>

definition reported :: "byte list \<Rightarrow> u64 \<times> byte list \<Rightarrow> nat io_result poll \<times> afile \<Rightarrow> write_sys \<Rightarrow> write_sys" where
  "reported buf op ans s =
     (case ans of
        (Ready (Inr n), f) \<Rightarrow>
          s\<lparr>wr_file := f, wr_jobs := wr_jobs s @ take n (snd op), wr_done := wr_done s @ take n buf,
            wr_mixed := (wr_mixed s \<or> snd op \<noteq> buf)\<rparr>
      | (_, f) \<Rightarrow> s\<lparr>wr_file := f\<rparr>)"

definition write_job_done :: "nat io_result \<Rightarrow> byte list \<Rightarrow> write_sys \<Rightarrow> write_sys" where
  "write_job_done res content s = s\<lparr>wr_content := content, wr_failed := (wr_failed s \<or> isl res)\<rparr>"

fun write_step :: "write_label \<Rightarrow> write_sys \<Rightarrow> write_sys option" where
  "write_step (PollWrite wk buf fast) s =
     (let op = (case af_write_busy (wr_file s) of Some j \<Rightarrow> fst j | None \<Rightarrow> (af_pos (wr_file s), buf))
      in case fast of
           None \<Rightarrow> Some (reported buf op (poll_write None wk buf (wr_file s)) s)
         | Some fault \<Rightarrow>
             if af_write_busy (wr_file s) \<noteq> None then None
             else (case write_all_at (wr_append s) fault op (wr_content s) of
                     (res, content) \<Rightarrow>
                       Some (reported buf op (poll_write (Some res) wk buf (wr_file s)) (write_job_done res content s))))"
| "write_step (RunWrite fault) s =
     (case af_write_busy (wr_file s) of
        Some (op, c) \<Rightarrow>
          if ce_value c = None
          then (case write_all_at (wr_append s) fault op (wr_content s) of
                  (res, content) \<Rightarrow>
                    Some ((write_job_done res content s)
                      \<lparr>wr_file := (wr_file s)\<lparr>af_write_busy := Some (op, snd (setter_set res c))\<rparr>\<rparr>))
          else None
      | None \<Rightarrow> None)"

definition write_start :: "bool \<Rightarrow> byte list \<Rightarrow> nat \<Rightarrow> write_sys" where
  "write_start app content start =
     \<lparr>wr_file = file_from_std\<lparr>af_pos := of_nat start\<rparr>, wr_content = content, wr_append = app, wr_jobs = [],
      wr_done = [], wr_mixed = False, wr_failed = False\<rparr>"

definition write_init :: "bool \<Rightarrow> byte list \<Rightarrow> nat \<Rightarrow> write_sys \<Rightarrow> bool" where
  "write_init app content start s \<longleftrightarrow> start < 2 ^ 64 \<and> s = write_start app content start"

section \<open>Writes to a content\<close>

lemma write_at_take:
  "off \<le> length (write_at content off data)" "take off (write_at content off data) = take off (content @ replicate (off - length content) 0)"
  by (auto simp: write_at_def)

lemma write_at_data: "take (length data) (drop off (write_at content off data)) = data"
  by (simp add: write_at_def)

lemma write_at_length: "off + length data \<le> length (write_at content off data)"
  by (simp add: write_at_def)

text \<open>
  A write at the end of what counts keeps it and, when it is complete, adds to it.  \<open>holds_writes c start base
  done\<close> says that \<open>c\<close> has \<open>done\<close> at \<open>start\<close>, behind the first \<open>start\<close> bytes of \<open>base\<close>.
\<close>

definition holds_writes :: "byte list \<Rightarrow> nat \<Rightarrow> byte list \<Rightarrow> byte list \<Rightarrow> bool" where
  "holds_writes c start base done \<longleftrightarrow>
     take (start + length done) (c @ replicate (start - length c) 0) =
     take start (base @ replicate (start - length base) 0) @ done"

lemma holds_init: "holds_writes base start base []"
  by (simp add: holds_writes_def)

lemma holds_length:
  assumes "holds_writes c start base done" "done \<noteq> []"
  shows "start + length done \<le> length c"
proof -
  have "length (take (start + length done) (c @ replicate (start - length c) 0)) = start + length done"
    using assms(1) unfolding holds_writes_def by simp
  then show ?thesis using assms(2) by (cases "start \<le> length c") auto
qed

lemma holds_write:
  assumes h: "holds_writes c start base done"
  shows "holds_writes (write_at c (start + length done) data) start base done"
    and "holds_writes (write_at c (start + length done) data) start base (done @ data)"
proof -
  let ?p = "start + length done"
  let ?c' = "write_at c ?p data"
  have len: "start \<le> length ?c'" "?p \<le> length ?c'" using write_at_take(1) [of ?p c data] by auto
  have pad: "take ?p (c @ replicate (?p - length c) 0) = take ?p (c @ replicate (start - length c) 0)"
    using holds_length [OF h] by (cases "done = []") simp_all
  have t: "take ?p ?c' = take start (base @ replicate (start - length base) 0) @ done"
    using write_at_take(2) [of ?p c data] pad h by (simp add: holds_writes_def)
  then show "holds_writes ?c' start base done" using len by (simp add: holds_writes_def)
  have "take (?p + length data) ?c' = take ?p ?c' @ take (length data) (drop ?p ?c')" by (rule take_add)
  also have "\<dots> = take start (base @ replicate (start - length base) 0) @ done @ data"
    using t write_at_data [of data ?p c] by simp
  finally show "holds_writes ?c' start base (done @ data)" using len by (simp add: holds_writes_def add.assoc)
qed

lemma holds_partial:
  "holds_writes c start base done \<Longrightarrow> holds_writes (write_at c (start + length done) (take k data)) start base done"
  by (rule holds_write(1))

section \<open>The invariant\<close>

text \<open>Where the bytes of the finished jobs are: at \<open>start\<close>, or in order behind the old content.\<close>

definition placed :: "bool \<Rightarrow> byte list \<Rightarrow> nat \<Rightarrow> byte list \<Rightarrow> byte list \<Rightarrow> bool" where
  "placed app base start content bytes \<longleftrightarrow>
     (if app then \<exists>tail. content = base @ tail \<and> subseq bytes tail else holds_writes content start base bytes)"

text \<open>The bytes of a job that is done and that no poll has asked for its result yet.\<close>

definition unreported :: "write_sys \<Rightarrow> byte list" where
  "unreported s =
     (case af_write_busy (wr_file s) of
        Some (op, c) \<Rightarrow> (case ce_value c of Some (Inr n) \<Rightarrow> snd op | _ \<Rightarrow> [])
      | None \<Rightarrow> [])"

definition write_job_ok :: "byte list \<Rightarrow> nat \<Rightarrow> write_sys \<Rightarrow> (u64 \<times> byte list, nat) job \<Rightarrow> bool" where
  "write_job_ok base start s j \<longleftrightarrow>
     fst (fst j) = af_pos (wr_file s) \<and>
     (\<forall>n. ce_value (snd j) = Some (Inr n) \<longrightarrow>
        n = length (snd (fst j)) \<and> start + length (wr_jobs s) + n < 2 ^ 63 \<and>
        placed (wr_append s) base start (wr_content s) (wr_jobs s @ snd (fst j)))"

definition write_base :: "byte list \<Rightarrow> nat \<Rightarrow> write_sys \<Rightarrow> bool" where
  "write_base base start s \<longleftrightarrow>
     unat (af_pos (wr_file s)) = start + length (wr_jobs s) \<and>
     placed (wr_append s) base start (wr_content s) (wr_jobs s) \<and> (\<not> wr_mixed s \<longrightarrow> wr_done s = wr_jobs s)"

definition exact_tail :: "byte list \<Rightarrow> write_sys \<Rightarrow> byte list \<Rightarrow> bool" where
  "exact_tail base s extra \<longleftrightarrow> (wr_append s \<and> \<not> wr_failed s \<longrightarrow> wr_content s = base @ wr_jobs s @ extra)"

definition write_inv :: "bool \<Rightarrow> byte list \<Rightarrow> nat \<Rightarrow> write_sys \<Rightarrow> bool" where
  "write_inv app base start s \<longleftrightarrow>
     wr_append s = app \<and> write_base base start s \<and> exact_tail base s (unreported s) \<and>
     (\<forall>j. af_write_busy (wr_file s) = Some j \<longrightarrow> write_job_ok base start s j)"

lemma placed_write:
  assumes "placed app base start content done"
    and "place = (if app then length content else start + length done)"
  shows "placed app base start (write_at content place data) done"
    and "placed app base start (write_at content place data) (done @ data)"
proof -
  have "placed app base start (write_at content place data) done \<and>
    placed app base start (write_at content place data) (done @ data)"
  proof (cases app)
    case True
    then obtain tail where "content = base @ tail" "subseq done tail" using assms(1) by (auto simp: placed_def)
    moreover have "write_at content (length content) data = content @ data" by (simp add: write_at_def)
    ultimately show ?thesis using assms(2) True by (auto simp: placed_def list_emb_append_mono subseq_rev_drop_many)
  qed (use assms holds_write in \<open>simp add: placed_def\<close>)
  then show "placed app base start (write_at content place data) done"
    and "placed app base start (write_at content place data) (done @ data)" by blast+
qed

text \<open>A job writes behind what counts: it keeps it, and when it succeeds it adds its data.\<close>

lemma write_all_at_placed:
  assumes w: "write_all_at app fault op content = (res, content')" and pos: "unat (fst op) = start + length done"
    and p: "placed app base start content done"
  shows "placed app base start content' done"
    and "res = Inr n \<Longrightarrow> n = length (snd op) \<and> start + length done + n < 2 ^ 63 \<and>
           placed app base start content' (done @ snd op) \<and> (app \<longrightarrow> content' = content @ snd op)"
proof -
  let ?place = "if app then length content else unat (fst op)"
  have place: "?place = (if app then length content else start + length done)" using pos by simp
  have "app \<Longrightarrow> write_at content ?place data = content @ data" for data by (simp add: write_at_def)
  moreover have "uint (fst op) = int start + int (length done)" using pos uint_nat [of "fst op"] by simp
  then have "\<not> 2 ^ 63 \<le> uint (fst op) + int (length (snd op)) \<Longrightarrow> start + length done + length (snd op) < 2 ^ 63"
    by simp
  ultimately have "placed app base start content' done \<and>
    (res = Inr n \<longrightarrow> n = length (snd op) \<and> start + length done + n < 2 ^ 63 \<and>
       placed app base start content' (done @ snd op) \<and> (app \<longrightarrow> content' = content @ snd op))"
    using w p pos placed_write [OF p place]
    by (auto simp: write_all_at_def Let_def split: if_split_asm option.splits)
  then show "placed app base start content' done"
    and "res = Inr n \<Longrightarrow> n = length (snd op) \<and> start + length done + n < 2 ^ 63 \<and>
           placed app base start content' (done @ snd op) \<and> (app \<longrightarrow> content' = content @ snd op)"
    by blast+
qed

definition write_job_bytes :: "(u64 \<times> byte list, nat) job \<Rightarrow> byte list" where
  "write_job_bytes j = (case ce_value (snd j) of Some (Inr n) \<Rightarrow> snd (fst j) | _ \<Rightarrow> [])"

lemma unreported_job: "af_write_busy (wr_file s) = Some j \<Longrightarrow> unreported s = write_job_bytes j"
  by (cases j) (auto simp: unreported_def write_job_bytes_def split: option.splits sum.splits)

text \<open>Polling a job whose result, if it is there, is right.\<close>

lemma poll_write_job_inv:
  assumes b: "write_base base start s" and x: "exact_tail base s (write_job_bytes j)" and j: "write_job_ok base start s j"
  shows "write_inv (wr_append s) base start (reported buf (fst j) (poll_write_job wk j (wr_file s)) s)"
proof (cases "ce_value (snd j)")
  case None
  then show ?thesis
    using assms
    by (auto simp: write_inv_def write_base_def write_job_ok_def exact_tail_def unreported_def write_job_bytes_def poll_write_job_def
        oneshot_poll_def reported_def)
next
  case (Some res)
  show ?thesis
  proof (cases res)
    case (Inl e)
    then show ?thesis
      using Some b x
      by (auto simp: write_inv_def write_base_def exact_tail_def unreported_def write_job_bytes_def poll_write_job_def
          oneshot_poll_def reported_def)
  next
    case (Inr n)
    have n: "n = length (snd (fst j))" "start + length (wr_jobs s) + n < 2 ^ 63"
      "placed (wr_append s) base start (wr_content s) (wr_jobs s @ snd (fst j))"
      using j Some Inr by (auto simp: write_job_ok_def)
    have "unat (af_pos (wr_file s) + of_nat n) = start + length (wr_jobs s) + n"
      using n(2) b by (simp add: write_base_def unat_word_ariths unat_of_nat take_bit_nat_eq_self)
    then show ?thesis
      using Some Inr n b x
      by (auto simp: write_inv_def write_base_def exact_tail_def unreported_def write_job_bytes_def poll_write_job_def
          oneshot_poll_def reported_def)
  qed
qed

lemma write_job_done_inv:
  assumes b: "write_base base start s" and x: "exact_tail base s []" and op: "fst op = af_pos (wr_file s)"
    and w: "write_all_at (wr_append s) fault op (wr_content s) = (res, content)" and c: "ce_value c = Some res"
  shows "write_base base start (write_job_done res content s)" "exact_tail base (write_job_done res content s) (write_job_bytes (op, c))"
    and "write_job_ok base start (write_job_done res content s) (op, c)"
proof -
  have pos: "unat (fst op) = start + length (wr_jobs s)" and p: "placed (wr_append s) base start (wr_content s) (wr_jobs s)"
    using b op by (simp_all add: write_base_def)
  note w' = write_all_at_placed [OF w pos p]
  show "write_base base start (write_job_done res content s)" using b w'(1) by (simp add: write_base_def write_job_done_def)
  show "exact_tail base (write_job_done res content s) (write_job_bytes (op, c))"
    using x w'(2) c by (cases res) (auto simp: exact_tail_def write_job_done_def write_job_bytes_def)
  show "write_job_ok base start (write_job_done res content s) (op, c)"
    using w'(2) c op by (auto simp: write_job_ok_def write_job_done_def)
qed

lemma write_inv_step:
  assumes inv: "write_inv app base start s" and step: "write_step l s = Some t"
  shows "write_inv app base start t"
proof (cases l)
  case (RunWrite fault)
  then obtain op c res content where b: "af_write_busy (wr_file s) = Some (op, c)" "ce_value c = None"
      "write_all_at (wr_append s) fault op (wr_content s) = (res, content)"
    and t: "t = (write_job_done res content s)\<lparr>wr_file := (wr_file s)\<lparr>af_write_busy := Some (op, snd (setter_set res c))\<rparr>\<rparr>"
    using step by (auto split: option.splits if_splits prod.splits)
  have "write_base base start s" "exact_tail base s []" "fst op = af_pos (wr_file s)"
    using inv b(1,2) by (auto simp: write_inv_def write_job_ok_def unreported_def)
  note j = write_job_done_inv [OF this b(3), of "snd (setter_set res c)"]
  show ?thesis
    using j inv unreported_job [of t "(op, snd (setter_set res c))"]
    by (simp add: t setter_set_def write_inv_def write_base_def write_job_ok_def exact_tail_def write_job_done_def)
next
  case (PollWrite wk buf fast)
  have b: "write_base base start s" and x: "exact_tail base s (unreported s)" and appf: "wr_append s = app"
    using inv by (simp_all add: write_inv_def)
  show ?thesis
  proof (cases "af_write_busy (wr_file s)")
    case (Some j)
    then have "write_job_ok base start s j" using inv by (simp add: write_inv_def)
    then show ?thesis
      using poll_write_job_inv [OF b, of j buf wk] x step PollWrite Some appf unreported_job [OF Some]
      by (auto simp: poll_write_def Let_def split: option.splits)
  next
    case None
    let ?op = "(af_pos (wr_file s), buf)"
    have x': "exact_tail base s []" using x None by (simp add: unreported_def)
    show ?thesis
    proof (cases fast)
      case slow: None
      have "write_job_ok base start s (fs_blocking ?op None)"
        by (simp add: write_job_ok_def fs_blocking_def oneshot_def)
      moreover have "write_job_bytes (fs_blocking ?op None) = []" by (simp add: write_job_bytes_def fs_blocking_def oneshot_def)
      ultimately show ?thesis
        using poll_write_job_inv [OF b, of "fs_blocking ?op None" buf wk] x' step PollWrite None slow appf
        by (auto simp: poll_write_def fs_blocking_def)
    next
      case (Some fault)
      obtain res content where w: "write_all_at (wr_append s) fault ?op (wr_content s) = (res, content)"
        by (rule prod.exhaust)
      obtain c where c: "fs_blocking ?op (Some res) = (?op, c)" "ce_value c = Some res"
        by (simp add: fs_blocking_def setter_set_def)
      note j = write_job_done_inv [OF b x' _ w c(2)]
      have "wr_file (write_job_done res content s) = wr_file s" "wr_append (write_job_done res content s) = app"
        using appf by (simp_all add: write_job_done_def)
      then show ?thesis
        using poll_write_job_inv [OF j, of buf wk] step PollWrite None Some w c(1)
        by (auto simp: poll_write_def Let_def)
    qed
  qed
qed

lemma write_inv_init: "write_init app base start s \<Longrightarrow> write_inv app base start s"
  by (auto simp: write_init_def write_start_def write_inv_def write_base_def exact_tail_def unreported_def placed_def
      file_from_std_def holds_init unat_of_nat take_bit_nat_eq_self)

interpretation writing: inductive_invariant "write_init app base start" write_step "write_inv app base start"
  by unfold_locales (rule write_inv_init, assumption, rule write_inv_step)

section \<open>Properties\<close>

text \<open>
  C34. Every byte that a write through the cursor of a \<open>File\<close> puts into the file is at its place and in
  order, whatever polls, failed, partial and abandoned writes happened.  On a file opened without the
  append flag, the bytes of the successful writes stand behind the first \<open>start\<close> bytes of the old content
  (padded with zeros when the file was shorter).  On a file opened for appending, the old content is
  kept, those bytes follow it in order, and they are all that follows as long as no write failed and
  none is under way.  In both cases the cursor is \<open>start\<close> plus their number; and as long as no poll
  answered for an abandoned write of other bytes, they are exactly the bytes the callers were told are
  written.
\<close>
theorem file_writes_in_order:
  assumes "reach (write_init app base start) write_step s"
  shows "(\<not> app \<longrightarrow>
      take (start + length (wr_jobs s)) (wr_content s @ replicate (start - length (wr_content s)) 0) =
      take start (base @ replicate (start - length base) 0) @ wr_jobs s) \<and>
    (app \<longrightarrow> (\<exists>tail. wr_content s = base @ tail \<and> subseq (wr_jobs s) tail)) \<and>
    (app \<and> \<not> wr_failed s \<and> af_write_busy (wr_file s) = None \<longrightarrow> wr_content s = base @ wr_jobs s) \<and>
    unat (af_pos (wr_file s)) = start + length (wr_jobs s) \<and>
    (\<not> wr_mixed s \<longrightarrow> wr_done s = wr_jobs s)"
  using writing.reach_inv [OF assms]
  by (auto simp: write_inv_def write_base_def placed_def holds_writes_def exact_tail_def unreported_def)

definition write_demo :: write_sys where
  "write_demo = write_start False [1, 2, 3, 4] 1"

definition write_labels :: "write_label list" where
  "write_labels = [PollWrite 0 [7, 8] None, RunWrite (Some (1, Os 5)), PollWrite 0 [7, 8] None,
     PollWrite 0 [7, 8] (Some None), PollWrite 0 [9] None, RunWrite None, PollWrite 0 [9] None]"

lemma write_demo_run:
  "map_option (\<lambda>s. (wr_jobs s, wr_mixed s, wr_content s)) (run write_step write_labels write_demo) =
     Some ([7, 8, 9], False, [1, 7, 8, 9])"
  "map_option (\<lambda>s. (wr_jobs s, wr_content s)) (run write_step write_labels (write_start True [1, 2, 3, 4] 1)) =
     Some ([7, 8, 9], [1, 2, 3, 4, 7, 7, 8, 9])"
  by code_simp+

theorem file_writes_in_order_witness:
  "\<exists>s t. run write_step write_labels write_demo = Some s \<and> wr_done s = [7, 8, 9] \<and>
     unat (af_pos (wr_file s)) = 1 + length (wr_done s) \<and>
     run write_step write_labels (write_start True [1, 2, 3, 4] 1) = Some t \<and>
     (\<exists>tail. wr_content t = [1, 2, 3, 4] @ tail \<and> subseq [7, 8, 9] tail)"
proof -
  obtain s where s: "run write_step write_labels write_demo = Some s" "wr_jobs s = [7, 8, 9]" "\<not> wr_mixed s"
    using write_demo_run(1) by auto
  obtain t where t: "run write_step write_labels (write_start True [1, 2, 3, 4] 1) = Some t" "wr_jobs t = [7, 8, 9]"
    using write_demo_run(2) by auto
  have i: "write_init False [1, 2, 3, 4] 1 write_demo" "write_init True [1, 2, 3, 4] 1 (write_start True [1, 2, 3, 4] 1)"
    by (simp_all add: write_init_def write_demo_def)
  show ?thesis
    using file_writes_in_order [OF reach_init_run [where init = "write_init False [1, 2, 3, 4] 1", OF i(1) s(1)]]
      file_writes_in_order [OF reach_init_run [where init = "write_init True [1, 2, 3, 4] 1", OF i(2) t(1)]] s t
    by (intro exI [of _ s] exI [of _ t]) simp
qed

text \<open>
  What \<open>wr_mixed\<close> excludes does happen: a write of three bytes is given up after its first poll, and the
  next write, of one byte, is answered with 3; its byte is in the file nowhere.
\<close>

lemma abandoned_write_answers_next:
  "map_option (\<lambda>s. (wr_mixed s, wr_done s, wr_content s, unat (af_pos (wr_file s))))
     (run write_step [PollWrite 0 [7, 8, 9] None, RunWrite None, PollWrite 0 [5] None] (write_start False [] 0)) =
   Some (True, [5], [7, 8, 9], 3)"
  by code_simp

text \<open>
  \<open>poll_flush\<close> and \<open>poll_close\<close> answer at once.  After an abandoned write they do so while its job is still to
  run: the flush succeeds and the bytes are not in the file.
\<close>

definition poll_flush_file :: "waker \<Rightarrow> afile \<Rightarrow> unit io_result poll \<times> afile" where
  "poll_flush_file wk f = (Ready (Inr ()), f)"

definition poll_close_file :: "waker \<Rightarrow> afile \<Rightarrow> unit io_result poll \<times> afile" where
  "poll_close_file wk f = (Ready (Inr ()), f)"

lemma flush_before_abandoned_write:
  "case run write_step [PollWrite 0 [7, 8] None] write_demo of
     None \<Rightarrow> False
   | Some s \<Rightarrow> fst (poll_flush_file 0 (wr_file s)) = Ready (Inr ()) \<and> wr_content s = [1, 2, 3, 4] \<and>
       map_option (\<lambda>t. wr_content t) (write_step (RunWrite None) s) = Some [1, 7, 8, 4]"
  by code_simp

end
