(* ===== verification/Async_Fs_Model.thy ===== *)
theory Async_Fs_Model
  imports Async_File_Model Async_Stream_Model
begin

text \<open>
  The rest of \<open>rust_async/fs.rs\<close>: the builders, opening, the positional operations of \<open>File\<close>, \<open>fs::read\<close> and
  \<open>fs::write\<close>, metadata and directories.  Each of them moves a closure over \<open>std::fs\<close> to the blocking pool and
  awaits its result.  The file system behind \<open>std::fs\<close> is a parameter: a record of its calls as functions
  of a state \<open>'w\<close>; \<open>std_fs_ok\<close> says what the theorems need of those that concern the content of files.
\<close>

section \<open>\<open>std::fs\<close>\<close>

type_synonym path = string

record open_options =
  oo_read :: bool
  oo_write :: bool
  oo_append :: bool
  oo_truncate :: bool
  oo_create :: bool
  oo_create_new :: bool

datatype file_type = IsFile | IsDir | IsSymlink

record metadata =
  md_type :: file_type
  md_len :: u64
  md_permissions :: "32 word"
  md_modified :: "nat io_result"
  md_accessed :: "nat io_result"
  md_created :: "nat io_result"

type_synonym dir_entry = "path \<times> string"

record 'w std_fs =
  sf_open :: "open_options \<Rightarrow> path \<Rightarrow> 'w \<Rightarrow> nat io_result \<times> 'w"
  sf_file_metadata :: "nat \<Rightarrow> 'w \<Rightarrow> metadata io_result \<times> 'w"
  sf_set_len :: "nat \<Rightarrow> u64 \<Rightarrow> 'w \<Rightarrow> unit io_result \<times> 'w"
  sf_sync_all :: "nat \<Rightarrow> 'w \<Rightarrow> unit io_result \<times> 'w"
  sf_read_at :: "nat \<Rightarrow> nat \<Rightarrow> u64 \<Rightarrow> 'w \<Rightarrow> byte list io_result \<times> 'w"
  sf_write_all_at :: "nat \<Rightarrow> byte list \<Rightarrow> u64 \<Rightarrow> 'w \<Rightarrow> unit io_result \<times> 'w"
  sf_dir_builder :: "bool \<Rightarrow> 32 word option \<Rightarrow> path \<Rightarrow> 'w \<Rightarrow> unit io_result \<times> 'w"
  sf_create_dir :: "path \<Rightarrow> 'w \<Rightarrow> unit io_result \<times> 'w"
  sf_create_dir_all :: "path \<Rightarrow> 'w \<Rightarrow> unit io_result \<times> 'w"
  sf_remove_dir :: "path \<Rightarrow> 'w \<Rightarrow> unit io_result \<times> 'w"
  sf_remove_dir_all :: "path \<Rightarrow> 'w \<Rightarrow> unit io_result \<times> 'w"
  sf_remove_file :: "path \<Rightarrow> 'w \<Rightarrow> unit io_result \<times> 'w"
  sf_rename :: "path \<Rightarrow> path \<Rightarrow> 'w \<Rightarrow> unit io_result \<times> 'w"
  sf_copy :: "path \<Rightarrow> path \<Rightarrow> 'w \<Rightarrow> u64 io_result \<times> 'w"
  sf_hard_link :: "path \<Rightarrow> path \<Rightarrow> 'w \<Rightarrow> unit io_result \<times> 'w"
  sf_canonicalize :: "path \<Rightarrow> 'w \<Rightarrow> path io_result \<times> 'w"
  sf_read_link :: "path \<Rightarrow> 'w \<Rightarrow> path io_result \<times> 'w"
  sf_metadata :: "path \<Rightarrow> 'w \<Rightarrow> metadata io_result \<times> 'w"
  sf_symlink_metadata :: "path \<Rightarrow> 'w \<Rightarrow> metadata io_result \<times> 'w"
  sf_set_permissions :: "path \<Rightarrow> 32 word \<Rightarrow> 'w \<Rightarrow> unit io_result \<times> 'w"
  sf_read_dir :: "path \<Rightarrow> 'w \<Rightarrow> dir_entry io_result list io_result \<times> 'w"

section \<open>Jobs\<close>

type_synonym ('w, 'r) fs_job = "'w \<Rightarrow> 'r io_result \<times> 'w"

text \<open>\<open>fs_blocking(job).await\<close>: the pool runs the closure and its result comes through the one-shot channel.\<close>

definition fs_await :: "('w, 'r) fs_job \<Rightarrow> ('w, 'r) fs_job" where
  "fs_await job w =
     (case job w of
        (r, w') \<Rightarrow>
          (case oneshot_poll 0 (snd (setter_set r (snd (oneshot_poll 0 oneshot)))) of
             (Ready v, _) \<Rightarrow> (v, w')
           | (Pending, _) \<Rightarrow> (Inl (Kind OtherKind), w')))"

text \<open>The operator \<open>?\<close>.\<close>

definition and_then :: "('w, 'a) fs_job \<Rightarrow> ('a \<Rightarrow> ('w, 'b) fs_job) \<Rightarrow> ('w, 'b) fs_job" where
  "and_then job k w = (case job w of (Inl e, w') \<Rightarrow> (Inl e, w') | (Inr a, w') \<Rightarrow> k a w')"

definition ok_job :: "'a \<Rightarrow> ('w, 'a) fs_job" where
  "ok_job a w = (Inr a, w)"

lemma fs_await_job [simp]: "fs_await job w = job w"
  by (simp add: fs_await_def oneshot_poll_def setter_set_def oneshot_def split: prod.split)

lemma and_then_Inr:
  "and_then job k w = (Inr b, w'') \<longleftrightarrow> (\<exists>a w'. job w = (Inr a, w') \<and> k a w' = (Inr b, w''))"
  by (auto simp: and_then_def split: prod.split sum.split)

section \<open>Builders\<close>

definition open_options_new :: open_options where
  "open_options_new = \<lparr>oo_read = False, oo_write = False, oo_append = False, oo_truncate = False, oo_create = False,
     oo_create_new = False\<rparr>"

definition options_read :: "bool \<Rightarrow> open_options \<Rightarrow> open_options" where
  "options_read b o1 = o1\<lparr>oo_read := b\<rparr>"

definition options_write :: "bool \<Rightarrow> open_options \<Rightarrow> open_options" where
  "options_write b o1 = o1\<lparr>oo_write := b\<rparr>"

definition options_append :: "bool \<Rightarrow> open_options \<Rightarrow> open_options" where
  "options_append b o1 = o1\<lparr>oo_append := b\<rparr>"

definition options_truncate :: "bool \<Rightarrow> open_options \<Rightarrow> open_options" where
  "options_truncate b o1 = o1\<lparr>oo_truncate := b\<rparr>"

definition options_create :: "bool \<Rightarrow> open_options \<Rightarrow> open_options" where
  "options_create b o1 = o1\<lparr>oo_create := b\<rparr>"

definition options_create_new :: "bool \<Rightarrow> open_options \<Rightarrow> open_options" where
  "options_create_new b o1 = o1\<lparr>oo_create_new := b\<rparr>"

record dir_builder =
  db_recursive :: bool
  db_mode :: "32 word option"

definition dir_builder_new :: dir_builder where
  "dir_builder_new = \<lparr>db_recursive = False, db_mode = None\<rparr>"

definition builder_recursive :: "bool \<Rightarrow> dir_builder \<Rightarrow> dir_builder" where
  "builder_recursive b d = d\<lparr>db_recursive := b\<rparr>"

definition builder_mode :: "32 word \<Rightarrow> dir_builder \<Rightarrow> dir_builder" where
  "builder_mode m d = d\<lparr>db_mode := Some m\<rparr>"

definition builder_create :: "'w std_fs \<Rightarrow> dir_builder \<Rightarrow> path \<Rightarrow> ('w, unit) fs_job" where
  "builder_create sf d p = fs_await (sf_dir_builder sf (db_recursive d) (db_mode d) p)"

section \<open>\<open>File\<close>\<close>

text \<open>An open \<open>File\<close>: the descriptor of its \<open>std::fs::File\<close> and its cursor state.\<close>

type_synonym open_file = "nat \<times> afile"

definition options_open :: "'w std_fs \<Rightarrow> open_options \<Rightarrow> path \<Rightarrow> ('w, open_file) fs_job" where
  "options_open sf opts p = and_then (fs_await (sf_open sf opts p)) (\<lambda>h. ok_job (h, file_from_std))"

text \<open>\<open>std::fs::File::open\<close> is the option \<open>read\<close>; \<open>File::create\<close> is \<open>write\<close>, \<open>create\<close> and \<open>truncate\<close>.\<close>

definition file_open :: "'w std_fs \<Rightarrow> path \<Rightarrow> ('w, open_file) fs_job" where
  "file_open sf p =
     and_then (fs_await (sf_open sf (open_options_new\<lparr>oo_read := True\<rparr>) p)) (\<lambda>h. ok_job (h, file_from_std))"

definition file_create :: "'w std_fs \<Rightarrow> path \<Rightarrow> ('w, open_file) fs_job" where
  "file_create sf p =
     and_then (fs_await (sf_open sf (open_options_new\<lparr>oo_write := True, oo_truncate := True, oo_create := True\<rparr>) p))
       (\<lambda>h. ok_job (h, file_from_std))"

definition file_metadata :: "'w std_fs \<Rightarrow> open_file \<Rightarrow> ('w, metadata) fs_job" where
  "file_metadata sf f = fs_await (sf_file_metadata sf (fst f))"

definition file_set_len :: "'w std_fs \<Rightarrow> open_file \<Rightarrow> u64 \<Rightarrow> ('w, unit) fs_job" where
  "file_set_len sf f new_len = fs_await (sf_set_len sf (fst f) new_len)"

definition file_sync_all :: "'w std_fs \<Rightarrow> open_file \<Rightarrow> ('w, unit) fs_job" where
  "file_sync_all sf f = fs_await (sf_sync_all sf (fst f))"

text \<open>\<open>read_at\<close> answers the bytes it filled in; \<open>buf.truncate(n)\<close> keeps them.\<close>

definition file_read_all :: "'w std_fs \<Rightarrow> open_file \<Rightarrow> ('w, byte list) fs_job" where
  "file_read_all sf f =
     fs_await (and_then (sf_file_metadata sf (fst f)) (\<lambda>md. sf_read_at sf (fst f) (unat (md_len md)) 0))"

definition file_read_at :: "'w std_fs \<Rightarrow> open_file \<Rightarrow> u64 \<Rightarrow> nat \<Rightarrow> ('w, byte list) fs_job" where
  "file_read_at sf f offset len = fs_await (sf_read_at sf (fst f) len offset)"

definition file_write_at :: "'w std_fs \<Rightarrow> open_file \<Rightarrow> u64 \<Rightarrow> byte list \<Rightarrow> ('w, nat) fs_job" where
  "file_write_at sf f offset data =
     fs_await (and_then (sf_write_all_at sf (fst f) data offset) (\<lambda>_. ok_job (length data)))"

text \<open>The two system calls of \<open>append\<close>; other jobs of the pool may run between them.\<close>

definition append_end :: "'w std_fs \<Rightarrow> open_file \<Rightarrow> ('w, u64) fs_job" where
  "append_end sf f = and_then (sf_file_metadata sf (fst f)) (\<lambda>md. ok_job (md_len md))"

definition append_write :: "'w std_fs \<Rightarrow> open_file \<Rightarrow> byte list \<Rightarrow> u64 \<Rightarrow> ('w, nat) fs_job" where
  "append_write sf f data end1 = and_then (sf_write_all_at sf (fst f) data end1) (\<lambda>_. ok_job (length data))"

definition file_append :: "'w std_fs \<Rightarrow> open_file \<Rightarrow> byte list \<Rightarrow> ('w, nat) fs_job" where
  "file_append sf f data = fs_await (and_then (append_end sf f) (append_write sf f data))"

section \<open>Whole files\<close>

definition fs_read :: "'w std_fs \<Rightarrow> path \<Rightarrow> ('w, byte list) fs_job" where
  "fs_read sf p = and_then (file_open sf p) (file_read_all sf)"

text \<open>One awaited \<open>write\<close> through the cursor: the job of \<open>poll_write\<close>, and the poll that gets its result.\<close>

definition file_write :: "'w std_fs \<Rightarrow> byte list \<Rightarrow> open_file \<Rightarrow> 'w \<Rightarrow> (nat io_result \<times> open_file) \<times> 'w" where
  "file_write sf buf f w =
     (case and_then (sf_write_all_at sf (fst f) buf (af_pos (snd f))) (\<lambda>_. ok_job (length buf)) w of
        (res, w') \<Rightarrow>
          (case poll_write (Some res) 0 buf (snd f) of
             (Ready r, f') \<Rightarrow> ((r, (fst f, f')), w')
           | (Pending, f') \<Rightarrow> ((Inl (Kind OtherKind), (fst f, f')), w')))"

text \<open>\<open>AsyncWriteExt::write_all\<close>: write until the buffer is empty.  The bound is the length of the buffer.\<close>

fun write_all_loop :: "nat \<Rightarrow> 'w std_fs \<Rightarrow> byte list \<Rightarrow> open_file \<Rightarrow> 'w \<Rightarrow> (unit io_result \<times> open_file) \<times> 'w" where
  "write_all_loop _ sf [] f w = ((Inr (), f), w)"
| "write_all_loop 0 sf (b # buf) f w = ((Inl (Kind WriteZero), f), w)"
| "write_all_loop (Suc k) sf (b # buf) f w =
     (case file_write sf (b # buf) f w of
        ((Inl e, f'), w') \<Rightarrow> ((Inl e, f'), w')
      | ((Inr n, f'), w') \<Rightarrow>
          if n = 0 then ((Inl (Kind WriteZero), f'), w') else write_all_loop k sf (drop n (b # buf)) f' w')"

definition fs_write :: "'w std_fs \<Rightarrow> path \<Rightarrow> byte list \<Rightarrow> ('w, unit) fs_job" where
  "fs_write sf p data =
     and_then (file_create sf p) (\<lambda>f w. case write_all_loop (length data) sf data f w of ((r, _), w') \<Rightarrow> (r, w'))"

section \<open>Paths, metadata and directories\<close>

definition fs_create_dir :: "'w std_fs \<Rightarrow> path \<Rightarrow> ('w, unit) fs_job" where
  "fs_create_dir sf p = fs_await (sf_create_dir sf p)"

definition fs_create_dir_all :: "'w std_fs \<Rightarrow> path \<Rightarrow> ('w, unit) fs_job" where
  "fs_create_dir_all sf p = fs_await (sf_create_dir_all sf p)"

definition fs_remove_dir :: "'w std_fs \<Rightarrow> path \<Rightarrow> ('w, unit) fs_job" where
  "fs_remove_dir sf p = fs_await (sf_remove_dir sf p)"

definition fs_remove_dir_all :: "'w std_fs \<Rightarrow> path \<Rightarrow> ('w, unit) fs_job" where
  "fs_remove_dir_all sf p = fs_await (sf_remove_dir_all sf p)"

definition fs_remove_file :: "'w std_fs \<Rightarrow> path \<Rightarrow> ('w, unit) fs_job" where
  "fs_remove_file sf p = fs_await (sf_remove_file sf p)"

definition fs_rename :: "'w std_fs \<Rightarrow> path \<Rightarrow> path \<Rightarrow> ('w, unit) fs_job" where
  "fs_rename sf from_path to_path = fs_await (sf_rename sf from_path to_path)"

definition fs_copy :: "'w std_fs \<Rightarrow> path \<Rightarrow> path \<Rightarrow> ('w, u64) fs_job" where
  "fs_copy sf from_path to_path = fs_await (sf_copy sf from_path to_path)"

definition fs_hard_link :: "'w std_fs \<Rightarrow> path \<Rightarrow> path \<Rightarrow> ('w, unit) fs_job" where
  "fs_hard_link sf original link = fs_await (sf_hard_link sf original link)"

definition fs_canonicalize :: "'w std_fs \<Rightarrow> path \<Rightarrow> ('w, path) fs_job" where
  "fs_canonicalize sf p = fs_await (sf_canonicalize sf p)"

definition fs_read_link :: "'w std_fs \<Rightarrow> path \<Rightarrow> ('w, path) fs_job" where
  "fs_read_link sf p = fs_await (sf_read_link sf p)"

definition fs_metadata :: "'w std_fs \<Rightarrow> path \<Rightarrow> ('w, metadata) fs_job" where
  "fs_metadata sf p = fs_await (sf_metadata sf p)"

definition fs_symlink_metadata :: "'w std_fs \<Rightarrow> path \<Rightarrow> ('w, metadata) fs_job" where
  "fs_symlink_metadata sf p = fs_await (sf_symlink_metadata sf p)"

definition fs_set_permissions :: "'w std_fs \<Rightarrow> path \<Rightarrow> 32 word \<Rightarrow> ('w, unit) fs_job" where
  "fs_set_permissions sf p perm = fs_await (sf_set_permissions sf p perm)"

definition metadata_is_dir :: "metadata \<Rightarrow> bool" where
  "metadata_is_dir md \<longleftrightarrow> md_type md = IsDir"

definition metadata_is_file :: "metadata \<Rightarrow> bool" where
  "metadata_is_file md \<longleftrightarrow> md_type md = IsFile"

definition metadata_is_symlink :: "metadata \<Rightarrow> bool" where
  "metadata_is_symlink md \<longleftrightarrow> md_type md = IsSymlink"

definition metadata_is_empty :: "metadata \<Rightarrow> bool" where
  "metadata_is_empty md \<longleftrightarrow> md_len md = 0"

definition entry_path :: "dir_entry \<Rightarrow> path" where
  "entry_path e = fst e"

definition entry_file_name :: "dir_entry \<Rightarrow> string" where
  "entry_file_name e = snd e"

definition entry_metadata :: "'w std_fs \<Rightarrow> dir_entry \<Rightarrow> ('w, metadata) fs_job" where
  "entry_metadata sf e = fs_symlink_metadata sf (entry_path e)"

definition entry_file_type :: "'w std_fs \<Rightarrow> dir_entry \<Rightarrow> ('w, file_type) fs_job" where
  "entry_file_type sf e = and_then (entry_metadata sf e) (\<lambda>md. ok_job (md_type md))"

text \<open>\<open>read_dir\<close> collects the whole directory, errors of single entries included, before it returns the stream.\<close>

definition fs_read_dir :: "'w std_fs \<Rightarrow> path \<Rightarrow> ('w, dir_entry io_result list) fs_job" where
  "fs_read_dir sf p = fs_await (sf_read_dir sf p)"

text \<open>The stream then yields exactly what was collected, in that order.\<close>

lemma read_dir_yields:
  assumes "fs_read_dir sf p w = (Inr entries, w')"
  shows "sf_read_dir sf p w = (Inr entries, w') \<and> yields from_iter_poll_next wk entries entries"
  using assms from_iter_yields by (simp add: fs_read_dir_def)

section \<open>What is needed of \<open>std::fs\<close>\<close>

text \<open>
  A file system has names of files (\<open>names\<close>, by inode), their content (\<open>data\<close>) and open descriptors
  (\<open>opened\<close>).  Opening an existing file keeps it and empties it with \<open>truncate\<close>; opening a missing one needs
  \<open>create\<close> or \<open>create_new\<close> and makes an empty file; reads return bytes that are there; \<open>write_all_at\<close>
  replaces a range, perhaps only a first part of it when it fails.
\<close>

type_synonym fd_info = "nat \<times> open_options"

definition same_files ::
    "('w \<Rightarrow> path \<rightharpoonup> nat) \<Rightarrow> ('w \<Rightarrow> nat \<Rightarrow> byte list) \<Rightarrow> ('w \<Rightarrow> nat \<rightharpoonup> fd_info) \<Rightarrow> 'w \<Rightarrow> 'w \<Rightarrow> bool" where
  "same_files names data opened w w' \<longleftrightarrow> names w' = names w \<and> data w' = data w \<and> opened w' = opened w"

definition open_law ::
    "'w std_fs \<Rightarrow> ('w \<Rightarrow> path \<rightharpoonup> nat) \<Rightarrow> ('w \<Rightarrow> nat \<Rightarrow> byte list) \<Rightarrow> ('w \<Rightarrow> nat \<rightharpoonup> fd_info) \<Rightarrow> bool" where
  "open_law sf names data opened \<longleftrightarrow>
     (\<forall>opts p w h w'. sf_open sf opts p w = (Inr h, w') \<longrightarrow>
        opened w h = None \<and>
        (\<exists>i. opened w' = (opened w)(h \<mapsto> (i, opts)) \<and>
          (case names w p of
             Some j \<Rightarrow> i = j \<and> names w' = names w \<and> data w' = (if oo_truncate opts then (data w)(i := []) else data w)
           | None \<Rightarrow> (oo_create opts \<or> oo_create_new opts) \<and> i \<notin> ran (names w) \<and>
               names w' = (names w)(p \<mapsto> i) \<and> data w' = (data w)(i := []))))"

definition read_law ::
    "'w std_fs \<Rightarrow> ('w \<Rightarrow> path \<rightharpoonup> nat) \<Rightarrow> ('w \<Rightarrow> nat \<Rightarrow> byte list) \<Rightarrow> ('w \<Rightarrow> nat \<rightharpoonup> fd_info) \<Rightarrow> bool" where
  "read_law sf names data opened \<longleftrightarrow>
     (\<forall>h w r w'. sf_file_metadata sf h w = (r, w') \<longrightarrow>
        same_files names data opened w w' \<and>
        (\<forall>md i opts. r = Inr md \<and> opened w h = Some (i, opts) \<longrightarrow> md_len md = of_nat (length (data w i)))) \<and>
     (\<forall>h n off w r w'. sf_read_at sf h n off w = (r, w') \<longrightarrow>
        same_files names data opened w w' \<and>
        (\<forall>bs i opts. r = Inr bs \<and> opened w h = Some (i, opts) \<longrightarrow>
           prefix bs (take n (drop (unat off) (data w i))) \<and>
           (bs = [] \<longrightarrow> n = 0 \<or> length (data w i) \<le> unat off)))"

definition write_law ::
    "'w std_fs \<Rightarrow> ('w \<Rightarrow> path \<rightharpoonup> nat) \<Rightarrow> ('w \<Rightarrow> nat \<Rightarrow> byte list) \<Rightarrow> ('w \<Rightarrow> nat \<rightharpoonup> fd_info) \<Rightarrow> bool" where
  "write_law sf names data opened \<longleftrightarrow>
     (\<forall>h buf off w r w' i opts. sf_write_all_at sf h buf off w = (r, w') \<and> opened w h = Some (i, opts) \<and> \<not> oo_append opts \<longrightarrow>
        names w' = names w \<and> opened w' = opened w \<and>
        (\<exists>k. data w' = (data w)(i := write_at (data w i) (unat off) (take k buf)) \<and> (r = Inr () \<longrightarrow> k = length buf)))"

definition std_fs_ok ::
    "'w std_fs \<Rightarrow> ('w \<Rightarrow> path \<rightharpoonup> nat) \<Rightarrow> ('w \<Rightarrow> nat \<Rightarrow> byte list) \<Rightarrow> ('w \<Rightarrow> nat \<rightharpoonup> fd_info) \<Rightarrow> bool" where
  "std_fs_ok sf names data opened \<longleftrightarrow>
     open_law sf names data opened \<and> read_law sf names data opened \<and> write_law sf names data opened"

section \<open>Opening, writing and reading\<close>

lemma open_file_law:
  assumes "std_fs_ok sf names data opened" "sf_open sf opts p w = (Inr h, w')"
  shows "\<exists>i. opened w' = (opened w)(h \<mapsto> (i, opts)) \<and>
      (case names w p of
         Some j \<Rightarrow> i = j \<and> names w' = names w \<and> data w' = (if oo_truncate opts then (data w)(i := []) else data w)
       | None \<Rightarrow> (oo_create opts \<or> oo_create_new opts) \<and> i \<notin> ran (names w) \<and>
           names w' = (names w)(p \<mapsto> i) \<and> data w' = (data w)(i := []))"
  using assms unfolding std_fs_ok_def open_law_def by blast

lemma metadata_law:
  assumes "std_fs_ok sf names data opened" "sf_file_metadata sf h w = (r, w')"
  shows "same_files names data opened w w'" "r = Inr md \<Longrightarrow> opened w h = Some (i, opts) \<Longrightarrow> md_len md = of_nat (length (data w i))"
  using assms unfolding std_fs_ok_def read_law_def by blast+

lemma read_at_law:
  assumes "std_fs_ok sf names data opened" "sf_read_at sf h n off w = (r, w')"
  shows "same_files names data opened w w'"
    and "r = Inr bs \<Longrightarrow> opened w h = Some (i, opts) \<Longrightarrow> prefix bs (take n (drop (unat off) (data w i)))"
    and "r = Inr bs \<Longrightarrow> opened w h = Some (i, opts) \<Longrightarrow> bs = [] \<Longrightarrow> n = 0 \<or> length (data w i) \<le> unat off"
proof -
  have "read_law sf names data opened" using assms(1) by (simp add: std_fs_ok_def)
  note conjunct2 [OF this [unfolded read_law_def], THEN spec, THEN spec, THEN spec, THEN spec, THEN spec, THEN spec, THEN mp, OF assms(2)]
  then show "same_files names data opened w w'"
    "r = Inr bs \<Longrightarrow> opened w h = Some (i, opts) \<Longrightarrow> prefix bs (take n (drop (unat off) (data w i)))"
    "r = Inr bs \<Longrightarrow> opened w h = Some (i, opts) \<Longrightarrow> bs = [] \<Longrightarrow> n = 0 \<or> length (data w i) \<le> unat off"
    by simp_all
qed

lemma write_all_at_law:
  assumes "std_fs_ok sf names data opened" "sf_write_all_at sf h buf off w = (r, w')"
    and "opened w h = Some (i, opts)" "\<not> oo_append opts"
  shows "names w' = names w" "opened w' = opened w"
    and "\<exists>k. data w' = (data w)(i := write_at (data w i) (unat off) (take k buf)) \<and> (r = Inr () \<longrightarrow> k = length buf)"
  using assms unfolding std_fs_ok_def write_law_def by blast+

lemma file_create_law:
  assumes "std_fs_ok sf names data opened" "file_create sf p w = (Inr f, w')"
  obtains i opts where "snd f = file_from_std" "opened w' (fst f) = Some (i, opts)" "\<not> oo_append opts"
    "names w' p = Some i" "data w' i = []" "\<forall>q. q \<noteq> p \<longrightarrow> names w' q = names w q"
proof -
  let ?opts = "open_options_new\<lparr>oo_write := True, oo_truncate := True, oo_create := True\<rparr>"
  obtain h where h: "sf_open sf ?opts p w = (Inr h, w')" "f = (h, file_from_std)"
    using assms(2) by (auto simp: file_create_def and_then_Inr ok_job_def)
  obtain i where "opened w' = (opened w)(h \<mapsto> (i, ?opts))" and
    i: "case names w p of
          Some j \<Rightarrow> i = j \<and> names w' = names w \<and> data w' = (if oo_truncate ?opts then (data w)(i := []) else data w)
        | None \<Rightarrow> (oo_create ?opts \<or> oo_create_new ?opts) \<and> i \<notin> ran (names w) \<and>
            names w' = (names w)(p \<mapsto> i) \<and> data w' = (data w)(i := [])"
    using open_file_law [OF assms(1) h(1)] by blast
  then have "opened w' h = Some (i, ?opts)" "names w' p = Some i" "data w' = (data w)(i := [])"
    "\<forall>q. q \<noteq> p \<longrightarrow> names w' q = names w q"
    by (auto split: option.splits)
  moreover have "\<not> oo_append ?opts" by (simp add: open_options_new_def)
  ultimately show ?thesis
    by (intro that [of i ?opts]) (use h(2) in simp_all)
qed

lemma file_open_law:
  assumes "std_fs_ok sf names data opened" "file_open sf p w = (Inr f, w')"
  obtains i opts where "opened w' (fst f) = Some (i, opts)" "names w p = Some i" "names w' = names w" "data w' = data w"
proof -
  let ?opts = "open_options_new\<lparr>oo_read := True\<rparr>"
  obtain h where h: "sf_open sf ?opts p w = (Inr h, w')" "f = (h, file_from_std)"
    using assms(2) by (auto simp: file_open_def and_then_Inr ok_job_def)
  have "\<not> oo_create ?opts" "\<not> oo_create_new ?opts" "\<not> oo_truncate ?opts" by (simp_all add: open_options_new_def)
  then obtain i where "opened w' = (opened w)(h \<mapsto> (i, ?opts))" "names w p = Some i" "names w' = names w" "data w' = data w"
    using open_file_law [OF assms(1) h(1)] by (cases "names w p") auto
  then show ?thesis using that [of i ?opts] h(2) by simp
qed

text \<open>A successful awaited write replaces the range at the cursor and moves the cursor behind it.\<close>

lemma file_write_law:
  assumes ok: "std_fs_ok sf names data opened" and f: "opened w (fst f) = Some (i, opts)" "\<not> oo_append opts"
    and idle: "af_write_busy (snd f) = None" and w': "file_write sf buf f w = ((r, f'), w')"
  shows "names w' = names w" "opened w' = opened w" "fst f' = fst f" "af_write_busy (snd f') = None"
    and "\<exists>k. data w' = (data w)(i := write_at (data w i) (unat (af_pos (snd f))) (take k buf))"
    and "r = Inr n \<Longrightarrow> n = length buf \<and> data w' = (data w)(i := write_at (data w i) (unat (af_pos (snd f))) buf) \<and>
           af_pos (snd f') = af_pos (snd f) + of_nat n"
proof -
  obtain r1 w1 where w1: "sf_write_all_at sf (fst f) buf (af_pos (snd f)) w = (r1, w1)" by (rule prod.exhaust)
  have "w' = w1"
    using w' w1 by (auto simp: file_write_def and_then_def ok_job_def split: prod.splits sum.splits poll.splits)
  moreover obtain k where k: "names w1 = names w" "opened w1 = opened w"
    "data w1 = (data w)(i := write_at (data w i) (unat (af_pos (snd f))) (take k buf))" "r1 = Inr () \<longrightarrow> k = length buf"
    using write_all_at_law [OF ok w1 f] by blast
  ultimately show "names w' = names w" "opened w' = opened w"
    "\<exists>k. data w' = (data w)(i := write_at (data w i) (unat (af_pos (snd f))) (take k buf))"
    by auto
  have cases: "fst f' = fst f \<and> af_write_busy (snd f') = None \<and>
    (r = Inr n \<longrightarrow> r1 = Inr () \<and> n = length buf \<and> af_pos (snd f') = af_pos (snd f) + of_nat n)"
    using w' w1 idle
    by (cases r1) (auto simp: file_write_def and_then_def ok_job_def poll_write_def poll_write_job_def fs_blocking_def
        oneshot_poll_def setter_set_def)
  then show "fst f' = fst f" "af_write_busy (snd f') = None" by blast+
  show "r = Inr n \<Longrightarrow> n = length buf \<and> data w' = (data w)(i := write_at (data w i) (unat (af_pos (snd f))) buf) \<and>
           af_pos (snd f') = af_pos (snd f) + of_nat n"
    using cases k \<open>w' = w1\<close> by simp
qed

text \<open>So \<open>write_all\<close> needs one write, whatever the buffer.\<close>

lemma write_all_once:
  assumes ok: "std_fs_ok sf names data opened" and f: "opened w (fst f) = Some (i, opts)" "\<not> oo_append opts"
    and idle: "af_write_busy (snd f) = None" and "buf \<noteq> []" "write_all_loop (length buf) sf buf f w = ((r, f'), w')"
  shows "names w' = names w" "opened w' = opened w"
    and "\<exists>k. data w' = (data w)(i := write_at (data w i) (unat (af_pos (snd f))) (take k buf)) \<and> (r = Inr () \<longrightarrow> k = length buf)"
proof -
  obtain b rest where buf: "buf = b # rest" using assms(5) by (cases buf) auto
  obtain r1 f1 w1 where w1: "file_write sf buf f w = ((r1, f1), w1)" by (metis prod.exhaust)
  note law = file_write_law [OF ok f idle w1]
  have fin: "r = map_sum id (\<lambda>_. ()) r1 \<and> w' = w1"
  proof (cases r1)
    case (Inr n)
    then have "n = length buf" using law(6) by blast
    then show ?thesis using assms(6) w1 buf Inr by (simp add: id_def)
  qed (use assms(6) w1 buf in \<open>simp add: id_def\<close>)
  then show "names w' = names w" "opened w' = opened w" using law(1,2) by simp_all
  show "\<exists>k. data w' = (data w)(i := write_at (data w i) (unat (af_pos (snd f))) (take k buf)) \<and> (r = Inr () \<longrightarrow> k = length buf)"
  proof (cases r1)
    case (Inr n)
    then show ?thesis using law(6) fin by (intro exI [of _ "length buf"]) simp
  qed (use law(5) fin in auto)
qed

lemma write_at_empty: "write_at [] 0 d = d"
  by (simp add: write_at_def)

lemma fs_write_content:
  assumes ok: "std_fs_ok sf names data opened" and w: "fs_write sf p d w = (Inr (), w')"
  shows "\<exists>i. names w' p = Some i \<and> data w' i = d" and "q \<noteq> p \<Longrightarrow> names w' q = names w q"
proof -
  obtain f w1 f' where c: "file_create sf p w = (Inr f, w1)" "write_all_loop (length d) sf d f w1 = ((Inr (), f'), w')"
  proof -
    obtain f w1 where f: "file_create sf p w = (Inr f, w1)"
      "(case write_all_loop (length d) sf d f w1 of ((r, _), w'') \<Rightarrow> (r, w'')) = (Inr (), w')"
      using w unfolding fs_write_def and_then_Inr by blast
    obtain r f' w'' where l: "write_all_loop (length d) sf d f w1 = ((r, f'), w'')" by (metis prod.exhaust)
    then have "r = Inr ()" "w'' = w'" using f(2) by simp_all
    then show ?thesis by (intro that [OF f(1)]) (use l in simp)
  qed
  obtain i opts where f: "snd f = file_from_std" "opened w1 (fst f) = Some (i, opts)" "\<not> oo_append opts"
    "names w1 p = Some i" "data w1 i = []" and other: "\<forall>q. q \<noteq> p \<longrightarrow> names w1 q = names w q"
    by (rule file_create_law [OF ok c(1)]) (rule that)
  have idle: "af_write_busy (snd f) = None" "af_pos (snd f) = 0" using f(1) by (simp_all add: file_from_std_def)
  have "names w' = names w1 \<and> data w' i = d"
  proof (cases "d = []")
    case True
    then show ?thesis using c(2) f(5) by simp
  next
    case False
    show ?thesis
      using write_all_once [OF ok f(2,3) idle(1) False c(2)] f(5) idle(2) by (auto simp: write_at_empty)
  qed
  then show "\<exists>i. names w' p = Some i \<and> data w' i = d" "q \<noteq> p \<Longrightarrow> names w' q = names w q"
    using f(4) other by auto
qed

lemma fs_read_content:
  assumes ok: "std_fs_ok sf names data opened" and r: "fs_read sf p w = (Inr bs, w')"
    and c: "names w p = Some i" "length (data w i) < 2 ^ 64"
  shows "prefix bs (data w i)" "data w i \<noteq> [] \<Longrightarrow> bs \<noteq> []"
    and "names w' = names w" "data w' = data w"
proof -
  obtain f w1 md w2 where o: "file_open sf p w = (Inr f, w1)" "sf_file_metadata sf (fst f) w1 = (Inr md, w2)"
    "sf_read_at sf (fst f) (unat (md_len md)) 0 w2 = (Inr bs, w')"
    using r by (auto simp: fs_read_def file_read_all_def and_then_Inr)
  obtain opts where f: "opened w1 (fst f) = Some (i, opts)" "names w1 = names w" "data w1 = data w"
    using file_open_law [OF ok o(1)] c(1) by (metis option.inject)
  have w2: "same_files names data opened w1 w2" "md_len md = of_nat (length (data w i))"
    using metadata_law [OF ok o(2)] f by simp_all
  then have len: "unat (md_len md) = length (data w i)"
    using c(2) by (simp add: unat_of_nat take_bit_nat_eq_self)
  have f2: "opened w2 (fst f) = Some (i, opts)" "data w2 = data w" "names w2 = names w"
    using w2(1) f by (simp_all add: same_files_def)
  note rd = read_at_law [OF ok o(3)]
  show "prefix bs (data w i)" using rd(2) [OF refl f2(1)] f2 len by simp
  show "data w i \<noteq> [] \<Longrightarrow> bs \<noteq> []" using rd(3) [OF refl f2(1)] f2 len by auto
  show "names w' = names w" "data w' = data w" using rd(1) f2 by (simp_all add: same_files_def)
qed

section \<open>Properties\<close>

text \<open>
  C35. \<open>fs::write\<close> and \<open>fs::read\<close> round trip: when \<open>fs::write\<close> succeeds, the file at the path has exactly the given
  bytes, however long it was before, and no other name has changed; a following \<open>fs::read\<close> that
  succeeds returns a beginning of them, all of them unless the one \<open>read_at\<close> it makes is short, and
  nothing only when there is nothing.
\<close>
theorem fs_write_read_round_trip:
  assumes ok: "std_fs_ok sf names data opened" and w: "fs_write sf p d w = (Inr (), w1)" and len: "length d < 2 ^ 64"
    and r: "fs_read sf p w1 = (r, w2)"
  shows "(\<exists>i. names w1 p = Some i \<and> data w1 i = d) \<and> (\<forall>q. q \<noteq> p \<longrightarrow> names w1 q = names w q) \<and>
    (\<forall>bs. r = Inr bs \<longrightarrow> prefix bs d \<and> (length bs = length d \<longrightarrow> bs = d) \<and> (d \<noteq> [] \<longrightarrow> bs \<noteq> []))"
proof -
  obtain i where i: "names w1 p = Some i" "data w1 i = d" using fs_write_content(1) [OF ok w] by blast
  have "prefix bs d \<and> (length bs = length d \<longrightarrow> bs = d) \<and> (d \<noteq> [] \<longrightarrow> bs \<noteq> [])" if "r = Inr bs" for bs
  proof -
    have len': "length (data w1 i) < 2 ^ 64" and r': "fs_read sf p w1 = (Inr bs, w2)" using len i(2) r that by simp_all
    have pre: "prefix bs d" and "d \<noteq> [] \<longrightarrow> bs \<noteq> []"
      using fs_read_content(1,2) [OF ok r' i(1) len'] i(2) by simp_all
    moreover have "length bs = length d \<longrightarrow> bs = d" using pre by (auto simp: prefix_def)
    ultimately show ?thesis by blast
  qed
  then show ?thesis using i fs_write_content(2) [OF ok w] by simp
qed

lemma append_end_law:
  assumes ok: "std_fs_ok sf names data opened" and "append_end sf f w = (Inr e, w')"
    and f: "opened w (fst f) = Some (i, opts)"
  shows "same_files names data opened w w'" "e = of_nat (length (data w i))"
proof -
  obtain md where md: "sf_file_metadata sf (fst f) w = (Inr md, w')" "e = md_len md"
    using assms(2) by (auto simp: append_end_def and_then_Inr ok_job_def)
  then show "same_files names data opened w w'" "e = of_nat (length (data w i))"
    using metadata_law [OF ok md(1)] f by simp_all
qed

lemma append_write_law:
  assumes ok: "std_fs_ok sf names data opened" and "append_write sf f d e w = (Inr n, w')"
    and f: "opened w (fst f) = Some (i, opts)" "\<not> oo_append opts"
  shows "opened w' = opened w" "data w' = (data w)(i := write_at (data w i) (unat e) d)" "n = length d"
proof -
  have "sf_write_all_at sf (fst f) d e w = (Inr (), w')" and n: "n = length d"
    using assms(2) by (auto simp: append_write_def and_then_Inr ok_job_def)
  from write_all_at_law [OF ok this(1) f] n
  show "opened w' = opened w" "data w' = (data w)(i := write_at (data w i) (unat e) d)" "n = length d" by auto
qed

lemma write_at_end: "write_at c (length c) d = c @ d"
  by (simp add: write_at_def)

lemma write_at_inside: "write_at (c @ a) (length c) b = c @ b @ drop (length b) a"
  by (simp add: write_at_def)

text \<open>An \<open>append\<close> that no other write comes between appends exactly its data.\<close>

lemma file_append_alone:
  assumes ok: "std_fs_ok sf names data opened" and "file_append sf f d w = (Inr n, w')"
    and f: "opened w (fst f) = Some (i, opts)" "\<not> oo_append opts" "length (data w i) < 2 ^ 64"
  shows "data w' i = data w i @ d" "n = length d"
proof -
  obtain e w1 where a: "append_end sf f w = (Inr e, w1)" "append_write sf f d e w1 = (Inr n, w')"
    using assms(2) by (auto simp: file_append_def and_then_Inr)
  note e = append_end_law [OF ok a(1) f(1)]
  have w1: "opened w1 (fst f) = Some (i, opts)" "data w1 = data w" using e(1) f(1) by (simp_all add: same_files_def)
  have "unat e = length (data w i)" using e(2) f(3) by (simp add: unat_of_nat take_bit_nat_eq_self)
  then show "data w' i = data w i @ d" "n = length d"
    using append_write_law [OF ok a(2) w1(1) f(2)] w1(2) by (simp_all add: write_at_end)
qed

text \<open>
  Two appends to one file whose jobs interleave (both take the length before either writes) both
  report success, and the second overwrites the first: of the first data only what reaches beyond
  the second is left.
\<close>
theorem interleaved_appends_overwrite:
  assumes ok: "std_fs_ok sf names data opened"
    and f: "opened w (fst f) = Some (i, opts)" "\<not> oo_append opts" "length (data w i) < 2 ^ 64"
    and "append_end sf f w = (Inr e1, w1)" "append_end sf f w1 = (Inr e2, w2)"
    and "append_write sf f a e1 w2 = (Inr n1, w3)" "append_write sf f b e2 w3 = (Inr n2, w4)"
  shows "n1 = length a \<and> n2 = length b \<and> data w4 i = data w i @ b @ drop (length b) a"
proof -
  note l1 = append_end_law [OF ok assms(5) f(1)]
  have w1: "opened w1 (fst f) = Some (i, opts)" "data w1 = data w" using l1(1) f(1) by (simp_all add: same_files_def)
  note l2 = append_end_law [OF ok assms(6) w1(1)]
  have w2: "opened w2 (fst f) = Some (i, opts)" "data w2 = data w" using l2(1) w1 by (simp_all add: same_files_def)
  have e: "unat e1 = length (data w i)" "unat e2 = length (data w i)"
    using l1(2) l2(2) w1(2) f(3) by (simp_all add: unat_of_nat take_bit_nat_eq_self)
  note l3 = append_write_law [OF ok assms(7) w2(1) f(2)]
  have w3: "opened w3 (fst f) = Some (i, opts)" "data w3 i = data w i @ a"
    using l3(1,2) w2 e(1) by (simp_all add: write_at_end)
  note l4 = append_write_law [OF ok assms(8) w3(1) f(2)]
  show ?thesis using l3(3) l4(2,3) w3(2) e(2) by (simp add: write_at_inside)
qed

section \<open>Examples\<close>

text \<open>A file system in memory, which the laws hold of.\<close>

record mem_files =
  mf_names :: "(path \<times> nat) list"
  mf_data :: "nat \<Rightarrow> byte list"
  mf_fds :: "(nat \<times> fd_info) list"

definition above :: "nat list \<Rightarrow> nat" where
  "above ns = Suc (foldr max ns 0)"

definition mem_file_open :: "open_options \<Rightarrow> path \<Rightarrow> mem_files \<Rightarrow> nat io_result \<times> mem_files" where
  "mem_file_open opts p w =
     (let h = above (map fst (mf_fds w))
      in case map_of (mf_names w) p of
           Some i \<Rightarrow>
             if oo_create_new opts then (Inl (Os 17), w)
             else (Inr h, w\<lparr>mf_data := (if oo_truncate opts then (mf_data w)(i := []) else mf_data w),
                            mf_fds := (h, (i, opts)) # mf_fds w\<rparr>)
         | None \<Rightarrow>
             if oo_create opts \<or> oo_create_new opts
             then (let i = above (map snd (mf_names w))
                   in (Inr h, w\<lparr>mf_names := (p, i) # mf_names w, mf_data := (mf_data w)(i := []),
                                mf_fds := (h, (i, opts)) # mf_fds w\<rparr>))
             else (Inl (Os 2), w))"

definition mem_metadata :: "nat \<Rightarrow> mem_files \<Rightarrow> metadata io_result \<times> mem_files" where
  "mem_metadata h w =
     (case map_of (mf_fds w) h of
        None \<Rightarrow> (Inl (Os 9), w)
      | Some (i, _) \<Rightarrow>
          (Inr \<lparr>md_type = IsFile, md_len = of_nat (length (mf_data w i)), md_permissions = 420, md_modified = Inr 0,
                md_accessed = Inr 0, md_created = Inr 0\<rparr>, w))"

definition mem_read_at :: "nat \<Rightarrow> nat \<Rightarrow> u64 \<Rightarrow> mem_files \<Rightarrow> byte list io_result \<times> mem_files" where
  "mem_read_at h n off w =
     (case map_of (mf_fds w) h of
        None \<Rightarrow> (Inl (Os 9), w)
      | Some (i, _) \<Rightarrow> (Inr (take n (drop (unat off) (mf_data w i))), w))"

definition mem_write_all_at :: "nat \<Rightarrow> byte list \<Rightarrow> u64 \<Rightarrow> mem_files \<Rightarrow> unit io_result \<times> mem_files" where
  "mem_write_all_at h buf off w =
     (case map_of (mf_fds w) h of
        None \<Rightarrow> (Inl (Os 9), w)
      | Some (i, opts) \<Rightarrow>
          (Inr (), w\<lparr>mf_data := (mf_data w)(i := write_at (mf_data w i)
             (if oo_append opts then length (mf_data w i) else unat off) buf)\<rparr>))"

definition mem_std_fs :: "mem_files std_fs" where
  "mem_std_fs = \<lparr>sf_open = mem_file_open, sf_file_metadata = mem_metadata, sf_set_len = (\<lambda>_ _ w. (Inl (Os 95), w)),
     sf_sync_all = (\<lambda>_ w. (Inr (), w)), sf_read_at = mem_read_at, sf_write_all_at = mem_write_all_at,
     sf_dir_builder = (\<lambda>_ _ _ w. (Inl (Os 95), w)), sf_create_dir = (\<lambda>_ w. (Inl (Os 95), w)),
     sf_create_dir_all = (\<lambda>_ w. (Inl (Os 95), w)), sf_remove_dir = (\<lambda>_ w. (Inl (Os 95), w)),
     sf_remove_dir_all = (\<lambda>_ w. (Inl (Os 95), w)), sf_remove_file = (\<lambda>_ w. (Inl (Os 95), w)),
     sf_rename = (\<lambda>_ _ w. (Inl (Os 95), w)), sf_copy = (\<lambda>_ _ w. (Inl (Os 95), w)),
     sf_hard_link = (\<lambda>_ _ w. (Inl (Os 95), w)), sf_canonicalize = (\<lambda>_ w. (Inl (Os 95), w)),
     sf_read_link = (\<lambda>_ w. (Inl (Os 95), w)), sf_metadata = (\<lambda>_ w. (Inl (Os 95), w)),
     sf_symlink_metadata = (\<lambda>_ w. (Inl (Os 95), w)), sf_set_permissions = (\<lambda>_ _ w. (Inl (Os 95), w)),
     sf_read_dir = (\<lambda>_ w. (Inr [], w))\<rparr>"

lemma above_fresh: "above ns \<notin> set ns"
proof -
  have "n \<le> foldr max ns 0" if "n \<in> set ns" for n
    using that by (induction ns) auto
  then show ?thesis by (fastforce simp: above_def)
qed

lemma mem_fs_ok: "std_fs_ok mem_std_fs (\<lambda>w. map_of (mf_names w)) mf_data (\<lambda>w. map_of (mf_fds w))"
proof -
  have fd: "map_of (mf_fds w) (above (map fst (mf_fds w))) = None" for w
    using above_fresh [of "map fst (mf_fds w)"] by (simp add: map_of_eq_None_iff)
  have ino: "above (map snd (mf_names w)) \<notin> ran (map_of (mf_names w))" for w
    using above_fresh [of "map snd (mf_names w)"] by (force simp: ran_def dest: map_of_SomeD)
  have "open_law mem_std_fs (\<lambda>w. map_of (mf_names w)) mf_data (\<lambda>w. map_of (mf_fds w))"
    unfolding open_law_def using fd ino
    by (auto simp: mem_std_fs_def mem_file_open_def Let_def split: option.splits if_splits)
  moreover have "read_law mem_std_fs (\<lambda>w. map_of (mf_names w)) mf_data (\<lambda>w. map_of (mf_fds w))"
    unfolding read_law_def
    by (auto simp: mem_std_fs_def mem_metadata_def mem_read_at_def same_files_def split: option.splits)
  moreover have "write_law mem_std_fs (\<lambda>w. map_of (mf_names w)) mf_data (\<lambda>w. map_of (mf_fds w))"
    unfolding write_law_def
    by (auto simp: mem_std_fs_def mem_write_all_at_def intro!: exI [of _ "length _"] split: option.splits)
  ultimately show ?thesis by (simp add: std_fs_ok_def)
qed

definition demo_fs :: mem_files where
  "demo_fs = \<lparr>mf_names = [(''a'', 1)], mf_data = (\<lambda>_. [1, 2, 3, 4]), mf_fds = [(3, (1, open_options_new\<lparr>oo_write := True\<rparr>))]\<rparr>"

lemma demo_fs_runs:
  "fst (fs_write mem_std_fs ''a'' [7, 8] demo_fs) = Inr ()"
  "fst (fs_read mem_std_fs ''a'' (snd (fs_write mem_std_fs ''a'' [7, 8] demo_fs))) = Inr [7, 8]"
  by code_simp+

theorem fs_write_read_round_trip_witness:
  "fst (fs_read mem_std_fs ''a'' (snd (fs_write mem_std_fs ''a'' [7, 8] demo_fs))) = Inr [7, 8] \<and> prefix [7, 8 :: byte] [7, 8]"
proof -
  obtain w1 where w1: "fs_write mem_std_fs ''a'' [7, 8] demo_fs = (Inr (), w1)"
    using demo_fs_runs(1) by (metis prod.collapse)
  obtain w2 where w2: "fs_read mem_std_fs ''a'' w1 = (Inr [7, 8], w2)"
    using demo_fs_runs(2) w1 by (metis prod.collapse snd_conv)
  show ?thesis
    using fs_write_read_round_trip [OF mem_fs_ok w1 _ w2] demo_fs_runs(2) by simp
qed

theorem interleaved_appends_overwrite_witness:
  "\<exists>w2 w3 w4. append_write mem_std_fs (3, file_from_std) [7] 4 w2 = (Inr 1, w3) \<and>
     append_write mem_std_fs (3, file_from_std) [8] 4 w3 = (Inr 1, w4) \<and> mf_data w4 1 = [1, 2, 3, 4, 8]"
proof -
  let ?f = "(3 :: nat, file_from_std)"
  obtain w1 where w1: "append_end mem_std_fs ?f demo_fs = (Inr 4, w1)"
    by (simp add: append_end_def and_then_def ok_job_def mem_std_fs_def mem_metadata_def demo_fs_def)
  obtain w2 where w2: "append_end mem_std_fs ?f w1 = (Inr 4, w2)"
    using w1 by (auto simp: append_end_def and_then_def ok_job_def mem_std_fs_def mem_metadata_def demo_fs_def)
  obtain w3 where w3: "append_write mem_std_fs ?f [7] 4 w2 = (Inr 1, w3)"
    using w1 w2
    by (auto simp: append_end_def append_write_def and_then_def ok_job_def mem_std_fs_def mem_metadata_def mem_write_all_at_def
        demo_fs_def)
  obtain w4 where w4: "append_write mem_std_fs ?f [8] 4 w3 = (Inr 1, w4)"
    using w1 w2 w3
    by (auto simp: append_end_def append_write_def and_then_def ok_job_def mem_std_fs_def mem_metadata_def mem_write_all_at_def
        demo_fs_def)
  have f: "map_of (mf_fds demo_fs) (fst ?f) = Some (1, open_options_new\<lparr>oo_write := True\<rparr>)"
    "\<not> oo_append (open_options_new\<lparr>oo_write := True\<rparr>)" "length (mf_data demo_fs 1) < 2 ^ 64"
    by (simp_all add: demo_fs_def open_options_new_def)
  show ?thesis
    using interleaved_appends_overwrite [OF mem_fs_ok f w1 w2 w3 w4] w3 w4
    by (intro exI [of _ w2] exI [of _ w3] exI [of _ w4]) (simp add: demo_fs_def)
qed

text \<open>
  \<open>read_all\<close> makes one \<open>read_at\<close>.  On a file system whose reads return one byte at a time, which \<open>pread\<close> allows, it
  returns the first byte of the file as the entire file.
\<close>

definition slow_std_fs :: "mem_files std_fs" where
  "slow_std_fs = mem_std_fs\<lparr>sf_read_at := (\<lambda>h n. mem_read_at h (min n 1))\<rparr>"

lemma read_all_can_be_short: "fst (fs_read slow_std_fs ''a'' demo_fs) = Inr [1]"
  by code_simp

end
