(* ===== verification/Async_Socket_Life.thy ===== *)
theory Async_Socket_Life
  imports Async_Net_Model
begin

text \<open>
  How the sockets of \<open>rust_async/net.rs\<close> and \<open>os/unix/net.rs\<close> come to be and end: their constructors, the
  shared ownership of a stream by its clones, and the options they pass to the system.  The system's
  side is the table of open descriptors with the state of each; its answers are arguments.
\<close>

section \<open>Descriptors\<close>

record os_sock =
  os_nonblocking :: bool
  os_nodelay :: bool
  os_ttl :: "32 word"
  os_broadcast :: bool
  os_multicast_loop :: bool
  os_groups :: "(32 word \<times> 32 word) list"
  os_shut_read :: bool
  os_shut_write :: bool

type_synonym net_env = "raw_fd \<rightharpoonup> os_sock"

type_synonym 'a net_call = "net_env \<Rightarrow> 'a io_result \<times> net_env"

definition new_sock :: os_sock where
  "new_sock = \<lparr>os_nonblocking = False, os_nodelay = False, os_ttl = 64, os_broadcast = False, os_multicast_loop = True,
     os_groups = [], os_shut_read = False, os_shut_write = False\<rparr>"

text \<open>A call that returns a new descriptor, one that changes a socket, one that reads it; \<open>None\<close> is success.\<close>

definition sys_new_fd :: "raw_fd io_result \<Rightarrow> raw_fd net_call" where
  "sys_new_fd ans env = (case ans of Inl e \<Rightarrow> (Inl e, env) | Inr fd \<Rightarrow> (Inr fd, env(fd \<mapsto> new_sock)))"

definition sys_set :: "io_error option \<Rightarrow> (os_sock \<Rightarrow> os_sock) \<Rightarrow> raw_fd \<Rightarrow> unit net_call" where
  "sys_set ans f fd env =
     (case ans of Some e \<Rightarrow> (Inl e, env) | None \<Rightarrow> (Inr (), env(fd := map_option f (env fd))))"

definition sys_get :: "io_error option \<Rightarrow> (os_sock \<Rightarrow> 'v) \<Rightarrow> raw_fd \<Rightarrow> 'v net_call" where
  "sys_get ans f fd env =
     (case ans of
        Some e \<Rightarrow> (Inl e, env)
      | None \<Rightarrow> (case env fd of Some s \<Rightarrow> (Inr (f s), env) | None \<Rightarrow> (Inl (Os 9), env)))"

definition close_fd :: "raw_fd \<Rightarrow> net_env \<Rightarrow> net_env" where
  "close_fd fd env = env(fd := None)"

section \<open>Constructors\<close>

text \<open>
  The operator \<open>?\<close>, and the drop of a descriptor that a local variable owns: an early return closes it.
\<close>

definition net_ok :: "'a \<Rightarrow> 'a net_call" where
  "net_ok x env = (Inr x, env)"

definition net_bind :: "'a net_call \<Rightarrow> ('a \<Rightarrow> 'b net_call) \<Rightarrow> 'b net_call" where
  "net_bind f g env = (case f env of (Inl e, env') \<Rightarrow> (Inl e, env') | (Inr x, env') \<Rightarrow> g x env')"

definition with_fd :: "raw_fd \<Rightarrow> 'a net_call \<Rightarrow> 'a net_call" where
  "with_fd fd f env = (case f env of (Inl e, env') \<Rightarrow> (Inl e, close_fd fd env') | (Inr x, env') \<Rightarrow> (Inr x, env'))"

text \<open>An asynchronous socket is its descriptor and its source; \<open>nb\<close> is the answer of \<open>set_nonblocking(true)\<close>.\<close>

type_synonym async_socket = "raw_fd \<times> source_state"

definition set_nonblocking :: "io_error option \<Rightarrow> raw_fd \<Rightarrow> unit net_call" where
  "set_nonblocking nb = sys_set nb (\<lambda>s. s\<lparr>os_nonblocking := True\<rparr>)"

definition async_new :: "io_error option \<Rightarrow> raw_fd \<Rightarrow> async_socket net_call" where
  "async_new nb fd = with_fd fd (net_bind (set_nonblocking nb fd) (\<lambda>_. net_ok (fd, source_new)))"

definition tcp_listener_bind :: "raw_fd io_result \<Rightarrow> io_error option \<Rightarrow> async_socket net_call" where
  "tcp_listener_bind ans nb =
     net_bind (sys_new_fd ans) (\<lambda>fd. with_fd fd (net_bind (set_nonblocking nb fd) (\<lambda>_. net_ok (fd, source_new))))"

definition udp_bind :: "raw_fd io_result \<Rightarrow> io_error option \<Rightarrow> async_socket net_call" where
  "udp_bind ans nb =
     net_bind (sys_new_fd ans) (\<lambda>fd. with_fd fd (net_bind (set_nonblocking nb fd) (\<lambda>_. net_ok (fd, source_new))))"

definition unix_stream_new :: "io_error option \<Rightarrow> raw_fd \<Rightarrow> async_socket net_call" where
  "unix_stream_new nb fd = with_fd fd (net_bind (set_nonblocking nb fd) (\<lambda>_. net_ok (fd, source_new)))"

definition unix_connect :: "raw_fd io_result \<Rightarrow> io_error option \<Rightarrow> async_socket net_call" where
  "unix_connect ans nb = net_bind (sys_new_fd ans) (unix_stream_new nb)"

definition unix_listener_bind :: "raw_fd io_result \<Rightarrow> io_error option \<Rightarrow> async_socket net_call" where
  "unix_listener_bind ans nb =
     net_bind (sys_new_fd ans) (\<lambda>fd. with_fd fd (net_bind (set_nonblocking nb fd) (\<lambda>_. net_ok (fd, source_new))))"

definition unix_datagram_from_std :: "io_error option \<Rightarrow> raw_fd \<Rightarrow> async_socket net_call" where
  "unix_datagram_from_std nb fd = with_fd fd (net_bind (set_nonblocking nb fd) (\<lambda>_. net_ok (fd, source_new)))"

definition unix_datagram_bind :: "raw_fd io_result \<Rightarrow> io_error option \<Rightarrow> async_socket net_call" where
  "unix_datagram_bind ans nb = net_bind (sys_new_fd ans) (unix_datagram_from_std nb)"

definition unix_datagram_unbound :: "raw_fd io_result \<Rightarrow> io_error option \<Rightarrow> async_socket net_call" where
  "unix_datagram_unbound ans nb = net_bind (sys_new_fd ans) (unix_datagram_from_std nb)"

text \<open>
  \<open>pair\<close>: both ends exist before either is made non-blocking.  The second end is still a local variable
  while the first is wrapped; the wrapped first end is a temporary while the second is.
\<close>

definition sys_pair :: "(raw_fd \<times> raw_fd) io_result \<Rightarrow> (raw_fd \<times> raw_fd) net_call" where
  "sys_pair ans env =
     (case ans of Inl e \<Rightarrow> (Inl e, env) | Inr (a, b) \<Rightarrow> (Inr (a, b), env(a \<mapsto> new_sock, b \<mapsto> new_sock)))"

definition unix_stream_pair ::
    "(raw_fd \<times> raw_fd) io_result \<Rightarrow> io_error option \<Rightarrow> io_error option \<Rightarrow> (async_socket \<times> async_socket) net_call" where
  "unix_stream_pair ans nb1 nb2 =
     net_bind (sys_pair ans) (\<lambda>(a, b).
       net_bind (with_fd b (unix_stream_new nb1 a)) (\<lambda>x.
         net_bind (with_fd (fst x) (unix_stream_new nb2 b)) (\<lambda>y. net_ok (x, y))))"

definition unix_datagram_pair ::
    "(raw_fd \<times> raw_fd) io_result \<Rightarrow> io_error option \<Rightarrow> io_error option \<Rightarrow> (async_socket \<times> async_socket) net_call" where
  "unix_datagram_pair ans nb1 nb2 =
     net_bind (sys_pair ans) (\<lambda>(a, b).
       net_bind (with_fd b (unix_datagram_from_std nb1 a)) (\<lambda>x.
         net_bind (with_fd (fst x) (unix_datagram_from_std nb2 b)) (\<lambda>y. net_ok (x, y))))"

section \<open>Connecting over TCP\<close>

text \<open>What one attempt meets: the answers of \<open>socket\<close>, \<open>connect\<close>, \<open>set_nonblocking\<close> and \<open>getsockopt(SO_ERROR)\<close>.\<close>

record connect_answers =
  ca_socket :: "int + raw_fd"
  ca_connect :: "int + unit"
  ca_nonblocking :: "io_error option"
  ca_so_error :: "int + int"

text \<open>
  \<open>start_connect\<close> on the table of descriptors: \<open>socket\<close> with \<open>SOCK_NONBLOCK\<close> opens one, and the descriptors
  that \<open>start_connect\<close> closes are gone.
\<close>

definition tcp_start_connect :: "socket_addr \<Rightarrow> connect_answers \<Rightarrow> raw_fd net_call" where
  "tcp_start_connect addr a env =
     (case start_connect (\<lambda>_. ca_socket a) (\<lambda>_ _. ca_connect a) addr of
        (r, closed) \<Rightarrow>
          (r, fold close_fd closed
                (case ca_socket a of Inl _ \<Rightarrow> env | Inr fd \<Rightarrow> env(fd \<mapsto> new_sock\<lparr>os_nonblocking := True\<rparr>))))"

text \<open>\<open>connect_one\<close> up to \<open>conn.writable().await\<close>, and what follows when the socket has become writable.\<close>

definition tcp_connect_begin :: "socket_addr \<Rightarrow> connect_answers \<Rightarrow> async_socket net_call" where
  "tcp_connect_begin addr a = net_bind (tcp_start_connect addr a) (async_new (ca_nonblocking a))"

definition await_writable :: "nat \<Rightarrow> waker \<Rightarrow> source_state \<Rightarrow> source_state" where
  "await_writable io wk s =
     (let waiting = snd (snd (poll_writable io wk s)); ready = snd (snd (source_can_write io waiting))
      in snd (snd (poll_writable io wk ready)))"

definition tcp_connect_finish :: "(int + int) \<Rightarrow> async_socket \<Rightarrow> async_socket net_call" where
  "tcp_connect_finish so_error conn =
     with_fd (fst conn)
       (\<lambda>env. case take_socket_error so_error of
                Inl e \<Rightarrow> (Inl e, env)
              | Inr (Some err) \<Rightarrow> (Inl err, env)
              | Inr None \<Rightarrow> (Inr conn, env))"

definition tcp_connect_one :: "nat \<Rightarrow> waker \<Rightarrow> socket_addr \<Rightarrow> connect_answers \<Rightarrow> async_socket net_call" where
  "tcp_connect_one io wk addr a =
     net_bind (tcp_connect_begin addr a)
       (\<lambda>conn. tcp_connect_finish (ca_so_error a) (fst conn, await_writable io wk (snd conn)))"

text \<open>\<open>Async::connect\<close>: every resolved address comes with the answers its attempt would meet.\<close>

fun tcp_connect_loop ::
    "nat \<Rightarrow> waker \<Rightarrow> io_error option \<Rightarrow> (socket_addr \<times> connect_answers) list \<Rightarrow> async_socket net_call" where
  "tcp_connect_loop io wk last_err [] env = (Inl (case last_err of Some e \<Rightarrow> e | None \<Rightarrow> unresolved), env)"
| "tcp_connect_loop io wk last_err ((addr, a) # rest) env =
     (case tcp_connect_one io wk addr a env of
        (Inr conn, env') \<Rightarrow> (Inr conn, env')
      | (Inl e, env') \<Rightarrow> tcp_connect_loop io wk (Some e) rest env')"

definition tcp_async_connect ::
    "nat \<Rightarrow> waker \<Rightarrow> (socket_addr \<times> connect_answers) list io_result \<Rightarrow> async_socket net_call" where
  "tcp_async_connect io wk resolved env =
     (case resolved of Inl e \<Rightarrow> (Inl e, env) | Inr addrs \<Rightarrow> tcp_connect_loop io wk None addrs env)"

section \<open>Accepted connections\<close>

text \<open>The accepted connection of a Unix listener; \<open>Incoming\<close> of a Unix listener is the same loop as for TCP.\<close>

definition unix_accept ::
    "unit io_result \<Rightarrow> nat \<Rightarrow> waker \<Rightarrow> bool \<Rightarrow> (raw_fd \<times> byte list) io_result list \<Rightarrow> source_state \<Rightarrow>
       (raw_fd \<times> byte list) async_answer" where
  "unix_accept = listener_accept"

definition unix_incoming_poll_next ::
    "unit io_result \<Rightarrow> nat \<Rightarrow> waker \<Rightarrow> (raw_fd \<times> byte list) io_result list \<Rightarrow> source_state \<Rightarrow>
       (raw_fd io_result option poll \<times> (nat \<times> watch_mode) option \<times> source_state) option" where
  "unix_incoming_poll_next = incoming_poll_next"

definition unix_write_all :: "nat io_result list \<Rightarrow> byte list \<Rightarrow> (unit io_result \<times> byte list) option" where
  "unix_write_all = async_write_all"

text \<open>\<open>accept\<close> wraps the connection that the listener returned.\<close>

definition accepted_stream :: "raw_fd io_result \<Rightarrow> io_error option \<Rightarrow> async_socket net_call" where
  "accepted_stream ans nb = net_bind (sys_new_fd ans) (async_new nb)"

definition accepted_unix_stream :: "raw_fd io_result \<Rightarrow> io_error option \<Rightarrow> async_socket net_call" where
  "accepted_unix_stream ans nb = net_bind (sys_new_fd ans) (unix_stream_new nb)"

text \<open>All ways to get sockets from the system, with the answers they meet.\<close>

datatype socket_request =
    TcpConnect nat waker "(socket_addr \<times> connect_answers) list io_result"
  | TcpListen "raw_fd io_result" "io_error option"
  | TcpAccept "raw_fd io_result" "io_error option"
  | UdpBind "raw_fd io_result" "io_error option"
  | UnixConnect "raw_fd io_result" "io_error option"
  | UnixListen "raw_fd io_result" "io_error option"
  | UnixAccept "raw_fd io_result" "io_error option"
  | UnixPair "(raw_fd \<times> raw_fd) io_result" "io_error option" "io_error option"
  | DatagramBind "raw_fd io_result" "io_error option"
  | DatagramUnbound "raw_fd io_result" "io_error option"
  | DatagramPair "(raw_fd \<times> raw_fd) io_result" "io_error option" "io_error option"

definition one_socket :: "async_socket io_result \<times> net_env \<Rightarrow> async_socket list io_result \<times> net_env" where
  "one_socket r = (map_sum (\<lambda>e. e) (\<lambda>x. [x]) (fst r), snd r)"

definition two_sockets ::
    "(async_socket \<times> async_socket) io_result \<times> net_env \<Rightarrow> async_socket list io_result \<times> net_env" where
  "two_sockets r = (map_sum (\<lambda>e. e) (\<lambda>(x, y). [x, y]) (fst r), snd r)"

fun make_sockets :: "socket_request \<Rightarrow> async_socket list net_call" where
  "make_sockets (TcpConnect io wk resolved) env = one_socket (tcp_async_connect io wk resolved env)"
| "make_sockets (TcpListen ans nb) env = one_socket (tcp_listener_bind ans nb env)"
| "make_sockets (TcpAccept ans nb) env = one_socket (accepted_stream ans nb env)"
| "make_sockets (UdpBind ans nb) env = one_socket (udp_bind ans nb env)"
| "make_sockets (UnixConnect ans nb) env = one_socket (unix_connect ans nb env)"
| "make_sockets (UnixListen ans nb) env = one_socket (unix_listener_bind ans nb env)"
| "make_sockets (UnixAccept ans nb) env = one_socket (accepted_unix_stream ans nb env)"
| "make_sockets (UnixPair ans nb1 nb2) env = two_sockets (unix_stream_pair ans nb1 nb2 env)"
| "make_sockets (DatagramBind ans nb) env = one_socket (unix_datagram_bind ans nb env)"
| "make_sockets (DatagramUnbound ans nb) env = one_socket (unix_datagram_unbound ans nb env)"
| "make_sockets (DatagramPair ans nb1 nb2) env = two_sockets (unix_datagram_pair ans nb1 nb2 env)"

text \<open>
  The descriptors the system returns to a request; they are not open.  An attempt to connect that
  fails closes its descriptor, so the next attempt may get the same one.
\<close>

fun answered_fd :: "'e + raw_fd \<Rightarrow> raw_fd list" where
  "answered_fd (Inl e) = []"
| "answered_fd (Inr fd) = [fd]"

fun answered_fds :: "(raw_fd \<times> raw_fd) io_result \<Rightarrow> raw_fd list" where
  "answered_fds (Inl e) = []"
| "answered_fds (Inr (a, b)) = [a, b]"

fun new_fds :: "socket_request \<Rightarrow> raw_fd list" where
  "new_fds (TcpConnect io wk resolved) =
     (case resolved of Inl _ \<Rightarrow> [] | Inr addrs \<Rightarrow> concat (map (\<lambda>x. answered_fd (ca_socket (snd x))) addrs))"
| "new_fds (TcpListen ans nb) = answered_fd ans"
| "new_fds (TcpAccept ans nb) = answered_fd ans"
| "new_fds (UdpBind ans nb) = answered_fd ans"
| "new_fds (UnixConnect ans nb) = answered_fd ans"
| "new_fds (UnixListen ans nb) = answered_fd ans"
| "new_fds (UnixAccept ans nb) = answered_fd ans"
| "new_fds (UnixPair ans nb1 nb2) = answered_fds ans"
| "new_fds (DatagramBind ans nb) = answered_fd ans"
| "new_fds (DatagramUnbound ans nb) = answered_fd ans"
| "new_fds (DatagramPair ans nb1 nb2) = answered_fds ans"

fun connects :: "socket_request \<Rightarrow> bool" where
  "connects (TcpConnect io wk resolved) = True"
| "connects _ = False"

definition fds_fresh :: "socket_request \<Rightarrow> net_env \<Rightarrow> bool" where
  "fds_fresh req env \<longleftrightarrow>
     (connects req \<or> distinct (new_fds req)) \<and> (\<forall>fd\<in>set (new_fds req). env fd = None)"

section \<open>Options\<close>

definition tcp_set_nodelay :: "io_error option \<Rightarrow> bool \<Rightarrow> raw_fd \<Rightarrow> unit net_call" where
  "tcp_set_nodelay ans b = sys_set ans (\<lambda>s. s\<lparr>os_nodelay := b\<rparr>)"

definition tcp_nodelay :: "io_error option \<Rightarrow> raw_fd \<Rightarrow> bool net_call" where
  "tcp_nodelay ans = sys_get ans os_nodelay"

definition tcp_set_ttl :: "io_error option \<Rightarrow> 32 word \<Rightarrow> raw_fd \<Rightarrow> unit net_call" where
  "tcp_set_ttl ans v = sys_set ans (\<lambda>s. s\<lparr>os_ttl := v\<rparr>)"

definition tcp_ttl :: "io_error option \<Rightarrow> raw_fd \<Rightarrow> 32 word net_call" where
  "tcp_ttl ans = sys_get ans os_ttl"

definition udp_set_broadcast :: "io_error option \<Rightarrow> bool \<Rightarrow> raw_fd \<Rightarrow> unit net_call" where
  "udp_set_broadcast ans b = sys_set ans (\<lambda>s. s\<lparr>os_broadcast := b\<rparr>)"

definition udp_broadcast :: "io_error option \<Rightarrow> raw_fd \<Rightarrow> bool net_call" where
  "udp_broadcast ans = sys_get ans os_broadcast"

definition udp_set_ttl :: "io_error option \<Rightarrow> 32 word \<Rightarrow> raw_fd \<Rightarrow> unit net_call" where
  "udp_set_ttl ans v = sys_set ans (\<lambda>s. s\<lparr>os_ttl := v\<rparr>)"

definition udp_ttl :: "io_error option \<Rightarrow> raw_fd \<Rightarrow> 32 word net_call" where
  "udp_ttl ans = sys_get ans os_ttl"

definition udp_set_multicast_loop_v4 :: "io_error option \<Rightarrow> bool \<Rightarrow> raw_fd \<Rightarrow> unit net_call" where
  "udp_set_multicast_loop_v4 ans b = sys_set ans (\<lambda>s. s\<lparr>os_multicast_loop := b\<rparr>)"

definition udp_multicast_loop_v4 :: "io_error option \<Rightarrow> raw_fd \<Rightarrow> bool net_call" where
  "udp_multicast_loop_v4 ans = sys_get ans os_multicast_loop"

definition udp_join_multicast_v4 :: "io_error option \<Rightarrow> 32 word \<Rightarrow> 32 word \<Rightarrow> raw_fd \<Rightarrow> unit net_call" where
  "udp_join_multicast_v4 ans maddr iface = sys_set ans (\<lambda>s. s\<lparr>os_groups := (maddr, iface) # os_groups s\<rparr>)"

definition udp_leave_multicast_v4 :: "io_error option \<Rightarrow> 32 word \<Rightarrow> 32 word \<Rightarrow> raw_fd \<Rightarrow> unit net_call" where
  "udp_leave_multicast_v4 ans maddr iface = sys_set ans (\<lambda>s. s\<lparr>os_groups := remove1 (maddr, iface) (os_groups s)\<rparr>)"

datatype shutdown_how = ShutRead | ShutWrite | ShutBoth

definition shut :: "shutdown_how \<Rightarrow> os_sock \<Rightarrow> os_sock" where
  "shut how s =
     s\<lparr>os_shut_read := (os_shut_read s \<or> how \<noteq> ShutWrite), os_shut_write := (os_shut_write s \<or> how \<noteq> ShutRead)\<rparr>"

definition stream_shutdown :: "io_error option \<Rightarrow> shutdown_how \<Rightarrow> raw_fd \<Rightarrow> unit net_call" where
  "stream_shutdown ans how = sys_set ans (shut how)"

text \<open>\<open>poll_close\<close> is a half-close; \<open>poll_flush\<close> is the \<open>flush\<close> of a std stream, which buffers nothing.\<close>

definition stream_poll_close :: "io_error option \<Rightarrow> raw_fd \<Rightarrow> net_env \<Rightarrow> unit io_result poll \<times> net_env" where
  "stream_poll_close ans fd env = (case stream_shutdown ans ShutWrite fd env of (r, env') \<Rightarrow> (Ready r, env'))"

definition stream_poll_flush :: "raw_fd \<Rightarrow> net_env \<Rightarrow> unit io_result poll \<times> net_env" where
  "stream_poll_flush fd env = (Ready (Inr ()), env)"

definition unix_shutdown :: "io_error option \<Rightarrow> shutdown_how \<Rightarrow> raw_fd \<Rightarrow> unit net_call" where
  "unix_shutdown = stream_shutdown"

definition unix_poll_close :: "io_error option \<Rightarrow> raw_fd \<Rightarrow> net_env \<Rightarrow> unit io_result poll \<times> net_env" where
  "unix_poll_close = stream_poll_close"

definition unix_poll_flush :: "raw_fd \<Rightarrow> net_env \<Rightarrow> unit io_result poll \<times> net_env" where
  "unix_poll_flush = stream_poll_flush"

section \<open>Clones\<close>

text \<open>
  The \<open>Arc\<close> of a stream: how many clones of each descriptor there are; the std sockets the client owns
  (\<open>ns_std\<close>), which \<open>Async::new\<close> and \<open>UnixStream::new\<close> take over; and the connections a \<open>connect\<close> future owns
  while it waits for them to become writable.
\<close>

record net_sys =
  ns_env :: net_env
  ns_refs :: "raw_fd \<Rightarrow> nat"
  ns_std :: "raw_fd \<Rightarrow> bool"
  ns_connecting :: "raw_fd \<Rightarrow> bool"

definition stream_clone :: "raw_fd \<Rightarrow> net_sys \<Rightarrow> net_sys" where
  "stream_clone fd s = s\<lparr>ns_refs := (ns_refs s)(fd := Suc (ns_refs s fd))\<rparr>"

definition stream_drop :: "raw_fd \<Rightarrow> net_sys \<Rightarrow> net_sys" where
  "stream_drop fd s =
     (let n = ns_refs s fd - 1
      in s\<lparr>ns_refs := (ns_refs s)(fd := n), ns_env := (if n = 0 then close_fd fd (ns_env s) else ns_env s)\<rparr>)"

text \<open>What a constructor leaves: a handle for each of its sockets.\<close>

definition take_sockets :: "async_socket list io_result \<times> net_env \<Rightarrow> net_sys \<Rightarrow> net_sys" where
  "take_sockets out s =
     (case out of
        (Inl _, env) \<Rightarrow> s\<lparr>ns_env := env\<rparr>
      | (Inr socks, env) \<Rightarrow> s\<lparr>ns_env := env, ns_refs := fold (\<lambda>x refs. refs(fst x := 1)) socks (ns_refs s)\<rparr>)"

datatype life_label =
    Make socket_request
  | OpenStd raw_fd
  | DropStd raw_fd
  | WrapTcp raw_fd "io_error option"
  | WrapUnix raw_fd "io_error option"
  | ConnectBegin socket_addr connect_answers
  | ConnectEnd raw_fd source_state "int + int"
  | ConnectCancel raw_fd
  | CloneStream raw_fd
  | DropStream raw_fd
  | CloseHalf "io_error option" raw_fd

text \<open>A handle the client can use.\<close>

definition in_use :: "net_sys \<Rightarrow> raw_fd \<Rightarrow> bool" where
  "in_use s fd \<longleftrightarrow> 0 < ns_refs s fd \<and> \<not> ns_connecting s fd"

fun life_step :: "life_label \<Rightarrow> net_sys \<Rightarrow> net_sys option" where
  "life_step (Make req) s =
     (if fds_fresh req (ns_env s) then Some (take_sockets (make_sockets req (ns_env s)) s) else None)"
| "life_step (OpenStd fd) s =
     (if ns_env s fd = None
      then Some (s\<lparr>ns_env := (ns_env s)(fd \<mapsto> new_sock), ns_std := (ns_std s)(fd := True)\<rparr>) else None)"
| "life_step (DropStd fd) s =
     (if ns_std s fd then Some (s\<lparr>ns_env := close_fd fd (ns_env s), ns_std := (ns_std s)(fd := False)\<rparr>) else None)"
| "life_step (WrapTcp fd nb) s =
     (if ns_std s fd
      then Some (take_sockets (one_socket (async_new nb fd (ns_env s))) (s\<lparr>ns_std := (ns_std s)(fd := False)\<rparr>)) else None)"
| "life_step (WrapUnix fd nb) s =
     (if ns_std s fd
      then Some (take_sockets (one_socket (unix_stream_new nb fd (ns_env s))) (s\<lparr>ns_std := (ns_std s)(fd := False)\<rparr>)) else None)"
| "life_step (ConnectBegin addr a) s =
     (if \<forall>fd\<in>set (answered_fd (ca_socket a)). ns_env s fd = None
      then (case tcp_connect_begin addr a (ns_env s) of
              (Inl _, env) \<Rightarrow> Some (s\<lparr>ns_env := env\<rparr>)
            | (Inr conn, env) \<Rightarrow>
                Some (s\<lparr>ns_env := env, ns_refs := (ns_refs s)(fst conn := 1),
                        ns_connecting := (ns_connecting s)(fst conn := True)\<rparr>))
      else None)"
| "life_step (ConnectEnd fd src so_error) s =
     (if ns_connecting s fd
      then (case tcp_connect_finish so_error (fd, src) (ns_env s) of
              (Inl _, env) \<Rightarrow>
                Some (s\<lparr>ns_env := env, ns_refs := (ns_refs s)(fd := 0), ns_connecting := (ns_connecting s)(fd := False)\<rparr>)
            | (Inr _, env) \<Rightarrow> Some (s\<lparr>ns_env := env, ns_connecting := (ns_connecting s)(fd := False)\<rparr>))
      else None)"
| "life_step (ConnectCancel fd) s =
     (if ns_connecting s fd then Some ((stream_drop fd s)\<lparr>ns_connecting := (ns_connecting s)(fd := False)\<rparr>) else None)"
| "life_step (CloneStream fd) s = (if in_use s fd then Some (stream_clone fd s) else None)"
| "life_step (DropStream fd) s = (if in_use s fd then Some (stream_drop fd s) else None)"
| "life_step (CloseHalf ans fd) s =
     (if in_use s fd then Some (s\<lparr>ns_env := snd (stream_poll_close ans fd (ns_env s))\<rparr>) else None)"

definition life_start :: net_sys where
  "life_start = \<lparr>ns_env = (\<lambda>_. None), ns_refs = (\<lambda>_. 0), ns_std = (\<lambda>_. False), ns_connecting = (\<lambda>_. False)\<rparr>"

definition life_init :: "net_sys \<Rightarrow> bool" where
  "life_init s \<longleftrightarrow> s = life_start"

section \<open>What the constructors leave\<close>

definition ready_sock :: os_sock where
  "ready_sock = new_sock\<lparr>os_nonblocking := True\<rparr>"

text \<open>A source that nobody waits on and that has nothing armed or latched.\<close>

definition source_idle :: "source_state \<Rightarrow> bool" where
  "source_idle s \<longleftrightarrow> ss_read_waker s = None \<and> ss_write_waker s = None \<and> \<not> ss_read_ready s \<and> \<not> ss_write_ready s \<and>
     ss_armed s = None"

lemma source_new_idle [simp]: "source_idle source_new"
  by (simp add: source_idle_def source_new_def)

lemma await_writable_idle [simp]: "source_idle s \<Longrightarrow> source_idle (await_writable io wk s)"
  by (simp add: await_writable_def source_idle_def poll_writable_def source_can_write_def update_arm_def desired_mode_def
      Let_def split: option.splits)

lemmas net_op_defs = net_bind_def net_ok_def with_fd_def set_nonblocking_def sys_set_def sys_new_fd_def sys_pair_def close_fd_def

lemma wrap_result:
  assumes "env fd = Some k"
  shows "async_new nb fd env =
    (case nb of None \<Rightarrow> (Inr (fd, source_new), env(fd \<mapsto> k\<lparr>os_nonblocking := True\<rparr>)) | Some e \<Rightarrow> (Inl e, env(fd := None)))"
    and "unix_stream_new = async_new" "unix_datagram_from_std = async_new"
  using assms
  by (auto simp: async_new_def unix_stream_new_def unix_datagram_from_std_def net_op_defs fun_eq_iff split: option.splits)

lemma fun_upd_undo: "env a = None \<Longrightarrow> env(a := None) = env"
  by (simp add: fun_upd_idem)

text \<open>What a request leaves: all its sockets, or an error and the descriptors that were open before.\<close>

definition request_outcome :: "raw_fd list \<Rightarrow> net_env \<Rightarrow> async_socket list io_result \<times> net_env \<Rightarrow> bool" where
  "request_outcome fds env out =
     (case out of
        (Inl _, env') \<Rightarrow> env' = env
      | (Inr socks, env') \<Rightarrow> fds \<noteq> [] \<and> map fst socks = fds \<and> (\<forall>x\<in>set socks. source_idle (snd x)) \<and>
          env' = (\<lambda>fd. if fd \<in> set fds then Some ready_sock else env fd))"

lemma new_socket_outcome:
  assumes "\<forall>fd\<in>set (answered_fd ans). env fd = None"
  shows "request_outcome (answered_fd ans) env (one_socket (net_bind (sys_new_fd ans) (async_new nb) env))"
proof (cases ans)
  case (Inr fd)
  note wrap = wrap_result(1) [of "env(fd \<mapsto> new_sock)" fd new_sock, simplified]
  show ?thesis
    using assms Inr by (cases nb)
      (auto simp: request_outcome_def one_socket_def net_bind_def sys_new_fd_def wrap ready_sock_def fun_upd_undo)
qed (simp add: request_outcome_def one_socket_def net_bind_def sys_new_fd_def)

lemma new_pair_outcome:
  assumes "\<forall>fd\<in>set (answered_fds ans). env fd = None" "distinct (answered_fds ans)"
  shows "request_outcome (answered_fds ans) env (two_sockets
    (net_bind (sys_pair ans) (\<lambda>(a, b).
       net_bind (with_fd b (async_new nb1 a)) (\<lambda>x.
         net_bind (with_fd (fst x) (async_new nb2 b)) (\<lambda>y. net_ok (x, y)))) env))"
proof (cases ans)
  case (Inr ab)
  obtain a b where ab: "ab = (a, b)" by (rule prod.exhaust)
  have n: "a \<noteq> b" "env a = None" "env b = None" using assms Inr ab by simp_all
  let ?e = "env(a \<mapsto> new_sock, b \<mapsto> new_sock)" and ?k = "new_sock\<lparr>os_nonblocking := True\<rparr>"
  have first: "async_new nb a ?e =
      (case nb of None \<Rightarrow> (Inr (a, source_new), ?e(a \<mapsto> ?k)) | Some e \<Rightarrow> (Inl e, ?e(a := None)))" for nb
    by (rule wrap_result) (use n(1) in simp)
  let ?e' = "env(b \<mapsto> new_sock, a \<mapsto> ?k)"
  have second: "async_new nb b ?e' =
      (case nb of None \<Rightarrow> (Inr (b, source_new), ?e'(b \<mapsto> ?k)) | Some e \<Rightarrow> (Inl e, ?e'(b := None)))" for nb
    by (rule wrap_result) (use n(1) in simp)
  show ?thesis
    unfolding Inr ab
    by (cases nb1; cases nb2; use n in \<open>simp add: request_outcome_def two_sockets_def net_bind_def sys_pair_def with_fd_def
        net_ok_def close_fd_def first second ready_sock_def fun_eq_iff\<close>)
qed (simp add: request_outcome_def two_sockets_def net_bind_def sys_pair_def)

text \<open>An attempt to connect: it fails and closes what it opened, or its socket is open and non-blocking.\<close>

lemma connect_begin_result:
  assumes "\<forall>fd\<in>set (answered_fd (ca_socket a)). env fd = None" "tcp_connect_begin addr a env = (r, env')"
  shows "case r of Inl _ \<Rightarrow> env' = env
    | Inr conn \<Rightarrow> ca_socket a = Inr (fst conn) \<and> snd conn = source_new \<and> env' = env(fst conn \<mapsto> ready_sock)"
proof (cases "ca_socket a")
  case (Inl e)
  then show ?thesis
    using assms(2) by (auto simp: tcp_connect_begin_def tcp_start_connect_def net_bind_def start_connect_def)
next
  case (Inr fd)
  have f: "env fd = None" using assms(1) Inr by simp
  note wrap = wrap_result(1) [of "env(fd \<mapsto> ready_sock)" fd ready_sock, simplified]
  have "ready_sock\<lparr>os_nonblocking := True\<rparr> = ready_sock" by (simp add: ready_sock_def)
  then show ?thesis
    using assms(2) Inr f wrap [of "ca_nonblocking a"]
    by (auto simp: tcp_connect_begin_def tcp_start_connect_def net_bind_def start_connect_def close_fd_def
        ready_sock_def [symmetric] fun_upd_undo split: sum.splits if_splits option.splits)
qed

lemma connect_finish_result:
  assumes "tcp_connect_finish so_error conn env = (r, env')"
  shows "case r of Inl _ \<Rightarrow> env' = env(fst conn := None) | Inr conn' \<Rightarrow> conn' = conn \<and> env' = env"
  using assms by (auto simp: tcp_connect_finish_def with_fd_def close_fd_def split: sum.splits option.splits)

lemma connect_loop_outcome:
  assumes "\<forall>x\<in>set addrs. \<forall>fd\<in>set (answered_fd (ca_socket (snd x))). env fd = None"
    and "tcp_connect_loop io wk last_err addrs env = (r, env')"
  shows "case r of Inl _ \<Rightarrow> env' = env
    | Inr conn \<Rightarrow> fst conn \<in> set (concat (map (\<lambda>x. answered_fd (ca_socket (snd x))) addrs)) \<and> source_idle (snd conn) \<and>
        env' = env(fst conn \<mapsto> ready_sock)"
  using assms
proof (induction addrs arbitrary: last_err)
  case (Cons x addrs)
  obtain addr a where x: "x = (addr, a)" by (rule prod.exhaust)
  obtain r1 env1 where one: "tcp_connect_one io wk addr a env = (r1, env1)" by (rule prod.exhaust)
  obtain r0 env0 where b: "tcp_connect_begin addr a env = (r0, env0)" by (rule prod.exhaust)
  have fresh: "\<forall>fd\<in>set (answered_fd (ca_socket a)). env fd = None" using Cons.prems(1) x by simp
  have one_result: "case r1 of Inl _ \<Rightarrow> env1 = env
    | Inr conn \<Rightarrow> ca_socket a = Inr (fst conn) \<and> source_idle (snd conn) \<and> env1 = env(fst conn \<mapsto> ready_sock)"
    using connect_begin_result [OF fresh b] one b fresh connect_finish_result [of "ca_so_error a" _ env0 r1 env1]
    by (cases r0) (fastforce simp: tcp_connect_one_def net_bind_def fun_upd_undo split: sum.splits)+
  show ?case
  proof (cases r1)
    case (Inl e)
    then have "tcp_connect_loop io wk (Some e) addrs env = (r, env')" using Cons.prems(2) one one_result x by simp
    note ih = Cons.IH [OF _ this]
    show ?thesis
    proof (cases r)
      case (Inr conn)
      have "fst conn \<in> set (concat (map (\<lambda>x. answered_fd (ca_socket (snd x))) addrs)) \<and> source_idle (snd conn) \<and>
          env' = env(fst conn \<mapsto> ready_sock)"
        using ih Cons.prems(1) Inr by simp
      then show ?thesis using Inr by simp
    qed (use ih Cons.prems(1) in simp)
  next
    case (Inr conn)
    then show ?thesis using Cons.prems(2) one one_result x by auto
  qed
qed auto

section \<open>Invariant\<close>

text \<open>
  A descriptor is open exactly while some clone of its socket or its std socket exists, the sockets of
  this crate do not block, and a connecting future has the only handle.
\<close>

fun fd_ok :: "os_sock option \<Rightarrow> nat \<Rightarrow> bool \<Rightarrow> bool \<Rightarrow> bool" where
  "fd_ok None refs std connecting \<longleftrightarrow> refs = 0 \<and> \<not> std \<and> \<not> connecting"
| "fd_ok (Some k) refs std connecting \<longleftrightarrow>
     (if std then refs = 0 \<and> \<not> connecting else 0 < refs \<and> os_nonblocking k \<and> (connecting \<longrightarrow> refs = 1))"

definition life_inv :: "net_sys \<Rightarrow> bool" where
  "life_inv s \<longleftrightarrow> (\<forall>fd. fd_ok (ns_env s fd) (ns_refs s fd) (ns_std s fd) (ns_connecting s fd))"

lemma life_invD:
  assumes "life_inv s"
  shows "fd_ok (ns_env s fd) (ns_refs s fd) (ns_std s fd) (ns_connecting s fd)"
  using assms by (simp add: life_inv_def)

lemma life_inv_change:
  assumes "life_inv s" "fd_ok (ns_env t fd) (ns_refs t fd) (ns_std t fd) (ns_connecting t fd)"
    and "\<And>x. x \<noteq> fd \<Longrightarrow> ns_env t x = ns_env s x \<and> ns_refs t x = ns_refs s x \<and> ns_std t x = ns_std s x \<and>
           ns_connecting t x = ns_connecting s x"
  shows "life_inv t"
  unfolding life_inv_def
proof
  fix x
  show "fd_ok (ns_env t x) (ns_refs t x) (ns_std t x) (ns_connecting t x)"
    using assms(2,3) life_invD [OF assms(1), of x] by (cases "x = fd") simp_all
qed

lemma life_inv_closed:
  assumes "life_inv s" "ns_env s fd = None"
  shows "ns_refs s fd = 0" "\<not> ns_std s fd" "\<not> ns_connecting s fd"
  using life_invD [OF assms(1), of fd] assms(2) by simp_all

lemma ready_sock_nonblocking [simp]: "os_nonblocking ready_sock"
  by (simp add: ready_sock_def)

lemma fold_refs:
  "fold (\<lambda>x refs. refs(fst x := Suc 0)) socks refs = (\<lambda>fd. if fd \<in> fst ` set socks then 1 else refs fd)"
  for refs :: "raw_fd \<Rightarrow> nat"
  by (induction socks arbitrary: refs) auto

text \<open>The sockets a request makes are on descriptors the system returned, on all of them unless it connects.\<close>

lemma make_sockets_outcome:
  assumes "fds_fresh req env" "make_sockets req env = out"
  shows "\<exists>fds. set fds \<subseteq> set (new_fds req) \<and> (\<not> connects req \<longrightarrow> fds = new_fds req) \<and> request_outcome fds env out"
proof (cases req)
  case (TcpConnect io wk resolved)
  show ?thesis
  proof (cases resolved)
    case (Inl e)
    then show ?thesis
      using TcpConnect assms(2)
      by (auto simp: tcp_async_connect_def one_socket_def request_outcome_def intro: exI [of _ "[]"])
  next
    case (Inr addrs)
    obtain r env' where l: "tcp_connect_loop io wk None addrs env = (r, env')" by (rule prod.exhaust)
    have "\<forall>x\<in>set addrs. \<forall>fd\<in>set (answered_fd (ca_socket (snd x))). env fd = None"
      using assms(1) TcpConnect Inr by (simp add: fds_fresh_def)
    note loop = connect_loop_outcome [OF this l]
    have out: "out = one_socket (r, env')" using assms(2) TcpConnect Inr l by (simp add: tcp_async_connect_def)
    show ?thesis
    proof (cases r)
      case (Inl e)
      then show ?thesis
        using loop out TcpConnect by (auto simp: one_socket_def request_outcome_def intro: exI [of _ "[]"])
    next
      case conn: (Inr conn)
      then have "request_outcome [fst conn] env out"
        using loop out by (auto simp: one_socket_def request_outcome_def)
      then show ?thesis using loop conn TcpConnect Inr by (intro exI [of _ "[fst conn]"]) simp
    qed
  qed
qed (use assms new_socket_outcome new_pair_outcome in \<open>auto simp: fds_fresh_def tcp_listener_bind_def udp_bind_def
      unix_connect_def unix_listener_bind_def accepted_stream_def accepted_unix_stream_def unix_datagram_bind_def
      unix_datagram_unbound_def unix_stream_pair_def unix_datagram_pair_def async_new_def [symmetric, abs_def]
      wrap_result(2,3)\<close>)

lemma take_sockets_inv:
  assumes "life_inv s" "request_outcome fds (ns_env s) out" "\<forall>fd\<in>set fds. ns_env s fd = None"
  shows "life_inv (take_sockets out s)"
proof (cases out)
  case (Pair r env)
  show ?thesis
  proof (cases r)
    case (Inr socks)
    have fds: "set fds = fst ` set socks" and env: "env = (\<lambda>fd. if fd \<in> set fds then Some ready_sock else ns_env s fd)"
      using assms(2) Pair Inr by (simp_all add: request_outcome_def flip: set_map)
    have "take_sockets out s = s\<lparr>ns_env := env, ns_refs := (\<lambda>fd. if fd \<in> set fds then 1 else ns_refs s fd)\<rparr>"
      using Pair Inr by (simp add: take_sockets_def fold_refs fds)
    moreover have "\<not> ns_std s fd" "\<not> ns_connecting s fd" if "fd \<in> set fds" for fd
      using life_inv_closed [OF assms(1)] assms(3) that by blast+
    ultimately show ?thesis using life_invD [OF assms(1)] by (simp add: life_inv_def env)
  qed (use assms Pair in \<open>simp add: life_inv_def take_sockets_def request_outcome_def\<close>)
qed

lemma life_inv_wrap:
  assumes "life_inv s" "ns_std s fd"
  shows "life_inv (take_sockets (one_socket (async_new nb fd (ns_env s))) (s\<lparr>ns_std := (ns_std s)(fd := False)\<rparr>))"
proof -
  obtain k where k: "ns_env s fd = Some k" using life_invD [OF assms(1), of fd] assms(2) by (cases "ns_env s fd") auto
  have "ns_refs s fd = 0" "\<not> ns_connecting s fd" using life_invD [OF assms(1), of fd] k assms(2) by simp_all
  then show ?thesis
    using wrap_result(1) [where env = "ns_env s" and fd = fd, OF k]
    by (intro life_inv_change [OF assms(1), of _ fd]; cases nb) (simp_all add: take_sockets_def one_socket_def)
qed

interpretation life: inductive_invariant life_init life_step life_inv
proof
  show "life_init s \<Longrightarrow> life_inv s" for s
    by (simp add: life_init_def life_start_def life_inv_def)
next
  fix s t l
  assume inv: "life_inv s" and step: "life_step l s = Some t"
  show "life_inv t"
  proof (cases l)
    case (Make req)
    then have f: "fds_fresh req (ns_env s)" and t: "t = take_sockets (make_sockets req (ns_env s)) s"
      using step by (auto split: if_splits)
    obtain fds where "set fds \<subseteq> set (new_fds req)" "request_outcome fds (ns_env s) (make_sockets req (ns_env s))"
      using make_sockets_outcome [OF f refl] by blast
    then show ?thesis
      using take_sockets_inv [OF inv, of fds "make_sockets req (ns_env s)"] f t by (auto simp: fds_fresh_def)
  next
    case (WrapTcp fd nb)
    then show ?thesis using step life_inv_wrap [OF inv, of fd nb] by (simp split: if_splits)
  next
    case (WrapUnix fd nb)
    then show ?thesis using step life_inv_wrap [OF inv, of fd nb] by (simp add: wrap_result(2) split: if_splits)
  next
    case (ConnectBegin addr a)
    obtain r env where b: "tcp_connect_begin addr a (ns_env s) = (r, env)" by (rule prod.exhaust)
    have f: "\<forall>fd\<in>set (answered_fd (ca_socket a)). ns_env s fd = None"
      using step ConnectBegin by (auto split: if_splits)
    show ?thesis
    proof (cases r)
      case (Inr conn)
      then have c: "ns_env s (fst conn) = None" and env: "env = (ns_env s)(fst conn \<mapsto> ready_sock)"
        using connect_begin_result [OF f b] f by auto
      have "t = s\<lparr>ns_env := env, ns_refs := (ns_refs s)(fst conn := 1), ns_connecting := (ns_connecting s)(fst conn := True)\<rparr>"
        using step ConnectBegin b Inr by (simp split: if_splits)
      then show ?thesis
        using life_inv_closed [OF inv c] by (intro life_inv_change [OF inv, of _ "fst conn"]) (simp_all add: env)
    qed (use connect_begin_result [OF f b] inv step ConnectBegin b in \<open>simp add: life_inv_def split: if_splits\<close>)
  next
    case (ConnectEnd fd src so)
    obtain r env where b: "tcp_connect_finish so (fd, src) (ns_env s) = (r, env)" by (rule prod.exhaust)
    have c: "ns_connecting s fd" using step ConnectEnd by (auto split: if_splits)
    have "\<not> ns_std s fd" using life_invD [OF inv, of fd] c by (cases "ns_env s fd") (auto split: if_splits)
    then show ?thesis
      using connect_finish_result [OF b] life_invD [OF inv, of fd] step ConnectEnd b c
      by (intro life_inv_change [OF inv, of _ fd]; cases r; cases "ns_env s fd") (auto split: if_splits)
  next
    case (OpenStd fd)
    then show ?thesis
      using step life_inv_closed [OF inv, of fd]
      by (intro life_inv_change [OF inv, of _ fd]) (auto split: if_splits)
  next
    case (DropStd fd)
    then show ?thesis
      using step life_invD [OF inv, of fd]
      by (intro life_inv_change [OF inv, of _ fd]; cases "ns_env s fd") (auto simp: close_fd_def split: if_splits)
  next
    case (ConnectCancel fd)
    then show ?thesis
      using step life_invD [OF inv, of fd]
      by (intro life_inv_change [OF inv, of _ fd]; cases "ns_env s fd")
        (auto simp: stream_drop_def close_fd_def Let_def split: if_splits)
  next
    case (CloneStream fd)
    then show ?thesis
      using step life_invD [OF inv, of fd]
      by (intro life_inv_change [OF inv, of _ fd]; cases "ns_env s fd")
        (auto simp: in_use_def stream_clone_def split: if_splits)
  next
    case (DropStream fd)
    then show ?thesis
      using step life_invD [OF inv, of fd]
      by (intro life_inv_change [OF inv, of _ fd]; cases "ns_env s fd")
        (auto simp: in_use_def stream_drop_def close_fd_def Let_def split: if_splits)
  next
    case (CloseHalf ans fd)
    then show ?thesis
      using step life_invD [OF inv, of fd]
      by (intro life_inv_change [OF inv, of _ fd]; cases "ns_env s fd"; cases ans)
        (auto simp: in_use_def stream_poll_close_def stream_shutdown_def sys_set_def shut_def split: if_splits)
  qed
qed

section \<open>Properties\<close>

text \<open>
  C28. Every asynchronous socket is well formed for as long as it exists, whichever constructor made it
  (connecting, binding, accepting, pairs, and wrapping a given std stream) and however it was cloned,
  half-closed and dropped, also while a \<open>connect\<close> future waits for it and when that future is dropped:
  a descriptor is open exactly while a clone of its socket, or the client's std socket, exists, and
  the descriptor of an asynchronous socket is in non-blocking mode.  A request at a reachable state
  gives either sockets on descriptors the system returned, each with a source nobody waits on, or an
  error that leaves the table of open descriptors as it was, so no constructor leaks one: a connect
  that tries several addresses keeps only the socket it returns.
\<close>

theorem async_sockets_well_formed:
  assumes "reach life_init life_step s" "fds_fresh req (ns_env s)"
  shows "(\<forall>fd. (ns_env s fd \<noteq> None) = (0 < ns_refs s fd \<or> ns_std s fd)) \<and>
    (\<forall>fd k. ns_env s fd = Some k \<and> 0 < ns_refs s fd \<longrightarrow> os_nonblocking k) \<and>
    (case make_sockets req (ns_env s) of
       (Inl _, env) \<Rightarrow> env = ns_env s
     | (Inr socks, env) \<Rightarrow>
         socks \<noteq> [] \<and> set (map fst socks) \<subseteq> set (new_fds req) \<and> (\<not> connects req \<longrightarrow> map fst socks = new_fds req) \<and>
         (\<forall>x\<in>set socks. source_idle (snd x)) \<and>
         (\<forall>fd. env fd = (if fd \<in> set (map fst socks) then Some (new_sock\<lparr>os_nonblocking := True\<rparr>) else ns_env s fd)))"
proof -
  have inv: "life_inv s" using assms(1) by (rule life.reach_inv)
  have 1: "(ns_env s fd \<noteq> None) = (0 < ns_refs s fd \<or> ns_std s fd)" for fd
    using life_invD [OF inv, of fd] by (cases "ns_env s fd") (auto split: if_splits)
  have 2: "ns_env s fd = Some k \<and> 0 < ns_refs s fd \<longrightarrow> os_nonblocking k" for fd k
    using life_invD [OF inv, of fd] by (auto split: if_splits)
  obtain fds where fds: "set fds \<subseteq> set (new_fds req)" "\<not> connects req \<longrightarrow> fds = new_fds req"
      "request_outcome fds (ns_env s) (make_sockets req (ns_env s))"
    using make_sockets_outcome [OF assms(2) refl] by blast
  obtain r env where m: "make_sockets req (ns_env s) = (r, env)" by (rule prod.exhaust)
  show ?thesis
    using fds m by (cases r) (auto simp add: 1 2 request_outcome_def ready_sock_def simp del: not_None_eq)
qed

text \<open>
  The example: a connection is being made on descriptor 3 and a std stream on 4 was wrapped; a connect
  to two addresses is refused at the first, on descriptor 5, and gets that descriptor again.
\<close>

definition accepting :: "raw_fd \<Rightarrow> connect_answers" where
  "accepting fd = \<lparr>ca_socket = Inr fd, ca_connect = Inl 115, ca_nonblocking = None, ca_so_error = Inr 0\<rparr>"

definition refusing :: "raw_fd \<Rightarrow> connect_answers" where
  "refusing fd = (accepting fd)\<lparr>ca_so_error := Inr 111\<rparr>"

definition life_example :: "life_label list" where
  "life_example = [ConnectBegin (V4 1 2) (accepting 3), OpenStd 4, WrapTcp 4 None, CloneStream 4, DropStream 4]"

definition two_addresses :: "(socket_addr \<times> connect_answers) list" where
  "two_addresses = [(V4 1 2, refusing 5), (V4 3 4, accepting 5)]"

lemma life_example_run:
  "map_option (\<lambda>s. (ns_env s 3, ns_env s 4, ns_env s 5, ns_refs s 4)) (run life_step life_example life_start) =
     Some (Some (new_sock\<lparr>os_nonblocking := True\<rparr>), Some (new_sock\<lparr>os_nonblocking := True\<rparr>), None, 1)"
  by code_simp

lemma two_addresses_result:
  "map_sum id (map fst) (fst (make_sockets (TcpConnect 0 7 (Inr two_addresses)) (\<lambda>_. None))) = Inr [5]"
  by code_simp

theorem async_sockets_well_formed_witness:
  "\<exists>s. run life_step life_example life_start = Some s \<and> ns_env s 4 = Some (new_sock\<lparr>os_nonblocking := True\<rparr>) \<and>
     (case make_sockets (TcpConnect 0 7 (Inr two_addresses)) (ns_env s) of
        (Inl _, env) \<Rightarrow> env = ns_env s
      | (Inr socks, env) \<Rightarrow> set (map fst socks) = {5} \<and>
          (\<forall>fd. env fd = (if fd = 5 then Some (new_sock\<lparr>os_nonblocking := True\<rparr>) else ns_env s fd)))"
proof -
  obtain s where run: "run life_step life_example life_start = Some s"
    and env: "ns_env s 4 = Some (new_sock\<lparr>os_nonblocking := True\<rparr>)" "ns_env s 5 = None"
    using life_example_run by auto
  have "reach life_init life_step s"
    by (rule reach_init_run [OF _ run]) (simp add: life_init_def)
  moreover have fds: "new_fds (TcpConnect 0 7 (Inr two_addresses)) = [5, 5]"
    by (simp add: two_addresses_def refusing_def accepting_def)
  then have "fds_fresh (TcpConnect 0 7 (Inr two_addresses)) (ns_env s)" using env by (simp add: fds_fresh_def)
  moreover obtain r e where m: "make_sockets (TcpConnect 0 7 (Inr two_addresses)) (ns_env s) = (r, e)" by (rule prod.exhaust)
  ultimately have "case r of Inl _ \<Rightarrow> e = ns_env s
     | Inr socks \<Rightarrow> set (map fst socks) = {5} \<and>
         (\<forall>fd. e fd = (if fd = 5 then Some (new_sock\<lparr>os_nonblocking := True\<rparr>) else ns_env s fd))"
    using async_sockets_well_formed [of s "TcpConnect 0 7 (Inr two_addresses)"] fds
    by (cases r) (auto simp: subset_singleton_iff simp del: new_fds.simps make_sockets.simps)
  then show ?thesis using run env m by (intro exI [of _ s]) (simp del: make_sockets.simps)
qed

section \<open>Options\<close>

text \<open>An option reads back as it was set, and the other sockets keep theirs.\<close>

lemma set_option_local: "fd' \<noteq> fd \<Longrightarrow> snd (sys_set ans f fd env) fd' = env fd'"
  by (simp add: sys_set_def split: option.splits)

lemma options_read_back:
  assumes "env fd = Some k"
  shows "fst (tcp_nodelay None fd (snd (tcp_set_nodelay None b fd env))) = Inr b"
    and "fst (tcp_ttl None fd (snd (tcp_set_ttl None v fd env))) = Inr v"
    and "fst (udp_broadcast None fd (snd (udp_set_broadcast None b fd env))) = Inr b"
    and "fst (udp_ttl None fd (snd (udp_set_ttl None v fd env))) = Inr v"
    and "fst (udp_multicast_loop_v4 None fd (snd (udp_set_multicast_loop_v4 None b fd env))) = Inr b"
  using assms
  by (simp_all add: sys_set_def sys_get_def tcp_nodelay_def tcp_set_nodelay_def tcp_ttl_def tcp_set_ttl_def
      udp_broadcast_def udp_set_broadcast_def udp_ttl_def udp_set_ttl_def udp_multicast_loop_v4_def
      udp_set_multicast_loop_v4_def)

lemma leave_undoes_join:
  assumes "env fd = Some k"
  shows "snd (udp_leave_multicast_v4 None m i fd (snd (udp_join_multicast_v4 None m i fd env))) = env"
  using assms by (auto simp: udp_leave_multicast_v4_def udp_join_multicast_v4_def sys_set_def)

text \<open>The half-close leaves the read side as it is.\<close>

lemma close_keeps_reading:
  assumes "env fd = Some k"
  shows "\<exists>k'. snd (stream_poll_close None fd env) fd = Some k' \<and> os_shut_write k' \<and> os_shut_read k' = os_shut_read k"
  using assms by (simp add: stream_poll_close_def stream_shutdown_def sys_set_def shut_def)

end
