(* ===== verification/Serial_Runner_Spec.thy ===== *)
theory Serial_Runner_Spec
  imports Prelude "HOL-Library.Sublist"
begin

text \<open>
  What \<open>SequencedTaskRunner\<close> of \<open>sequenced_task_runner.rs\<close> promises its clients: tasks enter a queue, one task
  runs at a time, and the next to start is the oldest of the queue.  A task that was posted with a
  delay may start in between; after the runner was closed, queued tasks may be dropped.  The contract
  is a locale, with what a client may conclude from it.
\<close>

section \<open>The abstract runner\<close>

record 'b serial =
  sr_queue :: "'b list"
  sr_busy :: bool
  sr_closed :: bool

datatype 'b serial_event =
    Entered 'b
  | Started 'b
  | StartedLate
  | Ended
  | ClosedDown
  | Dropped nat

definition serial_new :: "'b serial" where
  "serial_new = \<lparr>sr_queue = [], sr_busy = False, sr_closed = False\<rparr>"

fun serial_step :: "'b serial_event \<Rightarrow> 'b serial \<Rightarrow> 'b serial option" where
  "serial_step (Entered b) s = Some (s\<lparr>sr_queue := sr_queue s @ [b]\<rparr>)"
| "serial_step (Started b) s =
     (if \<not> sr_busy s \<and> sr_queue s \<noteq> [] \<and> hd (sr_queue s) = b
      then Some (s\<lparr>sr_queue := tl (sr_queue s), sr_busy := True\<rparr>) else None)"
| "serial_step StartedLate s = (if sr_busy s then None else Some (s\<lparr>sr_busy := True\<rparr>))"
| "serial_step Ended s = (if sr_busy s then Some (s\<lparr>sr_busy := False\<rparr>) else None)"
| "serial_step ClosedDown s = Some (s\<lparr>sr_closed := True\<rparr>)"
| "serial_step (Dropped p) s =
     (if sr_closed s \<and> p < length (sr_queue s)
      then Some (s\<lparr>sr_queue := take p (sr_queue s) @ drop (Suc p) (sr_queue s)\<rparr>) else None)"

fun entered_of :: "'b serial_event \<Rightarrow> 'b list" where
  "entered_of (Entered b) = [b]"
| "entered_of _ = []"

fun started_of :: "'b serial_event \<Rightarrow> 'b list" where
  "started_of (Started b) = [b]"
| "started_of _ = []"

fun is_start :: "'b serial_event \<Rightarrow> bool" where
  "is_start (Started _) = True"
| "is_start StartedLate = True"
| "is_start _ = False"

definition entered :: "'b serial_event list \<Rightarrow> 'b list" where
  "entered es = concat (map entered_of es)"

definition started :: "'b serial_event list \<Rightarrow> 'b list" where
  "started es = concat (map started_of es)"

lemma entered_simps [simp]:
  "entered [] = []" "entered (e # es) = entered_of e @ entered es" "entered (es @ fs) = entered es @ entered fs"
  by (simp_all add: entered_def)

lemma started_simps [simp]:
  "started [] = []" "started (e # es) = started_of e @ started es" "started (es @ fs) = started es @ started fs"
  by (simp_all add: started_def)

lemma map_Entered [simp]: "entered (map Entered bs) = bs" "started (map Entered bs) = []"
  by (induction bs) simp_all

lemma run_entered [simp]: "run serial_step (map Entered bs) s = Some (s\<lparr>sr_queue := sr_queue s @ bs\<rparr>)"
  by (induction bs arbitrary: s) auto

section \<open>What its runs look like\<close>

lemma subseq_remove_nth: "subseq (take p xs @ drop (Suc p) xs) xs"
proof (induction xs arbitrary: p)
  case (Cons x xs)
  then show ?case by (cases p) auto
qed simp

text \<open>Starts follow the order of the posts, and only a closed runner loses a task.\<close>

lemma serial_in_order:
  assumes "run serial_step es s = Some t"
  shows "subseq (started es @ sr_queue t) (sr_queue s @ entered es)"
  using assms
proof (induction es arbitrary: s)
  case Nil
  then show ?case by simp
next
  case (Cons e es)
  then obtain u where u: "serial_step e s = Some u" "subseq (started es @ sr_queue t) (sr_queue u @ entered es)"
    by (auto split: option.splits)
  show ?case
  proof (cases e)
    case (Started b)
    then show ?thesis
      using u by (cases "sr_queue s") (auto split: if_splits)
  next
    case (Dropped p)
    then have "subseq (sr_queue u) (sr_queue s)"
      using u(1) by (auto simp: subseq_remove_nth split: if_splits)
    then have "subseq (sr_queue u @ entered es) (sr_queue s @ entered es)"
      by (intro list_emb_append_mono) auto
    then show ?thesis using u(2) Dropped subseq_order.order_trans by fastforce
  qed (use u in \<open>auto split: if_splits\<close>)
qed

lemma serial_loses_nothing:
  assumes "run serial_step es s = Some t" and "\<not> sr_closed t"
  shows "sr_queue s @ entered es = started es @ sr_queue t \<and> \<not> sr_closed s"
  using assms
proof (induction es arbitrary: s)
  case (Cons e es)
  then obtain u where u: "serial_step e s = Some u" "sr_queue u @ entered es = started es @ sr_queue t" "\<not> sr_closed u"
    by (auto split: option.splits)
  show ?case
  proof (cases e)
    case (Started b)
    then show ?thesis using u by (cases "sr_queue s") (auto split: if_splits)
  qed (use u in \<open>auto split: if_splits\<close>)
qed simp

text \<open>Starts and ends alternate.\<close>

lemma serial_one_at_a_time:
  assumes "run serial_step es s = Some t"
  shows "length (filter is_start es) + of_bool (sr_busy s) = count_list es Ended + of_bool (sr_busy t)"
  using assms
proof (induction es arbitrary: s)
  case (Cons e es)
  then obtain u where u: "serial_step e s = Some u"
    "length (filter is_start es) + of_bool (sr_busy u) = count_list es Ended + of_bool (sr_busy t)"
    by (auto split: option.splits)
  then show ?case by (cases e) (auto split: if_splits)
qed simp

section \<open>The contract\<close>

locale serial_runner =
  fixes init :: "'s \<Rightarrow> bool"
    and step :: "'l \<Rightarrow> 's \<Rightarrow> 's option"
    and lane :: "'s \<Rightarrow> 'b serial"
    and posted begun :: "'s \<Rightarrow> 'b list"
  assumes lane_init: "init s \<Longrightarrow> lane s = serial_new \<and> posted s = [] \<and> begun s = []"
    and lane_step: "reach init step s \<Longrightarrow> step l s = Some t \<Longrightarrow>
      \<exists>es. run serial_step es (lane s) = Some (lane t) \<and> posted t = posted s @ entered es \<and> begun t = begun s @ started es"
begin

lemma reach_refines:
  assumes "reach init step s"
  shows "\<exists>es. run serial_step es serial_new = Some (lane s) \<and> posted s = entered es \<and> begun s = started es"
  using assms
proof (induction rule: reach.induct)
  case (reach_init s)
  then show ?case using lane_init by (intro exI [of _ "[]"]) auto
next
  case (reach_step s l t)
  then obtain es fs where "run serial_step es serial_new = Some (lane s)" "posted s = entered es" "begun s = started es"
    "run serial_step fs (lane s) = Some (lane t)" "posted t = posted s @ entered fs" "begun t = begun s @ started fs"
    using lane_step by blast
  then show ?case by (intro exI [of _ "es @ fs"]) (simp add: run_append)
qed

lemma reach_in_order: "reach init step s \<Longrightarrow> subseq (begun s @ sr_queue (lane s)) (posted s)"
  using reach_refines serial_in_order by (fastforce simp: serial_new_def)

lemma open_loses_nothing: "reach init step s \<Longrightarrow> \<not> sr_closed (lane s) \<Longrightarrow> posted s = begun s @ sr_queue (lane s)"
  using reach_refines serial_loses_nothing by (fastforce simp: serial_new_def)

end

end
