(* ===== verification/Pool_Refinement.thy ===== *)
theory Pool_Refinement
  imports Serial_Runner_Spec Pool_Order
begin

text \<open>
  A sequence of the thread pool, with whatever workers serve it, meets the contract of a serial runner:
  \<open>PooledSequencedTaskRunner\<close> is a \<open>SequencedTaskRunner\<close>.
\<close>

section \<open>A sequence of the pool\<close>

fun pool_runs :: "nat \<Rightarrow> 'u worker_pc \<Rightarrow> bool" where
  "pool_runs sid (WRunning n ops) = (n = sid)"
| "pool_runs sid _ = False"

definition any_runs :: "nat \<Rightarrow> 'u worker list \<Rightarrow> bool" where
  "any_runs sid ws \<longleftrightarrow> (\<exists>wk \<in> set ws. pool_runs sid (wk_pc wk))"

definition seq_busy :: "nat \<Rightarrow> 'u pool \<Rightarrow> bool" where
  "seq_busy sid s = any_runs sid (pl_workers s)"

definition seq_queue :: "nat \<Rightarrow> 'u pool \<Rightarrow> 'u task list" where
  "seq_queue sid s = (if sid < length (pl_seqs s) then si_immediate_queue (sq_inner (pl_seqs s ! sid)) else [])"

definition seq_lane :: "nat \<Rightarrow> 'u pool \<Rightarrow> 'u task serial" where
  "seq_lane sid s = \<lparr>sr_queue = seq_queue sid s, sr_busy = seq_busy sid s, sr_closed = pl_tg_shutdown s\<rparr>"

text \<open>What a step shows of one sequence: what it adds to the log, and whether a worker starts or ends a task.\<close>

definition pool_effect :: "nat \<Rightarrow> 'u pool \<Rightarrow> 'u pool \<Rightarrow> bool" where
  "pool_effect sid s t \<longleftrightarrow>
     (\<exists>es. pl_log t = pl_log s @ es \<and>
        (starts sid es = [] \<and> (seq_busy sid t \<longrightarrow> seq_busy sid s) \<or>
         (\<exists>x. starts sid es = [x] \<and> \<not> seq_busy sid s \<and> seq_busy sid t))) \<and>
     (pl_tg_shutdown s \<longrightarrow> pl_tg_shutdown t)"

lemma pool_quiet:
  assumes "pl_log t = pl_log s @ es" "starts sid es = []" "seq_busy sid t \<Longrightarrow> seq_busy sid s"
    and "pl_tg_shutdown s \<Longrightarrow> pl_tg_shutdown t"
  shows "pool_effect sid s t"
  using assms by (auto simp: pool_effect_def)

lemma pool_silent:
  assumes "pl_log t = pl_log s" "seq_busy sid t \<Longrightarrow> seq_busy sid s" "pl_tg_shutdown s \<Longrightarrow> pl_tg_shutdown t"
  shows "pool_effect sid s t"
  using assms by (intro pool_quiet [where es = "[]"]) auto

lemma pool_effect_events:
  fixes s t :: "'a pool"
  assumes "inv_fifo s" "inv_fifo t" "pool_effect sid s t"
  shows "\<exists>es. run serial_step es (seq_lane sid s) = Some (seq_lane sid t) \<and>
    enters sid (pl_log t) = enters sid (pl_log s) @ entered es \<and> starts sid (pl_log t) = starts sid (pl_log s) @ started es"
proof -
  have q: "enters sid (pl_log s) = starts sid (pl_log s) @ seq_queue sid s"
    "enters sid (pl_log t) = starts sid (pl_log t) @ seq_queue sid t"
    using assms(1,2) by (simp_all add: inv_fifo_def fifo_ok_def seq_queue_def)
  obtain es where es: "pl_log t = pl_log s @ es" and "pl_tg_shutdown s \<longrightarrow> pl_tg_shutdown t"
    and alt: "starts sid es = [] \<and> (seq_busy sid t \<longrightarrow> seq_busy sid s) \<or>
         (\<exists>x. starts sid es = [x] \<and> \<not> seq_busy sid s \<and> seq_busy sid t)"
    using assms(3) by (auto simp: pool_effect_def)
  have eq: "seq_queue sid s @ enters sid es = starts sid es @ seq_queue sid t" using q es by simp
  define shut :: "'a task serial_event list" where "shut = (if pl_tg_shutdown t then [ClosedDown] else [])"
  define fin :: "'a task serial_event list" where "fin = (if seq_busy sid s \<and> \<not> seq_busy sid t then [Ended] else [])"
  from alt show ?thesis
  proof
    assume a: "starts sid es = [] \<and> (seq_busy sid t \<longrightarrow> seq_busy sid s)"
    then show ?thesis
      using es eq \<open>pl_tg_shutdown s \<longrightarrow> pl_tg_shutdown t\<close>
      by (intro exI [of _ "map Entered (enters sid es) @ fin @ shut"])
        (auto simp: run_append seq_lane_def fin_def shut_def)
  next
    assume "\<exists>x. starts sid es = [x] \<and> \<not> seq_busy sid s \<and> seq_busy sid t"
    then obtain x where a: "starts sid es = [x]" "\<not> seq_busy sid s" "seq_busy sid t" by blast
    then show ?thesis
      using es eq \<open>pl_tg_shutdown s \<longrightarrow> pl_tg_shutdown t\<close>
      by (intro exI [of _ "map Entered (enters sid es) @ [Started x] @ shut"])
        (auto simp: run_append seq_lane_def shut_def)
  qed
qed

lemma exec_op_log:
  assumes "exec_op op s = Some (new, t)"
  shows "\<exists>es. pl_log t = pl_log s @ es \<and> (\<forall>sid. starts sid es = [])"
  using assms
  by (cases "(op, s)" rule: exec_op.cases) (auto simp: post_defs state_defs Let_def split: option.splits if_splits prod.splits)

lemma any_runs_move:
  assumes "any_runs sid (ws[w := wk])" "w < length ws"
    and "pool_runs sid (wk_pc wk) \<Longrightarrow> pool_runs sid (wk_pc (ws ! w))"
  shows "any_runs sid ws"
proof -
  obtain k where "k \<in> set (ws[w := wk])" "pool_runs sid (wk_pc k)"
    using assms(1) by (auto simp: any_runs_def)
  then have "k \<in> set ws \<or> k = wk" using set_update_subset_insert by fastforce
  then show ?thesis using \<open>pool_runs sid (wk_pc k)\<close> assms(2,3) by (auto simp: any_runs_def)
qed

lemma any_runs_leave: "any_runs sid (ws[w := wk]) \<Longrightarrow> \<not> pool_runs sid (wk_pc wk) \<Longrightarrow> any_runs sid ws"
  by (cases "w < length ws") (auto intro: any_runs_move simp: list_update_beyond)

lemma leave_source_pc [simp]: "wk_pc (leave_source pc wk) = pc"
  by (simp add: leave_source_def)

text \<open>Only the owner of a sequence starts its next task, so nobody else is running one.\<close>

lemma claimed_not_busy:
  assumes "inv_own s" "w < length (pl_workers s)" "wk_pc (pl_workers s ! w) = WClaimed sid"
  shows "\<not> seq_busy sid s"
proof
  assume "seq_busy sid s"
  then obtain w' ops where w': "w' < length (pl_workers s)" "wk_pc (pl_workers s ! w') = WRunning sid ops"
    by (auto simp: seq_busy_def any_runs_def in_set_conv_nth elim!: pool_runs.elims)
  have "w = w'"
    using own_ok_unique [OF assms(1) [unfolded inv_own_def], of w w' sid] assms(2,3) w' by simp
  then show False using assms(3) w'(2) by simp
qed

lemma worker_step_effect:
  assumes "inv_own s" and step: "worker_step w up s = Some t"
  shows "pool_effect sid s t"
proof -
  have w: "w < length (pl_workers s)" using step by (auto simp: worker_step_def split: if_splits)
  show ?thesis
  proof (cases "wk_pc (pl_workers s ! w)")
    case (WClaimed n)
    obtain r q where k: "take_task (pl_now s) (pl_seqs s ! n) = (r, q)" by fastforce
    show ?thesis
    proof (cases r)
      case None
      then show ?thesis
        using step w WClaimed k
        by (intro pool_quiet [where es = "map (Enter n) (flushed (pl_now s) (pl_seqs s ! n))"])
          (auto simp: worker_step_def worker_take_def Let_def state_defs seq_busy_def dest!: any_runs_leave)
    next
      case (Some x)
      let ?es = "map (Enter n) (flushed (pl_now s) (pl_seqs s ! n)) @ [Start n x (pl_now s)]"
      have t: "pl_log t = pl_log s @ ?es" "pl_tg_shutdown t = pl_tg_shutdown s"
        and k': "\<exists>wk. pl_workers t = (pl_workers s)[w := wk] \<and> wk_pc wk = WRunning n [RunClosure (tk_callback x)]"
        using step w WClaimed k Some by (auto simp: worker_step_def worker_take_def Let_def state_defs)
      show ?thesis
      proof (cases "n = sid")
        case True
        then have "\<not> seq_busy sid s" using claimed_not_busy [OF assms(1) w] WClaimed by simp
        moreover have "seq_busy sid t" using k' w True by (auto simp: seq_busy_def any_runs_def intro!: bexI [OF _ set_update_memI])
        ultimately show ?thesis using t True by (auto simp: pool_effect_def)
      next
        case False
        then show ?thesis using t k' w by (intro pool_quiet [OF t(1)]) (auto simp: seq_busy_def dest!: any_runs_leave)
      qed
    qed
  next
    case (WRunning n ops)
    show ?thesis
    proof (cases ops)
      case Nil
      then show ?thesis
        using step w WRunning
        by (intro pool_silent) (auto simp: worker_step_def worker_run_def state_defs seq_busy_def dest!: any_runs_leave)
    next
      case (Cons op rest)
      then obtain new u where e: "exec_op op s = Some (new, u)"
          and t: "t = emit (op_events n op) (goto w (WRunning n (new @ rest)) u)"
        using step w WRunning by (auto simp: worker_step_def worker_run_def split: option.splits)
      obtain es where es: "pl_log u = pl_log s @ es" "\<forall>sid. starts sid es = []" using exec_op_log [OF e] by blast
      have "starts sid (op_events n op) = []" by (cases "(n, op)" rule: op_events.cases) simp_all
      then show ?thesis
        using es w WRunning exec_op_frame [OF e]
        by (intro pool_quiet [where es = "es @ op_events n op"])
          (auto simp: t state_defs seq_busy_def dest: any_runs_move)
    qed
  qed (use step w in \<open>auto simp: worker_step_def get_work_def worker_claim_def will_run_task_def worker_store_def
         worker_check_def worker_requeue_def push_task_source_def state_defs seq_busy_def intro!: pool_silent
         dest!: any_runs_leave split: if_splits option.splits\<close>)
qed

lemma pool_step_effect:
  assumes "inv_own s" and step: "pool_step l s = Some t"
  shows "pool_effect sid s t"
proof (cases l)
  case (WorkerStep w up)
  then show ?thesis using worker_step_effect [OF assms(1)] step by simp
next
  case (CallStep i)
  then obtain op ops new u where e: "exec_op op s = Some (new, u)" and t: "t = u\<lparr>pl_calls := (pl_calls u)[i := new @ ops]\<rparr>"
    using step by (auto simp: call_step_def split: if_splits list.splits option.splits)
  obtain es where "pl_log u = pl_log s @ es" "\<forall>sid. starts sid es = []" using exec_op_log [OF e] by blast
  then show ?thesis
    using exec_op_frame [OF e] by (intro pool_quiet [where es = es]) (auto simp: t seq_busy_def)
next
  case (Request r)
  then show ?thesis
    using step
    by (intro pool_silent)
      (auto simp: do_request_def create_sequenced_task_runner_def alloc_sequence_def create_token_def upd_seq_def
        seq_busy_def split: if_splits request.splits)
next
  case (WorkerPanic w)
  then show ?thesis
    using step
    by (intro pool_silent)
      (auto simp: panic_step_def worker_panic_def state_defs seq_busy_def dest!: any_runs_leave
        split: if_splits worker_pc.splits list.splits op.splits)
next
  case TimerStep
  then have "timer_step s = Some t" using step by simp
  then show ?thesis
    by (cases rule: timer_stepE) (auto simp: push_task_source_def seq_busy_def intro!: pool_silent)
next
  case (ShutdownStep i)
  then obtain pc u where r: "shutdown_round (pl_shutdowns s ! i) s = Some (pc, u)"
      and t: "t = u\<lparr>pl_shutdowns := (pl_shutdowns u)[i := pc]\<rparr>"
    using step by (auto simp: shutdown_step_def split: if_splits option.splits)
  have "any_runs sid (pl_workers u) \<Longrightarrow> any_runs sid (pl_workers s)"
    using shutdown_round_frame(10) [OF r] by (auto simp: any_runs_def is_waiting_def split: if_splits)
  moreover have "pl_tg_shutdown s \<Longrightarrow> pl_tg_shutdown u"
    using r by (cases "(pl_shutdowns s ! i, s)" rule: shutdown_round.cases) (auto split: if_splits prod.splits)
  ultimately show ?thesis
    using shutdown_round_frame(9) [OF r] by (intro pool_silent) (auto simp: t seq_busy_def)
next
  case (Attach dflt)
  then show ?thesis
    using step
    by (intro pool_silent) (auto simp: attach_current_thread_def seq_busy_def any_runs_def worker_new_def split: if_splits)
qed (use step in \<open>auto simp: spurious_wake_def tg_notify_one_def state_defs dtm_notify_one_def timer_spurious_def
       is_waiting_def seq_busy_def intro!: pool_silent dest!: any_runs_leave split: if_splits option.splits\<close>)

interpretation seq_serial: serial_runner pool_init pool_step "seq_lane sid" "\<lambda>s. enters sid (pl_log s)" "\<lambda>s. starts sid (pl_log s)"
  for sid
proof
  show "seq_lane sid s = serial_new \<and> enters sid (pl_log s) = [] \<and> starts sid (pl_log s) = []" if "pool_init s" for s :: "'u pool"
    using that
    by (auto simp: pool_init_def pool_new_def seq_lane_def serial_new_def seq_queue_def seq_busy_def any_runs_def worker_new_def
        in_set_replicate)
next
  fix s t :: "'u pool" and l
  assume "pool_reach s" and step: "pool_step l s = Some t"
  then have "pool_reach t" by (rule reach_step)
  then have "inv_fifo s" "inv_fifo t" "inv_own s"
    using \<open>pool_reach s\<close> pool_fifo.reach_inv pool_own.reach_inv by blast+
  then show "\<exists>es. run serial_step es (seq_lane sid s) = Some (seq_lane sid t) \<and>
      enters sid (pl_log t) = enters sid (pl_log s) @ entered es \<and> starts sid (pl_log t) = starts sid (pl_log s) @ started es"
    by (rule pool_effect_events [OF _ _ pool_step_effect [OF _ step]])
qed

section \<open>Properties\<close>

text \<open>
  C8. A sequence of the pool is a serial runner.  In every reachable state the history of a sequence,
  whatever workers, timers, posts and shutdowns took part, is a run of the abstract runner: the same
  tasks entered in the same order, the same tasks started, the queue is the sequence's queue, and
  the runner is busy exactly while some worker runs one of its tasks; and every step of the pool is
  matched by events of the abstract runner.
\<close>
theorem pool_sequence_refines_serial_runner:
  assumes "pool_reach s"
  shows "(\<exists>es. run serial_step es serial_new = Some (seq_lane sid s) \<and>
      entered es = enters sid (pl_log s) \<and> started es = starts sid (pl_log s)) \<and>
    (\<forall>l t. pool_step l s = Some t \<longrightarrow>
      (\<exists>es. run serial_step es (seq_lane sid s) = Some (seq_lane sid t) \<and>
        enters sid (pl_log t) = enters sid (pl_log s) @ entered es \<and>
        starts sid (pl_log t) = starts sid (pl_log s) @ started es))"
  using seq_serial.reach_refines [OF assms, of sid] seq_serial.lane_step [OF assms, of _ _ sid] by metis

theorem pool_sequence_refines_serial_runner_witness:
  "\<exists>(s :: nat pool) es. run pool_step fifo_trace (pool_new 2 False) = Some s \<and>
     run serial_step es serial_new = Some (seq_lane 0 s) \<and> seq_busy 0 s \<and>
     map tk_callback (started es) = [Plain (User 8)] \<and> length (entered es) = 2"
proof -
  have "case run pool_step fifo_trace (pool_new 2 False) of None \<Rightarrow> False
    | Some s \<Rightarrow> seq_busy 0 s \<and> map tk_callback (starts 0 (pl_log s)) = [Plain (User 8 :: nat body)] \<and>
        length (enters 0 (pl_log s)) = 2"
    by code_simp
  then obtain s :: "nat pool" where s: "run pool_step fifo_trace (pool_new 2 False) = Some s" "seq_busy 0 s"
    "map tk_callback (starts 0 (pl_log s)) = [Plain (User 8)]" "length (enters 0 (pl_log s)) = 2"
    by (auto split: option.splits)
  have "pool_reach s" by (rule reach_init_run [OF _ s(1)]) (auto simp: pool_init_def)
  then obtain es where "run serial_step es serial_new = Some (seq_lane 0 s)" "entered es = enters 0 (pl_log s)"
    "started es = starts 0 (pl_log s)"
    using pool_sequence_refines_serial_runner [of s 0] by blast
  then show ?thesis using s by auto
qed

text \<open>Hence a worker that starts a task of a sequence finds no other task of it running.\<close>

lemma pool_starts_alternate:
  assumes "pool_reach s"
  shows "\<exists>es. run serial_step es serial_new = Some (seq_lane sid s) \<and>
    length (filter is_start es) = count_list es Ended + of_bool (seq_busy sid s)"
  using seq_serial.reach_refines [OF assms, of sid] serial_one_at_a_time
  by (fastforce simp: serial_new_def seq_lane_def)

end
