(* ===== verification/Runner_Refinement.thy ===== *)
theory Runner_Refinement
  imports Serial_Runner_Spec Io_Task_Runner_Model Runtime_Model
begin

text \<open>
  The contract of \<open>Serial_Runner_Spec\<close> for the other two sequenced runners: an \<open>IoTaskRunner\<close>, and a
  sequenced runtime of \<open>rust_async\<close>, whose tasks are the runnables it posts.
\<close>

section \<open>The IO task runner\<close>

fun io_busy :: "'u io_pc \<Rightarrow> bool" where
  "io_busy (IRun _) = True"
| "io_busy (IRunDelayed _) = True"
| "io_busy _ = False"

definition io_lane :: "'u io_runner \<Rightarrow> 'u body serial" where
  "io_lane s = \<lparr>sr_queue = io_tasks s, sr_busy = io_busy (io_pc s), sr_closed = io_shutdown s\<rparr>"

definition io_refined :: "'u io_runner \<Rightarrow> 'u io_runner \<Rightarrow> bool" where
  "io_refined s t \<longleftrightarrow> (\<exists>es. run serial_step es (io_lane s) = Some (io_lane t) \<and>
     io_enters (io_log t) = io_enters (io_log s) @ entered es \<and> io_starts (io_log t) = io_starts (io_log s) @ started es)"

lemma io_refinedI:
  assumes "run serial_step es (io_lane s) = Some (io_lane t)" "io_enters (io_log t) = io_enters (io_log s) @ entered es"
    "io_starts (io_log t) = io_starts (io_log s) @ started es"
  shows "io_refined s t"
  using assms by (auto simp: io_refined_def)

lemmas io_stutter = io_refinedI [where es = "[]", simplified]
lemmas io_single = io_refinedI [where es = "[e]" for e, simplified]

lemma exec_io_op_refines:
  assumes "exec_io_op op s = (new, t)"
  shows "io_refined s (t\<lparr>io_calls := cs\<rparr>)" and "io_busy pc = io_busy (io_pc s) \<Longrightarrow> io_refined s (t\<lparr>io_pc := pc\<rparr>)"
proof -
  have pc: "io_pc t = io_pc s" "io_shutdown t = io_shutdown s"
    using assms by (cases "(op, s)" rule: exec_io_op.cases; auto simp: io_emit_def split: if_splits)+
  have "io_tasks t = io_tasks s \<and> io_enters (io_log t) = io_enters (io_log s) \<and> io_starts (io_log t) = io_starts (io_log s) \<or>
    (\<exists>b. io_tasks t = io_tasks s @ [b] \<and> io_enters (io_log t) = io_enters (io_log s) @ [b] \<and> io_starts (io_log t) = io_starts (io_log s))"
    using assms by (cases "(op, s)" rule: exec_io_op.cases) (auto simp: io_emit_def split: if_splits)
  then consider "io_tasks t = io_tasks s" "io_enters (io_log t) = io_enters (io_log s)" "io_starts (io_log t) = io_starts (io_log s)"
    | b where "io_tasks t = io_tasks s @ [b]" "io_enters (io_log t) = io_enters (io_log s) @ [b]" "io_starts (io_log t) = io_starts (io_log s)"
    by blast
  then show "io_refined s (t\<lparr>io_calls := cs\<rparr>)" "io_busy pc = io_busy (io_pc s) \<Longrightarrow> io_refined s (t\<lparr>io_pc := pc\<rparr>)"
    using pc by (cases; auto simp: io_lane_def intro: io_stutter io_single [where e = "Entered b" for b])+
qed

lemma io_thread_refines:
  assumes "io_thread_step alive s = Some t"
  shows "io_refined s t"
proof (cases "io_pc s")
  case IDrain
  show ?thesis
  proof (cases "io_tasks s")
    case Nil
    then show ?thesis
      using assms IDrain by (intro io_stutter) (auto simp: io_thread_step_def io_drain_def io_lane_def)
  next
    case (Cons b bs)
    then show ?thesis
      using assms IDrain
      by (intro io_single [where e = "Started b"]) (auto simp: io_thread_step_def io_drain_def io_lane_def set_slot_def io_emit_def)
  qed
next
  case (IRun ops)
  show ?thesis
  proof (cases ops)
    case Nil
    then show ?thesis
      using assms IRun by (intro io_single [where e = Ended]) (auto simp: io_thread_step_def io_lane_def clear_slot_def)
  next
    case (Cons op rest)
    then show ?thesis
      using assms IRun exec_io_op_refines(2) [of op s] by (auto simp: io_thread_step_def split: prod.splits)
  qed
next
  case (IRunDelayed ops)
  show ?thesis
  proof (cases ops)
    case Nil
    then show ?thesis
      using assms IRunDelayed by (intro io_single [where e = Ended]) (auto simp: io_thread_step_def io_lane_def clear_slot_def)
  next
    case (Cons op rest)
    then show ?thesis
      using assms IRunDelayed exec_io_op_refines(2) [of op s] by (auto simp: io_thread_step_def split: prod.splits)
  qed
next
  case IDelayed
  have "io_refined s (io_run_delayed s)"
  proof (cases "io_pc (io_run_delayed s)")
    case (IRunDelayed ops)
    then show ?thesis
      using IDelayed
      by (intro io_single [where e = StartedLate])
        (auto simp: io_run_delayed_def io_lane_def set_slot_def io_emit_def split: option.splits if_splits)
  qed (use IDelayed in \<open>auto simp: io_run_delayed_def io_lane_def set_slot_def io_emit_def intro!: io_stutter
         split: option.splits if_splits\<close>)
  then show ?thesis using assms IDelayed by (simp add: io_thread_step_def)
next
  case (IDispatch evs)
  then show ?thesis
    using assms
    by (intro io_stutter)
      (auto simp: io_thread_step_def io_dispatch_def io_lane_def clear_slot_def io_emit_def
        split: list.splits io_event.splits prod.splits)
qed (use assms in \<open>auto simp: io_thread_step_def io_drive_def io_check_def io_finish_def io_lane_def Let_def intro!: io_stutter\<close>)

lemma close_round_refines:
  assumes "close_round pc s = Some (pc', t)"
  shows "io_refined s (t\<lparr>io_closers := cs\<rparr>)"
proof (cases pc)
  case CShutdown
  then show ?thesis
    using assms by (intro io_single [where e = ClosedDown]) (auto simp: io_lane_def)
qed (use assms in \<open>auto simp: io_lane_def intro!: io_stutter split: if_splits\<close>)

interpretation io_serial: serial_runner io_init "io_step valid alive" io_lane "\<lambda>s. io_enters (io_log s)" "\<lambda>s. io_starts (io_log s)"
  for valid alive
proof
  show "io_lane s = serial_new \<and> io_enters (io_log s) = [] \<and> io_starts (io_log s) = []" if "io_init s" for s :: "'u io_runner"
    using that by (auto simp: io_init_def io_build_def io_lane_def serial_new_def)
next
  fix s t :: "'u io_runner" and l
  assume "io_step valid alive l s = Some t"
  then have "io_refined s t"
  proof (cases l)
    case (IoCallStep i)
    then show ?thesis
      using \<open>io_step valid alive l s = Some t\<close> exec_io_op_refines(1) [where s = s]
      by (auto simp: io_call_step_def split: if_splits list.splits prod.splits)
  next
    case (IoClose i)
    then show ?thesis
      using \<open>io_step valid alive l s = Some t\<close> close_round_refines [where s = s]
      by (auto simp: io_close_def split: if_splits option.splits)
  next
    case IoThread
    then show ?thesis using \<open>io_step valid alive l s = Some t\<close> io_thread_refines by simp
  qed (use \<open>io_step valid alive l s = Some t\<close> in
      \<open>auto simp: io_lane_def io_answer_def io_emit_def epoll_returns_def epoll_fails_def io_finish_def
         intro!: io_stutter split: io_pc.splits if_splits\<close>)
  then show "\<exists>es. run serial_step es (io_lane s) = Some (io_lane t) \<and>
      io_enters (io_log t) = io_enters (io_log s) @ entered es \<and> io_starts (io_log t) = io_starts (io_log s) @ started es"
    by (simp add: io_refined_def)
qed

text \<open>
  C11. An \<open>IoTaskRunner\<close> is a serial runner: the history of its immediate tasks in every reachable state,
  under any posts, timers, descriptor events and closing calls, is a run of the abstract runner with
  the same entries and the same starts, delayed tasks start only while no other task runs, and
  every step is matched by events of the abstract runner.
\<close>
theorem io_runner_refines_serial_runner:
  assumes "reach io_init (io_step valid alive) s"
  shows "(\<exists>es. run serial_step es serial_new = Some (io_lane s) \<and>
      entered es = io_enters (io_log s) \<and> started es = io_starts (io_log s)) \<and>
    (\<forall>l t. io_step valid alive l s = Some t \<longrightarrow>
      (\<exists>es. run serial_step es (io_lane s) = Some (io_lane t) \<and>
        io_enters (io_log t) = io_enters (io_log s) @ entered es \<and>
        io_starts (io_log t) = io_starts (io_log s) @ started es))"
  using io_serial.reach_refines [OF assms] io_serial.lane_step [OF assms] by metis

theorem io_runner_refines_serial_runner_witness:
  "\<exists>(s :: nat io_runner) es.
     run (io_step (\<lambda>_. True) (\<lambda>_. True)) io_delayed_trace (io_build 0 (SequenceToken 1) False) = Some s \<and>
     run serial_step es serial_new = Some (io_lane s) \<and> io_busy (io_pc s) \<and> started es = [User 6]"
proof -
  have "case run (io_step (\<lambda>_. True) (\<lambda>_. True)) io_delayed_trace (io_build 0 (SequenceToken 1) False) of
      None \<Rightarrow> False | Some s \<Rightarrow> io_busy (io_pc s) \<and> io_starts (io_log s) = [User (6 :: nat)]"
    by code_simp
  then obtain s :: "nat io_runner" where
      s: "run (io_step (\<lambda>_. True) (\<lambda>_. True)) io_delayed_trace (io_build 0 (SequenceToken 1) False) = Some s"
      "io_busy (io_pc s)" "io_starts (io_log s) = [User 6]"
    by (auto split: option.splits)
  then obtain es where "run serial_step es serial_new = Some (io_lane s)" "started es = io_starts (io_log s)"
    using io_runner_refines_serial_runner [OF io_run_reach [OF s(1)]] by blast
  then show ?thesis using s by auto
qed

section \<open>A sequenced runtime\<close>

definition runtime_lane :: "nat \<Rightarrow> ('k, 'v) exec_sys \<Rightarrow> nat serial" where
  "runtime_lane r s = \<lparr>sr_queue = ex_queue s r, sr_busy = (\<exists>i\<in>set (ex_running s). runtime_of s i = r),
     sr_closed = (\<not> ex_open s r)\<rparr>"

definition runtime_refined :: "nat \<Rightarrow> ('k, 'v) exec_sys \<Rightarrow> ('k, 'v) exec_sys \<Rightarrow> bool" where
  "runtime_refined r s t \<longleftrightarrow> (\<exists>es. run serial_step es (runtime_lane r s) = Some (runtime_lane r t) \<and>
     ex_posted t r = ex_posted s r @ entered es \<and> ex_begun t r = ex_begun s r @ started es)"

lemma runtime_refinedI:
  assumes "run serial_step es (runtime_lane r s) = Some (runtime_lane r t)" "ex_posted t r = ex_posted s r @ entered es"
    "ex_begun t r = ex_begun s r @ started es"
  shows "runtime_refined r s t"
  using assms by (auto simp: runtime_refined_def)

lemmas runtime_stutter = runtime_refinedI [where es = "[]", simplified]
lemmas runtime_single = runtime_refinedI [where es = "[e]" for e, simplified]

lemma runtime_refined_trans:
  assumes "runtime_refined r s t" "runtime_refined r t u"
  shows "runtime_refined r s u"
proof -
  obtain es fs where "run serial_step es (runtime_lane r s) = Some (runtime_lane r t)" "ex_posted t r = ex_posted s r @ entered es"
    "ex_begun t r = ex_begun s r @ started es" "run serial_step fs (runtime_lane r t) = Some (runtime_lane r u)"
    "ex_posted u r = ex_posted t r @ entered fs" "ex_begun u r = ex_begun t r @ started fs"
    using assms by (auto simp: runtime_refined_def)
  then show ?thesis by (intro runtime_refinedI [where es = "es @ fs"]) (simp_all add: run_append)
qed

lemma drop_runnable_lane [simp]:
  "runtime_lane r (drop_runnable ops i s) = runtime_lane r s" "ex_posted (drop_runnable ops i s) = ex_posted s"
  "ex_begun (drop_runnable ops i s) = ex_begun s"
  by (simp_all add: drop_runnable_def runtime_lane_def runtime_of_def split: prod.split)

lemma schedule_refines: "runtime_refined r s (schedule ops i s)"
proof (cases "ex_open s (runtime_of s i) \<and> runtime_of s i = r")
  case True
  then show ?thesis
    by (intro runtime_single [where e = "Entered i"]) (auto simp: schedule_def runtime_lane_def Let_def runtime_of_def)
next
  case False
  then show ?thesis
    by (intro runtime_stutter) (auto simp: schedule_def runtime_lane_def Let_def runtime_of_def drop_runnable_def split: prod.split)
qed

lemma begin_poll_refines:
  assumes inv: "exec_inv view seq None s" and p: "p < length (ex_queue s n)" "seq n \<longrightarrow> p = 0" "\<not> lane_busy seq n s" and "seq r"
  shows "runtime_refined r s (begin_poll ops n p s)"
proof (cases "n = r")
  case True
  have "runtime_of s (ex_queue s n ! p) = n" using exec_invD(3) [OF inv] p(1) by (simp add: places_ok_def)
  then show ?thesis
    using True p assms(5)
    by (intro runtime_single [where e = "Started (ex_queue s n ! p)"])
      (auto simp: begin_poll_def runtime_lane_def lane_busy_def Let_def runtime_of_def hd_conv_nth drop_Suc)
next
  case False
  have "runtime_of s (ex_queue s n ! p) = n" using exec_invD(3) [OF inv] p(1) by (simp add: places_ok_def)
  then show ?thesis
    using False by (intro runtime_stutter) (auto simp: begin_poll_def runtime_lane_def Let_def runtime_of_def)
qed

lemma end_poll_refines:
  assumes laws: "async_task_laws ops view" and inv: "exec_inv view seq None s" and i: "i \<in> set (ex_running s)" and "seq r"
  shows "runtime_refined r s (end_poll ops seq i e s)"
proof -
  obtain sched w k where e: "ta_run_end ops e (ex_tasks s ! i) = (sched, w, k)" by (metis prod_cases3)
  define t where "t = wake_opt w (s\<lparr>ex_tasks := (ex_tasks s)[i := k], ex_running := remove1 i (ex_running s),
                      ex_output := (ex_output s)(i := if e = Yielded then None else Some e),
                      ex_live := (\<lambda>r. ex_live s r \<and> \<not> (e = Panicked \<and> seq r \<and> r = runtime_of s i))\<rparr>)"
  have n: "i < length (ex_tasks s)" using running_phase(1) [OF inv i] .
  have "count_list (ex_running s) i \<le> 1" using task_ok_of(2) [OF inv n refl] by simp
  then have rest: "i \<notin> set (remove1 i (ex_running s))"
    using count_list_remove1 [of i "ex_running s" i] by (simp add: count_list_0_iff [symmetric])
  have only: "j = i" if "j \<in> set (ex_running s)" "runtime_of s j = runtime_of s i" "runtime_of s i = r" for j
    using exec_invD(4) [OF inv] that i \<open>seq r\<close> by (auto simp: lanes_ordered_def)
  have "runtime_refined r s t"
  proof (cases "runtime_of s i = r")
    case True
    have "\<not> (\<exists>j\<in>set (remove1 i (ex_running s)). runtime_of s j = r)"
      using rest only True by (metis notin_set_remove1)
    then show ?thesis
      using True i
      by (intro runtime_single [where e = Ended]) (auto simp: t_def runtime_lane_def runtime_of_def)
  next
    case False
    have "(\<exists>j\<in>set (remove1 i (ex_running s)). runtime_of s j = r) = (\<exists>j\<in>set (ex_running s). runtime_of s j = r)"
      using False by (metis in_set_remove1 notin_set_remove1)
    then show ?thesis
      by (intro runtime_stutter) (simp_all add: t_def runtime_lane_def runtime_of_def)
  qed
  then show ?thesis
    unfolding end_poll_def e prod.case t_def [symmetric]
    using schedule_refines [of r t ops i] runtime_refined_trans by (auto simp: Let_def)
qed

lemma spawn_refines:
  assumes inv: "exec_inv view seq None s"
  shows "runtime_refined r s (runtime_spawn ops n s)"
proof -
  define t where "t = s\<lparr>ex_tasks := ex_tasks s @ [ta_spawn ops], ex_tags := ex_tags s @ [tag_with (length (ex_tasks s)) n],
           ex_handle := (ex_handle s)(length (ex_tasks s) := True), ex_due := (ex_due s)(length (ex_tasks s) := True)\<rparr>"
  have "runtime_of t j = runtime_of s j" if "j \<in> set (ex_running s)" for j
    using running_phase(1) [OF inv that] exec_invD(1) [OF inv] by (simp add: t_def runtime_of_def nth_append)
  then have "runtime_refined r s t" by (intro runtime_stutter) (auto simp: t_def runtime_lane_def)
  then show ?thesis
    using schedule_refines [of r t ops "length (ex_tasks s)"] runtime_refined_trans
    by (auto simp: runtime_spawn_def Let_def t_def [symmetric])
qed

lemma exec_step_refines:
  assumes laws: "async_task_laws ops view" and inv: "exec_inv view seq None s" and step: "exec_step ops seq glob l s = Some t"
    and "seq r"
  shows "runtime_refined r s t"
proof (cases l)
  case (SpawnOn n)
  then show ?thesis using step spawn_refines [OF inv] by auto
next
  case (SpawnIn opt)
  then show ?thesis
    using step spawn_refines [OF inv] by (cases opt) (auto simp: executor_spawn_def split: if_splits)
next
  case (BeginPoll n p)
  then show ?thesis using step begin_poll_refines [OF inv _ _ _ \<open>seq r\<close>] by (auto split: if_splits)
next
  case (EndPoll i e)
  then show ?thesis using step end_poll_refines [OF laws inv _ \<open>seq r\<close>] by (auto split: if_splits)
next
  case (WakeTask i)
  obtain sched k where w: "ta_wake ops (ex_tasks s ! i) = (sched, k)" by (cases "ta_wake ops (ex_tasks s ! i)")
  define u where "u = s\<lparr>ex_tasks := (ex_tasks s)[i := k], ex_due := (ex_due s)(i := True)\<rparr>"
  have "runtime_refined r s u" by (intro runtime_stutter) (simp_all add: u_def runtime_lane_def runtime_of_def)
  then show ?thesis
    using step WakeTask schedule_refines [of r u ops i] runtime_refined_trans
    by (auto simp: wake_task_def w u_def [symmetric] split: if_splits)
next
  case (CloseRunner n)
  show ?thesis
  proof (cases "n = r")
    case True
    then show ?thesis
      using step CloseRunner
      by (intro runtime_single [where e = ClosedDown]) (auto simp: runtime_lane_def runtime_of_def)
  next
    case False
    then show ?thesis
      using step CloseRunner by (intro runtime_stutter) (auto simp: runtime_lane_def runtime_of_def)
  qed
next
  case (Discard n p)
  define u where "u = s\<lparr>ex_queue := (ex_queue s)(n := take p (ex_queue s n) @ drop (Suc p) (ex_queue s n))\<rparr>"
  have t: "t = drop_runnable ops (ex_queue s n ! p) u" "p < length (ex_queue s n)" "\<not> ex_open s n"
    using step Discard by (auto simp: u_def split: if_splits)
  have "runtime_refined r s u"
  proof (cases "n = r")
    case True
    then show ?thesis
      using t(2,3) by (intro runtime_single [where e = "Dropped p"]) (simp_all add: u_def runtime_lane_def runtime_of_def)
  next
    case False
    then show ?thesis by (intro runtime_stutter) (simp_all add: u_def runtime_lane_def runtime_of_def)
  qed
  moreover have "runtime_refined r u t" unfolding t(1) by (intro runtime_stutter) simp_all
  ultimately show ?thesis by (rule runtime_refined_trans)
qed (use step in \<open>auto simp: join_poll_def join_drop_def runtime_lane_def runtime_of_def intro!: runtime_stutter
       split: if_splits prod.splits\<close>)

lemma runtime_serial:
  assumes "async_task_laws ops view" "seq r"
  shows "serial_runner exec_init (exec_step ops seq glob) (runtime_lane r) (\<lambda>s. ex_posted s r) (\<lambda>s. ex_begun s r)"
proof
  show "runtime_lane r s = serial_new \<and> ex_posted s r = [] \<and> ex_begun s r = []" if "exec_init s" for s
    using that by (simp add: exec_init_def exec_new_def runtime_lane_def serial_new_def)
next
  fix s t l
  assume s: "reach exec_init (exec_step ops seq glob) s" and step: "exec_step ops seq glob l s = Some t"
  have "exec_inv view seq None s" by (rule reach_exec_inv [OF assms(1) s])
  from exec_step_refines [OF assms(1) this step assms(2)]
  show "\<exists>es. run serial_step es (runtime_lane r s) = Some (runtime_lane r t) \<and>
      ex_posted t r = ex_posted s r @ entered es \<and> ex_begun t r = ex_begun s r @ started es"
    by (simp add: runtime_refined_def)
qed

text \<open>
  A sequenced runtime asks of its runner no more than the contract: the polls of its futures are a run
  of the abstract serial runner, whose tasks are the posted runnables.
\<close>
lemma sequenced_runtime_is_serial:
  assumes "async_task_laws ops view" "seq r" "reach exec_init (exec_step ops seq glob) s"
  shows "\<exists>es. run serial_step es serial_new = Some (runtime_lane r s) \<and> entered es = ex_posted s r \<and> started es = ex_begun s r"
  using serial_runner.reach_refines [OF runtime_serial [where seq = seq and r = r, OF assms(1,2)] assms(3)] by metis

end
