(* ===== verification/Condvar_Until.thy ===== *)
theory Condvar_Until
  imports Async_Mutex_Model
begin

text \<open>
  \<open>Condvar::wait_until\<close> of \<open>rust_async/sync.rs\<close>: tasks that run the loop over \<open>wait\<close>, next to whatever else the
  program does with the same mutex and condition variable.  A task is at the test of its condition
  (with the guard), awaits the \<open>CondvarWait\<close> of the current round, has returned the guard, or was
  dropped.  Polls keep their two lock regions.
\<close>

section \<open>The machine\<close>

datatype until_pc = UHold | UWait nat | UReturned | UGone

text \<open>\<open>un_owed\<close>: some task changed the data and has not called \<open>notify_all\<close> since.\<close>

record 'v until_sys =
  un_sync :: "'v sync_state"
  un_tasks :: "until_pc list"
  un_owed :: bool

definition until_new :: "'v \<Rightarrow> 'v until_sys" where
  "until_new v = \<lparr>un_sync = sync_new v, un_tasks = [], un_owed = False\<rparr>"

datatype 'v until_label =
    WaitUntil
  | Check nat
  | PollUntil nat waker
  | PollUntilRest nat
  | DropUntil nat
  | OtherTask "'v sync_label"

text \<open>A guard of the program that no \<open>wait_until\<close> holds.\<close>

definition free_guard :: "'v until_sys \<Rightarrow> bool" where
  "free_guard s \<longleftrightarrow> count_list (un_tasks s) UHold < sy_guards (un_sync s)"

fun other_ok :: "'v until_sys \<Rightarrow> 'v sync_label \<Rightarrow> bool" where
  "other_ok s (Poll i wk) = (UWait i \<notin> set (un_tasks s))"
| "other_ok s (PollRest i) = (UWait i \<notin> set (un_tasks s))"
| "other_ok s (DropFuture i) = (UWait i \<notin> set (un_tasks s))"
| "other_ok s DropGuard = free_guard s"
| "other_ok s (Assign v) = free_guard s"
| "other_ok s CvWait = free_guard s"
| "other_ok s _ = True"

fun owed_after :: "'v sync_label \<Rightarrow> bool \<Rightarrow> bool" where
  "owed_after (Assign v) b = True"
| "owed_after NotifyAll b = False"
| "owed_after _ b = b"

definition set_until :: "nat \<Rightarrow> until_pc \<Rightarrow> 'v sync_state \<Rightarrow> 'v until_sys \<Rightarrow> 'v until_sys" where
  "set_until t pc sys s = s\<lparr>un_sync := sys, un_tasks := (un_tasks s)[t := pc]\<rparr>"

text \<open>
  The test \<open>condition(&mut guard)\<close>, which may change the data; when it fails, the guard moves into a new
  \<open>CondvarWait\<close>.
\<close>

definition until_check :: "('v \<Rightarrow> bool \<times> 'v) \<Rightarrow> nat \<Rightarrow> 'v until_sys \<Rightarrow> 'v until_sys option" where
  "until_check cond t s =
     (case cond (guard_deref (sy_mutex (un_sync s))) of
        (holds, v) \<Rightarrow>
          let sys = (un_sync s)\<lparr>sy_mutex := guard_deref_mut v (sy_mutex (un_sync s))\<rparr>
          in if holds then Some (set_until t UReturned sys s)
             else map_option (\<lambda>sys'. set_until t (UWait (length (sy_futs sys))) sys' s) (sync_step CvWait sys))"

text \<open>After a region of a poll of the awaited future: when it is ready, the loop has the guard again.\<close>

definition until_resume :: "nat \<Rightarrow> nat \<Rightarrow> 'v until_sys \<Rightarrow> 'v sync_state \<Rightarrow> 'v until_sys" where
  "until_resume t i s sys = set_until t (if fu_kind (sy_futs sys ! i) = KDone then UHold else UWait i) sys s"

definition until_task :: "nat \<Rightarrow> 'v until_sys \<Rightarrow> until_pc" where
  "until_task t s = (if t < length (un_tasks s) then un_tasks s ! t else UGone)"

fun until_step :: "(nat \<Rightarrow> 'v \<Rightarrow> bool \<times> 'v) \<Rightarrow> 'v until_label \<Rightarrow> 'v until_sys \<Rightarrow> 'v until_sys option" where
  "until_step cond WaitUntil s = (if free_guard s then Some (s\<lparr>un_tasks := un_tasks s @ [UHold]\<rparr>) else None)"
| "until_step cond (Check t) s = (if until_task t s = UHold then until_check (cond t) t s else None)"
| "until_step cond (PollUntil t wk) s =
     (case until_task t s of UWait i \<Rightarrow> map_option (until_resume t i s) (sync_step (Poll i wk) (un_sync s)) | _ \<Rightarrow> None)"
| "until_step cond (PollUntilRest t) s =
     (case until_task t s of UWait i \<Rightarrow> map_option (until_resume t i s) (sync_step (PollRest i) (un_sync s)) | _ \<Rightarrow> None)"
| "until_step cond (DropUntil t) s =
     (case until_task t s of
        UHold \<Rightarrow> map_option (\<lambda>sys. set_until t UGone sys s) (sync_step DropGuard (un_sync s))
      | UWait i \<Rightarrow> map_option (\<lambda>sys. set_until t UGone sys s) (sync_step (DropFuture i) (un_sync s))
      | _ \<Rightarrow> None)"
| "until_step cond (OtherTask l) s =
     (if other_ok s l
      then map_option (\<lambda>sys. s\<lparr>un_sync := sys, un_owed := owed_after l (un_owed s)\<rparr>) (sync_step l (un_sync s))
      else None)"

definition until_init :: "'v until_sys \<Rightarrow> bool" where
  "until_init s \<longleftrightarrow> (\<exists>v. s = until_new v)"

section \<open>What a step of the mutex machine leaves of a future\<close>

definition kept :: "sync_kind fut \<Rightarrow> sync_kind fut \<Rightarrow> bool" where
  "kept f g \<longleftrightarrow> fu_kind g = fu_kind f \<and> fu_id g = fu_id f \<and> (fu_woken f \<longrightarrow> fu_woken g)"

lemma kept_refl [simp]: "kept f f"
  by (simp add: kept_def)

lemma kept_wake [simp]: "i < length fs \<Longrightarrow> kept (fs ! i) (wake_futs wks fs ! i)"
  by (auto simp: kept_def wake_futs_def)

fun touches :: "nat \<Rightarrow> 'v sync_label \<Rightarrow> bool" where
  "touches i (Poll j wk) = (i = j)"
| "touches i (PollRest j) = (i = j)"
| "touches i (DropFuture j) = (i = j)"
| "touches i _ = False"

lemma release_futs: "sy_futs (release s) = wake_futs (fst (guard_drop (sy_mutex s))) (sy_futs s)"
  by (simp add: release_def wake_tasks_def split: prod.split)

lemma release_fields [simp]:
  "sy_guards (release s) = sy_guards s" "sy_cv (release s) = sy_cv s" "mx_data (sy_mutex (release s)) = mx_data (sy_mutex s)"
  by (simp_all add: release_def wake_tasks_def guard_drop_def split: prod.splits)

lemma poll_lock_futs:
  "\<exists>f. sy_futs (poll_lock j pend wk woken s) = (sy_futs s)[j := f]"
  "mx_data (sy_mutex (poll_lock j pend wk woken s)) = mx_data (sy_mutex s)"
  by (auto simp: poll_lock_def lock_poll_def set_fut_def split: prod.splits poll.splits if_splits)

lemma sync_step_kept:
  assumes "sync_step l s = Some t" "i < length (sy_futs s)" "\<not> touches i l"
  shows "i < length (sy_futs t) \<and> kept (sy_futs s ! i) (sy_futs t ! i)"
proof (cases l)
  case (Poll j wk)
  then have "i \<noteq> j" "sync_poll j wk s = Some t" using assms by auto
  moreover obtain f where "sy_futs (poll_lock j k wk False s) = (sy_futs s)[j := f k]" for k
    using poll_lock_futs(1) [of j _ wk False s] by metis
  ultimately show ?thesis
    using assms(2)
    by (auto simp: sync_poll_def set_fut_def Let_def split: if_splits sync_kind.splits prod.splits)
next
  case (PollRest j)
  then have "i \<noteq> j" "sync_poll_rest j s = Some t" using assms by auto
  moreover obtain f where "sy_futs (poll_lock j KCvRelock (fu_waker (sy_futs s ! j)) (fu_woken (sy_futs s ! j)) s) = (sy_futs s)[j := f]"
    using poll_lock_futs(1) by blast
  ultimately show ?thesis
    using assms(2) kept_wake [of i "(sy_futs s)[j := (sy_futs s ! j)\<lparr>fu_kind := KCvWaiting\<rparr>]"]
    by (auto simp: sync_poll_rest_def set_fut_def Let_def release_futs split: if_splits sync_kind.splits)
next
  case (DropFuture j)
  then have "i \<noteq> j" "sync_drop j s = Some t" using assms by auto
  then show ?thesis
    using assms(2) kept_wake [of i "(sy_futs s)[j := (sy_futs s ! j)\<lparr>fu_kind := KDone\<rparr>]"]
    by (auto simp: sync_drop_def set_fut_def Let_def release_futs split: if_splits sync_kind.splits)
qed (use assms in \<open>auto simp: try_lock_def nth_append release_futs wake_tasks_def notify_one_def notify_all_def
       split: if_splits prod.splits\<close>)

lemma sync_step_data:
  assumes "sync_step l s = Some t" "\<And>v. l \<noteq> Assign v"
  shows "mx_data (sy_mutex t) = mx_data (sy_mutex s)"
  using assms
  by (cases l)
    (auto simp: try_lock_def sync_poll_def sync_poll_rest_def sync_drop_def set_fut_def Let_def wake_tasks_def
      poll_lock_futs(2) lock_drop_def notify_one_def notify_all_def split: if_splits prod.splits sync_kind.splits)

section \<open>Invariant\<close>

text \<open>
  A future that a \<open>wait_until\<close> awaits; \<open>c\<close> says whether the condition holds of the data.  While it has the
  guard the condition is false, and once it has released it, it was woken, or the condition is
  still false, or a change has not been announced yet.
\<close>

definition wait_fut_ok :: "bool \<Rightarrow> bool \<Rightarrow> sync_kind fut \<Rightarrow> bool" where
  "wait_fut_ok c owed f =
     (case fu_kind f of
        KCvInit \<Rightarrow> \<not> c
      | KCvParked \<Rightarrow> fu_id f \<noteq> None \<and> \<not> c
      | KCvWaiting \<Rightarrow> fu_id f \<noteq> None \<and> (fu_woken f \<or> owed \<or> \<not> c)
      | KCvUnparked \<Rightarrow> True
      | KCvRelock \<Rightarrow> True
      | _ \<Rightarrow> False)"

definition cond_holds :: "(nat \<Rightarrow> 'v \<Rightarrow> bool \<times> 'v) \<Rightarrow> nat \<Rightarrow> 'v until_sys \<Rightarrow> bool" where
  "cond_holds cond t s = fst (cond t (mx_data (sy_mutex (un_sync s))))"

definition until_inv :: "(nat \<Rightarrow> 'v \<Rightarrow> bool \<times> 'v) \<Rightarrow> 'v until_sys \<Rightarrow> bool" where
  "until_inv cond s \<longleftrightarrow>
     sync_inv (un_sync s) \<and> count_list (un_tasks s) UHold \<le> sy_guards (un_sync s) \<and>
     (\<forall>t < length (un_tasks s). \<forall>i. un_tasks s ! t = UWait i \<longrightarrow>
        i < length (sy_futs (un_sync s)) \<and> wait_fut_ok (cond_holds cond t s) (un_owed s) (sy_futs (un_sync s) ! i)) \<and>
     (\<forall>t < length (un_tasks s). \<forall>t' < length (un_tasks s). \<forall>i. un_tasks s ! t = UWait i \<longrightarrow> un_tasks s ! t' = UWait i \<longrightarrow> t = t')"

lemma until_invD:
  assumes "until_inv cond s"
  shows "sync_inv (un_sync s)" "count_list (un_tasks s) UHold \<le> sy_guards (un_sync s)"
    and "t < length (un_tasks s) \<Longrightarrow> un_tasks s ! t = UWait i \<Longrightarrow> i < length (sy_futs (un_sync s))"
    and "t < length (un_tasks s) \<Longrightarrow> un_tasks s ! t = UWait i \<Longrightarrow>
      wait_fut_ok (cond_holds cond t s) (un_owed s) (sy_futs (un_sync s) ! i)"
    and "t < length (un_tasks s) \<Longrightarrow> t' < length (un_tasks s) \<Longrightarrow> un_tasks s ! t = UWait i \<Longrightarrow> un_tasks s ! t' = UWait i \<Longrightarrow> t = t'"
  using assms unfolding until_inv_def by blast+

lemma kept_ok: "wait_fut_ok c owed f \<Longrightarrow> kept f g \<Longrightarrow> wait_fut_ok c owed g"
  by (auto simp: wait_fut_ok_def kept_def split: sync_kind.splits)

lemma park_Some: "park i wk w = (n, w') \<Longrightarrow> n \<noteq> None"
  by (cases i) (auto simp: park_def split: prod.splits if_splits option.splits)

lemma poll_until_effect:
  assumes ok: "wait_fut_ok c owed (sy_futs s ! i)" and i: "i < length (sy_futs s)"
    and step: "sync_step (Poll i wk) s = Some t \<or> sync_step (PollRest i) s = Some t"
  shows "fu_kind (sy_futs t ! i) = KDone \<and> sy_guards t = Suc (sy_guards s) \<or>
    fu_kind (sy_futs t ! i) \<noteq> KDone \<and> wait_fut_ok c owed (sy_futs t ! i) \<and> sy_guards t = sy_guards s"
proof -
  have lock: "fu_kind (sy_futs (poll_lock i KCvRelock w b s) ! i) = KDone \<and> sy_guards (poll_lock i KCvRelock w b s) = Suc (sy_guards s) \<or>
      fu_kind (sy_futs (poll_lock i KCvRelock w b s) ! i) = KCvRelock \<and> sy_guards (poll_lock i KCvRelock w b s) = sy_guards s" for w b
    using i by (auto simp: poll_lock_def set_fut_def lock_poll_def split: prod.splits)
  let ?fs = "(sy_futs s)[i := (sy_futs s ! i)\<lparr>fu_kind := KCvWaiting\<rparr>]"
  have rest: "kept (?fs ! i) (wake_futs wks ?fs ! i)" for wks using i by (intro kept_wake) simp
  show ?thesis
  proof (cases "fu_kind (sy_futs s ! i)")
    case KCvInit
    obtain n cv where "park (fu_id (sy_futs s ! i)) wk (sy_cv s) = (n, cv)" by fastforce
    then show ?thesis
      using park_Some step i KCvInit ok
      by (auto simp: sync_poll_def sync_poll_rest_def set_fut_def wait_fut_ok_def)
  next
    case KCvParked
    then have "t = release (set_fut i ((sy_futs s ! i)\<lparr>fu_kind := KCvWaiting\<rparr>) s)"
      using step i by (auto simp: sync_poll_def sync_poll_rest_def)
    then have "sy_futs t ! i = wake_futs (fst (guard_drop (sy_mutex s))) ?fs ! i" "sy_guards t = sy_guards s"
      by (simp_all add: release_futs set_fut_def)
    then show ?thesis
      using rest [of "fst (guard_drop (sy_mutex s))"] ok KCvParked i by (auto simp: kept_def wait_fut_ok_def)
  next
    case KCvWaiting
    then show ?thesis
      using step i by (auto simp: sync_poll_def sync_poll_rest_def set_fut_def wait_fut_ok_def)
  next
    case KCvUnparked
    then show ?thesis
      using step i lock [of "fu_waker (sy_futs s ! i)" "fu_woken (sy_futs s ! i)"]
      by (auto simp: sync_poll_def sync_poll_rest_def wait_fut_ok_def Let_def)
  next
    case KCvRelock
    then show ?thesis
      using step i lock [of wk False] by (auto simp: sync_poll_def sync_poll_rest_def wait_fut_ok_def Let_def)
  qed (use ok in \<open>auto simp: wait_fut_ok_def\<close>)
qed

text \<open>While a future holds the guard nobody else has one.\<close>

lemma holding_excludes:
  assumes "sync_inv s" "i < length (sy_futs s)" "holding (fu_kind (sy_futs s ! i))"
  shows "sy_guards s = 0"
proof -
  have "of_bool (holding (fu_kind (sy_futs s ! i))) \<le> sum_list (map (\<lambda>f. of_bool (holding (fu_kind f)) :: nat) (sy_futs s))"
    using assms(2) by (intro member_le_sum_list) auto
  then show ?thesis using sync_invD(4) [OF assms(1)] assms(3) by (auto simp: live_guards_def of_bool_def split: if_splits)
qed

lemma notify_all_wakes:
  assumes "sync_inv s" "i < length (sy_futs s)" "fu_kind (sy_futs s ! i) = KCvWaiting" "fu_id (sy_futs s ! i) \<noteq> None"
    and "sync_step NotifyAll s = Some t"
  shows "fu_woken (sy_futs t ! i)"
proof (cases "fu_woken (sy_futs s ! i)")
  case True
  then show ?thesis
    using sync_step_kept [OF assms(5,2)] by (simp add: kept_def)
next
  case False
  obtain k where sel: "sel on_condvar (sy_futs s ! i) = Some k" using assms(3,4) by (auto simp: sel_def on_condvar_def)
  note cv = sync_invD(2) [OF assms(1)]
  have e: "parked (sy_cv s) k = Some (fu_waker (sy_futs s ! i))"
    by (rule waiters.holds_entry [OF cv nth_mem [OF assms(2)] sel False])
  have wf: "waiters_wf (sy_cv s)" using cv by (simp add: waiters.holds_def)
  obtain wks cv' where all: "wake_all (sy_cv s) = (wks, cv')" by fastforce
  have "fu_waker (sy_futs s ! i) \<in> set wks" using waiters.wake_all_law [OF wf all] e by (auto intro: ranI)
  then show ?thesis using all assms(2,5) by (auto simp: notify_all_def wake_tasks_def)
qed

section \<open>The steps keep the invariant\<close>

text \<open>A step of the mutex machine that touches no awaited future and does not change the data.\<close>

lemma until_inv_other:
  assumes inv: "until_inv cond s" and step: "sync_step l (un_sync s) = Some sys"
    and l: "other_ok s l" "\<And>v. l \<noteq> Assign v" "l \<noteq> NotifyAll"
    and g: "count_list (un_tasks s) UHold \<le> sy_guards sys"
  shows "until_inv cond (s\<lparr>un_sync := sys\<rparr>)"
proof -
  note d = until_invD [OF inv]
  have data: "mx_data (sy_mutex sys) = mx_data (sy_mutex (un_sync s))" by (rule sync_step_data [OF step l(2)])
  have "i < length (sy_futs sys) \<and> wait_fut_ok (cond_holds cond t s) (un_owed s) (sy_futs sys ! i)"
    if t: "t < length (un_tasks s)" "un_tasks s ! t = UWait i" for t i
  proof -
    have "\<not> touches i l" using l(1) t nth_mem [OF t(1)] by (cases l) auto
    then show ?thesis using sync_step_kept [OF step d(3) [OF t]] kept_ok [OF d(4) [OF t]] by blast
  qed
  then show ?thesis
    using sync.inv_step [OF d(1) step] g d(5) data unfolding until_inv_def cond_holds_def by auto
qed

lemma other_guards:
  assumes "until_inv cond s" "sync_step l (un_sync s) = Some sys" "other_ok s l"
  shows "count_list (un_tasks s) UHold \<le> sy_guards sys"
  using until_invD(2) [OF assms(1)] assms(2,3)
  by (cases l)
    (auto simp: try_lock_def sync_poll_def sync_poll_rest_def sync_drop_def set_fut_def Let_def wake_tasks_def free_guard_def
      poll_lock_def notify_one_def notify_all_def split: if_splits prod.splits sync_kind.splits poll.splits)

lemma until_inv_assign:
  assumes inv: "until_inv cond s" and "sync_step (Assign v) (un_sync s) = Some sys" "free_guard s"
  shows "until_inv cond (s\<lparr>un_sync := sys, un_owed := True\<rparr>)"
proof -
  note d = until_invD [OF inv]
  have futs: "sy_futs sys = sy_futs (un_sync s)" "sy_guards sys = sy_guards (un_sync s)" "sy_guards (un_sync s) \<noteq> 0"
    using assms(2) by (auto split: if_splits)
  have "wait_fut_ok c True (sy_futs (un_sync s) ! i)" if t: "t < length (un_tasks s)" "un_tasks s ! t = UWait i" for t i c
    using d(4) [OF t] holding_excludes [OF d(1) d(3) [OF t]] futs(3)
    by (auto simp: wait_fut_ok_def holding_def split: sync_kind.splits)
  then show ?thesis
    using sync.inv_step [OF d(1) assms(2)] d(2,3,5) futs(1,2) unfolding until_inv_def by auto
qed

lemma until_inv_notify_all:
  assumes inv: "until_inv cond s" and step: "sync_step NotifyAll (un_sync s) = Some sys"
  shows "until_inv cond (s\<lparr>un_sync := sys, un_owed := False\<rparr>)"
proof -
  note d = until_invD [OF inv]
  have data: "mx_data (sy_mutex sys) = mx_data (sy_mutex (un_sync s))" by (rule sync_step_data [OF step]) simp
  have g: "count_list (un_tasks s) UHold \<le> sy_guards sys" by (rule other_guards [OF inv step]) simp
  have "i < length (sy_futs sys) \<and> wait_fut_ok (cond_holds cond t s) False (sy_futs sys ! i)"
    if t: "t < length (un_tasks s)" "un_tasks s ! t = UWait i" for t i
  proof -
    have k: "i < length (sy_futs sys)" "kept (sy_futs (un_sync s) ! i) (sy_futs sys ! i)"
      using sync_step_kept [OF step d(3) [OF t]] by simp_all
    have "fu_kind (sy_futs (un_sync s) ! i) = KCvWaiting \<Longrightarrow> fu_woken (sy_futs sys ! i)"
      using notify_all_wakes [OF d(1) d(3) [OF t] _ _ step] d(4) [OF t] by (simp add: wait_fut_ok_def)
    then show ?thesis
      using k d(4) [OF t] by (auto simp: wait_fut_ok_def kept_def split: sync_kind.splits)
  qed
  then show ?thesis
    using sync.inv_step [OF d(1) step] g d(5) data unfolding until_inv_def cond_holds_def by auto
qed

text \<open>A task moves: the other tasks keep their futures.\<close>

lemma until_inv_move:
  assumes inv: "until_inv cond s" and t: "t < length (un_tasks s)" and step: "sync_step l (un_sync s) = Some sys"
    and l: "\<And>v. l \<noteq> Assign v" "\<And>i. touches i l \<Longrightarrow> un_tasks s ! t = UWait i"
    and g: "count_list ((un_tasks s)[t := pc]) UHold \<le> sy_guards sys"
    and pc: "\<And>i. pc = UWait i \<Longrightarrow> i < length (sy_futs sys) \<and> wait_fut_ok (cond_holds cond t s) (un_owed s) (sy_futs sys ! i) \<and>
      (un_tasks s ! t = UWait i \<or> length (sy_futs (un_sync s)) \<le> i)"
  shows "until_inv cond (set_until t pc sys s)"
proof -
  note d = until_invD [OF inv]
  have data: "mx_data (sy_mutex sys) = mx_data (sy_mutex (un_sync s))" by (rule sync_step_data [OF step l(1)])
  have "i < length (sy_futs sys) \<and> wait_fut_ok (cond_holds cond t' s) (un_owed s) (sy_futs sys ! i)"
    if t': "t' < length (un_tasks s)" "(un_tasks s)[t := pc] ! t' = UWait i" for t' i
  proof (cases "t' = t")
    case True
    then show ?thesis using t' pc by simp
  next
    case False
    then have u: "un_tasks s ! t' = UWait i" using t'(2) by simp
    have "\<not> touches i l" using l(2) d(5) [OF t'(1) t u] False by blast
    then show ?thesis using sync_step_kept [OF step d(3) [OF t'(1) u]] kept_ok [OF d(4) [OF t'(1) u]] by blast
  qed
  moreover have "t1 = t2" if "t1 < length (un_tasks s)" "t2 < length (un_tasks s)"
    "(un_tasks s)[t := pc] ! t1 = UWait i" "(un_tasks s)[t := pc] ! t2 = UWait i" for t1 t2 i
    using that t pc [of i] d(3,5) by (cases "t1 = t"; cases "t2 = t") (auto, (metis not_le)+)
  ultimately show ?thesis
    using sync.inv_step [OF d(1) step] g data unfolding until_inv_def cond_holds_def set_until_def by simp
qed

lemma count_list_update:
  "t < length xs \<Longrightarrow> count_list (xs[t := y]) x + of_bool (xs ! t = x) = count_list xs x + of_bool (y = x)"
proof (induction xs arbitrary: t)
  case (Cons a xs)
  then show ?case by (cases t) auto
qed simp

lemma until_inv_same_sync:
  assumes inv: "until_inv cond s" and t: "t < length (un_tasks s)" "un_tasks s ! t = UHold"
  shows "until_inv cond (set_until t UReturned (un_sync s) s)"
proof -
  note d = until_invD [OF inv]
  have count: "count_list ((un_tasks s)[t := UReturned]) UHold \<le> sy_guards (un_sync s)"
    using count_list_update [OF t(1), of UReturned UHold] d(2) by simp
  have old: "un_tasks s ! t' = UWait i" if "(un_tasks s)[t := UReturned] ! t' = UWait i" "t' < length (un_tasks s)" for t' i
    using that by (cases "t' = t") auto
  show ?thesis
    using d(1) count by (simp add: until_inv_def set_until_def cond_holds_def) (metis old d(3,5) d(4) [unfolded cond_holds_def])
qed

definition pure_conditions :: "(nat \<Rightarrow> 'v \<Rightarrow> bool \<times> 'v) \<Rightarrow> bool" where
  "pure_conditions cond \<longleftrightarrow> (\<forall>t v. snd (cond t v) = v)"

lemma until_check_pure:
  assumes "pure_conditions cond"
  shows "until_check (cond t) t s =
    (if cond_holds cond t s then Some (set_until t UReturned (un_sync s) s)
     else map_option (\<lambda>sys. set_until t (UWait (length (sy_futs (un_sync s)))) sys s) (sync_step CvWait (un_sync s)))"
proof -
  have "cond t (mx_data (sy_mutex (un_sync s))) = (cond_holds cond t s, mx_data (sy_mutex (un_sync s)))"
    using assms by (simp add: pure_conditions_def cond_holds_def prod_eq_iff)
  moreover have "(un_sync s)\<lparr>sy_mutex := guard_deref_mut (mx_data (sy_mutex (un_sync s))) (sy_mutex (un_sync s))\<rparr> = un_sync s"
    by (simp add: guard_deref_mut_def)
  ultimately show ?thesis by (simp add: until_check_def guard_deref_def Let_def del: sync_step.simps)
qed

lemma until_inv_check:
  assumes inv: "until_inv cond s" and t: "t < length (un_tasks s)" "un_tasks s ! t = UHold" and p: "pure_conditions cond"
    and step: "until_check (cond t) t s = Some u"
  shows "until_inv cond u"
proof (cases "cond_holds cond t s")
  case True
  then show ?thesis using until_inv_same_sync [OF inv t] step by (simp add: until_check_pure [OF p])
next
  case False
  let ?i = "length (sy_futs (un_sync s))"
  have "until_check (cond t) t s = map_option (\<lambda>sys. set_until t (UWait ?i) sys s) (sync_step CvWait (un_sync s))"
    using False by (simp add: until_check_pure [OF p] del: sync_step.simps)
  then obtain sys where c: "sync_step CvWait (un_sync s) = Some sys" and u: "u = set_until t (UWait ?i) sys s"
    using step by (cases "sync_step CvWait (un_sync s)") (simp_all del: sync_step.simps)
  then have sys: "sy_futs sys = sy_futs (un_sync s) @ [new_fut KCvInit]" "Suc (sy_guards sys) = sy_guards (un_sync s)"
    by (auto split: if_splits)
  have "count_list ((un_tasks s)[t := UWait ?i]) UHold \<le> sy_guards sys"
    using count_list_update [OF t(1), of "UWait ?i" UHold] t(2) until_invD(2) [OF inv] sys(2) by simp
  then show ?thesis
    unfolding u using sys(1) False
    by (intro until_inv_move [OF inv t(1) c]) (auto simp: new_fut_def wait_fut_ok_def)
qed

lemma until_inv_poll:
  assumes inv: "until_inv cond s" and t: "t < length (un_tasks s)" "un_tasks s ! t = UWait i"
    and l: "l = Poll i wk \<or> l = PollRest i" and step: "sync_step l (un_sync s) = Some sys"
  shows "until_inv cond (until_resume t i s sys)"
proof -
  note d = until_invD [OF inv]
  have i: "i < length (sy_futs sys)"
    using d(3) [OF t] l step
    by (auto simp: sync_poll_def sync_poll_rest_def set_fut_def poll_lock_def Let_def release_futs
        split: if_splits prod.splits sync_kind.splits poll.splits)
  consider "fu_kind (sy_futs sys ! i) = KDone" "sy_guards sys = Suc (sy_guards (un_sync s))"
    | "fu_kind (sy_futs sys ! i) \<noteq> KDone" "wait_fut_ok (cond_holds cond t s) (un_owed s) (sy_futs sys ! i)"
      "sy_guards sys = sy_guards (un_sync s)"
    using poll_until_effect [OF d(4) [OF t] d(3) [OF t], of wk sys] l step by blast
  then show ?thesis
  proof cases
    case 1
    have "count_list ((un_tasks s)[t := UHold]) UHold \<le> sy_guards sys"
      using count_list_update [OF t(1), of UHold UHold] t(2) d(2) 1(2) by simp
    then show ?thesis
      unfolding until_resume_def using 1 l t(2) by (auto intro!: until_inv_move [OF inv t(1) step])
  next
    case 2
    have "count_list ((un_tasks s)[t := UWait i]) UHold \<le> sy_guards sys"
      using count_list_update [OF t(1), of "UWait i" UHold] t(2) d(2) 2(3) by simp
    then show ?thesis
      unfolding until_resume_def using 2 l t(2) i by (auto intro!: until_inv_move [OF inv t(1) step])
  qed
qed

lemma until_inv_drop:
  assumes inv: "until_inv cond s" and t: "t < length (un_tasks s)"
    and l: "un_tasks s ! t = UHold \<and> l = DropGuard \<or> (\<exists>i. un_tasks s ! t = UWait i \<and> l = DropFuture i)"
    and step: "sync_step l (un_sync s) = Some sys"
  shows "until_inv cond (set_until t UGone sys s)"
proof -
  have "count_list ((un_tasks s)[t := UGone]) UHold \<le> sy_guards sys"
    using count_list_update [OF t, of UGone UHold] until_invD(2) [OF inv] l step
    by (auto simp: sync_drop_def set_fut_def Let_def split: if_splits sync_kind.splits)
  then show ?thesis using l by (intro until_inv_move [OF inv t step]) auto
qed

lemma until_inv_step:
  assumes inv: "until_inv cond s" and p: "pure_conditions cond" and step: "until_step cond l s = Some u"
  shows "until_inv cond u"
proof (cases l)
  case WaitUntil
  then show ?thesis
    using step inv unfolding until_inv_def cond_holds_def
    by (auto simp: free_guard_def nth_append less_Suc_eq split: if_splits)
next
  case (Check t)
  then show ?thesis
    using step until_inv_check [OF inv _ _ p] by (auto simp: until_task_def split: if_splits)
next
  case (PollUntil t wk)
  then show ?thesis
    using step until_inv_poll [OF inv _ _ disjI1 [OF refl]]
    by (auto simp: until_task_def simp del: sync_step.simps split: if_splits until_pc.splits)
next
  case (PollUntilRest t)
  then show ?thesis
    using step until_inv_poll [OF inv _ _ disjI2 [OF refl]]
    by (auto simp: until_task_def simp del: sync_step.simps split: if_splits until_pc.splits)
next
  case (DropUntil t)
  then show ?thesis
    using step until_inv_drop [OF inv]
    by (auto simp: until_task_def simp del: sync_step.simps split: if_splits until_pc.splits)
next
  case (OtherTask l)
  then obtain sys where o: "other_ok s l" "sync_step l (un_sync s) = Some sys"
    and u: "u = s\<lparr>un_sync := sys, un_owed := owed_after l (un_owed s)\<rparr>"
    using step by (auto split: if_splits)
  show ?thesis
  proof (cases "l = NotifyAll \<or> (\<exists>v. l = Assign v)")
    case True
    then show ?thesis
      using until_inv_notify_all [OF inv] until_inv_assign [OF inv] o u by auto
  next
    case False
    then have "owed_after l (un_owed s) = un_owed s" by (cases l) auto
    then show ?thesis
      using until_inv_other [OF inv o(2,1) _ _ other_guards [OF inv o(2,1)]] False u by auto
  qed
qed

lemma until_inv_init: "until_init s \<Longrightarrow> until_inv cond s"
  using sync.inv_init [of "sync_new v" for v] by (fastforce simp: until_init_def until_new_def until_inv_def sync_init_def)

lemma until_reach_inv:
  assumes "pure_conditions cond" "reach until_init (until_step cond) s"
  shows "until_inv cond s"
  using assms(2) by (induction rule: reach.induct) (auto intro: until_inv_init until_inv_step [OF _ assms(1)])

section \<open>Properties\<close>

text \<open>With the guard and a true condition the loop ends; with a free mutex a poll of the inner lock gets the guard.\<close>

lemma check_returns:
  assumes "pure_conditions cond" "until_task t s = UHold" "cond_holds cond t s"
  shows "\<exists>u. until_step cond (Check t) s = Some u \<and> until_task t u = UReturned \<and>
    mx_locked (sy_mutex (un_sync u)) = mx_locked (sy_mutex (un_sync s)) \<and> cond_holds cond t u"
  using assms(2,3)
  by (auto simp: until_check_pure [OF assms(1)] set_until_def until_task_def cond_holds_def split: if_splits)

lemma relock_resumes:
  assumes "until_task t s = UWait i" "i < length (sy_futs (un_sync s))" "\<not> mx_locked (sy_mutex (un_sync s))"
  shows "until_task t (until_resume t i s (poll_lock i KCvRelock wk b (un_sync s))) = UHold"
    and "mx_locked (sy_mutex (un_sync (until_resume t i s (poll_lock i KCvRelock wk b (un_sync s)))))"
    and "cond_holds cond t (until_resume t i s (poll_lock i KCvRelock wk b (un_sync s))) = cond_holds cond t s"
  using assms
  by (auto simp: until_resume_def set_until_def until_task_def poll_lock_def lock_poll_def set_fut_def cond_holds_def
      split: if_splits)

lemma relock_returns:
  assumes p: "pure_conditions cond" and t: "until_task t s = UWait i" "i < length (sy_futs (un_sync s))"
    and free: "\<not> mx_locked (sy_mutex (un_sync s))" and c: "cond_holds cond t s"
    and kind: "fu_kind (sy_futs (un_sync s) ! i) = KCvUnparked \<and> l = PollUntilRest t \<or>
      fu_kind (sy_futs (un_sync s) ! i) = KCvRelock \<and> l = PollUntil t wk"
  shows "\<exists>u. run (until_step cond) [l, Check t] s = Some u \<and> until_task t u = UReturned \<and>
    mx_locked (sy_mutex (un_sync u)) \<and> cond_holds cond t u"
proof -
  obtain w b where step: "until_step cond l s = Some (until_resume t i s (poll_lock i KCvRelock w b (un_sync s)))"
    using t kind by (auto simp: sync_poll_def sync_poll_rest_def Let_def)
  note r = relock_resumes [OF t free, where wk = w and b = b]
  obtain u where "until_step cond (Check t) (until_resume t i s (poll_lock i KCvRelock w b (un_sync s))) = Some u"
    "until_task t u = UReturned" "mx_locked (sy_mutex (un_sync u))" "cond_holds cond t u"
    using check_returns [OF p r(1)] r(2,3) c by (auto simp del: until_step.simps)
  then show ?thesis using step by (simp del: until_step.simps)
qed

text \<open>
  C19. \<open>wait_until\<close> misses no change.  When the condition of a waiting task holds and every change of the
  data has been followed by a \<open>notify_all\<close>, the task was woken if its \<open>CondvarWait\<close> still waits for a
  notification, however the change, the notification and the two halves of its registration were
  interleaved; and as soon as the mutex is free, at most three steps of its own bring it to return
  with the guard held and the condition true.
\<close>
theorem wait_until_misses_no_change:
  fixes s :: "'a until_sys"
  assumes p: "pure_conditions cond" and "reach until_init (until_step cond) s"
    and t: "until_task t s = UWait i" and "\<not> un_owed s" "cond_holds cond t s"
  shows "(fu_kind (sy_futs (un_sync s) ! i) = KCvWaiting \<longrightarrow> fu_woken (sy_futs (un_sync s) ! i)) \<and>
    (\<not> mx_locked (sy_mutex (un_sync s)) \<longrightarrow>
      (\<forall>wk. \<exists>ls u. length ls \<le> 3 \<and> set ls \<subseteq> {PollUntil t wk, PollUntilRest t, Check t} \<and>
        run (until_step cond) ls s = Some u \<and> until_task t u = UReturned \<and> mx_locked (sy_mutex (un_sync u)) \<and> cond_holds cond t u))"
proof -
  have inv: "until_inv cond s" by (rule until_reach_inv [OF assms(1,2)])
  have t': "t < length (un_tasks s)" "un_tasks s ! t = UWait i" using t by (auto simp: until_task_def split: if_splits)
  note d = until_invD [OF inv]
  have i: "i < length (sy_futs (un_sync s))" by (rule d(3) [OF t'])
  have ok: "wait_fut_ok True False (sy_futs (un_sync s) ! i)" using d(4) [OF t'] assms(4,5) by simp
  have "\<exists>ls u. length ls \<le> 3 \<and> set ls \<subseteq> {PollUntil t wk, PollUntilRest t, Check t} \<and>
        run (until_step cond) ls s = Some u \<and> until_task t u = UReturned \<and> mx_locked (sy_mutex (un_sync u)) \<and> cond_holds cond t u"
    if free: "\<not> mx_locked (sy_mutex (un_sync s))" for wk
  proof (cases "fu_kind (sy_futs (un_sync s) ! i) = KCvWaiting")
    case True
    define s1 where "s1 = until_resume t i s (set_fut i \<lparr>fu_kind = KCvUnparked, fu_id = None, fu_waker = wk, fu_woken = False\<rparr>
          ((un_sync s)\<lparr>sy_cv := unpark (fu_id (sy_futs (un_sync s) ! i)) (sy_cv (un_sync s))\<rparr>))"
    have one: "until_step cond (PollUntil t wk) s = Some s1" using t i True by (simp add: sync_poll_def s1_def)
    have s1: "until_task t s1 = UWait i" "i < length (sy_futs (un_sync s1))" "\<not> mx_locked (sy_mutex (un_sync s1))"
      "cond_holds cond t s1" "fu_kind (sy_futs (un_sync s1) ! i) = KCvUnparked"
      using t t' i free assms(5) by (simp_all add: s1_def until_resume_def set_until_def until_task_def set_fut_def cond_holds_def)
    obtain u where "run (until_step cond) [PollUntilRest t, Check t] s1 = Some u" "until_task t u = UReturned"
      "mx_locked (sy_mutex (un_sync u))" "cond_holds cond t u"
      using relock_returns [OF p s1(1-4), of "PollUntilRest t"] s1(5) by blast
    then show ?thesis
      using one by (intro exI [of _ "[PollUntil t wk, PollUntilRest t, Check t]"] exI [of _ u]) (simp del: until_step.simps)
  next
    case False
    then obtain l :: "'a until_label" where "l \<in> {PollUntil t wk, PollUntilRest t}"
      "fu_kind (sy_futs (un_sync s) ! i) = KCvUnparked \<and> l = PollUntilRest t \<or>
        fu_kind (sy_futs (un_sync s) ! i) = KCvRelock \<and> l = PollUntil t wk"
      using ok by (auto simp: wait_fut_ok_def split: sync_kind.splits)
    then show ?thesis
      using relock_returns [OF p t i free assms(5), of l wk] by (intro exI [of _ "[l, Check t]"]) auto
  qed
  moreover have "fu_kind (sy_futs (un_sync s) ! i) = KCvWaiting \<longrightarrow> fu_woken (sy_futs (un_sync s) ! i)"
    using ok by (auto simp: wait_fut_ok_def split: sync_kind.splits)
  ultimately show ?thesis by blast
qed

text \<open>A task waits for a positive number; another task, which got the mutex in between, writes 5 and notifies.\<close>

definition until_demo :: "nat \<Rightarrow> nat \<Rightarrow> bool \<times> nat" where
  "until_demo t v = (0 < v, v)"

definition until_labels :: "nat until_label list" where
  "until_labels = [OtherTask TryLock, WaitUntil, Check 0, PollUntil 0 7, PollUntilRest 0, OtherTask TryLock,
     OtherTask (Assign 5), OtherTask NotifyAll, OtherTask DropGuard]"

theorem wait_until_misses_no_change_witness:
  "\<exists>s ls u. run (until_step until_demo) until_labels (until_new 0) = Some s \<and> until_task 0 s = UWait 0 \<and>
     fu_woken (sy_futs (un_sync s) ! 0) \<and> run (until_step until_demo) ls s = Some u \<and> until_task 0 u = UReturned"
proof -
  have "case run (until_step until_demo) until_labels (until_new 0) of None \<Rightarrow> False
    | Some s \<Rightarrow> until_task 0 s = UWait 0 \<and> \<not> un_owed s \<and> cond_holds until_demo 0 s \<and> \<not> mx_locked (sy_mutex (un_sync s)) \<and>
        fu_kind (sy_futs (un_sync s) ! 0) = KCvWaiting"
    by code_simp
  then obtain s where s: "run (until_step until_demo) until_labels (until_new 0) = Some s" "until_task 0 s = UWait 0"
    "\<not> un_owed s" "cond_holds until_demo 0 s" "\<not> mx_locked (sy_mutex (un_sync s))" "fu_kind (sy_futs (un_sync s) ! 0) = KCvWaiting"
    by (auto split: option.splits)
  have "reach until_init (until_step until_demo) s" by (rule reach_init_run [OF _ s(1)]) (auto simp: until_init_def)
  moreover have "pure_conditions until_demo" by (simp add: pure_conditions_def until_demo_def)
  ultimately show ?thesis
    using wait_until_misses_no_change [of until_demo s 0 0] s by blast
qed

end
