(* ===== verification/Spec2Isabelle.thy ===== *)
theory Spec2Isabelle
  imports Pool_Order Pump_Threads Repeating_Timer_Model Io_Task_Runner_Model Async_Mutex_Model Async_Rwlock_Model
    Async_Barrier_Model Async_Channel_Model Socket_Deadlines File_Proxy_Model Tcp_Sockets_Model
    Tls_Sharing Stream_Sockets Runner_Lifetime Block_On_Model Async_Stream_Model Async_File_Model Async_Stdout_Model
    Async_Net_Model Task_Context_Model Async_Stream_Socket Runtime_Model Async_File_Writes
    Async_Fs_Model Async_Socket_Life Pool_Refinement Runner_Refinement Condvar_Until
begin

text \<open>
  A verification of \<open>rust_base\<close>, a Rust port of Chromium's task and IO stack.

  \<^bold>\<open>The program.\<close>  \<open>rust_task\<close> is a thread pool: tasks are posted to sequences, sequences wait in a
  priority queue, worker threads claim a sequence, run one of its tasks and put it back; a timer
  thread wakes sequences whose delayed tasks are due; a tracker decides what shutdown waits for.
  \<open>rust_io\<close> is a thread that runs an epoll loop and a task queue, with descriptor watches whose
  callbacks run on that thread, and a file proxy that moves blocking calls to the pool.  \<open>rust_net\<close> has
  callback sockets over the watches, TCP helpers and a TLS client.  \<open>rust_async\<close> builds futures on top: a
  reactor that turns watches into wake-ups, timers, offloaded jobs, synchronisation primitives,
  streams, files and sockets; futures are polled by the pool, by an IO thread or by \<open>block_on\<close>.

  \<^bold>\<open>Theories.\<close>
    \<^item> \<open>Prelude\<close>: collections of rewrite rules, list and option lemmas, the types of times, errors, bytes.
    \<^item> \<open>Binary_Heap\<close>: \<open>std::collections::BinaryHeap\<close> as an array heap, with a locale for an order and
      what push and pop do to the multiset of elements.
    \<^item> \<open>Task_Model\<close>: \<open>task.rs\<close>, \<open>task_traits.rs\<close>, \<open>sequence_token.rs\<close>, \<open>sequenced_task_runner.rs\<close> (thread
      locals and their guards).
    \<^item> \<open>Sequence_Model\<close>: \<open>thread_pool/sequence.rs\<close>; the flush of due delayed tasks, FIFO draining.
    \<^item> \<open>Queues_Model\<close>: \<open>priority_queue.rs\<close> and the entries of \<open>delayed_task_manager.rs\<close>.
    \<^item> \<open>Task_Tracker_Model\<close>, \<open>Task_Monitor_Model\<close>: \<open>task_tracker.rs\<close>, \<open>task_monitor.rs\<close>.
    \<^item> \<open>Thread_Pool_Model\<close>: \<open>thread_pool.rs\<close>, \<open>thread_group.rs\<close>, \<open>delayed_task_manager.rs\<close> and the two
      pooled runners as one machine; a step is one lock region or one atomic access of one thread,
      any thread may take the next step, and the bodies of tasks are the operations they perform.
      \<open>Pool_Ownership\<close> (no sequence on two workers), \<open>Pool_Progress\<close> (where the token of every ready
      sequence is), \<open>Pool_Shutdown\<close> (accounting, no lost wake-up, the end of all threads) and
      \<open>Pool_Order\<close> (FIFO starts, the current sequence) are its invariants.
    \<^item> \<open>Serial_Runner_Spec\<close>: what \<open>SequencedTaskRunner\<close> promises, as an abstract runner and a locale;
      \<open>Pool_Refinement\<close> and \<open>Runner_Refinement\<close> interpret it for a sequence of the pool, for the IO
      task runner and for a sequenced runtime.
    \<^item> \<open>Repeating_Timer_Model\<close>: \<open>bind.rs\<close> and \<open>timer.rs\<close>.
    \<^item> \<open>Epoll_Pump_Model\<close>: \<open>message_pump.rs\<close> and \<open>epoll_pump.rs\<close>, each call of the pump as one function;
      \<open>Pump_Threads\<close>: their system calls and lock regions as the steps of several threads, with
      descriptors that are opened and closed.  \<open>Io_Task_Runner_Model\<close>: \<open>io_task_runner.rs\<close>, again a machine over lock regions; \<open>Runner_Lifetime\<close>: the references that
      keep a runner alive, and its drop.
    \<^item> \<open>File_Proxy_Model\<close>: \<open>file_proxy.rs\<close> over the system calls as parameters.
    \<^item> \<open>Sockaddr_Model\<close>, \<open>Socket_Posix_Model\<close>, \<open>Socket_Machine\<close>, \<open>Socket_Deadlines\<close>:
      \<open>socket_posix.rs\<close>: addresses, the operations of one socket, all sockets with the pump and the
      posted deadlines, and what holds of it.  \<open>Tcp_Sockets_Model\<close>: the three TCP files.
    \<^item> \<open>Stream_Socket_Spec\<close>: \<open>stream_socket.rs\<close> as a record of operations, its contract as a locale and
      \<open>write_all\<close> as its client; \<open>Stream_Sockets\<close>: the TCP and the TLS client keep it.
    \<^item> \<open>Tls_Client_Model\<close>: \<open>tls_client_socket.rs\<close> over the TLS engine as a parameter, one operation at a
      time over the answers of a transport; \<open>Tls_Over_Tcp\<close>: any number of its operations over one
      socket of \<open>Socket_Posix_Model\<close> and the pump; \<open>Tls_Sharing\<close>: when their stream is exact and a write
      complete, and when not.
    \<^item> \<open>Wait_Set_Model\<close>: the \<open>Waiters\<close> of \<open>rust_async/sync.rs\<close> and the contract the primitives use, as a
      locale; \<open>Async_Mutex_Model\<close> (with \<open>Condvar\<close>), \<open>Condvar_Until\<close> (\<open>wait_until\<close>), \<open>Async_Rwlock_Model\<close>,
      \<open>Async_Barrier_Model\<close> and \<open>Async_Channel_Model\<close> are the primitives under arbitrary polling and dropping of futures.
    \<^item> \<open>Reactor_Model\<close>: \<open>rust_async/reactor.rs\<close> over \<open>Epoll_Pump_Model\<close>; what a source believes to be armed,
      the arms on their way to the IO thread and the watch in the pump, and why they never disagree
      for good.  \<open>Async_Net_Model\<close>: the readiness loops of \<open>net.rs\<close> and \<open>os/unix/net.rs\<close> over a source;
      \<open>Async_Stream_Socket\<close>: one stream with both of its directions, its source, the IO thread and the
      buffers of the kernel as one machine; \<open>Async_Socket_Life\<close>: constructors (the TCP
      \<open>connect\<close> over several addresses included), clones, drops and options of all asynchronous sockets
      over the table of open descriptors.
    \<^item> \<open>Async_Task_Model\<close>: the futures of \<open>task.rs\<close>, the one-shot of \<open>fs.rs\<close> and \<open>interval\<close>, with the contract
      of a cell that is filled on one thread and polled on another as a locale with four
      interpretations; \<open>Block_On_Model\<close>: \<open>block_on.rs\<close>.
    \<^item> \<open>Async_Stream_Model\<close>: \<open>stream.rs\<close> against list functions; \<open>Async_Stdio_Model\<close> and \<open>Async_Stdout_Model\<close>:
      \<open>io.rs\<close>, input and output.
    \<^item> \<open>Async_File_Model\<close>: the filesystem pool of \<open>fs.rs\<close>, the one-shot and the polled operations of \<open>File\<close>;
      \<open>Async_File_Writes\<close>: its cursor writes against the content of the file, with the jobs on the pool
      as steps of their own; \<open>Async_Fs_Model\<close>: options, positioned operations, directories and metadata
      over \<open>std::fs\<close> as a record of functions with laws, and a file system in memory that meets them.
    \<^item> \<open>Task_Context_Model\<close>: \<open>local.rs\<close> against lexical scoping, with the mutex of a task's storage; \<open>Runtime_Model\<close>: \<open>runtime.rs\<close> and \<open>executor.rs\<close>,
      spawned futures on any number of runners, polls that panic included.  The crate \<open>async_task\<close> is a record of operations on an
      abstract state; \<open>async_task_laws\<close> says how they move a view of that state.

  \<^bold>\<open>What is shown.\<close>
    \<^item> Safety of the shared state: a sequence runs on one worker at a time, a mutex has one guard, a
      lock has readers or a writer, a barrier releases full groups, a callback is called once, a stale
      generation or deadline touches nothing that is not its own.
    \<^item> No lost wake-up, as statements about reachable states: a pool with ready work has a step, a
      blocked IO thread has a signal or a timeout ahead, a parked future is woken when its primitive
      allows it to go on, a waiting direction of a source is watched after boundedly many steps of the
      IO thread, a waiting read or write of a stream that can go on is woken and its next poll returns,
      a woken future is polled by its runtime, a wake-up of \<open>block_on\<close> leads back to its poll.
    \<^item> Order and content: FIFO of sequences, IO tasks and channels, due delayed tasks in time order,
      contiguous reads, writes at their place, TLS bytes on the wire in order, write and read back.
    \<^item> Well-formed objects: an asynchronous socket is open and non-blocking while a clone of it lives, and
      no constructor, no address a \<open>connect\<close> tries in vain and no \<open>connect\<close> that is cancelled leaks a
      descriptor; the watch table and the epoll interest list agree, but for descriptors that were
      closed or whose registration raced with a cancellation.
    \<^item> Equivalence and refinement: the sequenced runners refine one abstract serial runner, the
      channel refines a closable queue, stream adapters are list
      functions, the thread-local task context is lexical scoping.
    \<^item> Ends: a worker drains its sequence, shutdown ends the threads the pool started and
      lets attached ones leave, the loops of the adapters and of the
      sockets do not spin.  And where the code does less than its documentation says (a panic in a
      blocking task or in a poll, a task posted through a runner at shutdown, two directions of one
      socket, a cancellation during a registration, nested task-locals, overlapping TLS operations), a
      theorem shows the run.

  \<^bold>\<open>Conventions.\<close>  Times are nanoseconds (\<open>nat\<close>); \<open>usize\<close> counts are \<open>nat\<close> where the code cannot reach
  \<open>2\<^sup>6\<^sup>4\<close>, generations, tokens and epoll masks are words.  A panic or an error is a value (\<open>None\<close> or the
  left of a sum).  The machines are functions that return \<open>None\<close> for a label that is not enabled; runs
  are lists of labels, so a witness is a computation.  Third-party code and the answers of system
  calls are arguments; what a theorem needs of them is a named hypothesis with a concrete instance.
  In three places the kernel is modelled instead, by what its documentation says: the interest list
  of epoll (\<open>epoll_ctl\<close>, and the removal of a closed descriptor), the two buffers of a connected stream
  (\<open>Async_Stream_Socket\<close>), and \<open>write_all_at\<close> on the content of a file, at its offset or at the end when
  the file was opened for appending (\<open>Async_File_Writes\<close>); the table of open descriptors of
  \<open>Async_Socket_Life\<close> records what the calls with those answers open and close.

  \<^bold>\<open>Bounds.\<close>  Generations and tokens are 64 bits wide and the theorems about them hold for the first
  \<open>2\<^sup>6\<^sup>4\<close> registrations or tokens, or state the bound.  Loops are total functions with a measure, or
  \<open>partial_function (option)\<close> where the inner stream decides (\<open>Async_Stream_Model\<close>), and then that they
  return is part of the theorem.  Files are shorter than \<open>2\<^sup>6\<^sup>3\<close> bytes.

  \<^bold>\<open>Assumptions on use.\<close>  The machines above the pump use \<open>register_fd\<close> as one step, on the IO thread as its
  documentation asks, and keep a watched descriptor open; what may come between its system calls and
  its lock region is in \<open>Pump_Threads\<close>.  A stream or source has one task per direction.  Where a theorem
  needs more (a pool with a worker, a reactor that was not shut down, no failed or overlapping
  transport write) the hypothesis says so.

  \<^bold>\<open>Not modelled.\<close>  Memory orderings weaker than sequential consistency: every atomic access is one step
  of the interleaving.  Spurious wake-ups of condition variables and of \<open>park\<close> are steps.  The crates
  \<open>async_task\<close> and \<open>rustls\<close> and the file system behind \<open>std::fs\<close> are parameters.  Address getters, the
  timestamps of \<open>Metadata\<close> and the instances that only forward to another one pass their arguments
  on.  Trait declarations, \<open>Display\<close> instances, tests and examples have no behaviour of their own.
\<close>

end
